(* ===== verification/Prelude.thy ===== *)
theory Prelude
  imports Main "HOL-Library.Word" "HOL-Library.Monad_Syntax"
begin

text \<open>
  Shared vocabulary of the development: the machine types of the C sources, checked memory
  accesses, circular segments of an array, and the interface of a bounded first-in first-out
  channel together with what every client of such a channel may rely on.

  \<^item> C integers of a fixed width are words; \<open>+\<close>, \<open>-\<close> and \<open>*\<close> wrap as the C operators on
    unsigned types do.
  \<^item> A C object that is accessed by index is a list. \<open>rd\<close> and \<open>wr\<close> are the checked accesses:
    \<open>None\<close> stands for the undefined behaviour of an access outside the object (and, in the
    operations built from them, for a division by zero or a failed assertion).
  \<^item> \<open>ring_seg xs s k\<close> lists the \<open>k\<close> elements of a circular array from position \<open>s\<close> on.
  \<^item> The locales \<open>fifo_channel\<close> and \<open>bounded_fifo\<close> state what a queue-like component promises;
    \<open>fifo_run_refines\<close> is proved once for every component that interprets them.
\<close>

unbundle bit_operations_syntax

type_synonym u8 = "8 word"
type_synonym u16 = "16 word"
type_synonym u32 = "32 word"
type_synonym u64 = "64 word"
type_synonym bytes = "u8 list"

named_theorems access_simps \<open>checked reads and writes of C objects\<close>
named_theorems ring_simps \<open>segments of circular arrays\<close>
named_theorems width_simps \<open>reading machine words as natural numbers\<close>

section \<open>Checked accesses\<close>

definition rd :: "'a list \<Rightarrow> nat \<Rightarrow> 'a option" where
  "rd xs i = (if i < length xs then Some (xs ! i) else None)"

definition wr :: "'a list \<Rightarrow> nat \<Rightarrow> 'a \<Rightarrow> 'a list option" where
  "wr xs i v = (if i < length xs then Some (xs[i := v]) else None)"

lemma rd_in [access_simps]: "i < length xs \<Longrightarrow> rd xs i = Some (xs ! i)"
  by (simp add: rd_def)

lemma wr_in [access_simps]: "i < length xs \<Longrightarrow> wr xs i v = Some (xs[i := v])"
  by (simp add: wr_def)

lemma rd_eq_Some [simp]: "rd xs i = Some x \<longleftrightarrow> i < length xs \<and> x = xs ! i"
  by (auto simp: rd_def)

lemma wr_eq_Some [simp]: "wr xs i v = Some ys \<longleftrightarrow> i < length xs \<and> ys = xs[i := v]"
  by (auto simp: wr_def)

lemma rd_eq_None [simp]: "rd xs i = None \<longleftrightarrow> length xs \<le> i"
  by (auto simp: rd_def)

lemma wr_eq_None [simp]: "wr xs i v = None \<longleftrightarrow> length xs \<le> i"
  by (auto simp: wr_def)

lemma bind_eq_Some [simp]:
  "Option.bind m f = Some y \<longleftrightarrow> (\<exists>x. m = Some x \<and> f x = Some y)"
  by (cases m) auto

lemma nth_update_same_image:
  "f v = f (xs ! i) \<Longrightarrow> f (xs[i := v] ! j) = f (xs ! j)"
  by (cases "i < length xs"; cases "j = i") (auto simp: list_update_beyond)

section \<open>Machine words\<close>

lemma unat_lt_exp [width_simps]: "unat (x :: 'a::len word) < 2 ^ LENGTH('a)"
  by (rule unsigned_less)

lemma unat_of_nat_small [width_simps]:
  "n < 2 ^ LENGTH('a) \<Longrightarrow> unat (of_nat n :: 'a::len word) = n"
  by (simp add: unat_of_nat)

lemma unat_ucast_small [width_simps]:
  "unat x < 2 ^ LENGTH('b) \<Longrightarrow> unat (ucast (x :: 'a::len word) :: 'b::len word) = unat x"
  by (simp add: unsigned_ucast_eq take_bit_nat_eq_self)

lemma unat_ucast_wider [width_simps]:
  "LENGTH('a) \<le> LENGTH('b) \<Longrightarrow> unat (ucast (x :: 'a::len word) :: 'b::len word) = unat x"
  by (rule unat_ucast_small) (meson less_le_trans one_le_numeral power_increasing unsigned_less)

lemma ucast_of_nat_narrow [width_simps]:
  "LENGTH('b) \<le> LENGTH('a) \<Longrightarrow> ucast (of_nat n :: 'a::len word) = (of_nat n :: 'b::len word)"
  by (rule word_unat_eq_iff [THEN iffD2]) (simp add: unsigned_ucast_eq unsigned_of_nat min_def)

text \<open>Advancing an index in a ring whose length is a power of two, as \<open>(i + 1) & (len - 1)\<close>.\<close>

lemma unat_and_pow2_minus_1:
  fixes x :: "'a::len word"
  assumes "k < LENGTH('a)"
  shows "unat (x AND (2 ^ k - 1)) = unat x mod 2 ^ k"
proof -
  have "x AND (2 ^ k - 1) = take_bit k x"
    by (simp add: take_bit_eq_mask mask_eq_exp_minus_1)
  moreover have "unat (take_bit k x) = unat x mod 2 ^ k"
    by (simp only: unsigned_take_bit_eq) (rule take_bit_eq_mod)
  ultimately show ?thesis by (rule ssubst)
qed

lemma unat_Suc_no_wrap:
  "unat x + 1 < 2 ^ LENGTH('a) \<Longrightarrow> unat (x + 1 :: 'a::len word) = unat x + 1"
  by (simp add: unat_word_ariths)

section \<open>Circular segments\<close>

lemma index_mod_less: "i < length xs \<Longrightarrow> k mod length xs < length xs"
  by (intro mod_less_divisor) auto

definition ring_seg :: "'a list \<Rightarrow> nat \<Rightarrow> nat \<Rightarrow> 'a list" where
  "ring_seg xs s k = map (\<lambda>i. xs ! ((s + i) mod length xs)) [0..<k]"

lemma length_ring_seg [simp]: "length (ring_seg xs s k) = k"
  by (simp add: ring_seg_def)

lemma ring_seg_0 [simp]: "ring_seg xs s 0 = []"
  by (simp add: ring_seg_def)

lemma ring_seg_snoc [ring_simps]:
  "ring_seg xs s (Suc k) = ring_seg xs s k @ [xs ! ((s + k) mod length xs)]"
  by (simp add: ring_seg_def)

lemma ring_seg_cong:
  assumes "length xs = length ys"
    and "\<And>i. i < k \<Longrightarrow> xs ! ((s + i) mod length xs) = ys ! ((s + i) mod length xs)"
  shows "ring_seg xs s k = ring_seg ys s k"
  using assms by (simp add: ring_seg_def)

lemma ring_seg_mod [ring_simps]: "ring_seg xs (s mod length xs) k = ring_seg xs s k"
  by (simp add: ring_seg_def mod_simps)

lemma ring_seg_Cons [ring_simps]:
  "ring_seg xs s (Suc k) = xs ! (s mod length xs) # ring_seg xs (Suc s) k"
  by (simp add: ring_seg_def upt_conv_Cons map_Suc_upt [symmetric] del: upt_Suc)

lemma mod_add_cancel_less:
  fixes i k n s :: nat
  assumes "i < n" and "k < n" and "(s + i) mod n = (s + k) mod n"
  shows "i = k"
proof -
  have *: "a = b" if "a < n" "b < n" "a \<le> b" "(s + a) mod n = (s + b) mod n" for a b
  proof -
    from that have "n dvd (s + b) - (s + a)"
      by (metis add_le_cancel_left mod_eq_dvd_iff_nat)
    then have "n dvd b - a" by simp
    with that show ?thesis by (auto dest: dvd_imp_le)
  qed
  show ?thesis
    using assms * [of i k] * [of k i] by (cases "i \<le> k") auto
qed

lemma ring_seg_update_outside:
  assumes "k \<le> length xs" and "k \<le> j" and "j < length xs"
  shows "ring_seg (xs[(s + j) mod length xs := v]) s k = ring_seg xs s k"
proof (rule ring_seg_cong)
  fix i assume "i < k"
  then have "(s + i) mod length xs \<noteq> (s + j) mod length xs"
    using assms mod_add_cancel_less [of i "length xs" j s] by auto
  then show "xs[(s + j) mod length xs := v] ! ((s + i) mod length (xs[(s + j) mod length xs := v]))
      = xs ! ((s + i) mod length (xs[(s + j) mod length xs := v]))"
    by simp
qed simp

lemma ring_seg_update_snoc:
  assumes "k < length xs"
  shows "ring_seg (xs[(s + k) mod length xs := v]) s (Suc k) = ring_seg xs s k @ [v]"
proof -
  have "(s + k) mod length xs < length xs"
    using assms by (intro mod_less_divisor) auto
  with assms show ?thesis
    by (simp only: ring_seg_snoc length_list_update nth_list_update_eq ring_seg_update_outside)
qed

text \<open>How far position \<open>w\<close> is ahead of position \<open>r\<close> in a ring of \<open>n\<close> slots.\<close>

definition ring_dist :: "nat \<Rightarrow> nat \<Rightarrow> nat \<Rightarrow> nat" where
  "ring_dist n r w = (w + n - r) mod n"

lemma ring_dist_less [ring_simps]: "0 < n \<Longrightarrow> ring_dist n r w < n"
  by (simp add: ring_dist_def)

lemma add_ring_dist [ring_simps]: "r < n \<Longrightarrow> w < n \<Longrightarrow> (r + ring_dist n r w) mod n = w"
  by (simp add: ring_dist_def mod_add_right_eq)

lemma ring_dist_add [ring_simps]:
  assumes "r < n" and "k < n"
  shows "ring_dist n r ((r + k) mod n) = k"
proof -
  have "(r + ring_dist n r ((r + k) mod n)) mod n = (r + k) mod n"
    using assms by (intro add_ring_dist) auto
  moreover have "ring_dist n r ((r + k) mod n) < n"
    using assms by (simp add: ring_dist_less)
  ultimately show ?thesis
    using assms(2) by (metis mod_add_cancel_less)
qed

lemma ring_dist_self [ring_simps]: "r < n \<Longrightarrow> ring_dist n r r = 0"
  by (simp add: ring_dist_def)

lemma ring_dist_Suc_left [ring_simps]:
  assumes "r < n" and "w < n" and "r \<noteq> w"
  shows "Suc (ring_dist n (Suc r mod n) w) = ring_dist n r w"
proof -
  let ?k = "ring_dist n r w"
  have k: "?k < n" "(r + ?k) mod n = w" using assms by (auto simp: ring_simps)
  with assms have "0 < ?k" by (cases "?k = 0") auto
  moreover have "(Suc r mod n + (?k - 1)) mod n = (Suc r + (?k - 1)) mod n"
    by (rule mod_add_left_eq)
  moreover from calculation(1) have "Suc r + (?k - 1) = r + ?k" by simp
  ultimately show ?thesis
    using ring_dist_add [of "Suc r mod n" n "?k - 1"] k assms by simp
qed

text \<open>Writing at the head and reading at the tail of a ring between positions \<open>r\<close> and \<open>w\<close>.\<close>

lemma ring_push:
  assumes "r < length xs" and "w < length xs" and "Suc (ring_dist (length xs) r w) < length xs"
  shows "ring_dist (length xs) r (Suc w mod length xs) = Suc (ring_dist (length xs) r w)"
    and "ring_seg (xs[w := v]) r (Suc (ring_dist (length xs) r w)) =
         ring_seg xs r (ring_dist (length xs) r w) @ [v]"
proof -
  let ?n = "length xs" and ?k = "ring_dist (length xs) r w"
  have w: "(r + ?k) mod ?n = w" using assms(1,2) by (rule add_ring_dist)
  then have "Suc w mod ?n = (r + Suc ?k) mod ?n" by (metis add_Suc_right mod_Suc_eq)
  then show "ring_dist ?n r (Suc w mod ?n) = Suc ?k"
    using ring_dist_add [OF assms(1,3)] by simp
  show "ring_seg (xs[w := v]) r (Suc ?k) = ring_seg xs r ?k @ [v]"
    using ring_seg_update_snoc [of ?k xs r v] assms(3) w by simp
qed

lemma ring_pop:
  assumes "r < length xs" and "w < length xs" and "r \<noteq> w"
  shows "ring_seg xs r (ring_dist (length xs) r w) =
    xs ! r # ring_seg xs (Suc r mod length xs) (ring_dist (length xs) (Suc r mod length xs) w)"
  using ring_dist_Suc_left [OF assms] assms(1)
  by (metis ring_seg_Cons ring_seg_mod mod_less)

section \<open>First-in first-out channels\<close>

text \<open>
  The specification of a bounded channel is a list with a capacity. A run is a sequence of
  operations of the two ends in the order in which they take effect; its observations are what
  the calls return.
\<close>

datatype 'a qop = Enq 'a | Deq
datatype 'a qout = Accepted | Rejected | Got 'a | NoData

fun fifo_run :: "('a \<Rightarrow> 's \<Rightarrow> 's option) \<Rightarrow> ('s \<Rightarrow> ('a \<times> 's) option) \<Rightarrow>
    'a qop list \<Rightarrow> 's \<Rightarrow> 'a qout list \<times> 's" where
  "fifo_run enq deq [] s = ([], s)"
| "fifo_run enq deq (Enq a # ops) s =
     (case enq a s of
        None \<Rightarrow> (let (os, t) = fifo_run enq deq ops s in (Rejected # os, t))
      | Some s' \<Rightarrow> (let (os, t) = fifo_run enq deq ops s' in (Accepted # os, t)))"
| "fifo_run enq deq (Deq # ops) s =
     (case deq s of
        None \<Rightarrow> (let (os, t) = fifo_run enq deq ops s in (NoData # os, t))
      | Some (a, s') \<Rightarrow> (let (os, t) = fifo_run enq deq ops s' in (Got a # os, t)))"

definition spec_enq :: "nat \<Rightarrow> 'a \<Rightarrow> 'a list \<Rightarrow> 'a list option" where
  "spec_enq cap a q = (if length q < cap then Some (q @ [a]) else None)"

definition spec_deq :: "'a list \<Rightarrow> ('a \<times> 'a list) option" where
  "spec_deq q = (case q of [] \<Rightarrow> None | a # q' \<Rightarrow> Some (a, q'))"

primrec enq_all :: "('a \<Rightarrow> 's \<Rightarrow> 's option) \<Rightarrow> 'a list \<Rightarrow> 's \<Rightarrow> 's option" where
  "enq_all enq [] s = Some s"
| "enq_all enq (a # as) s = Option.bind (enq a s) (enq_all enq as)"

primrec deq_n :: "('s \<Rightarrow> ('a \<times> 's) option) \<Rightarrow> nat \<Rightarrow> 's \<Rightarrow> ('a list \<times> 's) option" where
  "deq_n deq 0 s = Some ([], s)"
| "deq_n deq (Suc n) s =
     (case deq s of None \<Rightarrow> None
      | Some (a, s') \<Rightarrow> map_option (\<lambda>(as, t). (a # as, t)) (deq_n deq n s'))"

text \<open>
  A channel: while there is room an element that the channel can carry is appended, and the
  receiving end takes elements out in the order they were put in. Nothing is said about a full
  channel, so that channels without flow control have this interface too.
\<close>

locale fifo_channel =
  fixes inv :: "'s \<Rightarrow> bool"
    and contents :: "'s \<Rightarrow> 'a list"
    and capacity :: "'s \<Rightarrow> nat"
    and valid :: "'a \<Rightarrow> bool"
    and enq :: "'a \<Rightarrow> 's \<Rightarrow> 's option"
    and deq :: "'s \<Rightarrow> ('a \<times> 's) option"
  assumes enq_room: "inv s \<Longrightarrow> valid a \<Longrightarrow> length (contents s) < capacity s \<Longrightarrow>
      \<exists>s'. enq a s = Some s' \<and> inv s' \<and> contents s' = contents s @ [a] \<and> capacity s' = capacity s"
    and deq_some: "inv s \<Longrightarrow> contents s = a # q \<Longrightarrow>
      \<exists>s'. deq s = Some (a, s') \<and> inv s' \<and> contents s' = q \<and> capacity s' = capacity s"
    and deq_none: "inv s \<Longrightarrow> contents s = [] \<Longrightarrow> deq s = None"
begin

lemma enq_all_room:
  "inv s \<Longrightarrow> list_all valid as \<Longrightarrow> length (contents s) + length as \<le> capacity s \<Longrightarrow>
   \<exists>s'. enq_all enq as s = Some s' \<and> inv s' \<and> contents s' = contents s @ as \<and> capacity s' = capacity s"
proof (induction as arbitrary: s)
  case Nil
  then show ?case by simp
next
  case (Cons a as)
  from Cons.prems obtain s1 where "enq a s = Some s1" "inv s1"
    "contents s1 = contents s @ [a]" "capacity s1 = capacity s"
    using enq_room [of s a] by auto
  moreover from this Cons obtain s2 where "enq_all enq as s1 = Some s2" "inv s2"
    "contents s2 = contents s1 @ as" "capacity s2 = capacity s1"
    using Cons.IH [of s1] by auto
  ultimately show ?case by simp
qed

lemma deq_n_prefix:
  "inv s \<Longrightarrow> contents s = as @ q \<Longrightarrow>
   \<exists>s'. deq_n deq (length as) s = Some (as, s') \<and> inv s' \<and> contents s' = q \<and> capacity s' = capacity s"
proof (induction as arbitrary: s)
  case Nil
  then show ?case by simp
next
  case (Cons a as)
  from Cons.prems obtain s1 where "deq s = Some (a, s1)" "inv s1" "contents s1 = as @ q"
    "capacity s1 = capacity s"
    using deq_some [of s a "as @ q"] by auto
  moreover from this Cons.IH [of s1] obtain s2 where "deq_n deq (length as) s1 = Some (as, s2)"
    "inv s2" "contents s2 = q" "capacity s2 = capacity s1" by auto
  ultimately show ?case by simp
qed

text \<open>What is put into an empty channel comes out, in order, and leaves it empty.\<close>

lemma send_receive:
  assumes "inv s" and "contents s = []" and "list_all valid as" and "length as \<le> capacity s"
  shows "\<exists>s1 s2. enq_all enq as s = Some s1 \<and> deq_n deq (length as) s1 = Some (as, s2) \<and>
           inv s2 \<and> contents s2 = [] \<and> deq s2 = None"
proof -
  from enq_all_room [OF assms(1,3)] assms(2,4) obtain s1 where
    s1: "enq_all enq as s = Some s1" "inv s1" "contents s1 = as @ []" by auto
  from deq_n_prefix [OF s1(2,3)] s1(1) show ?thesis
    using deq_none by blast
qed

end

text \<open>A channel with flow control also refuses to overrun.\<close>

locale bounded_fifo = fifo_channel +
  assumes enq_full: "inv s \<Longrightarrow> valid a \<Longrightarrow> capacity s \<le> length (contents s) \<Longrightarrow> enq a s = None"
begin

text \<open>
  Under every interleaving of the two ends the channel is observationally the bounded list.
\<close>

lemma fifo_run_refines:
  assumes "inv s" and "\<And>a. Enq a \<in> set ops \<Longrightarrow> valid a"
  shows "fst (fifo_run enq deq ops s) = fst (fifo_run (spec_enq (capacity s)) spec_deq ops (contents s))
    \<and> inv (snd (fifo_run enq deq ops s))
    \<and> contents (snd (fifo_run enq deq ops s)) =
        snd (fifo_run (spec_enq (capacity s)) spec_deq ops (contents s))
    \<and> capacity (snd (fifo_run enq deq ops s)) = capacity s"
  using assms
proof (induction ops arbitrary: s)
  case Nil
  then show ?case by simp
next
  case (Cons x ops)
  show ?case
  proof (cases x)
    case (Enq a)
    with Cons.prems have va: "valid a" by simp
    show ?thesis
    proof (cases "length (contents s) < capacity s")
      case True
      from enq_room [OF Cons.prems(1) va True] obtain s' where s':
        "enq a s = Some s'" "inv s'" "contents s' = contents s @ [a]" "capacity s' = capacity s"
        by blast
      with Cons.IH [of s'] Cons.prems Enq True show ?thesis
        by (simp add: spec_enq_def split_def Let_def)
    next
      case False
      with enq_full [OF Cons.prems(1) va] Cons.IH [of s] Cons.prems Enq show ?thesis
        by (simp add: spec_enq_def split_def Let_def)
    qed
  next
    case Deq
    show ?thesis
    proof (cases "contents s")
      case Nil
      with deq_none [OF Cons.prems(1)] Cons.IH [of s] Cons.prems Deq show ?thesis
        by (simp add: spec_deq_def split_def Let_def)
    next
      case (Cons a q)
      from deq_some [OF Cons.prems(1) this] obtain s' where s':
        "deq s = Some (a, s')" "inv s'" "contents s' = q" "capacity s' = capacity s"
        by blast
      with Cons.IH [of s'] Cons.prems Deq Cons show ?thesis
        by (simp add: spec_deq_def split_def Let_def)
    qed
  qed
qed

end

end
