(* ===== verification/RingBuffer.thy ===== *)
theory RingBuffer
  imports Prelude
begin

text \<open>
  libringbuffer (\<open>src/libringbuffer/src/ringbuffer.c\<close>): a unidirectional byte channel over a
  shared region, with a handle for the sending and one for the receiving side. A zero byte marks
  the slot where the next byte is expected; there is no flow control.

  The shared region is a list of bytes passed explicitly (the \<open>base\<close> pointer of the source
  denotes its start), a handle is the record \<open>ringbuffer\<close>. \<open>None\<close> is undefined behaviour: an
  access outside the region or a remainder by a zero size. The byte operations are atomic with
  respect to the other side. A busy wait consumes one snapshot of the region per poll; it is
  still waiting when the given snapshots are used up.

  The section on the link shows that the channel is first-in first-out as long as the sender
  does not overrun (an interpretation of \<open>fifo_channel\<close>), what an overrun loses, and how the
  return values of the block operations and of \<open>rb_has_data\<close> behave.
\<close>

section \<open>The operations\<close>

record ringbuffer =
  rb_size :: u64
  rb_offset :: u64

definition rb_new :: "bool \<Rightarrow> u64 \<Rightarrow> ringbuffer option" where
  "rb_new malloc_ok sz =
     (if \<not> malloc_ok then None else Some \<lparr>rb_size = sz, rb_offset = 0\<rparr>)"

text \<open>
  The handles that are allocated, by address. Freeing a null pointer does nothing, freeing anything else that is not allocated is undefined.
\<close>

definition rb_destroy :: "u64 \<Rightarrow> (u64 \<rightharpoonup> ringbuffer) \<Rightarrow> (u64 \<rightharpoonup> ringbuffer) option" where
  "rb_destroy r heap = (if r = 0 then Some heap else case heap r of None \<Rightarrow> None | Some _ \<Rightarrow> Some (heap(r := None)))"

definition rb_has_data :: "bytes \<Rightarrow> ringbuffer \<Rightarrow> int option" where
  "rb_has_data base r = do {
     b \<leftarrow> rd base (unat (rb_offset r));
     Some (if b = 0 then 1 else 0) }"

text \<open>The remainder \<open>(r->offset + 1) % r->size\<close>, undefined for a zero size.\<close>

definition rb_next :: "ringbuffer \<Rightarrow> u64 option" where
  "rb_next r = (if rb_size r = 0 then None else Some ((rb_offset r + 1) mod rb_size r))"

definition rb_transmit_byte :: "bytes \<Rightarrow> ringbuffer \<Rightarrow> u8 \<Rightarrow> (bytes \<times> ringbuffer) option" where
  "rb_transmit_byte base r c =
     (if c = 0 then Some (base, r)
      else do {
        next \<leftarrow> rb_next r;
        base1 \<leftarrow> wr base (unat next) 0;
        base2 \<leftarrow> wr base1 (unat (rb_offset r)) c;
        Some (base2, r\<lparr>rb_offset := next\<rparr>) })"

definition rb_poll_byte :: "bytes \<Rightarrow> ringbuffer \<Rightarrow> (u8 \<times> ringbuffer) option" where
  "rb_poll_byte base r = do {
     b \<leftarrow> rd base (unat (rb_offset r));
     if b \<noteq> 0 then do {
       c \<leftarrow> rd base (unat (rb_offset r));
       next \<leftarrow> rb_next r;
       Some (c, r\<lparr>rb_offset := next\<rparr>) }
     else Some (0, r) }"

datatype 'a wait = Done 'a | Waiting ringbuffer

fun rb_receive_byte :: "bytes list \<Rightarrow> ringbuffer \<Rightarrow> (u8 \<times> ringbuffer \<times> bytes list) wait option" where
  "rb_receive_byte [] r = Some (Waiting r)"
| "rb_receive_byte (base # env) r = do {
     (c, r') \<leftarrow> rb_poll_byte base r;
     if c = 0 then rb_receive_byte env r' else Some (Done (c, r', env)) }"

text \<open>A C string is read up to its terminator; running off the end is undefined.\<close>

fun rb_transmit_string :: "bytes \<Rightarrow> ringbuffer \<Rightarrow> bytes \<Rightarrow> u64 \<Rightarrow> (u64 \<times> bytes \<times> ringbuffer) option" where
  "rb_transmit_string base r [] sent = None"
| "rb_transmit_string base r (c # s) sent =
     (if c = 0 then Some (sent, base, r)
      else do {
        (base', r') \<leftarrow> rb_transmit_byte base r c;
        rb_transmit_string base' r' s (sent + 1) })"

fun rb_transmit_loop :: "bytes \<Rightarrow> ringbuffer \<Rightarrow> bytes \<Rightarrow> nat \<Rightarrow> (bytes \<times> ringbuffer) option" where
  "rb_transmit_loop base r s 0 = Some (base, r)"
| "rb_transmit_loop base r [] (Suc len) = None"
| "rb_transmit_loop base r (c # s) (Suc len) = do {
     (base', r') \<leftarrow> rb_transmit_byte base r c;
     rb_transmit_loop base' r' s len }"

definition rb_transmit :: "bytes \<Rightarrow> ringbuffer \<Rightarrow> bytes \<Rightarrow> u64 \<Rightarrow> (u64 \<times> bytes \<times> ringbuffer) option" where
  "rb_transmit base r src len = do {
     (base', r') \<leftarrow> rb_transmit_loop base r src (unat len);
     let sent = 0;
     Some (sent, base', r') }"

text \<open>The receiving loops; the bytes stored at the destination are the first component.\<close>

fun rb_receive_loop :: "bytes list \<Rightarrow> ringbuffer \<Rightarrow> nat \<Rightarrow> (bytes \<times> ringbuffer \<times> bytes list) wait option" where
  "rb_receive_loop env r 0 = Some (Done ([], r, env))"
| "rb_receive_loop env r (Suc len) =
     (case rb_receive_byte env r of
        None \<Rightarrow> None
      | Some (Waiting r') \<Rightarrow> Some (Waiting r')
      | Some (Done (c, r', env')) \<Rightarrow>
          (case rb_receive_loop env' r' len of
             None \<Rightarrow> None
           | Some (Waiting r'') \<Rightarrow> Some (Waiting r'')
           | Some (Done (cs, r'', env'')) \<Rightarrow> Some (Done (c # cs, r'', env''))))"

definition rb_receive_string :: "bytes list \<Rightarrow> ringbuffer \<Rightarrow> u64 \<Rightarrow> (u64 \<times> bytes \<times> ringbuffer) wait option" where
  "rb_receive_string env r len =
     (case rb_receive_loop env r (unat len) of
        None \<Rightarrow> None
      | Some (Waiting r') \<Rightarrow> Some (Waiting r')
      | Some (Done (s, r', _)) \<Rightarrow> (let received = 0 in Some (Done (received, s, r'))))"

definition rb_receive_data :: "bytes list \<Rightarrow> ringbuffer \<Rightarrow> u64 \<Rightarrow> (u64 \<times> bytes \<times> ringbuffer) wait option" where
  "rb_receive_data env r len =
     (case rb_receive_loop env r (unat len) of
        None \<Rightarrow> None
      | Some (Waiting r') \<Rightarrow> Some (Waiting r')
      | Some (Done (dest, r', _)) \<Rightarrow> (let received = 0 in Some (Done (received, dest, r'))))"

section \<open>The link between a sender and a receiver\<close>

record rb_link =
  region :: bytes
  tx :: ringbuffer
  rx :: ringbuffer

definition link_new :: "bytes \<Rightarrow> rb_link option" where
  "link_new base = do {
     s \<leftarrow> rb_new True (of_nat (length base));
     d \<leftarrow> rb_new True (of_nat (length base));
     Some \<lparr>region = base, tx = s, rx = d\<rparr> }"

definition link_send :: "u8 \<Rightarrow> rb_link \<Rightarrow> rb_link option" where
  "link_send c l = do {
     (base, r) \<leftarrow> rb_transmit_byte (region l) (tx l) c;
     Some (l\<lparr>region := base, tx := r\<rparr>) }"

definition link_poll :: "rb_link \<Rightarrow> (u8 \<times> rb_link) option" where
  "link_poll l = do {
     (c, r) \<leftarrow> rb_poll_byte (region l) (rx l);
     if c = 0 then None else Some (c, l\<lparr>rx := r\<rparr>) }"

definition link_size :: "rb_link \<Rightarrow> nat" where
  "link_size l = length (region l)"

definition link_used :: "rb_link \<Rightarrow> nat" where
  "link_used l = ring_dist (link_size l) (unat (rb_offset (rx l))) (unat (rb_offset (tx l)))"

definition link_contents :: "rb_link \<Rightarrow> bytes" where
  "link_contents l = ring_seg (region l) (unat (rb_offset (rx l))) (link_used l)"

definition link_inv :: "rb_link \<Rightarrow> bool" where
  "link_inv l \<longleftrightarrow>
     2 \<le> link_size l \<and> link_size l < 2 ^ 63 \<and>
     unat (rb_size (tx l)) = link_size l \<and> unat (rb_size (rx l)) = link_size l \<and>
     unat (rb_offset (tx l)) < link_size l \<and> unat (rb_offset (rx l)) < link_size l \<and>
     region l ! unat (rb_offset (tx l)) = 0 \<and> 0 \<notin> set (link_contents l)"

lemma rb_destroy_new:
  assumes "rb_new True sz = Some r" and "p \<noteq> 0" and "heap p = None"
  shows "rb_destroy p (heap(p \<mapsto> r)) = Some heap" and "rb_destroy p heap = None"
  using assms by (auto simp: rb_destroy_def)

text \<open>The offset after one step, read as a number.\<close>

lemma rb_next_ok:
  assumes "unat (rb_size r) = n" and "unat (rb_offset r) < n" and "n < 2 ^ 63"
  obtains nx where "rb_next r = Some nx" "unat nx = Suc (unat (rb_offset r)) mod n"
proof
  from assms have "rb_size r \<noteq> 0" by auto
  then show "rb_next r = Some ((rb_offset r + 1) mod rb_size r)"
    by (simp add: rb_next_def)
  from assms show "unat ((rb_offset r + 1) mod rb_size r) = Suc (unat (rb_offset r)) mod n"
    by (simp add: unat_mod unat_Suc_no_wrap)
qed

lemma link_send_room:
  assumes "link_inv l" and "c \<noteq> 0" and "length (link_contents l) < link_size l - 1"
  shows "\<exists>l'. link_send c l = Some l' \<and> link_inv l' \<and> link_contents l' = link_contents l @ [c] \<and>
           link_size l' = link_size l"
proof -
  let ?n = "link_size l" and ?w = "unat (rb_offset (tx l))" and ?r = "unat (rb_offset (rx l))"
  let ?k = "link_used l" and ?m = "region l"
  from assms(1) have n: "2 \<le> ?n" "?n < 2 ^ 63" and szt: "unat (rb_size (tx l)) = ?n"
    and w: "?w < ?n" and r: "?r < ?n" by (auto simp: link_inv_def)
  from rb_next_ok [OF szt w n(2)] obtain nx where
    nx: "rb_next (tx l) = Some nx" "unat nx = Suc ?w mod ?n" .
  from assms(3) have k: "Suc ?k < ?n" by (simp add: link_contents_def)
  have wk: "?w = (?r + ?k) mod ?n"
    using r w by (simp add: link_used_def ring_simps)
  then have wk': "Suc ?w mod ?n = (?r + Suc ?k) mod ?n" by (simp add: mod_Suc_eq)
  have ne: "Suc ?w mod ?n \<noteq> ?w" using n(1) w by (cases "Suc ?w = ?n") auto
  let ?m1 = "?m[Suc ?w mod ?n := 0]" and ?m2 = "?m[Suc ?w mod ?n := 0, ?w := c]"
  let ?l' = "l\<lparr>region := ?m2, tx := (tx l)\<lparr>rb_offset := nx\<rparr>\<rparr>"
  have lt: "Suc ?w mod ?n < ?n" using n by (intro mod_less_divisor) auto
  have send: "link_send c l = Some ?l'"
    using assms(2) nx lt w by (simp add: link_send_def rb_transmit_byte_def wr_def link_size_def)
  have sz: "link_size ?l' = ?n" by (simp add: link_size_def)
  have "link_used ?l' = ring_dist ?n ?r (unat nx)"
    by (simp add: link_used_def link_size_def)
  then have used: "link_used ?l' = Suc ?k"
    using ring_dist_add [OF r k] nx(2) wk' by simp
  have "ring_seg ?m2 ?r (Suc ?k) = ring_seg ?m1 ?r ?k @ [c]"
    using ring_seg_update_snoc [of ?k ?m1 ?r c] k wk by (simp add: link_size_def)
  also have "ring_seg ?m1 ?r ?k = ring_seg ?m ?r ?k"
    using ring_seg_update_outside [of ?k ?m "Suc ?k" ?r 0] k wk' by (simp add: link_size_def)
  finally have con: "link_contents ?l' = link_contents l @ [c]"
    by (simp add: link_contents_def used)
  have "link_inv ?l'"
    using assms(1,2) con nx lt w r ne sz by (simp add: link_inv_def link_size_def)
  with send con sz show ?thesis by blast
qed

lemma link_poll_some:
  assumes "link_inv l" and "link_contents l = c # q"
  shows "\<exists>l'. link_poll l = Some (c, l') \<and> link_inv l' \<and> link_contents l' = q \<and> link_size l' = link_size l"
proof -
  let ?n = "link_size l" and ?w = "unat (rb_offset (tx l))" and ?r = "unat (rb_offset (rx l))"
  from assms(1) have n: "2 \<le> ?n" "?n < 2 ^ 63" and szr: "unat (rb_size (rx l)) = ?n"
    and w: "?w < ?n" and r: "?r < ?n" by (auto simp: link_inv_def)
  from rb_next_ok [OF szr r n(2)] obtain nx where
    nx: "rb_next (rx l) = Some nx" "unat nx = Suc ?r mod ?n" .
  from assms(2) have used: "link_used l = Suc (length q)"
    by (metis link_contents_def length_ring_seg length_Cons)
  then have ne: "?r \<noteq> ?w" using r by (auto simp: link_used_def ring_simps)
  let ?l' = "l\<lparr>rx := (rx l)\<lparr>rb_offset := nx\<rparr>\<rparr>"
  have hd: "region l ! ?r = c" and seg: "ring_seg (region l) (Suc ?r) (length q) = q"
    using assms(2) r unfolding link_contents_def used
    by (simp_all add: ring_seg_Cons link_size_def)
  from assms have "c \<noteq> 0" by (auto simp: link_inv_def)
  then have poll: "link_poll l = Some (c, ?l')"
    using hd nx r by (simp add: link_poll_def rb_poll_byte_def rd_def link_size_def)
  have sz: "link_size ?l' = ?n" by (simp add: link_size_def)
  have "link_used ?l' = length q"
    using ring_dist_Suc_left [OF r w ne] used nx(2) by (simp add: link_used_def sz)
  then have con: "link_contents ?l' = q"
    using seg nx(2) by (simp add: link_contents_def link_size_def ring_seg_mod)
  have "Suc ?r mod ?n < ?n" using n by (intro mod_less_divisor) auto
  then have "link_inv ?l'"
    using assms con nx r sz by (simp add: link_inv_def link_size_def)
  with poll con sz show ?thesis by blast
qed

lemma link_slot_zero:
  assumes "link_inv l"
  shows "region l ! unat (rb_offset (rx l)) = 0 \<longleftrightarrow> link_contents l = []"
proof (cases "link_used l")
  case 0
  then have "unat (rb_offset (rx l)) = unat (rb_offset (tx l))"
    using assms add_ring_dist [of "unat (rb_offset (rx l))" "link_size l" "unat (rb_offset (tx l))"]
    by (simp add: link_inv_def link_used_def)
  with 0 assms show ?thesis by (simp add: link_inv_def link_contents_def)
next
  case (Suc k)
  moreover have "unat (rb_offset (rx l)) mod length (region l) = unat (rb_offset (rx l))"
    using assms by (simp add: link_inv_def link_size_def)
  ultimately show ?thesis
    using assms by (simp add: link_inv_def link_contents_def ring_seg_Cons)
qed

lemma link_poll_none:
  assumes "link_inv l" and "link_contents l = []"
  shows "link_poll l = None"
  using assms link_slot_zero [OF assms(1)]
  by (simp add: link_poll_def rb_poll_byte_def rd_def link_inv_def link_size_def)

interpretation rb: fifo_channel link_inv link_contents "\<lambda>l. link_size l - 1" "\<lambda>c. c \<noteq> 0"
  link_send link_poll
  using link_send_room link_poll_some link_poll_none by unfold_locales metis+

section \<open>Overruns and the wrappers\<close>

text \<open>
  A byte sent into a link whose ring is full closes the ring on itself: the writer meets the
  reader, and everything that was pending becomes invisible.
\<close>

lemma link_send_full:
  assumes "link_inv l" and "c \<noteq> 0" and "length (link_contents l) = link_size l - 1"
  shows "\<exists>l'. link_send c l = Some l' \<and> link_inv l' \<and> link_contents l' = [] \<and> link_size l' = link_size l"
proof -
  let ?n = "link_size l" and ?w = "unat (rb_offset (tx l))" and ?r = "unat (rb_offset (rx l))"
  from assms(1) have n: "2 \<le> ?n" "?n < 2 ^ 63" and szt: "unat (rb_size (tx l)) = ?n"
    and w: "?w < ?n" and r: "?r < ?n" by (auto simp: link_inv_def)
  from rb_next_ok [OF szt w n(2)] obtain nx where
    nx: "rb_next (tx l) = Some nx" "unat nx = Suc ?w mod ?n" .
  have "?w = (?r + link_used l) mod ?n"
    using r w by (simp add: link_used_def ring_simps)
  moreover have "link_used l = ?n - 1"
    using assms(3) by (simp add: link_contents_def)
  ultimately have "Suc ?w mod ?n = (?r + ?n) mod ?n"
    using n by (simp add: mod_Suc_eq)
  then have nr: "unat nx = ?r" using nx(2) r by simp
  have ne: "?r \<noteq> ?w" using nx(2) nr n(1) w by (cases "Suc ?w = ?n") auto
  let ?l' = "l\<lparr>region := (region l)[?r := 0, ?w := c], tx := (tx l)\<lparr>rb_offset := nx\<rparr>\<rparr>"
  have send: "link_send c l = Some ?l'"
    using assms(2) nx(1) nr w r by (simp add: link_send_def rb_transmit_byte_def wr_def link_size_def)
  have con: "link_contents ?l' = []"
    using nr r by (simp add: link_contents_def link_used_def link_size_def ring_simps)
  have "link_inv ?l'"
    using assms(1) con nr ne w r by (simp add: link_inv_def link_size_def)
  with send con show ?thesis by (simp add: link_size_def)
qed

definition after_send :: "nat \<Rightarrow> u8 \<Rightarrow> bytes \<Rightarrow> bytes" where
  "after_send n c q = (if c = 0 then q else if length q < n - 1 then q @ [c] else [])"

lemma link_send_effect:
  assumes "link_inv l"
  shows "\<exists>l'. link_send c l = Some l' \<and> link_inv l' \<and>
           link_contents l' = after_send (link_size l) c (link_contents l) \<and> link_size l' = link_size l \<and> rx l' = rx l"
proof -
  have rx: "rx l' = rx l" if "link_send c l = Some l'" for l'
    using that by (auto simp: link_send_def split: prod.splits)
  have "length (link_contents l) < link_size l"
    using assms by (auto simp: link_inv_def link_contents_def link_used_def ring_simps)
  then consider "c = 0" | "c \<noteq> 0" "length (link_contents l) < link_size l - 1"
    | "c \<noteq> 0" "length (link_contents l) = link_size l - 1" by linarith
  then show ?thesis
  proof cases
    case 1
    with assms show ?thesis
      by (simp add: link_send_def rb_transmit_byte_def after_send_def)
  next
    case 2
    with link_send_room [OF assms 2] rx show ?thesis by (auto simp: after_send_def)
  next
    case 3
    with link_send_full [OF assms 3] rx show ?thesis by (auto simp: after_send_def)
  qed
qed

lemma link_send_iff:
  "link_send c l = Some l' \<longleftrightarrow>
     (\<exists>base w. rb_transmit_byte (region l) (tx l) c = Some (base, w) \<and> l' = l\<lparr>region := base, tx := w\<rparr>)"
  by (auto simp: link_send_def split: prod.splits)

lemma rb_transmit_string_room:
  assumes "link_inv l" and "0 \<notin> set s" and "length (link_contents l) + length s \<le> link_size l - 1"
  shows "\<exists>base w. rb_transmit_string (region l) (tx l) (s @ 0 # t) sent = Some (sent + of_nat (length s), base, w)
    \<and> link_inv (l\<lparr>region := base, tx := w\<rparr>)
    \<and> link_contents (l\<lparr>region := base, tx := w\<rparr>) = link_contents l @ s"
  using assms
proof (induction s arbitrary: l sent)
  case Nil
  then show ?case by simp
next
  case (Cons c s)
  from Cons.prems obtain l1 where l1: "link_send c l = Some l1" "link_inv l1"
    "link_contents l1 = link_contents l @ [c]" "link_size l1 = link_size l"
    using link_send_room [of l c] by auto
  from l1(1) obtain base w where t: "rb_transmit_byte (region l) (tx l) c = Some (base, w)"
    "l1 = l\<lparr>region := base, tx := w\<rparr>" by (auto simp: link_send_iff)
  from Cons.IH [OF l1(2), of "sent + 1"] l1 Cons.prems t show ?case
    by (auto simp: algebra_simps)
qed

lemma rb_transmit_loop_room:
  assumes "link_inv l" and "length (link_contents l) + length s \<le> link_size l - 1"
  shows "\<exists>base w. rb_transmit_loop (region l) (tx l) (s @ t) (length s) = Some (base, w)
    \<and> link_inv (l\<lparr>region := base, tx := w\<rparr>)
    \<and> link_contents (l\<lparr>region := base, tx := w\<rparr>) = link_contents l @ filter (\<lambda>c. c \<noteq> 0) s"
  using assms
proof (induction s arbitrary: l)
  case Nil
  then show ?case by simp
next
  case (Cons c s)
  from Cons.prems obtain l1 where l1: "link_send c l = Some l1" "link_inv l1"
    "link_contents l1 = link_contents l @ filter (\<lambda>c. c \<noteq> 0) [c]" "link_size l1 = link_size l"
    using link_send_effect [of l c] by (auto simp: after_send_def split: if_splits)
  from l1(1) obtain base w where t: "rb_transmit_byte (region l) (tx l) c = Some (base, w)"
    "l1 = l\<lparr>region := base, tx := w\<rparr>" by (auto simp: link_send_iff)
  from Cons.IH [OF l1(2)] l1 Cons.prems t show ?case by (auto split: if_splits)
qed

lemma rb_receive_loop_contents:
  assumes "link_inv l" and "link_contents l = s @ q" and "length s \<le> k"
  shows "\<exists>r env. rb_receive_loop (replicate k (region l)) (rx l) (length s) = Some (Done (s, r, env))
    \<and> link_inv (l\<lparr>rx := r\<rparr>) \<and> link_contents (l\<lparr>rx := r\<rparr>) = q"
  using assms
proof (induction s arbitrary: l k)
  case Nil
  then show ?case by simp
next
  case (Cons c s)
  then obtain k' where k: "k = Suc k'" "length s \<le> k'" by (cases k) auto
  from link_poll_some [OF Cons.prems(1)] Cons.prems(2) obtain l1 where
    l1: "link_poll l = Some (c, l1)" "link_inv l1" "link_contents l1 = s @ q" by auto
  then obtain r1 where p: "rb_poll_byte (region l) (rx l) = Some (c, r1)" "c \<noteq> 0" "l1 = l\<lparr>rx := r1\<rparr>"
    by (auto simp: link_poll_def split: prod.splits if_splits)
  from Cons.IH [OF l1(2,3) k(2)] p k show ?case by auto
qed

section \<open>Properties of the library\<close>

text \<open>
  A byte sent over a well-formed link never accesses memory outside the region and keeps the
  link well formed. A zero byte is ignored; a non-zero byte is appended while the ring holds
  fewer than \<open>size - 1\<close> bytes; one more byte than that loses the whole buffer, which is the lack
  of flow control that the header file announces.
\<close>

theorem rb_transmit_byte_effect:
  assumes "link_inv l"
  shows "\<exists>base w. rb_transmit_byte (region l) (tx l) c = Some (base, w)
    \<and> link_inv (l\<lparr>region := base, tx := w\<rparr>)
    \<and> link_contents (l\<lparr>region := base, tx := w\<rparr>) = after_send (link_size l) c (link_contents l)"
  using link_send_effect [OF assms, of c] by (auto simp: link_send_iff)

definition demo_link :: rb_link where
  "demo_link = \<lparr>region = [0, 0, 0, 0],
     tx = \<lparr>rb_size = 4, rb_offset = 0\<rparr>, rx = \<lparr>rb_size = 4, rb_offset = 0\<rparr>\<rparr>"

lemma demo_link_facts:
  "link_inv demo_link" "link_contents demo_link = []" "link_size demo_link = 4"
  by (simp_all add: demo_link_def link_inv_def link_contents_def link_used_def link_size_def ring_dist_def)

theorem rb_transmit_byte_effect_witness:
  "\<exists>base w. rb_transmit_byte (region demo_link) (tx demo_link) 65 = Some (base, w)
    \<and> link_contents (demo_link\<lparr>region := base, tx := w\<rparr>) = [65]"
  using rb_transmit_byte_effect [OF demo_link_facts(1), of 65]
  by (auto simp: demo_link_facts after_send_def)

text \<open>
  C26: A string that fits is transmitted and received unchanged: the receiver obtains exactly the
  characters in order, the sender reports their number, and the link is empty afterwards. The
  receiving call nevertheless returns 0, whatever it received.
\<close>

theorem rb_string_roundtrip:
  assumes "link_inv l" and "link_contents l = []"
    and "0 \<notin> set s" and "length s \<le> link_size l - 1" and "length s \<le> k"
  shows "\<exists>base w r. rb_transmit_string (region l) (tx l) (s @ [0]) 0 = Some (of_nat (length s), base, w)
    \<and> rb_receive_string (replicate k base) (rx l) (of_nat (length s)) = Some (Done (0, s, r))
    \<and> link_contents (l\<lparr>region := base, tx := w, rx := r\<rparr>) = []"
proof -
  from rb_transmit_string_room [OF assms(1,3), of "[]" 0] assms(2,4) obtain base w where
    t: "rb_transmit_string (region l) (tx l) (s @ [0]) 0 = Some (of_nat (length s), base, w)"
    and inv: "link_inv (l\<lparr>region := base, tx := w\<rparr>)"
    and con: "link_contents (l\<lparr>region := base, tx := w\<rparr>) = s @ []" by auto
  from assms(1,4) have "length s < 2 ^ 64" by (auto simp: link_inv_def)
  then have len: "unat (of_nat (length s) :: u64) = length s"
    by (simp add: unat_of_nat_small)
  from rb_receive_loop_contents [OF inv con assms(5)] t len show ?thesis
    by (auto simp: rb_receive_string_def)
qed

theorem rb_string_roundtrip_witness:
  "\<exists>base w r. rb_transmit_string (region demo_link) (tx demo_link) ([72, 105] @ [0]) 0 = Some (2, base, w)
    \<and> rb_receive_string (replicate 5 base) (rx demo_link) 2 = Some (Done (0, [72, 105], r))
    \<and> link_contents (demo_link\<lparr>region := base, tx := w, rx := r\<rparr>) = []"
  using rb_string_roundtrip [OF demo_link_facts(1,2), of "[72, 105]" 5]
  by (simp add: demo_link_facts del: rb_transmit_string.simps)

text \<open>
  \<open>rb_transmit\<close> sends the non-zero bytes of the block in order and silently drops the zero
  bytes, but its return value is always 0, not the number of bytes sent.
\<close>

theorem rb_transmit_returns_zero:
  assumes "link_inv l" and "length (link_contents l) + unat len \<le> link_size l - 1"
    and "unat len \<le> length src"
  shows "\<exists>base w. rb_transmit (region l) (tx l) src len = Some (0, base, w)
    \<and> link_contents (l\<lparr>region := base, tx := w\<rparr>) =
        link_contents l @ filter (\<lambda>c. c \<noteq> 0) (take (unat len) src)"
proof -
  have "length (take (unat len) src) = unat len" using assms(3) by simp
  then show ?thesis
    using rb_transmit_loop_room [OF assms(1), of "take (unat len) src" "drop (unat len) src"] assms(2)
    by (simp only: append_take_drop_id rb_transmit_def) auto
qed

theorem rb_transmit_returns_zero_witness:
  "\<exists>base w. rb_transmit (region demo_link) (tx demo_link) [7, 0, 9] 3 = Some (0, base, w)
    \<and> link_contents (demo_link\<lparr>region := base, tx := w\<rparr>) = [7, 9]"
  using rb_transmit_returns_zero [OF demo_link_facts(1), of 3 "[7, 0, 9]"]
  by (simp add: demo_link_facts)

text \<open>
  \<open>rb_has_data\<close> answers 1 exactly when there is nothing to read and 0 exactly when a poll
  would return a byte: the test is inverted with respect to its documentation.
\<close>

theorem rb_has_data_inverted:
  assumes "link_inv l"
  shows "rb_has_data (region l) (rx l) = Some (if link_contents l = [] then 1 else 0)
    \<and> (rb_has_data (region l) (rx l) = Some 1 \<longleftrightarrow> rb_poll_byte (region l) (rx l) = Some (0, rx l))"
  using assms link_slot_zero [OF assms]
  by (auto simp: rb_has_data_def rb_poll_byte_def rd_def rb_next_def link_inv_def link_size_def)

theorem rb_has_data_inverted_witness:
  "rb_has_data (region demo_link) (rx demo_link) = Some 1
    \<and> rb_poll_byte (region demo_link) (rx demo_link) = Some (0, rx demo_link)"
  using rb_has_data_inverted [OF demo_link_facts(1)] by (auto simp: demo_link_facts)

text \<open>
  The busy wait of \<open>rb_receive_byte\<close> ends with the first non-zero byte that becomes visible
  at the reader's offset, after any number of polls that saw a zero there, and returns that byte.
\<close>

theorem rb_receive_byte_returns:
  assumes "\<forall>m \<in> set stale. unat (rb_offset r) < length m \<and> m ! unat (rb_offset r) = 0"
    and "unat (rb_offset r) < length base" and "base ! unat (rb_offset r) \<noteq> 0" and "rb_size r \<noteq> 0"
  shows "rb_receive_byte (stale @ base # env) r =
    Some (Done (base ! unat (rb_offset r),
                r\<lparr>rb_offset := (rb_offset r + 1) mod rb_size r\<rparr>, env))"
  using assms(1)
proof (induction stale)
  case Nil
  with assms(2-4) show ?case by (simp add: rb_poll_byte_def rb_next_def rd_def)
next
  case (Cons m stale)
  then show ?case by (simp add: rb_poll_byte_def rd_def)
qed

theorem rb_receive_byte_returns_witness:
  "rb_receive_byte ([[0, 0], [0, 0]] @ [5, 0] # [[1, 1]]) \<lparr>rb_size = 2, rb_offset = 0\<rparr> =
    Some (Done (5, \<lparr>rb_size = 2, rb_offset = 1\<rparr>, [[1, 1]]))"
  using rb_receive_byte_returns
    [of "[[0, 0], [0, 0]]" "\<lparr>rb_size = 2, rb_offset = 0\<rparr>" "[5, 0]" "[[1, 1]]"]
  by simp

end
