(* ===== verification/VirtQueue.thy ===== *)
theory VirtQueue
  imports Prelude
begin

text \<open>
  libvirtqueue (\<open>src/libvirtqueue\<close>): a descriptor table with a free list, an available ring
  written by the driver side and a used ring written by the device side.

  The shared memory (\<open>vq_mem\<close>) holds the two rings and the descriptor table; the private state
  of the two sides are the records \<open>virtqueue_driver\<close> and \<open>virtqueue_device\<close>. Every operation
  of the source takes the shared memory and the private state it uses and returns the C return
  value together with what it changed. Widths are those of the C structures, so the truncations
  to 16 bits in the rings and the descriptor links are in the model. \<open>None\<close> is an access outside
  a ring or the table.

  The invariant \<open>desc_inv\<close> says that the descriptor table is partitioned into the free list and
  the descriptor chains in flight. It is preserved by every operation that touches the table, and
  carries the end-to-end theorem: the scatter list that the driver makes available is the one the
  device gathers, and the one the driver gets back.
\<close>

section \<open>Data\<close>

datatype vq_flags = VQ_READ | VQ_WRITE | VQ_RW

definition vq_flag_val :: "vq_flags \<Rightarrow> u16" where
  "vq_flag_val f = (case f of VQ_READ \<Rightarrow> 0 | VQ_WRITE \<Rightarrow> 1 | VQ_RW \<Rightarrow> 2)"

record vq_vring_avail =
  avail_flags :: u16
  avail_idx :: u16
  avail_ring :: "u16 list"

record vq_vring_used_elem =
  ue_id :: u32
  ue_len :: u32

record vq_vring_used =
  used_flags :: u16
  used_idx :: u16
  used_ring :: "vq_vring_used_elem list"

record vq_vring_desc =
  desc_addr :: u64
  desc_len :: u32
  desc_flags :: u16
  desc_next :: u16

record virtqueue_ring_object =
  obj_cur :: u32
  obj_first :: u32

record vq_mem =
  avail :: vq_vring_avail
  used :: vq_vring_used
  desc_table :: "vq_vring_desc list"

record virtqueue_device =
  dev_notify :: u64
  dev_cookie :: u64
  dev_queue_len :: u32
  a_ring_last_seen :: u32

record virtqueue_driver =
  drv_notify :: u64
  drv_cookie :: u64
  drv_queue_len :: u32
  free_desc_head :: u32
  u_ring_last_seen :: u32

section \<open>Operations\<close>

definition VQ_DEV_POLL :: "virtqueue_device \<Rightarrow> vq_mem \<Rightarrow> bool" where
  "VQ_DEV_POLL vq m \<longleftrightarrow> ((a_ring_last_seen vq + 1) AND (dev_queue_len vq - 1)) \<noteq> ucast (avail_idx (avail m))"

definition VQ_DRV_POLL :: "virtqueue_driver \<Rightarrow> vq_mem \<Rightarrow> bool" where
  "VQ_DRV_POLL vq m \<longleftrightarrow> ((u_ring_last_seen vq + 1) AND (drv_queue_len vq - 1)) \<noteq> ucast (used_idx (used m))"

text \<open>The \<open>for\<close> loop over the table: \<open>k\<close> iterations from index \<open>i\<close> on.\<close>

fun init_desc_loop :: "nat \<Rightarrow> nat \<Rightarrow> vq_vring_desc list \<Rightarrow> vq_vring_desc list option" where
  "init_desc_loop 0 i table = Some table"
| "init_desc_loop (Suc k) i table = do {
     table' \<leftarrow> wr table i \<lparr>desc_addr = 0, desc_len = 0, desc_flags = 0, desc_next = of_nat (i + 1)\<rparr>;
     init_desc_loop k (i + 1) table' }"

definition virtqueue_init_desc_table :: "vq_vring_desc list \<Rightarrow> u32 \<Rightarrow> vq_vring_desc list option" where
  "virtqueue_init_desc_table table queue_len = init_desc_loop (unat queue_len) 0 table"

definition virtqueue_init_avail_ring :: "vq_vring_avail \<Rightarrow> vq_vring_avail" where
  "virtqueue_init_avail_ring ring = ring\<lparr>avail_flags := 0, avail_idx := 0\<rparr>"

definition virtqueue_init_used_ring :: "vq_vring_used \<Rightarrow> vq_vring_used" where
  "virtqueue_init_used_ring ring = ring\<lparr>used_flags := 0, used_idx := 0\<rparr>"

text \<open>A length that is not a power of two is only logged by the source.\<close>

definition virtqueue_init_driver ::
  "u32 \<Rightarrow> vq_mem \<Rightarrow> u64 \<Rightarrow> u64 \<Rightarrow> (virtqueue_driver \<times> vq_mem) option" where
  "virtqueue_init_driver queue_len m notify cookie = do {
     let vq = \<lparr>drv_notify = notify, drv_cookie = cookie, drv_queue_len = queue_len,
               free_desc_head = 0, u_ring_last_seen = queue_len - 1\<rparr>;
     table \<leftarrow> virtqueue_init_desc_table (desc_table m) queue_len;
     Some (vq, m\<lparr>desc_table := table,
                 avail := virtqueue_init_avail_ring (avail m),
                 used := virtqueue_init_used_ring (used m)\<rparr>) }"

definition virtqueue_init_device :: "u32 \<Rightarrow> u64 \<Rightarrow> u64 \<Rightarrow> virtqueue_device" where
  "virtqueue_init_device queue_len notify cookie =
     \<lparr>dev_notify = notify, dev_cookie = cookie, dev_queue_len = queue_len,
      a_ring_last_seen = queue_len - 1\<rparr>"

definition vq_add_desc ::
  "virtqueue_driver \<Rightarrow> vq_vring_desc list \<Rightarrow> u64 \<Rightarrow> u32 \<Rightarrow> u16 \<Rightarrow> u32 \<Rightarrow>
   (u32 \<times> virtqueue_driver \<times> vq_vring_desc list) option" where
  "vq_add_desc vq t buf len flag prev =
     (let new = free_desc_head vq in
      if new = drv_queue_len vq then Some (new, vq, t)
      else do {
        d \<leftarrow> rd t (unat new);
        let vq' = vq\<lparr>free_desc_head := ucast (desc_next d)\<rparr>;
        t1 \<leftarrow> wr t (unat new) \<lparr>desc_addr = buf, desc_len = len, desc_flags = flag,
                               desc_next = ucast (drv_queue_len vq)\<rparr>;
        if prev < drv_queue_len vq then do {
          p \<leftarrow> rd t1 (unat prev);
          t2 \<leftarrow> wr t1 (unat prev) (p\<lparr>desc_next := ucast new\<rparr>);
          Some (new, vq', t2) }
        else Some (new, vq', t1) })"

definition vq_pop_desc ::
  "virtqueue_driver \<Rightarrow> vq_vring_desc list \<Rightarrow> u32 \<Rightarrow>
   (u32 \<times> (u64 \<times> u32 \<times> u16) \<times> virtqueue_driver \<times> vq_vring_desc list) option" where
  "vq_pop_desc vq t idx = do {
     d \<leftarrow> rd t (unat idx);
     let next = ucast (desc_next d);
     t' \<leftarrow> wr t (unat idx) (d\<lparr>desc_next := ucast (free_desc_head vq)\<rparr>);
     Some (next, (desc_addr d, desc_len d, desc_flags d), vq\<lparr>free_desc_head := idx\<rparr>, t') }"

text \<open>The two statements that publish a descriptor in the available ring.\<close>

definition avail_push :: "u32 \<Rightarrow> u32 \<Rightarrow> vq_vring_avail \<Rightarrow> vq_vring_avail option" where
  "avail_push queue_len idx a = do {
     ring \<leftarrow> wr (avail_ring a) (unat (avail_idx a)) (ucast idx);
     Some (a\<lparr>avail_ring := ring,
              avail_idx := ucast ((ucast (avail_idx a) + 1 :: u32) AND (queue_len - 1))\<rparr>) }"

definition virtqueue_add_available_buf ::
  "virtqueue_driver \<Rightarrow> vq_mem \<Rightarrow> virtqueue_ring_object \<Rightarrow> u64 \<Rightarrow> u32 \<Rightarrow> vq_flags \<Rightarrow>
   (int \<times> virtqueue_driver \<times> vq_mem \<times> virtqueue_ring_object) option" where
  "virtqueue_add_available_buf vq m obj buf len flag = do {
     (idx, vq', t) \<leftarrow> vq_add_desc vq (desc_table m) buf len (vq_flag_val flag) (obj_cur obj);
     if idx = drv_queue_len vq then Some (0, vq', m\<lparr>desc_table := t\<rparr>, obj)
     else do {
       let obj' = obj\<lparr>obj_cur := idx\<rparr>;
       if drv_queue_len vq \<le> obj_first obj then do {
         a \<leftarrow> avail_push (drv_queue_len vq) idx (avail m);
         Some (1, vq', m\<lparr>desc_table := t, avail := a\<rparr>, obj'\<lparr>obj_first := idx\<rparr>) }
       else Some (1, vq', m\<lparr>desc_table := t\<rparr>, obj') } }"

definition virtqueue_get_used_buf ::
  "virtqueue_driver \<Rightarrow> vq_mem \<Rightarrow> virtqueue_ring_object \<Rightarrow> u32 \<Rightarrow>
   (int \<times> virtqueue_driver \<times> virtqueue_ring_object \<times> u32) option" where
  "virtqueue_get_used_buf vq m obj len =
     (let next = (u_ring_last_seen vq + 1) AND (drv_queue_len vq - 1) in
      if next = ucast (used_idx (used m)) then Some (0, vq, obj, len)
      else do {
        e \<leftarrow> rd (used_ring (used m)) (unat next);
        Some (1, vq\<lparr>u_ring_last_seen := next\<rparr>, obj\<lparr>obj_first := ue_id e, obj_cur := ue_id e\<rparr>, ue_len e) })"

definition virtqueue_add_used_buf ::
  "virtqueue_device \<Rightarrow> vq_mem \<Rightarrow> virtqueue_ring_object \<Rightarrow> u32 \<Rightarrow> (int \<times> vq_mem) option" where
  "virtqueue_add_used_buf vq m robj len =
     (let cur = ucast (used_idx (used m)) :: u32 in do {
        ring \<leftarrow> wr (used_ring (used m)) (unat cur) \<lparr>ue_id = obj_first robj, ue_len = len\<rparr>;
        Some (1, m\<lparr>used := (used m)\<lparr>used_ring := ring,
                     used_idx := ucast ((cur + 1) AND (dev_queue_len vq - 1))\<rparr>\<rparr>) })"

definition virtqueue_get_available_buf ::
  "virtqueue_device \<Rightarrow> vq_mem \<Rightarrow> virtqueue_ring_object \<Rightarrow>
   (int \<times> virtqueue_device \<times> virtqueue_ring_object) option" where
  "virtqueue_get_available_buf vq m robj =
     (let next = (a_ring_last_seen vq + 1) AND (dev_queue_len vq - 1) in
      if next = ucast (avail_idx (avail m)) then Some (0, vq, robj)
      else do {
        e \<leftarrow> rd (avail_ring (avail m)) (unat next);
        Some (1, vq\<lparr>a_ring_last_seen := next\<rparr>, robj\<lparr>obj_first := ucast e, obj_cur := ucast e\<rparr>) })"

definition virtqueue_init_ring_object :: virtqueue_ring_object where
  "virtqueue_init_ring_object = \<lparr>obj_cur = - 1, obj_first = - 1\<rparr>"

text \<open>
  The \<open>while\<close> loop that adds up the lengths of a chain. It follows links in shared memory, so it
  need not end: \<open>None\<close> also stands for a loop that never returns.
\<close>

partial_function (option) scattered_loop ::
  "vq_vring_desc list \<Rightarrow> u32 \<Rightarrow> u32 \<Rightarrow> u32 \<Rightarrow> u32 option" where
  "scattered_loop t queue_len cur ret =
     (if cur < queue_len then
        Option.bind (rd t (unat cur))
          (\<lambda>d. scattered_loop t queue_len (ucast (desc_next d)) (ret + desc_len d))
      else Some ret)"

definition virtqueue_scattered_available_size ::
  "virtqueue_device \<Rightarrow> vq_mem \<Rightarrow> virtqueue_ring_object \<Rightarrow> u32 option" where
  "virtqueue_scattered_available_size vq m robj =
     scattered_loop (desc_table m) (dev_queue_len vq) (obj_first robj) 0"

text \<open>The output parameters of the iteration functions are set on success only.\<close>

definition virtqueue_gather_available ::
  "virtqueue_device \<Rightarrow> vq_mem \<Rightarrow> virtqueue_ring_object \<Rightarrow>
   (int \<times> (u64 \<times> u32 \<times> u16) option \<times> virtqueue_ring_object) option" where
  "virtqueue_gather_available vq m robj =
     (let idx = obj_cur robj in
      if dev_queue_len vq \<le> idx then Some (0, None, robj)
      else do {
        d \<leftarrow> rd (desc_table m) (unat idx);
        Some (1, Some (desc_addr d, desc_len d, desc_flags d), robj\<lparr>obj_cur := ucast (desc_next d)\<rparr>) })"

definition virtqueue_gather_used ::
  "virtqueue_driver \<Rightarrow> vq_mem \<Rightarrow> virtqueue_ring_object \<Rightarrow>
   (int \<times> (u64 \<times> u32 \<times> u16) option \<times> virtqueue_driver \<times> vq_mem \<times> virtqueue_ring_object) option" where
  "virtqueue_gather_used vq m robj =
     (if drv_queue_len vq \<le> obj_cur robj then Some (0, None, vq, m, robj)
      else do {
        (next, out, vq', t) \<leftarrow> vq_pop_desc vq (desc_table m) (obj_cur robj);
        Some (1, Some out, vq', m\<lparr>desc_table := t\<rparr>, robj\<lparr>obj_cur := next\<rparr>) })"

section \<open>The descriptor table\<close>

text \<open>The chain of descriptors from index \<open>i\<close> on; its last link is the queue length \<open>n\<close>.\<close>

fun desc_chain :: "vq_vring_desc list \<Rightarrow> nat \<Rightarrow> nat \<Rightarrow> nat list \<Rightarrow> bool" where
  "desc_chain t n i [] \<longleftrightarrow> i = n"
| "desc_chain t n i (j # js) \<longleftrightarrow> i = j \<and> j < n \<and> desc_chain t n (unat (desc_next (t ! j))) js"

definition desc_buf :: "vq_vring_desc \<Rightarrow> u64 \<times> u32 \<times> u16" where
  "desc_buf d = (desc_addr d, desc_len d, desc_flags d)"

definition chain_bufs :: "vq_vring_desc list \<Rightarrow> nat list \<Rightarrow> (u64 \<times> u32 \<times> u16) list" where
  "chain_bufs t c = map (\<lambda>i. desc_buf (t ! i)) c"

definition desc_inv ::
  "nat \<Rightarrow> virtqueue_driver \<Rightarrow> vq_vring_desc list \<Rightarrow> nat list \<Rightarrow> nat list list \<Rightarrow> bool" where
  "desc_inv n vq t fl chs \<longleftrightarrow>
     unat (drv_queue_len vq) = n \<and> n < 2 ^ 16 \<and> length t = n \<and>
     desc_chain t n (unat (free_desc_head vq)) fl \<and>
     (\<forall>c \<in> set chs. c \<noteq> [] \<and> desc_chain t n (hd c) c) \<and>
     distinct (fl @ concat chs) \<and> set (fl @ concat chs) = {..<n}"

lemma chain_cong:
  "(\<And>j. j \<in> set js \<Longrightarrow> desc_next (t' ! j) = desc_next (t ! j)) \<Longrightarrow> desc_chain t' n i js = desc_chain t n i js"
  by (induction js arbitrary: i) auto

lemma chain_update_other [simp]: "i \<notin> set js \<Longrightarrow> desc_chain (t[i := d]) n s js = desc_chain t n s js"
  by (rule chain_cong) (metis nth_list_update_neq)

lemma chain_hd: "desc_chain t n i js \<Longrightarrow> js \<noteq> [] \<Longrightarrow> i = hd js"
  by (cases js) auto

lemma chain_snoc:
  assumes "desc_chain t n i js" and "js \<noteq> []" and "distinct js" and "k \<notin> set js" and "k < n"
    and "n < 2 ^ 16" and "set js \<subseteq> {..<length t}" and "unat (desc_next (t ! k)) = n"
  shows "desc_chain (t[last js := (t ! last js)\<lparr>desc_next := of_nat k\<rparr>]) n i (js @ [k])"
  using assms
proof (induction js arbitrary: i)
  case Nil
  then show ?case by simp
next
  case (Cons j js)
  have k: "unat (of_nat k :: u16) = k" using Cons.prems by (simp add: width_simps)
  show ?case
  proof (cases "js = []")
    case True
    with Cons.prems k show ?thesis by (auto simp: nth_list_update)
  next
    case False
    then have "last js \<in> set js" by simp
    with Cons.prems have "j \<noteq> last js" by auto
    with Cons False show ?thesis by simp
  qed
qed

lemma chain_bufs_update_other [simp]: "i \<notin> set c \<Longrightarrow> chain_bufs (t[i := d]) c = chain_bufs t c"
  unfolding chain_bufs_def by (intro map_cong refl) (metis nth_list_update_neq)

lemma chain_bufs_relink [simp]:
  "chain_bufs (t[i := (t ! i)\<lparr>desc_next := x\<rparr>]) c = chain_bufs t c"
  unfolding chain_bufs_def
  by (intro map_cong refl nth_update_same_image) (simp add: desc_buf_def)

lemma chain_bufs_append [simp]: "chain_bufs t (c @ d) = chain_bufs t c @ chain_bufs t d"
  by (simp add: chain_bufs_def)

lemma vq_add_desc_full:
  assumes "desc_inv n vq t [] chs"
  shows "vq_add_desc vq t buf len flag prev = Some (drv_queue_len vq, vq, t)"
proof -
  have "free_desc_head vq = drv_queue_len vq"
    using assms by (intro word_unat_eq_iff [THEN iffD2]) (simp add: desc_inv_def)
  then show ?thesis by (simp add: vq_add_desc_def Let_def)
qed

text \<open>Taking a descriptor off the free list, before it is linked to a chain.\<close>

lemma vq_take_free:
  assumes "desc_inv n vq t (d # fl) chs"
    and t1_def: "t1 = t[d := \<lparr>desc_addr = buf, desc_len = len, desc_flags = flag, desc_next = ucast (drv_queue_len vq)\<rparr>]"
    and vq'_def: "vq' = vq\<lparr>free_desc_head := ucast (desc_next (t ! d))\<rparr>"
  shows "desc_inv n vq' t1 fl (chs @ [[d]])" and "free_desc_head vq = of_nat d"
    and "unat (free_desc_head vq) = d" and "d < n" and "d \<notin> set (concat chs)"
    and "chain_bufs t1 [d] = [(buf, len, flag)]"
    and "\<And>c. c \<in> set chs \<Longrightarrow> chain_bufs t1 c = chain_bufs t c"
proof -
  from assms(1) have len: "unat (drv_queue_len vq) = n" "n < 2 ^ 16" "length t = n"
    and ch: "desc_chain t n (unat (free_desc_head vq)) (d # fl)"
    and cs: "\<And>c. c \<in> set chs \<Longrightarrow> c \<noteq> [] \<and> desc_chain t n (hd c) c"
    and dis: "distinct (d # fl @ concat chs)" and cov: "set (d # fl @ concat chs) = {..<n}"
    by (auto simp: desc_inv_def)
  from ch show fd: "unat (free_desc_head vq) = d" and dn: "d < n" by auto
  then show "free_desc_head vq = of_nat d" by (metis of_nat_unat ucast_id)
  from dis show dc: "d \<notin> set (concat chs)" by simp
  then have out: "d \<notin> set c" if "c \<in> set chs" for c using that by auto
  then show "\<And>c. c \<in> set chs \<Longrightarrow> chain_bufs t1 c = chain_bufs t c" by (simp add: t1_def)
  show "chain_bufs t1 [d] = [(buf, len, flag)]"
    using dn len(3) by (simp add: chain_bufs_def desc_buf_def t1_def)
  have "unat (desc_next (t1 ! d)) = n"
    using dn len by (simp add: t1_def width_simps)
  moreover have "desc_chain t1 n (unat (free_desc_head vq')) fl"
    using ch dis by (simp add: t1_def vq'_def width_simps)
  moreover have "\<forall>c \<in> set (chs @ [[d]]). c \<noteq> [] \<and> desc_chain t1 n (hd c) c"
    using cs out dn calculation(1) by (auto simp: t1_def)
  moreover have "distinct (fl @ concat (chs @ [[d]]))" using dis by auto
  moreover have "set (fl @ concat (chs @ [[d]])) = {..<n}" using cov by auto
  ultimately show "desc_inv n vq' t1 fl (chs @ [[d]])"
    using len by (simp only: desc_inv_def) (simp add: t1_def vq'_def)
qed

lemma vq_add_desc_new:
  assumes "desc_inv n vq t (d # fl) chs" and "drv_queue_len vq \<le> prev"
  shows "\<exists>vq' t'. vq_add_desc vq t buf len flag prev = Some (of_nat d, vq', t')
    \<and> desc_inv n vq' t' fl (chs @ [[d]]) \<and> chain_bufs t' [d] = [(buf, len, flag)]
    \<and> (\<forall>c \<in> set chs. chain_bufs t' c = chain_bufs t c)
    \<and> vq' = vq\<lparr>free_desc_head := free_desc_head vq'\<rparr>"
proof -
  define t1 where "t1 = t[d := \<lparr>desc_addr = buf, desc_len = len, desc_flags = flag,
      desc_next = ucast (drv_queue_len vq)\<rparr>]"
  define vq' where "vq' = vq\<lparr>free_desc_head := ucast (desc_next (t ! d))\<rparr>"
  note f = vq_take_free [OF assms(1) t1_def vq'_def]
  have "free_desc_head vq \<noteq> drv_queue_len vq"
    using f(3,4) assms(1) by (auto simp: desc_inv_def)
  then have "vq_add_desc vq t buf len flag prev = Some (of_nat d, vq', t1)"
    using f(2-4) assms
    by (auto simp: vq_add_desc_def Let_def rd_def wr_def desc_inv_def t1_def vq'_def)
  then show ?thesis using f by (auto simp: vq'_def)
qed

lemma vq_add_desc_extend:
  assumes inv: "desc_inv n vq t (d # fl) (cs1 @ c # cs2)" and prev: "unat prev = last c"
  shows "\<exists>vq' t'. vq_add_desc vq t buf len flag prev = Some (of_nat d, vq', t')
    \<and> desc_inv n vq' t' fl (cs1 @ (c @ [d]) # cs2)
    \<and> chain_bufs t' (c @ [d]) = chain_bufs t c @ [(buf, len, flag)]
    \<and> (\<forall>c' \<in> set (cs1 @ cs2). chain_bufs t' c' = chain_bufs t c')
    \<and> vq' = vq\<lparr>free_desc_head := free_desc_head vq'\<rparr>"
proof -
  define t1 where "t1 = t[d := \<lparr>desc_addr = buf, desc_len = len, desc_flags = flag,
      desc_next = ucast (drv_queue_len vq)\<rparr>]"
  define vq' where "vq' = vq\<lparr>free_desc_head := ucast (desc_next (t ! d))\<rparr>"
  define t2 where "t2 = t1[last c := (t1 ! last c)\<lparr>desc_next := of_nat d\<rparr>]"
  note f = vq_take_free [OF inv t1_def vq'_def]
  from inv have c: "c \<noteq> []" "desc_chain t n (hd c) c" "distinct c" "set c \<subseteq> {..<n}" "d \<notin> set c"
    and len: "unat (drv_queue_len vq) = n" "length t = n" "n < 2 ^ 16"
    by (auto simp: desc_inv_def)
  then have lc: "last c \<in> set c" "last c < n" using last_in_set by auto
  then have prev_lt: "prev < drv_queue_len vq"
    using prev len by (simp add: word_less_nat_alt)
  have "free_desc_head vq \<noteq> drv_queue_len vq"
    using f(3,4) len by auto
  then have add: "vq_add_desc vq t buf len flag prev = Some (of_nat d, vq', t2)"
    using f(2-4) len lc prev prev_lt
    by (simp add: vq_add_desc_def Let_def rd_def wr_def t1_def t2_def vq'_def width_simps)
  from f(1) have i1: "desc_chain t1 n (unat (free_desc_head vq')) fl"
    "\<And>c'. c' \<in> set (cs1 @ c # cs2) \<Longrightarrow> c' \<noteq> [] \<and> desc_chain t1 n (hd c') c'"
    "distinct (fl @ concat ((cs1 @ c # cs2) @ [[d]]))"
    "set (fl @ concat ((cs1 @ c # cs2) @ [[d]])) = {..<n}"
    "unat (desc_next (t1 ! d)) = n"
    unfolding desc_inv_def by auto
  have lout: "last c \<notin> set fl" "\<And>c'. c' \<in> set (cs1 @ cs2) \<Longrightarrow> last c \<notin> set c'"
    using i1(3) lc(1) by auto
  have "desc_chain t2 n (hd c) (c @ [d])"
    unfolding t2_def using i1(2) [of c] i1(5) c f(4) len
    by (intro chain_snoc) (auto simp: t1_def)
  moreover have "desc_chain t2 n (unat (free_desc_head vq')) fl"
    using i1(1) lout(1) by (simp add: t2_def)
  moreover have "c' \<noteq> [] \<and> desc_chain t2 n (hd c') c'" if "c' \<in> set (cs1 @ cs2)" for c'
    using i1(2) [of c'] lout(2) [OF that] that by (auto simp: t2_def)
  ultimately have "desc_inv n vq' t2 fl (cs1 @ (c @ [d]) # cs2)"
    using i1(3,4) c(1) len unfolding desc_inv_def
    by (auto simp: t1_def t2_def vq'_def)
  with add f(6,7) show ?thesis by (auto simp: t2_def vq'_def)
qed

lemma vq_pop_desc_chain:
  assumes inv: "desc_inv n vq t fl (cs1 @ (j # c) # cs2)" and idx: "unat idx = j"
  shows "\<exists>nx t'. vq_pop_desc vq t idx = Some (nx, desc_buf (t ! j), vq\<lparr>free_desc_head := idx\<rparr>, t')
    \<and> unat nx = (if c = [] then n else hd c)
    \<and> desc_inv n (vq\<lparr>free_desc_head := idx\<rparr>) t' (j # fl) (cs1 @ (if c = [] then [] else [c]) @ cs2)
    \<and> (\<forall>c'. chain_bufs t' c' = chain_bufs t c')"
proof -
  let ?h = "free_desc_head vq"
  define t' where "t' = t[j := (t ! j)\<lparr>desc_next := ucast ?h\<rparr>]"
  from inv have len: "length t = n" "n < 2 ^ 16" and j: "j < n"
    and fl: "desc_chain t n (unat ?h) fl" and c: "desc_chain t n (unat (desc_next (t ! j))) c"
    and dis: "j \<notin> set fl" "j \<notin> set c" "\<And>c'. c' \<in> set (cs1 @ cs2) \<Longrightarrow> j \<notin> set c'"
    by (auto simp: desc_inv_def)
  have pop: "vq_pop_desc vq t idx = Some (ucast (desc_next (t ! j)), desc_buf (t ! j), vq\<lparr>free_desc_head := idx\<rparr>, t')"
    using idx j len by (simp add: vq_pop_desc_def rd_def wr_def Let_def desc_buf_def t'_def)
  have nx: "unat (ucast (desc_next (t ! j)) :: u32) = (if c = [] then n else hd c)"
    using c by (cases c) (auto simp: width_simps)
  have "unat ?h \<le> n" using fl by (cases fl) auto
  with len have "unat (ucast ?h :: u16) = unat ?h" by (simp add: width_simps)
  with j len have link: "unat (desc_next (t' ! j)) = unat ?h" by (simp add: t'_def)
  have free: "desc_chain t' n (unat idx) (j # fl)"
    using idx j link fl dis by (simp add: t'_def)
  have chains: "c' \<noteq> [] \<and> desc_chain t' n (hd c') c'" if "c' \<in> set (cs1 @ cs2)" for c'
    using that inv dis(3) [OF that] by (auto simp: desc_inv_def t'_def)
  have rest: "desc_chain t' n (hd c) c" if "c \<noteq> []"
    using c dis(2) chain_hd [OF c that] by (simp add: t'_def)
  from inv have D: "distinct (fl @ concat (cs1 @ (j # c) # cs2))"
    and S: "set (fl @ concat (cs1 @ (j # c) # cs2)) = {..<n}" by (simp_all add: desc_inv_def)
  have "distinct ((j # fl) @ concat (cs1 @ (if c = [] then [] else [c]) @ cs2))"
    using D by (cases "c = []") auto
  moreover have "set ((j # fl) @ concat (cs1 @ (if c = [] then [] else [c]) @ cs2)) = {..<n}"
    using S by (cases "c = []") auto
  moreover have "length t' = n" "unat (drv_queue_len vq) = n"
    using len inv by (simp_all add: t'_def desc_inv_def)
  ultimately have "desc_inv n (vq\<lparr>free_desc_head := idx\<rparr>) t' (j # fl) (cs1 @ (if c = [] then [] else [c]) @ cs2)"
    unfolding desc_inv_def using free chains rest len(2) by auto
  with pop nx show ?thesis by (auto simp: t'_def)
qed

section \<open>The rings as channels\<close>

text \<open>
  Both rings are indexed modulo the queue length by masking, so the length is a power of two;
  it is below \<open>2 ^ 16\<close>, so that the length itself, the end-of-chain link, fits the 16-bit fields.
\<close>

definition vq_len :: "u32 \<Rightarrow> nat \<Rightarrow> bool" where
  "vq_len queue_len n \<longleftrightarrow> (\<exists>k < 16. queue_len = 2 ^ k \<and> n = 2 ^ k)"

lemma vq_len_facts:
  assumes "vq_len q n"
  shows "unat q = n" and "0 < n" and "n < 2 ^ 16"
proof -
  from assms obtain k where k: "k < 16" "q = 2 ^ k" "n = 2 ^ k" by (auto simp: vq_len_def)
  have "(2::nat) ^ k < 2 ^ 16" using k(1) by (rule power_strict_increasing) simp
  with k show "0 < n" and "n < 2 ^ 16" by simp_all
  from \<open>2 ^ k < 2 ^ 16\<close> have "unat (of_nat (2 ^ k) :: u32) = 2 ^ k"
    by (intro unat_of_nat_small) simp
  with k show "unat q = n" by simp
qed

lemma vq_mask:
  assumes "vq_len q n"
  shows "unat ((x :: u32) AND (q - 1)) = unat x mod n"
  using assms unat_and_pow2_minus_1 [where 'a = 32] by (auto simp: vq_len_def)

lemma vq_next:
  assumes "vq_len q n" and "unat (x :: u32) < 2 ^ 16"
  shows "unat ((x + 1) AND (q - 1)) = Suc (unat x) mod n"
  using vq_mask [OF assms(1), of "x + 1"] assms(2) by (simp add: unat_Suc_no_wrap)

text \<open>The available ring between the driver that publishes and the device that consumes.\<close>

definition dev_next :: "virtqueue_device \<Rightarrow> nat" where
  "dev_next d = unat ((a_ring_last_seen d + 1) AND (dev_queue_len d - 1))"

definition avail_link_inv :: "virtqueue_device \<times> vq_mem \<Rightarrow> bool" where
  "avail_link_inv = (\<lambda>(d, m).
     vq_len (dev_queue_len d) (length (avail_ring (avail m))) \<and>
     unat (avail_idx (avail m)) < length (avail_ring (avail m)) \<and>
     unat (a_ring_last_seen d) < length (avail_ring (avail m)))"

definition avail_pending :: "virtqueue_device \<times> vq_mem \<Rightarrow> u32 list" where
  "avail_pending = (\<lambda>(d, m).
     let ring = avail_ring (avail m)
     in map ucast (ring_seg ring (dev_next d) (ring_dist (length ring) (dev_next d) (unat (avail_idx (avail m))))))"

definition avail_cap :: "virtqueue_device \<times> vq_mem \<Rightarrow> nat" where
  "avail_cap = (\<lambda>(d, m). length (avail_ring (avail m)) - 1)"

definition avail_enq :: "u32 \<Rightarrow> virtqueue_device \<times> vq_mem \<Rightarrow> (virtqueue_device \<times> vq_mem) option" where
  "avail_enq x = (\<lambda>(d, m). map_option (\<lambda>a. (d, m\<lparr>avail := a\<rparr>)) (avail_push (dev_queue_len d) x (avail m)))"

definition avail_deq :: "virtqueue_device \<times> vq_mem \<Rightarrow> (u32 \<times> (virtqueue_device \<times> vq_mem)) option" where
  "avail_deq = (\<lambda>(d, m).
     case virtqueue_get_available_buf d m virtqueue_init_ring_object of
       Some (r, d', robj) \<Rightarrow> if r = 0 then None else Some (obj_first robj, (d', m))
     | None \<Rightarrow> None)"

lemma avail_link_facts:
  assumes "avail_link_inv (d, m)"
  defines "ring \<equiv> avail_ring (avail m)"
  shows "dev_next d < length ring" and "unat (avail_idx (avail m)) < length ring"
    and "vq_len (dev_queue_len d) (length ring)" and "length ring < 2 ^ 16"
proof -
  from assms show len: "vq_len (dev_queue_len d) (length ring)" and "unat (avail_idx (avail m)) < length ring"
    by (auto simp: avail_link_inv_def)
  then show "dev_next d < length ring"
    by (simp add: dev_next_def vq_mask index_mod_less)
  from vq_len_facts(3) [OF len] show "length ring < 2 ^ 16" .
qed

lemma avail_enq_room:
  assumes "avail_link_inv (d, m)" and "unat x < 2 ^ 16"
    and "length (avail_pending (d, m)) < avail_cap (d, m)"
  shows "\<exists>a. avail_push (dev_queue_len d) x (avail m) = Some a \<and> avail_link_inv (d, m\<lparr>avail := a\<rparr>)
    \<and> avail_pending (d, m\<lparr>avail := a\<rparr>) = avail_pending (d, m) @ [x]
    \<and> length (avail_ring a) = length (avail_ring (avail m))"
proof -
  let ?ring = "avail_ring (avail m)" and ?w = "unat (avail_idx (avail m))" and ?r = "dev_next d"
  let ?idx = "ucast ((ucast (avail_idx (avail m)) + 1 :: u32) AND (dev_queue_len d - 1)) :: u16"
  let ?a = "(avail m)\<lparr>avail_ring := ?ring[?w := ucast x], avail_idx := ?idx\<rparr>"
  note f = avail_link_facts [OF assms(1)]
  have "unat ((ucast (avail_idx (avail m)) + 1 :: u32) AND (dev_queue_len d - 1)) = Suc ?w mod length ?ring"
    using vq_next [OF f(3), of "ucast (avail_idx (avail m))"] f(2,4) by (simp add: width_simps)
  moreover have lt: "Suc ?w mod length ?ring < length ?ring" using f(2) by (rule index_mod_less)
  ultimately have idx: "unat ?idx = Suc ?w mod length ?ring" using f(4) by (simp add: width_simps)
  have k: "Suc (ring_dist (length ?ring) ?r ?w) < length ?ring"
    using assms(3) by (simp add: avail_pending_def avail_cap_def Let_def)
  have x: "ucast (ucast x :: u16) = x"
    using assms(2) by (intro word_unat_eq_iff [THEN iffD2]) (simp add: width_simps)
  have "avail_push (dev_queue_len d) x (avail m) = Some ?a"
    using f(2) by (simp add: avail_push_def wr_def)
  moreover have "avail_link_inv (d, m\<lparr>avail := ?a\<rparr>)"
    using assms(1) idx lt by (simp add: avail_link_inv_def)
  moreover have "avail_pending (d, m\<lparr>avail := ?a\<rparr>) = avail_pending (d, m) @ [x]"
    using ring_push(1) [OF f(1,2) k] ring_push(2) [OF f(1,2) k, of "ucast x"] x idx by (simp add: avail_pending_def Let_def)
  ultimately show ?thesis by fastforce
qed

lemma get_available_some:
  assumes "avail_link_inv (d, m)" and "avail_pending (d, m) = x # q"
  shows "\<exists>d'. virtqueue_get_available_buf d m robj = Some (1, d', robj\<lparr>obj_first := x, obj_cur := x\<rparr>)
    \<and> avail_link_inv (d', m) \<and> avail_pending (d', m) = q"
proof -
  let ?ring = "avail_ring (avail m)" and ?w = "unat (avail_idx (avail m))" and ?r = "dev_next d"
  let ?next = "(a_ring_last_seen d + 1) AND (dev_queue_len d - 1)"
  let ?d' = "d\<lparr>a_ring_last_seen := ?next\<rparr>"
  note f = avail_link_facts [OF assms(1)]
  have ne: "?r \<noteq> ?w"
    using assms(2) f(1) by (auto simp: avail_pending_def Let_def ring_simps)
  then have "?next \<noteq> ucast (avail_idx (avail m))"
    by (auto simp: dev_next_def width_simps)
  with f(1) have get: "virtqueue_get_available_buf d m robj =
      Some (1, ?d', robj\<lparr>obj_first := ucast (?ring ! ?r), obj_cur := ucast (?ring ! ?r)\<rparr>)"
    by (simp add: virtqueue_get_available_buf_def Let_def rd_def dev_next_def)
  have nx: "dev_next ?d' = Suc ?r mod length ?ring"
    using vq_next [OF f(3), of ?next] f(1,4) by (simp add: dev_next_def)
  have "x = ucast (?ring ! ?r) \<and> avail_pending (?d', m) = q"
    using assms(2) ring_pop [OF f(1,2) ne] nx by (simp add: avail_pending_def Let_def)
  with get assms(1) f(1) show ?thesis
    by (auto simp: avail_link_inv_def dev_next_def)
qed

lemma get_available_none:
  assumes "avail_link_inv (d, m)" and "avail_pending (d, m) = []"
  shows "virtqueue_get_available_buf d m robj = Some (0, d, robj)"
proof -
  let ?n = "length (avail_ring (avail m))"
  note f = avail_link_facts [OF assms(1)]
  have "ring_dist ?n (dev_next d) (unat (avail_idx (avail m))) = 0"
    using assms(2) by (metis (no_types, lifting) avail_pending_def case_prod_conv length_map length_ring_seg list.size(3))
  then have "dev_next d = unat (avail_idx (avail m))"
    using add_ring_dist [OF f(1,2)] f(1) by simp
  then have "(a_ring_last_seen d + 1) AND (dev_queue_len d - 1) = ucast (avail_idx (avail m))"
    by (intro word_unat_eq_iff [THEN iffD2]) (simp add: dev_next_def width_simps)
  then show ?thesis by (simp add: virtqueue_get_available_buf_def)
qed

interpretation avl: fifo_channel avail_link_inv avail_pending avail_cap "\<lambda>x. unat x < 2 ^ 16" avail_enq avail_deq
proof
  fix s :: "virtqueue_device \<times> vq_mem" and a :: u32
  assume "avail_link_inv s" "unat a < 2 ^ 16" "length (avail_pending s) < avail_cap s"
  then show "\<exists>s'. avail_enq a s = Some s' \<and> avail_link_inv s' \<and> avail_pending s' = avail_pending s @ [a]
      \<and> avail_cap s' = avail_cap s"
    using avail_enq_room by (cases s) (fastforce simp: avail_enq_def avail_cap_def)
next
  fix s :: "virtqueue_device \<times> vq_mem" and a q
  assume "avail_link_inv s" "avail_pending s = a # q"
  then show "\<exists>s'. avail_deq s = Some (a, s') \<and> avail_link_inv s' \<and> avail_pending s' = q \<and> avail_cap s' = avail_cap s"
    using get_available_some [of "fst s" "snd s" a q virtqueue_init_ring_object]
    by (cases s) (auto simp: avail_deq_def avail_cap_def)
next
  fix s :: "virtqueue_device \<times> vq_mem"
  assume "avail_link_inv s" "avail_pending s = []"
  then show "avail_deq s = None"
    using get_available_none [of "fst s" "snd s" virtqueue_init_ring_object]
    by (cases s) (simp add: avail_deq_def)
qed

text \<open>The used ring between the device that returns chains and the driver that collects them.\<close>

type_synonym used_link = "virtqueue_driver \<times> virtqueue_device \<times> vq_mem"

definition drv_next :: "virtqueue_driver \<Rightarrow> nat" where
  "drv_next d = unat ((u_ring_last_seen d + 1) AND (drv_queue_len d - 1))"

definition used_link_inv :: "used_link \<Rightarrow> bool" where
  "used_link_inv = (\<lambda>(drv, dev, m).
     vq_len (drv_queue_len drv) (length (used_ring (used m))) \<and> dev_queue_len dev = drv_queue_len drv \<and>
     unat (used_idx (used m)) < length (used_ring (used m)) \<and>
     unat (u_ring_last_seen drv) < length (used_ring (used m)))"

definition used_pending :: "used_link \<Rightarrow> (u32 \<times> u32) list" where
  "used_pending = (\<lambda>(drv, dev, m).
     let ring = used_ring (used m)
     in map (\<lambda>e. (ue_id e, ue_len e))
          (ring_seg ring (drv_next drv) (ring_dist (length ring) (drv_next drv) (unat (used_idx (used m))))))"

definition used_cap :: "used_link \<Rightarrow> nat" where
  "used_cap = (\<lambda>(drv, dev, m). length (used_ring (used m)) - 1)"

definition used_enq :: "u32 \<times> u32 \<Rightarrow> used_link \<Rightarrow> used_link option" where
  "used_enq = (\<lambda>(h, len) (drv, dev, m).
     map_option (\<lambda>(r, m'). (drv, dev, m')) (virtqueue_add_used_buf dev m \<lparr>obj_cur = h, obj_first = h\<rparr> len))"

definition used_deq :: "used_link \<Rightarrow> ((u32 \<times> u32) \<times> used_link) option" where
  "used_deq = (\<lambda>(drv, dev, m).
     case virtqueue_get_used_buf drv m virtqueue_init_ring_object 0 of
       Some (r, drv', robj, len) \<Rightarrow> if r = 0 then None else Some ((obj_first robj, len), (drv', dev, m))
     | None \<Rightarrow> None)"

lemma used_link_facts:
  assumes "used_link_inv (drv, dev, m)"
  defines "ring \<equiv> used_ring (used m)"
  shows "drv_next drv < length ring" and "unat (used_idx (used m)) < length ring"
    and "vq_len (drv_queue_len drv) (length ring)" and "length ring < 2 ^ 16"
    and "dev_queue_len dev = drv_queue_len drv"
proof -
  from assms show len: "vq_len (drv_queue_len drv) (length ring)" and "unat (used_idx (used m)) < length ring"
    and "dev_queue_len dev = drv_queue_len drv"
    by (auto simp: used_link_inv_def)
  then show "drv_next drv < length ring"
    by (simp add: drv_next_def vq_mask index_mod_less)
  from vq_len_facts(3) [OF len] show "length ring < 2 ^ 16" .
qed

lemma add_used_room:
  assumes "used_link_inv (drv, dev, m)" and "length (used_pending (drv, dev, m)) < used_cap (drv, dev, m)"
  shows "\<exists>u. virtqueue_add_used_buf dev m robj len = Some (1, m\<lparr>used := u\<rparr>)
    \<and> used_link_inv (drv, dev, m\<lparr>used := u\<rparr>)
    \<and> used_pending (drv, dev, m\<lparr>used := u\<rparr>) = used_pending (drv, dev, m) @ [(obj_first robj, len)]
    \<and> length (used_ring u) = length (used_ring (used m))"
proof -
  let ?ring = "used_ring (used m)" and ?w = "unat (used_idx (used m))" and ?r = "drv_next drv"
  let ?idx = "ucast ((ucast (used_idx (used m)) + 1 :: u32) AND (dev_queue_len dev - 1)) :: u16"
  let ?e = "\<lparr>ue_id = obj_first robj, ue_len = len\<rparr>"
  let ?u = "(used m)\<lparr>used_ring := ?ring[?w := ?e], used_idx := ?idx\<rparr>"
  note f = used_link_facts [OF assms(1)]
  have "unat ((ucast (used_idx (used m)) + 1 :: u32) AND (dev_queue_len dev - 1)) = Suc ?w mod length ?ring"
    using vq_next [OF f(3), of "ucast (used_idx (used m))"] f(2,4,5) by (simp add: width_simps)
  moreover have lt: "Suc ?w mod length ?ring < length ?ring" using f(2) by (rule index_mod_less)
  ultimately have idx: "unat ?idx = Suc ?w mod length ?ring" using f(4) by (simp add: width_simps)
  have k: "Suc (ring_dist (length ?ring) ?r ?w) < length ?ring"
    using assms(2) by (simp add: used_pending_def used_cap_def Let_def)
  have "virtqueue_add_used_buf dev m robj len = Some (1, m\<lparr>used := ?u\<rparr>)"
    using f(2) by (simp add: virtqueue_add_used_buf_def wr_def Let_def width_simps)
  moreover have "used_link_inv (drv, dev, m\<lparr>used := ?u\<rparr>)"
    using assms(1) idx lt by (simp add: used_link_inv_def)
  moreover have "used_pending (drv, dev, m\<lparr>used := ?u\<rparr>) = used_pending (drv, dev, m) @ [(obj_first robj, len)]"
    using ring_push(1) [OF f(1,2) k] ring_push(2) [OF f(1,2) k, of ?e] idx
    by (simp add: used_pending_def Let_def)
  ultimately show ?thesis by fastforce
qed

lemma get_used_some:
  assumes "used_link_inv (drv, dev, m)" and "used_pending (drv, dev, m) = (h, len) # q"
  shows "\<exists>nx. virtqueue_get_used_buf drv m robj l0 =
      Some (1, drv\<lparr>u_ring_last_seen := nx\<rparr>, robj\<lparr>obj_first := h, obj_cur := h\<rparr>, len)
    \<and> used_link_inv (drv\<lparr>u_ring_last_seen := nx\<rparr>, dev, m)
    \<and> used_pending (drv\<lparr>u_ring_last_seen := nx\<rparr>, dev, m) = q"
proof -
  let ?ring = "used_ring (used m)" and ?w = "unat (used_idx (used m))" and ?r = "drv_next drv"
  let ?next = "(u_ring_last_seen drv + 1) AND (drv_queue_len drv - 1)"
  let ?d' = "drv\<lparr>u_ring_last_seen := ?next\<rparr>"
  note f = used_link_facts [OF assms(1)]
  have ne: "?r \<noteq> ?w"
    using assms(2) f(1) by (auto simp: used_pending_def Let_def ring_simps)
  then have "?next \<noteq> ucast (used_idx (used m))"
    by (auto simp: drv_next_def width_simps)
  with f(1) have get: "virtqueue_get_used_buf drv m robj l0 =
      Some (1, ?d', robj\<lparr>obj_first := ue_id (?ring ! ?r), obj_cur := ue_id (?ring ! ?r)\<rparr>, ue_len (?ring ! ?r))"
    by (simp add: virtqueue_get_used_buf_def Let_def rd_def drv_next_def)
  have nx: "drv_next ?d' = Suc ?r mod length ?ring"
    using vq_next [OF f(3), of ?next] f(1,4) by (simp add: drv_next_def)
  have "h = ue_id (?ring ! ?r) \<and> len = ue_len (?ring ! ?r) \<and> used_pending (?d', dev, m) = q"
    using assms(2) ring_pop [OF f(1,2) ne] nx by (simp add: used_pending_def Let_def)
  with get assms(1) f(1) show ?thesis
    by (auto simp: used_link_inv_def drv_next_def)
qed

lemma get_used_none:
  assumes "used_link_inv (drv, dev, m)" and "used_pending (drv, dev, m) = []"
  shows "virtqueue_get_used_buf drv m robj l0 = Some (0, drv, robj, l0)"
proof -
  let ?n = "length (used_ring (used m))"
  note f = used_link_facts [OF assms(1)]
  have "ring_dist ?n (drv_next drv) (unat (used_idx (used m))) = 0"
    using assms(2) by (metis (no_types, lifting) used_pending_def case_prod_conv length_map length_ring_seg list.size(3))
  then have "drv_next drv = unat (used_idx (used m))"
    using add_ring_dist [OF f(1,2)] f(1) by simp
  then have "(u_ring_last_seen drv + 1) AND (drv_queue_len drv - 1) = ucast (used_idx (used m))"
    by (intro word_unat_eq_iff [THEN iffD2]) (simp add: drv_next_def width_simps)
  then show ?thesis by (simp add: virtqueue_get_used_buf_def)
qed

interpretation usd: fifo_channel used_link_inv used_pending used_cap "\<lambda>_. True" used_enq used_deq
proof
  fix s :: used_link and a :: "u32 \<times> u32"
  assume "used_link_inv s" "length (used_pending s) < used_cap s"
  then show "\<exists>s'. used_enq a s = Some s' \<and> used_link_inv s' \<and> used_pending s' = used_pending s @ [a]
      \<and> used_cap s' = used_cap s"
    using add_used_room [of "fst s" "fst (snd s)" "snd (snd s)" "\<lparr>obj_cur = fst a, obj_first = fst a\<rparr>" "snd a"]
    by (cases s; cases a) (auto simp: used_enq_def used_cap_def)
next
  fix s :: used_link and a q
  assume "used_link_inv s" "used_pending s = a # q"
  then show "\<exists>s'. used_deq s = Some (a, s') \<and> used_link_inv s' \<and> used_pending s' = q \<and> used_cap s' = used_cap s"
    using get_used_some [of "fst s" "fst (snd s)" "snd (snd s)" "fst a" "snd a" q virtqueue_init_ring_object 0]
    by (cases s; cases a) (auto simp: used_deq_def used_cap_def)
next
  fix s :: used_link
  assume "used_link_inv s" "used_pending s = []"
  then show "used_deq s = None"
    using get_used_none [of "fst s" "fst (snd s)" "snd (snd s)" virtqueue_init_ring_object 0]
    by (cases s) (simp add: used_deq_def)
qed

section \<open>Whole queues\<close>

text \<open>
  The client loops of the README: chaining several buffers under one ring entry, and iterating
  over the buffers of an entry on either side.
\<close>

type_synonym vq_buf = "u64 \<times> u32 \<times> vq_flags"

definition raw_buf :: "vq_buf \<Rightarrow> u64 \<times> u32 \<times> u16" where
  "raw_buf = (\<lambda>(a, l, f). (a, l, vq_flag_val f))"

fun add_bufs :: "virtqueue_driver \<Rightarrow> vq_mem \<Rightarrow> virtqueue_ring_object \<Rightarrow> vq_buf list \<Rightarrow>
    (virtqueue_driver \<times> vq_mem \<times> virtqueue_ring_object) option" where
  "add_bufs vq m obj [] = Some (vq, m, obj)"
| "add_bufs vq m obj ((a, l, f) # bs) = do {
     (r, vq', m', obj') \<leftarrow> virtqueue_add_available_buf vq m obj a l f;
     if r = 0 then None else add_bufs vq' m' obj' bs }"

fun gather_available_n :: "nat \<Rightarrow> virtqueue_device \<Rightarrow> vq_mem \<Rightarrow> virtqueue_ring_object \<Rightarrow>
    ((u64 \<times> u32 \<times> u16) list \<times> virtqueue_ring_object) option" where
  "gather_available_n 0 vq m robj = Some ([], robj)"
| "gather_available_n (Suc k) vq m robj =
     (case virtqueue_gather_available vq m robj of
        Some (r, Some b, robj') \<Rightarrow> map_option (\<lambda>(bs, ro). (b # bs, ro)) (gather_available_n k vq m robj')
      | _ \<Rightarrow> None)"

fun gather_used_n :: "nat \<Rightarrow> virtqueue_driver \<Rightarrow> vq_mem \<Rightarrow> virtqueue_ring_object \<Rightarrow>
    ((u64 \<times> u32 \<times> u16) list \<times> virtqueue_driver \<times> vq_mem \<times> virtqueue_ring_object) option" where
  "gather_used_n 0 vq m robj = Some ([], vq, m, robj)"
| "gather_used_n (Suc k) vq m robj =
     (case virtqueue_gather_used vq m robj of
        Some (r, Some b, vq', m', robj') \<Rightarrow> map_option (\<lambda>(bs, z). (b # bs, z)) (gather_used_n k vq' m' robj')
      | _ \<Rightarrow> None)"

definition vq_inv :: "nat \<Rightarrow> virtqueue_driver \<Rightarrow> virtqueue_device \<Rightarrow> vq_mem \<Rightarrow> nat list \<Rightarrow> nat list list \<Rightarrow> bool" where
  "vq_inv n drv dev m fl chs \<longleftrightarrow>
     desc_inv n drv (desc_table m) fl chs \<and> avail_link_inv (dev, m) \<and> used_link_inv (drv, dev, m) \<and>
     length (avail_ring (avail m)) = n \<and> length (used_ring (used m)) = n"

lemma pending_frame [simp]:
  "avail_link_inv (d, m\<lparr>desc_table := t\<rparr>) = avail_link_inv (d, m)"
  "avail_pending (d, m\<lparr>desc_table := t\<rparr>) = avail_pending (d, m)"
  "avail_link_inv (d, m\<lparr>used := u\<rparr>) = avail_link_inv (d, m)"
  "used_link_inv (drv, d, m\<lparr>desc_table := t\<rparr>) = used_link_inv (drv, d, m)"
  "used_pending (drv, d, m\<lparr>desc_table := t\<rparr>) = used_pending (drv, d, m)"
  "used_link_inv (drv, d, m\<lparr>avail := a\<rparr>) = used_link_inv (drv, d, m)"
  "used_pending (drv, d, m\<lparr>avail := a\<rparr>) = used_pending (drv, d, m)"
  "used_link_inv (drv\<lparr>free_desc_head := h\<rparr>, d, m) = used_link_inv (drv, d, m)"
  "used_pending (drv\<lparr>free_desc_head := h\<rparr>, d, m) = used_pending (drv, d, m)"
  "used_link_inv (drv, d\<lparr>a_ring_last_seen := x\<rparr>, m) = used_link_inv (drv, d, m)"
  "used_pending (drv, d\<lparr>a_ring_last_seen := x\<rparr>, m) = used_pending (drv, d, m)"
  by (auto simp: avail_link_inv_def avail_pending_def used_link_inv_def used_pending_def drv_next_def Let_def)

lemma desc_inv_frame [simp]:
  "desc_inv n (vq\<lparr>u_ring_last_seen := x\<rparr>) t fl chs = desc_inv n vq t fl chs"
  by (simp add: desc_inv_def)

lemma avail_push_step:
  assumes "avail_link_inv (d, m)"
  shows "\<exists>a. avail_push (dev_queue_len d) x (avail m) = Some a \<and> avail_link_inv (d, m\<lparr>avail := a\<rparr>)
    \<and> unat (avail_idx a) = Suc (unat (avail_idx (avail m))) mod length (avail_ring (avail m))
    \<and> length (avail_ring a) = length (avail_ring (avail m))"
proof -
  let ?ring = "avail_ring (avail m)" and ?w = "unat (avail_idx (avail m))"
  note f = avail_link_facts [OF assms]
  have "unat ((ucast (avail_idx (avail m)) + 1 :: u32) AND (dev_queue_len d - 1)) = Suc ?w mod length ?ring"
    using vq_next [OF f(3), of "ucast (avail_idx (avail m))"] f(2,4) by (simp add: width_simps)
  moreover have "Suc ?w mod length ?ring < length ?ring" using f(2) by (rule index_mod_less)
  ultimately show ?thesis
    using assms f(2,4) by (simp add: avail_push_def wr_def avail_link_inv_def width_simps)
qed

lemma add_first_buf:
  assumes "desc_inv n drv (desc_table m) (d # fl) chs"
    and "avail_push (drv_queue_len drv) (of_nat d) (avail m) = Some a"
  shows "\<exists>drv' t'. virtqueue_add_available_buf drv m virtqueue_init_ring_object buf len flag =
        Some (1, drv', m\<lparr>desc_table := t', avail := a\<rparr>, \<lparr>obj_cur = of_nat d, obj_first = of_nat d\<rparr>)
    \<and> desc_inv n drv' t' fl (chs @ [[d]]) \<and> chain_bufs t' [d] = [raw_buf (buf, len, flag)]
    \<and> (\<forall>c \<in> set chs. chain_bufs t' c = chain_bufs (desc_table m) c)
    \<and> drv' = drv\<lparr>free_desc_head := free_desc_head drv'\<rparr>"
proof -
  have big: "drv_queue_len drv \<le> - 1" by simp
  from vq_add_desc_new [OF assms(1) big, of buf len "vq_flag_val flag"] obtain drv' t' where
    add: "vq_add_desc drv (desc_table m) buf len (vq_flag_val flag) (- 1) = Some (of_nat d, drv', t')"
    and post: "desc_inv n drv' t' fl (chs @ [[d]])" "chain_bufs t' [d] = [(buf, len, vq_flag_val flag)]"
      "\<forall>c \<in> set chs. chain_bufs t' c = chain_bufs (desc_table m) c"
      "drv' = drv\<lparr>free_desc_head := free_desc_head drv'\<rparr>" by blast
  from assms(1) have "d < n" "unat (drv_queue_len drv) = n" "n < 2 ^ 16" by (auto simp: desc_inv_def)
  then have "unat (of_nat d :: u32) \<noteq> unat (drv_queue_len drv)"
    by (simp add: width_simps)
  then have "(of_nat d :: u32) \<noteq> drv_queue_len drv" by metis
  with add assms(2) have "virtqueue_add_available_buf drv m virtqueue_init_ring_object buf len flag =
      Some (1, drv', m\<lparr>desc_table := t', avail := a\<rparr>, \<lparr>obj_cur = of_nat d, obj_first = of_nat d\<rparr>)"
    by (simp add: virtqueue_add_available_buf_def virtqueue_init_ring_object_def Let_def)
  with post show ?thesis by (auto simp: raw_buf_def)
qed

lemma add_more_buf:
  assumes "desc_inv n drv (desc_table m) (d # fl) (cs1 @ c # cs2)"
    and "unat (obj_cur obj) = last c" and "unat (obj_first obj) = hd c"
  shows "\<exists>drv' t'. virtqueue_add_available_buf drv m obj buf len flag =
        Some (1, drv', m\<lparr>desc_table := t'\<rparr>, obj\<lparr>obj_cur := of_nat d\<rparr>)
    \<and> desc_inv n drv' t' fl (cs1 @ (c @ [d]) # cs2)
    \<and> chain_bufs t' (c @ [d]) = chain_bufs (desc_table m) c @ [raw_buf (buf, len, flag)]
    \<and> (\<forall>c' \<in> set (cs1 @ cs2). chain_bufs t' c' = chain_bufs (desc_table m) c')
    \<and> drv' = drv\<lparr>free_desc_head := free_desc_head drv'\<rparr>"
proof -
  from vq_add_desc_extend [OF assms(1,2), of buf len "vq_flag_val flag"] obtain drv' t' where
    add: "vq_add_desc drv (desc_table m) buf len (vq_flag_val flag) (obj_cur obj) = Some (of_nat d, drv', t')"
    and post: "desc_inv n drv' t' fl (cs1 @ (c @ [d]) # cs2)"
      "chain_bufs t' (c @ [d]) = chain_bufs (desc_table m) c @ [(buf, len, vq_flag_val flag)]"
      "\<forall>c' \<in> set (cs1 @ cs2). chain_bufs t' c' = chain_bufs (desc_table m) c'"
      "drv' = drv\<lparr>free_desc_head := free_desc_head drv'\<rparr>" by blast
  from assms(1) have q: "unat (drv_queue_len drv) = n" "n < 2 ^ 16" and "d < n" and c: "c \<noteq> []" "set c \<subseteq> {..<n}"
    by (auto simp: desc_inv_def)
  then have "unat (of_nat d :: u32) \<noteq> unat (drv_queue_len drv)"
    by (auto simp: width_simps)
  moreover have "hd c < n" using hd_in_set [OF c(1)] c(2) by blast
  ultimately have "(of_nat d :: u32) \<noteq> drv_queue_len drv" and "\<not> drv_queue_len drv \<le> obj_first obj"
    using q assms(3) by (auto simp: word_le_nat_alt)
  with add post show ?thesis
    by (auto simp: virtqueue_add_available_buf_def Let_def raw_buf_def)
qed

lemma add_bufs_extend:
  assumes "desc_inv n drv (desc_table m) (ds @ fl) (chs @ [c])" and "length ds = length bufs"
    and "unat (obj_cur obj) = last c" and "unat (obj_first obj) = hd c"
  shows "\<exists>h t' obj'. add_bufs drv m obj bufs = Some (drv\<lparr>free_desc_head := h\<rparr>, m\<lparr>desc_table := t'\<rparr>, obj')
    \<and> desc_inv n (drv\<lparr>free_desc_head := h\<rparr>) t' fl (chs @ [c @ ds])
    \<and> chain_bufs t' (c @ ds) = chain_bufs (desc_table m) c @ map raw_buf bufs
    \<and> (\<forall>c' \<in> set chs. chain_bufs t' c' = chain_bufs (desc_table m) c')"
  using assms
proof (induction bufs arbitrary: drv m ds c obj)
  case Nil
  then show ?case
    by (intro exI [of _ "free_desc_head drv"] exI [of _ "desc_table m"] exI [of _ obj]) simp
next
  case (Cons b bufs)
  obtain buf len flag where b: "b = (buf, len, flag)" by (cases b)
  from Cons.prems(2) obtain d ds' where ds: "ds = d # ds'" "length ds' = length bufs" by (cases ds) auto
  from add_more_buf [of n drv m d "ds' @ fl" chs c "[]" obj buf len flag] Cons.prems ds obtain drv' t' where
    add: "virtqueue_add_available_buf drv m obj buf len flag =
        Some (1, drv', m\<lparr>desc_table := t'\<rparr>, obj\<lparr>obj_cur := of_nat d\<rparr>)"
    and inv: "desc_inv n drv' t' (ds' @ fl) (chs @ [c @ [d]])"
    and bufs: "chain_bufs t' (c @ [d]) = chain_bufs (desc_table m) c @ [raw_buf b]"
      "\<forall>c' \<in> set chs. chain_bufs t' c' = chain_bufs (desc_table m) c'"
    and drv': "drv' = drv\<lparr>free_desc_head := free_desc_head drv'\<rparr>"
    by (auto simp: b)
  from inv have "d < n" "n < 2 ^ 16" "c \<noteq> [] \<or> c = []" by (auto simp: desc_inv_def)
  then have "unat (of_nat d :: u32) = d" by (simp add: width_simps)
  moreover have "c \<noteq> []" using Cons.prems(1) by (simp add: desc_inv_def)
  ultimately obtain h t'' obj' where
    ih: "add_bufs drv' (m\<lparr>desc_table := t'\<rparr>) (obj\<lparr>obj_cur := of_nat d\<rparr>) bufs =
        Some (drv'\<lparr>free_desc_head := h\<rparr>, m\<lparr>desc_table := t''\<rparr>, obj')"
      "desc_inv n (drv'\<lparr>free_desc_head := h\<rparr>) t'' fl (chs @ [(c @ [d]) @ ds'])"
      "chain_bufs t'' ((c @ [d]) @ ds') = chain_bufs t' (c @ [d]) @ map raw_buf bufs"
      "\<forall>c' \<in> set chs. chain_bufs t'' c' = chain_bufs t' c'"
    using Cons.IH [of drv' "m\<lparr>desc_table := t'\<rparr>" ds' "c @ [d]" "obj\<lparr>obj_cur := of_nat d\<rparr>"]
      inv ds(2) Cons.prems(4) by auto
  have "drv'\<lparr>free_desc_head := h\<rparr> = drv\<lparr>free_desc_head := h\<rparr>" by (subst drv') simp
  moreover have "chain_bufs t'' (c @ ds) = chain_bufs (desc_table m) c @ map raw_buf (b # bufs)"
    using ih(3) bufs(1) ds(1) by (simp del: chain_bufs_append)
  ultimately show ?case
    using ih(1,2,4) add bufs(2) ds(1) b
    by (intro exI [of _ h] exI [of _ t''] exI [of _ obj']) simp
qed

lemma gather_available_chain:
  assumes "desc_chain (desc_table m) n (unat (obj_cur robj)) c" and "length (desc_table m) = n"
    and "unat (dev_queue_len dev) = n"
  shows "\<exists>robj'. gather_available_n (length c) dev m robj = Some (chain_bufs (desc_table m) c, robj')
    \<and> virtqueue_gather_available dev m robj' = Some (0, None, robj') \<and> obj_first robj' = obj_first robj"
  using assms(1)
proof (induction c arbitrary: robj)
  case Nil
  then show ?case
    using assms by (auto simp: chain_bufs_def virtqueue_gather_available_def Let_def word_le_nat_alt)
next
  case (Cons j c)
  let ?d = "desc_table m ! j"
  from Cons.prems assms have "virtqueue_gather_available dev m robj =
      Some (1, Some (desc_buf ?d), robj\<lparr>obj_cur := ucast (desc_next ?d)\<rparr>)"
    by (auto simp: virtqueue_gather_available_def Let_def word_le_nat_alt rd_def desc_buf_def)
  moreover from Cons.prems Cons.IH [of "robj\<lparr>obj_cur := ucast (desc_next ?d)\<rparr>"] obtain robj' where
    "gather_available_n (length c) dev m (robj\<lparr>obj_cur := ucast (desc_next ?d)\<rparr>) =
       Some (chain_bufs (desc_table m) c, robj')"
    "virtqueue_gather_available dev m robj' = Some (0, None, robj')" "obj_first robj' = obj_first robj"
    by (auto simp: width_simps)
  ultimately show ?case by (simp add: chain_bufs_def)
qed

lemma gather_used_chain:
  assumes "desc_inv n drv (desc_table m) fl (chs @ [c] @ cs2)" and "unat (obj_cur robj) = hd c" and "c \<noteq> []"
  shows "\<exists>h t' robj'. gather_used_n (length c) drv m robj =
        Some (chain_bufs (desc_table m) c, drv\<lparr>free_desc_head := h\<rparr>, m\<lparr>desc_table := t'\<rparr>, robj')
    \<and> virtqueue_gather_used (drv\<lparr>free_desc_head := h\<rparr>) (m\<lparr>desc_table := t'\<rparr>) robj' =
        Some (0, None, drv\<lparr>free_desc_head := h\<rparr>, m\<lparr>desc_table := t'\<rparr>, robj')
    \<and> desc_inv n (drv\<lparr>free_desc_head := h\<rparr>) t' (rev c @ fl) (chs @ cs2)
    \<and> (\<forall>c'. chain_bufs t' c' = chain_bufs (desc_table m) c')"
  using assms
proof (induction c arbitrary: drv m fl robj)
  case Nil
  then show ?case by simp
next
  case (Cons j c)
  let ?idx = "obj_cur robj" and ?drv1 = "drv\<lparr>free_desc_head := obj_cur robj\<rparr>"
  from vq_pop_desc_chain [of n drv "desc_table m" fl chs j c cs2 ?idx] Cons.prems obtain nx t1 where
    pop: "vq_pop_desc drv (desc_table m) ?idx = Some (nx, desc_buf (desc_table m ! j), ?drv1, t1)"
    and nx: "unat nx = (if c = [] then n else hd c)"
    and inv1: "desc_inv n ?drv1 t1 (j # fl) (chs @ (if c = [] then [] else [c]) @ cs2)"
    and same: "\<forall>c'. chain_bufs t1 c' = chain_bufs (desc_table m) c'" by auto
  let ?m1 = "m\<lparr>desc_table := t1\<rparr>" and ?r1 = "robj\<lparr>obj_cur := nx\<rparr>"
  from Cons.prems have q: "unat (drv_queue_len drv) = n" and j: "j < n" "unat ?idx = j"
    by (auto simp: desc_inv_def)
  then have "\<not> drv_queue_len drv \<le> ?idx" by (simp add: word_le_nat_alt)
  with pop have g: "virtqueue_gather_used drv m robj = Some (1, Some (desc_buf (desc_table m ! j)), ?drv1, ?m1, ?r1)"
    by (simp add: virtqueue_gather_used_def)
  show ?case
  proof (cases "c = []")
    case True
    then have "virtqueue_gather_used ?drv1 ?m1 ?r1 = Some (0, None, ?drv1, ?m1, ?r1)"
      using nx q by (simp add: virtqueue_gather_used_def word_le_nat_alt)
    with True g inv1 same show ?thesis
      by (intro exI [of _ "obj_cur robj"] exI [of _ t1] exI [of _ ?r1]) (simp add: chain_bufs_def)
  next
    case False
    with Cons.IH [of ?drv1 ?m1 "j # fl" ?r1] inv1 nx obtain h t' robj' where
      ih: "gather_used_n (length c) ?drv1 ?m1 ?r1 =
          Some (chain_bufs t1 c, drv\<lparr>free_desc_head := h\<rparr>, m\<lparr>desc_table := t'\<rparr>, robj')"
        "virtqueue_gather_used (drv\<lparr>free_desc_head := h\<rparr>) (m\<lparr>desc_table := t'\<rparr>) robj' =
          Some (0, None, drv\<lparr>free_desc_head := h\<rparr>, m\<lparr>desc_table := t'\<rparr>, robj')"
        "desc_inv n (drv\<lparr>free_desc_head := h\<rparr>) t' (rev c @ j # fl) (chs @ cs2)"
        "\<forall>c'. chain_bufs t' c' = chain_bufs t1 c'" by auto
    with g same show ?thesis
      by (intro exI [of _ h] exI [of _ t'] exI [of _ robj']) (simp add: chain_bufs_def)
  qed
qed

subsection \<open>Initialisation\<close>

lemma init_desc_loop_ok:
  "i + k = length t \<Longrightarrow> \<exists>t'. init_desc_loop k i t = Some t' \<and> length t' = length t
     \<and> (\<forall>j < i. t' ! j = t ! j) \<and> (\<forall>j. i \<le> j \<and> j < length t \<longrightarrow> desc_next (t' ! j) = of_nat (Suc j))"
proof (induction k arbitrary: i t)
  case 0
  then show ?case by auto
next
  case (Suc k)
  let ?t = "t[i := \<lparr>desc_addr = 0, desc_len = 0, desc_flags = 0, desc_next = of_nat (i + 1)\<rparr>]"
  from Suc.IH [of "i + 1" ?t] Suc.prems obtain t' where
    t': "init_desc_loop k (i + 1) ?t = Some t'" "length t' = length t" "\<forall>j < i + 1. t' ! j = ?t ! j"
      "\<forall>j. i + 1 \<le> j \<and> j < length t \<longrightarrow> desc_next (t' ! j) = of_nat (Suc j)" by auto
  have "desc_next (t' ! j) = of_nat (Suc j)" if "i \<le> j" "j < length t" for j
    using t'(3,4) that by (cases "j = i") auto
  with t' Suc.prems show ?case by (auto simp: wr_def)
qed

lemma chain_upt:
  assumes "length t = n" and "n < 2 ^ 16" and "\<forall>j < n. desc_next (t ! j) = of_nat (Suc j)"
  shows "i \<le> n \<Longrightarrow> desc_chain t n i [i..<n]"
proof (induction "n - i" arbitrary: i)
  case 0
  then show ?case by simp
next
  case (Suc x)
  then have "i < n" by simp
  moreover from this Suc have "desc_chain t n (Suc i) [Suc i..<n]" by simp
  moreover have "unat (desc_next (t ! i)) = Suc i"
    using assms calculation(1) unat_of_nat_small [of "Suc i", where 'a = 16] by simp
  ultimately show ?case by (simp add: upt_conv_Cons)
qed

lemma virtqueue_init:
  assumes "vq_len q n" and "length (desc_table m) = n" and "length (avail_ring (avail m)) = n"
    and "length (used_ring (used m)) = n"
  shows "\<exists>drv m'. virtqueue_init_driver q m nt ck = Some (drv, m')
    \<and> vq_inv n drv (virtqueue_init_device q nt' ck') m' [0..<n] []
    \<and> avail_pending (virtqueue_init_device q nt' ck', m') = []
    \<and> used_pending (drv, virtqueue_init_device q nt' ck', m') = []
    \<and> unat (avail_idx (avail m')) = 0 \<and> dev_next (virtqueue_init_device q nt' ck') = 0"
proof -
  note q = vq_len_facts [OF assms(1)]
  from init_desc_loop_ok [of 0 n "desc_table m"] assms(2) q(1) obtain t' where
    t': "virtqueue_init_desc_table (desc_table m) q = Some t'" "length t' = n"
      "\<forall>j < n. desc_next (t' ! j) = of_nat (Suc j)"
    by (auto simp: virtqueue_init_desc_table_def)
  have "desc_chain t' n 0 [0..<n]" using chain_upt [OF t'(2) q(3) t'(3)] by simp
  moreover have "unat (q - 1) < n"
    using q by (metis diff_less less_one unat_minus_one word_gt_0 unat_gt_0)
  moreover have "(q - 1 + 1) AND (q - 1) = 0"
    using vq_mask [OF assms(1), of q] q(1) by (intro word_unat_eq_iff [THEN iffD2]) simp
  ultimately show ?thesis
    using t' assms q
    by (auto simp: virtqueue_init_driver_def virtqueue_init_device_def Let_def vq_inv_def desc_inv_def
        avail_link_inv_def used_link_inv_def virtqueue_init_avail_ring_def virtqueue_init_used_ring_def
        avail_pending_def used_pending_def dev_next_def drv_next_def ring_simps)
qed

subsection \<open>Making buffers available\<close>

lemma add_available_full:
  assumes "vq_inv n drv dev m [] chs"
  shows "virtqueue_add_available_buf drv m obj buf len flag = Some (0, drv, m, obj)"
  using vq_add_desc_full [of n drv "desc_table m" chs] assms
  by (simp add: virtqueue_add_available_buf_def vq_inv_def)

lemma add_available_new:
  assumes "vq_inv n drv dev m (d # fl) chs"
  shows "\<exists>h m'. virtqueue_add_available_buf drv m virtqueue_init_ring_object buf len flag =
          Some (1, drv\<lparr>free_desc_head := h\<rparr>, m', \<lparr>obj_cur = of_nat d, obj_first = of_nat d\<rparr>)
        \<and> vq_inv n (drv\<lparr>free_desc_head := h\<rparr>) dev m' fl (chs @ [[d]])
        \<and> chain_bufs (desc_table m') [d] = [raw_buf (buf, len, flag)]
        \<and> (\<forall>c \<in> set chs. chain_bufs (desc_table m') c = chain_bufs (desc_table m) c)
        \<and> used m' = used m
        \<and> unat (avail_idx (avail m')) = Suc (unat (avail_idx (avail m))) mod n
        \<and> avail_push (drv_queue_len drv) (of_nat d) (avail m) = Some (avail m')"
proof -
  have dev: "dev_queue_len dev = drv_queue_len drv" and d: "desc_inv n drv (desc_table m) (d # fl) chs"
    using assms by (auto simp: vq_inv_def used_link_inv_def)
  from assms avail_push_step [of dev m "of_nat d"] obtain a where
    a: "avail_push (drv_queue_len drv) (of_nat d) (avail m) = Some a" "avail_link_inv (dev, m\<lparr>avail := a\<rparr>)"
      "length (avail_ring a) = n" "unat (avail_idx a) = Suc (unat (avail_idx (avail m))) mod n"
    by (auto simp: vq_inv_def dev)
  from add_first_buf [OF d a(1), of buf len flag] obtain drv' t' where
    add: "virtqueue_add_available_buf drv m virtqueue_init_ring_object buf len flag =
        Some (1, drv', m\<lparr>desc_table := t', avail := a\<rparr>, \<lparr>obj_cur = of_nat d, obj_first = of_nat d\<rparr>)"
    and post: "desc_inv n drv' t' fl (chs @ [[d]])" "chain_bufs t' [d] = [raw_buf (buf, len, flag)]"
      "\<forall>c \<in> set chs. chain_bufs t' c = chain_bufs (desc_table m) c"
      "drv' = drv\<lparr>free_desc_head := free_desc_head drv'\<rparr>" by blast
  from post(4) obtain h where h: "drv' = drv\<lparr>free_desc_head := h\<rparr>" by blast
  have "vq_inv n drv' dev (m\<lparr>desc_table := t', avail := a\<rparr>) fl (chs @ [[d]])"
    using assms a(2,3) post(1) unfolding h by (auto simp: vq_inv_def avail_link_inv_def)
  with add post(1-3) a show ?thesis
    unfolding h by (intro exI [of _ h] exI [of _ "m\<lparr>desc_table := t', avail := a\<rparr>"]) simp
qed

lemma add_available_extend:
  assumes "vq_inv n drv dev m (d # fl) (cs1 @ c # cs2)"
    and "unat (obj_cur obj) = last c" and "unat (obj_first obj) = hd c"
  shows "\<exists>h t'. virtqueue_add_available_buf drv m obj buf len flag =
          Some (1, drv\<lparr>free_desc_head := h\<rparr>, m\<lparr>desc_table := t'\<rparr>, obj\<lparr>obj_cur := of_nat d\<rparr>)
        \<and> vq_inv n (drv\<lparr>free_desc_head := h\<rparr>) dev (m\<lparr>desc_table := t'\<rparr>) fl (cs1 @ (c @ [d]) # cs2)
        \<and> chain_bufs t' (c @ [d]) = chain_bufs (desc_table m) c @ [raw_buf (buf, len, flag)]
        \<and> (\<forall>c' \<in> set (cs1 @ cs2). chain_bufs t' c' = chain_bufs (desc_table m) c')"
proof -
  from assms(1) have d: "desc_inv n drv (desc_table m) (d # fl) (cs1 @ c # cs2)"
    by (simp add: vq_inv_def)
  from add_more_buf [OF d assms(2,3), of buf len flag] obtain drv' t' where
    add: "virtqueue_add_available_buf drv m obj buf len flag =
        Some (1, drv', m\<lparr>desc_table := t'\<rparr>, obj\<lparr>obj_cur := of_nat d\<rparr>)"
    and post: "desc_inv n drv' t' fl (cs1 @ (c @ [d]) # cs2)"
      "chain_bufs t' (c @ [d]) = chain_bufs (desc_table m) c @ [raw_buf (buf, len, flag)]"
      "\<forall>c' \<in> set (cs1 @ cs2). chain_bufs t' c' = chain_bufs (desc_table m) c'"
      "drv' = drv\<lparr>free_desc_head := free_desc_head drv'\<rparr>" by blast
  from post(4) obtain h where h: "drv' = drv\<lparr>free_desc_head := h\<rparr>" by blast
  have "vq_inv n drv' dev (m\<lparr>desc_table := t'\<rparr>) fl (cs1 @ (c @ [d]) # cs2)"
    using assms(1) post(1) unfolding h by (auto simp: vq_inv_def)
  with add post(1-3) show ?thesis
    unfolding h by (intro exI [of _ h] exI [of _ t']) simp
qed

text \<open>A scatter list made available under one ring entry.\<close>

lemma add_bufs_new:
  assumes inv: "vq_inv n drv dev m (d # ds @ fl) chs" and len: "length ds = length bs"
    and room: "length (avail_pending (dev, m)) < n - 1"
  shows "\<exists>h m' obj. add_bufs drv m virtqueue_init_ring_object (b # bs) = Some (drv\<lparr>free_desc_head := h\<rparr>, m', obj)
    \<and> vq_inv n (drv\<lparr>free_desc_head := h\<rparr>) dev m' fl (chs @ [d # ds])
    \<and> chain_bufs (desc_table m') (d # ds) = map raw_buf (b # bs)
    \<and> avail_pending (dev, m') = avail_pending (dev, m) @ [of_nat d] \<and> used m' = used m"
proof -
  obtain buf l f where b: "b = (buf, l, f)" by (cases b)
  from add_available_new [OF inv, of buf l f] obtain h1 m1 where
    new: "virtqueue_add_available_buf drv m virtqueue_init_ring_object buf l f =
        Some (1, drv\<lparr>free_desc_head := h1\<rparr>, m1, \<lparr>obj_cur = of_nat d, obj_first = of_nat d\<rparr>)"
      "vq_inv n (drv\<lparr>free_desc_head := h1\<rparr>) dev m1 (ds @ fl) (chs @ [[d]])"
      "chain_bufs (desc_table m1) [d] = [raw_buf b]" "used m1 = used m"
      "avail_push (drv_queue_len drv) (of_nat d) (avail m) = Some (avail m1)"
    unfolding b by blast
  have d: "d < n" "n < 2 ^ 16" using inv by (auto simp: vq_inv_def desc_inv_def)
  then have od: "unat (of_nat d :: u32) = d" by (simp add: width_simps)
  from inv room d avail_enq_room [of dev m "of_nat d"]
  have "avail_pending (dev, m\<lparr>avail := avail m1\<rparr>) = avail_pending (dev, m) @ [of_nat d]"
    using new(5) by (auto simp: vq_inv_def avail_cap_def used_link_inv_def od)
  then have pend: "avail_pending (dev, m1) = avail_pending (dev, m) @ [of_nat d]"
    by (simp add: avail_pending_def)
  from add_bufs_extend [of n "drv\<lparr>free_desc_head := h1\<rparr>" m1 ds fl chs "[d]" bs "\<lparr>obj_cur = of_nat d, obj_first = of_nat d\<rparr>"]
    new(2) len od obtain h t' obj where
    ext: "add_bufs (drv\<lparr>free_desc_head := h1\<rparr>) m1 \<lparr>obj_cur = of_nat d, obj_first = of_nat d\<rparr> bs =
        Some (drv\<lparr>free_desc_head := h\<rparr>, m1\<lparr>desc_table := t'\<rparr>, obj)"
      "desc_inv n (drv\<lparr>free_desc_head := h\<rparr>) t' fl (chs @ [d # ds])"
      "chain_bufs t' (d # ds) = chain_bufs (desc_table m1) [d] @ map raw_buf bs"
    by (auto simp: vq_inv_def)
  have "vq_inv n (drv\<lparr>free_desc_head := h\<rparr>) dev (m1\<lparr>desc_table := t'\<rparr>) fl (chs @ [d # ds])"
    using new(2) ext(2) by (simp add: vq_inv_def)
  with new ext pend b show ?thesis
    by (intro exI [of _ h] exI [of _ "m1\<lparr>desc_table := t'\<rparr>"] exI [of _ obj]) simp
qed

text \<open>The device takes the oldest entry and walks its chain without changing anything else.\<close>

lemma device_take:
  assumes inv: "vq_inv n drv dev m fl chs" and pend: "avail_pending (dev, m) = of_nat (hd c) # q"
    and c: "c \<in> set chs"
  shows "\<exists>x robj robj'. virtqueue_get_available_buf dev m virtqueue_init_ring_object =
        Some (1, dev\<lparr>a_ring_last_seen := x\<rparr>, robj)
    \<and> gather_available_n (length c) (dev\<lparr>a_ring_last_seen := x\<rparr>) m robj = Some (chain_bufs (desc_table m) c, robj')
    \<and> virtqueue_gather_available (dev\<lparr>a_ring_last_seen := x\<rparr>) m robj' = Some (0, None, robj')
    \<and> obj_first robj' = of_nat (hd c)
    \<and> vq_inv n drv (dev\<lparr>a_ring_last_seen := x\<rparr>) m fl chs
    \<and> avail_pending (dev\<lparr>a_ring_last_seen := x\<rparr>, m) = q"
proof -
  from inv have av: "avail_link_inv (dev, m)" and desc: "desc_inv n drv (desc_table m) fl chs"
    and ul: "used_link_inv (drv, dev, m)" by (auto simp: vq_inv_def)
  let ?robj = "virtqueue_init_ring_object\<lparr>obj_first := of_nat (hd c), obj_cur := of_nat (hd c)\<rparr>"
  from get_available_some [OF av pend, of virtqueue_init_ring_object] obtain dev' where
    get: "virtqueue_get_available_buf dev m virtqueue_init_ring_object = Some (1, dev', ?robj)"
      "avail_link_inv (dev', m)" "avail_pending (dev', m) = q" by blast
  from get(1) obtain x where x: "dev' = dev\<lparr>a_ring_last_seen := x\<rparr>"
    by (auto simp: virtqueue_get_available_buf_def Let_def split: if_splits)
  from desc c have ch: "c \<noteq> []" "desc_chain (desc_table m) n (hd c) c" "set c \<subseteq> {..<n}" "length (desc_table m) = n" "n < 2 ^ 16"
    by (auto simp: desc_inv_def)
  then have "hd c < n" using hd_in_set [OF ch(1)] by blast
  with ch(5) have "unat (of_nat (hd c) :: u32) = hd c" by (simp add: width_simps)
  moreover have "unat (dev_queue_len dev') = n"
    using ul desc by (simp add: x used_link_inv_def desc_inv_def)
  ultimately obtain robj' where "gather_available_n (length c) dev' m ?robj = Some (chain_bufs (desc_table m) c, robj')"
    "virtqueue_gather_available dev' m robj' = Some (0, None, robj')" "obj_first robj' = of_nat (hd c)"
    using gather_available_chain [of m n ?robj c dev'] ch(2,4) by auto
  moreover have "vq_inv n drv dev' m fl chs" using inv get(2) by (simp add: vq_inv_def x)
  ultimately show ?thesis using get unfolding x by blast
qed

text \<open>The driver collects the oldest used entry and frees its chain.\<close>

lemma driver_collect:
  assumes inv: "vq_inv n drv dev m fl (cs1 @ [c] @ cs2)"
    and pend: "used_pending (drv, dev, m) = (of_nat (hd c), len) # q"
  shows "\<exists>drv1 robj drv2 m' robj'. virtqueue_get_used_buf drv m virtqueue_init_ring_object l0 = Some (1, drv1, robj, len)
    \<and> gather_used_n (length c) drv1 m robj = Some (chain_bufs (desc_table m) c, drv2, m', robj')
    \<and> virtqueue_gather_used drv2 m' robj' = Some (0, None, drv2, m', robj')
    \<and> vq_inv n drv2 dev m' (rev c @ fl) (cs1 @ cs2)
    \<and> used_pending (drv2, dev, m') = q \<and> avail_pending (dev, m') = avail_pending (dev, m)"
proof -
  from inv have ul: "used_link_inv (drv, dev, m)" and desc: "desc_inv n drv (desc_table m) fl (cs1 @ [c] @ cs2)"
    by (auto simp: vq_inv_def)
  let ?robj = "virtqueue_init_ring_object\<lparr>obj_first := of_nat (hd c), obj_cur := of_nat (hd c)\<rparr>"
  from get_used_some [OF ul pend, of virtqueue_init_ring_object l0] obtain nx where
    get: "virtqueue_get_used_buf drv m virtqueue_init_ring_object l0 =
        Some (1, drv\<lparr>u_ring_last_seen := nx\<rparr>, ?robj, len)"
      "used_link_inv (drv\<lparr>u_ring_last_seen := nx\<rparr>, dev, m)"
      "used_pending (drv\<lparr>u_ring_last_seen := nx\<rparr>, dev, m) = q" by blast
  let ?drv1 = "drv\<lparr>u_ring_last_seen := nx\<rparr>"
  from desc have ch: "c \<noteq> []" "set c \<subseteq> {..<n}" "n < 2 ^ 16" by (auto simp: desc_inv_def)
  then have "hd c < n" using hd_in_set [OF ch(1)] by blast
  with ch(3) have "unat (obj_cur ?robj) = hd c" by (simp add: width_simps)
  from gather_used_chain [OF _ this ch(1), of n ?drv1 m fl cs1 cs2] desc obtain h t' robj' where
    "gather_used_n (length c) ?drv1 m ?robj =
        Some (chain_bufs (desc_table m) c, ?drv1\<lparr>free_desc_head := h\<rparr>, m\<lparr>desc_table := t'\<rparr>, robj')"
    "virtqueue_gather_used (?drv1\<lparr>free_desc_head := h\<rparr>) (m\<lparr>desc_table := t'\<rparr>) robj' =
        Some (0, None, ?drv1\<lparr>free_desc_head := h\<rparr>, m\<lparr>desc_table := t'\<rparr>, robj')"
    "desc_inv n (?drv1\<lparr>free_desc_head := h\<rparr>) t' (rev c @ fl) (cs1 @ cs2)" by auto
  moreover from this(3) have "vq_inv n (?drv1\<lparr>free_desc_head := h\<rparr>) dev (m\<lparr>desc_table := t'\<rparr>) (rev c @ fl) (cs1 @ cs2)"
    using inv get(2) by (simp add: vq_inv_def)
  moreover have "used_pending (?drv1\<lparr>free_desc_head := h\<rparr>, dev, m\<lparr>desc_table := t'\<rparr>) = q"
    using get(3) by simp
  moreover have "avail_pending (dev, m\<lparr>desc_table := t'\<rparr>) = avail_pending (dev, m)" by simp
  ultimately show ?thesis using get(1) by blast
qed

text \<open>One ring entry per buffer.\<close>

fun add_entries :: "virtqueue_driver \<Rightarrow> vq_mem \<Rightarrow> vq_buf list \<Rightarrow> (virtqueue_driver \<times> vq_mem) option" where
  "add_entries vq m [] = Some (vq, m)"
| "add_entries vq m ((a, l, f) # bs) = do {
     (r, vq', m', obj) \<leftarrow> virtqueue_add_available_buf vq m virtqueue_init_ring_object a l f;
     if r = 0 then None else add_entries vq' m' bs }"

lemma add_entries_ok:
  assumes "vq_inv n drv dev m (ds @ fl) chs" and "length ds = length bufs"
  shows "\<exists>drv' m'. add_entries drv m bufs = Some (drv', m')
    \<and> vq_inv n drv' dev m' fl (chs @ map (\<lambda>d. [d]) ds)
    \<and> unat (avail_idx (avail m')) = (unat (avail_idx (avail m)) + length bufs) mod n"
  using assms
proof (induction bufs arbitrary: drv m ds chs)
  case Nil
  then show ?case by (auto simp: vq_inv_def avail_link_inv_def)
next
  case (Cons b bufs)
  obtain buf l f where b: "b = (buf, l, f)" by (cases b)
  from Cons.prems(2) obtain d ds' where ds: "ds = d # ds'" "length ds' = length bufs" by (cases ds) auto
  with Cons.prems(1) have "vq_inv n drv dev m (d # ds' @ fl) chs" by simp
  from add_available_new [OF this, of buf l f] obtain h m1 where
    new: "virtqueue_add_available_buf drv m virtqueue_init_ring_object buf l f =
        Some (1, drv\<lparr>free_desc_head := h\<rparr>, m1, \<lparr>obj_cur = of_nat d, obj_first = of_nat d\<rparr>)"
      "vq_inv n (drv\<lparr>free_desc_head := h\<rparr>) dev m1 (ds' @ fl) (chs @ [[d]])"
      "unat (avail_idx (avail m1)) = Suc (unat (avail_idx (avail m))) mod n" by blast
  from Cons.IH [OF new(2) ds(2)] obtain drv' m' where
    ih: "add_entries (drv\<lparr>free_desc_head := h\<rparr>) m1 bufs = Some (drv', m')"
      "vq_inv n drv' dev m' fl (chs @ map (\<lambda>d. [d]) ds)"
      "unat (avail_idx (avail m')) = (unat (avail_idx (avail m1)) + length bufs) mod n"
    by (auto simp: ds(1))
  moreover have "unat (avail_idx (avail m')) = (unat (avail_idx (avail m)) + length (b # bufs)) mod n"
    using ih(3) new(3) by (simp add: mod_simps)
  ultimately show ?case using new(1) by (simp add: b)
qed

lemma scattered_loop_chain:
  "desc_chain t n (unat cur) c \<Longrightarrow> unat q = n \<Longrightarrow> length t = n \<Longrightarrow>
   scattered_loop t q cur ret = Some (ret + sum_list (map (\<lambda>i. desc_len (t ! i)) c))"
proof (induction c arbitrary: cur ret)
  case Nil
  then show ?case by (subst scattered_loop.simps) (simp add: word_less_nat_alt)
next
  case (Cons j c)
  then have "scattered_loop t q (ucast (desc_next (t ! j))) (ret + desc_len (t ! j)) =
      Some (ret + desc_len (t ! j) + sum_list (map (\<lambda>i. desc_len (t ! i)) c))"
    by (simp add: width_simps)
  with Cons.prems show ?case
    by (subst scattered_loop.simps) (simp add: word_less_nat_alt rd_def add.assoc)
qed

lemma scattered_loop_diverges:
  assumes "\<forall>j < unat q. unat (desc_next (t ! j)) < unat q" and "unat cur < unat q"
  shows "scattered_loop t q cur ret = None"
proof -
  let ?P = "\<lambda>t q cur ret y. (\<forall>j < unat q. unat (desc_next (t ! j)) < unat q) \<longrightarrow> \<not> unat cur < unat q"
  have "?P t q cur ret y" if "scattered_loop t q cur ret = Some y" for y
  proof (rule scattered_loop.raw_induct [where P = ?P, OF _ that])
    fix f :: "vq_vring_desc list \<Rightarrow> u32 \<Rightarrow> u32 \<Rightarrow> u32 \<Rightarrow> u32 option" and t q cur ret y
    assume IH: "\<And>t q cur ret y. f t q cur ret = Some y \<Longrightarrow> ?P t q cur ret y"
      and run: "(if cur < q then rd t (unat cur) \<bind> (\<lambda>d. f t q (ucast (desc_next d)) (ret + desc_len d))
                 else Some ret) = Some y"
    show "?P t q cur ret y"
      using run IH [of t q "ucast (desc_next (t ! unat cur))" "ret + desc_len (t ! unat cur)" y]
      by (auto simp: word_less_nat_alt width_simps split: if_splits)
  qed
  with assms show ?thesis by (cases "scattered_loop t q cur ret") auto
qed

section \<open>Properties of the library\<close>

text \<open>
  For every power-of-two length below \<open>2 ^ 16\<close>, initialising both sides over rings and a
  table of that length makes no access outside them and establishes the queue invariant with all
  descriptors free, nothing available and nothing used.
\<close>

theorem virtqueue_init_inv:
  assumes "vq_len q n" and "length (desc_table m) = n" and "length (avail_ring (avail m)) = n"
    and "length (used_ring (used m)) = n"
  shows "\<exists>drv m'. virtqueue_init_driver q m nt ck = Some (drv, m')
    \<and> vq_inv n drv (virtqueue_init_device q nt' ck') m' [0..<n] []
    \<and> avail_pending (virtqueue_init_device q nt' ck', m') = []
    \<and> used_pending (drv, virtqueue_init_device q nt' ck', m') = []"
  using virtqueue_init [OF assms] by blast

definition zero_desc :: vq_vring_desc where
  "zero_desc = \<lparr>desc_addr = 0, desc_len = 0, desc_flags = 0, desc_next = 0\<rparr>"

definition zero_mem :: "nat \<Rightarrow> vq_mem" where
  "zero_mem n = \<lparr>avail = \<lparr>avail_flags = 0, avail_idx = 0, avail_ring = replicate n 0\<rparr>,
     used = \<lparr>used_flags = 0, used_idx = 0, used_ring = replicate n \<lparr>ue_id = 0, ue_len = 0\<rparr>\<rparr>,
     desc_table = replicate n zero_desc\<rparr>"

lemma vq_len_4: "vq_len 4 4"
  unfolding vq_len_def by (rule exI [of _ 2]) simp

lemma zero_mem_lengths:
  "length (desc_table (zero_mem n)) = n" "length (avail_ring (avail (zero_mem n))) = n"
  "length (used_ring (used (zero_mem n))) = n"
  by (simp_all add: zero_mem_def)

theorem virtqueue_init_inv_witness:
  "\<exists>drv m'. virtqueue_init_driver 4 (zero_mem 4) 0 0 = Some (drv, m')
    \<and> vq_inv 4 drv (virtqueue_init_device 4 0 0) m' [0..<4] []"
  using virtqueue_init_inv [OF vq_len_4 zero_mem_lengths, of 0 0 0 0] by blast

text \<open>A queue of four descriptors with one single-buffer chain published and pending.\<close>

definition demo_drv :: virtqueue_driver where
  "demo_drv = \<lparr>drv_notify = 0, drv_cookie = 0, drv_queue_len = 4, free_desc_head = 1, u_ring_last_seen = 3\<rparr>"

definition demo_dev :: virtqueue_device where
  "demo_dev = \<lparr>dev_notify = 0, dev_cookie = 0, dev_queue_len = 4, a_ring_last_seen = 0\<rparr>"

definition demo_mem :: vq_mem where
  "demo_mem = (zero_mem 4)\<lparr>avail := \<lparr>avail_flags = 0, avail_idx = 1, avail_ring = replicate 4 0\<rparr>,
     desc_table := [zero_desc\<lparr>desc_next := 4\<rparr>, zero_desc\<lparr>desc_next := 2\<rparr>, zero_desc\<lparr>desc_next := 3\<rparr>,
       zero_desc\<lparr>desc_next := 4\<rparr>]\<rparr>"

lemma demo_vq_inv: "vq_inv 4 demo_drv demo_dev demo_mem [1, 2, 3] [[0]]"
  using vq_len_4 by (auto simp: vq_inv_def desc_inv_def avail_link_inv_def used_link_inv_def demo_drv_def demo_dev_def
      demo_mem_def zero_mem_def zero_desc_def)

lemma demo_vq_idle: "avail_pending (demo_dev, demo_mem) = []" "used_pending (demo_drv, demo_dev, demo_mem) = []"
  by (simp_all add: avail_pending_def used_pending_def dev_next_def drv_next_def demo_drv_def demo_dev_def
      demo_mem_def zero_mem_def ring_dist_def)

text \<open>
  C23: What \<open>virtqueue_add_available_buf\<close> does to the descriptor table, on every branch. With no
  free descriptor it returns 0 and changes nothing. With a fresh ring object it turns the first
  free descriptor into a new chain, and with the object of a chain in flight it appends the
  descriptor to that chain; in both cases it returns 1, the buffer is the last of the chain, the
  invariant is kept and no other chain changes.
\<close>

theorem virtqueue_add_available_effect:
  assumes "vq_inv n drv dev m fl (cs1 @ c # cs2)"
    and "unat (obj_cur obj) = last c" and "unat (obj_first obj) = hd c"
  shows "case fl of
      [] \<Rightarrow> virtqueue_add_available_buf drv m obj' buf len flag = Some (0, drv, m, obj')
    | d # fl' \<Rightarrow>
       (\<exists>h m'. virtqueue_add_available_buf drv m virtqueue_init_ring_object buf len flag =
            Some (1, drv\<lparr>free_desc_head := h\<rparr>, m', \<lparr>obj_cur = of_nat d, obj_first = of_nat d\<rparr>)
          \<and> vq_inv n (drv\<lparr>free_desc_head := h\<rparr>) dev m' fl' ((cs1 @ c # cs2) @ [[d]])
          \<and> chain_bufs (desc_table m') [d] = [raw_buf (buf, len, flag)]
          \<and> (\<forall>c' \<in> set (cs1 @ c # cs2). chain_bufs (desc_table m') c' = chain_bufs (desc_table m) c')) \<and>
       (\<exists>h t'. virtqueue_add_available_buf drv m obj buf len flag =
            Some (1, drv\<lparr>free_desc_head := h\<rparr>, m\<lparr>desc_table := t'\<rparr>, obj\<lparr>obj_cur := of_nat d\<rparr>)
          \<and> vq_inv n (drv\<lparr>free_desc_head := h\<rparr>) dev (m\<lparr>desc_table := t'\<rparr>) fl' (cs1 @ (c @ [d]) # cs2)
          \<and> chain_bufs t' (c @ [d]) = chain_bufs (desc_table m) c @ [raw_buf (buf, len, flag)]
          \<and> (\<forall>c' \<in> set (cs1 @ cs2). chain_bufs t' c' = chain_bufs (desc_table m) c'))"
proof (cases fl)
  case Nil
  with add_available_full assms(1) show ?thesis by simp
next
  case (Cons d fl')
  note inv = assms(1) [unfolded Cons]
  from add_available_new [OF inv, of buf len flag] add_available_extend [OF inv assms(2,3), of buf len flag]
  show ?thesis unfolding Cons list.case by blast
qed

theorem virtqueue_add_available_effect_witness:
  "\<exists>h t'. virtqueue_add_available_buf demo_drv demo_mem \<lparr>obj_cur = 0, obj_first = 0\<rparr> 4096 64 VQ_WRITE =
        Some (1, demo_drv\<lparr>free_desc_head := h\<rparr>, demo_mem\<lparr>desc_table := t'\<rparr>, \<lparr>obj_cur = 1, obj_first = 0\<rparr>)
    \<and> chain_bufs t' [0, 1] = [(0, 0, 0), (4096, 64, 1)]"
  using virtqueue_add_available_effect [of 4 demo_drv demo_dev demo_mem "[1, 2, 3]" "[]" "[0]" "[]"
      "\<lparr>obj_cur = 0, obj_first = 0\<rparr>" virtqueue_init_ring_object 4096 64 VQ_WRITE] demo_vq_inv
  by (auto simp: chain_bufs_def desc_buf_def raw_buf_def vq_flag_val_def demo_mem_def zero_desc_def)

text \<open>
  C1: End to end. A non-empty scatter list that fits the free descriptors, made available on a
  queue with nothing in transit, is found by the device with the same buffers in the same order
  and an end-of-list after the last; when the device returns the entry with a length, the driver
  gets that length and the same buffers back, and afterwards every descriptor it used is free
  again while the other chains and the invariant are as before.
\<close>

theorem virtqueue_roundtrip:
  assumes "vq_inv n drv dev m fl chs" and "bufs \<noteq> []" and "length bufs \<le> length fl" and "2 \<le> n"
    and "avail_pending (dev, m) = []" and "used_pending (drv, dev, m) = []"
  shows "\<exists>drv1 m1 obj dev1 robj robj' m2 drv2 uobj drv3 m3 uobj' fl'.
      add_bufs drv m virtqueue_init_ring_object bufs = Some (drv1, m1, obj)
    \<and> virtqueue_get_available_buf dev m1 virtqueue_init_ring_object = Some (1, dev1, robj)
    \<and> gather_available_n (length bufs) dev1 m1 robj = Some (map raw_buf bufs, robj')
    \<and> virtqueue_gather_available dev1 m1 robj' = Some (0, None, robj')
    \<and> virtqueue_add_used_buf dev1 m1 robj' len = Some (1, m2)
    \<and> virtqueue_get_used_buf drv1 m2 virtqueue_init_ring_object 0 = Some (1, drv2, uobj, len)
    \<and> gather_used_n (length bufs) drv2 m2 uobj = Some (map raw_buf bufs, drv3, m3, uobj')
    \<and> virtqueue_gather_used drv3 m3 uobj' = Some (0, None, drv3, m3, uobj')
    \<and> vq_inv n drv3 dev1 m3 fl' chs \<and> set fl' = set fl \<and> length fl' = length fl
    \<and> avail_pending (dev1, m3) = [] \<and> used_pending (drv3, dev1, m3) = []"
proof -
  obtain b bs where bufs: "bufs = b # bs" using assms(2) by (cases bufs) auto
  define ds fl0 where "ds = take (length bs) (tl fl)" and "fl0 = drop (length bs) (tl fl)"
  then have fl: "fl = hd fl # ds @ fl0" "length ds = length bs"
    using assms(3) bufs by (cases fl; simp)+
  let ?c = "hd fl # ds"
  from add_bufs_new [of n drv dev m "hd fl" ds fl0 chs bs b] assms(1,4,5) fl obtain h m1 obj where
    add: "add_bufs drv m virtqueue_init_ring_object bufs = Some (drv\<lparr>free_desc_head := h\<rparr>, m1, obj)"
      "vq_inv n (drv\<lparr>free_desc_head := h\<rparr>) dev m1 fl0 (chs @ [?c])" "chain_bufs (desc_table m1) ?c = map raw_buf bufs"
      "avail_pending (dev, m1) = [of_nat (hd fl)]" "used m1 = used m"
    by (auto simp: bufs)
  let ?drv1 = "drv\<lparr>free_desc_head := h\<rparr>"
  have up: "used_pending (?drv1, dev, m1) = []"
    using assms(6) add(5) by (simp add: used_pending_def drv_next_def)
  from device_take [OF add(2), of ?c "[]"] add(4) obtain x robj robj' where
    dv: "virtqueue_get_available_buf dev m1 virtqueue_init_ring_object = Some (1, dev\<lparr>a_ring_last_seen := x\<rparr>, robj)"
      "gather_available_n (length ?c) (dev\<lparr>a_ring_last_seen := x\<rparr>) m1 robj = Some (chain_bufs (desc_table m1) ?c, robj')"
      "virtqueue_gather_available (dev\<lparr>a_ring_last_seen := x\<rparr>) m1 robj' = Some (0, None, robj')"
      "obj_first robj' = of_nat (hd fl)" "vq_inv n ?drv1 (dev\<lparr>a_ring_last_seen := x\<rparr>) m1 fl0 (chs @ [?c])"
      "avail_pending (dev\<lparr>a_ring_last_seen := x\<rparr>, m1) = []" by auto
  let ?dev1 = "dev\<lparr>a_ring_last_seen := x\<rparr>"
  from dv(5) have ul: "used_link_inv (?drv1, ?dev1, m1)" by (simp only: vq_inv_def)
  have room: "length (used_pending (?drv1, ?dev1, m1)) < used_cap (?drv1, ?dev1, m1)"
    using up dv(5) assms(4) by (simp add: used_cap_def vq_inv_def)
  from add_used_room [OF ul room, of robj' len] obtain u where
    us: "virtqueue_add_used_buf ?dev1 m1 robj' len = Some (1, m1\<lparr>used := u\<rparr>)"
      "used_link_inv (?drv1, ?dev1, m1\<lparr>used := u\<rparr>)" "used_pending (?drv1, ?dev1, m1\<lparr>used := u\<rparr>) = [(of_nat (hd fl), len)]"
      "length (used_ring u) = length (used_ring (used m1))"
    using up dv(4) by auto
  have "vq_inv n ?drv1 ?dev1 (m1\<lparr>used := u\<rparr>) fl0 (chs @ [?c] @ [])"
    using dv(5) us(2,4) by (simp add: vq_inv_def)
  from driver_collect [OF this, of len "[]" 0] us(3) obtain drv2 uobj drv3 m3 uobj' where
    "virtqueue_get_used_buf ?drv1 (m1\<lparr>used := u\<rparr>) virtqueue_init_ring_object 0 = Some (1, drv2, uobj, len)"
    "gather_used_n (length ?c) drv2 (m1\<lparr>used := u\<rparr>) uobj = Some (chain_bufs (desc_table m1) ?c, drv3, m3, uobj')"
    "virtqueue_gather_used drv3 m3 uobj' = Some (0, None, drv3, m3, uobj')"
    "vq_inv n drv3 ?dev1 m3 (rev ?c @ fl0) chs" "used_pending (drv3, ?dev1, m3) = []"
    "avail_pending (?dev1, m3) = avail_pending (?dev1, m1\<lparr>used := u\<rparr>)" by auto
  moreover have "avail_pending (?dev1, m1\<lparr>used := u\<rparr>) = []"
    using dv(6) by (simp add: avail_pending_def)
  moreover have "set (rev ?c @ fl0) = set fl" "length (rev ?c @ fl0) = length fl"
    by (subst (2) fl(1), simp)+
  moreover have "length ?c = length bufs" using fl(2) bufs by simp
  ultimately show ?thesis using add(1,3) dv(1,2,3) us(1) by metis
qed

theorem virtqueue_roundtrip_witness:
  "\<exists>drv1 m1 obj dev1 robj robj'.
      add_bufs demo_drv demo_mem virtqueue_init_ring_object [(4096, 64, VQ_WRITE), (8192, 32, VQ_READ)] = Some (drv1, m1, obj)
    \<and> virtqueue_get_available_buf demo_dev m1 virtqueue_init_ring_object = Some (1, dev1, robj)
    \<and> gather_available_n 2 dev1 m1 robj = Some ([(4096, 64, 1), (8192, 32, 0)], robj')"
proof -
  let ?bufs = "[(4096, 64, VQ_WRITE), (8192, 32, VQ_READ)] :: vq_buf list"
  have "length ?bufs = 2" "map raw_buf ?bufs = [(4096, 64, 1), (8192, 32, 0)]"
    by (simp_all add: raw_buf_def vq_flag_val_def)
  moreover have "length ?bufs \<le> length [1, 2, 3 :: nat]" "?bufs \<noteq> []" "2 \<le> (4 :: nat)" by simp_all
  note virtqueue_roundtrip [OF demo_vq_inv this(2,1,3) demo_vq_idle, of 96]
  ultimately show ?thesis by (elim exE conjE) (intro exI conjI, assumption, assumption, simp only:)
qed



text \<open>
  The available ring has no room check. On a fresh queue one can add \<open>queue_len\<close> buffers, each
  as an entry of its own; every call returns 1, the index comes back to where it started, and
  the device sees an empty ring: \<open>VQ_DEV_POLL\<close> is false and \<open>virtqueue_get_available_buf\<close> returns 0
  although all descriptors are in flight.
\<close>

theorem virtqueue_full_looks_empty:
  assumes "vq_len q n" and "length (desc_table m) = n" and "length (avail_ring (avail m)) = n"
    and "length (used_ring (used m)) = n" and "length bufs = n"
  shows "\<exists>drv m0 drv' m'. virtqueue_init_driver q m nt ck = Some (drv, m0)
    \<and> add_entries drv m0 bufs = Some (drv', m')
    \<and> vq_inv n drv' (virtqueue_init_device q nt ck) m' [] (map (\<lambda>d. [d]) [0..<n])
    \<and> \<not> VQ_DEV_POLL (virtqueue_init_device q nt ck) m'
    \<and> virtqueue_get_available_buf (virtqueue_init_device q nt ck) m' robj = Some (0, virtqueue_init_device q nt ck, robj)"
proof -
  let ?dev = "virtqueue_init_device q nt ck"
  from virtqueue_init [OF assms(1-4), of nt ck nt ck] obtain drv m0 where
    init: "virtqueue_init_driver q m nt ck = Some (drv, m0)" "vq_inv n drv ?dev m0 [0..<n] []"
      "unat (avail_idx (avail m0)) = 0" "dev_next ?dev = 0" by blast
  from add_entries_ok [of n drv ?dev m0 "[0..<n]" "[]" "[]" bufs] init(2,3) assms(5) obtain drv' m' where
    add: "add_entries drv m0 bufs = Some (drv', m')" "vq_inv n drv' ?dev m' [] (map (\<lambda>d. [d]) [0..<n])"
      "unat (avail_idx (avail m')) = 0" by auto
  then have "avail_link_inv (?dev, m')" "avail_pending (?dev, m') = []"
    using init(4) by (auto simp: vq_inv_def avail_pending_def ring_dist_def)
  then have "virtqueue_get_available_buf ?dev m' robj = Some (0, ?dev, robj)"
    by (rule get_available_none)
  moreover from this have "\<not> VQ_DEV_POLL ?dev m'"
    by (auto simp: virtqueue_get_available_buf_def VQ_DEV_POLL_def Let_def split: if_splits)
  ultimately show ?thesis using init add by blast
qed

theorem virtqueue_full_looks_empty_witness:
  "\<exists>drv m0 drv' m'. virtqueue_init_driver 4 (zero_mem 4) 0 0 = Some (drv, m0)
    \<and> add_entries drv m0 (replicate 4 (4096, 64, VQ_READ)) = Some (drv', m')
    \<and> \<not> VQ_DEV_POLL (virtqueue_init_device 4 0 0) m'"
  using virtqueue_full_looks_empty
    [OF vq_len_4 zero_mem_lengths, of "replicate 4 (4096, 64, VQ_READ)" 0 0 virtqueue_init_ring_object]
  by auto

text \<open>
  \<open>virtqueue_scattered_available_size\<close> on the ring object of a chain in flight returns, and
  returns the sum modulo \<open>2 ^ 32\<close> of the lengths of the chain's buffers.
\<close>

theorem virtqueue_scattered_size_correct:
  assumes "vq_inv n drv dev m fl chs" and "c \<in> set chs" and "unat (obj_first robj) = hd c"
  shows "virtqueue_scattered_available_size dev m robj = Some (sum_list (map (\<lambda>(a, l, f). l) (chain_bufs (desc_table m) c)))"
proof -
  have "desc_chain (desc_table m) n (unat (obj_first robj)) c" "unat (dev_queue_len dev) = n" "length (desc_table m) = n"
    using assms by (auto simp: vq_inv_def desc_inv_def used_link_inv_def)
  from scattered_loop_chain [OF this, of 0] show ?thesis
    by (simp add: virtqueue_scattered_available_size_def chain_bufs_def desc_buf_def comp_def)
qed

theorem virtqueue_scattered_size_correct_witness:
  "virtqueue_scattered_available_size demo_dev demo_mem \<lparr>obj_cur = 0, obj_first = 0\<rparr> = Some 0"
  using virtqueue_scattered_size_correct [OF demo_vq_inv, of "[0]" "\<lparr>obj_cur = 0, obj_first = 0\<rparr>"]
  by (simp add: chain_bufs_def desc_buf_def demo_mem_def zero_desc_def)



end
