(* ===== verification/VSwitch.thy ===== *)
theory VSwitch
  imports Prelude
begin

text \<open>
  libvswitch (\<open>src/libvswitch\<close>): the table in which a node of a virtual switch registers the MAC
  addresses of the other nodes together with the two virtqueues that lead to each of them.

  An \<open>ether_addr\<close> is its list of six octets; pointers to virtqueues are addresses, as the table
  only stores them. A slot is free exactly when it holds the null address. \<open>None\<close> stands for a
  failed assertion or an access outside the node array.

  The locale \<open>directory\<close> is what a client of such a table relies on; the table is an instance of
  it as long as nobody registers the null address.
\<close>

section \<open>MAC addresses\<close>

type_synonym ether_addr = bytes

definition ETH_ALEN :: nat where
  "ETH_ALEN = 6"

definition null_macaddr :: ether_addr where
  "null_macaddr = [0, 0, 0, 0, 0, 0]"

definition bcast_macaddr :: ether_addr where
  "bcast_macaddr = [0xFF, 0xFF, 0xFF, 0xFF, 0xFF, 0xFF]"

definition ipv6_multicast_macaddr :: ether_addr where
  "ipv6_multicast_macaddr = [0x33, 0x33, 0x0, 0x0, 0x0, 0x0]"

text \<open>\<open>k\<close> iterations of the comparison loop from octet \<open>i\<close> on.\<close>

fun addr_eq_loop :: "ether_addr \<Rightarrow> ether_addr \<Rightarrow> nat \<Rightarrow> nat \<Rightarrow> bool option" where
  "addr_eq_loop a0 a1 i 0 = Some True"
| "addr_eq_loop a0 a1 i (Suc k) = do {
     x \<leftarrow> rd a0 i;
     y \<leftarrow> rd a1 i;
     if x \<noteq> y then Some False else addr_eq_loop a0 a1 (i + 1) k }"

definition mac802_addr_eq_num :: "ether_addr \<Rightarrow> ether_addr \<Rightarrow> nat \<Rightarrow> bool option" where
  "mac802_addr_eq_num addr0 addr1 num =
     (if num \<le> ETH_ALEN then addr_eq_loop addr0 addr1 0 num else None)"

definition mac802_addr_eq :: "ether_addr \<Rightarrow> ether_addr \<Rightarrow> bool option" where
  "mac802_addr_eq addr0 addr1 = mac802_addr_eq_num addr0 addr1 ETH_ALEN"

definition mac802_addr_eq_bcast :: "ether_addr \<Rightarrow> bool option" where
  "mac802_addr_eq_bcast addr = mac802_addr_eq addr bcast_macaddr"

definition mac802_addr_eq_ipv6_mcast :: "ether_addr \<Rightarrow> bool option" where
  "mac802_addr_eq_ipv6_mcast addr = mac802_addr_eq_num addr ipv6_multicast_macaddr 2"

section \<open>The node table\<close>

definition VSWITCH_NUM_NODES :: nat where
  "VSWITCH_NUM_NODES = 4"

record vswitch_virtqueues =
  send_queue :: u64
  recv_queue :: u64

record vswitch_node =
  node_addr :: ether_addr
  virtqueues :: vswitch_virtqueues

record vswitch =
  n_connected :: int
  nodes :: "vswitch_node list"

text \<open>The search loop that both lookups share: the first of \<open>k\<close> slots from \<open>i\<close> on with the address.\<close>

fun slot_loop :: "vswitch_node list \<Rightarrow> ether_addr \<Rightarrow> nat \<Rightarrow> nat \<Rightarrow> int option" where
  "slot_loop ns mac i 0 = Some (- 1)"
| "slot_loop ns mac i (Suc k) = do {
     n \<leftarrow> rd ns i;
     eq \<leftarrow> mac802_addr_eq (node_addr n) mac;
     if eq then Some (int i) else slot_loop ns mac (i + 1) k }"

definition vswitch_find_free_slot :: "vswitch \<Rightarrow> int option" where
  "vswitch_find_free_slot lib = slot_loop (nodes lib) null_macaddr 0 VSWITCH_NUM_NODES"

text \<open>All bytes of the structure are zeroed, whatever it held.\<close>

definition zero_node :: vswitch_node where
  "zero_node = \<lparr>node_addr = replicate ETH_ALEN 0, virtqueues = \<lparr>send_queue = 0, recv_queue = 0\<rparr>\<rparr>"

definition vswitch_init :: "vswitch \<Rightarrow> int \<times> vswitch" where
  "vswitch_init lib = (0, \<lparr>n_connected = 0, nodes = replicate VSWITCH_NUM_NODES zero_node\<rparr>)"

definition vswitch_connect :: "vswitch \<Rightarrow> ether_addr \<Rightarrow> u64 \<Rightarrow> u64 \<Rightarrow> (int \<times> vswitch) option" where
  "vswitch_connect lib guest_macaddr send_virtqueue recv_virtqueue =
     (if \<not> n_connected lib \<le> int VSWITCH_NUM_NODES then None
      else if n_connected lib = int VSWITCH_NUM_NODES then Some (- 1, lib)
      else do {
        slot \<leftarrow> vswitch_find_free_slot lib;
        if slot < 0 then Some (- 1, lib)
        else do {
          ns \<leftarrow> wr (nodes lib) (nat slot)
                  \<lparr>node_addr = guest_macaddr,
                   virtqueues = \<lparr>send_queue = send_virtqueue, recv_queue = recv_virtqueue\<rparr>\<rparr>;
          Some (0, lib\<lparr>nodes := ns, n_connected := n_connected lib + 1\<rparr>) } })"

definition vswitch_get_destnode_index_by_macaddr :: "vswitch \<Rightarrow> ether_addr \<Rightarrow> int option" where
  "vswitch_get_destnode_index_by_macaddr lib mac = slot_loop (nodes lib) mac 0 VSWITCH_NUM_NODES"

text \<open>The result is the pointer: \<open>None\<close> for \<open>NULL\<close>, otherwise the index of the node pointed to.\<close>

definition vswitch_get_destnode_by_index :: "vswitch \<Rightarrow> u64 \<Rightarrow> nat option option" where
  "vswitch_get_destnode_by_index lib index = do {
     n \<leftarrow> rd (nodes lib) (unat index);
     null \<leftarrow> mac802_addr_eq (node_addr n) null_macaddr;
     Some (if null then None else Some (unat index)) }"

definition vswitch_get_destnode_by_macaddr :: "vswitch \<Rightarrow> ether_addr \<Rightarrow> nat option option" where
  "vswitch_get_destnode_by_macaddr lib mac = do {
     idx \<leftarrow> vswitch_get_destnode_index_by_macaddr lib mac;
     if idx < 0 then Some None else vswitch_get_destnode_by_index lib (of_int idx) }"

section \<open>Directories\<close>

text \<open>
  A bounded directory: entries are added at the end, refused when there is no room, and a lookup
  finds the first entry registered under a key.
\<close>

primrec add_entries_dir :: "('k \<Rightarrow> 'v \<Rightarrow> 's \<Rightarrow> 's option) \<Rightarrow> ('k \<times> 'v) list \<Rightarrow> 's \<Rightarrow> 's option" where
  "add_entries_dir add [] s = Some s"
| "add_entries_dir add (e # es) s = Option.bind (add (fst e) (snd e) s) (add_entries_dir add es)"

locale directory =
  fixes inv :: "'s \<Rightarrow> bool"
    and entries :: "'s \<Rightarrow> ('k \<times> 'v) list"
    and room :: nat
    and valid :: "'k \<Rightarrow> bool"
    and add :: "'k \<Rightarrow> 'v \<Rightarrow> 's \<Rightarrow> 's option"
    and find :: "'k \<Rightarrow> 's \<Rightarrow> 'v option"
  assumes add_room: "inv s \<Longrightarrow> valid k \<Longrightarrow> length (entries s) < room \<Longrightarrow>
      \<exists>s'. add k v s = Some s' \<and> inv s' \<and> entries s' = entries s @ [(k, v)]"
    and add_full: "inv s \<Longrightarrow> valid k \<Longrightarrow> room \<le> length (entries s) \<Longrightarrow> add k v s = None"
    and find_entry: "inv s \<Longrightarrow> valid k \<Longrightarrow> find k s = map_of (entries s) k"
begin

lemma add_all:
  "inv s \<Longrightarrow> \<forall>e \<in> set es. valid (fst e) \<Longrightarrow> length (entries s) + length es \<le> room \<Longrightarrow>
   \<exists>s'. add_entries_dir add es s = Some s' \<and> inv s' \<and> entries s' = entries s @ es"
proof (induction es arbitrary: s)
  case Nil
  then show ?case by simp
next
  case (Cons e es)
  obtain s1 where s1: "add (fst e) (snd e) s = Some s1" "inv s1" "entries s1 = entries s @ [e]"
    using add_room [of s "fst e" "snd e"] Cons.prems by auto
  with Cons.IH [OF s1(2)] Cons.prems show ?case by auto
qed

text \<open>Distinct keys that fit are all registered and each is found again, and no other key is.\<close>

lemma add_all_find:
  assumes "inv s" and "entries s = []" and "\<forall>e \<in> set es. valid (fst e)" and "length es \<le> room"
    and "distinct (map fst es)"
  shows "\<exists>s'. add_entries_dir add es s = Some s' \<and> inv s' \<and> entries s' = es
    \<and> (\<forall>(k, v) \<in> set es. find k s' = Some v)
    \<and> (\<forall>k. valid k \<and> k \<notin> fst ` set es \<longrightarrow> find k s' = None)"
proof -
  from add_all [OF assms(1,3)] assms(2,4) obtain s' where
    s': "add_entries_dir add es s = Some s'" "inv s'" "entries s' = es" by auto
  then have "\<forall>(k, v) \<in> set es. find k s' = Some v"
    using assms(3,5) by (auto simp: find_entry)
  moreover have "find k s' = None" if "valid k" "k \<notin> fst ` set es" for k
    using s' that by (auto simp: find_entry map_of_eq_None_iff)
  ultimately show ?thesis using s' by blast
qed

end

section \<open>The table as a directory\<close>

lemma addr_eq_loop_spec:
  "i + k \<le> length a \<Longrightarrow> i + k \<le> length b \<Longrightarrow>
   addr_eq_loop a b i k = Some (take k (drop i a) = take k (drop i b))"
proof (induction k arbitrary: i)
  case 0
  then show ?case by simp
next
  case (Suc k)
  then have "drop i a = a ! i # drop (i + 1) a" "drop i b = b ! i # drop (i + 1) b"
    by (simp_all add: Cons_nth_drop_Suc)
  with Suc show ?case by (simp add: rd_def)
qed

definition wf_addr :: "ether_addr \<Rightarrow> bool" where
  "wf_addr a \<longleftrightarrow> length a = ETH_ALEN"

lemma mac802_addr_eq_num_spec:
  "wf_addr a \<Longrightarrow> wf_addr b \<Longrightarrow> n \<le> ETH_ALEN \<Longrightarrow> mac802_addr_eq_num a b n = Some (take n a = take n b)"
  by (simp add: mac802_addr_eq_num_def wf_addr_def addr_eq_loop_spec)

lemma mac802_addr_eq_spec [simp]: "wf_addr a \<Longrightarrow> wf_addr b \<Longrightarrow> mac802_addr_eq a b = Some (a = b)"
  by (simp add: mac802_addr_eq_def mac802_addr_eq_num_spec) (simp add: wf_addr_def)

lemma wf_null [simp]: "wf_addr null_macaddr"
  by (simp add: wf_addr_def null_macaddr_def ETH_ALEN_def)

lemma slot_loop_spec:
  assumes "\<forall>n \<in> set ns. wf_addr (node_addr n)" and "wf_addr mac"
  shows "i + k \<le> length ns \<Longrightarrow> slot_loop ns mac i k =
    Some (case List.find (\<lambda>j. node_addr (ns ! j) = mac) [i..<i + k] of Some j \<Rightarrow> int j | None \<Rightarrow> - 1)"
proof (induction k arbitrary: i)
  case 0
  then show ?case by simp
next
  case (Suc k)
  from Suc.prems have "wf_addr (node_addr (ns ! i))" using assms(1) by simp
  moreover have "[i..<i + Suc k] = i # [i + 1..<i + 1 + k]" by (simp add: upt_rec)
  ultimately show ?case using Suc assms(2) by (simp add: rd_def)
qed

text \<open>The occupied slots are a prefix of the table, as long as the connection count.\<close>

definition vs_inv :: "vswitch \<Rightarrow> bool" where
  "vs_inv lib \<longleftrightarrow> length (nodes lib) = VSWITCH_NUM_NODES \<and> (\<forall>n \<in> set (nodes lib). wf_addr (node_addr n)) \<and>
     0 \<le> n_connected lib \<and> n_connected lib \<le> int VSWITCH_NUM_NODES \<and>
     (\<forall>i < VSWITCH_NUM_NODES. node_addr (nodes lib ! i) \<noteq> null_macaddr \<longleftrightarrow> int i < n_connected lib)"

definition vs_entries :: "vswitch \<Rightarrow> (ether_addr \<times> vswitch_virtqueues) list" where
  "vs_entries lib = map (\<lambda>i. (node_addr (nodes lib ! i), virtqueues (nodes lib ! i))) [0..<nat (n_connected lib)]"

definition vs_add :: "ether_addr \<Rightarrow> vswitch_virtqueues \<Rightarrow> vswitch \<Rightarrow> vswitch option" where
  "vs_add mac q lib = (case vswitch_connect lib mac (send_queue q) (recv_queue q) of
     Some (r, lib') \<Rightarrow> if r = 0 then Some lib' else None | None \<Rightarrow> None)"

definition vs_find :: "ether_addr \<Rightarrow> vswitch \<Rightarrow> vswitch_virtqueues option" where
  "vs_find mac lib = (case vswitch_get_destnode_by_macaddr lib mac of
     Some (Some j) \<Rightarrow> Some (virtqueues (nodes lib ! j)) | _ \<Rightarrow> None)"

definition vs_mac :: "ether_addr \<Rightarrow> bool" where
  "vs_mac mac \<longleftrightarrow> wf_addr mac \<and> mac \<noteq> null_macaddr"

lemma map_of_find:
  "map_of (map (\<lambda>j. (f j, g j)) js) k = map_option g (List.find (\<lambda>j. f j = k) js)"
  by (induction js) auto

lemma find_upt_prefix:
  assumes "c \<le> n" and "\<forall>j. c \<le> j \<and> j < n \<longrightarrow> \<not> P j"
  shows "List.find P [0..<n] = List.find P [0..<c]"
proof -
  have "List.find P (xs @ ys) = List.find P xs" if "\<forall>y \<in> set ys. \<not> P y" for xs ys
    using that by (induction xs) (auto simp: find_None_iff)
  then show ?thesis
    using assms upt_add_eq_append [of 0 c "n - c"] by fastforce
qed

lemma find_first:
  "c < n \<Longrightarrow> P c \<Longrightarrow> \<forall>j < c. \<not> P j \<Longrightarrow> List.find P [0..<n] = Some c"
  by (auto simp: find_Some_iff intro!: exI [of _ c])

lemma vs_inv_lookup:
  assumes "vs_inv lib" and "wf_addr mac"
  shows "vswitch_get_destnode_index_by_macaddr lib mac =
    Some (case List.find (\<lambda>j. node_addr (nodes lib ! j) = mac) [0..<VSWITCH_NUM_NODES] of
            Some j \<Rightarrow> int j | None \<Rightarrow> - 1)"
  using assms slot_loop_spec [of "nodes lib" mac 0 VSWITCH_NUM_NODES]
  by (simp add: vs_inv_def vswitch_get_destnode_index_by_macaddr_def)

lemma vs_inv_free_slot:
  assumes "vs_inv lib" and "n_connected lib < int VSWITCH_NUM_NODES"
  shows "vswitch_find_free_slot lib = Some (n_connected lib)"
proof -
  let ?c = "nat (n_connected lib)"
  from assms have c: "?c < VSWITCH_NUM_NODES" "int ?c = n_connected lib"
    and occ: "\<forall>i < VSWITCH_NUM_NODES. node_addr (nodes lib ! i) \<noteq> null_macaddr \<longleftrightarrow> int i < n_connected lib"
    by (auto simp: vs_inv_def)
  then have "node_addr (nodes lib ! ?c) = null_macaddr" by (metis less_irrefl)
  with occ c have "List.find (\<lambda>j. node_addr (nodes lib ! j) = null_macaddr) [0..<VSWITCH_NUM_NODES] = Some ?c"
    by (intro find_first) auto
  then show ?thesis
    using slot_loop_spec [of "nodes lib" null_macaddr 0 VSWITCH_NUM_NODES] assms
    by (simp add: vs_inv_def vswitch_find_free_slot_def)
qed

lemma vs_connect_room:
  assumes "vs_inv lib" and "vs_mac mac" and "n_connected lib < int VSWITCH_NUM_NODES"
  shows "\<exists>lib'. vswitch_connect lib mac sq rq = Some (0, lib') \<and> vs_inv lib'
    \<and> n_connected lib' = n_connected lib + 1
    \<and> vs_entries lib' = vs_entries lib @ [(mac, \<lparr>send_queue = sq, recv_queue = rq\<rparr>)]"
proof -
  let ?c = "nat (n_connected lib)"
  let ?n = "\<lparr>node_addr = mac, virtqueues = \<lparr>send_queue = sq, recv_queue = rq\<rparr>\<rparr>"
  let ?lib' = "lib\<lparr>nodes := (nodes lib)[?c := ?n], n_connected := n_connected lib + 1\<rparr>"
  from assms have c: "0 \<le> n_connected lib" "?c < length (nodes lib)"
    and occ: "\<forall>i < VSWITCH_NUM_NODES. node_addr (nodes lib ! i) \<noteq> null_macaddr \<longleftrightarrow> int i < n_connected lib"
    by (auto simp: vs_inv_def)
  have con: "vswitch_connect lib mac sq rq = Some (0, ?lib')"
    using vs_inv_free_slot [OF assms(1,3)] assms(3) c by (simp add: vswitch_connect_def wr_def)
  have "node_addr (nodes ?lib' ! i) \<noteq> null_macaddr \<longleftrightarrow> int i < n_connected ?lib'" if "i < VSWITCH_NUM_NODES" for i
    using occ that c assms(2) by (cases "i = ?c") (auto simp: vs_mac_def)
  moreover have "\<forall>n \<in> set (nodes ?lib'). wf_addr (node_addr n)"
    using assms(1,2) set_update_subset_insert [of "nodes lib" ?c ?n] by (auto simp: vs_inv_def vs_mac_def)
  ultimately have "vs_inv ?lib'" using assms c by (simp add: vs_inv_def)
  moreover have "vs_entries ?lib' = vs_entries lib @ [(mac, \<lparr>send_queue = sq, recv_queue = rq\<rparr>)]"
    using c by (simp add: vs_entries_def nat_add_distrib)
  ultimately show ?thesis using con by auto
qed

lemma length_vs_entries [simp]: "vs_inv lib \<Longrightarrow> int (length (vs_entries lib)) = n_connected lib"
  by (simp add: vs_entries_def vs_inv_def)

lemma vs_find_spec:
  assumes "vs_inv lib" and "vs_mac mac"
  shows "vs_find mac lib = map_of (vs_entries lib) mac"
proof -
  let ?P = "\<lambda>j. node_addr (nodes lib ! j) = mac" and ?c = "nat (n_connected lib)"
  have pre: "List.find ?P [0..<VSWITCH_NUM_NODES] = List.find ?P [0..<?c]"
    using assms by (intro find_upt_prefix) (auto simp: vs_inv_def vs_mac_def)
  show ?thesis
  proof (cases "List.find ?P [0..<?c]")
    case None
    with pre assms show ?thesis
      by (simp add: vs_find_def vswitch_get_destnode_by_macaddr_def vs_inv_lookup vs_mac_def vs_entries_def map_of_find)
  next
    case (Some j)
    then have j: "j < ?c" "node_addr (nodes lib ! j) = mac" by (auto simp: find_Some_iff)
    with assms have "j < length (nodes lib)" "j < 2 ^ 64" by (auto simp: vs_inv_def VSWITCH_NUM_NODES_def)
    then have "vswitch_get_destnode_by_macaddr lib mac = Some (Some j)"
      using pre Some assms j
      by (simp add: vswitch_get_destnode_by_macaddr_def vs_inv_lookup vs_mac_def vswitch_get_destnode_by_index_def
          rd_def unat_of_nat_small)
    with Some show ?thesis by (simp add: vs_find_def vs_entries_def map_of_find)
  qed
qed

interpretation vsd: directory vs_inv vs_entries VSWITCH_NUM_NODES vs_mac vs_add vs_find
proof
  fix lib :: vswitch and mac and q :: vswitch_virtqueues
  assume a: "vs_inv lib" "vs_mac mac"
  show "\<exists>lib'. vs_add mac q lib = Some lib' \<and> vs_inv lib' \<and> vs_entries lib' = vs_entries lib @ [(mac, q)]"
    if "length (vs_entries lib) < VSWITCH_NUM_NODES"
  proof -
    from that a have "n_connected lib < int VSWITCH_NUM_NODES"
      by (metis length_vs_entries of_nat_less_iff)
    from vs_connect_room [OF a this, of "send_queue q" "recv_queue q"] show ?thesis
      by (auto simp: vs_add_def)
  qed
  show "vs_add mac q lib = None" if "VSWITCH_NUM_NODES \<le> length (vs_entries lib)"
  proof -
    from that a have "n_connected lib = int VSWITCH_NUM_NODES"
      by (metis length_vs_entries of_nat_le_iff order_antisym vs_inv_def)
    then show ?thesis by (simp add: vs_add_def vswitch_connect_def)
  qed
  show "vs_find mac lib = map_of (vs_entries lib) mac" using a by (rule vs_find_spec)
qed

lemma vs_init_inv: "vs_inv (snd (vswitch_init lib))" "vs_entries (snd (vswitch_init lib)) = []"
  by (auto simp: vswitch_init_def vs_inv_def vs_entries_def zero_node_def null_macaddr_def wf_addr_def
      ETH_ALEN_def numeral_eq_Suc)

section \<open>Properties of the library\<close>


definition demo_mac :: "u8 \<Rightarrow> ether_addr" where
  "demo_mac x = [2, 0, 0, 0, 0, x]"

lemma demo_mac_facts [simp]: "vs_mac (demo_mac x)" "demo_mac x = demo_mac y \<longleftrightarrow> x = y"
  by (simp_all add: demo_mac_def vs_mac_def wf_addr_def ETH_ALEN_def null_macaddr_def)


text \<open>
  \<open>vswitch_connect\<close> on every branch, for a well-formed table: at four connections it fails and
  changes nothing; otherwise a non-null address is appended to the entries and the invariant is
  kept, also when the address is registered already, in which case the older entry stays the one
  that lookups find.
\<close>

theorem vswitch_connect_effect:
  assumes "vs_inv lib" and "vs_mac mac"
  shows "if n_connected lib = 4 then vswitch_connect lib mac sq rq = Some (- 1, lib)
    else \<exists>lib'. vswitch_connect lib mac sq rq = Some (0, lib') \<and> vs_inv lib' \<and> n_connected lib' = n_connected lib + 1
      \<and> vs_entries lib' = vs_entries lib @ [(mac, \<lparr>send_queue = sq, recv_queue = rq\<rparr>)]
      \<and> vs_find mac lib' = Some (case vs_find mac lib of None \<Rightarrow> \<lparr>send_queue = sq, recv_queue = rq\<rparr> | Some q \<Rightarrow> q)"
proof (cases "n_connected lib = 4")
  case True
  then show ?thesis by (simp add: vswitch_connect_def VSWITCH_NUM_NODES_def)
next
  case False
  with assms(1) have "n_connected lib < int VSWITCH_NUM_NODES" by (simp add: vs_inv_def VSWITCH_NUM_NODES_def)
  from vs_connect_room [OF assms this, of sq rq] obtain lib' where
    l: "vswitch_connect lib mac sq rq = Some (0, lib')" "vs_inv lib'" "n_connected lib' = n_connected lib + 1"
      "vs_entries lib' = vs_entries lib @ [(mac, \<lparr>send_queue = sq, recv_queue = rq\<rparr>)]" by blast
  moreover have "vs_find mac lib' = Some (case vs_find mac lib of None \<Rightarrow> \<lparr>send_queue = sq, recv_queue = rq\<rparr> | Some q \<Rightarrow> q)"
    using vs_find_spec [OF l(2) assms(2)] vs_find_spec [OF assms] l(4)
    by (simp add: map_add_def split: option.split)
  ultimately show ?thesis using False by simp
qed

theorem vswitch_connect_effect_witness:
  "\<exists>lib'. vswitch_connect \<lparr>n_connected = 0, nodes = replicate 4 zero_node\<rparr> (demo_mac 1) 16 32 = Some (0, lib')
     \<and> vs_find (demo_mac 1) lib' = Some \<lparr>send_queue = 16, recv_queue = 32\<rparr>"
proof -
  let ?lib = "\<lparr>n_connected = 0, nodes = replicate 4 zero_node\<rparr>"
  have inv: "vs_inv ?lib" using vs_init_inv(1) [of ?lib] by (simp add: vswitch_init_def VSWITCH_NUM_NODES_def)
  have "vs_find (demo_mac 1) ?lib = None"
    using vs_find_spec [OF inv, of "demo_mac 1"] by (simp add: vs_entries_def)
  then show ?thesis using vswitch_connect_effect [OF inv, of "demo_mac 1" 16 32] by auto
qed

text \<open>
  Registering the null address is accepted and counted but occupies no slot. After four such
  calls, each of which returns 0, the table is still empty and yet every further registration is
  refused.
\<close>

theorem vswitch_null_mac_exhausts:
  "\<exists>lib'. add_entries_dir vs_add (replicate 4 (null_macaddr, \<lparr>send_queue = sq, recv_queue = rq\<rparr>)) (snd (vswitch_init lib)) = Some lib'
     \<and> map node_addr (nodes lib') = replicate 4 null_macaddr
     \<and> vswitch_connect lib' mac sq' rq' = Some (- 1, lib')"
  by (simp add: vs_add_def vswitch_connect_def vswitch_init_def vswitch_find_free_slot_def VSWITCH_NUM_NODES_def
      numeral_eq_Suc zero_node_def rd_def wr_def ETH_ALEN_def null_macaddr_def mac802_addr_eq_def mac802_addr_eq_num_def)

text \<open>
  \<open>vswitch_get_destnode_by_index\<close> returns the node of an occupied slot and \<open>NULL\<close> for a free
  slot, but has no bounds check: every index from four on is an access outside the node array,
  although \<open>NULL\<close> is documented for an invalid index.
\<close>

theorem vswitch_by_index_cases:
  assumes "vs_inv lib"
  shows "vswitch_get_destnode_by_index lib index =
    (if 4 \<le> unat index then None
     else Some (if int (unat index) < n_connected lib then Some (unat index) else None))"
proof (cases "4 \<le> unat index")
  case True
  with assms show ?thesis
    by (simp add: vs_inv_def vswitch_get_destnode_by_index_def rd_def VSWITCH_NUM_NODES_def)
next
  case False
  then have "node_addr (nodes lib ! unat index) \<noteq> null_macaddr \<longleftrightarrow> int (unat index) < n_connected lib"
    using assms unfolding vs_inv_def VSWITCH_NUM_NODES_def by (meson not_le)
  moreover have "length (nodes lib) = 4" "\<forall>n \<in> set (nodes lib). wf_addr (node_addr n)"
    using assms by (auto simp: vs_inv_def VSWITCH_NUM_NODES_def)
  ultimately show ?thesis
    using False by (simp add: vswitch_get_destnode_by_index_def rd_def del: of_nat_unat) metis
qed

theorem vswitch_by_index_cases_witness:
  "vswitch_get_destnode_by_index \<lparr>n_connected = 0, nodes = replicate 4 zero_node\<rparr> 3 = Some None
   \<and> vswitch_get_destnode_by_index \<lparr>n_connected = 0, nodes = replicate 4 zero_node\<rparr> 4 = None"
proof -
  let ?lib = "\<lparr>n_connected = 0, nodes = replicate 4 zero_node\<rparr>"
  have inv: "vs_inv ?lib" using vs_init_inv(1) [of ?lib] by (simp add: vswitch_init_def VSWITCH_NUM_NODES_def)
  show ?thesis using vswitch_by_index_cases [OF inv, of 3] vswitch_by_index_cases [OF inv, of 4] by simp
qed

end
