(* ===== verification/Ivc.thy ===== *)
theory Ivc
  imports Prelude
begin

text \<open>
  Tegra inter-VM communication (\<open>src/libtx2bpmp/src/ivc.c\<close>): fixed-size frames in two shared
  channels, one per direction, and the handshake by which the two ends reset them.

  A channel header is a record of its three 32-bit words; headers and frames are found in shared
  memory (\<open>ivc_mem\<close>) by their addresses. The private state of an end is \<open>tegra_ivc\<close>. The call of the
  client's \<open>notify\<close> function is the boolean that each operation returns. An API call is one atomic
  step; \<open>None\<close> stands for the fatal log of an access to a frame that does not exist.

  The first part shows that one direction is a bounded queue of frames for all values of the
  wrapping counters, the second that the reset handshake, run by both ends in any interleaving with
  each other and with transfers, never lets the two ends disagree about a channel in use.
\<close>

section \<open>Data\<close>

definition TEGRA_IVC_ALIGN :: u64 where
  "TEGRA_IVC_ALIGN = 64"

definition ivc_state_established :: u32 where
  "ivc_state_established = 0"

definition ivc_state_sync :: u32 where
  "ivc_state_sync = 1"

definition ivc_state_ack :: u32 where
  "ivc_state_ack = 2"

record tegra_ivc_channel_header =
  w_count :: u32
  ch_state :: u32
  r_count :: u32

text \<open>Two cache lines, one for the fields of each end.\<close>

definition header_size :: u64 where
  "header_size = 2 * TEGRA_IVC_ALIGN"

record tegra_ivc =
  rx_channel :: u64
  tx_channel :: u64
  r_pos :: u32
  w_pos :: u32
  nframes :: u32
  frame_size :: u32

record ivc_mem =
  hdr :: "u64 \<Rightarrow> tegra_ivc_channel_header"
  frame_at :: "u64 \<Rightarrow> bytes"

datatype errno = ECONNRESET | ENOMEM | EAGAIN | EINVAL | EIO | ENODEV | ENOSYS | ETIMEDOUT

definition upd_hdr :: "u64 \<Rightarrow> (tegra_ivc_channel_header \<Rightarrow> tegra_ivc_channel_header) \<Rightarrow> ivc_mem \<Rightarrow> ivc_mem" where
  "upd_hdr ch f m = m\<lparr>hdr := (hdr m)(ch := f (hdr m ch))\<rparr>"

section \<open>Operations\<close>

text \<open>The product of frame size and index is a 32-bit product, widened afterwards.\<close>

definition tegra_ivc_frame_addr :: "tegra_ivc \<Rightarrow> u64 \<Rightarrow> u32 \<Rightarrow> u64 option" where
  "tegra_ivc_frame_addr ivc h frame =
     (if nframes ivc \<le> frame then None
      else Some (h + header_size + ucast (frame_size ivc * frame)))"

definition tegra_ivc_frame_pointer :: "tegra_ivc \<Rightarrow> u64 \<Rightarrow> u32 \<Rightarrow> u64 option" where
  "tegra_ivc_frame_pointer ivc ch frame = tegra_ivc_frame_addr ivc ch frame"

definition tegra_ivc_channel_empty :: "tegra_ivc \<Rightarrow> tegra_ivc_channel_header \<Rightarrow> bool" where
  "tegra_ivc_channel_empty ivc ch =
     (if w_count ch - r_count ch > nframes ivc then True else w_count ch = r_count ch)"

definition tegra_ivc_channel_full :: "tegra_ivc \<Rightarrow> tegra_ivc_channel_header \<Rightarrow> bool" where
  "tegra_ivc_channel_full ivc ch \<longleftrightarrow> w_count ch - r_count ch \<ge> nframes ivc"

definition tegra_ivc_advance_rx :: "tegra_ivc \<Rightarrow> ivc_mem \<Rightarrow> tegra_ivc \<times> ivc_mem" where
  "tegra_ivc_advance_rx ivc m =
     (if r_pos ivc = nframes ivc - 1 then ivc\<lparr>r_pos := 0\<rparr> else ivc\<lparr>r_pos := r_pos ivc + 1\<rparr>,
      upd_hdr (rx_channel ivc) (\<lambda>h. h\<lparr>r_count := r_count h + 1\<rparr>) m)"

definition tegra_ivc_advance_tx :: "tegra_ivc \<Rightarrow> ivc_mem \<Rightarrow> tegra_ivc \<times> ivc_mem" where
  "tegra_ivc_advance_tx ivc m =
     (if w_pos ivc = nframes ivc - 1 then ivc\<lparr>w_pos := 0\<rparr> else ivc\<lparr>w_pos := w_pos ivc + 1\<rparr>,
      upd_hdr (tx_channel ivc) (\<lambda>h. h\<lparr>w_count := w_count h + 1\<rparr>) m)"

definition tegra_ivc_check_read :: "tegra_ivc \<Rightarrow> ivc_mem \<Rightarrow> errno + unit" where
  "tegra_ivc_check_read ivc m =
     (if ch_state (hdr m (tx_channel ivc)) \<noteq> ivc_state_established then Inl ECONNRESET
      else if \<not> tegra_ivc_channel_empty ivc (hdr m (rx_channel ivc)) then Inr ()
      else if tegra_ivc_channel_empty ivc (hdr m (rx_channel ivc)) then Inl ENOMEM else Inr ())"

definition tegra_ivc_check_write :: "tegra_ivc \<Rightarrow> ivc_mem \<Rightarrow> errno + unit" where
  "tegra_ivc_check_write ivc m =
     (if ch_state (hdr m (tx_channel ivc)) \<noteq> ivc_state_established then Inl ECONNRESET
      else if \<not> tegra_ivc_channel_full ivc (hdr m (tx_channel ivc)) then Inr ()
      else if tegra_ivc_channel_full ivc (hdr m (tx_channel ivc)) then Inl ENOMEM else Inr ())"

definition tegra_ivc_channel_avail_count :: "tegra_ivc_channel_header \<Rightarrow> u32" where
  "tegra_ivc_channel_avail_count ch = w_count ch - r_count ch"

definition tegra_ivc_read_get_next_frame :: "tegra_ivc \<Rightarrow> ivc_mem \<Rightarrow> (errno + u64) option" where
  "tegra_ivc_read_get_next_frame ivc m =
     (case tegra_ivc_check_read ivc m of
        Inl e \<Rightarrow> Some (Inl e)
      | Inr _ \<Rightarrow> map_option Inr (tegra_ivc_frame_pointer ivc (rx_channel ivc) (r_pos ivc)))"

definition tegra_ivc_read_advance :: "tegra_ivc \<Rightarrow> ivc_mem \<Rightarrow> errno + (bool \<times> tegra_ivc \<times> ivc_mem)" where
  "tegra_ivc_read_advance ivc m =
     (case tegra_ivc_check_read ivc m of
        Inl e \<Rightarrow> Inl e
      | Inr _ \<Rightarrow>
          (let (ivc', m') = tegra_ivc_advance_rx ivc m
           in Inr (tegra_ivc_channel_avail_count (hdr m' (rx_channel ivc')) = nframes ivc' - 1, ivc', m')))"

definition tegra_ivc_write_get_next_frame :: "tegra_ivc \<Rightarrow> ivc_mem \<Rightarrow> (errno + u64) option" where
  "tegra_ivc_write_get_next_frame ivc m =
     (case tegra_ivc_check_write ivc m of
        Inl e \<Rightarrow> Some (Inl e)
      | Inr _ \<Rightarrow> map_option Inr (tegra_ivc_frame_pointer ivc (tx_channel ivc) (w_pos ivc)))"

definition tegra_ivc_write_advance :: "tegra_ivc \<Rightarrow> ivc_mem \<Rightarrow> errno + (bool \<times> tegra_ivc \<times> ivc_mem)" where
  "tegra_ivc_write_advance ivc m =
     (case tegra_ivc_check_write ivc m of
        Inl e \<Rightarrow> Inl e
      | Inr _ \<Rightarrow>
          (let (ivc', m') = tegra_ivc_advance_tx ivc m
           in Inr (tegra_ivc_channel_avail_count (hdr m' (tx_channel ivc')) = 1, ivc', m')))"

text \<open>The assignments that clear the counters an end owns, and its positions.\<close>

definition reset_counters :: "tegra_ivc \<Rightarrow> ivc_mem \<Rightarrow> tegra_ivc \<times> ivc_mem" where
  "reset_counters ivc m =
     (ivc\<lparr>w_pos := 0, r_pos := 0\<rparr>,
      upd_hdr (rx_channel ivc) (\<lambda>h. h\<lparr>r_count := 0\<rparr>)
        (upd_hdr (tx_channel ivc) (\<lambda>h. h\<lparr>w_count := 0\<rparr>) m))"

definition set_tx_state :: "tegra_ivc \<Rightarrow> u32 \<Rightarrow> ivc_mem \<Rightarrow> ivc_mem" where
  "set_tx_state ivc s m = upd_hdr (tx_channel ivc) (\<lambda>h. h\<lparr>ch_state := s\<rparr>) m"

definition tegra_ivc_channel_notified :: "tegra_ivc \<Rightarrow> ivc_mem \<Rightarrow> (errno + unit) \<times> bool \<times> tegra_ivc \<times> ivc_mem" where
  "tegra_ivc_channel_notified ivc m =
     (let peer_state = ch_state (hdr m (rx_channel ivc));
          local_state = ch_state (hdr m (tx_channel ivc));
          (notified, ivc', m') =
            (if peer_state = ivc_state_sync then
               (let (i, m1) = reset_counters ivc m in (True, i, set_tx_state i ivc_state_ack m1))
             else if local_state = ivc_state_sync \<and> peer_state = ivc_state_ack then
               (let (i, m1) = reset_counters ivc m in (True, i, set_tx_state i ivc_state_established m1))
             else if local_state = ivc_state_ack then
               (True, ivc, set_tx_state ivc ivc_state_established m)
             else (False, ivc, m))
      in (if ch_state (hdr m' (tx_channel ivc')) \<noteq> ivc_state_established then Inl EAGAIN else Inr (),
          notified, ivc', m'))"

definition tegra_ivc_channel_reset :: "tegra_ivc \<Rightarrow> ivc_mem \<Rightarrow> bool \<times> tegra_ivc \<times> ivc_mem" where
  "tegra_ivc_channel_reset ivc m = (True, ivc, set_tx_state ivc ivc_state_sync m)"

text \<open>
  The first check is made in 64 bits; the products of the overlap test are 32-bit products and the
  sums wrap at 64 bits. The checks of structure offsets hold by the layout of the header.
\<close>

definition check_ivc_params :: "u64 \<Rightarrow> u64 \<Rightarrow> u32 \<Rightarrow> u32 \<Rightarrow> errno + unit" where
  "check_ivc_params qbase1 qbase2 n fsize =
     (if (ucast n :: u64) * ucast fsize \<ge> 0x100000000 then Inl EINVAL
      else if qbase1 AND (TEGRA_IVC_ALIGN - 1) \<noteq> 0 \<or> qbase2 AND (TEGRA_IVC_ALIGN - 1) \<noteq> 0 then Inl EINVAL
      else if fsize AND (ucast TEGRA_IVC_ALIGN - 1) \<noteq> 0 then Inl EINVAL
      else if qbase1 < qbase2 then
        (if qbase1 + ucast (fsize * n) > qbase2 then Inl EINVAL else Inr ())
      else
        (if qbase2 + ucast (fsize * n) > qbase1 then Inl EINVAL else Inr ()))"

text \<open>The argument \<open>None\<close> is the null pointer; the structure need not be initialised before.\<close>

definition tegra_ivc_init :: "tegra_ivc option \<Rightarrow> u64 \<Rightarrow> u64 \<Rightarrow> u32 \<Rightarrow> u32 \<Rightarrow> errno + tegra_ivc" where
  "tegra_ivc_init ivc rx_base tx_base n fsize =
     (if ivc = None then Inl EINVAL
      else case check_ivc_params rx_base tx_base n fsize of
        Inl e \<Rightarrow> Inl e
      | Inr _ \<Rightarrow> Inr \<lparr>rx_channel = rx_base, tx_channel = tx_base, r_pos = 0, w_pos = 0,
                     nframes = n, frame_size = fsize\<rparr>)"

section \<open>One direction as a queue of frames\<close>

text \<open>
  The sending end \<open>a\<close> and the receiving end \<open>b\<close> of one direction. The number of pending frames is
  the difference of the two 32-bit counters, whatever their values.
\<close>

definition ivc_geom :: "tegra_ivc \<Rightarrow> tegra_ivc \<Rightarrow> bool" where
  "ivc_geom a b \<longleftrightarrow> 0 < nframes a \<and> nframes b = nframes a \<and> 0 < frame_size a \<and> frame_size b = frame_size a \<and>
     unat (frame_size a) * unat (nframes a) < 2 ^ 32 \<and> rx_channel b = tx_channel a \<and>
     tx_channel b = rx_channel a \<and> tx_channel b \<noteq> tx_channel a"

definition pending :: "tegra_ivc \<Rightarrow> ivc_mem \<Rightarrow> nat" where
  "pending a m = unat (w_count (hdr m (tx_channel a)) - r_count (hdr m (tx_channel a)))"

definition dir_ok :: "tegra_ivc \<Rightarrow> tegra_ivc \<Rightarrow> ivc_mem \<Rightarrow> bool" where
  "dir_ok a b m \<longleftrightarrow> pending a m \<le> unat (nframes a) \<and> unat (r_pos b) < unat (nframes a) \<and>
     unat (w_pos a) = (unat (r_pos b) + pending a m) mod unat (nframes a)"

definition frame_slot :: "tegra_ivc \<Rightarrow> nat \<Rightarrow> u64" where
  "frame_slot a i = tx_channel a + header_size + ucast (frame_size a * of_nat i)"

definition ivc_frames :: "tegra_ivc \<Rightarrow> ivc_mem \<Rightarrow> bytes list" where
  "ivc_frames a m = map (\<lambda>i. frame_at m (frame_slot a i)) [0..<unat (nframes a)]"

type_synonym ivc_link = "tegra_ivc \<times> tegra_ivc \<times> ivc_mem"

definition ivc_link_inv :: "ivc_link \<Rightarrow> bool" where
  "ivc_link_inv = (\<lambda>(a, b, m). ivc_geom a b \<and> dir_ok a b m \<and>
     ch_state (hdr m (tx_channel a)) = ivc_state_established \<and>
     ch_state (hdr m (tx_channel b)) = ivc_state_established)"

definition ivc_contents :: "ivc_link \<Rightarrow> bytes list" where
  "ivc_contents = (\<lambda>(a, b, m). ring_seg (ivc_frames a m) (unat (r_pos b)) (pending a m))"

definition ivc_capacity :: "ivc_link \<Rightarrow> nat" where
  "ivc_capacity = (\<lambda>(a, b, m). unat (nframes a))"

text \<open>The client protocol of the header file: locate a frame, fill or read it, advance.\<close>

definition ivc_send :: "bytes \<Rightarrow> ivc_link \<Rightarrow> ivc_link option" where
  "ivc_send f = (\<lambda>(a, b, m).
     case tegra_ivc_write_get_next_frame a m of
       Some (Inr p) \<Rightarrow>
         (case tegra_ivc_write_advance a (m\<lparr>frame_at := (frame_at m)(p := f)\<rparr>) of
            Inr (_, a', m') \<Rightarrow> Some (a', b, m') | Inl _ \<Rightarrow> None)
     | _ \<Rightarrow> None)"

definition ivc_receive :: "ivc_link \<Rightarrow> (bytes \<times> ivc_link) option" where
  "ivc_receive = (\<lambda>(a, b, m).
     case tegra_ivc_read_get_next_frame b m of
       Some (Inr p) \<Rightarrow>
         (case tegra_ivc_read_advance b m of
            Inr (_, b', m') \<Rightarrow> Some (frame_at m p, (a, b', m')) | Inl _ \<Rightarrow> None)
     | _ \<Rightarrow> None)"

lemma frame_offset:
  assumes "ivc_geom a b" and "i < unat (nframes a)"
  shows "unat (frame_size a * of_nat i) = unat (frame_size a) * i"
proof -
  have i: "unat (of_nat i :: u32) = i"
    using assms(2) unat_lt_exp [of "nframes a"] by (intro unat_of_nat_small) simp
  have "unat (frame_size a) * i \<le> unat (frame_size a) * unat (nframes a)" using assms(2) by simp
  also have "\<dots> < 2 ^ 32" using assms(1) by (simp add: ivc_geom_def)
  finally show ?thesis using i by (simp add: unat_word_ariths)
qed

lemma frame_slot_inject:
  assumes "ivc_geom a b" and "i < unat (nframes a)" and "j < unat (nframes a)" and "frame_slot a i = frame_slot a j"
  shows "i = j"
proof -
  from assms(4) have "unat (ucast (frame_size a * of_nat i) :: u64) = unat (ucast (frame_size a * of_nat j) :: u64)"
    by (simp add: frame_slot_def)
  then have "unat (frame_size a) * i = unat (frame_size a) * j"
    using frame_offset [OF assms(1,2)] frame_offset [OF assms(1,3)] by (simp add: width_simps)
  moreover have "0 < unat (frame_size a)" using assms(1) by (simp add: ivc_geom_def unat_gt_0 word_gt_0)
  ultimately show ?thesis by simp
qed

lemma ivc_frames_store:
  assumes "ivc_geom a b" and "k < unat (nframes a)"
  shows "ivc_frames a (m\<lparr>frame_at := (frame_at m)(frame_slot a k := f)\<rparr>) = (ivc_frames a m)[k := f]"
  using assms frame_slot_inject [OF assms(1) _ assms(2)]
  by (intro nth_equalityI) (auto simp: ivc_frames_def nth_list_update)

lemma frame_pointer_slot:
  assumes "ivc_geom a b" and "unat fr < unat (nframes a)"
  shows "tegra_ivc_frame_pointer a (tx_channel a) fr = Some (frame_slot a (unat fr))"
    and "tegra_ivc_frame_pointer b (rx_channel b) fr = Some (frame_slot a (unat fr))"
  using assms
  by (simp_all add: tegra_ivc_frame_pointer_def tegra_ivc_frame_addr_def frame_slot_def ivc_geom_def
      word_le_nat_alt)

text \<open>Advancing a position by one frame.\<close>

lemma advance_pos:
  fixes p n :: u32
  assumes "unat p < unat n"
  shows "unat (if p = n - 1 then 0 else p + 1) = Suc (unat p) mod unat n"
proof (cases "p = n - 1")
  case True
  have "unat (n - 1) = unat n - 1" using assms by (intro unat_minus_one) auto
  with True assms show ?thesis by simp
next
  case False
  have "Suc (unat p) \<noteq> unat n"
  proof
    assume "Suc (unat p) = unat n"
    then have "unat p = unat n - 1" by simp
    moreover have "unat (n - 1) = unat n - 1" using assms by (intro unat_minus_one) auto
    ultimately show False using False by (simp add: word_unat_eq_iff)
  qed
  with assms have "Suc (unat p) < unat n" by simp
  moreover from this have "unat (p + 1) = Suc (unat p)"
    using unat_lt_exp [of n] by (simp add: unat_Suc_no_wrap)
  ultimately show ?thesis using False by simp
qed

lemma upd_hdr_simps [simp]:
  "hdr (upd_hdr ch f m) ch' = (if ch' = ch then f (hdr m ch) else hdr m ch')"
  "frame_at (upd_hdr ch f m) = frame_at m"
  by (simp_all add: upd_hdr_def)

lemma dir_ok_w_pos: "dir_ok a b m \<Longrightarrow> unat (w_pos a) < unat (nframes a)"
  by (simp add: dir_ok_def)

text \<open>A transfer in either direction, in terms of the pending frames.\<close>

lemma write_full:
  assumes "ch_state (hdr m (tx_channel a)) = ivc_state_established"
  shows "tegra_ivc_check_write a m = (if unat (nframes a) \<le> pending a m then Inl ENOMEM else Inr ())"
  using assms by (simp add: tegra_ivc_check_write_def tegra_ivc_channel_full_def pending_def word_le_nat_alt)

lemma read_empty:
  assumes "ivc_geom a b" and "dir_ok a b m" and "ch_state (hdr m (tx_channel b)) = ivc_state_established"
  shows "tegra_ivc_check_read b m = (if pending a m = 0 then Inl ENOMEM else Inr ())"
  using assms by (auto simp: tegra_ivc_check_read_def tegra_ivc_channel_empty_def pending_def ivc_geom_def
      dir_ok_def word_less_nat_alt unat_eq_0)

lemma write_step:
  assumes "ivc_geom a b" and ok: "dir_ok a b m" and "ch_state (hdr m (tx_channel a)) = ivc_state_established"
    and room: "pending a m < unat (nframes a)"
  shows "\<exists>n wp m'. tegra_ivc_write_advance a m = Inr (n, a\<lparr>w_pos := wp\<rparr>, m')
    \<and> m' = upd_hdr (tx_channel a) (\<lambda>h. h\<lparr>w_count := w_count h + 1\<rparr>) m
    \<and> pending a m' = Suc (pending a m) \<and> dir_ok (a\<lparr>w_pos := wp\<rparr>) b m'"
proof -
  let ?wp = "if w_pos a = nframes a - 1 then 0 else w_pos a + 1"
  let ?m' = "upd_hdr (tx_channel a) (\<lambda>h. h\<lparr>w_count := w_count h + 1\<rparr>) m"
  let ?h = "hdr m (tx_channel a)"
  have "unat (w_count ?h - r_count ?h + 1) = Suc (pending a m)"
    using room unat_lt_exp [of "nframes a"] unat_Suc_no_wrap [of "w_count ?h - r_count ?h"] by (simp add: pending_def)
  then have p: "pending a ?m' = Suc (pending a m)" by (simp add: pending_def algebra_simps)
  have "unat ?wp = Suc (unat (w_pos a)) mod unat (nframes a)"
    using dir_ok_w_pos [OF ok] by (rule advance_pos)
  then have wp: "unat ?wp = (unat (r_pos b) + Suc (pending a m)) mod unat (nframes a)"
    using ok by (simp add: dir_ok_def mod_Suc_eq)
  have "tegra_ivc_write_advance a m =
      Inr (tegra_ivc_channel_avail_count (hdr ?m' (tx_channel a)) = 1, a\<lparr>w_pos := ?wp\<rparr>, ?m')"
    using write_full [OF assms(3)] room
    by (simp add: tegra_ivc_write_advance_def tegra_ivc_advance_tx_def Let_def)
  moreover have "dir_ok (a\<lparr>w_pos := ?wp\<rparr>) b ?m'"
    using ok p wp room by (simp add: dir_ok_def pending_def)
  ultimately show ?thesis using p by blast
qed

lemma read_step:
  assumes geom: "ivc_geom a b" and ok: "dir_ok a b m" and st: "ch_state (hdr m (tx_channel b)) = ivc_state_established"
    and some: "0 < pending a m"
  shows "\<exists>n rp m'. tegra_ivc_read_advance b m = Inr (n, b\<lparr>r_pos := rp\<rparr>, m')
    \<and> m' = upd_hdr (tx_channel a) (\<lambda>h. h\<lparr>r_count := r_count h + 1\<rparr>) m
    \<and> Suc (pending a m') = pending a m \<and> dir_ok a (b\<lparr>r_pos := rp\<rparr>) m'
    \<and> unat rp = Suc (unat (r_pos b)) mod unat (nframes a)"
proof -
  let ?rp = "if r_pos b = nframes b - 1 then 0 else r_pos b + 1"
  let ?m' = "upd_hdr (tx_channel a) (\<lambda>h. h\<lparr>r_count := r_count h + 1\<rparr>) m"
  let ?h = "hdr m (tx_channel a)" and ?N = "unat (nframes a)"
  from geom have nb: "nframes b = nframes a" "rx_channel b = tx_channel a" by (simp_all add: ivc_geom_def)
  have "unat (w_count ?h - r_count ?h - 1) = pending a m - 1"
    using some by (simp add: pending_def unat_minus_one unat_gt_0)
  then have p: "Suc (pending a ?m') = pending a m" using some by (simp add: pending_def algebra_simps)
  have rp: "unat ?rp = Suc (unat (r_pos b)) mod ?N"
    using ok nb by (simp only: nb) (rule advance_pos, simp add: dir_ok_def)
  have "(unat ?rp + pending a ?m') mod ?N = (Suc (unat (r_pos b)) + pending a ?m') mod ?N"
    unfolding rp by (rule mod_add_left_eq)
  also have "Suc (unat (r_pos b)) + pending a ?m' = unat (r_pos b) + pending a m" by (simp flip: p)
  also have "(unat (r_pos b) + pending a m) mod ?N = unat (w_pos a)" using ok by (simp add: dir_ok_def)
  finally have wp: "unat (w_pos a) = (unat ?rp + pending a ?m') mod ?N" ..
  have "tegra_ivc_read_advance b m =
      Inr (tegra_ivc_channel_avail_count (hdr ?m' (rx_channel b)) = nframes b - 1, b\<lparr>r_pos := ?rp\<rparr>, ?m')"
    using read_empty [OF geom ok st] some nb
    by (simp add: tegra_ivc_read_advance_def tegra_ivc_advance_rx_def Let_def)
  moreover have "unat ?rp < ?N" unfolding rp using ok by (intro mod_less_divisor) (auto simp: dir_ok_def)
  then have "dir_ok a (b\<lparr>r_pos := ?rp\<rparr>) ?m'" using ok p wp by (simp add: dir_ok_def)
  ultimately show ?thesis using p rp by blast
qed

lemma link_frame [simp]:
  "ivc_geom (a\<lparr>w_pos := x\<rparr>) b = ivc_geom a b" "ivc_geom a (b\<lparr>r_pos := y\<rparr>) = ivc_geom a b"
  "pending (a\<lparr>w_pos := x\<rparr>) m = pending a m" "pending (a\<lparr>r_pos := x\<rparr>) m = pending a m"
  "pending a (m\<lparr>frame_at := fs\<rparr>) = pending a m"
  "dir_ok a b (m\<lparr>frame_at := fs\<rparr>) = dir_ok a b m"
  "ivc_frames (a\<lparr>w_pos := x\<rparr>) m = ivc_frames a m" "ivc_frames a (upd_hdr ch f m) = ivc_frames a m"
  "length (ivc_frames a m) = unat (nframes a)"
  by (simp_all add: ivc_geom_def pending_def dir_ok_def ivc_frames_def frame_slot_def)

lemma ivc_send_room:
  assumes inv: "ivc_link_inv (a, b, m)" and room: "pending a m < unat (nframes a)"
  shows "\<exists>a' m'. ivc_send f (a, b, m) = Some (a', b, m') \<and> ivc_link_inv (a', b, m')
    \<and> ivc_contents (a', b, m') = ivc_contents (a, b, m) @ [f] \<and> nframes a' = nframes a"
proof -
  let ?N = "unat (nframes a)" and ?k = "unat (w_pos a)" and ?fs = "ivc_frames a m"
  let ?m1 = "m\<lparr>frame_at := (frame_at m)(frame_slot a ?k := f)\<rparr>"
  from inv have g: "ivc_geom a b" and ok: "dir_ok a b m"
    and st: "ch_state (hdr m (tx_channel a)) = ivc_state_established"
      "ch_state (hdr m (tx_channel b)) = ivc_state_established" by (auto simp: ivc_link_inv_def)
  have k: "?k < ?N" "?k = (unat (r_pos b) + pending a m) mod ?N"
    using ok dir_ok_w_pos [OF ok] by (auto simp: dir_ok_def)
  have get: "tegra_ivc_write_get_next_frame a m = Some (Inr (frame_slot a ?k))"
    using write_full [OF st(1)] room frame_pointer_slot(1) [OF g k(1)]
    by (simp add: tegra_ivc_write_get_next_frame_def)
  from write_step [OF g, of ?m1] ok st(1) room obtain n wp m' where
    adv: "tegra_ivc_write_advance a ?m1 = Inr (n, a\<lparr>w_pos := wp\<rparr>, m')"
      "m' = upd_hdr (tx_channel a) (\<lambda>h. h\<lparr>w_count := w_count h + 1\<rparr>) ?m1"
      "pending a m' = Suc (pending a m)" "dir_ok (a\<lparr>w_pos := wp\<rparr>) b m'" by auto
  have "ivc_frames a m' = ?fs[?k := f]"
    unfolding adv(2) using ivc_frames_store [OF g k(1)] by simp
  then have "ring_seg (ivc_frames a m') (unat (r_pos b)) (Suc (pending a m)) = ivc_contents (a, b, m) @ [f]"
    using ring_seg_update_snoc [of "pending a m" ?fs "unat (r_pos b)" f] room k(2)
    by (simp add: ivc_contents_def)
  moreover have "ivc_link_inv (a\<lparr>w_pos := wp\<rparr>, b, m')"
    using g adv(4) st by (auto simp: ivc_link_inv_def adv(2) ivc_geom_def)
  ultimately show ?thesis using get adv(1,3) by (simp add: ivc_send_def ivc_contents_def)
qed

lemma ivc_receive_some:
  assumes inv: "ivc_link_inv (a, b, m)" and some: "ivc_contents (a, b, m) = f # q"
  shows "\<exists>b' m'. ivc_receive (a, b, m) = Some (f, (a, b', m')) \<and> ivc_link_inv (a, b', m')
    \<and> ivc_contents (a, b', m') = q"
proof -
  let ?N = "unat (nframes a)" and ?r = "unat (r_pos b)" and ?fs = "ivc_frames a m"
  from inv have g: "ivc_geom a b" and ok: "dir_ok a b m"
    and st: "ch_state (hdr m (tx_channel a)) = ivc_state_established"
      "ch_state (hdr m (tx_channel b)) = ivc_state_established" by (auto simp: ivc_link_inv_def)
  from some have "length (f # q) = pending a m"
    unfolding ivc_contents_def by (metis case_prod_conv length_ring_seg)
  then have pos: "0 < pending a m" and "pending a m = Suc (length q)" by auto
  have r: "?r < ?N" using ok by (simp add: dir_ok_def)
  have get: "tegra_ivc_read_get_next_frame b m = Some (Inr (frame_slot a ?r))"
    using read_empty [OF g ok st(2)] pos frame_pointer_slot(2) [OF g r]
    by (simp add: tegra_ivc_read_get_next_frame_def)
  from read_step [OF g ok st(2) pos] obtain n rp m' where
    adv: "tegra_ivc_read_advance b m = Inr (n, b\<lparr>r_pos := rp\<rparr>, m')"
      "m' = upd_hdr (tx_channel a) (\<lambda>h. h\<lparr>r_count := r_count h + 1\<rparr>) m"
      "Suc (pending a m') = pending a m" "dir_ok a (b\<lparr>r_pos := rp\<rparr>) m'" "unat rp = Suc ?r mod ?N" by blast
  have "ring_seg ?fs ?r (Suc (pending a m')) = ?fs ! ?r # ring_seg ?fs (Suc ?r mod ?N) (pending a m')"
    using r ring_seg_mod [of ?fs "Suc ?r" "pending a m'"] by (simp add: ring_seg_Cons)
  then have "f = ?fs ! ?r" "q = ring_seg (ivc_frames a m') (unat rp) (pending a m')"
    using some adv(3,5) by (simp_all add: ivc_contents_def adv(2))
  moreover have "?fs ! ?r = frame_at m (frame_slot a ?r)" using r by (simp add: ivc_frames_def)
  moreover have "ivc_link_inv (a, b\<lparr>r_pos := rp\<rparr>, m')"
    using g adv(4) st by (auto simp: ivc_link_inv_def adv(2) ivc_geom_def)
  ultimately show ?thesis using get adv(1) by (simp add: ivc_receive_def ivc_contents_def)
qed

lemma length_ivc_contents [simp]: "length (ivc_contents (a, b, m)) = pending a m"
  by (simp add: ivc_contents_def)

interpretation ivq: bounded_fifo ivc_link_inv ivc_contents ivc_capacity "\<lambda>_. True" ivc_send ivc_receive
proof
  fix s :: ivc_link and f :: bytes
  obtain a b m where s: "s = (a, b, m)" by (cases s)
  assume inv: "ivc_link_inv s"
  show "\<exists>s'. ivc_send f s = Some s' \<and> ivc_link_inv s' \<and> ivc_contents s' = ivc_contents s @ [f]
      \<and> ivc_capacity s' = ivc_capacity s" if "length (ivc_contents s) < ivc_capacity s"
    using ivc_send_room [of a b m f] inv that by (auto simp: s ivc_capacity_def)
  show "\<exists>s'. ivc_receive s = Some (f, s') \<and> ivc_link_inv s' \<and> ivc_contents s' = q
      \<and> ivc_capacity s' = ivc_capacity s" if "ivc_contents s = f # q" for q
    using ivc_receive_some [of a b m f q] inv that by (auto simp: s ivc_capacity_def)
  show "ivc_receive s = None" if "ivc_contents s = []"
  proof -
    from that have "pending a m = 0" unfolding s by (metis length_ivc_contents list.size(3))
    with inv read_empty [of a b m] show ?thesis
      by (simp add: s ivc_link_inv_def ivc_receive_def tegra_ivc_read_get_next_frame_def)
  qed
  show "ivc_send f s = None" if "ivc_capacity s \<le> length (ivc_contents s)"
    using inv that write_full [of m a]
    by (simp add: s ivc_link_inv_def ivc_capacity_def ivc_send_def tegra_ivc_write_get_next_frame_def)
qed

section \<open>The reset handshake\<close>

datatype ivc_state = Established | Sync | Ack

definition ivc_enc :: "ivc_state \<Rightarrow> u32" where
  "ivc_enc s = (case s of Established \<Rightarrow> ivc_state_established | Sync \<Rightarrow> ivc_state_sync | Ack \<Rightarrow> ivc_state_ack)"

lemma ivc_enc_inject [simp]: "ivc_enc s = ivc_enc t \<longleftrightarrow> s = t"
  by (cases s; cases t)
    (simp_all add: ivc_enc_def ivc_state_established_def ivc_state_sync_def ivc_state_ack_def)

text \<open>
  The transition table of the source's comment, from the local and the remote state: whether the
  counters are reset, and the state moved to; \<open>None\<close> is the entry \<open><none>\<close>, every other entry notifies.
\<close>

fun ivc_table :: "ivc_state \<Rightarrow> ivc_state \<Rightarrow> (bool \<times> ivc_state) option" where
  "ivc_table Sync Established = None"
| "ivc_table Sync Ack = Some (True, Established)"
| "ivc_table Sync Sync = Some (True, Ack)"
| "ivc_table Ack Established = Some (False, Established)"
| "ivc_table Ack Ack = Some (False, Established)"
| "ivc_table Ack Sync = Some (True, Ack)"
| "ivc_table Established Established = None"
| "ivc_table Established Ack = None"
| "ivc_table Established Sync = Some (True, Ack)"

definition apply_table :: "(bool \<times> ivc_state) option \<Rightarrow> tegra_ivc \<Rightarrow> ivc_mem \<Rightarrow> bool \<times> tegra_ivc \<times> ivc_mem" where
  "apply_table act a m = (case act of
     None \<Rightarrow> (False, a, m)
   | Some (reset, s) \<Rightarrow>
       (let (a', m') = (if reset then reset_counters a m else (a, m))
        in (True, a', set_tx_state a' (ivc_enc s) m')))"

definition next_state :: "ivc_state \<Rightarrow> ivc_state \<Rightarrow> ivc_state" where
  "next_state s t = (case ivc_table s t of None \<Rightarrow> s | Some (_, s') \<Rightarrow> s')"

lemma notified_by_table:
  assumes "ch_state (hdr m (tx_channel a)) = ivc_enc s" and "ch_state (hdr m (rx_channel a)) = ivc_enc t"
    and "rx_channel a \<noteq> tx_channel a"
  shows "tegra_ivc_channel_notified a m =
    (if next_state s t = Established then Inr () else Inl EAGAIN, apply_table (ivc_table s t) a m)"
proof -
  have d: "ivc_state_established = ivc_enc Established" "ivc_state_sync = ivc_enc Sync" "ivc_state_ack = ivc_enc Ack"
    by (simp_all add: ivc_enc_def)
  show ?thesis
    using assms
    by (cases s; cases t)
      (simp_all add: tegra_ivc_channel_notified_def d next_state_def apply_table_def reset_counters_def
        set_tx_state_def Let_def)
qed

text \<open>Both ends, the shared memory, and whether a notification to either end is outstanding.\<close>

record ivc_sys =
  end_a :: tegra_ivc
  end_b :: tegra_ivc
  shm :: ivc_mem
  irq_a :: bool
  irq_b :: bool

definition swap_ends :: "ivc_sys \<Rightarrow> ivc_sys" where
  "swap_ends s = \<lparr>end_a = end_b s, end_b = end_a s, shm = shm s, irq_a = irq_b s, irq_b = irq_a s\<rparr>"

text \<open>The steps of the first end; those of the second are the same with the ends exchanged.\<close>

inductive a_step :: "ivc_sys \<Rightarrow> ivc_sys \<Rightarrow> bool" where
  a_notified: "tegra_ivc_channel_notified (end_a s) (shm s) = (r, n, a', m') \<Longrightarrow>
     a_step s (s\<lparr>end_a := a', shm := m', irq_a := False, irq_b := (irq_b s \<or> n)\<rparr>)"
| a_reset: "tegra_ivc_channel_reset (end_a s) (shm s) = (n, a', m') \<Longrightarrow>
     a_step s (s\<lparr>end_a := a', shm := m', irq_b := (irq_b s \<or> n)\<rparr>)"
| a_write: "tegra_ivc_write_get_next_frame (end_a s) (shm s) = Some (Inr p) \<Longrightarrow>
     tegra_ivc_write_advance (end_a s) ((shm s)\<lparr>frame_at := (frame_at (shm s))(p := f)\<rparr>) = Inr (n, a', m') \<Longrightarrow>
     a_step s (s\<lparr>end_a := a', shm := m', irq_b := (irq_b s \<or> n)\<rparr>)"
| a_read: "tegra_ivc_read_advance (end_a s) (shm s) = Inr (n, a', m') \<Longrightarrow>
     a_step s (s\<lparr>end_a := a', shm := m', irq_b := (irq_b s \<or> n)\<rparr>)"

inductive_cases a_stepE: "a_step s t"

definition ivc_step :: "ivc_sys \<Rightarrow> ivc_sys \<Rightarrow> bool" where
  "ivc_step s t \<longleftrightarrow> a_step s t \<or> a_step (swap_ends s) (swap_ends t)"

inductive ivc_reach :: "ivc_sys \<Rightarrow> ivc_sys \<Rightarrow> bool" where
  reach_refl: "ivc_reach s s"
| reach_step: "ivc_reach s t \<Longrightarrow> ivc_step t u \<Longrightarrow> ivc_reach s u"

definition cleared :: "tegra_ivc \<Rightarrow> ivc_mem \<Rightarrow> bool" where
  "cleared a m \<longleftrightarrow> w_pos a = 0 \<and> r_pos a = 0 \<and> w_count (hdr m (tx_channel a)) = 0 \<and> r_count (hdr m (rx_channel a)) = 0"

definition pos_ok :: "tegra_ivc \<Rightarrow> bool" where
  "pos_ok a \<longleftrightarrow> w_pos a < nframes a \<and> r_pos a < nframes a"

text \<open>Which notifications must be outstanding while the handshake is under way.\<close>

fun irq_ok :: "ivc_state \<Rightarrow> ivc_state \<Rightarrow> bool \<Rightarrow> bool \<Rightarrow> bool" where
  "irq_ok Established Established pa pb \<longleftrightarrow> True"
| "irq_ok Sync Established pa pb \<longleftrightarrow> pb"
| "irq_ok Established Sync pa pb \<longleftrightarrow> pa"
| "irq_ok Ack Established pa pb \<longleftrightarrow> pa"
| "irq_ok Established Ack pa pb \<longleftrightarrow> pb"
| "irq_ok Ack Ack pa pb \<longleftrightarrow> False"
| "irq_ok _ _ pa pb \<longleftrightarrow> pa \<or> pb"

definition proto_ok :: "ivc_state \<Rightarrow> ivc_state \<Rightarrow> tegra_ivc \<Rightarrow> tegra_ivc \<Rightarrow> ivc_mem \<Rightarrow> bool" where
  "proto_ok sa sb a b m \<longleftrightarrow>
     ch_state (hdr m (tx_channel a)) = ivc_enc sa \<and> ch_state (hdr m (tx_channel b)) = ivc_enc sb \<and>
     (sa = Ack \<longrightarrow> cleared a m) \<and> (sb = Ack \<longrightarrow> cleared b m) \<and>
     (sa \<noteq> Sync \<and> sb \<noteq> Sync \<longrightarrow> dir_ok a b m \<and> dir_ok b a m)"

definition ivc_sys_inv :: "ivc_sys \<Rightarrow> bool" where
  "ivc_sys_inv s \<longleftrightarrow> ivc_geom (end_a s) (end_b s) \<and> pos_ok (end_a s) \<and> pos_ok (end_b s) \<and>
     (\<exists>sa sb. proto_ok sa sb (end_a s) (end_b s) (shm s) \<and> irq_ok sa sb (irq_a s) (irq_b s))"

lemma ivc_geom_sym: "ivc_geom a b \<Longrightarrow> ivc_geom b a"
  by (auto simp: ivc_geom_def)

lemma irq_ok_sym: "irq_ok sa sb pa pb \<Longrightarrow> irq_ok sb sa pb pa"
  by (cases sa; cases sb) auto

lemma ivc_sys_inv_swap: "ivc_sys_inv s \<Longrightarrow> ivc_sys_inv (swap_ends s)"
  unfolding ivc_sys_inv_def swap_ends_def proto_ok_def
  using ivc_geom_sym irq_ok_sym by simp blast

lemma swap_swap [simp]: "swap_ends (swap_ends s) = s"
  by (simp add: swap_ends_def)

lemma dir_ok_cleared:
  assumes "ivc_geom a b" and "cleared a m" and "cleared b m"
  shows "dir_ok a b m"
  using assms by (simp add: dir_ok_def cleared_def pending_def ivc_geom_def word_gt_0 unat_gt_0)

lemma reset_counters_cleared:
  assumes "reset_counters a m = (a', m')" and "ivc_geom a b"
  shows "cleared a' m'" "a' = a\<lparr>w_pos := 0, r_pos := 0\<rparr>" "cleared b m \<Longrightarrow> cleared b m'"
    "ch_state (hdr m' ch) = ch_state (hdr m ch)"
  using assms by (auto simp: reset_counters_def cleared_def ivc_geom_def)

lemma set_tx_state_simps [simp]:
  "cleared c (set_tx_state a s m) = cleared c m" "dir_ok c d (set_tx_state a s m) = dir_ok c d m"
  "ch_state (hdr (set_tx_state a s m) ch) = (if ch = tx_channel a then s else ch_state (hdr m ch))"
  by (simp_all add: set_tx_state_def cleared_def dir_ok_def pending_def)

lemma geom_update [simp]:
  "ivc_geom (a\<lparr>r_pos := x\<rparr>) b = ivc_geom a b"
  by (simp add: ivc_geom_def)

lemma pos_ok_zero: "ivc_geom a b \<Longrightarrow> pos_ok (a\<lparr>w_pos := 0, r_pos := 0\<rparr>)"
  by (simp add: pos_ok_def ivc_geom_def)

text \<open>A notification is handled: with a reset of the counters, without one, or not at all.\<close>

lemma table_reset_preserves:
  assumes "ivc_table sa sb = Some (True, sa')" and geom: "ivc_geom a b" and "proto_ok sa sb a b m"
    and "reset_counters a m = (a', m')"
  shows "proto_ok sa' sb a' b (set_tx_state a' (ivc_enc sa') m')"
proof -
  note r = reset_counters_cleared [OF assms(4) geom]
  have ne: "tx_channel b \<noteq> tx_channel a" using geom by (auto simp: ivc_geom_def)
  have geom': "ivc_geom a' b" using geom by (simp add: r(2))
  have cb: "cleared b m'" if "sb = Ack" using that assms(3) r(3) by (simp add: proto_ok_def)
  moreover have "dir_ok a' b m' \<and> dir_ok b a' m'" if "sb = Ack"
    using dir_ok_cleared [OF geom' r(1) cb] dir_ok_cleared [OF ivc_geom_sym [OF geom'] cb r(1)] that by blast
  moreover have "sb = Sync \<and> sa' = Ack \<or> sb = Ack \<and> sa' = Established"
    using assms(1) by (cases sa; cases sb) auto
  ultimately show ?thesis
    using assms(3) r(1,4) ne by (auto simp: proto_ok_def r(2))
qed

lemma table_move_preserves:
  assumes "ivc_table sa sb = Some (False, sa')" and "ivc_geom a b" and "proto_ok sa sb a b m"
  shows "proto_ok sa' sb a b (set_tx_state a (ivc_enc sa') m)"
proof -
  have "sa = Ack" "sb \<noteq> Sync" "sa' = Established" using assms(1) by (cases sa; cases sb; auto)+
  with assms show ?thesis by (auto simp: proto_ok_def ivc_geom_def)
qed

lemma irq_ok_notified:
  "irq_ok sa sb pa pb \<Longrightarrow> irq_ok (next_state sa sb) sb False (pb \<or> ivc_table sa sb \<noteq> None)"
  by (cases sa; cases sb) (auto simp: next_state_def)

lemma irq_ok_more: "irq_ok sa sb pa pb \<Longrightarrow> irq_ok sa sb pa (pb \<or> n)"
  by (cases sa; cases sb) auto

lemma irq_ok_reset: "irq_ok sa sb pa pb \<Longrightarrow> irq_ok Sync sb pa True"
  by (cases sb) auto

lemma notified_preserves:
  assumes "ivc_sys_inv s" and "tegra_ivc_channel_notified (end_a s) (shm s) = (r, n, a', m')"
  shows "ivc_sys_inv (s\<lparr>end_a := a', shm := m', irq_a := False, irq_b := (irq_b s \<or> n)\<rparr>)"
proof -
  let ?a = "end_a s" and ?b = "end_b s" and ?m = "shm s"
  from assms(1) obtain sa sb where geom: "ivc_geom ?a ?b" and pos: "pos_ok ?a" "pos_ok ?b"
    and pr: "proto_ok sa sb ?a ?b ?m" and irq: "irq_ok sa sb (irq_a s) (irq_b s)"
    by (auto simp: ivc_sys_inv_def)
  have "ch_state (hdr ?m (tx_channel ?a)) = ivc_enc sa" "ch_state (hdr ?m (rx_channel ?a)) = ivc_enc sb"
    "rx_channel ?a \<noteq> tx_channel ?a" using geom pr by (auto simp: proto_ok_def ivc_geom_def)
  from notified_by_table [OF this] assms(2) have app: "apply_table (ivc_table sa sb) ?a ?m = (n, a', m')" by simp
  have "proto_ok (next_state sa sb) sb a' ?b m' \<and> ivc_geom a' ?b \<and> pos_ok a' \<and> n = (ivc_table sa sb \<noteq> None)"
  proof (cases "ivc_table sa sb")
    case None
    with app pr geom pos show ?thesis by (simp add: apply_table_def next_state_def)
  next
    case (Some act)
    obtain reset sa' where act: "act = (reset, sa')" by (cases act)
    show ?thesis
    proof (cases reset)
      case True
      obtain m1 where rc: "reset_counters ?a ?m = (a', m1)" and m': "m' = set_tx_state a' (ivc_enc sa') m1" and n
        using app Some act True by (auto simp: apply_table_def split: prod.splits)
      then show ?thesis
        using table_reset_preserves [OF _ geom pr rc, of sa'] reset_counters_cleared(2) [OF rc geom] pos_ok_zero [OF geom]
          Some act True geom by (simp add: next_state_def)
    next
      case False
      with app Some act table_move_preserves [OF _ geom pr, of sa'] geom pos show ?thesis
        by (auto simp: apply_table_def next_state_def)
    qed
  qed
  with pos(2) irq_ok_notified [OF irq] show ?thesis by (auto simp: ivc_sys_inv_def)
qed

lemma reset_preserves:
  assumes "ivc_sys_inv s" and "tegra_ivc_channel_reset (end_a s) (shm s) = (n, a', m')"
  shows "ivc_sys_inv (s\<lparr>end_a := a', shm := m', irq_b := (irq_b s \<or> n)\<rparr>)"
proof -
  let ?a = "end_a s" and ?b = "end_b s" and ?m = "shm s"
  from assms(1) obtain sa sb where inv: "ivc_geom ?a ?b" "pos_ok ?a" "pos_ok ?b"
    and pr: "proto_ok sa sb ?a ?b ?m" and irq: "irq_ok sa sb (irq_a s) (irq_b s)"
    by (auto simp: ivc_sys_inv_def)
  from assms(2) have *: "n" "a' = ?a" "m' = set_tx_state ?a (ivc_enc Sync) ?m"
    by (auto simp: tegra_ivc_channel_reset_def ivc_enc_def)
  have "proto_ok Sync sb ?a ?b m'" using pr inv(1) by (auto simp: * proto_ok_def ivc_geom_def)
  with inv irq_ok_reset [OF irq] show ?thesis by (auto simp: ivc_sys_inv_def *)
qed

text \<open>A transfer leaves the states and the words of the other end alone.\<close>

lemma transfer_preserves:
  assumes "ivc_sys_inv s" and "ch_state (hdr (shm s) (tx_channel (end_a s))) = ivc_state_established"
    and geom: "ivc_geom a' (end_b s)" and "tx_channel a' = tx_channel (end_a s)" and "pos_ok a'"
    and st: "\<And>ch. ch_state (hdr m' ch) = ch_state (hdr (shm s) ch)"
    and own: "w_count (hdr m' (tx_channel (end_b s))) = w_count (hdr (shm s) (tx_channel (end_b s)))"
      "r_count (hdr m' (rx_channel (end_b s))) = r_count (hdr (shm s) (rx_channel (end_b s)))"
    and dirs: "dir_ok (end_a s) (end_b s) (shm s) \<Longrightarrow> dir_ok (end_b s) (end_a s) (shm s) \<Longrightarrow>
      dir_ok a' (end_b s) m' \<and> dir_ok (end_b s) a' m'"
  shows "ivc_sys_inv (s\<lparr>end_a := a', shm := m', irq_b := (irq_b s \<or> n)\<rparr>)"
proof -
  from assms(1) obtain sa sb where pos: "pos_ok (end_b s)"
    and pr: "proto_ok sa sb (end_a s) (end_b s) (shm s)" and irq: "irq_ok sa sb (irq_a s) (irq_b s)"
    by (auto simp: ivc_sys_inv_def)
  have "ivc_enc sa = ivc_enc Established" using pr assms(2) by (simp add: proto_ok_def ivc_enc_def)
  then have "sa = Established" by simp
  then have "proto_ok sa sb a' (end_b s) m'"
    using pr st own dirs assms(4) by (auto simp: proto_ok_def cleared_def)
  with geom assms(5) pos irq_ok_more [OF irq] show ?thesis by (auto simp: ivc_sys_inv_def)
qed

lemma pos_ok_advance:
  assumes "pos_ok a"
  shows "pos_ok (fst (tegra_ivc_advance_tx a m))" and "pos_ok (fst (tegra_ivc_advance_rx a m))"
proof -
  have "unat (if p = nframes a - 1 then 0 else p + 1) < unat (nframes a)" if "p < nframes a" for p
    using advance_pos [of p "nframes a"] that by (simp add: word_less_nat_alt)
  from this [of "w_pos a"] this [of "r_pos a"] assms
  show "pos_ok (fst (tegra_ivc_advance_tx a m))" "pos_ok (fst (tegra_ivc_advance_rx a m))"
    by (auto simp: pos_ok_def tegra_ivc_advance_tx_def tegra_ivc_advance_rx_def word_less_nat_alt)
qed

lemma write_preserves:
  assumes inv: "ivc_sys_inv s"
    and adv: "tegra_ivc_write_advance (end_a s) ((shm s)\<lparr>frame_at := fs\<rparr>) = Inr (n, a', m')"
  shows "ivc_sys_inv (s\<lparr>end_a := a', shm := m', irq_b := (irq_b s \<or> n)\<rparr>)"
proof -
  let ?a = "end_a s" and ?b = "end_b s" and ?m = "(shm s)\<lparr>frame_at := fs\<rparr>"
  from inv have geom: "ivc_geom ?a ?b" and pos: "pos_ok ?a" by (auto simp: ivc_sys_inv_def)
  from adv have chk: "tegra_ivc_check_write ?a ?m = Inr ()" and am: "(a', m') = tegra_ivc_advance_tx ?a ?m"
    by (auto simp: tegra_ivc_write_advance_def split: sum.splits prod.splits)
  then have st: "ch_state (hdr (shm s) (tx_channel ?a)) = ivc_state_established"
    and room: "pending ?a ?m < unat (nframes ?a)"
    by (auto simp: tegra_ivc_check_write_def tegra_ivc_channel_full_def pending_def word_le_nat_alt split: if_splits)
  from am obtain wp where a': "a' = ?a\<lparr>w_pos := wp\<rparr>"
    and m': "m' = upd_hdr (tx_channel ?a) (\<lambda>h. h\<lparr>w_count := w_count h + 1\<rparr>) ?m"
    by (auto simp: tegra_ivc_advance_tx_def split: if_splits)
  have "dir_ok a' ?b m' \<and> dir_ok ?b a' m'" if "dir_ok ?a ?b (shm s)" "dir_ok ?b ?a (shm s)"
  proof
    show "dir_ok a' ?b m'" using write_step [OF geom, of ?m] that(1) st room adv by auto
    show "dir_ok ?b a' m'" using that(2) geom by (auto simp: dir_ok_def pending_def a' m' ivc_geom_def)
  qed
  moreover have "pos_ok a'" using pos_ok_advance(1) [OF pos, of ?m] by (simp flip: am)
  ultimately show ?thesis
    using inv st geom by (intro transfer_preserves) (auto simp: a' m' ivc_geom_def)
qed

lemma read_preserves:
  assumes inv: "ivc_sys_inv s" and adv: "tegra_ivc_read_advance (end_a s) (shm s) = Inr (n, a', m')"
  shows "ivc_sys_inv (s\<lparr>end_a := a', shm := m', irq_b := (irq_b s \<or> n)\<rparr>)"
proof -
  let ?a = "end_a s" and ?b = "end_b s" and ?m = "shm s"
  from inv have geom: "ivc_geom ?b ?a" and pos: "pos_ok ?a" by (auto simp: ivc_sys_inv_def intro: ivc_geom_sym)
  from adv have chk: "tegra_ivc_check_read ?a ?m = Inr ()" and am: "(a', m') = tegra_ivc_advance_rx ?a ?m"
    by (auto simp: tegra_ivc_read_advance_def split: sum.splits prod.splits)
  then have st: "ch_state (hdr ?m (tx_channel ?a)) = ivc_state_established"
    by (auto simp: tegra_ivc_check_read_def split: if_splits)
  from am obtain rp where a': "a' = ?a\<lparr>r_pos := rp\<rparr>"
    and m': "m' = upd_hdr (rx_channel ?a) (\<lambda>h. h\<lparr>r_count := r_count h + 1\<rparr>) ?m"
    by (auto simp: tegra_ivc_advance_rx_def split: if_splits)
  have "dir_ok a' ?b m' \<and> dir_ok ?b a' m'" if "dir_ok ?a ?b ?m" "dir_ok ?b ?a ?m"
  proof
    show "dir_ok a' ?b m'" using that(1) geom by (auto simp: dir_ok_def pending_def a' m' ivc_geom_def)
    have "0 < pending ?b ?m" using read_empty [OF geom that(2) st] chk by (auto split: if_splits)
    then show "dir_ok ?b a' m'" using read_step [OF geom that(2) st] adv by auto
  qed
  moreover have "pos_ok a'" using pos_ok_advance(2) [OF pos, of ?m] by (simp flip: am)
  ultimately show ?thesis
    using inv st geom ivc_geom_sym [OF geom] by (intro transfer_preserves) (auto simp: a' m' ivc_geom_def)
qed

lemma a_step_preserves: "a_step s t \<Longrightarrow> ivc_sys_inv s \<Longrightarrow> ivc_sys_inv t"
  by (induction rule: a_step.induct)
    (auto intro: notified_preserves reset_preserves write_preserves read_preserves)

lemma ivc_reach_inv: "ivc_reach s t \<Longrightarrow> ivc_sys_inv s \<Longrightarrow> ivc_sys_inv t"
proof (induction rule: ivc_reach.induct)
  case (reach_step s t u)
  then show ?case
    unfolding ivc_step_def by (metis a_step_preserves ivc_sys_inv_swap swap_swap)
qed

lemma unat_product:
  "unat ((ucast (n :: u32) :: u64) * ucast (f :: u32)) = unat n * unat f"
proof -
  have "unat n * unat f \<le> (2 ^ 32 - 1) * (2 ^ 32 - 1)"
    using unat_lt_exp [of n] unat_lt_exp [of f] by (intro mult_le_mono) simp_all
  then have "unat n * unat f < 2 ^ 64" by simp
  then show ?thesis by (simp add: unat_word_ariths width_simps)
qed

lemma init_geom:
  assumes "tegra_ivc_init (Some x) rxb txb n f = Inr a" and "tegra_ivc_init (Some y) txb rxb n f = Inr b"
    and "0 < n" and "0 < f" and "rxb \<noteq> txb"
  shows "ivc_geom a b" "pos_ok a" "pos_ok b"
proof -
  from assms(1) have "\<not> 0x100000000 \<le> (ucast n :: u64) * ucast f"
    by (auto simp: tegra_ivc_init_def check_ivc_params_def split: if_splits sum.splits)
  then have "unat n * unat f < 2 ^ 32" by (simp add: word_le_nat_alt unat_product)
  then show "ivc_geom a b" "pos_ok a" "pos_ok b"
    using assms by (auto simp: tegra_ivc_init_def ivc_geom_def pos_ok_def mult.commute split: sum.splits)
qed

text \<open>Both ends have just called \<open>tegra_ivc_channel_reset\<close> on memory with any contents.\<close>

definition after_resets :: "tegra_ivc \<Rightarrow> tegra_ivc \<Rightarrow> ivc_mem \<Rightarrow> ivc_sys" where
  "after_resets a b m =
     (let (na, a', m1) = tegra_ivc_channel_reset a m;
          (nb, b', m2) = tegra_ivc_channel_reset b m1
      in \<lparr>end_a = a', end_b = b', shm = m2, irq_a = nb, irq_b = na\<rparr>)"

lemma after_resets_inv:
  assumes "ivc_geom a b" and "pos_ok a" and "pos_ok b"
  shows "ivc_sys_inv (after_resets a b m)"
proof -
  have "proto_ok Sync Sync a b (set_tx_state b ivc_state_sync (set_tx_state a ivc_state_sync m))"
    using assms(1) by (simp add: proto_ok_def ivc_enc_def ivc_geom_def)
  then show ?thesis
    using assms unfolding ivc_sys_inv_def after_resets_def tegra_ivc_channel_reset_def
    by (auto simp: Let_def intro!: exI [of _ Sync])
qed

definition notify_a :: "ivc_sys \<Rightarrow> ivc_sys" where
  "notify_a s = (let (r, n, a, m) = tegra_ivc_channel_notified (end_a s) (shm s)
     in s\<lparr>end_a := a, shm := m, irq_a := False, irq_b := (irq_b s \<or> n)\<rparr>)"

definition notify_b :: "ivc_sys \<Rightarrow> ivc_sys" where
  "notify_b s = swap_ends (notify_a (swap_ends s))"

definition states :: "ivc_sys \<Rightarrow> u32 \<times> u32" where
  "states s = (ch_state (hdr (shm s) (tx_channel (end_a s))), ch_state (hdr (shm s) (tx_channel (end_b s))))"

lemma notify_a_states:
  assumes "ivc_sys_inv s" and "states s = (ivc_enc sa, ivc_enc sb)"
  shows "ivc_sys_inv (notify_a s) \<and> states (notify_a s) = (ivc_enc (next_state sa sb), ivc_enc sb)"
proof
  obtain r n a' m' where n: "tegra_ivc_channel_notified (end_a s) (shm s) = (r, n, a', m')"
    by (metis prod_cases4)
  with notified_preserves [OF assms(1) n] show "ivc_sys_inv (notify_a s)" by (simp add: notify_a_def)
  have geom: "ivc_geom (end_a s) (end_b s)" using assms(1) by (simp add: ivc_sys_inv_def)
  have "apply_table (ivc_table sa sb) (end_a s) (shm s) = (n, a', m')"
    using notified_by_table [of "shm s" "end_a s" sa sb] n assms(2) geom by (auto simp: states_def ivc_geom_def)
  then show "states (notify_a s) = (ivc_enc (next_state sa sb), ivc_enc sb)"
    using assms(2) geom
    by (cases "ivc_table sa sb")
      (auto simp: notify_a_def n states_def apply_table_def next_state_def reset_counters_def ivc_geom_def
        split: if_splits)
qed

lemma notify_b_states:
  assumes "ivc_sys_inv s" and "states s = (ivc_enc sa, ivc_enc sb)"
  shows "ivc_sys_inv (notify_b s) \<and> states (notify_b s) = (ivc_enc sa, ivc_enc (next_state sb sa))"
  using notify_a_states [OF ivc_sys_inv_swap [OF assms(1)], of sb sa] assms(2)
  by (auto simp: notify_b_def states_def swap_ends_def intro: ivc_sys_inv_swap [of "notify_a _", unfolded swap_ends_def])

lemma ivc_sys_inv_states: "ivc_sys_inv s \<Longrightarrow> \<exists>sa sb. states s = (ivc_enc sa, ivc_enc sb)"
  by (auto simp: ivc_sys_inv_def states_def proto_ok_def)

lemma established_links:
  assumes "ivc_sys_inv s" and "states s = (ivc_state_established, ivc_state_established)"
  shows "ivc_link_inv (end_a s, end_b s, shm s) \<and> ivc_link_inv (end_b s, end_a s, shm s)"
proof -
  from assms(1) obtain sa sb where geom: "ivc_geom (end_a s) (end_b s)"
    and pr: "proto_ok sa sb (end_a s) (end_b s) (shm s)" by (auto simp: ivc_sys_inv_def)
  moreover have "ivc_enc sa = ivc_enc Established" "ivc_enc sb = ivc_enc Established"
    using pr assms(2) by (simp_all add: proto_ok_def states_def ivc_enc_def)
  then have "sa = Established" "sb = Established" by simp_all
  ultimately show ?thesis
    using ivc_geom_sym [OF geom] by (simp add: ivc_link_inv_def proto_ok_def ivc_enc_def)
qed

lemma quiescent_established:
  assumes "ivc_sys_inv s" and "\<not> irq_a s" and "\<not> irq_b s"
  shows "states s = (ivc_state_established, ivc_state_established)"
proof -
  from assms(1) obtain sa sb where pr: "proto_ok sa sb (end_a s) (end_b s) (shm s)"
    and "irq_ok sa sb (irq_a s) (irq_b s)" by (auto simp: ivc_sys_inv_def)
  then have "sa = Established" "sb = Established" using assms(2,3) by (cases sa; cases sb; simp)+
  with pr show ?thesis by (simp add: states_def proto_ok_def ivc_enc_def)
qed

section \<open>Properties of the library\<close>

definition demo_end_a :: tegra_ivc where
  "demo_end_a = \<lparr>rx_channel = 0x1000, tx_channel = 0x2000, r_pos = 0, w_pos = 0, nframes = 4, frame_size = 64\<rparr>"

definition demo_end_b :: tegra_ivc where
  "demo_end_b = \<lparr>rx_channel = 0x2000, tx_channel = 0x1000, r_pos = 0, w_pos = 0, nframes = 4, frame_size = 64\<rparr>"

definition demo_shm :: ivc_mem where
  "demo_shm = \<lparr>hdr = (\<lambda>_. \<lparr>w_count = 0xFFFFFFFF, ch_state = 0, r_count = 0xFFFFFFFF\<rparr>), frame_at = (\<lambda>_. [])\<rparr>"

lemma demo_init:
  "tegra_ivc_init (Some demo_end_a) 0x1000 0x2000 4 64 = Inr demo_end_a"
  "tegra_ivc_init (Some demo_end_a) 0x2000 0x1000 4 64 = Inr demo_end_b"
  by (simp_all add: tegra_ivc_init_def check_ivc_params_def TEGRA_IVC_ALIGN_def demo_end_a_def demo_end_b_def)

lemma demo_link: "ivc_link_inv (demo_end_a, demo_end_b, demo_shm)" "ivc_contents (demo_end_a, demo_end_b, demo_shm) = []"
  by (simp_all add: ivc_link_inv_def ivc_geom_def dir_ok_def pending_def ivc_contents_def demo_end_a_def
      demo_end_b_def demo_shm_def ivc_state_established_def)



text \<open>
  \<open>tegra_ivc_channel_notified\<close> implements the transition table in its comment: for every pair of
  local and remote states it resets the counters it owns, moves and notifies as the table says,
  and returns \<open>-EAGAIN\<close> exactly when the end is not established afterwards.
\<close>

theorem ivc_notified_implements_table:
  assumes "ch_state (hdr m (tx_channel a)) = ivc_enc s" and "ch_state (hdr m (rx_channel a)) = ivc_enc t"
    and "rx_channel a \<noteq> tx_channel a"
  shows "tegra_ivc_channel_notified a m =
    (if next_state s t = Established then Inr () else Inl EAGAIN, apply_table (ivc_table s t) a m)"
  using assms by (rule notified_by_table)

theorem ivc_notified_implements_table_witness:
  "fst (tegra_ivc_channel_notified demo_end_a (set_tx_state demo_end_b ivc_state_sync demo_shm)) = Inl EAGAIN"
  using ivc_notified_implements_table [of "set_tx_state demo_end_b ivc_state_sync demo_shm" demo_end_a Established Sync]
  by (simp add: demo_end_a_def demo_end_b_def demo_shm_def ivc_enc_def ivc_state_established_def next_state_def)

lemma notify_a_step: "a_step s (notify_a s)"
proof -
  obtain r n a m where "tegra_ivc_channel_notified (end_a s) (shm s) = (r, n, a, m)" by (metis prod_cases4)
  then show ?thesis using a_notified by (simp add: notify_a_def)
qed

lemma notify_reach:
  "ivc_reach s t \<Longrightarrow> ivc_reach s (notify_a t)" "ivc_reach s t \<Longrightarrow> ivc_reach s (notify_b t)"
  using notify_a_step [of t] notify_a_step [of "swap_ends t"]
  by (auto intro: reach_step simp: ivc_step_def notify_b_def)

lemma handshake_rounds:
  assumes "ivc_sys_inv s"
  shows "ivc_sys_inv (notify_b (notify_a (notify_b (notify_a s))))
    \<and> states (notify_b (notify_a (notify_b (notify_a s)))) = (ivc_state_established, ivc_state_established)"
proof -
  obtain sa sb where s: "states s = (ivc_enc sa, ivc_enc sb)" using ivc_sys_inv_states [OF assms] by blast
  note 1 = notify_a_states [OF assms s]
  note 2 = notify_b_states [OF 1 [THEN conjunct1] 1 [THEN conjunct2]]
  note 3 = notify_a_states [OF 2 [THEN conjunct1] 2 [THEN conjunct2]]
  note 4 = notify_b_states [OF 3 [THEN conjunct1] 3 [THEN conjunct2]]
  obtain sa' sb' where irq: "irq_ok sa' sb' (irq_a s) (irq_b s)" "ivc_enc sa' = ivc_enc sa" "ivc_enc sb' = ivc_enc sb"
    using assms s by (auto simp: ivc_sys_inv_def proto_ok_def states_def)
  then have "\<not> (sa = Ack \<and> sb = Ack)" by auto
  with 4 show ?thesis by (cases sa; cases sb) (simp_all add: next_state_def ivc_enc_def)
qed






text \<open>
  The overlap test forgets the channel headers. Every pair of aligned regions that are
  exactly the frames apart is accepted, yet the last frame of the first channel then contains
  the start of the second channel's header.
\<close>

theorem ivc_params_header_overlap:
  assumes "unat n * unat f < 2 ^ 32" and "0 < n" and "128 < f" and "f AND 63 = 0" and "q AND 63 = 0"
    and "(q + ucast (f * n)) AND 63 = 0" and "unat q + unat f * unat n + 128 < 2 ^ 64"
  shows "\<exists>a p. tegra_ivc_init (Some x) (q + ucast (f * n)) q n f = Inr a
    \<and> tegra_ivc_frame_addr a (tx_channel a) (n - 1) = Some p
    \<and> p \<le> rx_channel a \<and> rx_channel a < p + ucast f"
proof -
  let ?o = "ucast (f * n) :: u64"
  let ?a = "\<lparr>rx_channel = q + ?o, tx_channel = q, r_pos = 0, w_pos = 0, nframes = n, frame_size = f\<rparr>"
  have fn: "unat (f * n) = unat f * unat n" using assms(1) by (simp add: unat_word_ariths mult.commute)
  have o: "unat (q + ?o) = unat q + unat f * unat n"
    using assms(7) fn by (simp add: unat_word_ariths width_simps)
  have n1: "unat (n - 1) = unat n - 1" "0 < unat n" using assms(2) by (auto simp: unat_minus_one unat_gt_0 word_gt_0)
  have f: "128 < unat f" using assms(3) by (simp add: word_less_nat_alt)
  have lt: "unat f * (unat n - 1) + unat f = unat f * unat n" using n1(2) by (cases "unat n") (simp_all add: algebra_simps)
  have "unat (f * (n - 1)) = unat f * (unat n - 1)"
    using n1 lt assms(1) by (simp add: unat_word_ariths mult.commute)
  then have p: "unat (q + header_size + ucast (f * (n - 1))) = unat q + 128 + unat f * (unat n - 1)"
    using assms(7) lt by (simp add: unat_word_ariths width_simps header_size_def TEGRA_IVC_ALIGN_def)
  have "tegra_ivc_init (Some x) (q + ?o) q n f = Inr ?a"
    using assms(1,4-6) o unat_product [of n f]
    by (auto simp: tegra_ivc_init_def check_ivc_params_def TEGRA_IVC_ALIGN_def word_le_nat_alt word_less_nat_alt)
  moreover have "tegra_ivc_frame_addr ?a q (n - 1) = Some (q + header_size + ucast (f * (n - 1)))"
    using n1 by (simp add: tegra_ivc_frame_addr_def word_le_nat_alt)
  moreover have "q + header_size + ucast (f * (n - 1)) \<le> q + ?o"
    using p o f lt by (simp add: word_le_nat_alt)
  moreover have "q + ?o < q + header_size + ucast (f * (n - 1)) + ucast f"
    using p o lt assms(7) f unat_word_ariths(1) [of "q + header_size + ucast (f * (n - 1))" "ucast f"]
    by (simp add: word_less_nat_alt width_simps)
  ultimately show ?thesis by fastforce
qed

theorem ivc_params_header_overlap_witness:
  "\<exists>a p. tegra_ivc_init (Some demo_end_a) 0x1400 0x1000 4 256 = Inr a
    \<and> tegra_ivc_frame_addr a (tx_channel a) 3 = Some p \<and> p \<le> rx_channel a \<and> rx_channel a < p + 256"
  using ivc_params_header_overlap [of 4 256 "0x1000" demo_end_a] by simp

end
