(* ===== verification/Hsp.thy ===== *)
theory Hsp
  imports Ivc
begin

text \<open>
  Hardware synchronisation primitives of the Tegra X2 (\<open>src/libtx2bpmp/src/hsp.c\<close>,
  \<open>include/tx2bpmp/hsp.h\<close>): the doorbells by which the processors signal each other.

  The driver obtains memory, the device tree and register mappings from the platform library, which
  is a parameter: a \<open>platform\<close> answers each call, depending on how many calls came before, and
  a \<open>walker\<close> calls back for the register regions of a device tree node. The state records what was
  obtained and not yet given back. Private data is found by its address; a null pointer, an
  address without data and a register outside the mapped regions are \<open>None\<close>, as are failed
  assertions and fatal logs. Doorbell numbers are the unsigned integers behind the enumeration.
\<close>

section \<open>The platform\<close>

record pmem_region =
  base_addr :: u64
  pm_length :: u64

record platform =
  pf_calloc :: "nat \<Rightarrow> u64 option"
  pf_free :: "nat \<Rightarrow> bool"
  pf_pmem_map :: "nat \<Rightarrow> pmem_region \<Rightarrow> u64"
  pf_read_path :: "nat \<Rightarrow> string \<Rightarrow> nat option"
  pf_cleanup :: "nat \<Rightarrow> bool"
  pf_register :: "nat \<Rightarrow> errno option"

record tx2_hsp_priv =
  hsp_base :: u64
  doorbell_base :: u64
  tx2_hsp_region :: pmem_region

record tx2_state =
  calls :: nat
  allocated :: "u64 list"
  mapped :: "(u64 \<times> u64) list"
  cookies :: "nat list"
  priv_at :: "u64 \<rightharpoonup> tx2_hsp_priv"
  regs :: "u64 \<Rightarrow> u32"

type_synonym 's walker = "nat \<Rightarrow> (pmem_region \<Rightarrow> nat \<Rightarrow> nat \<Rightarrow> 's \<Rightarrow> (errno option \<times> 's) option) \<Rightarrow> 's \<Rightarrow> (errno option \<times> 's) option"

definition ps_calloc :: "platform \<Rightarrow> 'm tx2_state_scheme \<Rightarrow> u64 option \<times> 'm tx2_state_scheme" where
  "ps_calloc pf s = (case pf_calloc pf (calls s) of
     None \<Rightarrow> (None, s\<lparr>calls := Suc (calls s)\<rparr>)
   | Some p \<Rightarrow> (Some p, s\<lparr>calls := Suc (calls s), allocated := p # allocated s\<rparr>))"

definition ps_free :: "platform \<Rightarrow> u64 \<Rightarrow> 'm tx2_state_scheme \<Rightarrow> 'm tx2_state_scheme option" where
  "ps_free pf p s = (if pf_free pf (calls s) then Some (s\<lparr>calls := Suc (calls s), allocated := remove1 p (allocated s)\<rparr>) else None)"

definition ps_pmem_map :: "platform \<Rightarrow> pmem_region \<Rightarrow> 'm tx2_state_scheme \<Rightarrow> u64 \<times> 'm tx2_state_scheme" where
  "ps_pmem_map pf r s =
     (let v = pf_pmem_map pf (calls s) r
      in (v, s\<lparr>calls := Suc (calls s), mapped := (if v = 0 then mapped s else (v, pm_length r) # mapped s)\<rparr>))"

definition ps_io_unmap :: "u64 \<Rightarrow> u64 \<Rightarrow> 'm tx2_state_scheme \<Rightarrow> 'm tx2_state_scheme" where
  "ps_io_unmap v n s = s\<lparr>calls := Suc (calls s), mapped := remove1 (v, n) (mapped s)\<rparr>"

definition ps_fdt_read_path :: "platform \<Rightarrow> string \<Rightarrow> 'm tx2_state_scheme \<Rightarrow> nat option \<times> 'm tx2_state_scheme" where
  "ps_fdt_read_path pf path s = (case pf_read_path pf (calls s) path of
     None \<Rightarrow> (None, s\<lparr>calls := Suc (calls s)\<rparr>)
   | Some c \<Rightarrow> (Some c, s\<lparr>calls := Suc (calls s), cookies := c # cookies s\<rparr>))"

definition ps_fdt_cleanup_cookie :: "platform \<Rightarrow> nat \<Rightarrow> 'm tx2_state_scheme \<Rightarrow> bool \<times> 'm tx2_state_scheme" where
  "ps_fdt_cleanup_cookie pf c s =
     (if pf_cleanup pf (calls s) then (True, s\<lparr>calls := Suc (calls s), cookies := remove1 c (cookies s)\<rparr>)
      else (False, s\<lparr>calls := Suc (calls s)\<rparr>))"

text \<open>An access to a word of device memory must lie in a mapped region.\<close>

definition accessible :: "'m tx2_state_scheme \<Rightarrow> u64 \<Rightarrow> bool" where
  "accessible s a = list_ex (\<lambda>(v, n). unat v \<le> unat a \<and> unat a + 4 \<le> unat v + unat n) (mapped s)"

definition reg_read :: "'m tx2_state_scheme \<Rightarrow> u64 \<Rightarrow> u32 option" where
  "reg_read s a = (if accessible s a then Some (regs s a) else None)"

definition reg_write :: "u64 \<Rightarrow> u32 \<Rightarrow> 'm tx2_state_scheme \<Rightarrow> 'm tx2_state_scheme option" where
  "reg_write a v s = (if accessible s a then Some (s\<lparr>regs := (regs s)(a := v)\<rparr>) else None)"

section \<open>Doorbells\<close>

definition HSP_INT_DIMENSION_OFFSET :: u64 where "HSP_INT_DIMENSION_OFFSET = 0x380"
definition HSP_INT_DIMENSION_SM_SHIFT :: nat where "HSP_INT_DIMENSION_SM_SHIFT = 0"
definition HSP_INT_DIMENSION_SS_SHIFT :: nat where "HSP_INT_DIMENSION_SS_SHIFT = 4"
definition HSP_INT_DIMENSION_AS_SHIFT :: nat where "HSP_INT_DIMENSION_AS_SHIFT = 8"
definition HSP_INT_DIMENSION_NUM_MASK :: u32 where "HSP_INT_DIMENSION_NUM_MASK = 0xf"
definition HSP_DOORBELL_BLOCK_STRIDE :: u32 where "HSP_DOORBELL_BLOCK_STRIDE = 0x100"
definition HSP_BITMAP_TZ_NONSECURE_SHIFT :: nat where "HSP_BITMAP_TZ_NONSECURE_SHIFT = 16"

datatype dbell_reg_offset = DBELL_TRIGGER | DBELL_ENABLE | DBELL_RAW | DBELL_PENDING

fun dbell_reg_val :: "dbell_reg_offset \<Rightarrow> u64" where
  "dbell_reg_val DBELL_TRIGGER = 0x0"
| "dbell_reg_val DBELL_ENABLE = 0x4"
| "dbell_reg_val DBELL_RAW = 0x8"
| "dbell_reg_val DBELL_PENDING = 0xc"

datatype dbell_bitmap_offset = CCPLEX_BIT | DPMU_BIT | BPMP_BIT | SPE_BIT | CPE_BIT | DMA_BIT | TSECA_BIT | TSECB_BIT
  | JTAGM_BIT | CSITE_BIT | APE_BIT

fun dbell_bit :: "dbell_bitmap_offset \<Rightarrow> nat" where
  "dbell_bit CCPLEX_BIT = 1"
| "dbell_bit DPMU_BIT = 2"
| "dbell_bit BPMP_BIT = 3"
| "dbell_bit SPE_BIT = 4"
| "dbell_bit CPE_BIT = 5"
| "dbell_bit DMA_BIT = 6"
| "dbell_bit TSECA_BIT = 7"
| "dbell_bit TSECB_BIT = 8"
| "dbell_bit JTAGM_BIT = 9"
| "dbell_bit CSITE_BIT = 10"
| "dbell_bit APE_BIT = 11"

text \<open>\<open>SCE_BIT\<close> is another name of \<open>CPE_BIT\<close>.\<close>

abbreviation SCE_BIT :: dbell_bitmap_offset where "SCE_BIT \<equiv> CPE_BIT"

definition CCPLEX_PM_DBELL :: u32 where "CCPLEX_PM_DBELL = 0"
definition CCPLEX_TZ_UNSECURE_DBELL :: u32 where "CCPLEX_TZ_UNSECURE_DBELL = 1"
definition CCPLEX_TZ_SECURE_DBELL :: u32 where "CCPLEX_TZ_SECURE_DBELL = 2"
definition BPMP_DBELL :: u32 where "BPMP_DBELL = 3"
definition SPE_DBELL :: u32 where "SPE_DBELL = 4"
definition SCE_DBELL :: u32 where "SCE_DBELL = 5"
definition APE_DBELL :: u32 where "APE_DBELL = 6"

lemmas dbell_defs = CCPLEX_PM_DBELL_def CCPLEX_TZ_UNSECURE_DBELL_def CCPLEX_TZ_SECURE_DBELL_def BPMP_DBELL_def
  SPE_DBELL_def SCE_DBELL_def APE_DBELL_def

definition check_doorbell_id_is_valid :: "u32 \<Rightarrow> bool" where
  "check_doorbell_id_is_valid db_id = (if CCPLEX_PM_DBELL \<le> db_id \<and> db_id \<le> APE_DBELL then True else False)"

definition hsp_get_doorbell_register :: "tx2_hsp_priv \<Rightarrow> u32 \<Rightarrow> dbell_reg_offset \<Rightarrow> u64" where
  "hsp_get_doorbell_register hsp db_id offset =
     doorbell_base hsp + ucast (db_id * HSP_DOORBELL_BLOCK_STRIDE) + dbell_reg_val offset"

definition hsp_destroy :: "platform \<Rightarrow> u64 \<Rightarrow> 'm tx2_state_scheme \<Rightarrow> (errno option \<times> 'm tx2_state_scheme) option" where
  "hsp_destroy pf data s = do {
     hsp_priv \<leftarrow> priv_at s data;
     let s1 = (if hsp_base hsp_priv \<noteq> 0 then ps_io_unmap (hsp_base hsp_priv) (pm_length (tx2_hsp_region hsp_priv)) s else s);
     s2 \<leftarrow> ps_free pf data s1;
     Some (None, s2\<lparr>priv_at := (priv_at s2)(data := None)\<rparr>) }"

definition hsp_doorbell_ring :: "u64 \<Rightarrow> u32 \<Rightarrow> 'm tx2_state_scheme \<Rightarrow> (errno option \<times> 'm tx2_state_scheme) option" where
  "hsp_doorbell_ring data db_id s =
     (if \<not> check_doorbell_id_is_valid db_id then Some (Some EINVAL, s)
      else do {
        hsp_priv \<leftarrow> priv_at s data;
        s1 \<leftarrow> reg_write (hsp_get_doorbell_register hsp_priv db_id DBELL_TRIGGER) 1 s;
        Some (None, s1) })"

text \<open>The switch over the valid doorbells; the default case is fatal.\<close>

definition doorbell_bitmap :: "u32 \<Rightarrow> dbell_bitmap_offset option" where
  "doorbell_bitmap db_id =
     (if db_id = CCPLEX_PM_DBELL \<or> db_id = CCPLEX_TZ_UNSECURE_DBELL \<or> db_id = CCPLEX_TZ_SECURE_DBELL then Some CCPLEX_BIT
      else if db_id = BPMP_DBELL then Some BPMP_BIT
      else if db_id = SPE_DBELL then Some SPE_BIT
      else if db_id = SCE_DBELL then Some SCE_BIT
      else if db_id = APE_DBELL then Some APE_BIT
      else None)"

definition hsp_doorbell_check :: "u64 \<Rightarrow> u32 \<Rightarrow> 'm tx2_state_scheme \<Rightarrow> ((errno + bool) \<times> 'm tx2_state_scheme) option" where
  "hsp_doorbell_check data db_id s =
     (if \<not> check_doorbell_id_is_valid db_id then Some (Inl EINVAL, s)
      else do {
        hsp_priv \<leftarrow> priv_at s data;
        let pending_reg = hsp_get_doorbell_register hsp_priv db_id DBELL_PENDING;
        bitmap_offset \<leftarrow> doorbell_bitmap db_id;
        v \<leftarrow> reg_read s pending_reg;
        let bits = push_bit (dbell_bit bitmap_offset + HSP_BITMAP_TZ_NONSECURE_SHIFT) 1;
        let is_pending = v AND bits;
        s1 \<leftarrow> (if is_pending \<noteq> 0 then reg_write pending_reg (regs s pending_reg AND NOT bits) s else Some s);
        Some (Inr (is_pending \<noteq> 0), s1) })"

text \<open>The client's handle; the functions are set or null. \<open>None\<close> as a handle is the null pointer.\<close>

record tx2_hsp =
  hsp_data :: u64
  hsp_ring :: bool
  hsp_check :: bool
  hsp_destr :: bool

definition tx2_hsp_destroy :: "platform \<Rightarrow> tx2_hsp option \<Rightarrow> 'm tx2_state_scheme \<Rightarrow> (errno option \<times> 'm tx2_state_scheme) option" where
  "tx2_hsp_destroy pf hsp s = (case hsp of
     None \<Rightarrow> Some (Some EINVAL, s)
   | Some h \<Rightarrow> if \<not> hsp_destr h then Some (Some ENOSYS, s) else hsp_destroy pf (hsp_data h) s)"

definition tx2_hsp_doorbell_ring :: "tx2_hsp option \<Rightarrow> u32 \<Rightarrow> 'm tx2_state_scheme \<Rightarrow> (errno option \<times> 'm tx2_state_scheme) option" where
  "tx2_hsp_doorbell_ring hsp db_id s = (case hsp of
     None \<Rightarrow> Some (Some EINVAL, s)
   | Some h \<Rightarrow> if \<not> hsp_ring h then Some (Some ENOSYS, s) else hsp_doorbell_ring (hsp_data h) db_id s)"

text \<open>The source passes the function pointer \<open>hsp->check\<close>, here its address \<open>check_fn\<close>, as the private data.\<close>

definition tx2_hsp_doorbell_check ::
  "u64 \<Rightarrow> tx2_hsp option \<Rightarrow> u32 \<Rightarrow> 'm tx2_state_scheme \<Rightarrow> ((errno + bool) \<times> 'm tx2_state_scheme) option" where
  "tx2_hsp_doorbell_check check_fn hsp db_id s = (case hsp of
     None \<Rightarrow> Some (Inl EINVAL, s)
   | Some h \<Rightarrow> if \<not> hsp_check h then Some (Inl ENOSYS, s) else hsp_doorbell_check check_fn db_id s)"

section \<open>Initialisation\<close>

definition hsp_register_callback ::
  "platform \<Rightarrow> u64 \<Rightarrow> pmem_region \<Rightarrow> nat \<Rightarrow> nat \<Rightarrow> 'm tx2_state_scheme \<Rightarrow> (errno option \<times> 'm tx2_state_scheme) option" where
  "hsp_register_callback pf token pmem curr_num num_regs s =
     (if token = 0 \<or> \<not> (num_regs = 1 \<and> curr_num = 0) then None
      else do {
        hsp_priv \<leftarrow> priv_at s token;
        let (v, s1) = ps_pmem_map pf pmem s;
        let hsp_priv1 = hsp_priv\<lparr>hsp_base := v\<rparr>;
        if v = 0 then Some (Some EIO, s1\<lparr>priv_at := (priv_at s1)(token \<mapsto> hsp_priv1)\<rparr>)
        else Some (None, s1\<lparr>priv_at := (priv_at s1)(token \<mapsto> hsp_priv1\<lparr>tx2_hsp_region := pmem\<rparr>)\<rparr>) })"

definition hsp_zero :: tx2_hsp_priv where
  "hsp_zero = \<lparr>hsp_base = 0, doorbell_base = 0, tx2_hsp_region = \<lparr>base_addr = 0, pm_length = 0\<rparr>\<rparr>"

text \<open>The doorbells follow the shared mailboxes and semaphores, whose numbers are read from a register.\<close>

definition hsp_dimension :: "u32 \<Rightarrow> nat \<Rightarrow> nat" where
  "hsp_dimension v k = unat (drop_bit k v AND HSP_INT_DIMENSION_NUM_MASK)"

definition doorbell_offset :: "u32 \<Rightarrow> u64" where
  "doorbell_offset v =
     (let num_sm = hsp_dimension v HSP_INT_DIMENSION_SM_SHIFT;
          num_ss = hsp_dimension v HSP_INT_DIMENSION_SS_SHIFT;
          num_as = hsp_dimension v HSP_INT_DIMENSION_AS_SHIFT
      in of_nat ((1 + num_sm div 2 + num_ss + num_as) * 0x10000))"

text \<open>The arguments \<open>io_ops\<close> and \<open>hsp\<close> are given by whether they are non-null.\<close>

definition tx2_hsp_init ::
  "platform \<Rightarrow> 'm tx2_state_scheme walker \<Rightarrow> bool \<Rightarrow> bool \<Rightarrow> string \<Rightarrow> 'm tx2_state_scheme \<Rightarrow>
   ((errno + tx2_hsp) \<times> 'm tx2_state_scheme) option" where
  "tx2_hsp_init pf walk io_ops hsp path s =
     (if \<not> io_ops \<or> \<not> hsp then Some (Inl EINVAL, s)
      else case ps_calloc pf s of
        (None, s1) \<Rightarrow> Some (Inl ENOMEM, s1)
      | (Some p, s1) \<Rightarrow>
          (case ps_fdt_read_path pf path (s1\<lparr>priv_at := (priv_at s1)(p \<mapsto> hsp_zero)\<rparr>) of
             (None, s2) \<Rightarrow> Some (Inl ENODEV, s2)
           | (Some cookie, s2) \<Rightarrow> do {
               (error, s3) \<leftarrow> walk cookie (hsp_register_callback pf p) s2;
               if error \<noteq> None then Some (Inl ENODEV, s3)
               else do {
                 hsp_priv \<leftarrow> priv_at s3 p;
                 if hsp_base hsp_priv = 0 then do {
                   s4 \<leftarrow> ps_free pf p s3;
                   Some (Inl ENOMEM, s4\<lparr>priv_at := (priv_at s4)(p := None)\<rparr>) }
                 else (case ps_fdt_cleanup_cookie pf cookie s3 of
                   (False, s4) \<Rightarrow> Some (Inl ENODEV, s4)
                 | (True, s4) \<Rightarrow> do {
                     v \<leftarrow> reg_read s4 (hsp_base hsp_priv + HSP_INT_DIMENSION_OFFSET);
                     Some (Inr \<lparr>hsp_data = p, hsp_ring = True, hsp_check = True, hsp_destr = True\<rparr>,
                       s4\<lparr>priv_at := (priv_at s4)(p \<mapsto> hsp_priv\<lparr>doorbell_base := hsp_base hsp_priv + doorbell_offset v\<rparr>)\<rparr>) }) } }))"

section \<open>What the doorbells do\<close>

lemma valid_doorbell: "check_doorbell_id_is_valid db \<longleftrightarrow> unat db \<le> 6"
  by (simp add: check_doorbell_id_is_valid_def dbell_defs word_le_nat_alt)

lemma valid_bitmap: "check_doorbell_id_is_valid db \<Longrightarrow> doorbell_bitmap db \<noteq> None"
proof -
  assume "check_doorbell_id_is_valid db"
  then have "unat db \<in> {0, 1, 2, 3, 4, 5, 6}" by (auto simp: valid_doorbell)
  then have "db \<in> {0, 1, 2, 3, 4, 5, 6}" by (auto simp: word_unat_eq_iff)
  then show ?thesis by (auto simp: doorbell_bitmap_def dbell_defs)
qed

lemma doorbell_register_unat:
  assumes "unat db \<le> 6"
  shows "unat (ucast (db * HSP_DOORBELL_BLOCK_STRIDE) + dbell_reg_val off) = unat db * 256 + unat (dbell_reg_val off)"
proof -
  have "unat (dbell_reg_val off) \<le> 12" by (cases off) simp_all
  moreover have "unat (db * HSP_DOORBELL_BLOCK_STRIDE) = unat db * 256"
    using assms by (simp add: HSP_DOORBELL_BLOCK_STRIDE_def unat_word_ariths)
  ultimately show ?thesis using assms by (simp add: unat_word_ariths width_simps)
qed

lemma dbell_reg_val_inject: "dbell_reg_val off = dbell_reg_val off' \<Longrightarrow> off = off'"
  by (cases off; cases off') simp_all

lemma block_inject:
  fixes a b x y :: nat
  assumes "a * 256 + x = b * 256 + y" and "x < 256" and "y < 256"
  shows "a = b \<and> x = y"
proof -
  have "(a * 256 + x) div 256 = a" "(b * 256 + y) div 256 = b" using assms(2,3) by simp_all
  then show ?thesis using assms(1) by auto
qed

text \<open>Different registers, of the same or of different doorbells, have different addresses.\<close>

lemma doorbell_register_inject:
  assumes "unat db \<le> 6" and "unat db' \<le> 6" and "hsp_get_doorbell_register p db off = hsp_get_doorbell_register p db' off'"
  shows "db = db' \<and> off = off'"
proof -
  have r: "unat (dbell_reg_val o1) < 256" for o1 by (cases o1) simp_all
  from assms(3) have "unat (ucast (db * HSP_DOORBELL_BLOCK_STRIDE) + dbell_reg_val off) =
      unat (ucast (db' * HSP_DOORBELL_BLOCK_STRIDE) + dbell_reg_val off')"
    by (simp add: hsp_get_doorbell_register_def add.assoc)
  then have "unat db * 256 + unat (dbell_reg_val off) = unat db' * 256 + unat (dbell_reg_val off')"
    using assms(1,2) by (simp add: doorbell_register_unat)
  from block_inject [OF this r r] have "unat db = unat db'" "unat (dbell_reg_val off) = unat (dbell_reg_val off')" by auto
  then show ?thesis using dbell_reg_val_inject by (simp add: word_unat_eq_iff)
qed

text \<open>
  Ringing and checking a doorbell. A number that is no doorbell is refused. Ringing sets the trigger register of the
  doorbell to 1 and changes no other register of any doorbell. Checking reports the bit of the doorbell's processor in the
  non-secure half of its pending register, clears this bit, and changes nothing else.
\<close>

theorem hsp_doorbell_effect:
  assumes "priv_at s data = Some p" and "\<And>off. check_doorbell_id_is_valid db \<Longrightarrow> accessible s (hsp_get_doorbell_register p db off)"
  shows "if check_doorbell_id_is_valid db
    then (\<exists>s'. hsp_doorbell_ring data db s = Some (None, s') \<and>
           regs s' (hsp_get_doorbell_register p db DBELL_TRIGGER) = 1 \<and>
           (\<forall>db' off. check_doorbell_id_is_valid db' \<and> (db', off) \<noteq> (db, DBELL_TRIGGER) \<longrightarrow>
              regs s' (hsp_get_doorbell_register p db' off) = regs s (hsp_get_doorbell_register p db' off))) \<and>
      (\<exists>k s'. map_option dbell_bit (doorbell_bitmap db) = Some k \<and>
           hsp_doorbell_check data db s = Some (Inr (bit (regs s (hsp_get_doorbell_register p db DBELL_PENDING)) (k + 16)), s') \<and>
           (\<forall>a i. bit (regs s' a) i \<longleftrightarrow> bit (regs s a) i \<and> (a, i) \<noteq> (hsp_get_doorbell_register p db DBELL_PENDING, k + 16)))
    else hsp_doorbell_ring data db s = Some (Some EINVAL, s) \<and> hsp_doorbell_check data db s = Some (Inl EINVAL, s)"
proof (cases "check_doorbell_id_is_valid db")
  case True
  let ?t = "hsp_get_doorbell_register p db DBELL_TRIGGER" and ?q = "hsp_get_doorbell_register p db DBELL_PENDING"
  have "hsp_doorbell_ring data db s = Some (None, s\<lparr>regs := (regs s)(?t := 1)\<rparr>)"
    using True assms by (simp add: hsp_doorbell_ring_def reg_write_def)
  moreover have "hsp_get_doorbell_register p db' off \<noteq> ?t" if "check_doorbell_id_is_valid db'" "(db', off) \<noteq> (db, DBELL_TRIGGER)" for db' off
    using doorbell_register_inject [of db' db p off DBELL_TRIGGER] that True by (auto simp: valid_doorbell)
  moreover obtain b where b: "doorbell_bitmap db = Some b" using valid_bitmap [OF True] by auto
  let ?k = "dbell_bit b + 16" and ?v = "regs s ?q"
  have k: "?k < 32" by (cases b) simp_all
  let ?s' = "if bit ?v ?k then s\<lparr>regs := (regs s)(?q := ?v AND NOT (push_bit ?k 1))\<rparr> else s"
  have "hsp_doorbell_check data db s = Some (Inr (bit ?v ?k), ?s')"
    using True assms b by (auto simp: hsp_doorbell_check_def reg_read_def reg_write_def HSP_BITMAP_TZ_NONSECURE_SHIFT_def Let_def and_exp_eq_0_iff_not_bit)
  moreover have "bit (regs ?s' a) i \<longleftrightarrow> bit (regs s a) i \<and> (a, i) \<noteq> (?q, ?k)" for a i
    using k by (auto simp: bit_simps dest: bit_imp_le_length)
  ultimately show ?thesis using True b by auto
next
  case False
  then show ?thesis by (simp add: hsp_doorbell_ring_def hsp_doorbell_check_def)
qed

definition demo_priv :: tx2_hsp_priv where
  "demo_priv = \<lparr>hsp_base = 0x3c00000, doorbell_base = 0x3c90000, tx2_hsp_region = \<lparr>base_addr = 0x3c00000, pm_length = 0xa0000\<rparr>\<rparr>"

definition demo_hsp :: "u32 \<Rightarrow> tx2_state" where
  "demo_hsp v = \<lparr>calls = 4, allocated = [64], mapped = [(0x3c00000, 0xa0000)], cookies = [],
     priv_at = [64 \<mapsto> demo_priv], regs = (\<lambda>_. v)\<rparr>"

theorem hsp_doorbell_effect_witness:
  "\<exists>s'. hsp_doorbell_check 64 BPMP_DBELL (demo_hsp 0xffffffff) = Some (Inr True, s') \<and>
     bit (regs s' 0x3c9030c) 18 \<and> \<not> bit (regs s' 0x3c9030c) 19"
proof -
  have p: "priv_at (demo_hsp 0xffffffff) 64 = Some demo_priv" by (simp add: demo_hsp_def)
  have r: "hsp_get_doorbell_register demo_priv BPMP_DBELL off = 0x3c90300 + dbell_reg_val off" for off
    by (simp add: hsp_get_doorbell_register_def demo_priv_def BPMP_DBELL_def HSP_DOORBELL_BLOCK_STRIDE_def)
  have a: "accessible (demo_hsp 0xffffffff) (hsp_get_doorbell_register demo_priv BPMP_DBELL off)" for off
    unfolding r by (cases off) (simp_all add: accessible_def demo_hsp_def)
  have "check_doorbell_id_is_valid BPMP_DBELL" by (simp add: valid_doorbell BPMP_DBELL_def)
  moreover have "map_option dbell_bit (doorbell_bitmap BPMP_DBELL) = Some 3" by (simp add: doorbell_bitmap_def dbell_defs)
  moreover have "bit (0xffffffff :: u32) 19" "bit (0xffffffff :: u32) 18" by code_simp+
  ultimately show ?thesis using hsp_doorbell_effect [OF p a] by (auto simp: r) (auto simp: demo_hsp_def)
qed

section \<open>What initialisation leaves behind\<close>

text \<open>
  The documented behaviour of walking a device tree node: the callback is called for each register region in order, with its
  number and the number of regions, until it returns an error.
\<close>

fun visit :: "(pmem_region \<Rightarrow> nat \<Rightarrow> nat \<Rightarrow> 's \<Rightarrow> (errno option \<times> 's) option) \<Rightarrow> nat \<Rightarrow> nat \<Rightarrow> pmem_region list \<Rightarrow> 's \<Rightarrow> (errno option \<times> 's) option" where
  "visit cb i n [] s = Some (None, s)"
| "visit cb i n (r # rs) s = do {
     (e, s1) \<leftarrow> cb r i n s;
     if e \<noteq> None then Some (e, s1) else visit cb (Suc i) n rs s1 }"

definition walk_law :: "'s walker \<Rightarrow> (nat \<Rightarrow> pmem_region list) \<Rightarrow> bool" where
  "walk_law walk node \<longleftrightarrow> (\<forall>c cb s. walk c cb s = visit cb 0 (length (node c)) (node c) s)"

text \<open>Mapped regions do not reach beyond the address space.\<close>

definition map_law :: "platform \<Rightarrow> bool" where
  "map_law pf \<longleftrightarrow> (\<forall>n r. unat (pf_pmem_map pf n r) + unat (pm_length r) < 2 ^ 64)"

definition calloc_law :: "platform \<Rightarrow> bool" where
  "calloc_law pf \<longleftrightarrow> (\<forall>n. pf_calloc pf n \<noteq> Some 0)"

text \<open>
  Initialising the doorbells, for a device tree node with one register region that holds the dimension register. The
  call always returns. When it succeeds, one region is mapped, one object is allocated, the device tree cookie is
  given back, and the doorbells start where the dimension register says. When it fails for lack of memory nothing is kept;
  but after every other failure the private data stays allocated, and no handle to it exists.
\<close>

theorem tx2_hsp_init_effect:
  assumes walk: "walk_law walk node" and node: "\<And>c. node c = [r]" and len: "0x384 \<le> unat (pm_length r)"
    and laws: "map_law pf" "calloc_law pf"
  shows "\<exists>res s'. tx2_hsp_init pf walk True True path s = Some (res, s') \<and> regs s' = regs s \<and>
    (case res of
       Inr h \<Rightarrow> hsp_ring h \<and> hsp_check h \<and> hsp_destr h \<and> allocated s' = hsp_data h # allocated s \<and> cookies s' = cookies s \<and>
         (\<exists>p. priv_at s' = (priv_at s)(hsp_data h \<mapsto> p) \<and> hsp_base p \<noteq> 0 \<and> tx2_hsp_region p = r \<and>
            mapped s' = (hsp_base p, pm_length r) # mapped s \<and>
            doorbell_base p = hsp_base p + doorbell_offset (regs s (hsp_base p + HSP_INT_DIMENSION_OFFSET)))
     | Inl e \<Rightarrow> e = ENOMEM \<and> allocated s' = allocated s \<and> mapped s' = mapped s \<and> cookies s' = cookies s \<and> priv_at s' = priv_at s \<or>
         e = ENODEV \<and> (\<exists>p. allocated s' = p # allocated s))"
proof -
  have w: "walk c cb t = Option.bind (cb r 0 1 t) (\<lambda>(e, t1). if e \<noteq> None then Some (e, t1) else Some (None, t1))" for c cb t
    using walk node by (simp add: walk_law_def split_def cong: if_cong)
  have acc: "accessible t (v + HSP_INT_DIMENSION_OFFSET)" if "(v, pm_length r) \<in> set (mapped t)" "v = pf_pmem_map pf n r" for v n and t :: "'a tx2_state_scheme"
  proof -
    have v: "unat v + unat (pm_length r) < 2 ^ 64" using laws(1) that(2) by (simp add: map_law_def)
    then have "unat (v + HSP_INT_DIMENSION_OFFSET) = unat v + 0x380"
      using len by (simp add: HSP_INT_DIMENSION_OFFSET_def unat_word_ariths)
    with that(1) len show ?thesis by (auto simp: accessible_def list_ex_iff intro: bexI [of _ "(v, pm_length r)"])
  qed
  show ?thesis
  proof (cases "pf_calloc pf (calls s)")
    case None
    then show ?thesis by (simp add: tx2_hsp_init_def ps_calloc_def)
  next
    case (Some p)
    then have p: "p \<noteq> 0" using laws(2) by (auto simp: calloc_law_def)
    show ?thesis
      using Some p
      by (auto simp: tx2_hsp_init_def ps_calloc_def ps_fdt_read_path_def w hsp_register_callback_def ps_pmem_map_def
          ps_fdt_cleanup_cookie_def reg_read_def acc hsp_zero_def Let_def split: option.splits)
  qed
qed

definition demo_pf :: platform where
  "demo_pf = \<lparr>pf_calloc = (\<lambda>n. Some 64), pf_free = (\<lambda>n. True),
     pf_pmem_map = (\<lambda>n r. if unat (base_addr r) + unat (pm_length r) < 2 ^ 64 then base_addr r else 0),
     pf_read_path = (\<lambda>n path. Some 7), pf_cleanup = (\<lambda>n. True), pf_register = (\<lambda>n. None)\<rparr>"

definition demo_walk :: "(nat \<Rightarrow> pmem_region list) \<Rightarrow> 's walker" where
  "demo_walk node c cb s = visit cb 0 (length (node c)) (node c) s"

definition demo_region :: pmem_region where
  "demo_region = \<lparr>base_addr = 0x3c00000, pm_length = 0xa0000\<rparr>"

lemma demo_laws: "map_law demo_pf" "calloc_law demo_pf" "walk_law (demo_walk node) node"
proof -
  show "map_law demo_pf" using unat_lt_exp [where 'a = 64] by (simp add: map_law_def demo_pf_def)
qed (simp_all add: calloc_law_def walk_law_def demo_pf_def demo_walk_def)

theorem tx2_hsp_init_effect_witness:
  "\<exists>s'. tx2_hsp_init demo_pf (demo_walk (\<lambda>c. [demo_region])) True True ''/tegra-hsp@3c00000''
      \<lparr>calls = 0, allocated = [], mapped = [], cookies = [], priv_at = Map.empty, regs = (\<lambda>a. 0x228)\<rparr> =
      Some (Inr \<lparr>hsp_data = 64, hsp_ring = True, hsp_check = True, hsp_destr = True\<rparr>, s') \<and>
     allocated s' = [64] \<and> mapped s' = [(0x3c00000, 0xa0000)] \<and> doorbell_base (the (priv_at s' 64)) = 0x3c90000"
proof -
  let ?s = "\<lparr>calls = 0, allocated = [], mapped = [], cookies = [], priv_at = Map.empty, regs = (\<lambda>a. 0x228)\<rparr> :: tx2_state"
  let ?init = "tx2_hsp_init demo_pf (demo_walk (\<lambda>c. [demo_region])) True True ''/tegra-hsp@3c00000'' ?s"
  have "drop_bit 4 (0x228 :: u32) AND 0xf = 2" "drop_bit 8 (0x228 :: u32) AND 0xf = 2" "(0x228 :: u32) AND 0xf = 8" by code_simp+
  then have off: "doorbell_offset 0x228 = 0x90000"
    by (simp add: doorbell_offset_def hsp_dimension_def HSP_INT_DIMENSION_SM_SHIFT_def HSP_INT_DIMENSION_SS_SHIFT_def
        HSP_INT_DIMENSION_AS_SHIFT_def HSP_INT_DIMENSION_NUM_MASK_def)
  have "\<exists>h s'. ?init = Some (Inr h, s') \<and> hsp_data h = 64 \<and> hsp_base (the (priv_at s' 64)) = 0x3c00000"
    by (simp add: tx2_hsp_init_def ps_calloc_def ps_fdt_read_path_def demo_pf_def demo_walk_def demo_region_def
        hsp_register_callback_def ps_pmem_map_def ps_fdt_cleanup_cookie_def reg_read_def accessible_def hsp_zero_def
        HSP_INT_DIMENSION_OFFSET_def Let_def)
  then obtain h s' where h: "?init = Some (Inr h, s')" "hsp_data h = 64" "hsp_base (the (priv_at s' 64)) = 0x3c00000" by blast
  have "0x384 \<le> unat (pm_length demo_region)" by (simp add: demo_region_def)
  from tx2_hsp_init_effect [OF demo_laws(3) refl this demo_laws(1,2), of "''/tegra-hsp@3c00000''" ?s]
  have e: "hsp_ring h" "hsp_check h" "hsp_destr h" "allocated s' = [64]"
    "\<exists>p. priv_at s' = [64 \<mapsto> p] \<and> mapped s' = [(hsp_base p, pm_length demo_region)] \<and> doorbell_base p = hsp_base p + 0x90000"
    using h(1,2) off by (simp_all add: exE) blast
  then have "h = \<lparr>hsp_data = 64, hsp_ring = True, hsp_check = True, hsp_destr = True\<rparr>" using h(2) by simp
  moreover have "mapped s' = [(0x3c00000, 0xa0000)]" "doorbell_base (the (priv_at s' 64)) = 0x3c90000"
    using e(5) h(3) by (auto simp: demo_region_def)
  ultimately show ?thesis using h(1) e(4) by simp
qed

text \<open>
  The check of a doorbell through its handle is undefined: the handle passes the address of a function as the private data,
  where no private data is.
\<close>

theorem tx2_hsp_doorbell_check_undefined:
  assumes "hsp_check h" and "check_doorbell_id_is_valid db" and "priv_at s check_fn = None"
  shows "tx2_hsp_doorbell_check check_fn (Some h) db s = None"
  using assms by (simp add: tx2_hsp_doorbell_check_def hsp_doorbell_check_def)

end
