(* ===== verification/Bpmp.thy ===== *)
theory Bpmp
  imports Hsp
begin

text \<open>
  Requests to the boot and power management processor of the Tegra X2 (\<open>src/libtx2bpmp/src/bpmp.c\<close>,
  \<open>include/tx2bpmp/bpmp.h\<close>): a request is put into the only frame of a channel of theory \<open>Ivc\<close>, the other processor is
  signalled by a doorbell of theory \<open>Hsp\<close>, and the answer is polled for.

  The other processor is a parameter \<open>peer\<close> with a state of its own. It may change the shared memory before each call of the channel
  library. The bytes of a frame are those from its address to the end of the mapped region, so that an access beyond
  the frame is a change of the bytes behind it, and an access beyond the region is \<open>None\<close>. The static variables of the source are fields of
  the state, and the only object of type \<open>struct tx2_bpmp_priv\<close> is the static \<open>bpmp_data\<close>. Numbers in memory are little-endian.
\<close>

section \<open>Data\<close>

definition BPMP_IVC_FRAME_COUNT :: u32 where "BPMP_IVC_FRAME_COUNT = 1"
definition BPMP_IVC_FRAME_SIZE :: u32 where "BPMP_IVC_FRAME_SIZE = 128"
definition BPMP_FLAG_DO_ACK :: u32 where "BPMP_FLAG_DO_ACK = 1"
definition BPMP_FLAG_RING_DOORBELL :: u32 where "BPMP_FLAG_RING_DOORBELL = 2"
definition TIMEOUT_THRESHOLD :: nat where "TIMEOUT_THRESHOLD = 2000000"

record mrq_request =
  rq_mrq :: u32
  rq_flags :: u32

record mrq_response =
  rs_err :: u32
  rs_flags :: u32

definition le32 :: "u32 \<Rightarrow> bytes" where
  "le32 v = [ucast v, ucast (drop_bit 8 v), ucast (drop_bit 16 v), ucast (drop_bit 24 v)]"

fun le32_val :: "bytes \<Rightarrow> u32" where
  "le32_val (a # b # c # d # _) = ucast a + push_bit 8 (ucast b) + push_bit 16 (ucast c) + push_bit 24 (ucast d)"
| "le32_val _ = 0"

definition put_request :: "mrq_request \<Rightarrow> bytes" where
  "put_request r = le32 (rq_mrq r) @ le32 (rq_flags r)"

definition get_response :: "bytes \<Rightarrow> mrq_response option" where
  "get_response bs = (if length bs < 8 then None else Some \<lparr>rs_err = le32_val bs, rs_flags = le32_val (drop 4 bs)\<rparr>)"

record tx2_bpmp_priv =
  bp_hsp :: tx2_hsp
  hsp_initialised :: bool
  bp_ivc :: tegra_ivc
  tx_base :: u64
  rx_base :: u64
  tx_shmem :: pmem_region
  rx_shmem :: pmem_region

record 'p bpmp_state = tx2_state +
  bpmp_initialised :: bool
  bpmp_refcount :: u32
  bpmp_data :: tx2_bpmp_priv
  shmem :: ivc_mem
  peer_state :: 'p

type_synonym 'p peer = "'p \<Rightarrow> ivc_mem \<Rightarrow> 'p \<times> ivc_mem"

text \<open>The client's handle; the functions are set or null.\<close>

record tx2_bpmp =
  bpmp_call_set :: bool
  bpmp_destroy_set :: bool

definition set_ivc :: "tegra_ivc \<Rightarrow> ivc_mem \<Rightarrow> 'p bpmp_state \<Rightarrow> 'p bpmp_state" where
  "set_ivc ivc m s = s\<lparr>bpmp_data := (bpmp_data s)\<lparr>bp_ivc := ivc\<rparr>, shmem := m\<rparr>"

text \<open>The channels must be mapped when they are accessed; the peer may have acted in the meantime.\<close>

definition channel_access :: "'p peer \<Rightarrow> 'p bpmp_state \<Rightarrow> 'p bpmp_state option" where
  "channel_access peer s =
     (if accessible s (tx_channel (bp_ivc (bpmp_data s))) \<and> accessible s (rx_channel (bp_ivc (bpmp_data s)))
      then let (p, m) = peer (peer_state s) (shmem s) in Some (s\<lparr>peer_state := p, shmem := m\<rparr>)
      else None)"

definition bpmp_ivc_notify :: "'p bpmp_state \<Rightarrow> 'p bpmp_state option" where
  "bpmp_ivc_notify s = do {
     (ret, s1) \<leftarrow> tx2_hsp_doorbell_ring (Some (bp_hsp (bpmp_data s))) BPMP_DBELL s;
     if ret \<noteq> None then None else Some s1 }"

definition notify_if :: "bool \<Rightarrow> 'p bpmp_state \<Rightarrow> 'p bpmp_state option" where
  "notify_if n s = (if n then bpmp_ivc_notify s else Some s)"

section \<open>Requests\<close>

definition put_bytes :: "bytes \<Rightarrow> bytes \<Rightarrow> bytes option" where
  "put_bytes bs mem = (if length bs \<le> length mem then Some (bs @ drop (length bs) mem) else None)"

text \<open>The loop that waits for a response: its address, an error of the channel, or a timeout.\<close>

primrec bpmp_wait :: "'p peer \<Rightarrow> nat \<Rightarrow> 'p bpmp_state \<Rightarrow> ((errno + u64) \<times> 'p bpmp_state) option" where
  "bpmp_wait peer 0 s = Some (Inl ETIMEDOUT, s)"
| "bpmp_wait peer (Suc timeout) s = do {
     s1 \<leftarrow> channel_access peer s;
     let (ret, n, ivc, m) = tegra_ivc_channel_notified (bp_ivc (bpmp_data s1)) (shmem s1);
     s2 \<leftarrow> notify_if n (set_ivc ivc m s1);
     (case ret of
        Inl e \<Rightarrow> Some (Inl e, s2)
      | Inr _ \<Rightarrow> do {
          s3 \<leftarrow> channel_access peer s2;
          ret' \<leftarrow> tegra_ivc_read_get_next_frame (bp_ivc (bpmp_data s3)) (shmem s3);
          (case ret' of Inr p \<Rightarrow> Some (Inr p, s3) | Inl _ \<Rightarrow> bpmp_wait peer timeout s3) }) }"

text \<open>Sending: the request is written to the next frame, which is then passed on.\<close>

definition bpmp_send :: "'p peer \<Rightarrow> u32 \<Rightarrow> bytes \<Rightarrow> u64 \<Rightarrow> 'p bpmp_state \<Rightarrow> (errno option \<times> 'p bpmp_state) option" where
  "bpmp_send peer mrq tx_msg tx_size s = do {
     s1 \<leftarrow> channel_access peer s;
     ret \<leftarrow> tegra_ivc_write_get_next_frame (bp_ivc (bpmp_data s1)) (shmem s1);
     (case ret of
        Inl e \<Rightarrow> Some (Some e, s1)
      | Inr p \<Rightarrow>
          (if length tx_msg < unat tx_size then None
           else do {
             f \<leftarrow> put_bytes (put_request \<lparr>rq_mrq = mrq, rq_flags = BPMP_FLAG_DO_ACK OR BPMP_FLAG_RING_DOORBELL\<rparr>
                     @ take (unat tx_size) tx_msg) (frame_at (shmem s1) p);
             s2 \<leftarrow> channel_access peer (s1\<lparr>shmem := (shmem s1)\<lparr>frame_at := (frame_at (shmem s1))(p := f)\<rparr>\<rparr>);
             (case tegra_ivc_write_advance (bp_ivc (bpmp_data s2)) (shmem s2) of
                Inl e \<Rightarrow> Some (Some e, s2)
              | Inr (n, ivc, m) \<Rightarrow> do {
                  s3 \<leftarrow> notify_if n (set_ivc ivc m s2);
                  Some (None, s3) }) })) }"

text \<open>Receiving: the response is read, copied to the client unless it reports an error, and its frame given back.\<close>

definition bpmp_receive :: "'p peer \<Rightarrow> u64 \<Rightarrow> bytes option \<Rightarrow> u64 \<Rightarrow> 'p bpmp_state \<Rightarrow>
   ((errno + u64) \<times> bytes option \<times> 'p bpmp_state) option" where
  "bpmp_receive peer p rx_msg rx_size s = do {
     let frame = frame_at (shmem s) p;
     resp \<leftarrow> get_response frame;
     let err = rs_err resp;
     rx \<leftarrow> (case rx_msg of
              None \<Rightarrow> Some None
            | Some buf \<Rightarrow>
                if err = 0 \<and> rx_size \<noteq> 0 then
                  (if length (drop 8 frame) < unat rx_size then None
                   else map_option Some (put_bytes (take (unat rx_size) (drop 8 frame)) buf))
                else Some (Some buf));
     s1 \<leftarrow> channel_access peer s;
     (case tegra_ivc_read_advance (bp_ivc (bpmp_data s1)) (shmem s1) of
        Inl e \<Rightarrow> Some (Inl e, rx, s1)
      | Inr (n, ivc, m) \<Rightarrow> do {
          s2 \<leftarrow> notify_if n (set_ivc ivc m s1);
          Some (if err \<noteq> 0 then Inl EIO else Inr rx_size, rx, s2) }) }"

definition bpmp_call :: "'p peer \<Rightarrow> u32 \<Rightarrow> bytes \<Rightarrow> u64 \<Rightarrow> bytes option \<Rightarrow> u64 \<Rightarrow> 'p bpmp_state \<Rightarrow>
   ((errno + u64) \<times> bytes option \<times> 'p bpmp_state) option" where
  "bpmp_call peer mrq tx_msg tx_size rx_msg rx_size s =
     (if ucast BPMP_IVC_FRAME_SIZE < tx_size \<or> ucast BPMP_IVC_FRAME_SIZE < rx_size then Some (Inl EINVAL, rx_msg, s)
      else do {
        (ret, s1) \<leftarrow> bpmp_send peer mrq tx_msg tx_size s;
        (case ret of
           Some e \<Rightarrow> Some (Inl e, rx_msg, s1)
         | None \<Rightarrow> do {
             (r, s2) \<leftarrow> bpmp_wait peer TIMEOUT_THRESHOLD s1;
             (case r of
                Inl e \<Rightarrow> Some (Inl e, rx_msg, s2)
              | Inr p \<Rightarrow> bpmp_receive peer p rx_msg rx_size s2) }) })"

section \<open>Initialisation and release\<close>

definition bpmp_destroy :: "platform \<Rightarrow> 'p bpmp_state \<Rightarrow> (errno option \<times> 'p bpmp_state) option" where
  "bpmp_destroy pf s =
     (let s1 = s\<lparr>bpmp_refcount := bpmp_refcount s - 1\<rparr>
      in if bpmp_refcount s1 \<noteq> 0 then Some (None, s1)
         else do {
           s2 \<leftarrow> (if hsp_initialised (bpmp_data s1) then do {
                    (e, s2) \<leftarrow> tx2_hsp_destroy pf (Some (bp_hsp (bpmp_data s1))) s1;
                    if e \<noteq> None then None else Some s2 }
                  else Some s1);
           let s3 = (if tx_base (bpmp_data s2) \<noteq> 0
                     then ps_io_unmap (tx_base (bpmp_data s2)) (pm_length (tx_shmem (bpmp_data s2))) s2 else s2);
           let s4 = (if rx_base (bpmp_data s3) \<noteq> 0
                     then ps_io_unmap (rx_base (bpmp_data s3)) (pm_length (rx_shmem (bpmp_data s3))) s3 else s3);
           Some (None, s4) })"

definition bpmp_register_callback ::
  "platform \<Rightarrow> pmem_region \<Rightarrow> nat \<Rightarrow> nat \<Rightarrow> 'p bpmp_state \<Rightarrow> (errno option \<times> 'p bpmp_state) option" where
  "bpmp_register_callback pf pmem curr_num num_regs s =
     (if curr_num = 1 then
        (let (v, s1) = ps_pmem_map pf pmem s; s2 = s1\<lparr>bpmp_data := (bpmp_data s1)\<lparr>tx_base := v\<rparr>\<rparr>
         in if v = 0 then Some (Some EIO, s2)
            else Some (None, s2\<lparr>bpmp_data := (bpmp_data s2)\<lparr>tx_shmem := pmem\<rparr>\<rparr>))
      else if curr_num = 2 then
        (let (v, s1) = ps_pmem_map pf pmem s; s2 = s1\<lparr>bpmp_data := (bpmp_data s1)\<lparr>rx_base := v\<rparr>\<rparr>
         in if v = 0 then Some (Some EIO, s2)
            else Some (None, s2\<lparr>bpmp_data := (bpmp_data s2)\<lparr>rx_shmem := pmem\<rparr>\<rparr>))
      else Some (None, s))"

text \<open>The loop that waits for the reset of the channel; \<open>False\<close> is a timeout.\<close>

primrec bpmp_reset_wait :: "'p peer \<Rightarrow> nat \<Rightarrow> 'p bpmp_state \<Rightarrow> (bool \<times> 'p bpmp_state) option" where
  "bpmp_reset_wait peer 0 s = Some (False, s)"
| "bpmp_reset_wait peer (Suc timeout) s = do {
     s1 \<leftarrow> channel_access peer s;
     let (ret, n, ivc, m) = tegra_ivc_channel_notified (bp_ivc (bpmp_data s1)) (shmem s1);
     s2 \<leftarrow> notify_if n (set_ivc ivc m s1);
     (case ret of Inr _ \<Rightarrow> Some (True, s2) | Inl _ \<Rightarrow> bpmp_reset_wait peer timeout s2) }"

text \<open>The label \<open>fail\<close>: whatever \<open>bpmp_destroy\<close> does, the error is returned.\<close>

definition bpmp_fail :: "platform \<Rightarrow> errno \<Rightarrow> 'p bpmp_state \<Rightarrow> ((errno + tx2_bpmp) \<times> 'p bpmp_state) option" where
  "bpmp_fail pf e s = do { (r, s1) \<leftarrow> bpmp_destroy pf s; if r \<noteq> None then None else Some (Inl e, s1) }"

definition bpmp_success :: "'p bpmp_state \<Rightarrow> ((errno + tx2_bpmp) \<times> 'p bpmp_state) option" where
  "bpmp_success s = Some (Inr \<lparr>bpmp_call_set = True, bpmp_destroy_set = True\<rparr>,
     s\<lparr>bpmp_refcount := bpmp_refcount s + 1, bpmp_initialised := True\<rparr>)"

text \<open>From the initialisation of the channel on.\<close>

definition bpmp_start :: "platform \<Rightarrow> 'p peer \<Rightarrow> 'p bpmp_state \<Rightarrow> ((errno + tx2_bpmp) \<times> 'p bpmp_state) option" where
  "bpmp_start pf peer s =
     (case tegra_ivc_init (Some (bp_ivc (bpmp_data s))) (rx_base (bpmp_data s)) (tx_base (bpmp_data s))
             BPMP_IVC_FRAME_COUNT BPMP_IVC_FRAME_SIZE of
        Inl e \<Rightarrow> bpmp_fail pf e s
      | Inr ivc \<Rightarrow> do {
          s1 \<leftarrow> channel_access peer (s\<lparr>bpmp_data := (bpmp_data s)\<lparr>bp_ivc := ivc\<rparr>\<rparr>);
          let (n, ivc1, m) = tegra_ivc_channel_reset (bp_ivc (bpmp_data s1)) (shmem s1);
          s2 \<leftarrow> notify_if n (set_ivc ivc1 m s1);
          (done, s3) \<leftarrow> bpmp_reset_wait peer TIMEOUT_THRESHOLD s2;
          (if \<not> done then bpmp_fail pf ETIMEDOUT s3
           else (case pf_register pf (calls s3) of
                   Some e \<Rightarrow> bpmp_fail pf e (s3\<lparr>calls := Suc (calls s3)\<rparr>)
                 | None \<Rightarrow> bpmp_success (s3\<lparr>calls := Suc (calls s3)\<rparr>))) })"

definition tx2_bpmp_init ::
  "platform \<Rightarrow> 'p bpmp_state walker \<Rightarrow> 'p peer \<Rightarrow> bool \<Rightarrow> bool \<Rightarrow> 'p bpmp_state \<Rightarrow>
   ((errno + tx2_bpmp) \<times> 'p bpmp_state) option" where
  "tx2_bpmp_init pf walk peer io_ops bpmp s =
     (if \<not> io_ops \<or> \<not> bpmp then Some (Inl EINVAL, s)
      else if bpmp_initialised s then bpmp_success s
      else do {
        (ret, s1) \<leftarrow> tx2_hsp_init pf walk io_ops True ''/tegra-hsp@3c00000'' s;
        (case ret of
           Inl e \<Rightarrow> Some (Inl e, s1)
         | Inr hsp \<Rightarrow>
             (case ps_fdt_read_path pf ''/bpmp'' (s1\<lparr>bpmp_data := (bpmp_data s1)\<lparr>bp_hsp := hsp, hsp_initialised := True\<rparr>\<rparr>) of
                (None, s2) \<Rightarrow> Some (Inl ENODEV, s2)
              | (Some cookie, s2) \<Rightarrow> do {
                  (e, s3) \<leftarrow> walk cookie (bpmp_register_callback pf) s2;
                  if e \<noteq> None then Some (Inl ENODEV, s3)
                  else (case ps_fdt_cleanup_cookie pf cookie s3 of
                    (False, s4) \<Rightarrow> Some (Inl ENODEV, s4)
                  | (True, s4) \<Rightarrow> bpmp_start pf peer s4) })) })"

definition tx2_bpmp_destroy :: "platform \<Rightarrow> tx2_bpmp option \<Rightarrow> 'p bpmp_state \<Rightarrow> (errno option \<times> 'p bpmp_state) option" where
  "tx2_bpmp_destroy pf bpmp s = (case bpmp of
     None \<Rightarrow> Some (Some EINVAL, s)
   | Some b \<Rightarrow> if \<not> bpmp_destroy_set b then Some (Some ENOSYS, s) else bpmp_destroy pf s)"

definition tx2_bpmp_call :: "'p peer \<Rightarrow> tx2_bpmp option \<Rightarrow> u32 \<Rightarrow> bytes \<Rightarrow> u64 \<Rightarrow> bytes option \<Rightarrow> u64 \<Rightarrow> 'p bpmp_state \<Rightarrow>
   ((errno + u64) \<times> bytes option \<times> 'p bpmp_state) option" where
  "tx2_bpmp_call peer bpmp mrq tx_msg tx_size rx_msg rx_size s = (case bpmp of
     None \<Rightarrow> Some (Inl EINVAL, rx_msg, s)
   | Some b \<Rightarrow> if \<not> bpmp_call_set b then Some (Inl ENOSYS, rx_msg, s) else bpmp_call peer mrq tx_msg tx_size rx_msg rx_size s)"

text \<open>The driver module; its errors are all \<open>-1\<close>, here \<open>False\<close>.\<close>

definition tx2_bpmp_init_module :: "platform \<Rightarrow> 'p bpmp_state walker \<Rightarrow> 'p peer \<Rightarrow> 'p bpmp_state \<Rightarrow> (bool \<times> 'p bpmp_state) option" where
  "tx2_bpmp_init_module pf walk peer s = (case ps_calloc pf s of
     (None, s1) \<Rightarrow> Some (False, s1)
   | (Some p, s1) \<Rightarrow> map_option (\<lambda>(r, s2). (case r of Inl _ \<Rightarrow> False | Inr _ \<Rightarrow> True, s2)) (tx2_bpmp_init pf walk peer True True s1))"

section \<open>A link with one frame in each direction\<close>

text \<open>
  Both directions of an established link, the frames waiting in them and the bytes behind the two frame addresses. With
  one frame per direction all positions are 0, so that the two ends never change.
\<close>

definition bpmp_link :: "tegra_ivc \<Rightarrow> tegra_ivc \<Rightarrow> ivc_mem \<Rightarrow> bytes list \<Rightarrow> bytes list \<Rightarrow> bool" where
  "bpmp_link a b m out ins \<longleftrightarrow> ivc_link_inv (a, b, m) \<and> ivc_link_inv (b, a, m) \<and> nframes a = 1 \<and>
     ivc_contents (a, b, m) = out \<and> ivc_contents (b, a, m) = ins"

lemma bpmp_link_sym:
  assumes "bpmp_link a b m out ins"
  shows "bpmp_link b a m ins out"
proof -
  have "ivc_geom a b" using assms by (simp add: bpmp_link_def ivc_link_inv_def)
  then have "nframes b = nframes a" unfolding ivc_geom_def by blast
  then show ?thesis using assms by (simp add: bpmp_link_def)
qed

lemma one_frame:
  assumes "ivc_link_inv (a, b, m)" and "nframes a = 1"
  shows "w_pos a = 0" "r_pos b = 0" "nframes b = 1" "frame_slot a 0 \<noteq> frame_slot b 0" "pending a m \<le> 1"
    "tx_channel b = rx_channel a" "rx_channel b = tx_channel a" "rx_channel a \<noteq> tx_channel a"
    "ivc_contents (a, b, m) = (if pending a m = 0 then [] else [frame_at m (frame_slot a 0)])"
proof -
  have g: "ivc_geom a b" and d: "dir_ok a b m" using assms(1) by (simp_all add: ivc_link_inv_def)
  show r: "r_pos b = 0" and w: "w_pos a = 0" using d assms(2) by (simp_all add: dir_ok_def unat_eq_0)
  show p: "pending a m \<le> 1" using d assms(2) by (simp add: dir_ok_def)
  show "nframes b = 1" "tx_channel b = rx_channel a" "rx_channel b = tx_channel a" "rx_channel a \<noteq> tx_channel a"
    using g assms(2) by (auto simp: ivc_geom_def)
  show "frame_slot a 0 \<noteq> frame_slot b 0" using g by (auto simp: frame_slot_def ivc_geom_def)
  have "pending a m = 0 \<or> pending a m = Suc 0" using p by auto
  then show "ivc_contents (a, b, m) = (if pending a m = 0 then [] else [frame_at m (frame_slot a 0)])"
    using r assms(2) by (auto simp: ivc_contents_def ivc_frames_def ring_seg_snoc)
qed

lemma bpmp_linkD:
  assumes "bpmp_link a b m out ins"
  shows "ivc_link_inv (a, b, m)" "ivc_link_inv (b, a, m)" "nframes a = 1" "nframes b = 1"
    "out = (if pending a m = 0 then [] else [frame_at m (frame_slot a 0)])"
    "ins = (if pending b m = 0 then [] else [frame_at m (frame_slot b 0)])"
  using assms one_frame [of a b m] one_frame(9) [of b a m] one_frame(3) [of a b m] by (auto simp: bpmp_link_def)

lemma bpmp_linkI:
  assumes "ivc_link_inv (a, b, m)" "ivc_link_inv (b, a, m)" "nframes a = 1"
    "out = (if pending a m = 0 then [] else [frame_at m (frame_slot a 0)])"
    "ins = (if pending b m = 0 then [] else [frame_at m (frame_slot b 0)])"
  shows "bpmp_link a b m out ins"
  using assms one_frame(9) [of a b m] one_frame(9) [of b a m] one_frame(3) [of a b m] by (auto simp: bpmp_link_def)

text \<open>Writing.\<close>

lemma link_write_get:
  assumes "bpmp_link a b m out ins"
  shows "tegra_ivc_write_get_next_frame a m = Some (if out = [] then Inr (frame_slot a 0) else Inl ENOMEM)"
proof -
  note L = bpmp_linkD [OF assms]
  have st: "ch_state (hdr m (tx_channel a)) = ivc_state_established" and g: "ivc_geom a b" using L(1) by (simp_all add: ivc_link_inv_def)
  have "tegra_ivc_frame_pointer a (tx_channel a) (w_pos a) = Some (frame_slot a 0)"
    using frame_pointer_slot(1) [OF g, of "w_pos a"] one_frame(1) [OF L(1,3)] L(3) by simp
  then show ?thesis
    using write_full [OF st] L(3,5) by (simp add: tegra_ivc_write_get_next_frame_def Suc_le_eq)
qed

lemma link_store:
  assumes "bpmp_link a b m [] ins"
  shows "bpmp_link a b (m\<lparr>frame_at := (frame_at m)(frame_slot a 0 := f)\<rparr>) [] ins"
proof -
  note L = bpmp_linkD [OF assms]
  show ?thesis
    using L one_frame(4) [OF L(1,3)] by (intro bpmp_linkI) (simp_all add: ivc_link_inv_def split: if_splits)
qed

lemma link_write_advance:
  assumes "bpmp_link a b m [] ins"
  shows "\<exists>m'. tegra_ivc_write_advance a m = Inr (True, a, m') \<and> bpmp_link a b m' [frame_at m (frame_slot a 0)] ins \<and> frame_at m' = frame_at m"
proof -
  note L = bpmp_linkD [OF assms]
  let ?m = "upd_hdr (tx_channel a) (\<lambda>h. h\<lparr>w_count := w_count h + 1\<rparr>) m"
  have g: "ivc_geom a b" and d: "dir_ok a b m" "dir_ok b a m" and st: "ch_state (hdr m (tx_channel a)) = ivc_state_established"
    "ch_state (hdr m (tx_channel b)) = ivc_state_established" using L(1,2) by (simp_all add: ivc_link_inv_def)
  have p0: "pending a m = 0" using L(5) by (simp split: if_splits)
  from write_step [OF g d(1) st(1)] p0 L(3) obtain n wp where w:
    "tegra_ivc_write_advance a m = Inr (n, a\<lparr>w_pos := wp\<rparr>, ?m)" "pending a ?m = 1" "dir_ok (a\<lparr>w_pos := wp\<rparr>) b ?m" by auto
  have "tegra_ivc_check_write a m = Inr ()" using write_full [OF st(1)] p0 L(3) by simp
  then have "tegra_ivc_write_advance a m = Inr (tegra_ivc_channel_avail_count (hdr ?m (tx_channel a)) = 1, a, ?m)"
    using one_frame(1) [OF L(1,3)] L(3) by (simp add: tegra_ivc_write_advance_def tegra_ivc_advance_tx_def Let_def)
  moreover from w(1) this have a: "a\<lparr>w_pos := wp\<rparr> = a" by simp
  moreover have "tegra_ivc_channel_avail_count (hdr ?m (tx_channel a)) = 1"
    using w(2) by (simp add: pending_def tegra_ivc_channel_avail_count_def word_unat_eq_iff)
  moreover have "pending b ?m = pending b m" using one_frame(6,8) [OF L(1,3)] by (simp add: pending_def)
  then have "bpmp_link a b ?m [frame_at m (frame_slot a 0)] ins"
    using L w(2,3) a d(2) g st one_frame(6-8) [OF L(1,3)]
    by (intro bpmp_linkI) (auto simp: ivc_link_inv_def dir_ok_def ivc_geom_sym split: if_splits)
  ultimately show ?thesis by simp
qed

text \<open>Reading.\<close>

lemma link_read_get:
  assumes "bpmp_link a b m out ins"
  shows "tegra_ivc_read_get_next_frame a m = Some (if ins = [] then Inl ENOMEM else Inr (frame_slot b 0))"
    and "ins = [r] \<Longrightarrow> frame_at m (frame_slot b 0) = r"
proof -
  note L = bpmp_linkD [OF assms]
  have g: "ivc_geom b a" and d: "dir_ok b a m" and st: "ch_state (hdr m (tx_channel a)) = ivc_state_established"
    using L(1,2) by (simp_all add: ivc_link_inv_def)
  have "tegra_ivc_frame_pointer a (rx_channel a) (r_pos a) = Some (frame_slot b 0)"
    using frame_pointer_slot(2) [OF g, of "r_pos a"] one_frame(2) [OF L(2,4)] L(4) by simp
  then show "tegra_ivc_read_get_next_frame a m = Some (if ins = [] then Inl ENOMEM else Inr (frame_slot b 0))"
    using read_empty [OF g d st] L(6) by (simp add: tegra_ivc_read_get_next_frame_def)
  show "ins = [r] \<Longrightarrow> frame_at m (frame_slot b 0) = r" using L(6) by (simp split: if_splits)
qed

lemma link_read_advance:
  assumes "bpmp_link a b m out [r]"
  shows "\<exists>m'. tegra_ivc_read_advance a m = Inr (True, a, m') \<and> bpmp_link a b m' out [] \<and> frame_at m' = frame_at m"
proof -
  note L = bpmp_linkD [OF assms]
  let ?m = "upd_hdr (tx_channel b) (\<lambda>h. h\<lparr>r_count := r_count h + 1\<rparr>) m"
  have g: "ivc_geom b a" and d: "dir_ok a b m" "dir_ok b a m" and st: "ch_state (hdr m (tx_channel a)) = ivc_state_established"
    "ch_state (hdr m (tx_channel b)) = ivc_state_established" using L(1,2) by (simp_all add: ivc_link_inv_def)
  have p1: "pending b m = 1" using L(6) one_frame(5) [OF L(2,4)] by (simp split: if_splits)
  from read_step [OF g d(2) st(1)] p1 obtain n rp where w:
    "tegra_ivc_read_advance a m = Inr (n, a\<lparr>r_pos := rp\<rparr>, ?m)" "pending b ?m = 0" "dir_ok b (a\<lparr>r_pos := rp\<rparr>) ?m" by auto
  have "tegra_ivc_check_read a m = Inr ()" using read_empty [OF g d(2) st(1)] p1 by simp
  then have "tegra_ivc_read_advance a m = Inr (tegra_ivc_channel_avail_count (hdr ?m (tx_channel b)) = 0, a, ?m)"
    using one_frame(2) [OF L(2,4)] L(3) one_frame(6) [OF L(1,3)]
    by (simp add: tegra_ivc_read_advance_def tegra_ivc_advance_rx_def Let_def)
  moreover from w(1) this have a: "a\<lparr>r_pos := rp\<rparr> = a" by simp
  moreover have "tegra_ivc_channel_avail_count (hdr ?m (tx_channel b)) = 0"
    using w(2) by (simp add: pending_def tegra_ivc_channel_avail_count_def unat_eq_0)
  moreover have "pending a ?m = pending a m" using one_frame(6,8) [OF L(1,3)] by (simp add: pending_def)
  then have "bpmp_link a b ?m out []"
    using L w(2,3) a d(1) g st one_frame(6-8) [OF L(1,3)]
    by (intro bpmp_linkI) (auto simp: ivc_link_inv_def dir_ok_def ivc_geom_sym split: if_splits)
  ultimately show ?thesis by simp
qed

text \<open>An established link needs no handling of notifications.\<close>

lemma link_notified:
  assumes "bpmp_link a b m out ins"
  shows "tegra_ivc_channel_notified a m = (Inr (), False, a, m)"
proof -
  note L = bpmp_linkD [OF assms]
  have "ch_state (hdr m (tx_channel a)) = ivc_enc Established" "ch_state (hdr m (rx_channel a)) = ivc_enc Established"
    using L(1) one_frame(6) [OF L(1,3)] by (auto simp: ivc_link_inv_def ivc_enc_def)
  from notified_by_table [OF this one_frame(8) [OF L(1,3)]] show ?thesis by (simp add: next_state_def apply_table_def)
qed

section \<open>The other processor\<close>

text \<open>
  The documented behaviour of the firmware: it is the other end of the link, takes a request, and sends one response for it.
  \<open>view\<close> shows its end of the link and the request it works on; \<open>lag\<close> bounds how often it is looked at in vain while
  it could act.
\<close>

inductive peer_step :: "(bytes \<Rightarrow> bytes) \<Rightarrow> tegra_ivc \<times> bytes option \<Rightarrow> ivc_mem \<Rightarrow> tegra_ivc \<times> bytes option \<Rightarrow> ivc_mem \<Rightarrow> bool"
  for serve where
  rest: "peer_step serve v m v m"
| take_request: "ivc_receive (a, b, m) = Some (f, a', b', m') \<Longrightarrow> peer_step serve (b, None) m (b', Some f) m'"
| send_response: "ivc_send (serve f) (b, a, m) = Some (b', a', m') \<Longrightarrow> peer_step serve (b, Some f) m (b', None) m'"

definition can_act :: "tegra_ivc \<times> bytes option \<Rightarrow> ivc_mem \<Rightarrow> bool" where
  "can_act v m = (case snd v of
     None \<Rightarrow> ivc_receive (fst v, fst v, m) \<noteq> None | Some f \<Rightarrow> ivc_send f (fst v, fst v, m) \<noteq> None)"

definition peer_law :: "'p peer \<Rightarrow> ('p \<Rightarrow> tegra_ivc \<times> bytes option) \<Rightarrow> (bytes \<Rightarrow> bytes) \<Rightarrow> ('p \<Rightarrow> nat) \<Rightarrow> nat \<Rightarrow> bool" where
  "peer_law peer view serve lag R \<longleftrightarrow>
     (\<forall>p m p' m'. peer p m = (p', m') \<longrightarrow> peer_step serve (view p) m (view p') m' \<and>
        (can_act (view p) m \<and> view p' = view p \<longrightarrow> lag p' < lag p)) \<and>
     (\<forall>p. lag p < TIMEOUT_THRESHOLD) \<and> (\<forall>f. length f = R \<longrightarrow> length (serve f) = R)"

text \<open>What has become of a request.\<close>

datatype phase = Quiet | Sent bytes | Working bytes | Answered bytes

fun ph_out :: "phase \<Rightarrow> bytes list" where
  "ph_out (Sent f) = [f]"
| "ph_out _ = []"

fun ph_job :: "phase \<Rightarrow> bytes option" where
  "ph_job (Working f) = Some f"
| "ph_job _ = None"

fun ph_in :: "phase \<Rightarrow> bytes list" where
  "ph_in (Answered r) = [r]"
| "ph_in _ = []"

fun ph_next :: "(bytes \<Rightarrow> bytes) \<Rightarrow> phase \<Rightarrow> phase" where
  "ph_next serve (Sent f) = Working f"
| "ph_next serve (Working f) = Answered (serve f)"
| "ph_next serve ph = ph"

definition in_phase :: "nat \<Rightarrow> tegra_ivc \<Rightarrow> tegra_ivc \<Rightarrow> tegra_ivc \<times> bytes option \<Rightarrow> ivc_mem \<Rightarrow> phase \<Rightarrow> bool" where
  "in_phase R a b v m ph \<longleftrightarrow> v = (b, ph_job ph) \<and> bpmp_link a b m (ph_out ph) (ph_in ph) \<and>
     length (frame_at m (frame_slot a 0)) = R \<and> length (frame_at m (frame_slot b 0)) = R \<and> list_all (\<lambda>f. length f = R) (ph_out ph) \<and>
     (\<forall>f. ph_job ph = Some f \<longrightarrow> length f = R)"

lemma link_ivc_receive:
  assumes "bpmp_link a b m out ins"
  shows "case ivc_receive (a0, b, m) of
      None \<Rightarrow> out = []
    | Some (f, a1, b', m') \<Rightarrow> out = [f] \<and> b' = b \<and> bpmp_link a b m' [] ins \<and> frame_at m' = frame_at m"
proof -
  note B = bpmp_link_sym [OF assms]
  show ?thesis
  proof (cases out)
    case Nil
    then show ?thesis using link_read_get(1) [OF B] by (simp add: ivc_receive_def)
  next
    case (Cons f fs)
    then have out: "out = [f]" using bpmp_linkD(5) [OF assms] by (simp split: if_splits)
    from link_read_advance [OF B [unfolded out]] obtain m' where
      "tegra_ivc_read_advance b m = Inr (True, b, m')" "bpmp_link b a m' ins []" "frame_at m' = frame_at m" by blast
    then show ?thesis using out link_read_get [OF B] bpmp_link_sym by (simp add: ivc_receive_def)
  qed
qed

lemma link_ivc_send:
  assumes "bpmp_link a b m out ins"
  shows "case ivc_send r (b, a0, m) of
      None \<Rightarrow> ins \<noteq> []
    | Some (b', a1, m') \<Rightarrow> ins = [] \<and> b' = b \<and> bpmp_link a b m' out [r] \<and> frame_at m' = (frame_at m)(frame_slot b 0 := r)"
proof -
  note B = bpmp_link_sym [OF assms]
  show ?thesis
  proof (cases "ins = []")
    case False
    then show ?thesis using link_write_get [OF B] by (simp add: ivc_send_def)
  next
    case True
    from link_write_advance [OF link_store [OF B [unfolded True], of r]] obtain m' where
      "tegra_ivc_write_advance b (m\<lparr>frame_at := (frame_at m)(frame_slot b 0 := r)\<rparr>) = Inr (True, b, m')" "bpmp_link b a m' [r] out"
      "frame_at m' = (frame_at m)(frame_slot b 0 := r)" by auto
    then show ?thesis using True link_write_get [OF B] bpmp_link_sym by (simp add: ivc_send_def)
  qed
qed

lemma phase_step:
  assumes "in_phase R a b v m ph" and "peer_step serve v m v' m'" and "\<And>f. length f = R \<Longrightarrow> length (serve f) = R"
  shows "v' = v \<and> m' = m \<or> ph_next serve ph \<noteq> ph \<and> in_phase R a b v' m' (ph_next serve ph)"
proof -
  have v: "v = (b, ph_job ph)" and l: "bpmp_link a b m (ph_out ph) (ph_in ph)" using assms(1) by (simp_all add: in_phase_def)
  have ne: "frame_slot a 0 \<noteq> frame_slot b 0" using one_frame(4) [OF bpmp_linkD(1,3) [OF l]] .
  from assms(2) show ?thesis
  proof cases
    case rest
    then show ?thesis by simp
  next
    case (take_request a0 b0 f a1 b')
    with link_ivc_receive [OF l, of a0] v assms(1) show ?thesis by (cases ph) (auto simp: in_phase_def)
  next
    case (send_response f b0 a0 b' a1)
    with link_ivc_send [OF l, of "serve f" a0] v assms(1,3) ne show ?thesis by (cases ph) (auto simp: in_phase_def)
  qed
qed

lemma phase_can_act:
  assumes "in_phase R a b v m ph" and "ph_next serve ph \<noteq> ph"
  shows "can_act v m"
proof -
  have v: "v = (b, ph_job ph)" and l: "bpmp_link a b m (ph_out ph) (ph_in ph)" using assms(1) by (auto simp: in_phase_def)
  show ?thesis
    using link_ivc_receive [OF l, of b] link_ivc_send [OF l, of "the (ph_job ph)" b] v assms(2)
    by (cases ph) (auto simp: can_act_def split: option.splits)
qed

section \<open>A request and its response\<close>

text \<open>The channels are mapped, the doorbell can be rung, and the link is in a phase of a request.\<close>

definition bell_ok :: "'p bpmp_state \<Rightarrow> bool" where
  "bell_ok s \<longleftrightarrow> hsp_ring (bp_hsp (bpmp_data s)) \<and>
     (case priv_at s (hsp_data (bp_hsp (bpmp_data s))) of
        None \<Rightarrow> False | Some p \<Rightarrow> accessible s (hsp_get_doorbell_register p BPMP_DBELL DBELL_TRIGGER))"

definition bpmp_ok :: "('p \<Rightarrow> tegra_ivc \<times> bytes option) \<Rightarrow> nat \<Rightarrow> tegra_ivc \<Rightarrow> 'p bpmp_state \<Rightarrow> phase \<Rightarrow> bool" where
  "bpmp_ok view R b s ph \<longleftrightarrow>
     accessible s (tx_channel (bp_ivc (bpmp_data s))) \<and> accessible s (rx_channel (bp_ivc (bpmp_data s))) \<and> bell_ok s \<and>
     in_phase R (bp_ivc (bpmp_data s)) b (view (peer_state s)) (shmem s) ph"

lemma accessible_updates [simp]:
  fixes s :: "'p bpmp_state"
  shows "accessible (s\<lparr>regs := x\<rparr>) a = accessible s a"
    "accessible (s\<lparr>shmem := m\<rparr>) a = accessible s a" "accessible (s\<lparr>peer_state := p\<rparr>) a = accessible s a"
    "accessible (s\<lparr>bpmp_data := d\<rparr>) a = accessible s a"
  by (simp_all add: accessible_def)

lemma bell_ok_updates [simp]:
  "bell_ok (s\<lparr>shmem := m\<rparr>) = bell_ok s" "bell_ok (s\<lparr>peer_state := p\<rparr>) = bell_ok s" "bell_ok (s\<lparr>regs := x\<rparr>) = bell_ok s"
  by (simp_all add: bell_ok_def split: option.splits)

text \<open>The driver's data is not touched by what happens to the shared memory, and a notification only rings the bell.\<close>

lemma set_ivc_same: "ivc = bp_ivc (bpmp_data s) \<Longrightarrow> set_ivc ivc m s = s\<lparr>shmem := m\<rparr>"
  by (simp add: set_ivc_def)

lemma notify_bell:
  assumes "bell_ok s"
  shows "\<exists>x. notify_if n s = Some (s\<lparr>regs := x\<rparr>)"
proof -
  have "check_doorbell_id_is_valid BPMP_DBELL" by (simp add: valid_doorbell BPMP_DBELL_def)
  then have "\<exists>x. bpmp_ivc_notify s = Some (s\<lparr>regs := x\<rparr>)"
    using assms
    by (auto simp: bell_ok_def bpmp_ivc_notify_def tx2_hsp_doorbell_ring_def hsp_doorbell_ring_def reg_write_def split: option.splits)
  moreover have "\<exists>x. s = s\<lparr>regs := x\<rparr>" by (rule exI [of _ "regs s"]) simp
  ultimately show ?thesis by (simp add: notify_if_def)
qed

definition wait_cost :: "('p \<Rightarrow> nat) \<Rightarrow> phase \<Rightarrow> 'p \<Rightarrow> nat" where
  "wait_cost lag ph p = (case ph of Sent f \<Rightarrow> TIMEOUT_THRESHOLD + lag p + 1 | Working f \<Rightarrow> lag p + 1 | _ \<Rightarrow> 0)"

lemma access_ok:
  assumes "peer_law peer view serve lag R" and "bpmp_ok view R b s ph"
  shows "\<exists>p m ph'. channel_access peer s = Some (s\<lparr>peer_state := p, shmem := m\<rparr>) \<and> bpmp_ok view R b (s\<lparr>peer_state := p, shmem := m\<rparr>) ph' \<and>
    (ph' = ph \<or> ph' = ph_next serve ph) \<and> wait_cost lag ph' p \<le> wait_cost lag ph (peer_state s) - 1"
proof -
  obtain p m where pm: "peer (peer_state s) (shmem s) = (p, m)" by fastforce
  let ?v = "view (peer_state s)"
  have law: "peer_step serve ?v (shmem s) (view p) m" "can_act ?v (shmem s) \<Longrightarrow> view p = ?v \<Longrightarrow> lag p < lag (peer_state s)"
    "\<And>q. lag q < TIMEOUT_THRESHOLD" "\<And>f. length f = R \<Longrightarrow> length (serve f) = R"
    using assms(1) pm unfolding peer_law_def by blast+
  have ph: "in_phase R (bp_ivc (bpmp_data s)) b ?v (shmem s) ph" using assms(2) by (simp add: bpmp_ok_def)
  have acc: "channel_access peer s = Some (s\<lparr>peer_state := p, shmem := m\<rparr>)" using assms(2) pm by (simp add: channel_access_def bpmp_ok_def)
  from phase_step [OF ph law(1,4)] show ?thesis
  proof
    assume same: "view p = ?v \<and> m = shmem s"
    have "lag p < lag (peer_state s)" if "ph_next serve ph \<noteq> ph" using law(2) phase_can_act [OF ph that] same by simp
    then have "wait_cost lag ph p \<le> wait_cost lag ph (peer_state s) - 1" by (cases ph) (auto simp: wait_cost_def)
    then show ?thesis using same acc assms(2) by (intro exI [of _ p] exI [of _ m] exI [of _ ph]) (simp add: bpmp_ok_def)
  next
    assume nx: "ph_next serve ph \<noteq> ph \<and> in_phase R (bp_ivc (bpmp_data s)) b (view p) m (ph_next serve ph)"
    have "wait_cost lag (ph_next serve ph) p \<le> wait_cost lag ph (peer_state s) - 1"
      using nx law(3) [of p] by (cases ph) (auto simp: wait_cost_def)
    then show ?thesis using nx acc assms(2) by (intro exI [of _ p] exI [of _ m] exI [of _ "ph_next serve ph"]) (simp add: bpmp_ok_def)
  qed
qed

text \<open>The response that a phase leads to.\<close>

fun ph_result :: "(bytes \<Rightarrow> bytes) \<Rightarrow> phase \<Rightarrow> bytes option" where
  "ph_result serve Quiet = None"
| "ph_result serve (Sent f) = Some (serve f)"
| "ph_result serve (Working f) = Some (serve f)"
| "ph_result serve (Answered r) = Some r"

lemma ph_result_next [simp]: "ph_result serve (ph_next serve ph) = ph_result serve ph"
  by (cases ph) simp_all

lemma wait_ok:
  assumes "peer_law peer view serve lag R" and "bpmp_ok view R b s ph" and "ph_result serve ph = Some r"
    and "wait_cost lag ph (peer_state s) \<le> 2 * t" and "0 < t"
  shows "\<exists>p m. bpmp_wait peer t s = Some (Inr (frame_slot b 0), s\<lparr>peer_state := p, shmem := m\<rparr>) \<and>
    bpmp_ok view R b (s\<lparr>peer_state := p, shmem := m\<rparr>) (Answered r)"
  using assms(2-)
proof (induction t arbitrary: s ph)
  case (Suc t)
  from access_ok [OF assms(1) Suc.prems(1)] obtain p1 m1 ph1 where
    A: "channel_access peer s = Some (s\<lparr>peer_state := p1, shmem := m1\<rparr>)" "bpmp_ok view R b (s\<lparr>peer_state := p1, shmem := m1\<rparr>) ph1"
      "ph_result serve ph1 = Some r" "wait_cost lag ph1 p1 \<le> wait_cost lag ph (peer_state s) - 1"
    using Suc.prems(2) by (metis ph_result_next)
  let ?s1 = "s\<lparr>peer_state := p1, shmem := m1\<rparr>"
  have l1: "bpmp_link (bp_ivc (bpmp_data s)) b m1 (ph_out ph1) (ph_in ph1)" using A(2) by (simp add: bpmp_ok_def in_phase_def)
  from access_ok [OF assms(1) A(2)] obtain p2 m2 ph2 where
    B: "channel_access peer ?s1 = Some (?s1\<lparr>peer_state := p2, shmem := m2\<rparr>)" "bpmp_ok view R b (?s1\<lparr>peer_state := p2, shmem := m2\<rparr>) ph2"
      "ph_result serve ph2 = Some r" "wait_cost lag ph2 p2 \<le> wait_cost lag ph1 (peer_state ?s1) - 1"
    using A(3) by (metis ph_result_next)
  let ?s2 = "s\<lparr>peer_state := p2, shmem := m2\<rparr>"
  have s2: "?s1\<lparr>peer_state := p2, shmem := m2\<rparr> = ?s2" by simp
  note B = B [unfolded s2]
  have l2: "bpmp_link (bp_ivc (bpmp_data s)) b m2 (ph_out ph2) (ph_in ph2)" using B(2) by (simp add: bpmp_ok_def in_phase_def)
  have step: "bpmp_wait peer (Suc t) s =
      (if ph_in ph2 = [] then bpmp_wait peer t ?s2 else Some (Inr (frame_slot b 0), ?s2))"
    using A(1) B(1) link_notified [OF l1] link_read_get(1) [OF l2] by (simp add: notify_if_def set_ivc_same)
  show ?case
  proof (cases "ph_in ph2 = []")
    case False
    then have "ph2 = Answered r" using B(3) by (cases ph2) simp_all
    then show ?thesis using step B(2) by auto
  next
    case True
    then have "0 < wait_cost lag ph2 p2" using B(3) by (cases ph2) (simp_all add: wait_cost_def)
    then have "wait_cost lag ph2 (peer_state ?s2) \<le> 2 * t" "0 < t" using A(4) B(4) Suc.prems(3) by auto
    from Suc.IH [OF B(2,3) this] show ?thesis using step True by auto
  qed
qed simp

definition request_bytes :: "u32 \<Rightarrow> bytes \<Rightarrow> u64 \<Rightarrow> bytes" where
  "request_bytes mrq tx_msg tx_size =
     put_request \<lparr>rq_mrq = mrq, rq_flags = BPMP_FLAG_DO_ACK OR BPMP_FLAG_RING_DOORBELL\<rparr> @ take (unat tx_size) tx_msg"

lemma length_request_bytes: "unat tx_size \<le> length tx_msg \<Longrightarrow> length (request_bytes mrq tx_msg tx_size) = 8 + unat tx_size"
  by (simp add: request_bytes_def put_request_def le32_def)

text \<open>What a response makes a call return, and what it leaves in the buffer of the client.\<close>

definition reply :: "bytes \<Rightarrow> bytes option \<Rightarrow> u64 \<Rightarrow> (errno + u64) \<times> bytes option" where
  "reply r rx_msg rx_size =
     (if le32_val r \<noteq> 0 then (Inl EIO, rx_msg)
      else (Inr rx_size, map_option (\<lambda>buf. take (unat rx_size) (drop 8 r) @ drop (unat rx_size) buf) rx_msg))"

lemma wait_done:
  assumes law: "peer_law peer view serve lag R" and "bpmp_ok view R b s (Sent f)"
  shows "\<exists>s'. bpmp_wait peer TIMEOUT_THRESHOLD s = Some (Inr (frame_slot b 0), s') \<and> bpmp_ok view R b s' (Answered (serve f)) \<and>
    bpmp_data s' = bpmp_data s"
proof -
  have "lag (peer_state s) < TIMEOUT_THRESHOLD" using law by (simp add: peer_law_def)
  then have "wait_cost lag (Sent f) (peer_state s) \<le> 2 * TIMEOUT_THRESHOLD" "0 < TIMEOUT_THRESHOLD"
    by (simp_all add: wait_cost_def)
  from wait_ok [OF law assms(2) _ this] show ?thesis by auto
qed

text \<open>Another state in which only the shared memory, the registers and the other processor differ.\<close>

definition kept :: "'p bpmp_state \<Rightarrow> 'p bpmp_state \<Rightarrow> bool" where
  "kept s s' \<longleftrightarrow> bpmp_data s' = bpmp_data s \<and> mapped s' = mapped s \<and> priv_at s' = priv_at s"

lemma kept_ok:
  assumes "bpmp_ok view R b s ph" and "kept s s'" and "in_phase R (bp_ivc (bpmp_data s)) b (view (peer_state s')) (shmem s') ph'"
  shows "bpmp_ok view R b s' ph'"
proof -
  have "accessible s' a = accessible s a" for a using assms(2) by (simp add: accessible_def kept_def)
  with assms show ?thesis by (simp add: bpmp_ok_def bell_ok_def kept_def split: option.splits)
qed

lemma send_link:
  assumes acc: "channel_access peer s = Some s1" and s1: "bp_ivc (bpmp_data s1) = a" "bpmp_link a b (shmem s1) [] ins"
    and len: "unat tx_size \<le> length tx_msg" "8 + unat tx_size \<le> length (frame_at (shmem s1) (frame_slot a 0))"
    and f: "f = request_bytes mrq tx_msg tx_size @ drop (8 + unat tx_size) (frame_at (shmem s1) (frame_slot a 0))"
    and acc2: "channel_access peer (s1\<lparr>shmem := (shmem s1)\<lparr>frame_at := (frame_at (shmem s1))(frame_slot a 0 := f)\<rparr>\<rparr>) = Some s2"
    and s2: "bp_ivc (bpmp_data s2) = a" "bpmp_link a b (shmem s2) [] ins2" "frame_at (shmem s2) (frame_slot a 0) = f" "bell_ok s2"
  shows "\<exists>s'. bpmp_send peer mrq tx_msg tx_size s = Some (None, s') \<and> kept s2 s' \<and> peer_state s' = peer_state s2 \<and>
    bpmp_link a b (shmem s') [f] ins2 \<and> frame_at (shmem s') = frame_at (shmem s2)"
proof -
  have put: "put_bytes (request_bytes mrq tx_msg tx_size) (frame_at (shmem s1) (frame_slot a 0)) = Some f"
    using len f by (simp add: put_bytes_def length_request_bytes)
  from link_write_advance [OF s2(2)] s2(3) obtain m where
    m: "tegra_ivc_write_advance a (shmem s2) = Inr (True, a, m)" "bpmp_link a b m [f] ins2" "frame_at m = frame_at (shmem s2)" by auto
  obtain x where x: "notify_if True (s2\<lparr>shmem := m\<rparr>) = Some (s2\<lparr>shmem := m, regs := x\<rparr>)"
    using notify_bell [of "s2\<lparr>shmem := m\<rparr>" True] s2(4) by auto
  have "bpmp_send peer mrq tx_msg tx_size s = Some (None, s2\<lparr>shmem := m, regs := x\<rparr>)"
    using acc acc2 link_write_get [OF s1(2)] s1(1) s2(1) len(1) put m(1) x
    by (simp add: bpmp_send_def set_ivc_same request_bytes_def)
  then show ?thesis using m by (simp add: kept_def)
qed

lemma receive_link:
  assumes acc: "channel_access peer s = Some s1" and s1: "bp_ivc (bpmp_data s1) = a" "bpmp_link a b (shmem s1) out [r]" "bell_ok s1"
    and r: "frame_at (shmem s) (frame_slot b 0) = r" "8 + unat rx_size \<le> length r" "\<And>buf. rx_msg = Some buf \<Longrightarrow> unat rx_size \<le> length buf"
  shows "\<exists>s'. bpmp_receive peer (frame_slot b 0) rx_msg rx_size s =
      Some (fst (reply r rx_msg rx_size), snd (reply r rx_msg rx_size), s') \<and> kept s1 s' \<and> peer_state s' = peer_state s1 \<and>
    bpmp_link a b (shmem s') out [] \<and> frame_at (shmem s') = frame_at (shmem s1)"
proof -
  from link_read_advance [OF s1(2)] obtain m where
    m: "tegra_ivc_read_advance a (shmem s1) = Inr (True, a, m)" "bpmp_link a b m out []" "frame_at m = frame_at (shmem s1)" by blast
  obtain x where x: "notify_if True (s1\<lparr>shmem := m\<rparr>) = Some (s1\<lparr>shmem := m, regs := x\<rparr>)"
    using notify_bell [of "s1\<lparr>shmem := m\<rparr>" True] s1(3) by auto
  have "get_response r = Some \<lparr>rs_err = le32_val r, rs_flags = le32_val (drop 4 r)\<rparr>" using r(2) by (simp add: get_response_def)
  then have "bpmp_receive peer (frame_slot b 0) rx_msg rx_size s =
      Some (fst (reply r rx_msg rx_size), snd (reply r rx_msg rx_size), s1\<lparr>shmem := m, regs := x\<rparr>)"
    using acc s1(1) r m(1) x
    by (cases rx_msg) (auto simp: bpmp_receive_def set_ivc_same reply_def put_bytes_def Let_def min_def unat_eq_0)
  then show ?thesis using m by (simp add: kept_def)
qed

text \<open>In a quiet phase, and when the response is there, the other processor has nothing to do.\<close>

lemma access_still:
  assumes "peer_law peer view serve lag R" and "bpmp_ok view R b s ph" and "ph_next serve ph = ph"
  shows "\<exists>s'. channel_access peer s = Some s' \<and> bpmp_ok view R b s' ph \<and> kept s s' \<and> shmem s' = shmem s"
proof -
  obtain p m where pm: "peer (peer_state s) (shmem s) = (p, m)" by fastforce
  have ph: "in_phase R (bp_ivc (bpmp_data s)) b (view (peer_state s)) (shmem s) ph" using assms(2) by (simp add: bpmp_ok_def)
  have "peer_step serve (view (peer_state s)) (shmem s) (view p) m" "\<And>f. length f = R \<Longrightarrow> length (serve f) = R"
    using assms(1) pm unfolding peer_law_def by blast+
  from phase_step [OF ph this] assms(3) have "view p = view (peer_state s)" "m = shmem s" by auto
  then show ?thesis using assms(2) pm by (simp add: channel_access_def bpmp_ok_def kept_def)
qed

lemma send_ok:
  assumes law: "peer_law peer view serve lag R" and ok: "bpmp_ok view R b s Quiet"
    and len: "unat tx_size \<le> length tx_msg" "8 + unat tx_size \<le> R"
  shows "\<exists>rest s'. bpmp_send peer mrq tx_msg tx_size s = Some (None, s') \<and> kept s s' \<and>
    bpmp_ok view R b s' (Sent (request_bytes mrq tx_msg tx_size @ rest))"
proof -
  from access_still [OF law ok] obtain s1 where
    s1: "channel_access peer s = Some s1" "bpmp_ok view R b s1 Quiet" "kept s s1" by auto
  let ?a = "bp_ivc (bpmp_data s1)" and ?m = "shmem s1"
  define f where "f = request_bytes mrq tx_msg tx_size @ drop (8 + unat tx_size) (frame_at ?m (frame_slot ?a 0))"
  let ?s1 = "s1\<lparr>shmem := ?m\<lparr>frame_at := (frame_at ?m)(frame_slot ?a 0 := f)\<rparr>\<rparr>"
  have l: "bpmp_link ?a b ?m [] []" "length (frame_at ?m (frame_slot ?a 0)) = R" "length (frame_at ?m (frame_slot b 0)) = R"
    and v: "view (peer_state s1) = (b, None)" using s1(2) by (simp_all add: bpmp_ok_def in_phase_def)
  have ne: "frame_slot ?a 0 \<noteq> frame_slot b 0" using one_frame(4) [OF bpmp_linkD(1,3) [OF l(1)]] .
  have f: "length f = R" using len l(2) by (simp add: f_def length_request_bytes)
  have "bpmp_ok view R b ?s1 Quiet"
    by (rule kept_ok [OF s1(2)]) (use link_store [OF l(1), of f] l ne f v in \<open>simp_all add: kept_def in_phase_def\<close>)
  from access_still [OF law this] obtain s2 where
    s2: "channel_access peer ?s1 = Some s2" "bpmp_ok view R b s2 Quiet" "kept s1 s2" "frame_at (shmem s2) = (frame_at ?m)(frame_slot ?a 0 := f)"
    by (auto simp: kept_def)
  have a: "bp_ivc (bpmp_data s2) = ?a" using s2(3) by (simp add: kept_def)
  have "bpmp_link ?a b (shmem s2) [] []" "bell_ok s2" and v2: "view (peer_state s2) = (b, None)"
    using s2(2) a by (simp_all add: bpmp_ok_def in_phase_def)
  from send_link [OF s1(1) refl l(1) len(1) _ f_def s2(1) a this(1) _ this(2)] len(2) l(2) s2(4) obtain s' where
    s': "bpmp_send peer mrq tx_msg tx_size s = Some (None, s')" "kept s2 s'" "peer_state s' = peer_state s2"
      "bpmp_link ?a b (shmem s') [f] []" "frame_at (shmem s') = frame_at (shmem s2)" by auto
  have "bpmp_ok view R b s' (Sent f)"
    by (rule kept_ok [OF s2(2) s'(2)]) (use s' s2(4) a v2 f l ne in \<open>simp add: in_phase_def\<close>)
  then show ?thesis using s'(1,2) s1(3) s2(3) by (auto simp: kept_def f_def)
qed

lemma call_answered:
  assumes law: "peer_law peer view serve lag R" and ok: "bpmp_ok view R b s Quiet"
    and sizes: "unat tx_size \<le> 128" "unat rx_size \<le> 128" "8 + unat tx_size \<le> R" "8 + unat rx_size \<le> R"
    and bufs: "unat tx_size \<le> length tx_msg" "\<And>buf. rx_msg = Some buf \<Longrightarrow> unat rx_size \<le> length buf"
  shows "\<exists>rest s'. bpmp_call peer mrq tx_msg tx_size rx_msg rx_size s =
      Some (fst (reply (serve (request_bytes mrq tx_msg tx_size @ rest)) rx_msg rx_size),
            snd (reply (serve (request_bytes mrq tx_msg tx_size @ rest)) rx_msg rx_size), s') \<and>
    bpmp_ok view R b s' Quiet"
proof -
  from send_ok [OF law ok bufs(1) sizes(3), of mrq] obtain rest s1 where
    A: "bpmp_send peer mrq tx_msg tx_size s = Some (None, s1)"
      "bpmp_ok view R b s1 (Sent (request_bytes mrq tx_msg tx_size @ rest))" by blast
  let ?r = "serve (request_bytes mrq tx_msg tx_size @ rest)"
  from wait_done [OF law A(2)] obtain s2 where
    B: "bpmp_wait peer TIMEOUT_THRESHOLD s1 = Some (Inr (frame_slot b 0), s2)" "bpmp_ok view R b s2 (Answered ?r)" by blast
  from access_still [OF law B(2)] obtain s3 where
    C: "channel_access peer s2 = Some s3" "bpmp_ok view R b s3 (Answered ?r)" "shmem s3 = shmem s2" by auto
  let ?a = "bp_ivc (bpmp_data s3)"
  have l: "bpmp_link ?a b (shmem s3) [] [?r]" "length (frame_at (shmem s3) (frame_slot b 0)) = R" "bell_ok s3"
    using C(2) by (simp_all add: bpmp_ok_def in_phase_def)
  have r: "frame_at (shmem s2) (frame_slot b 0) = ?r" using link_read_get(2) [OF l(1)] C(3) by simp
  then have "8 + unat rx_size \<le> length ?r" using l(2) C(3) sizes(4) by simp
  from receive_link [OF C(1) refl l(1,3) r this bufs(2)] obtain s' where
    D: "bpmp_receive peer (frame_slot b 0) rx_msg rx_size s2 =
      Some (fst (reply ?r rx_msg rx_size), snd (reply ?r rx_msg rx_size), s')" "kept s3 s'" "peer_state s' = peer_state s3"
    "bpmp_link ?a b (shmem s') [] []" "frame_at (shmem s') = frame_at (shmem s3)" by auto
  have "bpmp_ok view R b s' Quiet"
    by (rule kept_ok [OF C(2) D(2)]) (use C(2) D in \<open>simp add: bpmp_ok_def in_phase_def\<close>)
  moreover have "\<not> ucast BPMP_IVC_FRAME_SIZE < tx_size" "\<not> ucast BPMP_IVC_FRAME_SIZE < rx_size"
    using sizes(1,2) by (simp_all add: BPMP_IVC_FRAME_SIZE_def word_less_nat_alt)
  ultimately show ?thesis using A(1) B(1) D(1) by (intro exI [of _ rest] exI) (simp add: bpmp_call_def)
qed

text \<open>
  C4: A request is answered. The link is established and quiet, and the other processor, which takes a request and sends one
  response, is never looked at in vain two million times. Then a call whose sizes fit the mapped region returns; the response returned
  is the one to the bytes of this request (the bytes of the frame behind them are left from before); it is copied to the client unless it reports an
  error, which is returned as \<open>-EIO\<close>; and the link is quiet again, ready for the next call.
\<close>

theorem bpmp_call_answered:
  assumes law: "peer_law peer view serve lag R" and ok: "bpmp_ok view R b s Quiet"
    and sizes: "unat tx_size \<le> 128" "unat rx_size \<le> 128" "8 + unat tx_size \<le> R" "8 + unat rx_size \<le> R"
    and bufs: "unat tx_size \<le> length tx_msg" "\<And>buf. rx_msg = Some buf \<Longrightarrow> unat rx_size \<le> length buf"
  shows "\<exists>rest s'. bpmp_call peer mrq tx_msg tx_size rx_msg rx_size s =
      Some (fst (reply (serve (request_bytes mrq tx_msg tx_size @ rest)) rx_msg rx_size),
            snd (reply (serve (request_bytes mrq tx_msg tx_size @ rest)) rx_msg rx_size), s') \<and>
    bpmp_ok view R b s' Quiet"
  by (rule call_answered [OF assms])

text \<open>A firmware that acts whenever it can.\<close>

definition prompt_peer :: "(bytes \<Rightarrow> bytes) \<Rightarrow> (tegra_ivc \<times> bytes option) peer" where
  "prompt_peer serve v m = (case snd v of
     None \<Rightarrow> (case ivc_receive (fst v, fst v, m) of None \<Rightarrow> (v, m) | Some (f, _, b, m') \<Rightarrow> ((b, Some f), m'))
   | Some f \<Rightarrow> (case ivc_send (serve f) (fst v, fst v, m) of None \<Rightarrow> (v, m) | Some (b, _, m') \<Rightarrow> ((b, None), m')))"

lemma ivc_send_any: "ivc_send f (b, a, m) = None \<longleftrightarrow> ivc_send g (b, a, m) = None"
  by (auto simp: ivc_send_def tegra_ivc_write_advance_def tegra_ivc_check_write_def tegra_ivc_channel_full_def
      tegra_ivc_advance_tx_def upd_hdr_def split: option.splits sum.splits if_splits)

lemma prompt_peer_law:
  assumes "\<And>f. length f = R \<Longrightarrow> length (serve f) = R"
  shows "peer_law (prompt_peer serve) id serve (\<lambda>_. 0) R"
proof -
  have "peer_step serve v m v' m' \<and> (can_act v m \<longrightarrow> v' \<noteq> v)" if "prompt_peer serve v m = (v', m')" for v m v' m'
    using that ivc_send_any [of "the (snd v)" "fst v" "fst v" m "serve (the (snd v))"]
    by (cases v; cases "snd v")
      (auto simp: prompt_peer_def can_act_def split: option.splits
        intro: peer_step.rest peer_step.take_request peer_step.send_response)
  then show ?thesis using assms by (auto simp: peer_law_def TIMEOUT_THRESHOLD_def)
qed

definition demo_bpmp :: "(tegra_ivc \<times> bytes option) bpmp_state" where
  "demo_bpmp = \<lparr>calls = 9, allocated = [64], mapped = [(0x3c00000, 0xa0000), (0x3004e000, 0x1000), (0x3004f000, 0x1000)], cookies = [],
     priv_at = [64 \<mapsto> demo_priv], regs = (\<lambda>_. 0), bpmp_initialised = True, bpmp_refcount = 1,
     bpmp_data = \<lparr>bp_hsp = \<lparr>hsp_data = 64, hsp_ring = True, hsp_check = True, hsp_destr = True\<rparr>, hsp_initialised = True,
       bp_ivc = \<lparr>rx_channel = 0x3004f000, tx_channel = 0x3004e000, r_pos = 0, w_pos = 0, nframes = 1, frame_size = 128\<rparr>,
       tx_base = 0x3004e000, rx_base = 0x3004f000, tx_shmem = \<lparr>base_addr = 0x3004e000, pm_length = 0x1000\<rparr>,
       rx_shmem = \<lparr>base_addr = 0x3004f000, pm_length = 0x1000\<rparr>\<rparr>,
     shmem = \<lparr>hdr = (\<lambda>_. \<lparr>w_count = 0, ch_state = 0, r_count = 0\<rparr>), frame_at = (\<lambda>_. replicate 136 0)\<rparr>,
     peer_state = (\<lparr>rx_channel = 0x3004e000, tx_channel = 0x3004f000, r_pos = 0, w_pos = 0, nframes = 1, frame_size = 128\<rparr>, None)\<rparr>"

definition demo_echo :: "bytes \<Rightarrow> bytes" where
  "demo_echo f = replicate 8 0 @ drop 8 f"

lemma demo_bpmp_ok: "bpmp_ok id 136 (fst (peer_state demo_bpmp)) demo_bpmp Quiet"
proof -
  let ?a = "bp_ivc (bpmp_data demo_bpmp)" and ?b = "fst (peer_state demo_bpmp)"
  have "ivc_link_inv (?a, ?b, shmem demo_bpmp)" "ivc_link_inv (?b, ?a, shmem demo_bpmp)" "nframes ?a = 1"
    by (simp_all add: demo_bpmp_def ivc_link_inv_def ivc_geom_def dir_ok_def pending_def ivc_state_established_def)
  then have "bpmp_link ?a ?b (shmem demo_bpmp) [] []"
    by (rule bpmp_linkI) (simp_all add: demo_bpmp_def pending_def)
  moreover have "hsp_get_doorbell_register demo_priv BPMP_DBELL DBELL_TRIGGER = 0x3c90300"
    by (simp add: hsp_get_doorbell_register_def demo_priv_def BPMP_DBELL_def HSP_DOORBELL_BLOCK_STRIDE_def)
  ultimately show ?thesis
    by (simp add: bpmp_ok_def in_phase_def bell_ok_def) (simp add: demo_bpmp_def accessible_def)
qed

lemma replicate_eight: "replicate 8 x = [x, x, x, x, x, x, x, x]"
  by (simp add: numeral_eq_Suc)

theorem bpmp_call_answered_witness:
  "\<exists>s'. bpmp_call (prompt_peer demo_echo) 1 [5, 6] 2 (Some [9, 9, 9]) 2 demo_bpmp = Some (Inr 2, Some [5, 6, 9], s')"
proof -
  have law: "peer_law (prompt_peer demo_echo) id demo_echo (\<lambda>_. 0) 136" by (rule prompt_peer_law) (simp add: demo_echo_def)
  have r: "reply (demo_echo (request_bytes 1 [5, 6] 2 @ rest)) (Some [9, 9, 9]) 2 = (Inr 2, Some [5, 6, 9])" for rest
    by (simp add: reply_def demo_echo_def request_bytes_def put_request_def le32_def replicate_eight)
  show ?thesis
    using bpmp_call_answered [OF law demo_bpmp_ok, of 2 2 "[5, 6]" "Some [9, 9, 9]" 1] by (auto simp: r)
qed

end
