(* ===== verification/Bpmp_Use.thy ===== *)
theory Bpmp_Use
  imports Bpmp
begin

text \<open>
  Use of the requests of theory \<open>Bpmp\<close> over time: what a call does when the response comes late or not at all, what
  a message that does not fit the frame overwrites, how the channel is established, and how several clients share it.
\<close>

section \<open>Late responses\<close>

lemma send_full:
  assumes acc: "channel_access peer s = Some s1" and "bpmp_link (bp_ivc (bpmp_data s1)) b (shmem s1) [f] ins"
  shows "bpmp_send peer mrq tx_msg tx_size s = Some (Some ENOMEM, s1)"
  using acc link_write_get [OF assms(2)] by (simp add: bpmp_send_def)

text \<open>A processor that does not touch the shared memory.\<close>

definition silent :: "'p peer \<Rightarrow> bool" where
  "silent peer \<longleftrightarrow> (\<forall>p m. snd (peer p m) = m)"

definition usable :: "'p bpmp_state \<Rightarrow> bool" where
  "usable s \<longleftrightarrow> accessible s (tx_channel (bp_ivc (bpmp_data s))) \<and> accessible s (rx_channel (bp_ivc (bpmp_data s))) \<and> bell_ok s"

lemma usable_kept: "kept s s' \<Longrightarrow> usable s \<Longrightarrow> usable s'"
  by (simp add: usable_def kept_def bell_ok_def accessible_def split: option.splits)

lemma kept_trans [trans]: "kept s t \<Longrightarrow> kept t u \<Longrightarrow> kept s u"
  by (simp add: kept_def)

lemma access_silent:
  assumes "silent peer" and "usable s"
  shows "\<exists>s'. channel_access peer s = Some s' \<and> kept s s' \<and> shmem s' = shmem s"
proof -
  obtain p m where "peer (peer_state s) (shmem s) = (p, m)" by fastforce
  moreover from this have "m = shmem s" using assms(1) by (metis silent_def snd_conv)
  ultimately show ?thesis using assms(2) by (simp add: channel_access_def usable_def kept_def)
qed

lemma wait_silent:
  assumes "silent peer" and "usable s" and "bpmp_link (bp_ivc (bpmp_data s)) b (shmem s) out []"
  shows "\<exists>s'. bpmp_wait peer t s = Some (Inl ETIMEDOUT, s') \<and> kept s s' \<and> shmem s' = shmem s"
  using assms(2,3)
proof (induction t arbitrary: s)
  case 0
  then show ?case by (simp add: kept_def)
next
  case (Suc t)
  from access_silent [OF assms(1) Suc.prems(1)] obtain s1 where
    s1: "channel_access peer s = Some s1" "kept s s1" "shmem s1 = shmem s" by blast
  from access_silent [OF assms(1) usable_kept [OF s1(2) Suc.prems(1)]] obtain s2 where
    s2: "channel_access peer s1 = Some s2" "kept s1 s2" "shmem s2 = shmem s1" by blast
  have d: "bpmp_data s1 = bpmp_data s" "bpmp_data s2 = bpmp_data s" "shmem s2 = shmem s" "kept s s2"
    using s1 s2 by (auto simp: kept_def)
  have "set_ivc (bp_ivc (bpmp_data s)) (shmem s) s1 = s1" using s1(3) d(1) by (simp add: set_ivc_def)
  then have "bpmp_wait peer (Suc t) s = bpmp_wait peer t s2"
    using s1 s2 d link_notified [OF Suc.prems(2)] link_read_get(1) [OF Suc.prems(2)] by (simp add: notify_if_def)
  moreover have "\<exists>s'. bpmp_wait peer t s2 = Some (Inl ETIMEDOUT, s') \<and> kept s2 s' \<and> shmem s' = shmem s2"
    using Suc.IH [of s2] usable_kept [OF d(4) Suc.prems(1)] Suc.prems(2) d by simp
  ultimately show ?case using d kept_trans by fastforce
qed

lemma frame_sizes: "unat n \<le> 128 \<longleftrightarrow> \<not> ucast BPMP_IVC_FRAME_SIZE < n" for n :: u64
  by (simp add: BPMP_IVC_FRAME_SIZE_def word_less_nat_alt not_less)

lemma send_silent:
  assumes "silent peer" and "usable s" and "bpmp_link a b (shmem s) [] ins" and "a = bp_ivc (bpmp_data s)"
    and len: "unat tx_size \<le> length tx_msg" "8 + unat tx_size \<le> length (frame_at (shmem s) (frame_slot a 0))"
  shows "\<exists>s' f. bpmp_send peer mrq tx_msg tx_size s = Some (None, s') \<and> kept s s' \<and> bpmp_link a b (shmem s') [f] ins"
proof -
  from access_silent [OF assms(1,2)] obtain s1 where
    s1: "channel_access peer s = Some s1" "kept s s1" "shmem s1 = shmem s" by blast
  define f where "f = request_bytes mrq tx_msg tx_size @ drop (8 + unat tx_size) (frame_at (shmem s1) (frame_slot a 0))"
  let ?s1 = "s1\<lparr>shmem := (shmem s1)\<lparr>frame_at := (frame_at (shmem s1))(frame_slot a 0 := f)\<rparr>\<rparr>"
  have k: "kept s ?s1" using s1(2) by (simp add: kept_def)
  from access_silent [OF assms(1) usable_kept [OF k assms(2)]] obtain s2 where
    s2: "channel_access peer ?s1 = Some s2" "kept ?s1 s2" "shmem s2 = shmem ?s1" by blast
  have a: "bp_ivc (bpmp_data s1) = a" "bp_ivc (bpmp_data s2) = a" using s1(2) s2(2) assms(4) by (simp_all add: kept_def)
  have l: "bpmp_link a b (shmem s1) [] ins" "bpmp_link a b (shmem s2) [] ins"
    using assms(3) s1(3) s2(3) link_store by auto
  have "bell_ok s2" using usable_kept [OF kept_trans [OF k s2(2)] assms(2)] by (simp add: usable_def)
  from send_link [OF s1(1) a(1) l(1) len(1) _ f_def s2(1) a(2) l(2) _ this] len(2) s1(3) s2(3) obtain s' where
    "bpmp_send peer mrq tx_msg tx_size s = Some (None, s')" "kept s2 s'" "bpmp_link a b (shmem s') [f] ins" by auto
  then show ?thesis using kept_trans [OF k kept_trans [OF s2(2)]] by blast
qed

text \<open>
  A request that is not answered. If the other processor does not react, a call returns \<open>-ETIMEDOUT\<close> after its two million
  polls; the request stays in the only frame, and every later call returns \<open>-ENOMEM\<close>.
\<close>

theorem bpmp_timeout_blocks:
  assumes "silent peer" and "usable s" and "bpmp_link (bp_ivc (bpmp_data s)) b (shmem s) [] []"
    and "unat tx_size \<le> 128" "unat rx_size \<le> 128" and "unat tx_size \<le> length tx_msg"
    and "8 + unat tx_size \<le> length (frame_at (shmem s) (frame_slot (bp_ivc (bpmp_data s)) 0))"
  shows "\<exists>s1. bpmp_call peer mrq tx_msg tx_size rx_msg rx_size s = Some (Inl ETIMEDOUT, rx_msg, s1) \<and>
    (\<forall>mrq' tx_msg' tx_size' rx_msg' rx_size'. unat tx_size' \<le> 128 \<and> unat rx_size' \<le> 128 \<longrightarrow>
      (\<exists>s2. bpmp_call peer mrq' tx_msg' tx_size' rx_msg' rx_size' s1 = Some (Inl ENOMEM, rx_msg', s2)))"
proof -
  let ?a = "bp_ivc (bpmp_data s)"
  from send_silent [OF assms(1-3) refl assms(6,7)] obtain s' f where
    A: "bpmp_send peer mrq tx_msg tx_size s = Some (None, s')" "kept s s'" "bpmp_link ?a b (shmem s') [f] []" by blast
  have a: "bp_ivc (bpmp_data s') = ?a" and u: "usable s'" using A(2) usable_kept [OF _ assms(2)] by (auto simp: kept_def)
  from wait_silent [OF assms(1) u, unfolded a, OF A(3)] obtain s1 where
    B: "bpmp_wait peer TIMEOUT_THRESHOLD s' = Some (Inl ETIMEDOUT, s1)" "kept s' s1" "shmem s1 = shmem s'" by blast
  from access_silent [OF assms(1) usable_kept [OF B(2) u]] obtain s2 where
    C: "channel_access peer s1 = Some s2" "kept s1 s2" "shmem s2 = shmem s1" by blast
  have "bp_ivc (bpmp_data s2) = ?a" using A(2) B(2) C(2) by (simp add: kept_def)
  then have "bpmp_send peer mrq' tx_msg' tx_size' s1 = Some (Some ENOMEM, s2)" for mrq' tx_msg' tx_size'
    using send_full [OF C(1)] A(3) B(3) C(3) by simp
  then show ?thesis using assms(4,5) A(1) B(1) by (auto simp: bpmp_call_def frame_sizes)
qed

theorem bpmp_timeout_blocks_witness:
  "\<exists>s1. bpmp_call (\<lambda>p m. (p, m)) 1 [5, 6] 2 (Some [9, 9, 9]) 2 demo_bpmp = Some (Inl ETIMEDOUT, Some [9, 9, 9], s1)"
proof -
  let ?a = "bp_ivc (bpmp_data demo_bpmp)" and ?b = "fst (peer_state demo_bpmp)"
  have u: "usable demo_bpmp" and l: "bpmp_link ?a ?b (shmem demo_bpmp) [] []"
    and f: "8 + unat (2 :: u64) \<le> length (frame_at (shmem demo_bpmp) (frame_slot ?a 0))"
    using demo_bpmp_ok by (auto simp: bpmp_ok_def in_phase_def usable_def)
  have "silent (\<lambda>p m. (p, m))" by (simp add: silent_def)
  from bpmp_timeout_blocks [OF this u l _ _ _ f, of 2 "[5, 6]" 1 "Some [9, 9, 9]"] show ?thesis by auto
qed

text \<open>An unread response stays where it is, whatever the other processor does.\<close>

lemma full_step:
  assumes "bpmp_link a b m out [r]" and "peer_step serve (b, job) m v' m'"
  shows "\<exists>out'. bpmp_link a b m' out' [r] \<and> (out = [] \<longrightarrow> out' = []) \<and> fst v' = b \<and> frame_at m' = frame_at m"
  using assms(2)
proof cases
  case rest
  then show ?thesis using assms(1) by auto
next
  case (take_request a0 f a1 b')
  with link_ivc_receive [OF assms(1), of a0] show ?thesis by auto
next
  case (send_response f a0 b' a1)
  with link_ivc_send [OF assms(1), of "serve f" a0] show ?thesis by auto
qed

definition conforms :: "'p peer \<Rightarrow> ('p \<Rightarrow> tegra_ivc \<times> bytes option) \<Rightarrow> (bytes \<Rightarrow> bytes) \<Rightarrow> bool" where
  "conforms peer view serve \<longleftrightarrow> (\<forall>p m. peer_step serve (view p) m (view (fst (peer p m))) (snd (peer p m)))"

definition unread :: "('p \<Rightarrow> tegra_ivc \<times> bytes option) \<Rightarrow> tegra_ivc \<Rightarrow> bytes list \<Rightarrow> bytes \<Rightarrow> 'p bpmp_state \<Rightarrow> bool" where
  "unread view b out r s \<longleftrightarrow> usable s \<and> fst (view (peer_state s)) = b \<and> bpmp_link (bp_ivc (bpmp_data s)) b (shmem s) out [r]"

lemma access_unread:
  assumes "conforms peer view serve" and "unread view b out r s"
  shows "\<exists>s' out'. channel_access peer s = Some s' \<and> unread view b out' r s' \<and> (out = [] \<longrightarrow> out' = []) \<and> kept s s' \<and>
    frame_at (shmem s') = frame_at (shmem s)"
proof -
  obtain p m where pm: "peer (peer_state s) (shmem s) = (p, m)" by fastforce
  have u: "usable s" and l: "bpmp_link (bp_ivc (bpmp_data s)) b (shmem s) out [r]" using assms(2) by (auto simp: unread_def)
  obtain job where v: "view (peer_state s) = (b, job)" using assms(2) by (cases "view (peer_state s)") (simp add: unread_def)
  have "peer_step serve (view (peer_state s)) (shmem s) (view p) m" using assms(1) pm unfolding conforms_def by (metis fst_conv snd_conv)
  from full_step [OF l this [unfolded v]] obtain out' where
    o: "bpmp_link (bp_ivc (bpmp_data s)) b m out' [r]" "out = [] \<longrightarrow> out' = []" "fst (view p) = b" "frame_at m = frame_at (shmem s)"
    by auto
  let ?s' = "s\<lparr>peer_state := p, shmem := m\<rparr>"
  have k: "kept s ?s'" by (simp add: kept_def)
  have "channel_access peer s = Some ?s'" using u pm by (simp add: channel_access_def usable_def)
  then show ?thesis using o k usable_kept [OF k u] by (intro exI [of _ ?s'] exI [of _ out']) (simp add: unread_def)
qed

lemma unread_ivc: "unread view b out r s \<Longrightarrow> bpmp_link (bp_ivc (bpmp_data s)) b (shmem s) out [r] \<and> bell_ok s"
  by (simp add: unread_def usable_def)

lemma send_unread:
  assumes conf: "conforms peer view serve" and un: "unread view b [] r s"
    and len: "unat tx_size \<le> length tx_msg" "8 + unat tx_size \<le> length (frame_at (shmem s) (frame_slot (bp_ivc (bpmp_data s)) 0))"
  shows "\<exists>s' f. bpmp_send peer mrq tx_msg tx_size s = Some (None, s') \<and> unread view b [f] r s'"
proof -
  let ?a = "bp_ivc (bpmp_data s)"
  from access_unread [OF conf un] obtain s1 where
    s1: "channel_access peer s = Some s1" "unread view b [] r s1" "kept s s1" "frame_at (shmem s1) = frame_at (shmem s)" by blast
  define f where "f = request_bytes mrq tx_msg tx_size @ drop (8 + unat tx_size) (frame_at (shmem s1) (frame_slot ?a 0))"
  let ?t = "s1\<lparr>shmem := (shmem s1)\<lparr>frame_at := (frame_at (shmem s1))(frame_slot ?a 0 := f)\<rparr>\<rparr>"
  have a: "bp_ivc (bpmp_data s1) = ?a" using s1(3) by (simp add: kept_def)
  have l1: "bpmp_link ?a b (shmem s1) [] [r]" using s1(2) a by (simp add: unread_def)
  have "unread view b [] r ?t"
    using s1(2) a link_store [OF l1, of f] usable_kept [of s1 ?t] by (simp add: unread_def kept_def)
  from access_unread [OF conf this] obtain s2 where
    s2: "channel_access peer ?t = Some s2" "unread view b [] r s2" "kept ?t s2" "frame_at (shmem s2) = frame_at (shmem ?t)" by blast
  have a2: "bp_ivc (bpmp_data s2) = ?a" using s2(3) a by (simp add: kept_def)
  have "bpmp_link ?a b (shmem s2) [] [r]" "bell_ok s2" using unread_ivc [OF s2(2)] a2 by simp_all
  from send_link [OF s1(1) a l1 len(1) _ f_def s2(1) a2 this(1) _ this(2)] len(2) s1(4) s2(4) obtain s3 where
    s3: "bpmp_send peer mrq tx_msg tx_size s = Some (None, s3)" "kept s2 s3" "peer_state s3 = peer_state s2"
      "bpmp_link ?a b (shmem s3) [f] [r]" by auto
  moreover have "unread view b [f] r s3"
    using s2(2) s3 a2 usable_kept [OF s3(2)] by (simp add: unread_def kept_def)
  ultimately show ?thesis by blast
qed

lemma wait_unread:
  assumes conf: "conforms peer view serve" and un: "unread view b out r s"
  shows "\<exists>s' out'. bpmp_wait peer (Suc t) s = Some (Inr (frame_slot b 0), s') \<and> unread view b out' r s'"
proof -
  from access_unread [OF conf un] obtain s1 o1 where s1: "channel_access peer s = Some s1" "unread view b o1 r s1" by blast
  from access_unread [OF conf s1(2)] obtain s2 o2 where
    s2: "channel_access peer s1 = Some s2" "unread view b o2 r s2" by blast
  have "bpmp_wait peer (Suc t) s = Some (Inr (frame_slot b 0), s2)"
    using s1(1) s2(1) link_notified [of _ b] link_read_get(1) [of _ b] unread_ivc [OF s1(2)] unread_ivc [OF s2(2)]
    by (auto simp: notify_if_def set_ivc_same)
  then show ?thesis using s2(2) by blast
qed

text \<open>
  C33: A response that arrives after its call has timed out is taken for the response to the next request: when the link
  holds an unread response, a call sends its request and returns the old response, whatever the request is.
\<close>

theorem bpmp_stale_response:
  assumes conf: "conforms peer view serve" and un: "unread view b [] r s"
    and sizes: "unat tx_size \<le> 128" "unat rx_size \<le> 128" "unat tx_size \<le> length tx_msg" "8 + unat rx_size \<le> length r"
      "8 + unat tx_size \<le> length (frame_at (shmem s) (frame_slot (bp_ivc (bpmp_data s)) 0))"
      "\<And>buf. rx_msg = Some buf \<Longrightarrow> unat rx_size \<le> length buf"
  shows "\<exists>s'. bpmp_call peer mrq tx_msg tx_size rx_msg rx_size s = Some (fst (reply r rx_msg rx_size), snd (reply r rx_msg rx_size), s')"
proof -
  from send_unread [OF conf un sizes(3,5)] obtain s1 f where
    s1: "bpmp_send peer mrq tx_msg tx_size s = Some (None, s1)" "unread view b [f] r s1" by blast
  have n: "TIMEOUT_THRESHOLD = Suc (TIMEOUT_THRESHOLD - 1)" by (simp add: TIMEOUT_THRESHOLD_def)
  from wait_unread [OF conf s1(2), of "TIMEOUT_THRESHOLD - 1"] obtain s2 o2 where
    s2: "bpmp_wait peer TIMEOUT_THRESHOLD s1 = Some (Inr (frame_slot b 0), s2)" "unread view b o2 r s2" unfolding n [symmetric] by blast
  from access_unread [OF conf s2(2)] obtain s3 o3 where s3: "channel_access peer s2 = Some s3" "unread view b o3 r s3" by blast
  have r: "frame_at (shmem s2) (frame_slot b 0) = r" using link_read_get(2) unread_ivc [OF s2(2)] by blast
  from receive_link [OF s3(1) refl _ _ r sizes(4,6)] unread_ivc [OF s3(2)] obtain s' where
    "bpmp_receive peer (frame_slot b 0) rx_msg rx_size s2 = Some (fst (reply r rx_msg rx_size), snd (reply r rx_msg rx_size), s')" by blast
  then show ?thesis using sizes(1,2) s1(1) s2(1) by (simp add: bpmp_call_def frame_sizes)
qed

definition demo_stale :: "(tegra_ivc \<times> bytes option) bpmp_state" where
  "demo_stale = demo_bpmp\<lparr>shmem := \<lparr>hdr = (\<lambda>ch. \<lparr>w_count = (if ch = 0x3004f000 then 1 else 0), ch_state = 0, r_count = 0\<rparr>),
     frame_at = (\<lambda>_. replicate 8 0 @ replicate 128 7)\<rparr>\<rparr>"

theorem bpmp_stale_response_witness:
  "\<exists>s'. bpmp_call (prompt_peer demo_echo) 1 [5, 6] 2 (Some [9, 9, 9]) 2 demo_stale = Some (Inr 2, Some [7, 7, 9], s')"
proof -
  let ?a = "bp_ivc (bpmp_data demo_stale)" and ?b = "fst (peer_state demo_bpmp)"
  let ?r = "replicate 8 0 @ replicate 128 7 :: bytes"
  have law: "peer_law (prompt_peer demo_echo) id demo_echo (\<lambda>_. 0) 136" by (rule prompt_peer_law) (simp add: demo_echo_def)
  then have conf: "conforms (prompt_peer demo_echo) id demo_echo" unfolding conforms_def peer_law_def by (metis prod.collapse)
  have "ivc_link_inv (?a, ?b, shmem demo_stale)" "ivc_link_inv (?b, ?a, shmem demo_stale)" "nframes ?a = 1"
    by (simp_all add: demo_stale_def demo_bpmp_def ivc_link_inv_def ivc_geom_def dir_ok_def pending_def ivc_state_established_def)
  then have "bpmp_link ?a ?b (shmem demo_stale) [] [?r]"
    by (rule bpmp_linkI) (simp_all add: demo_stale_def demo_bpmp_def pending_def)
  moreover have "kept demo_bpmp demo_stale" by (simp add: kept_def demo_stale_def)
  moreover have "usable demo_bpmp" using demo_bpmp_ok by (simp add: bpmp_ok_def usable_def)
  ultimately have un: "unread id ?b [] ?r demo_stale"
    using usable_kept by (simp add: unread_def) (simp add: demo_stale_def)
  have "8 + unat (2 :: u64) \<le> length (frame_at (shmem demo_stale) (frame_slot ?a 0))" "8 + unat (2 :: u64) \<le> length ?r"
    by (simp_all add: demo_stale_def)
  moreover have "replicate 2 (7 :: u8) = [7, 7]" by (simp add: numeral_eq_Suc)
  then have "reply ?r (Some [9, 9, 9]) 2 = (Inr 2, Some [7, 7, 9])" by (simp add: reply_def replicate_eight)
  ultimately show ?thesis
    using bpmp_stale_response [OF conf un, of 2 2 "[5, 6]" "Some [9, 9, 9]" 1] by simp
qed

text \<open>
  The bounds check of a call forgets the header of the request: a message of more than 120 bytes is accepted, and overwrites what
  follows the frame in memory.
\<close>

theorem bpmp_send_overruns:
  assumes "peer_law peer view serve lag R" and "bpmp_ok view R b s Quiet"
    and "120 < unat tx_size" "unat tx_size \<le> 128" "unat tx_size \<le> length tx_msg" "136 \<le> R"
  shows "\<not> ucast BPMP_IVC_FRAME_SIZE < tx_size \<and> (\<exists>s'. bpmp_send peer mrq tx_msg tx_size s = Some (None, s') \<and>
    frame_at (shmem s') (frame_slot (bp_ivc (bpmp_data s)) 0) ! unat BPMP_IVC_FRAME_SIZE = tx_msg ! 120)"
proof -
  have "8 + unat tx_size \<le> R" using assms(4,6) by simp
  from send_ok [OF assms(1,2,5) this] obtain rest s' where
    s': "bpmp_send peer mrq tx_msg tx_size s = Some (None, s')" "kept s s'" "bpmp_ok view R b s' (Sent (request_bytes mrq tx_msg tx_size @ rest))"
    by blast
  have "bpmp_link (bp_ivc (bpmp_data s)) b (shmem s') [request_bytes mrq tx_msg tx_size @ rest] []"
    using s'(2,3) by (simp add: bpmp_ok_def in_phase_def kept_def)
  then have "frame_at (shmem s') (frame_slot (bp_ivc (bpmp_data s)) 0) = request_bytes mrq tx_msg tx_size @ rest"
    using bpmp_linkD(5) by (metis list.distinct(1) list.inject)
  moreover have "(request_bytes mrq tx_msg tx_size @ rest) ! 128 = tx_msg ! 120"
    using assms(3,5) by (simp add: nth_append length_request_bytes) (simp add: request_bytes_def put_request_def le32_def nth_append)
  ultimately show ?thesis using s'(1) assms(4) by (auto simp: frame_sizes BPMP_IVC_FRAME_SIZE_def word_less_nat_alt)
qed

section \<open>Establishing the channel\<close>

text \<open>A processor that handles the notifications of its end of the channel whenever it is looked at.\<close>

definition attentive :: "'p peer \<Rightarrow> ('p \<Rightarrow> tegra_ivc) \<Rightarrow> bool" where
  "attentive peer endp \<longleftrightarrow> (\<forall>p m. case tegra_ivc_channel_notified (endp p) m of
     (r, n, b, m') \<Rightarrow> endp (fst (peer p m)) = b \<and> snd (peer p m) = m')"

text \<open>One notification of one end, in terms of the states of the two channels.\<close>

lemma notified_moves:
  assumes "ivc_geom a b" and "ch_state (hdr m (tx_channel a)) = ivc_enc sa" and "ch_state (hdr m (tx_channel b)) = ivc_enc sb"
    and "tegra_ivc_channel_notified a m = (r, n, a', m')"
  shows "r = (if next_state sa sb = Established then Inr () else Inl EAGAIN)"
    "ch_state (hdr m' (tx_channel a)) = ivc_enc (next_state sa sb)" "ch_state (hdr m' (tx_channel b)) = ivc_enc sb"
    "ivc_geom a' b" "tx_channel a' = tx_channel a" "rx_channel a' = rx_channel a"
    "map_option fst (ivc_table sa sb) = Some True \<Longrightarrow> cleared a' m'" "cleared b m \<Longrightarrow> cleared b m'" "cleared a m \<Longrightarrow> cleared a' m'"
proof -
  have g: "rx_channel a = tx_channel b" "tx_channel b \<noteq> tx_channel a" "rx_channel b = tx_channel a" using assms(1) by (auto simp: ivc_geom_def)
  have nt: "(if next_state sa sb = Established then Inr () else Inl EAGAIN, apply_table (ivc_table sa sb) a m) = (r, n, a', m')"
    using notified_by_table [of m a sa sb] assms g by simp
  then show "r = (if next_state sa sb = Established then Inr () else Inl EAGAIN)" by simp
  have cases: "ivc_table sa sb = None \<and> a' = a \<and> m' = m \<or>
    (\<exists>s'. ivc_table sa sb = Some (False, s') \<and> a' = a \<and> m' = set_tx_state a (ivc_enc s') m) \<or>
    (\<exists>s' m1. ivc_table sa sb = Some (True, s') \<and> reset_counters a m = (a', m1) \<and> m' = set_tx_state a' (ivc_enc s') m1)"
    using nt by (cases "ivc_table sa sb") (auto simp: apply_table_def split: if_splits prod.splits)
  have rc: "cleared a' m1" "a' = a\<lparr>w_pos := 0, r_pos := 0\<rparr>" "cleared b m \<Longrightarrow> cleared b m1" "ch_state (hdr m1 ch) = ch_state (hdr m ch)"
    if "reset_counters a m = (a', m1)" for m1 ch
    using reset_counters_cleared [OF that assms(1)] by blast+
  show "ch_state (hdr m' (tx_channel a)) = ivc_enc (next_state sa sb)"
    using cases rc(2) assms(2) by (auto simp: next_state_def)
  show "ch_state (hdr m' (tx_channel b)) = ivc_enc sb" using cases rc(2,4) assms(3) g(2) by auto
  show "ivc_geom a' b" "tx_channel a' = tx_channel a" "rx_channel a' = rx_channel a" using cases rc(2) assms(1) by auto
  show "map_option fst (ivc_table sa sb) = Some True \<Longrightarrow> cleared a' m'" using cases rc(1) by auto
  show "cleared b m \<Longrightarrow> cleared b m'" using cases rc(3) by auto
  show "cleared a m \<Longrightarrow> cleared a' m'" using cases rc(1) by auto
qed

definition ends :: "('p \<Rightarrow> tegra_ivc) \<Rightarrow> ivc_state \<Rightarrow> ivc_state \<Rightarrow> 'p bpmp_state \<Rightarrow> bool" where
  "ends endp sa sb s \<longleftrightarrow> usable s \<and> ivc_geom (bp_ivc (bpmp_data s)) (endp (peer_state s)) \<and>
     ch_state (hdr (shmem s) (tx_channel (bp_ivc (bpmp_data s)))) = ivc_enc sa \<and>
     ch_state (hdr (shmem s) (tx_channel (endp (peer_state s)))) = ivc_enc sb"

definition a_clear :: "'p bpmp_state \<Rightarrow> bool" where
  "a_clear s \<longleftrightarrow> cleared (bp_ivc (bpmp_data s)) (shmem s)"

definition b_clear :: "('p \<Rightarrow> tegra_ivc) \<Rightarrow> 'p bpmp_state \<Rightarrow> bool" where
  "b_clear endp s \<longleftrightarrow> cleared (endp (peer_state s)) (shmem s)"

text \<open>What else an operation leaves alone.\<close>

definition same_use :: "'p bpmp_state \<Rightarrow> 'p bpmp_state \<Rightarrow> bool" where
  "same_use s s' \<longleftrightarrow> bpmp_refcount s' = bpmp_refcount s \<and> bpmp_initialised s' = bpmp_initialised s \<and> calls s' = calls s \<and>
     nframes (bp_ivc (bpmp_data s')) = nframes (bp_ivc (bpmp_data s))"

lemma same_use_trans: "same_use s t \<Longrightarrow> same_use t u \<Longrightarrow> same_use s u"
  by (simp add: same_use_def)

lemma usable_updates [simp]:
  "usable (s\<lparr>peer_state := p\<rparr>) = usable s" "usable (s\<lparr>shmem := m\<rparr>) = usable s" "usable (s\<lparr>regs := x\<rparr>) = usable s"
  by (simp_all add: usable_def)

lemma usable_set_ivc:
  assumes "tx_channel ivc = tx_channel (bp_ivc (bpmp_data s))" and "rx_channel ivc = rx_channel (bp_ivc (bpmp_data s))" and "usable s"
  shows "usable (set_ivc ivc m s)"
  using assms by (simp add: usable_def set_ivc_def bell_ok_def split: option.splits)

lemma access_attentive:
  assumes att: "attentive peer endp" and e: "ends endp sa sb s"
  shows "\<exists>s'. channel_access peer s = Some s' \<and> ends endp sa (next_state sb sa) s' \<and> same_use s s' \<and>
    (map_option fst (ivc_table sb sa) = Some True \<longrightarrow> b_clear endp s') \<and> (b_clear endp s \<longrightarrow> b_clear endp s') \<and> (a_clear s \<longrightarrow> a_clear s')"
proof -
  obtain p m where pm: "peer (peer_state s) (shmem s) = (p, m)" by fastforce
  obtain r n b m' where nt: "tegra_ivc_channel_notified (endp (peer_state s)) (shmem s) = (r, n, b, m')" by (metis prod_cases4)
  from att have "case tegra_ivc_channel_notified (endp (peer_state s)) (shmem s) of (r, n, b, m') \<Rightarrow>
      endp (fst (peer (peer_state s) (shmem s))) = b \<and> snd (peer (peer_state s) (shmem s)) = m'" by (simp only: attentive_def)
  then have p: "endp p = b" "m = m'" by (simp_all add: nt pm)
  have g: "ivc_geom (endp (peer_state s)) (bp_ivc (bpmp_data s))" using e by (simp add: ends_def ivc_geom_sym)
  note mv = notified_moves [OF g _ _ nt, of sb sa]
  have st: "ch_state (hdr (shmem s) (tx_channel (endp (peer_state s)))) = ivc_enc sb"
    "ch_state (hdr (shmem s) (tx_channel (bp_ivc (bpmp_data s)))) = ivc_enc sa" using e by (simp_all add: ends_def)
  note mv = mv [OF st]
  have "channel_access peer s = Some (s\<lparr>peer_state := p, shmem := m\<rparr>)" using e pm by (simp add: channel_access_def ends_def usable_def)
  moreover have "ends endp sa (next_state sb sa) (s\<lparr>peer_state := p, shmem := m\<rparr>)"
    using e p mv(2,3,5) ivc_geom_sym [OF mv(4)] by (simp add: ends_def)
  ultimately show ?thesis using p mv(7-9) by (auto simp: same_use_def a_clear_def b_clear_def)
qed

lemma local_notified:
  assumes e: "ends endp sa sb s" and nt: "tegra_ivc_channel_notified (bp_ivc (bpmp_data s)) (shmem s) = (r, n, a, m)"
  shows "r = (if next_state sa sb = Established then Inr () else Inl EAGAIN) \<and>
    (\<exists>s'. notify_if n (set_ivc a m s) = Some s' \<and> ends endp (next_state sa sb) sb s' \<and> same_use s s' \<and>
      (map_option fst (ivc_table sa sb) = Some True \<longrightarrow> a_clear s') \<and> (b_clear endp s \<longrightarrow> b_clear endp s'))"
proof -
  have g: "ivc_geom (bp_ivc (bpmp_data s)) (endp (peer_state s))" using e by (simp add: ends_def)
  have st: "ch_state (hdr (shmem s) (tx_channel (bp_ivc (bpmp_data s)))) = ivc_enc sa"
    "ch_state (hdr (shmem s) (tx_channel (endp (peer_state s)))) = ivc_enc sb" using e by (simp_all add: ends_def)
  note mv = notified_moves [OF g st nt]
  have u: "usable (set_ivc a m s)" using usable_set_ivc [OF mv(5,6)] e by (simp add: ends_def)
  then obtain x where x: "notify_if n (set_ivc a m s) = Some ((set_ivc a m s)\<lparr>regs := x\<rparr>)"
    using notify_bell [of "set_ivc a m s" n] by (auto simp: usable_def)
  have nf: "nframes a = nframes (bp_ivc (bpmp_data s))" using g mv(4) unfolding ivc_geom_def by metis
  have "ends endp (next_state sa sb) sb ((set_ivc a m s)\<lparr>regs := x\<rparr>)"
    using u mv(2-5) by (simp add: ends_def) (simp add: set_ivc_def)
  moreover have "same_use s ((set_ivc a m s)\<lparr>regs := x\<rparr>)" using nf by (simp add: same_use_def set_ivc_def)
  ultimately show ?thesis using mv(1,7,8) x by (simp add: a_clear_def b_clear_def set_ivc_def)
qed

lemma reset_sync:
  assumes e: "ends endp sa sb s" and r: "tegra_ivc_channel_reset (bp_ivc (bpmp_data s)) (shmem s) = (n, a, m)"
  shows "\<exists>s'. notify_if n (set_ivc a m s) = Some s' \<and> ends endp Sync sb s' \<and> same_use s s'"
proof -
  have a: "a = bp_ivc (bpmp_data s)" "m = set_tx_state a ivc_state_sync (shmem s)" using r by (auto simp: tegra_ivc_channel_reset_def)
  have ne: "tx_channel (endp (peer_state s)) \<noteq> tx_channel (bp_ivc (bpmp_data s))" using e by (auto simp: ends_def ivc_geom_def)
  have u: "usable (s\<lparr>shmem := m\<rparr>)" using e by (simp add: ends_def)
  then obtain x where "notify_if n (s\<lparr>shmem := m\<rparr>) = Some (s\<lparr>shmem := m, regs := x\<rparr>)"
    using notify_bell [of "s\<lparr>shmem := m\<rparr>" n] by (auto simp: usable_def)
  then show ?thesis using e u a ne by (simp add: set_ivc_same ends_def same_use_def ivc_enc_def)
qed

lemma answer_to_sync: "ivc_table sb Sync = Some (True, Ack)" "next_state sb Sync = Ack"
  by (cases sb; simp add: next_state_def)+

lemma cleared_link:
  assumes "ends endp Established Established s" and "a_clear s" and "b_clear endp s" and "nframes (bp_ivc (bpmp_data s)) = 1"
  shows "bpmp_link (bp_ivc (bpmp_data s)) (endp (peer_state s)) (shmem s) [] []"
proof -
  let ?a = "bp_ivc (bpmp_data s)" and ?b = "endp (peer_state s)"
  have g: "ivc_geom ?a ?b" using assms(1) by (simp add: ends_def)
  note c = assms(2,3) [unfolded a_clear_def b_clear_def]
  have ch: "rx_channel ?b = tx_channel ?a" "rx_channel ?a = tx_channel ?b" using g by (simp_all add: ivc_geom_def)
  have "ivc_link_inv (?a, ?b, shmem s)" "ivc_link_inv (?b, ?a, shmem s)"
    using assms(1) g ivc_geom_sym [OF g] dir_ok_cleared [OF g c] dir_ok_cleared [OF ivc_geom_sym [OF g] c(2,1)]
    by (simp_all add: ivc_link_inv_def ends_def ivc_enc_def)
  moreover have "pending ?a (shmem s) = 0" "pending ?b (shmem s) = 0" using c ch by (simp_all add: cleared_def pending_def)
  ultimately show ?thesis using assms(4) by (intro bpmp_linkI) simp_all
qed


definition attentive_peer :: "tegra_ivc peer" where
  "attentive_peer b m = (case tegra_ivc_channel_notified b m of (r, n, b', m') \<Rightarrow> (b', m'))"

definition demo_boot :: "tegra_ivc bpmp_state" where
  "demo_boot = \<lparr>calls = 9, allocated = [64], mapped = [(0x3c00000, 0xa0000), (0x3004e000, 0x1000), (0x3004f000, 0x1000)], cookies = [],
     priv_at = [64 \<mapsto> demo_priv], regs = (\<lambda>_. 0), bpmp_initialised = False, bpmp_refcount = 0,
     bpmp_data = (bpmp_data demo_bpmp)\<lparr>bp_ivc := \<lparr>rx_channel = 0, tx_channel = 0, r_pos = 0, w_pos = 0, nframes = 0, frame_size = 0\<rparr>\<rparr>,
     shmem = \<lparr>hdr = (\<lambda>_. \<lparr>w_count = 77, ch_state = 1, r_count = 5\<rparr>), frame_at = (\<lambda>_. [])\<rparr>,
     peer_state = fst (peer_state demo_bpmp)\<rparr>"


section \<open>Sharing the channel\<close>

lemma visit_inv:
  assumes "\<And>r i n s e s'. cb r i n s = Some (e, s') \<Longrightarrow> I s \<Longrightarrow> I s'"
  shows "visit cb i n rs s = Some (e, s') \<Longrightarrow> I s \<Longrightarrow> I s'"
  by (induction rs arbitrary: i s) (auto split: if_splits dest: assms)

text \<open>The reference count and the flag are changed only at the end of initialisation and by \<open>bpmp_destroy\<close>.\<close>

definition uses :: "'p bpmp_state \<Rightarrow> u32 \<times> bool" where
  "uses s = (bpmp_refcount s, bpmp_initialised s)"

lemma uses_hsp_init:
  assumes walk: "walk_law walk node" and init: "tx2_hsp_init pf walk io hsp path s = Some (res, s')"
  shows "uses s' = uses s"
proof -
  have cb: "uses t' = uses t" if "hsp_register_callback pf p r i n t = Some (e, t')" for p r i n e and t t' :: "'a bpmp_state"
    using that by (auto simp: uses_def hsp_register_callback_def ps_pmem_map_def Let_def split: if_splits)
  have w: "uses t' = u" if "walk c (hsp_register_callback pf p) t = Some (e, t')" "uses t = u" for c p t e t' u
    using visit_inv [of "hsp_register_callback pf p" "\<lambda>t. uses t = u"] that walk cb unfolding walk_law_def by metis
  have [simp]: "uses (t\<lparr>calls := x\<rparr>) = uses t" "uses (t\<lparr>allocated := y\<rparr>) = uses t" "uses (t\<lparr>cookies := z\<rparr>) = uses t"
    "uses (t\<lparr>priv_at := q\<rparr>) = uses t" for t :: "'a bpmp_state" and x y z q by (simp_all add: uses_def)
  show ?thesis
    using init
    by (auto simp: tx2_hsp_init_def ps_calloc_def ps_fdt_read_path_def ps_fdt_cleanup_cookie_def ps_free_def
        split: if_splits option.splits dest!: w [OF _ refl])
qed

lemma hsp_init_errors: "tx2_hsp_init pf walk io hsp path s = Some (Inl e, s') \<Longrightarrow> e \<noteq> ETIMEDOUT"
  by (auto simp: tx2_hsp_init_def ps_calloc_def ps_fdt_read_path_def ps_fdt_cleanup_cookie_def split: if_splits option.splits)

lemma uses_access: "channel_access peer s = Some s' \<Longrightarrow> uses s' = uses s"
  by (auto simp: channel_access_def uses_def split: if_splits prod.splits)

lemma uses_notify: "notify_if n s = Some s' \<Longrightarrow> uses s' = uses s"
  by (auto simp: notify_if_def bpmp_ivc_notify_def tx2_hsp_doorbell_ring_def hsp_doorbell_ring_def reg_write_def uses_def split: if_splits)

lemma uses_set_ivc [simp]: "uses (set_ivc a m s) = uses s"
  by (simp add: uses_def set_ivc_def)

lemma uses_reset_wait: "bpmp_reset_wait peer t s = Some (d, s') \<Longrightarrow> uses s' = uses s"
proof (induction t arbitrary: s)
  case (Suc t)
  from Suc.prems obtain s1 where s1: "channel_access peer s = Some s1" by auto
  obtain r n a m where nt: "tegra_ivc_channel_notified (bp_ivc (bpmp_data s1)) (shmem s1) = (r, n, a, m)" by (metis prod_cases4)
  with Suc.prems s1 obtain s2 where s2: "notify_if n (set_ivc a m s1) = Some s2"
    "(case r of Inr _ \<Rightarrow> Some (True, s2) | Inl _ \<Rightarrow> bpmp_reset_wait peer t s2) = Some (d, s')" by auto
  then have "uses s' = uses s2" using Suc.IH by (auto split: sum.splits)
  then show ?case using uses_access [OF s1] uses_notify [OF s2(1)] by simp
qed simp

lemma uses_destroy:
  assumes "bpmp_destroy pf s = Some (r, s')"
  shows "uses s' = (bpmp_refcount s - 1, bpmp_initialised s) \<and> r = None"
proof -
  have "uses t' = uses t" if "tx2_hsp_destroy pf h t = Some (e, t')" for h e and t t' :: "'a bpmp_state"
    using that by (auto simp: tx2_hsp_destroy_def hsp_destroy_def ps_free_def ps_io_unmap_def uses_def Let_def split: option.splits if_splits)
  then show ?thesis
    using assms by (fastforce simp: bpmp_destroy_def ps_io_unmap_def uses_def Let_def split: if_splits)
qed

lemma uses_fail: "bpmp_fail pf e s = Some (res, s') \<Longrightarrow> res = Inl e \<and> uses s' = (bpmp_refcount s - 1, bpmp_initialised s)"
  using uses_destroy by (auto simp: bpmp_fail_def split: if_splits)

lemma uses_start:
  assumes "bpmp_start pf peer s = Some (res, s')"
  shows "(\<exists>h. res = Inr h) \<and> uses s' = (bpmp_refcount s + 1, True) \<or>
    (\<exists>e. res = Inl e) \<and> uses s' = (bpmp_refcount s - 1, bpmp_initialised s)"
proof (cases "tegra_ivc_init (Some (bp_ivc (bpmp_data s))) (rx_base (bpmp_data s)) (tx_base (bpmp_data s))
    BPMP_IVC_FRAME_COUNT BPMP_IVC_FRAME_SIZE")
  case (Inl e)
  then have "bpmp_fail pf e s = Some (res, s')" using assms by (simp add: bpmp_start_def)
  from uses_fail [OF this] show ?thesis by simp
next
  case (Inr ivc)
  obtain s1 n a m s2 d s3 where c: "channel_access peer (s\<lparr>bpmp_data := (bpmp_data s)\<lparr>bp_ivc := ivc\<rparr>\<rparr>) = Some s1"
    "notify_if n (set_ivc a m s1) = Some s2" "bpmp_reset_wait peer TIMEOUT_THRESHOLD s2 = Some (d, s3)"
    "(if \<not> d then bpmp_fail pf ETIMEDOUT s3
      else case pf_register pf (calls s3) of Some e \<Rightarrow> bpmp_fail pf e (s3\<lparr>calls := Suc (calls s3)\<rparr>)
           | None \<Rightarrow> bpmp_success (s3\<lparr>calls := Suc (calls s3)\<rparr>)) = Some (res, s')"
    using assms Inr by (auto simp: bpmp_start_def tegra_ivc_channel_reset_def)
  have u: "uses s3 = uses s"
    using uses_access [OF c(1)] uses_notify [OF c(2)] uses_reset_wait [OF c(3)] by (simp add: uses_def set_ivc_def)
  show ?thesis
    using c(4) u by (auto simp: bpmp_success_def uses_def split: if_splits option.splits dest!: uses_fail)
qed

lemma init_counts:
  assumes walk: "walk_law walk node" and init: "tx2_bpmp_init pf walk peer io bpmp s = Some (res, s')"
  shows "case res of
      Inr h \<Rightarrow> bpmp_refcount s' = bpmp_refcount s + 1 \<and> bpmp_initialised s'
    | Inl e \<Rightarrow> bpmp_initialised s' = bpmp_initialised s \<and>
        (bpmp_refcount s' = bpmp_refcount s - 1 \<or> bpmp_refcount s' = bpmp_refcount s \<and> e \<noteq> ETIMEDOUT)"
proof (cases "io \<and> bpmp \<and> \<not> bpmp_initialised s")
  case False
  then show ?thesis using init by (auto simp: tx2_bpmp_init_def bpmp_success_def split: if_splits)
next
  case True
  have cb: "uses t' = uses t" if "bpmp_register_callback pf r i n t = Some (e, t')" for r i n e and t t' :: "'a bpmp_state"
    using that by (auto simp: uses_def bpmp_register_callback_def ps_pmem_map_def Let_def split: if_splits)
  have w: "uses t' = u" if "walk c (bpmp_register_callback pf) t = Some (e, t')" "uses t = u" for c t e t' u
    using visit_inv [of "bpmp_register_callback pf" "\<lambda>t. uses t = u"] that walk cb unfolding walk_law_def by metis
  have [simp]: "uses (t\<lparr>calls := x\<rparr>) = uses t" "uses (t\<lparr>cookies := z\<rparr>) = uses t" "uses (t\<lparr>bpmp_data := q\<rparr>) = uses t"
    for t :: "'a bpmp_state" and x z q by (simp_all add: uses_def)
  from init True obtain ret s1 where h: "tx2_hsp_init pf walk io True ''/tegra-hsp@3c00000'' s = Some (ret, s1)"
    by (auto simp: tx2_bpmp_init_def)
  note u1 = uses_hsp_init [OF walk h]
  have "(\<exists>h. res = Inr h) \<and> uses s' = (bpmp_refcount s + 1, True) \<or>
    (\<exists>e. res = Inl e) \<and> uses s' = (bpmp_refcount s - 1, bpmp_initialised s) \<or>
    (\<exists>e. res = Inl e \<and> e \<noteq> ETIMEDOUT) \<and> uses s' = uses s"
  proof (cases ret)
    case (Inl e)
    then have "e \<noteq> ETIMEDOUT" using hsp_init_errors h by blast
    then show ?thesis using Inl init True h u1 by (auto simp: tx2_bpmp_init_def)
  next
    case (Inr hsp)
    have "(\<exists>t. bpmp_start pf peer t = Some (res, s') \<and> uses t = uses s) \<or> res = Inl ENODEV \<and> uses s' = uses s"
      using init True h Inr u1
      by (auto simp: tx2_bpmp_init_def ps_fdt_read_path_def ps_fdt_cleanup_cookie_def split: if_splits option.splits
          dest!: w [OF _ refl] intro!: exI)
    then show ?thesis using uses_start by (fastforce simp: uses_def)
  qed
  then show ?thesis by (auto simp: uses_def)
qed

text \<open>
  Initialisation and the reference count. A successful initialisation adds one to the count and sets the flag. A failed one leaves the
  flag, and either the count or, when it fails after the channels have been mapped, which is where all timeouts are, a count smaller by one.
\<close>

theorem tx2_bpmp_init_counts:
  assumes walk: "walk_law walk node" and init: "tx2_bpmp_init pf walk peer io bpmp s = Some (res, s')"
  shows "case res of
      Inr h \<Rightarrow> bpmp_refcount s' = bpmp_refcount s + 1 \<and> bpmp_initialised s'
    | Inl e \<Rightarrow> bpmp_initialised s' = bpmp_initialised s \<and>
        (bpmp_refcount s' = bpmp_refcount s - 1 \<or> bpmp_refcount s' = bpmp_refcount s \<and> e \<noteq> ETIMEDOUT)"
  by (rule init_counts [OF assms])

theorem tx2_bpmp_init_counts_witness:
  "\<exists>h s'. tx2_bpmp_init demo_pf (demo_walk (\<lambda>c. [])) (prompt_peer demo_echo) True True demo_bpmp = Some (Inr h, s') \<and> bpmp_refcount s' = 2"
proof -
  have "\<exists>h s'. tx2_bpmp_init demo_pf (demo_walk (\<lambda>c. [])) (prompt_peer demo_echo) True True demo_bpmp = Some (Inr h, s')"
    by (simp add: tx2_bpmp_init_def bpmp_success_def) (simp add: demo_bpmp_def)
  then obtain h s' where i: "tx2_bpmp_init demo_pf (demo_walk (\<lambda>c. [])) (prompt_peer demo_echo) True True demo_bpmp = Some (Inr h, s')" by blast
  from tx2_bpmp_init_counts [OF demo_laws(3) i] have "bpmp_refcount s' = bpmp_refcount demo_bpmp + 1" by simp
  with i show ?thesis by (simp add: demo_bpmp_def)
qed

text \<open>Clients open and close the device; \<open>None\<close> is a fault or an open that fails.\<close>

datatype client_op = Open | Close

fun client_run :: "platform \<Rightarrow> 'p bpmp_state walker \<Rightarrow> 'p peer \<Rightarrow> client_op list \<Rightarrow> 'p bpmp_state \<Rightarrow> 'p bpmp_state option" where
  "client_run pf walk peer [] s = Some s"
| "client_run pf walk peer (Open # ops) s = (case tx2_bpmp_init pf walk peer True True s of
     Some (Inr h, s') \<Rightarrow> client_run pf walk peer ops s' | _ \<Rightarrow> None)"
| "client_run pf walk peer (Close # ops) s = (case bpmp_destroy pf s of
     Some (None, s') \<Rightarrow> client_run pf walk peer ops s' | _ \<Rightarrow> None)"

text \<open>The number of handles after each operation; the last one is not closed, and there are fewer than \<open>2 ^ 32\<close>.\<close>

fun handles :: "nat \<Rightarrow> client_op list \<Rightarrow> nat option" where
  "handles k [] = Some k"
| "handles k (Open # ops) = (if Suc k < 2 ^ 32 then handles (Suc k) ops else None)"
| "handles k (Close # ops) = (if 1 < k then handles (k - 1) ops else None)"

lemma destroy_shared:
  assumes "1 < unat (bpmp_refcount s)"
  shows "bpmp_destroy pf s = Some (None, s\<lparr>bpmp_refcount := bpmp_refcount s - 1\<rparr>) \<and>
    unat (bpmp_refcount s - 1) = unat (bpmp_refcount s) - 1"
proof -
  have u: "unat (bpmp_refcount s - 1) = unat (bpmp_refcount s) - 1" using assms by (intro unat_minus_one) auto
  then have "bpmp_refcount s - 1 \<noteq> 0" using assms by (metis unat_0 diff_is_0_eq not_le)
  then show ?thesis using u by (simp add: bpmp_destroy_def)
qed

lemma client_run_shared:
  assumes "bpmp_initialised s" and "unat (bpmp_refcount s) = k" and "handles k ops = Some k'"
  shows "\<exists>s'. client_run pf walk peer ops s = Some s' \<and> s' = s\<lparr>bpmp_refcount := bpmp_refcount s'\<rparr> \<and> unat (bpmp_refcount s') = k'"
  using assms
proof (induction ops arbitrary: s k)
  case Nil
  then show ?case by simp
next
  case (Cons op ops)
  show ?case
  proof (cases op)
    case Open
    let ?s = "s\<lparr>bpmp_refcount := bpmp_refcount s + 1\<rparr>"
    have k: "Suc k < 2 ^ 32" "handles (Suc k) ops = Some k'" using Cons.prems(3) Open by (auto split: if_splits)
    have "unat (bpmp_refcount s + 1) = Suc k" using Cons.prems(2) k(1) by (simp add: unat_Suc_no_wrap)
    moreover have "?s\<lparr>bpmp_initialised := True\<rparr> = ?s" using Cons.prems(1) by (cases s) simp
    moreover have "client_run pf walk peer (op # ops) s = client_run pf walk peer ops (?s\<lparr>bpmp_initialised := True\<rparr>)"
      using Open Cons.prems(1) by (simp add: tx2_bpmp_init_def bpmp_success_def)
    ultimately have "unat (bpmp_refcount s + 1) = Suc k" "client_run pf walk peer (op # ops) s = client_run pf walk peer ops ?s"
      by (simp_all only:)
    then show ?thesis using Cons.IH [of ?s "Suc k"] Cons.prems(1) k(2) by auto
  next
    case Close
    let ?s = "s\<lparr>bpmp_refcount := bpmp_refcount s - 1\<rparr>"
    have k: "1 < k" "handles (k - 1) ops = Some k'" using Cons.prems(3) Close by (auto split: if_splits)
    from destroy_shared [of s pf] Cons.prems(2) k(1)
    have "client_run pf walk peer (op # ops) s = client_run pf walk peer ops ?s" "unat (bpmp_refcount ?s) = k - 1"
      using Close by simp_all
    then show ?thesis using Cons.IH [of ?s "k - 1"] Cons.prems(1) k(2) by auto
  qed
qed

text \<open>The device as a successful initialisation leaves it: three regions and the private data of the doorbells.\<close>

definition device_held :: "'p bpmp_state \<Rightarrow> u64 \<Rightarrow> u64 \<Rightarrow> u64 \<Rightarrow> u64 \<Rightarrow> u64 \<Rightarrow> u64 \<Rightarrow> u64 \<Rightarrow> bool" where
  "device_held s data hb hn tb tn rb rn \<longleftrightarrow>
     hsp_initialised (bpmp_data s) \<and> hsp_destr (bp_hsp (bpmp_data s)) \<and> hsp_data (bp_hsp (bpmp_data s)) = data \<and>
     map_option hsp_base (priv_at s data) = Some hb \<and> map_option (pm_length \<circ> tx2_hsp_region) (priv_at s data) = Some hn \<and>
     tx_base (bpmp_data s) = tb \<and> pm_length (tx_shmem (bpmp_data s)) = tn \<and>
     rx_base (bpmp_data s) = rb \<and> pm_length (rx_shmem (bpmp_data s)) = rn \<and> hb \<noteq> 0 \<and> tb \<noteq> 0 \<and> rb \<noteq> 0"

lemma destroy_last:
  assumes "bpmp_refcount s = 1" and "device_held s data hb hn tb tn rb rn" and "\<And>n. pf_free pf n"
  shows "\<exists>s'. bpmp_destroy pf s = Some (None, s') \<and> allocated s' = remove1 data (allocated s) \<and>
    mapped s' = remove1 (rb, rn) (remove1 (tb, tn) (remove1 (hb, hn) (mapped s))) \<and> bpmp_refcount s' = 0 \<and>
    bpmp_initialised s' = bpmp_initialised s \<and> bpmp_data s' = bpmp_data s"
  using assms
  by (auto simp: bpmp_destroy_def device_held_def tx2_hsp_destroy_def hsp_destroy_def ps_free_def ps_io_unmap_def Let_def)

text \<open>
  C22: Clients share the device. However often it is opened and closed, as long as one handle remains, nothing is allocated, mapped, freed or
  unmapped and the count is the number of handles; closing the last one frees the private data of the doorbells and unmaps
  exactly the three regions.
\<close>

theorem bpmp_shared_by_count:
  assumes "bpmp_initialised s" and "bpmp_refcount s = 1" and "device_held s data hb hn tb tn rb rn" and "\<And>n. pf_free pf n"
    and "handles 1 ops = Some k"
  shows "\<exists>s'. client_run pf walk peer ops s = Some s' \<and> unat (bpmp_refcount s') = k \<and> allocated s' = allocated s \<and> mapped s' = mapped s \<and>
    (k = 1 \<longrightarrow> (\<exists>s''. bpmp_destroy pf s' = Some (None, s'') \<and> allocated s'' = remove1 data (allocated s) \<and>
       mapped s'' = remove1 (rb, rn) (remove1 (tb, tn) (remove1 (hb, hn) (mapped s)))))"
proof -
  from client_run_shared [of s 1 ops k pf walk peer] assms(1,2,5) obtain s' where
    s': "client_run pf walk peer ops s = Some s'" "s' = s\<lparr>bpmp_refcount := bpmp_refcount s'\<rparr>" "unat (bpmp_refcount s') = k" by auto
  have eq: "allocated s' = allocated s" "mapped s' = mapped s" by (subst s'(2); simp)+
  have "device_held s' data hb hn tb tn rb rn" by (subst s'(2)) (use assms(3) in \<open>simp add: device_held_def\<close>)
  then show ?thesis
    using s'(1,3) eq destroy_last [of s' data hb hn tb tn rb rn pf] assms(4) by (auto simp: word_unat_eq_iff)
qed

lemma demo_held: "device_held demo_bpmp 64 0x3c00000 0xa0000 0x3004e000 0x1000 0x3004f000 0x1000"
  by (simp add: device_held_def demo_bpmp_def demo_priv_def)

theorem bpmp_shared_by_count_witness:
  "\<exists>s' s''. client_run demo_pf (demo_walk (\<lambda>c. [])) (prompt_peer demo_echo) [Open, Open, Close, Close] demo_bpmp = Some s' \<and>
     bpmp_destroy demo_pf s' = Some (None, s'') \<and> allocated s'' = [] \<and> mapped s'' = []"
proof -
  have "handles 1 [Open, Open, Close, Close] = Some 1" by simp
  from bpmp_shared_by_count [OF _ _ demo_held _ this, of demo_pf "demo_walk (\<lambda>c. [])" "prompt_peer demo_echo"]
  show ?thesis by (auto simp: demo_bpmp_def demo_pf_def)
qed

text \<open>
  Opening after the last close. Closing the last handle leaves the flag that says the device is initialised. The next open
  therefore succeeds without mapping anything, and a call on the new handle accesses memory that is not mapped.
\<close>

theorem bpmp_reopen_unmapped:
  assumes "bpmp_initialised s" and "bpmp_refcount s = 1" and "device_held s data hb hn tb tn rb rn" and "\<And>n. pf_free pf n"
    and "mapped s = [(rb, rn), (tb, tn), (hb, hn)]" and "unat tx_size \<le> 128" and "unat rx_size \<le> 128"
  shows "\<exists>s' s'' h. bpmp_destroy pf s = Some (None, s') \<and> tx2_bpmp_init pf walk peer True True s' = Some (Inr h, s'') \<and>
    bpmp_refcount s'' = 1 \<and> mapped s'' = [] \<and> bpmp_call peer mrq tx_msg tx_size rx_msg rx_size s'' = None"
proof -
  from destroy_last [OF assms(2-4)] obtain s' where
    s': "bpmp_destroy pf s = Some (None, s')" "mapped s' = remove1 (rb, rn) (remove1 (tb, tn) (remove1 (hb, hn) (mapped s)))"
      "bpmp_refcount s' = 0" "bpmp_initialised s'" using assms(1) by auto
  have m: "mapped s' = []" using s'(2) assms(5) by auto
  let ?s = "s'\<lparr>bpmp_refcount := 1, bpmp_initialised := True\<rparr>"
  have "tx2_bpmp_init pf walk peer True True s' = Some (Inr \<lparr>bpmp_call_set = True, bpmp_destroy_set = True\<rparr>, ?s)"
    using s'(3,4) by (simp add: tx2_bpmp_init_def bpmp_success_def)
  moreover have "bpmp_call peer mrq tx_msg tx_size rx_msg rx_size ?s = None"
    using assms(6,7) m by (simp add: bpmp_call_def bpmp_send_def channel_access_def accessible_def frame_sizes)
  ultimately show ?thesis using s'(1) m by auto
qed

theorem bpmp_reopen_unmapped_witness:
  "\<exists>s' s'' h. bpmp_destroy demo_pf (demo_bpmp\<lparr>mapped := rev (mapped demo_bpmp)\<rparr>) = Some (None, s') \<and>
     tx2_bpmp_init demo_pf (demo_walk (\<lambda>c. [])) (prompt_peer demo_echo) True True s' = Some (Inr h, s'') \<and>
     bpmp_call (prompt_peer demo_echo) 1 [5, 6] 2 None 0 s'' = None"
proof -
  let ?s = "demo_bpmp\<lparr>mapped := rev (mapped demo_bpmp)\<rparr>"
  have "device_held ?s 64 0x3c00000 0xa0000 0x3004e000 0x1000 0x3004f000 0x1000"
    using demo_held by (simp add: device_held_def)
  from bpmp_reopen_unmapped [OF _ _ this, of demo_pf 2 0 "demo_walk (\<lambda>c. [])" "prompt_peer demo_echo" 1 "[5, 6]" None]
  show ?thesis by (auto simp: demo_bpmp_def demo_pf_def)
qed

text \<open>
  The count after a failed initialisation. The clean-up decrements the count from 0 to \<open>2 ^ 32 - 1\<close>, so it releases nothing. If
  the next attempt succeeds the count is 0, with a second client it is 1, and the first of the two clients that closes the
  device releases it, although the other still uses it.
\<close>

theorem bpmp_fail_keeps:
  assumes "bpmp_refcount s = 0"
  shows "bpmp_fail pf e s = Some (Inl e, s\<lparr>bpmp_refcount := 0xffffffff\<rparr>)"
  using assms by (simp add: bpmp_fail_def bpmp_destroy_def)

theorem bpmp_failed_init_unbalances:
  assumes walk: "walk_law walk node" and "bpmp_refcount s0 = 0" and pf: "\<And>n. pf_free pf n"
    and "tx2_bpmp_init pf walk peer True True s0 = Some (Inl ETIMEDOUT, s1)"
    and "tx2_bpmp_init pf walk peer True True s1 = Some (Inr h1, s2)"
    and "tx2_bpmp_init pf walk peer True True s2 = Some (Inr h2, s3)"
    and "device_held s3 data hb hn tb tn rb rn"
  shows "bpmp_refcount s1 = 0xffffffff \<and> bpmp_refcount s3 = 1 \<and>
    (\<exists>s4. tx2_bpmp_destroy pf (Some h2) s3 = Some (None, s4) \<and> allocated s4 = remove1 data (allocated s3) \<and>
      mapped s4 = remove1 (rb, rn) (remove1 (tb, tn) (remove1 (hb, hn) (mapped s3))))"
proof -
  have c: "bpmp_refcount s1 = 0xffffffff" using init_counts [OF walk assms(4)] assms(2) by simp
  have s2: "bpmp_refcount s2 = 0" "bpmp_initialised s2" using init_counts [OF walk assms(5)] c by simp_all
  have s3: "bpmp_refcount s3 = 1" "bpmp_destroy_set h2" using assms(6) s2 by (auto simp: tx2_bpmp_init_def bpmp_success_def)
  from destroy_last [OF s3(1) assms(7) pf] c s3 show ?thesis by (auto simp: tx2_bpmp_destroy_def)
qed

end
