(* ===== verification/Clock.thy ===== *)
theory Clock
  imports Bpmp
begin

text \<open>
  Clocks and resets of the Tegra X2 (\<open>src/libplatsupportports/src/plat/tx2/clock.c\<close>, \<open>reset.c\<close>): requests to the power management processor of theory
  \<open>Bpmp\<close>, with the message formats of \<open>src/libtx2bpmp/include/tx2bpmp/bpmp.h\<close>.

  The numbers of clocks, gates and resets are enumerations of the platform library, which is not part of the repository, and index the tables
  of the numbers that the firmware uses. Both are parameters: a record \<open>tx2_ids\<close> has the first and the last number plus one, and the tables, where
  \<open>None\<close> is an entry outside the table. Failures that abort the program are \<open>None\<close>.
\<close>

section \<open>Messages\<close>

definition MRQ_RESET :: u32 where "MRQ_RESET = 20"
definition MRQ_CLK :: u32 where "MRQ_CLK = 22"
definition CMD_CLK_GET_RATE :: u32 where "CMD_CLK_GET_RATE = 1"
definition CMD_CLK_SET_RATE :: u32 where "CMD_CLK_SET_RATE = 2"
definition CMD_CLK_ENABLE :: u32 where "CMD_CLK_ENABLE = 7"
definition CMD_CLK_DISABLE :: u32 where "CMD_CLK_DISABLE = 8"
definition CMD_CLK_GET_ALL_INFO :: u32 where "CMD_CLK_GET_ALL_INFO = 14"
definition CMD_RESET_ASSERT :: u32 where "CMD_RESET_ASSERT = 1"
definition CMD_RESET_DEASSERT :: u32 where "CMD_RESET_DEASSERT = 2"
definition MRQ_CLK_NAME_MAXLEN :: nat where "MRQ_CLK_NAME_MAXLEN = 40"
definition MRQ_CLK_MAX_PARENTS :: nat where "MRQ_CLK_MAX_PARENTS = 16"
definition TX2_CLKCAR_PADDR :: u64 where "TX2_CLKCAR_PADDR = 0x5000000"
definition TX2_CLKCAR_SIZE :: u64 where "TX2_CLKCAR_SIZE = 0x1000000"

definition le64 :: "u64 \<Rightarrow> bytes" where
  "le64 v = le32 (ucast v) @ le32 (ucast (drop_bit 32 v))"

definition le64_val :: "bytes \<Rightarrow> u64" where
  "le64_val bs = ucast (le32_val bs) + push_bit 32 (ucast (le32_val (drop 4 bs)))"

text \<open>
  The request is a command with the number of the clock and a union whose largest member is the one for setting a rate, an unused word and the
  rate; unless it is set it is 0. The largest member of the response is the one for all information about a clock: flags, the parent, the parents,
  their number and the name.
\<close>

definition mrq_clk_request :: "u32 \<Rightarrow> u32 \<Rightarrow> u64 \<Rightarrow> bytes" where
  "mrq_clk_request cmd ident rate = le32 (push_bit 24 cmd OR ident) @ le32 0 @ le64 rate"

definition sizeof_clk_request :: u64 where "sizeof_clk_request = 4 + (4 + 8)"

definition clk_name_offset :: nat where
  "clk_name_offset = 4 + 4 + 4 * MRQ_CLK_MAX_PARENTS + 1"

definition sizeof_clk_response :: u64 where
  "sizeof_clk_response = of_nat (clk_name_offset + MRQ_CLK_NAME_MAXLEN)"

definition zero_response :: bytes where
  "zero_response = replicate (unat sizeof_clk_response) 0"

definition mrq_reset_request :: "u32 \<Rightarrow> u32 \<Rightarrow> bytes" where
  "mrq_reset_request cmd reset_id = le32 cmd @ le32 reset_id"

definition sizeof_reset_request :: u64 where "sizeof_reset_request = 4 + 4"

text \<open>The expression \<open>sizeof(&res)\<close> is the size of a pointer.\<close>

definition sizeof_pointer :: u64 where "sizeof_pointer = 8"

record tx2_ids =
  gate_range :: "int \<times> int"
  clk_range :: "int \<times> int"
  reset_range :: "int \<times> int"
  mrq_gate_id_map :: "int \<rightharpoonup> u32"
  mrq_clk_id_map :: "int \<rightharpoonup> u32"
  mrq_reset_id_map :: "int \<rightharpoonup> u32"

definition check_valid_gate :: "tx2_ids \<Rightarrow> int \<Rightarrow> bool" where
  "check_valid_gate ids gate \<longleftrightarrow> fst (gate_range ids) \<le> gate \<and> gate < snd (gate_range ids)"

definition check_valid_clk_id :: "tx2_ids \<Rightarrow> int \<Rightarrow> bool" where
  "check_valid_clk_id ids ident \<longleftrightarrow> fst (clk_range ids) \<le> ident \<and> ident < snd (clk_range ids)"

definition check_valid_reset :: "tx2_ids \<Rightarrow> int \<Rightarrow> bool" where
  "check_valid_reset ids ident \<longleftrightarrow> fst (reset_range ids) \<le> ident \<and> ident < snd (reset_range ids)"

section \<open>Clocks\<close>

datatype clock_gate_mode = CLKGATE_ON | CLKGATE_IDLE | CLKGATE_SLEEP | CLKGATE_OFF

definition tx2_car_gate_enable :: "tx2_ids \<Rightarrow> 'p peer \<Rightarrow> tx2_bpmp option \<Rightarrow> int \<Rightarrow> clock_gate_mode \<Rightarrow> 'p bpmp_state \<Rightarrow>
   (errno option \<times> 'p bpmp_state) option" where
  "tx2_car_gate_enable ids peer bpmp gate mode s =
     (if \<not> check_valid_gate ids gate then Some (Some EINVAL, s)
      else if mode = CLKGATE_IDLE \<or> mode = CLKGATE_SLEEP then Some (Some EINVAL, s)
      else do {
        let command = (if mode = CLKGATE_ON then CMD_CLK_ENABLE else CMD_CLK_DISABLE);
        bpmp_gate_id \<leftarrow> mrq_gate_id_map ids gate;
        (bytes_recvd, res, s) \<leftarrow> tx2_bpmp_call peer bpmp MRQ_CLK (mrq_clk_request command bpmp_gate_id 0) sizeof_clk_request
          (Some zero_response) sizeof_clk_response s;
        Some (case bytes_recvd of Inl _ \<Rightarrow> Some EIO | Inr _ \<Rightarrow> None, s) })"

text \<open>
  A clock as the client sees it: where it and its name were allocated, its name, its number, and the frequency last asked for. The pointers to the
  functions and to the clock system are left out.
\<close>

record clk_t =
  clk_ptr :: u64
  name_ptr :: u64
  clk_name :: bytes
  clk_id :: int
  req_freq :: u64

text \<open>The first eight bytes of the response are the rate; the number of the clock is not translated to that of the firmware.\<close>

definition tx2_car_get_freq :: "'p peer \<Rightarrow> tx2_bpmp option \<Rightarrow> clk_t \<Rightarrow> 'p bpmp_state \<Rightarrow> (u64 \<times> 'p bpmp_state) option" where
  "tx2_car_get_freq peer bpmp clk s = do {
     (bytes_recvd, res, s) \<leftarrow> tx2_bpmp_call peer bpmp MRQ_CLK (mrq_clk_request CMD_CLK_GET_RATE (word_of_int (clk_id clk)) 0) sizeof_clk_request
       (Some zero_response) sizeof_pointer s;
     (case bytes_recvd of Inl _ \<Rightarrow> Some (0, s) | Inr _ \<Rightarrow> do { r \<leftarrow> res; Some (le64_val r, s) }) }"

definition tx2_car_set_freq :: "'p peer \<Rightarrow> tx2_bpmp option \<Rightarrow> clk_t \<Rightarrow> u64 \<Rightarrow> 'p bpmp_state \<Rightarrow> (u64 \<times> clk_t \<times> 'p bpmp_state) option" where
  "tx2_car_set_freq peer bpmp clk hz s = do {
     (bytes_recvd, res, s) \<leftarrow> tx2_bpmp_call peer bpmp MRQ_CLK (mrq_clk_request CMD_CLK_SET_RATE (word_of_int (clk_id clk)) hz) sizeof_clk_request
       (Some zero_response) sizeof_pointer s;
     (case bytes_recvd of
        Inl _ \<Rightarrow> Some (0, clk, s)
      | Inr _ \<Rightarrow> do { r \<leftarrow> res; Some (le64_val r, clk\<lparr>req_freq := hz\<rparr>, s) }) }"

text \<open>A call of \<open>ps_free\<close> whose result is ignored.\<close>

definition ps_free_any :: "platform \<Rightarrow> u64 \<Rightarrow> 'm tx2_state_scheme \<Rightarrow> 'm tx2_state_scheme" where
  "ps_free_any pf p s = (case ps_free pf p s of Some s' \<Rightarrow> s' | None \<Rightarrow> s\<lparr>calls := Suc (calls s)\<rparr>)"

text \<open>The label \<open>fail\<close> of \<open>tx2_car_get_clock\<close>. The name of the clock, which is set after the last failure, is still null.\<close>

definition get_clock_fail :: "platform \<Rightarrow> tx2_ids \<Rightarrow> 'p peer \<Rightarrow> tx2_bpmp option \<Rightarrow> int \<Rightarrow> u64 \<Rightarrow> bool \<Rightarrow> 'p bpmp_state \<Rightarrow>
   (clk_t option \<times> 'p bpmp_state) option" where
  "get_clock_fail pf ids peer bpmp ident ret_clk clock_initialised s = do {
     let s = ps_free_any pf ret_clk s;
     (if clock_initialised then do {
        (error, s) \<leftarrow> tx2_car_gate_enable ids peer bpmp ident CLKGATE_OFF s;
        (if error \<noteq> None then None else Some (None, s)) }
      else Some (None, s)) }"

text \<open>The string at the beginning of some bytes; without a terminator the search leaves them.\<close>

definition c_string :: "bytes \<Rightarrow> bytes option" where
  "c_string bs = (if 0 \<in> set bs then Some (takeWhile (\<lambda>b. b \<noteq> 0) bs) else None)"

definition tx2_car_get_clock :: "platform \<Rightarrow> tx2_ids \<Rightarrow> 'p peer \<Rightarrow> tx2_bpmp option \<Rightarrow> int \<Rightarrow> 'p bpmp_state \<Rightarrow>
   (clk_t option \<times> 'p bpmp_state) option" where
  "tx2_car_get_clock pf ids peer bpmp ident s =
     (if \<not> check_valid_clk_id ids ident then Some (None, s)
      else case ps_calloc pf s of
        (None, s) \<Rightarrow> Some (None, s)
      | (Some ret_clk, s) \<Rightarrow> do {
          (error, s) \<leftarrow> tx2_car_gate_enable ids peer bpmp ident CLKGATE_ON s;
          (if error \<noteq> None then get_clock_fail pf ids peer bpmp ident ret_clk False s
           else do {
             bpmp_clk_id \<leftarrow> mrq_clk_id_map ids ident;
             (bytes_recvd, res, s) \<leftarrow> tx2_bpmp_call peer bpmp MRQ_CLK (mrq_clk_request CMD_CLK_GET_ALL_INFO bpmp_clk_id 0) sizeof_clk_request
               (Some zero_response) sizeof_clk_response s;
             (case bytes_recvd of
                Inl _ \<Rightarrow> get_clock_fail pf ids peer bpmp ident ret_clk True s
              | Inr _ \<Rightarrow> do {
                  r \<leftarrow> res;
                  name \<leftarrow> c_string (drop clk_name_offset r);
                  (case ps_calloc pf s of
                     (None, s) \<Rightarrow> get_clock_fail pf ids peer bpmp ident ret_clk True s
                   | (Some clock_name, s) \<Rightarrow>
                       Some (Some \<lparr>clk_ptr = ret_clk, name_ptr = clock_name, clk_name = name, clk_id = ident, req_freq = 0\<rparr>, s)) }) }) })"

text \<open>
  Setting up the clock system. The registered interface for the power management processor is found by a service of the platform, a parameter that
  depends on the number of calls so far. The registers of the clocks are mapped like other regions.
\<close>

record tx2_clk =
  car_vaddr :: u64
  clk_bpmp :: tx2_bpmp

definition car_region :: pmem_region where
  "car_region = \<lparr>base_addr = TX2_CLKCAR_PADDR, pm_length = TX2_CLKCAR_SIZE\<rparr>"

definition clock_init_fail :: "platform \<Rightarrow> errno \<Rightarrow> u64 \<Rightarrow> u64 option \<Rightarrow> u64 \<Rightarrow> 'p bpmp_state \<Rightarrow> ((errno + tx2_clk) \<times> 'p bpmp_state) option" where
  "clock_init_fail pf e car bpmp priv s = do {
     let s = (if car \<noteq> 0 then ps_io_unmap car TX2_CLKCAR_SIZE s else s);
     s \<leftarrow> (case bpmp of None \<Rightarrow> Some s | Some q \<Rightarrow> ps_free pf q s);
     s \<leftarrow> ps_free pf priv s;
     Some (Inl e, s) }"

definition clock_sys_init :: "platform \<Rightarrow> (nat \<Rightarrow> tx2_bpmp option) \<Rightarrow> 'p bpmp_state walker \<Rightarrow> 'p peer \<Rightarrow> bool \<Rightarrow> bool \<Rightarrow> 'p bpmp_state \<Rightarrow>
   ((errno + tx2_clk) \<times> 'p bpmp_state) option" where
  "clock_sys_init pf iface walk peer io_ops clock_sys s =
     (if \<not> io_ops \<or> \<not> clock_sys then Some (Inl EINVAL, s)
      else case ps_calloc pf s of
        (None, s) \<Rightarrow> Some (Inl ENOMEM, s)
      | (Some priv, s) \<Rightarrow>
          (let (car, s) = ps_pmem_map pf car_region s
           in if car = 0 then clock_init_fail pf ENOMEM car None priv s
              else let found = iface (calls s); s = s\<lparr>calls := Suc (calls s)\<rparr>
                   in case found of
                        Some b \<Rightarrow> Some (Inr \<lparr>car_vaddr = car, clk_bpmp = b\<rparr>, s)
                      | None \<Rightarrow>
                          (case ps_calloc pf s of
                             (None, s) \<Rightarrow> clock_init_fail pf ENOMEM car None priv s
                           | (Some q, s) \<Rightarrow> do {
                               (r, s) \<leftarrow> tx2_bpmp_init pf walk peer True True s;
                               (case r of
                                  Inl e \<Rightarrow> clock_init_fail pf e car (Some q) priv s
                                | Inr b \<Rightarrow> Some (Inr \<lparr>car_vaddr = car, clk_bpmp = b\<rparr>, s)) })))"

section \<open>Resets\<close>

definition tx2_reset_common :: "tx2_ids \<Rightarrow> 'p peer \<Rightarrow> tx2_bpmp option \<Rightarrow> int \<Rightarrow> bool \<Rightarrow> 'p bpmp_state \<Rightarrow> (errno option \<times> 'p bpmp_state) option" where
  "tx2_reset_common ids peer bpmp ident assrt s =
     (if \<not> check_valid_reset ids ident then Some (Some EINVAL, s)
      else do {
        bpmp_reset_id \<leftarrow> mrq_reset_id_map ids ident;
        (bytes_recvd, _, s) \<leftarrow> tx2_bpmp_call peer bpmp MRQ_RESET
          (mrq_reset_request (if assrt then CMD_RESET_ASSERT else CMD_RESET_DEASSERT) bpmp_reset_id) sizeof_reset_request None 0 s;
        Some (case bytes_recvd of Inl _ \<Rightarrow> Some EIO | Inr _ \<Rightarrow> None, s) })"

definition tx2_reset_assert :: "tx2_ids \<Rightarrow> 'p peer \<Rightarrow> tx2_bpmp option \<Rightarrow> int \<Rightarrow> 'p bpmp_state \<Rightarrow> (errno option \<times> 'p bpmp_state) option" where
  "tx2_reset_assert ids peer bpmp ident s = tx2_reset_common ids peer bpmp ident True s"

definition tx2_reset_deassert :: "tx2_ids \<Rightarrow> 'p peer \<Rightarrow> tx2_bpmp option \<Rightarrow> int \<Rightarrow> 'p bpmp_state \<Rightarrow> (errno option \<times> 'p bpmp_state) option" where
  "tx2_reset_deassert ids peer bpmp ident s = tx2_reset_common ids peer bpmp ident False s"

definition reset_init_fail :: "platform \<Rightarrow> errno \<Rightarrow> u64 option \<Rightarrow> u64 \<Rightarrow> 'p bpmp_state \<Rightarrow> ((errno + tx2_bpmp) \<times> 'p bpmp_state) option" where
  "reset_init_fail pf e bpmp data s = do {
     s \<leftarrow> (case bpmp of None \<Rightarrow> Some s | Some q \<Rightarrow> ps_free pf q s);
     s \<leftarrow> ps_free pf data s;
     Some (Inl e, s) }"

text \<open>The power management processor to use may be passed by the caller.\<close>

definition reset_sys_init :: "platform \<Rightarrow> (nat \<Rightarrow> tx2_bpmp option) \<Rightarrow> 'p bpmp_state walker \<Rightarrow> 'p peer \<Rightarrow> bool \<Rightarrow> tx2_bpmp option \<Rightarrow> bool \<Rightarrow> 'p bpmp_state \<Rightarrow>
   ((errno + tx2_bpmp) \<times> 'p bpmp_state) option" where
  "reset_sys_init pf iface walk peer io_ops dependencies reset_sys s =
     (if \<not> io_ops \<or> \<not> reset_sys then Some (Inl EINVAL, s)
      else case ps_calloc pf s of
        (None, s) \<Rightarrow> Some (Inl ENOMEM, s)
      | (Some data, s) \<Rightarrow>
          (case dependencies of
             Some b \<Rightarrow> Some (Inr b, s)
           | None \<Rightarrow>
               (let found = iface (calls s); s = s\<lparr>calls := Suc (calls s)\<rparr>
                in case found of
                     Some b \<Rightarrow> Some (Inr b, s)
                   | None \<Rightarrow>
                       (case ps_calloc pf s of
                          (None, s) \<Rightarrow> reset_init_fail pf ENOMEM None data s
                        | (Some q, s) \<Rightarrow> do {
                            (r, s) \<leftarrow> tx2_bpmp_init pf walk peer True True s;
                            (case r of Inl e \<Rightarrow> reset_init_fail pf e (Some q) data s | Inr b \<Rightarrow> Some (Inr b, s)) }))))"

section \<open>Requests and the memory of the driver\<close>

text \<open>The calls to the platform and the memory, which a request does not change.\<close>

definition book :: "'p bpmp_state \<Rightarrow> nat \<times> u64 list" where
  "book s = (calls s, allocated s)"

lemma book_access: "channel_access peer s = Some s' \<Longrightarrow> book s' = book s"
  by (auto simp: channel_access_def book_def split: if_splits prod.splits)

lemma book_notify: "notify_if n s = Some s' \<Longrightarrow> book s' = book s"
  by (auto simp: notify_if_def bpmp_ivc_notify_def tx2_hsp_doorbell_ring_def hsp_doorbell_ring_def reg_write_def book_def split: if_splits)

lemma book_updates [simp]: "book (set_ivc a m s) = book s" "book (s\<lparr>shmem := m\<rparr>) = book s"
  by (simp_all add: book_def set_ivc_def)

lemma book_wait: "bpmp_wait peer t s = Some (r, s') \<Longrightarrow> book s' = book s"
proof (induction t arbitrary: s)
  case (Suc t)
  from Suc.prems obtain s1 where s1: "channel_access peer s = Some s1" by auto
  obtain r' n a m where nt: "tegra_ivc_channel_notified (bp_ivc (bpmp_data s1)) (shmem s1) = (r', n, a, m)" by (metis prod_cases4)
  with Suc.prems s1 obtain s2 where s2: "notify_if n (set_ivc a m s1) = Some s2" by auto
  have b: "book s2 = book s" using book_access [OF s1] book_notify [OF s2] by simp
  show ?case
  proof (cases r')
    case (Inl e)
    then show ?thesis using Suc.prems s1 nt s2 b by simp
  next
    case (Inr u)
    then obtain s3 where s3: "channel_access peer s2 = Some s3" using Suc.prems s1 nt s2 by auto
    obtain q where q: "tegra_ivc_read_get_next_frame (bp_ivc (bpmp_data s3)) (shmem s3) = Some q" using Suc.prems s1 nt s2 s3 Inr by auto
    then have "book s' = book s3" using Suc.prems s1 nt s2 s3 Inr Suc.IH by (auto split: sum.splits)
    then show ?thesis using book_access [OF s3] b by simp
  qed
qed simp

lemma book_send:
  assumes "bpmp_send peer mrq tx n s = Some (r, s')"
  shows "book s' = book s"
proof -
  from assms obtain s1 ret where s1: "channel_access peer s = Some s1"
    and ret: "tegra_ivc_write_get_next_frame (bp_ivc (bpmp_data s1)) (shmem s1) = Some ret" by (auto simp: bpmp_send_def)
  show ?thesis
  proof (cases ret)
    case (Inl e)
    then show ?thesis using assms s1 ret book_access [OF s1] by (simp add: bpmp_send_def)
  next
    case (Inr p)
    then obtain f s2 where s2: "channel_access peer (s1\<lparr>shmem := (shmem s1)\<lparr>frame_at := (frame_at (shmem s1))(p := f)\<rparr>\<rparr>) = Some s2"
      and rest: "(case tegra_ivc_write_advance (bp_ivc (bpmp_data s2)) (shmem s2) of
          Inl e \<Rightarrow> Some (Some e, s2)
        | Inr (n, ivc, m) \<Rightarrow> do { s3 \<leftarrow> notify_if n (set_ivc ivc m s2); Some (None, s3) }) = Some (r, s')"
      using assms s1 ret by (auto simp: bpmp_send_def split: if_splits)
    have "book s' = book s2" using rest by (auto split: sum.splits dest!: book_notify)
    then show ?thesis using book_access [OF s1] book_access [OF s2] by simp
  qed
qed

lemma book_receive:
  assumes "bpmp_receive peer p rx n s = Some (r, rx', s')"
  shows "book s' = book s"
proof -
  from assms obtain s1 out and err :: u32 where s1: "channel_access peer s = Some s1"
    and rest: "(case tegra_ivc_read_advance (bp_ivc (bpmp_data s1)) (shmem s1) of
        Inl e \<Rightarrow> Some (Inl e, out, s1)
      | Inr (n', ivc, m) \<Rightarrow> do { s2 \<leftarrow> notify_if n' (set_ivc ivc m s1); Some (if err \<noteq> 0 then Inl EIO else Inr n, out, s2) }) = Some (r, rx', s')"
    unfolding bpmp_receive_def Let_def bind_eq_Some_conv by blast
  have "book s' = book s1" using rest by (auto split: sum.splits dest!: book_notify)
  then show ?thesis using book_access [OF s1] by simp
qed

lemma book_call:
  assumes "bpmp_call peer mrq tx n rx k s = Some (r, rx', s')"
  shows "book s' = book s"
proof (cases "ucast BPMP_IVC_FRAME_SIZE < n \<or> ucast BPMP_IVC_FRAME_SIZE < k")
  case False
  with assms obtain ret s1 where s1: "bpmp_send peer mrq tx n s = Some (ret, s1)" by (auto simp: bpmp_call_def)
  show ?thesis
  proof (cases ret)
    case (Some e)
    then show ?thesis using assms s1 False book_send [OF s1] by (simp add: bpmp_call_def)
  next
    case None
    then obtain r1 s2 where s2: "bpmp_wait peer TIMEOUT_THRESHOLD s1 = Some (r1, s2)" using assms s1 False by (auto simp: bpmp_call_def)
    then have "book s' = book s2" using assms s1 False None book_receive by (cases r1) (auto simp: bpmp_call_def)
    then show ?thesis using book_send [OF s1] book_wait [OF s2] by simp
  qed
qed (use assms in \<open>auto simp: bpmp_call_def\<close>)

lemma ok_book [simp]:
  "bpmp_ok view R b (s\<lparr>calls := x\<rparr>) ph = bpmp_ok view R b s ph" "bpmp_ok view R b (s\<lparr>allocated := y\<rparr>) ph = bpmp_ok view R b s ph"
  by (simp_all add: bpmp_ok_def bell_ok_def accessible_def split: option.splits)

text \<open>A handle of an initialised driver, and a firmware that depends only on the kind and the contents of a request.\<close>

definition handle_ok :: "tx2_bpmp option \<Rightarrow> bool" where
  "handle_ok h \<longleftrightarrow> (case h of None \<Rightarrow> False | Some x \<Rightarrow> bpmp_call_set x)"

definition reads_request :: "(bytes \<Rightarrow> bytes) \<Rightarrow> u32 \<Rightarrow> nat \<Rightarrow> (bytes \<Rightarrow> bytes) \<Rightarrow> bool" where
  "reads_request serve mrq n fw \<longleftrightarrow>
     (\<forall>m rest. length m = n \<longrightarrow>
        serve (put_request \<lparr>rq_mrq = mrq, rq_flags = BPMP_FLAG_DO_ACK OR BPMP_FLAG_RING_DOORBELL\<rparr> @ m @ rest) = fw m)"

definition refused :: "bytes \<Rightarrow> bool" where
  "refused r \<longleftrightarrow> le32_val r \<noteq> 0"

lemma handle_request:
  assumes law: "peer_law peer view serve lag R" and ok: "bpmp_ok view R b s Quiet" and h: "handle_ok h"
    and fw: "reads_request serve mrq (length m) fw" and m: "unat n = length m" "length m \<le> 120" "length m + 8 \<le> R"
    and k: "unat k \<le> 120" "unat k + 8 \<le> R" "\<And>buf. rx = Some buf \<Longrightarrow> unat k \<le> length buf"
  shows "\<exists>s'. tx2_bpmp_call peer h mrq m n rx k s =
      Some (if refused (fw m) then Inl EIO else Inr k,
            if refused (fw m) then rx else map_option (\<lambda>buf. take (unat k) (drop 8 (fw m)) @ drop (unat k) buf) rx, s') \<and>
    bpmp_ok view R b s' Quiet \<and> book s' = book s"
proof -
  obtain rest s' where c: "bpmp_call peer mrq m n rx k s = Some (fst (reply (serve (request_bytes mrq m n @ rest)) rx k),
      snd (reply (serve (request_bytes mrq m n @ rest)) rx k), s')" "bpmp_ok view R b s' Quiet"
    using call_answered [OF law ok, of n k m rx mrq] m k by auto
  have "serve (request_bytes mrq m n @ rest) = fw m" using fw m(1) by (simp add: reads_request_def request_bytes_def)
  then show ?thesis
    using c book_call [OF c(1)] h by (auto simp: handle_ok_def tx2_bpmp_call_def reply_def refused_def split: option.splits)
qed

lemma length_clk_request [simp]: "length (mrq_clk_request c i r) = 16" "length (mrq_reset_request c i) = 8"
  by (simp_all add: mrq_clk_request_def mrq_reset_request_def le64_def le32_def)

lemmas clk_sizes = sizeof_clk_request_def sizeof_clk_response_def sizeof_reset_request_def sizeof_pointer_def clk_name_offset_def
  MRQ_CLK_MAX_PARENTS_def MRQ_CLK_NAME_MAXLEN_def zero_response_def

text \<open>What is fixed while the clocks are used: the firmware, the handle and enough room for the messages.\<close>

definition clk_link :: "'p peer \<Rightarrow> ('p \<Rightarrow> tegra_ivc \<times> bytes option) \<Rightarrow> (bytes \<Rightarrow> bytes) \<Rightarrow> ('p \<Rightarrow> nat) \<Rightarrow> nat \<Rightarrow> tx2_bpmp option \<Rightarrow> (bytes \<Rightarrow> bytes) \<Rightarrow> bool" where
  "clk_link peer view serve lag R h fw \<longleftrightarrow> peer_law peer view serve lag R \<and> handle_ok h \<and> reads_request serve MRQ_CLK 16 fw \<and> 121 \<le> R"

lemma clk_request_all:
  assumes "clk_link peer view serve lag R h fw" and "bpmp_ok view R b s Quiet"
  shows "\<exists>s'. tx2_bpmp_call peer h MRQ_CLK (mrq_clk_request c i r) sizeof_clk_request (Some zero_response) sizeof_clk_response s =
      Some (let a = fw (mrq_clk_request c i r)
            in if refused a then (Inl EIO, Some zero_response, s') else (Inr sizeof_clk_response, Some (take 113 (drop 8 a)), s')) \<and>
    bpmp_ok view R b s' Quiet \<and> book s' = book s"
proof -
  have l: "peer_law peer view serve lag R" "handle_ok h" "reads_request serve MRQ_CLK (length (mrq_clk_request c i r)) fw" "121 \<le> R"
    using assms(1) by (simp_all add: clk_link_def)
  show ?thesis
    using handle_request [OF l(1) assms(2) l(2,3), of sizeof_clk_request sizeof_clk_response "Some zero_response"] l(4)
    by (auto simp: clk_sizes)
qed

section \<open>Properties of the clocks\<close>

lemma gate_enable_eq:
  assumes link: "clk_link peer view serve lag R h fw" and ok: "bpmp_ok view R b s Quiet"
    and g: "check_valid_gate ids gate" "mrq_gate_id_map ids gate = Some g" and mode: "mode = CLKGATE_ON \<or> mode = CLKGATE_OFF"
  shows "\<exists>s'. tx2_car_gate_enable ids peer h gate mode s =
      Some (if refused (fw (mrq_clk_request (if mode = CLKGATE_ON then CMD_CLK_ENABLE else CMD_CLK_DISABLE) g 0)) then Some EIO else None, s') \<and>
    bpmp_ok view R b s' Quiet \<and> book s' = book s"
proof -
  obtain s' where "tx2_bpmp_call peer h MRQ_CLK (mrq_clk_request (if mode = CLKGATE_ON then CMD_CLK_ENABLE else CMD_CLK_DISABLE) g 0)
      sizeof_clk_request (Some zero_response) sizeof_clk_response s =
      Some (let a = fw (mrq_clk_request (if mode = CLKGATE_ON then CMD_CLK_ENABLE else CMD_CLK_DISABLE) g 0)
            in if refused a then (Inl EIO, Some zero_response, s') else (Inr sizeof_clk_response, Some (take 113 (drop 8 a)), s'))"
    "bpmp_ok view R b s' Quiet" "book s' = book s"
    using clk_request_all [OF link ok] by metis
  then show ?thesis using g mode by (intro exI [of _ s']) (auto simp: tx2_car_gate_enable_def Let_def)
qed

lemma fail_free_any: "(\<And>n. pf_free pf n) \<Longrightarrow> ps_free_any pf p s = s\<lparr>calls := Suc (calls s), allocated := remove1 p (allocated s)\<rparr>"
  by (simp add: ps_free_any_def ps_free_def)

lemma get_clock_fail_eq:
  assumes link: "clk_link peer view serve lag R h fw" and ok: "bpmp_ok view R b s Quiet"
    and g: "check_valid_gate ids ident" "mrq_gate_id_map ids ident = Some g" and off: "\<not> refused (fw (mrq_clk_request CMD_CLK_DISABLE g 0))"
    and free: "\<And>n. pf_free pf n"
  shows "\<exists>s'. get_clock_fail pf ids peer h ident p initialised s = Some (None, s') \<and>
    bpmp_ok view R b s' Quiet \<and> allocated s' = remove1 p (allocated s)"
proof -
  define t where "t = s\<lparr>calls := Suc (calls s), allocated := remove1 p (allocated s)\<rparr>"
  have t: "bpmp_ok view R b t Quiet" "allocated t = remove1 p (allocated s)" using ok by (simp_all add: t_def)
  have eq: "get_clock_fail pf ids peer h ident p initialised s =
    (if initialised then do { (error, s) \<leftarrow> tx2_car_gate_enable ids peer h ident CLKGATE_OFF t; (if error \<noteq> None then None else Some (None, s)) }
     else Some (None, t))"
    by (simp add: get_clock_fail_def fail_free_any [OF free] t_def)
  show ?thesis
  proof (cases initialised)
    case True
    from gate_enable_eq [OF link t(1) g, of CLKGATE_OFF] off obtain s' where
      "tx2_car_gate_enable ids peer h ident CLKGATE_OFF t = Some (None, s')" "bpmp_ok view R b s' Quiet" "book s' = book t" by auto
    then show ?thesis using True t(2) eq by (auto simp: book_def)
  qed (use eq t in simp)
qed

text \<open>
  C40: The whole outcome of asking for a clock, for a firmware that answers each request by its contents, accepts that the clock is turned off and sends
  terminated names. The client gets the clock with the name that the firmware has for it exactly when there is memory for the clock and its name and
  the firmware neither refuses to enable it nor to describe it. Otherwise the client gets nothing and all memory has been given back. In either case
  the link is ready for the next request.
\<close>

theorem tx2_car_get_clock_effect:
  assumes link: "clk_link peer view serve lag R h fw" and ok: "bpmp_ok view R b s Quiet"
    and ids: "check_valid_clk_id ids ident" "check_valid_gate ids ident" "mrq_gate_id_map ids ident = Some g" "mrq_clk_id_map ids ident = Some c"
    and off: "\<not> refused (fw (mrq_clk_request CMD_CLK_DISABLE g 0))" and free: "\<And>n. pf_free pf n"
    and name: "c_string (drop clk_name_offset (take 113 (drop 8 (fw (mrq_clk_request CMD_CLK_GET_ALL_INFO c 0))))) = Some nm"
  shows "\<exists>s'. tx2_car_get_clock pf ids peer h ident s =
      Some (case pf_calloc pf (calls s) of
          None \<Rightarrow> None
        | Some p \<Rightarrow>
            if refused (fw (mrq_clk_request CMD_CLK_ENABLE g 0)) \<or> refused (fw (mrq_clk_request CMD_CLK_GET_ALL_INFO c 0)) then None
            else map_option (\<lambda>q. \<lparr>clk_ptr = p, name_ptr = q, clk_name = nm, clk_id = ident, req_freq = 0\<rparr>) (pf_calloc pf (Suc (calls s))), s') \<and>
    bpmp_ok view R b s' Quiet \<and>
    allocated s' = (case fst (the (tx2_car_get_clock pf ids peer h ident s)) of None \<Rightarrow> allocated s | Some k \<Rightarrow> name_ptr k # clk_ptr k # allocated s)"
proof (cases "pf_calloc pf (calls s)")
  case None
  then show ?thesis using ids(1) ok by (simp add: tx2_car_get_clock_def ps_calloc_def)
next
  case (Some p)
  define s1 where "s1 = s\<lparr>calls := Suc (calls s), allocated := p # allocated s\<rparr>"
  have ok1: "bpmp_ok view R b s1 Quiet" and b1: "book s1 = (Suc (calls s), p # allocated s)" using ok by (simp_all add: s1_def book_def)
  have c1: "ps_calloc pf s = (Some p, s1)" using Some by (simp add: ps_calloc_def s1_def)
  let ?en = "fw (mrq_clk_request CMD_CLK_ENABLE g 0)" and ?info = "fw (mrq_clk_request CMD_CLK_GET_ALL_INFO c 0)"
  obtain s2 where s2: "tx2_car_gate_enable ids peer h ident CLKGATE_ON s1 = Some (if refused ?en then Some EIO else None, s2)"
    "bpmp_ok view R b s2 Quiet" "book s2 = book s1"
    using gate_enable_eq [OF link ok1 ids(2,3), of CLKGATE_ON] by auto
  have fail: "\<exists>s'. get_clock_fail pf ids peer h ident p i t = Some (None, s') \<and> bpmp_ok view R b s' Quiet \<and> allocated s' = allocated s"
    if "bpmp_ok view R b t Quiet" "allocated t = p # allocated s" for i t
    using get_clock_fail_eq [OF link that(1) ids(2,3) off free, of p i] that(2) by simp
  show ?thesis
  proof (cases "refused ?en")
    case True
    with s2 fail [of s2 False] b1 c1 ids(1) Some show ?thesis by (auto simp: tx2_car_get_clock_def book_def)
  next
    case False
    obtain s3 where s3: "tx2_bpmp_call peer h MRQ_CLK (mrq_clk_request CMD_CLK_GET_ALL_INFO c 0) sizeof_clk_request
        (Some zero_response) sizeof_clk_response s2 =
        Some (let a = ?info in if refused a then (Inl EIO, Some zero_response, s3) else (Inr sizeof_clk_response, Some (take 113 (drop 8 a)), s3))"
      "bpmp_ok view R b s3 Quiet" "book s3 = book s2" using clk_request_all [OF link s2(2)] by metis
    have b3: "calls s3 = Suc (calls s)" "allocated s3 = p # allocated s" using s3(3) s2(3) b1 by (simp_all add: book_def)
    show ?thesis
    proof (cases "refused ?info")
      case True
      with s2 s3 fail [OF s3(2) b3(2), of True] False c1 ids Some show ?thesis by (auto simp: tx2_car_get_clock_def Let_def)
    next
      case acc: False
      have eq: "tx2_car_get_clock pf ids peer h ident s = (case ps_calloc pf s3 of
          (None, s) \<Rightarrow> get_clock_fail pf ids peer h ident p True s
        | (Some q, s) \<Rightarrow> Some (Some \<lparr>clk_ptr = p, name_ptr = q, clk_name = nm, clk_id = ident, req_freq = 0\<rparr>, s))"
        using s2 s3 False acc c1 ids name by (simp add: tx2_car_get_clock_def Let_def)
      show ?thesis
      proof (cases "pf_calloc pf (Suc (calls s))")
        case None
        then have "ps_calloc pf s3 = (None, s3\<lparr>calls := Suc (calls s3)\<rparr>)" using b3(1) by (simp add: ps_calloc_def)
        with fail [of "s3\<lparr>calls := Suc (calls s3)\<rparr>" True] s3(2) b3 eq None Some False acc show ?thesis by auto
      next
        case q: (Some q)
        then show ?thesis using eq s3(2) b3 Some False acc by (simp add: ps_calloc_def)
      qed
    qed
  qed
qed

text \<open>A firmware with one clock, which describes it by the name \<open>a\<close> and has a rate for every clock, ten times its number.\<close>

definition demo_clk_fw :: "bytes \<Rightarrow> bytes" where
  "demo_clk_fw m =
     (if m ! 3 = 14 then replicate 8 0 @ replicate 73 0 @ [97] @ replicate 54 0
      else replicate 8 0 @ le64 (10 * ucast (m ! 0)) @ replicate 120 0)"

definition demo_clk_serve :: "bytes \<Rightarrow> bytes" where
  "demo_clk_serve f = demo_clk_fw (take 16 (drop 8 f))"

definition demo_ids :: tx2_ids where
  "demo_ids = \<lparr>gate_range = (0, 2), clk_range = (0, 2), reset_range = (0, 2), mrq_gate_id_map = [0 \<mapsto> 5, 1 \<mapsto> 6], mrq_clk_id_map = [0 \<mapsto> 5, 1 \<mapsto> 6],
     mrq_reset_id_map = [0 \<mapsto> 9, 1 \<mapsto> 8]\<rparr>"

definition demo_handle :: "tx2_bpmp option" where
  "demo_handle = Some \<lparr>bpmp_call_set = True, bpmp_destroy_set = True\<rparr>"

lemma demo_clk_link: "clk_link (prompt_peer demo_clk_serve) id demo_clk_serve (\<lambda>_. 0) 136 demo_handle demo_clk_fw"
proof -
  have "peer_law (prompt_peer demo_clk_serve) id demo_clk_serve (\<lambda>_. 0) 136"
    by (rule prompt_peer_law) (simp add: demo_clk_serve_def demo_clk_fw_def le64_def le32_def)
  moreover have "reads_request demo_clk_serve MRQ_CLK 16 demo_clk_fw"
    by (simp add: reads_request_def demo_clk_serve_def put_request_def le32_def)
  ultimately show ?thesis by (simp add: clk_link_def handle_ok_def demo_handle_def)
qed

lemma demo_fw_accepts: "\<not> refused (demo_clk_fw m)"
  by (simp add: refused_def demo_clk_fw_def replicate_eight)

lemma demo_fw_name: "c_string (drop clk_name_offset (take 113 (drop 8 (demo_clk_fw (mrq_clk_request CMD_CLK_GET_ALL_INFO 5 0))))) = Some [97]"
  by code_simp

theorem tx2_car_get_clock_effect_witness:
  "\<exists>s'. tx2_car_get_clock demo_pf demo_ids (prompt_peer demo_clk_serve) demo_handle 0 demo_bpmp =
     Some (Some \<lparr>clk_ptr = 64, name_ptr = 64, clk_name = [97], clk_id = 0, req_freq = 0\<rparr>, s')"
  using tx2_car_get_clock_effect [OF demo_clk_link demo_bpmp_ok, of demo_ids 0 5 5 demo_pf "[97]"] demo_fw_accepts demo_fw_name
  by (auto simp: demo_ids_def check_valid_clk_id_def check_valid_gate_def demo_pf_def)

text \<open>
  The frequency of a clock is asked for by the number that the client has for it: the firmware is asked for another clock than the one that
  \<open>tx2_car_get_clock\<close> enabled, unless the table maps the number to itself.
\<close>

lemma tx2_car_get_freq_asks:
  assumes link: "clk_link peer view serve lag R h fw" and ok: "bpmp_ok view R b s Quiet"
  shows "\<exists>s'. tx2_car_get_freq peer h clk s =
      Some (let a = fw (mrq_clk_request CMD_CLK_GET_RATE (word_of_int (clk_id clk)) 0)
            in if refused a then 0 else le64_val (take 8 (drop 8 a) @ replicate 105 0), s') \<and>
    bpmp_ok view R b s' Quiet"
proof -
  let ?m = "mrq_clk_request CMD_CLK_GET_RATE (word_of_int (clk_id clk)) 0"
  have l: "peer_law peer view serve lag R" "handle_ok h" "reads_request serve MRQ_CLK (length ?m) fw" "121 \<le> R"
    using link by (simp_all add: clk_link_def)
  obtain s' where "tx2_bpmp_call peer h MRQ_CLK ?m sizeof_clk_request (Some zero_response) sizeof_pointer s =
      Some (if refused (fw ?m) then Inl EIO else Inr sizeof_pointer,
            if refused (fw ?m) then Some zero_response else Some (take 8 (drop 8 (fw ?m)) @ replicate 105 0), s')"
    "bpmp_ok view R b s' Quiet"
    using handle_request [OF l(1) ok l(2,3), of sizeof_clk_request sizeof_pointer "Some zero_response"] l(4)
    by (auto simp: clk_sizes)
  then show ?thesis by (intro exI [of _ s']) (simp add: tx2_car_get_freq_def Let_def)
qed

lemma tx2_reset_effect:
  assumes law: "peer_law peer view serve lag R" and fw: "reads_request serve MRQ_RESET 8 fw" and "16 \<le> R" and h: "handle_ok h"
    and ok: "bpmp_ok view R b s Quiet" and r: "check_valid_reset ids ident" "mrq_reset_id_map ids ident = Some c"
  shows "\<exists>s'. tx2_reset_common ids peer h ident a s =
      Some (if refused (fw (mrq_reset_request (if a then CMD_RESET_ASSERT else CMD_RESET_DEASSERT) c)) then Some EIO else None, s') \<and>
    bpmp_ok view R b s' Quiet"
proof -
  let ?m = "mrq_reset_request (if a then CMD_RESET_ASSERT else CMD_RESET_DEASSERT) c"
  have "reads_request serve MRQ_RESET (length ?m) fw" using fw by simp
  from handle_request [OF law ok h this, of sizeof_reset_request 0 None] \<open>16 \<le> R\<close> obtain s' where
    "tx2_bpmp_call peer h MRQ_RESET ?m sizeof_reset_request None 0 s = Some (if refused (fw ?m) then Inl EIO else Inr 0, None, s')"
    "bpmp_ok view R b s' Quiet"
    by (auto simp: clk_sizes)
  then show ?thesis using r by (intro exI [of _ s']) (simp add: tx2_reset_common_def)
qed

text \<open>
  Setting up the clocks or the resets without having to initialise the power management processor: a failure gives back all memory and mappings, and
  success keeps exactly one allocation, and for the clocks the mapping of their registers.
\<close>

lemma clock_sys_init_memory:
  assumes free: "\<And>n. pf_free pf n" and iface: "iface = (\<lambda>n. Some (registered n))" and init: "clock_sys_init pf iface walk peer io sys s = Some (r, s')"
  shows "case r of
      Inl e \<Rightarrow> allocated s' = allocated s \<and> mapped s' = mapped s
    | Inr k \<Rightarrow> (\<exists>p. allocated s' = p # allocated s) \<and> mapped s' = (car_vaddr k, TX2_CLKCAR_SIZE) # mapped s \<and> car_vaddr k \<noteq> 0"
  using init iface
  by (auto simp: clock_sys_init_def clock_init_fail_def ps_calloc_def ps_pmem_map_def ps_free_def free car_region_def Let_def
      split: if_splits option.splits)

lemma reset_sys_init_memory:
  assumes free: "\<And>n. pf_free pf n" and iface: "iface = (\<lambda>n. Some (registered n))" and init: "reset_sys_init pf iface walk peer io dep sys s = Some (r, s')"
  shows "mapped s' = mapped s \<and> (case r of Inl e \<Rightarrow> allocated s' = allocated s | Inr k \<Rightarrow> (\<exists>p. allocated s' = p # allocated s) \<and> (\<forall>b. dep = Some b \<longrightarrow> k = b))"
  using init iface
  by (auto simp: reset_sys_init_def reset_init_fail_def ps_calloc_def ps_free_def free Let_def split: if_splits option.splits)

end
