(* ===== verification/MP_Object.thy ===== *)
theory MP_Object
  imports Prelude
begin

text \<open>
  libmsgpack, dynamically typed objects (\<open>msgpack-c/include/msgpack/object.h\<close>,
  \<open>msgpack-c/src/objectc.c\<close>).

  An object is its tag with the member of the union that the tag selects. Integers and doubles
  are their 64 bits; a string, binary or extension body is the list of the bytes its pointer and
  size describe; an array or map is the list of its elements. Sizes are 32-bit in the source:
  \<open>wf_object\<close> says that every size fits.
\<close>

section \<open>Data\<close>

datatype msgpack_object =
    OBJECT_NIL
  | OBJECT_BOOLEAN bool
  | OBJECT_POSITIVE_INTEGER u64
  | OBJECT_NEGATIVE_INTEGER u64
  | OBJECT_FLOAT u64
  | OBJECT_STR bytes
  | OBJECT_ARRAY "msgpack_object list"
  | OBJECT_MAP "(msgpack_object \<times> msgpack_object) list"
  | OBJECT_BIN bytes
  | OBJECT_EXT u8 bytes

section \<open>Doubles as bit patterns\<close>

definition f64_exponent :: "u64 \<Rightarrow> u64" where
  "f64_exponent b = (drop_bit 52 b) AND 0x7FF"

definition f64_fraction :: "u64 \<Rightarrow> u64" where
  "f64_fraction b = b AND 0xFFFFFFFFFFFFF"

definition f64_is_nan :: "u64 \<Rightarrow> bool" where
  "f64_is_nan b \<longleftrightarrow> f64_exponent b = 0x7FF \<and> f64_fraction b \<noteq> 0"

definition f64_is_zero :: "u64 \<Rightarrow> bool" where
  "f64_is_zero b \<longleftrightarrow> b AND 0x7FFFFFFFFFFFFFFF = 0"

text \<open>The operator \<open>==\<close> on doubles: no NaN equals anything, and the two zeros are equal.\<close>

definition f64_eq :: "u64 \<Rightarrow> u64 \<Rightarrow> bool" where
  "f64_eq x y \<longleftrightarrow> \<not> f64_is_nan x \<and> \<not> f64_is_nan y \<and> (x = y \<or> f64_is_zero x \<and> f64_is_zero y)"

text \<open>
  The conversion of a float to a double, which is exact: subnormal floats are normalised, the
  sign is kept, and a NaN keeps its payload and becomes quiet.
\<close>

fun f32_normalise :: "nat \<Rightarrow> nat \<Rightarrow> nat \<times> nat" where
  "f32_normalise 0 frac = (0, frac)"
| "f32_normalise (Suc k) frac =
     (if frac < 2 ^ 23 then (case f32_normalise k (2 * frac) of (s, f) \<Rightarrow> (Suc s, f)) else (0, frac))"

definition float_to_double :: "u32 \<Rightarrow> u64" where
  "float_to_double b =
     (let sign = unat (drop_bit 31 b); expo = unat (drop_bit 23 b AND 0xFF); frac = unat (b AND 0x7FFFFF);
          make = (\<lambda>e f. of_nat (sign * 2 ^ 63 + e * 2 ^ 52 + f * 2 ^ 29))
      in if expo = 255 then make 2047 (if frac = 0 then 0 else (if frac < 2 ^ 22 then frac + 2 ^ 22 else frac))
         else if expo = 0 then
           (if frac = 0 then make 0 0
            else (case f32_normalise 23 frac of (s, f) \<Rightarrow> make (897 - s) (f - 2 ^ 23)))
         else make (expo + 896) frac)"

section \<open>Comparison\<close>

text \<open>
  The two loops over the elements; the sizes have been found equal before. The bytes of strings,
  binaries and extensions are compared by \<open>memcmp\<close>.
\<close>

definition memcmp_eq :: "bytes \<Rightarrow> bytes \<Rightarrow> bool" where
  "memcmp_eq a b \<longleftrightarrow> list_all2 (=) a b"

fun equal_items :: "('a \<Rightarrow> bool) list \<Rightarrow> 'a list \<Rightarrow> bool" where
  "equal_items (p # ps) (y # ys) = (if \<not> p y then False else equal_items ps ys)"
| "equal_items _ _ = True"

fun equal_kvs :: "(('a \<Rightarrow> bool) \<times> ('a \<Rightarrow> bool)) list \<Rightarrow> ('a \<times> 'a) list \<Rightarrow> bool" where
  "equal_kvs ((p, q) # ps) ((k, v) # ys) = (if \<not> p k \<or> \<not> q v then False else equal_kvs ps ys)"
| "equal_kvs _ _ = True"

primrec msgpack_object_equal :: "msgpack_object \<Rightarrow> msgpack_object \<Rightarrow> bool" where
  "msgpack_object_equal OBJECT_NIL = (\<lambda>y. case y of OBJECT_NIL \<Rightarrow> True | _ \<Rightarrow> False)"
| "msgpack_object_equal (OBJECT_BOOLEAN a) = (\<lambda>y. case y of OBJECT_BOOLEAN b \<Rightarrow> a = b | _ \<Rightarrow> False)"
| "msgpack_object_equal (OBJECT_POSITIVE_INTEGER a) =
     (\<lambda>y. case y of OBJECT_POSITIVE_INTEGER b \<Rightarrow> a = b | _ \<Rightarrow> False)"
| "msgpack_object_equal (OBJECT_NEGATIVE_INTEGER a) =
     (\<lambda>y. case y of OBJECT_NEGATIVE_INTEGER b \<Rightarrow> a = b | _ \<Rightarrow> False)"
| "msgpack_object_equal (OBJECT_FLOAT a) = (\<lambda>y. case y of OBJECT_FLOAT b \<Rightarrow> f64_eq a b | _ \<Rightarrow> False)"
| "msgpack_object_equal (OBJECT_STR a) =
     (\<lambda>y. case y of OBJECT_STR b \<Rightarrow> length a = length b \<and> memcmp_eq a b | _ \<Rightarrow> False)"
| "msgpack_object_equal (OBJECT_BIN a) =
     (\<lambda>y. case y of OBJECT_BIN b \<Rightarrow> length a = length b \<and> memcmp_eq a b | _ \<Rightarrow> False)"
| "msgpack_object_equal (OBJECT_EXT s a) =
     (\<lambda>y. case y of OBJECT_EXT t b \<Rightarrow> length a = length b \<and> s = t \<and> memcmp_eq a b | _ \<Rightarrow> False)"
| "msgpack_object_equal (OBJECT_ARRAY a) =
     (\<lambda>y. case y of OBJECT_ARRAY b \<Rightarrow>
         (if length a \<noteq> length b then False else if length a = 0 then True
          else equal_items (map msgpack_object_equal a) b)
       | _ \<Rightarrow> False)"
| "msgpack_object_equal (OBJECT_MAP a) =
     (\<lambda>y. case y of OBJECT_MAP b \<Rightarrow>
         (if length a \<noteq> length b then False else if length a = 0 then True
          else equal_kvs (map (map_prod msgpack_object_equal msgpack_object_equal) a) b)
       | _ \<Rightarrow> False)"

section \<open>Printing\<close>

fun dec_digits :: "nat \<Rightarrow> nat \<Rightarrow> string" where
  "dec_digits 0 n = []"
| "dec_digits (Suc k) n =
     (if n < 10 then [char_of (48 + n)] else dec_digits k (n div 10) @ [char_of (48 + n mod 10)])"

definition show_u64 :: "u64 \<Rightarrow> string" where
  "show_u64 x = dec_digits 20 (unat x)"

definition show_int :: "int \<Rightarrow> string" where
  "show_int i = (if i < 0 then CHR ''-'' # dec_digits 20 (nat (- i)) else dec_digits 20 (nat i))"

definition put_str :: "string \<Rightarrow> bytes" where
  "put_str s = map of_char s"

text \<open>
  What is written to the stream. The rendering of a double by \<open>%f\<close> is the argument \<open>fmt\<close>.
\<close>

fun print_items :: "bytes list \<Rightarrow> bytes" where
  "print_items [] = []"
| "print_items (x # xs) = put_str '', '' @ x @ print_items xs"

fun print_kvs :: "(bytes \<times> bytes) list \<Rightarrow> bytes" where
  "print_kvs [] = []"
| "print_kvs ((k, v) # xs) = put_str '', '' @ k @ put_str ''=>'' @ v @ print_kvs xs"

primrec msgpack_object_print :: "(u64 \<Rightarrow> string) \<Rightarrow> msgpack_object \<Rightarrow> bytes" where
  "msgpack_object_print fmt OBJECT_NIL = put_str ''nil''"
| "msgpack_object_print fmt (OBJECT_BOOLEAN b) = (if b then put_str ''true'' else put_str ''false'')"
| "msgpack_object_print fmt (OBJECT_POSITIVE_INTEGER n) = put_str (show_u64 n)"
| "msgpack_object_print fmt (OBJECT_NEGATIVE_INTEGER n) = put_str (show_int (sint n))"
| "msgpack_object_print fmt (OBJECT_FLOAT d) = put_str (fmt d)"
| "msgpack_object_print fmt (OBJECT_STR s) = [34] @ s @ [34]"
| "msgpack_object_print fmt (OBJECT_BIN s) = [34] @ s @ [34]"
| "msgpack_object_print fmt (OBJECT_EXT t s) =
     put_str ''(ext: '' @ put_str (show_int (sint t)) @ put_str '')'' @ [34] @ s @ [34]"
| "msgpack_object_print fmt (OBJECT_ARRAY os) =
     put_str ''['' @ (case map (msgpack_object_print fmt) os of [] \<Rightarrow> [] | p # ps \<Rightarrow> p @ print_items ps) @ put_str '']''"
| "msgpack_object_print fmt (OBJECT_MAP kvs) =
     put_str ''{'' @ (case map (map_prod (msgpack_object_print fmt) (msgpack_object_print fmt)) kvs of [] \<Rightarrow> []
       | (k, v) # ps \<Rightarrow> k @ put_str ''=>'' @ v @ print_kvs ps) @ put_str ''}''"

section \<open>Well-formed objects\<close>

text \<open>
  Sizes fit their 32-bit fields, and the negative tag is used for negative numbers only, as the
  unpacker produces it. The size of an extension stays below the largest 32-bit value, because
  the unpacker adds one to it.
\<close>

fun wf_object :: "msgpack_object \<Rightarrow> bool" where
  "wf_object (OBJECT_NEGATIVE_INTEGER n) \<longleftrightarrow> sint n < 0"
| "wf_object (OBJECT_STR s) \<longleftrightarrow> length s < 2 ^ 32"
| "wf_object (OBJECT_BIN s) \<longleftrightarrow> length s < 2 ^ 32"
| "wf_object (OBJECT_EXT t s) \<longleftrightarrow> length s + 1 < 2 ^ 32"
| "wf_object (OBJECT_ARRAY os) \<longleftrightarrow> length os < 2 ^ 32 \<and> (\<forall>x \<in> set os. wf_object x)"
| "wf_object (OBJECT_MAP kvs) \<longleftrightarrow> length kvs < 2 ^ 32 \<and> (\<forall>(k, v) \<in> set kvs. wf_object k \<and> wf_object v)"
| "wf_object _ \<longleftrightarrow> True"

text \<open>The nesting of containers, counting empty ones.\<close>

fun obj_depth :: "msgpack_object \<Rightarrow> nat" where
  "obj_depth (OBJECT_ARRAY os) = Suc (foldr (\<lambda>x d. max (obj_depth x) d) os 0)"
| "obj_depth (OBJECT_MAP kvs) = Suc (foldr (\<lambda>(k, v) d. max (max (obj_depth k) (obj_depth v)) d) kvs 0)"
| "obj_depth _ = 0"

section \<open>What comparison means\<close>

text \<open>The two zeros made one, and the absence of NaN anywhere in an object.\<close>

definition f64_norm :: "u64 \<Rightarrow> u64" where
  "f64_norm x = (if f64_is_zero x then 0 else x)"

primrec norm_object :: "msgpack_object \<Rightarrow> msgpack_object" where
  "norm_object OBJECT_NIL = OBJECT_NIL"
| "norm_object (OBJECT_BOOLEAN b) = OBJECT_BOOLEAN b"
| "norm_object (OBJECT_POSITIVE_INTEGER n) = OBJECT_POSITIVE_INTEGER n"
| "norm_object (OBJECT_NEGATIVE_INTEGER n) = OBJECT_NEGATIVE_INTEGER n"
| "norm_object (OBJECT_FLOAT d) = OBJECT_FLOAT (f64_norm d)"
| "norm_object (OBJECT_STR s) = OBJECT_STR s"
| "norm_object (OBJECT_ARRAY os) = OBJECT_ARRAY (map norm_object os)"
| "norm_object (OBJECT_MAP kvs) = OBJECT_MAP (map (map_prod norm_object norm_object) kvs)"
| "norm_object (OBJECT_BIN s) = OBJECT_BIN s"
| "norm_object (OBJECT_EXT t s) = OBJECT_EXT t s"

primrec nan_free :: "msgpack_object \<Rightarrow> bool" where
  "nan_free OBJECT_NIL = True"
| "nan_free (OBJECT_BOOLEAN b) = True"
| "nan_free (OBJECT_POSITIVE_INTEGER n) = True"
| "nan_free (OBJECT_NEGATIVE_INTEGER n) = True"
| "nan_free (OBJECT_FLOAT d) = (\<not> f64_is_nan d)"
| "nan_free (OBJECT_STR s) = True"
| "nan_free (OBJECT_ARRAY os) = list_all id (map nan_free os)"
| "nan_free (OBJECT_MAP kvs) = list_all (\<lambda>(a, b). a \<and> b) (map (map_prod nan_free nan_free) kvs)"
| "nan_free (OBJECT_BIN s) = True"
| "nan_free (OBJECT_EXT t s) = True"

lemma f64_zero_no_nan: "f64_is_zero x \<Longrightarrow> \<not> f64_is_nan x"
proof
  assume z: "f64_is_zero x" and "f64_is_nan x"
  then have "f64_fraction x \<noteq> 0" by (simp add: f64_is_nan_def)
  moreover have "f64_fraction x = (x AND 0x7FFFFFFFFFFFFFFF) AND 0xFFFFFFFFFFFFF"
    by (simp add: f64_fraction_def and.assoc)
  ultimately show False using z by (simp add: f64_is_zero_def)
qed

lemma f64_eq_norm: "f64_eq x y \<longleftrightarrow> \<not> f64_is_nan x \<and> f64_norm x = f64_norm y"
  using f64_zero_no_nan [of x] f64_zero_no_nan [of y]
  by (auto simp: f64_eq_def f64_norm_def f64_is_zero_def split: if_splits)

lemma memcmp_eq_iff: "length a = length b \<Longrightarrow> memcmp_eq a b \<longleftrightarrow> a = b"
  by (simp add: memcmp_eq_def list.rel_eq)

lemma equal_items_iff:
  "length xs = length ys \<Longrightarrow> (\<And>x y. x \<in> set xs \<Longrightarrow> f x y \<longleftrightarrow> ok x \<and> nrm x = nrm y) \<Longrightarrow>
   equal_items (map f xs) ys \<longleftrightarrow> list_all id (map ok xs) \<and> map nrm xs = map nrm ys"
  by (induction xs ys rule: list_induct2) auto

lemma equal_kvs_iff:
  "length xs = length ys \<Longrightarrow>
   (\<And>a b y. (a, b) \<in> set xs \<Longrightarrow> (f a y \<longleftrightarrow> ok a \<and> nrm a = nrm y) \<and> (f b y \<longleftrightarrow> ok b \<and> nrm b = nrm y)) \<Longrightarrow>
   equal_kvs (map (map_prod f f) xs) ys \<longleftrightarrow>
     list_all (\<lambda>(a, b). a \<and> b) (map (map_prod ok ok) xs) \<and> map (map_prod nrm nrm) xs = map (map_prod nrm nrm) ys"
proof (induction xs ys rule: list_induct2)
  case (Cons x xs y ys)
  obtain a b c d where "x = (a, b)" "y = (c, d)" by (cases x, cases y)
  with Cons show ?case by auto
qed simp

text \<open>
  C28: two objects compare equal exactly when the first contains no NaN and both are the same up to
  the sign of zero. In particular comparison is reflexive on the objects without NaN only, and it is
  symmetric and transitive.
\<close>

theorem msgpack_object_equal_iff:
  "msgpack_object_equal x y \<longleftrightarrow> nan_free x \<and> norm_object x = norm_object y"
proof (induction x arbitrary: y)
  case (OBJECT_ARRAY os)
  show ?case
  proof (cases y)
    case (OBJECT_ARRAY os')
    show ?thesis
    proof (cases "length os = length os'")
      case True
      with equal_items_iff [of os os' msgpack_object_equal nan_free norm_object] OBJECT_ARRAY.IH
      show ?thesis using OBJECT_ARRAY by auto
    next
      case False
      then have "map norm_object os \<noteq> map norm_object os'" by (metis length_map)
      with False OBJECT_ARRAY show ?thesis by simp
    qed
  qed simp_all
next
  case (OBJECT_MAP kvs)
  have IH: "(msgpack_object_equal a y \<longleftrightarrow> nan_free a \<and> norm_object a = norm_object y) \<and>
      (msgpack_object_equal b y \<longleftrightarrow> nan_free b \<and> norm_object b = norm_object y)" if "(a, b) \<in> set kvs" for a b y
    using OBJECT_MAP.IH [OF that] by auto
  show ?case
  proof (cases y)
    case (OBJECT_MAP kvs')
    show ?thesis
    proof (cases "length kvs = length kvs'")
      case True
      from equal_kvs_iff [OF True IH] True OBJECT_MAP show ?thesis by auto
    next
      case False
      then have "map (map_prod norm_object norm_object) kvs \<noteq> map (map_prod norm_object norm_object) kvs'"
        by (metis length_map)
      with False OBJECT_MAP show ?thesis by simp
    qed
  qed simp_all
qed (auto simp: f64_eq_norm memcmp_eq_iff split: msgpack_object.splits)

end
