(* ===== verification/MP_Pack.thy ===== *)
theory MP_Pack
  imports MP_Object
begin

text \<open>
  libmsgpack, serialiser (\<open>include/msgpack/pack_template.h\<close>, \<open>pack.h\<close>, the byte order macros of
  \<open>sysdep.h\<close>, and \<open>msgpack_pack_object\<close> of \<open>src/objectc.c\<close>).

  A packer is its write callback and the callback's data: \<open>cb data buf\<close> returns the status and the
  new data. Every function of the template calls the callback once with a small buffer; the
  buffer is the value of the corresponding macro (\<open>pack_real_*\<close>, \<open>pack_array\<close>, ...), so that
  the functions read as in the source. Signed numbers are words compared through \<open>sint\<close>.
\<close>

section \<open>Byte order\<close>

text \<open>The bytes of a number in the memory of a little-endian (\<open>True\<close>) or big-endian host.\<close>

definition be_bytes16 :: "u16 \<Rightarrow> bytes" where
  "be_bytes16 x = [ucast (drop_bit 8 x), ucast x]"

definition be_bytes32 :: "u32 \<Rightarrow> bytes" where
  "be_bytes32 x = [ucast (drop_bit 24 x), ucast (drop_bit 16 x), ucast (drop_bit 8 x), ucast x]"

definition be_bytes64 :: "u64 \<Rightarrow> bytes" where
  "be_bytes64 x = be_bytes32 (ucast (drop_bit 32 x)) @ be_bytes32 (ucast x)"

definition mem16 :: "bool \<Rightarrow> u16 \<Rightarrow> bytes" where
  "mem16 little x = (if little then rev (be_bytes16 x) else be_bytes16 x)"

definition mem32 :: "bool \<Rightarrow> u32 \<Rightarrow> bytes" where
  "mem32 little x = (if little then rev (be_bytes32 x) else be_bytes32 x)"

definition mem64 :: "bool \<Rightarrow> u64 \<Rightarrow> bytes" where
  "mem64 little x = (if little then rev (be_bytes64 x) else be_bytes64 x)"

definition msgpack_be16 :: "bool \<Rightarrow> u16 \<Rightarrow> u16" where
  "msgpack_be16 little x = (if little then push_bit 8 x OR drop_bit 8 x else x)"

definition msgpack_be32 :: "bool \<Rightarrow> u32 \<Rightarrow> u32" where
  "msgpack_be32 little x =
     (if little then push_bit 24 x OR (push_bit 8 x AND 0x00ff0000) OR (drop_bit 8 x AND 0x0000ff00) OR drop_bit 24 x
      else x)"

definition msgpack_be64 :: "bool \<Rightarrow> u64 \<Rightarrow> u64" where
  "msgpack_be64 little x =
     (if little then
        push_bit 56 x OR (push_bit 40 x AND 0x00ff000000000000) OR (push_bit 24 x AND 0x0000ff0000000000) OR
        (push_bit 8 x AND 0x000000ff00000000) OR (drop_bit 8 x AND 0x00000000ff000000) OR
        (drop_bit 24 x AND 0x0000000000ff0000) OR (drop_bit 40 x AND 0x000000000000ff00) OR drop_bit 56 x
      else x)"

definition msgpack_store16 :: "bool \<Rightarrow> u16 \<Rightarrow> bytes" where
  "msgpack_store16 little num = mem16 little (msgpack_be16 little num)"

definition msgpack_store32 :: "bool \<Rightarrow> u32 \<Rightarrow> bytes" where
  "msgpack_store32 little num = mem32 little (msgpack_be32 little num)"

definition msgpack_store64 :: "bool \<Rightarrow> u64 \<Rightarrow> bytes" where
  "msgpack_store64 little num = mem64 little (msgpack_be64 little num)"

text \<open>\<open>TAKE8_8\<close> to \<open>TAKE8_64\<close>: the byte at the offset of the least significant one.\<close>

definition TAKE8 :: "'a::len word \<Rightarrow> u8" where
  "TAKE8 d = ucast d"

lemma less_8_cases: "(n :: nat) < 8 \<Longrightarrow> n = 0 \<or> n = 1 \<or> n = 2 \<or> n = 3 \<or> n = 4 \<or> n = 5 \<or> n = 6 \<or> n = 7"
  by auto

lemma store16_host: "msgpack_store16 little x = be_bytes16 x"
  by (cases little) (auto simp: msgpack_store16_def mem16_def msgpack_be16_def be_bytes16_def
      intro!: bit_word_eqI simp: bit_simps)

lemma store32_host: "msgpack_store32 little x = be_bytes32 x"
  by (cases little) (auto simp: msgpack_store32_def mem32_def msgpack_be32_def be_bytes32_def bit_simps
      intro!: bit_word_eqI dest!: less_8_cases)

lemma bit_beyond64: "64 \<le> n \<Longrightarrow> \<not> bit (x :: u64) n"
  using bit_imp_le_length [of x n] by auto

lemma store64_host: "msgpack_store64 little x = be_bytes64 x"
  by (cases little) (auto simp: msgpack_store64_def mem64_def msgpack_be64_def be_bytes64_def be_bytes32_def bit_simps bit_beyond64
      intro!: bit_word_eqI dest!: less_8_cases)

section \<open>The packing template\<close>

type_synonym 's packer_write = "'s \<Rightarrow> bytes \<Rightarrow> int \<times> 's"

record 's msgpack_packer =
  pk_data :: 's
  pk_callback :: "'s packer_write"

text \<open>The stores of a little-endian host; by \<open>store16_host\<close> and its like every host stores the same.\<close>

abbreviation store16 :: "u16 \<Rightarrow> bytes" where "store16 \<equiv> msgpack_store16 True"
abbreviation store32 :: "u32 \<Rightarrow> bytes" where "store32 \<equiv> msgpack_store32 True"
abbreviation store64 :: "u64 \<Rightarrow> bytes" where "store64 \<equiv> msgpack_store64 True"

definition pack_append_buffer :: "'s msgpack_packer \<Rightarrow> bytes \<Rightarrow> int \<times> 's msgpack_packer" where
  "pack_append_buffer x buf = (let (r, data) = pk_callback x (pk_data x) buf in (r, x\<lparr>pk_data := data\<rparr>))"

subsection \<open>Integers\<close>

definition pack_real_uint8 :: "u8 \<Rightarrow> bytes" where
  "pack_real_uint8 d = (if d < 2 ^ 7 then [TAKE8 d] else [0xcc, TAKE8 d])"

definition pack_real_uint16 :: "u16 \<Rightarrow> bytes" where
  "pack_real_uint16 d =
     (if d < 2 ^ 7 then [TAKE8 d]
      else if d < 2 ^ 8 then [0xcc, TAKE8 d]
      else 0xcd # store16 d)"

definition pack_real_uint32 :: "u32 \<Rightarrow> bytes" where
  "pack_real_uint32 d =
     (if d < 2 ^ 8 then
        (if d < 2 ^ 7 then [TAKE8 d] else [0xcc, TAKE8 d])
      else
        (if d < 2 ^ 16 then 0xcd # store16 (ucast d) else 0xce # store32 d))"

definition pack_real_uint64 :: "u64 \<Rightarrow> bytes" where
  "pack_real_uint64 d =
     (if d < 2 ^ 8 then
        (if d < 2 ^ 7 then [TAKE8 d] else [0xcc, TAKE8 d])
      else
        (if d < 2 ^ 16 then 0xcd # store16 (ucast d)
         else if d < 2 ^ 32 then 0xce # store32 (ucast d)
         else 0xcf # store64 d))"

definition pack_real_int8 :: "u8 \<Rightarrow> bytes" where
  "pack_real_int8 d = (if sint d < - (2 ^ 5) then [0xd0, TAKE8 d] else [TAKE8 d])"

definition pack_real_int16 :: "u16 \<Rightarrow> bytes" where
  "pack_real_int16 d =
     (if sint d < - (2 ^ 5) then
        (if sint d < - (2 ^ 7) then 0xd1 # store16 d else [0xd0, TAKE8 d])
      else if sint d < 2 ^ 7 then [TAKE8 d]
      else
        (if sint d < 2 ^ 8 then [0xcc, TAKE8 d] else 0xcd # store16 d))"

definition pack_real_int32 :: "u32 \<Rightarrow> bytes" where
  "pack_real_int32 d =
     (if sint d < - (2 ^ 5) then
        (if sint d < - (2 ^ 15) then 0xd2 # store32 d
         else if sint d < - (2 ^ 7) then 0xd1 # store16 (ucast d)
         else [0xd0, TAKE8 d])
      else if sint d < 2 ^ 7 then [TAKE8 d]
      else
        (if sint d < 2 ^ 8 then [0xcc, TAKE8 d]
         else if sint d < 2 ^ 16 then 0xcd # store16 (ucast d)
         else 0xce # store32 d))"

definition pack_real_int64 :: "u64 \<Rightarrow> bytes" where
  "pack_real_int64 d =
     (if sint d < - (2 ^ 5) then
        (if sint d < - (2 ^ 15) then
           (if sint d < - (2 ^ 31) then 0xd3 # store64 d else 0xd2 # store32 (ucast d))
         else
           (if sint d < - (2 ^ 7) then 0xd1 # store16 (ucast d) else [0xd0, TAKE8 d]))
      else if sint d < 2 ^ 7 then [TAKE8 d]
      else
        (if sint d < 2 ^ 16 then
           (if sint d < 2 ^ 8 then [0xcc, TAKE8 d] else 0xcd # store16 (ucast d))
         else
           (if sint d < 2 ^ 32 then 0xce # store32 (ucast d) else 0xcf # store64 d)))"

definition msgpack_pack_fix_uint8 :: "'s msgpack_packer \<Rightarrow> u8 \<Rightarrow> int \<times> 's msgpack_packer" where
  "msgpack_pack_fix_uint8 x d = pack_append_buffer x [0xcc, TAKE8 d]"

definition msgpack_pack_fix_uint16 :: "'s msgpack_packer \<Rightarrow> u16 \<Rightarrow> int \<times> 's msgpack_packer" where
  "msgpack_pack_fix_uint16 x d = pack_append_buffer x (0xcd # store16 d)"

definition msgpack_pack_fix_uint32 :: "'s msgpack_packer \<Rightarrow> u32 \<Rightarrow> int \<times> 's msgpack_packer" where
  "msgpack_pack_fix_uint32 x d = pack_append_buffer x (0xce # store32 d)"

definition msgpack_pack_fix_uint64 :: "'s msgpack_packer \<Rightarrow> u64 \<Rightarrow> int \<times> 's msgpack_packer" where
  "msgpack_pack_fix_uint64 x d = pack_append_buffer x (0xcf # store64 d)"

definition msgpack_pack_fix_int8 :: "'s msgpack_packer \<Rightarrow> u8 \<Rightarrow> int \<times> 's msgpack_packer" where
  "msgpack_pack_fix_int8 x d = pack_append_buffer x [0xd0, TAKE8 d]"

definition msgpack_pack_fix_int16 :: "'s msgpack_packer \<Rightarrow> u16 \<Rightarrow> int \<times> 's msgpack_packer" where
  "msgpack_pack_fix_int16 x d = pack_append_buffer x (0xd1 # store16 d)"

definition msgpack_pack_fix_int32 :: "'s msgpack_packer \<Rightarrow> u32 \<Rightarrow> int \<times> 's msgpack_packer" where
  "msgpack_pack_fix_int32 x d = pack_append_buffer x (0xd2 # store32 d)"

definition msgpack_pack_fix_int64 :: "'s msgpack_packer \<Rightarrow> u64 \<Rightarrow> int \<times> 's msgpack_packer" where
  "msgpack_pack_fix_int64 x d = pack_append_buffer x (0xd3 # store64 d)"

definition msgpack_pack_uint8 :: "'s msgpack_packer \<Rightarrow> u8 \<Rightarrow> int \<times> 's msgpack_packer" where
  "msgpack_pack_uint8 x d = pack_append_buffer x (pack_real_uint8 d)"

definition msgpack_pack_uint16 :: "'s msgpack_packer \<Rightarrow> u16 \<Rightarrow> int \<times> 's msgpack_packer" where
  "msgpack_pack_uint16 x d = pack_append_buffer x (pack_real_uint16 d)"

definition msgpack_pack_uint32 :: "'s msgpack_packer \<Rightarrow> u32 \<Rightarrow> int \<times> 's msgpack_packer" where
  "msgpack_pack_uint32 x d = pack_append_buffer x (pack_real_uint32 d)"

definition msgpack_pack_uint64 :: "'s msgpack_packer \<Rightarrow> u64 \<Rightarrow> int \<times> 's msgpack_packer" where
  "msgpack_pack_uint64 x d = pack_append_buffer x (pack_real_uint64 d)"

definition msgpack_pack_int8 :: "'s msgpack_packer \<Rightarrow> u8 \<Rightarrow> int \<times> 's msgpack_packer" where
  "msgpack_pack_int8 x d = pack_append_buffer x (pack_real_int8 d)"

definition msgpack_pack_int16 :: "'s msgpack_packer \<Rightarrow> u16 \<Rightarrow> int \<times> 's msgpack_packer" where
  "msgpack_pack_int16 x d = pack_append_buffer x (pack_real_int16 d)"

definition msgpack_pack_int32 :: "'s msgpack_packer \<Rightarrow> u32 \<Rightarrow> int \<times> 's msgpack_packer" where
  "msgpack_pack_int32 x d = pack_append_buffer x (pack_real_int32 d)"

definition msgpack_pack_int64 :: "'s msgpack_packer \<Rightarrow> u64 \<Rightarrow> int \<times> 's msgpack_packer" where
  "msgpack_pack_int64 x d = pack_append_buffer x (pack_real_int64 d)"

text \<open>Whether a plain \<open>char\<close> is signed depends on the platform.\<close>

definition msgpack_pack_char :: "bool \<Rightarrow> 's msgpack_packer \<Rightarrow> u8 \<Rightarrow> int \<times> 's msgpack_packer" where
  "msgpack_pack_char char_signed x d =
     pack_append_buffer x (if char_signed then pack_real_int8 d else pack_real_uint8 d)"

definition msgpack_pack_signed_char :: "'s msgpack_packer \<Rightarrow> u8 \<Rightarrow> int \<times> 's msgpack_packer" where
  "msgpack_pack_signed_char x d = pack_append_buffer x (pack_real_int8 d)"

definition msgpack_pack_unsigned_char :: "'s msgpack_packer \<Rightarrow> u8 \<Rightarrow> int \<times> 's msgpack_packer" where
  "msgpack_pack_unsigned_char x d = pack_append_buffer x (pack_real_uint8 d)"

text \<open>
  The C integer types: the branch is chosen by the size of the type in bytes, the argument is the
  value of that type.
\<close>

definition pack_cint :: "nat \<Rightarrow> int \<Rightarrow> bytes" where
  "pack_cint size_of d =
     (if size_of = 2 then pack_real_int16 (of_int d)
      else if size_of = 4 then pack_real_int32 (of_int d)
      else pack_real_int64 (of_int d))"

definition pack_unsigned_cint :: "nat \<Rightarrow> int \<Rightarrow> bytes" where
  "pack_unsigned_cint size_of d =
     (if size_of = 2 then pack_real_uint16 (of_int d)
      else if size_of = 4 then pack_real_uint32 (of_int d)
      else pack_real_uint64 (of_int d))"

definition msgpack_pack_short :: "nat \<Rightarrow> 's msgpack_packer \<Rightarrow> int \<Rightarrow> int \<times> 's msgpack_packer" where
  "msgpack_pack_short size_of x d = pack_append_buffer x (pack_cint size_of d)"

definition msgpack_pack_int :: "nat \<Rightarrow> 's msgpack_packer \<Rightarrow> int \<Rightarrow> int \<times> 's msgpack_packer" where
  "msgpack_pack_int size_of x d = pack_append_buffer x (pack_cint size_of d)"

definition msgpack_pack_long :: "nat \<Rightarrow> 's msgpack_packer \<Rightarrow> int \<Rightarrow> int \<times> 's msgpack_packer" where
  "msgpack_pack_long size_of x d = pack_append_buffer x (pack_cint size_of d)"

definition msgpack_pack_long_long :: "nat \<Rightarrow> 's msgpack_packer \<Rightarrow> int \<Rightarrow> int \<times> 's msgpack_packer" where
  "msgpack_pack_long_long size_of x d = pack_append_buffer x (pack_cint size_of d)"

definition msgpack_pack_unsigned_short :: "nat \<Rightarrow> 's msgpack_packer \<Rightarrow> int \<Rightarrow> int \<times> 's msgpack_packer" where
  "msgpack_pack_unsigned_short size_of x d = pack_append_buffer x (pack_unsigned_cint size_of d)"

definition msgpack_pack_unsigned_int :: "nat \<Rightarrow> 's msgpack_packer \<Rightarrow> int \<Rightarrow> int \<times> 's msgpack_packer" where
  "msgpack_pack_unsigned_int size_of x d = pack_append_buffer x (pack_unsigned_cint size_of d)"

definition msgpack_pack_unsigned_long :: "nat \<Rightarrow> 's msgpack_packer \<Rightarrow> int \<Rightarrow> int \<times> 's msgpack_packer" where
  "msgpack_pack_unsigned_long size_of x d = pack_append_buffer x (pack_unsigned_cint size_of d)"

definition msgpack_pack_unsigned_long_long :: "nat \<Rightarrow> 's msgpack_packer \<Rightarrow> int \<Rightarrow> int \<times> 's msgpack_packer" where
  "msgpack_pack_unsigned_long_long size_of x d = pack_append_buffer x (pack_unsigned_cint size_of d)"

subsection \<open>Floating point, nil and booleans\<close>

definition msgpack_pack_float :: "'s msgpack_packer \<Rightarrow> u32 \<Rightarrow> int \<times> 's msgpack_packer" where
  "msgpack_pack_float x bits = pack_append_buffer x (0xca # store32 bits)"

text \<open>On the targets of the libraries the bits of a double need no exchange of words.\<close>

definition msgpack_pack_double :: "'s msgpack_packer \<Rightarrow> u64 \<Rightarrow> int \<times> 's msgpack_packer" where
  "msgpack_pack_double x bits = pack_append_buffer x (0xcb # store64 bits)"

definition msgpack_pack_nil :: "'s msgpack_packer \<Rightarrow> int \<times> 's msgpack_packer" where
  "msgpack_pack_nil x = pack_append_buffer x [0xc0]"

definition msgpack_pack_true :: "'s msgpack_packer \<Rightarrow> int \<times> 's msgpack_packer" where
  "msgpack_pack_true x = pack_append_buffer x [0xc3]"

definition msgpack_pack_false :: "'s msgpack_packer \<Rightarrow> int \<times> 's msgpack_packer" where
  "msgpack_pack_false x = pack_append_buffer x [0xc2]"

subsection \<open>Headers of containers and bodies\<close>

text \<open>Sizes are of type \<open>size_t\<close>; the largest format truncates them to 32 bits.\<close>

definition pack_array :: "u64 \<Rightarrow> bytes" where
  "pack_array n =
     (if n < 16 then [0x90 OR ucast n]
      else if n < 65536 then 0xdc # store16 (ucast n)
      else 0xdd # store32 (ucast n))"

definition msgpack_pack_array :: "'s msgpack_packer \<Rightarrow> u64 \<Rightarrow> int \<times> 's msgpack_packer" where
  "msgpack_pack_array x n = pack_append_buffer x (pack_array n)"

definition pack_map :: "u64 \<Rightarrow> bytes" where
  "pack_map n =
     (if n < 16 then [0x80 OR ucast n]
      else if n < 65536 then 0xde # store16 (ucast n)
      else 0xdf # store32 (ucast n))"

definition msgpack_pack_map :: "'s msgpack_packer \<Rightarrow> u64 \<Rightarrow> int \<times> 's msgpack_packer" where
  "msgpack_pack_map x n = pack_append_buffer x (pack_map n)"

definition pack_str :: "u64 \<Rightarrow> bytes" where
  "pack_str l =
     (if l < 32 then [0xa0 OR ucast l]
      else if l < 256 then [0xd9, ucast l]
      else if l < 65536 then 0xda # store16 (ucast l)
      else 0xdb # store32 (ucast l))"

definition msgpack_pack_str :: "'s msgpack_packer \<Rightarrow> u64 \<Rightarrow> int \<times> 's msgpack_packer" where
  "msgpack_pack_str x l = pack_append_buffer x (pack_str l)"

definition msgpack_pack_str_body :: "'s msgpack_packer \<Rightarrow> bytes \<Rightarrow> int \<times> 's msgpack_packer" where
  "msgpack_pack_str_body x b = pack_append_buffer x b"

definition pack_v4raw :: "u64 \<Rightarrow> bytes" where
  "pack_v4raw l =
     (if l < 32 then [0xa0 OR ucast l]
      else if l < 65536 then 0xda # store16 (ucast l)
      else 0xdb # store32 (ucast l))"

definition msgpack_pack_v4raw :: "'s msgpack_packer \<Rightarrow> u64 \<Rightarrow> int \<times> 's msgpack_packer" where
  "msgpack_pack_v4raw x l = pack_append_buffer x (pack_v4raw l)"

definition msgpack_pack_v4raw_body :: "'s msgpack_packer \<Rightarrow> bytes \<Rightarrow> int \<times> 's msgpack_packer" where
  "msgpack_pack_v4raw_body x b = pack_append_buffer x b"

definition pack_bin :: "u64 \<Rightarrow> bytes" where
  "pack_bin l =
     (if l < 256 then [0xc4, ucast l]
      else if l < 65536 then 0xc5 # store16 (ucast l)
      else 0xc6 # store32 (ucast l))"

definition msgpack_pack_bin :: "'s msgpack_packer \<Rightarrow> u64 \<Rightarrow> int \<times> 's msgpack_packer" where
  "msgpack_pack_bin x l = pack_append_buffer x (pack_bin l)"

definition msgpack_pack_bin_body :: "'s msgpack_packer \<Rightarrow> bytes \<Rightarrow> int \<times> 's msgpack_packer" where
  "msgpack_pack_bin_body x b = pack_append_buffer x b"

definition pack_ext :: "u64 \<Rightarrow> u8 \<Rightarrow> bytes" where
  "pack_ext l type =
     (if l = 1 then [0xd4, type]
      else if l = 2 then [0xd5, type]
      else if l = 4 then [0xd6, type]
      else if l = 8 then [0xd7, type]
      else if l = 16 then [0xd8, type]
      else if l < 256 then [0xc7, ucast l, type]
      else if l < 65536 then 0xc8 # store16 (ucast l) @ [type]
      else 0xc9 # store32 (ucast l) @ [type])"

definition msgpack_pack_ext :: "'s msgpack_packer \<Rightarrow> u64 \<Rightarrow> u8 \<Rightarrow> int \<times> 's msgpack_packer" where
  "msgpack_pack_ext x l type = pack_append_buffer x (pack_ext l type)"

definition msgpack_pack_ext_body :: "'s msgpack_packer \<Rightarrow> bytes \<Rightarrow> int \<times> 's msgpack_packer" where
  "msgpack_pack_ext_body x b = pack_append_buffer x b"

section \<open>Packing an object\<close>

text \<open>
  A header and the body that follows it unless the header fails, and the loops over the elements,
  which stop at the first failure. The sizes are the object's 32-bit fields.
\<close>

definition then_pack ::
  "('s msgpack_packer \<Rightarrow> int \<times> 's msgpack_packer) \<Rightarrow> ('s msgpack_packer \<Rightarrow> int \<times> 's msgpack_packer) \<Rightarrow>
   's msgpack_packer \<Rightarrow> int \<times> 's msgpack_packer" where
  "then_pack f g pk = (let (ret, pk') = f pk in if ret < 0 then (ret, pk') else g pk')"

primrec pack_items :: "('s msgpack_packer \<Rightarrow> int \<times> 's msgpack_packer) list \<Rightarrow> 's msgpack_packer \<Rightarrow> int \<times> 's msgpack_packer" where
  "pack_items [] = (\<lambda>pk. (0, pk))"
| "pack_items (f # fs) = then_pack f (pack_items fs)"

primrec pack_kvs ::
  "(('s msgpack_packer \<Rightarrow> int \<times> 's msgpack_packer) \<times> ('s msgpack_packer \<Rightarrow> int \<times> 's msgpack_packer)) list \<Rightarrow>
   's msgpack_packer \<Rightarrow> int \<times> 's msgpack_packer" where
  "pack_kvs [] = (\<lambda>pk. (0, pk))"
| "pack_kvs (kv # fs) = then_pack (fst kv) (then_pack (snd kv) (pack_kvs fs))"

definition size_field :: "'a list \<Rightarrow> u64" where
  "size_field xs = ucast (of_nat (length xs) :: u32)"

primrec msgpack_pack_object :: "msgpack_object \<Rightarrow> 's msgpack_packer \<Rightarrow> int \<times> 's msgpack_packer" where
  "msgpack_pack_object OBJECT_NIL = msgpack_pack_nil"
| "msgpack_pack_object (OBJECT_BOOLEAN b) = (if b then msgpack_pack_true else msgpack_pack_false)"
| "msgpack_pack_object (OBJECT_POSITIVE_INTEGER n) = (\<lambda>pk. msgpack_pack_uint64 pk n)"
| "msgpack_pack_object (OBJECT_NEGATIVE_INTEGER n) = (\<lambda>pk. msgpack_pack_int64 pk n)"
| "msgpack_pack_object (OBJECT_FLOAT d) = (\<lambda>pk. msgpack_pack_double pk d)"
| "msgpack_pack_object (OBJECT_STR s) =
     then_pack (\<lambda>pk. msgpack_pack_str pk (size_field s)) (\<lambda>pk. msgpack_pack_str_body pk s)"
| "msgpack_pack_object (OBJECT_BIN s) =
     then_pack (\<lambda>pk. msgpack_pack_bin pk (size_field s)) (\<lambda>pk. msgpack_pack_bin_body pk s)"
| "msgpack_pack_object (OBJECT_EXT t s) =
     then_pack (\<lambda>pk. msgpack_pack_ext pk (size_field s) t) (\<lambda>pk. msgpack_pack_ext_body pk s)"
| "msgpack_pack_object (OBJECT_ARRAY os) =
     then_pack (\<lambda>pk. msgpack_pack_array pk (size_field os)) (pack_items (map msgpack_pack_object os))"
| "msgpack_pack_object (OBJECT_MAP kvs) =
     then_pack (\<lambda>pk. msgpack_pack_map pk (size_field kvs))
       (pack_kvs (map (map_prod msgpack_pack_object msgpack_pack_object) kvs))"

definition msgpack_packer_init :: "'s \<Rightarrow> 's packer_write \<Rightarrow> 's msgpack_packer" where
  "msgpack_packer_init data callback = \<lparr>pk_data = data, pk_callback = callback\<rparr>"

section \<open>The bytes of an object\<close>

text \<open>What a packer whose callback never fails sends, as one list.\<close>

primrec encode :: "msgpack_object \<Rightarrow> bytes" where
  "encode OBJECT_NIL = [0xc0]"
| "encode (OBJECT_BOOLEAN b) = (if b then [0xc3] else [0xc2])"
| "encode (OBJECT_POSITIVE_INTEGER n) = pack_real_uint64 n"
| "encode (OBJECT_NEGATIVE_INTEGER n) = pack_real_int64 n"
| "encode (OBJECT_FLOAT d) = 0xcb # store64 d"
| "encode (OBJECT_STR s) = pack_str (size_field s) @ s"
| "encode (OBJECT_BIN s) = pack_bin (size_field s) @ s"
| "encode (OBJECT_EXT t s) = pack_ext (size_field s) t @ s"
| "encode (OBJECT_ARRAY os) = pack_array (size_field os) @ concat (map encode os)"
| "encode (OBJECT_MAP kvs) =
     pack_map (size_field kvs) @ concat (map (\<lambda>(ek, ev). ek @ ev) (map (map_prod encode encode) kvs))"

text \<open>
  A sink of bytes, the interface between the packer and the buffers: a write that succeeds appends
  the bytes, a write that fails leaves the contents alone, and no write fails that stays within the
  capacity \<open>limit\<close> (0 for a sink that gives no such guarantee). The laws are about buffers below
  \<open>2 ^ 32\<close> bytes, which is all that the packer writes.
\<close>

locale byte_sink =
  fixes inv :: "'s \<Rightarrow> bool"
    and content :: "'s \<Rightarrow> bytes"
    and cb :: "'s packer_write"
    and limit :: nat
  assumes cb_write: "inv s \<Longrightarrow> length b < 2 ^ 32 \<Longrightarrow> cb s b = (r, s') \<Longrightarrow>
      inv s' \<and> content s' = (if r < 0 then content s else content s @ b)"
    and cb_room: "inv s \<Longrightarrow> length b < 2 ^ 32 \<Longrightarrow> cb s b = (r, s') \<Longrightarrow>
      length (content s) + length b < limit \<Longrightarrow> 0 \<le> r"
begin

text \<open>
  \<open>sends f bs\<close>: run on a packer over this sink, \<open>f\<close> either succeeds and has sent exactly \<open>bs\<close>, or
  fails and has sent a prefix of it; it succeeds when there is room for \<open>bs\<close>.
\<close>

definition sends :: "('s msgpack_packer \<Rightarrow> int \<times> 's msgpack_packer) \<Rightarrow> bytes \<Rightarrow> bool" where
  "sends f bs \<longleftrightarrow> (\<forall>pk r pk'. pk_callback pk = cb \<and> inv (pk_data pk) \<and> f pk = (r, pk') \<longrightarrow>
     pk_callback pk' = cb \<and> inv (pk_data pk') \<and>
     (if r < 0 then (\<exists>p q. bs = p @ q \<and> content (pk_data pk') = content (pk_data pk) @ p)
      else content (pk_data pk') = content (pk_data pk) @ bs) \<and>
     (length (content (pk_data pk)) + length bs < limit \<longrightarrow> 0 \<le> r))"

lemma sendsD:
  assumes "sends f bs" and "pk_callback pk = cb" and "pk_data pk = s" and "inv s" and "f pk = (r, pk')"
  shows "inv (pk_data pk') \<and>
    (if r < 0 then (\<exists>p q. bs = p @ q \<and> content (pk_data pk') = content s @ p) else content (pk_data pk') = content s @ bs) \<and>
    (length (content s) + length bs < limit \<longrightarrow> 0 \<le> r)"
  using assms unfolding sends_def by blast

lemma sends_append: "length bs < 2 ^ 32 \<Longrightarrow> sends (\<lambda>pk. pack_append_buffer pk bs) bs"
  using cb_write unfolding sends_def pack_append_buffer_def
  by (auto simp: Let_def split: prod.splits dest: cb_room)

lemma sends_then:
  assumes "sends f as" and "sends g bs"
  shows "sends (then_pack f g) (as @ bs)"
  unfolding sends_def
proof (intro allI impI, elim conjE)
  fix pk r pk'
  assume pk: "pk_callback pk = cb" "inv (pk_data pk)" and run: "then_pack f g pk = (r, pk')"
  obtain r1 pk1 where f: "f pk = (r1, pk1)" by (cases "f pk")
  with assms(1) pk have 1: "pk_callback pk1 = cb" "inv (pk_data pk1)"
    "if r1 < 0 then (\<exists>p q. as = p @ q \<and> content (pk_data pk1) = content (pk_data pk) @ p)
     else content (pk_data pk1) = content (pk_data pk) @ as"
    "length (content (pk_data pk)) + length as < limit \<longrightarrow> 0 \<le> r1" unfolding sends_def by blast+
  show "pk_callback pk' = cb \<and> inv (pk_data pk') \<and>
    (if r < 0 then (\<exists>p q. as @ bs = p @ q \<and> content (pk_data pk') = content (pk_data pk) @ p)
     else content (pk_data pk') = content (pk_data pk) @ as @ bs) \<and>
    (length (content (pk_data pk)) + length (as @ bs) < limit \<longrightarrow> 0 \<le> r)"
  proof (cases "r1 < 0")
    case True
    with run f have "r = r1" "pk' = pk1" by (simp_all add: then_pack_def)
    moreover from 1(3) True obtain p q where "as = p @ q" "content (pk_data pk1) = content (pk_data pk) @ p" by auto
    ultimately show ?thesis using 1 True by (auto intro!: exI [of _ p] exI [of _ "q @ bs"])
  next
    case False
    with run f have g: "g pk1 = (r, pk')" by (simp add: then_pack_def)
    with assms(2) 1(1,2) have 2: "pk_callback pk' = cb" "inv (pk_data pk')"
      "if r < 0 then (\<exists>p q. bs = p @ q \<and> content (pk_data pk') = content (pk_data pk1) @ p)
       else content (pk_data pk') = content (pk_data pk1) @ bs"
      "length (content (pk_data pk1)) + length bs < limit \<longrightarrow> 0 \<le> r" unfolding sends_def by blast+
    have "content (pk_data pk1) = content (pk_data pk) @ as" using 1(3) False by simp
    moreover have "\<exists>p' q'. as @ bs = p' @ q' \<and> content (pk_data pk) @ as @ p = content (pk_data pk) @ p'"
      if "bs = p @ q" for p q
      using that by (intro exI [of _ "as @ p"] exI [of _ q]) simp
    ultimately show ?thesis using 2 by (auto split: if_splits)
  qed
qed

lemma sends_nothing: "sends (\<lambda>pk. (0, pk)) []"
  by (simp add: sends_def)

lemma sends_items:
  "(\<And>x. x \<in> set xs \<Longrightarrow> sends (f x) (enc x)) \<Longrightarrow> sends (pack_items (map f xs)) (concat (map enc xs))"
  by (induction xs) (simp_all add: sends_nothing sends_then)

lemma sends_kvs:
  "(\<And>k v. (k, v) \<in> set kvs \<Longrightarrow> sends (f k) (enc k) \<and> sends (f v) (enc v)) \<Longrightarrow>
   sends (pack_kvs (map (map_prod f f) kvs)) (concat (map (\<lambda>(ek, ev). ek @ ev) (map (map_prod enc enc) kvs)))"
proof (induction kvs)
  case (Cons kv kvs)
  obtain k v where kv: "kv = (k, v)" by (cases kv)
  with Cons have "sends (then_pack (f k) (then_pack (f v) (pack_kvs (map (map_prod f f) kvs))))
      (enc k @ enc v @ concat (map (\<lambda>(ek, ev). ek @ ev) (map (map_prod enc enc) kvs)))"
    by (intro sends_then) auto
  then show ?case by (simp add: kv)
qed (simp add: sends_nothing)

lemmas pack_buffers =
  msgpack_pack_nil_def msgpack_pack_true_def msgpack_pack_false_def msgpack_pack_uint64_def
  msgpack_pack_int64_def msgpack_pack_double_def msgpack_pack_str_def msgpack_pack_str_body_def
  msgpack_pack_bin_def msgpack_pack_bin_body_def msgpack_pack_ext_def msgpack_pack_ext_body_def
  msgpack_pack_array_def msgpack_pack_map_def

lemma header_lengths:
  "length (pack_real_uint64 n) < 2 ^ 32" "length (pack_real_int64 n) < 2 ^ 32" "length (0xcb # store64 n) < 2 ^ 32"
  "length (pack_str l) < 2 ^ 32" "length (pack_bin l) < 2 ^ 32" "length (pack_ext l t) < 2 ^ 32"
  "length (pack_array l) < 2 ^ 32" "length (pack_map l) < 2 ^ 32"
  by (simp_all add: pack_real_uint64_def pack_real_int64_def pack_str_def pack_bin_def pack_ext_def
      pack_array_def pack_map_def store16_host store32_host store64_host be_bytes16_def be_bytes32_def be_bytes64_def)

lemmas sends_headers = header_lengths [THEN sends_append]

lemma sends_object: "wf_object x \<Longrightarrow> sends (msgpack_pack_object x) (encode x)"
proof (induction x)
  case (OBJECT_ARRAY os)
  then have "sends (pack_items (map msgpack_pack_object os)) (concat (map encode os))"
    by (intro sends_items) auto
  then show ?case
    by (simp add: pack_buffers [abs_def] sends_then sends_append sends_headers)
next
  case (OBJECT_MAP kvs)
  have "sends (msgpack_pack_object k) (encode k) \<and> sends (msgpack_pack_object v) (encode v)" if "(k, v) \<in> set kvs" for k v
    using OBJECT_MAP.IH [of "(k, v)"] OBJECT_MAP.prems that by auto
  then have "sends (pack_kvs (map (map_prod msgpack_pack_object msgpack_pack_object) kvs))
      (concat (map (\<lambda>(ek, ev). ek @ ev) (map (map_prod encode encode) kvs)))"
    by (rule sends_kvs)
  then show ?case
    by (simp add: pack_buffers [abs_def] sends_then sends_append sends_headers del: map_map)
qed (simp_all add: pack_buffers [abs_def] sends_then sends_append sends_headers)

end

end
