(* ===== verification/MP_Buffer.thy ===== *)
theory MP_Buffer
  imports MP_Pack
begin

text \<open>
  libmsgpack, the growing buffer that packers write to (\<open>include/msgpack/sbuffer.h\<close>).

  The allocated memory is a list of cells, \<open>None\<close> for a byte that was never written; the null
  pointer with nothing allocated is the empty list. Whether an allocation of a given size succeeds
  is the argument \<open>ok\<close>; no allocation of \<open>2 ^ 63\<close> bytes or more succeeds, as objects in C are smaller
  than half the address space. All sizes are 64-bit words, so the sums and products of the source
  wrap in the model too; \<open>None\<close> is a copy outside the allocated memory.
\<close>

section \<open>Allocation\<close>

definition alloc_ok :: "(u64 \<Rightarrow> bool) \<Rightarrow> u64 \<Rightarrow> bool" where
  "alloc_ok ok n \<longleftrightarrow> ok n \<and> unat n < 2 ^ 63"

definition realloc_mem :: "'a option list \<Rightarrow> u64 \<Rightarrow> 'a option list" where
  "realloc_mem mem n = take (unat n) mem @ replicate (unat n - length mem) None"

definition memcpy_to :: "'a option list \<Rightarrow> nat \<Rightarrow> 'a list \<Rightarrow> 'a option list option" where
  "memcpy_to mem pos b =
     (if pos + length b \<le> length mem then Some (take pos mem @ map Some b @ drop (pos + length b) mem) else None)"

text \<open>
  The loop by which buffers find their next size: double until the need is met, and fall back to
  exactly the need when doubling overflows.
\<close>

function grow_size :: "u64 \<Rightarrow> u64 \<Rightarrow> u64" where
  "grow_size nsize need =
     (if nsize < need then
        (let tmp_nsize = nsize * 2 in if tmp_nsize \<le> nsize then need else grow_size tmp_nsize need)
      else nsize)"
  by pat_completeness auto
termination
proof (relation "measure (\<lambda>(nsize, need). 2 ^ 64 - unat nsize)")
  fix nsize need tmp :: u64
  assume "tmp = nsize * 2" and "\<not> tmp \<le> nsize"
  then have "unat nsize < unat (nsize * 2)" by (simp add: word_le_nat_alt)
  moreover have "unat (nsize * 2) < 2 ^ 64" using unat_lt_exp [of "nsize * 2"] by simp
  ultimately show "((tmp, need), nsize, need) \<in> measure (\<lambda>(nsize, need). 2 ^ 64 - unat nsize)"
    using \<open>tmp = nsize * 2\<close> by simp
qed simp

declare grow_size.simps [simp del]

lemma grow_size_ge: "need \<le> grow_size nsize need"
  by (induction nsize need rule: grow_size.induct) (subst grow_size.simps, auto simp: Let_def)

section \<open>The simple buffer\<close>

record msgpack_sbuffer =
  sb_size :: u64
  sb_data :: "u8 option list"
  sb_alloc :: u64

definition MSGPACK_SBUFFER_INIT_SIZE :: u64 where
  "MSGPACK_SBUFFER_INIT_SIZE = 8192"

definition msgpack_sbuffer_init :: "msgpack_sbuffer \<Rightarrow> msgpack_sbuffer" where
  "msgpack_sbuffer_init sbuf = \<lparr>sb_size = 0, sb_data = [], sb_alloc = 0\<rparr>"

definition msgpack_sbuffer_write ::
  "(u64 \<Rightarrow> bool) \<Rightarrow> msgpack_sbuffer \<Rightarrow> bytes \<Rightarrow> u64 \<Rightarrow> (int \<times> msgpack_sbuffer) option" where
  "msgpack_sbuffer_write ok sbuf buf len =
     (let store = (\<lambda>s. do {
            d \<leftarrow> memcpy_to (sb_data s) (unat (sb_size s)) (take (unat len) buf);
            Some (0, s\<lparr>sb_data := d, sb_size := sb_size s + len\<rparr>) })
      in if sb_alloc sbuf - sb_size sbuf < len then
           (let nsize = grow_size (if sb_alloc sbuf \<noteq> 0 then sb_alloc sbuf * 2 else MSGPACK_SBUFFER_INIT_SIZE)
                          (sb_size sbuf + len)
            in if \<not> alloc_ok ok nsize then Some (- 1, sbuf)
               else store (sbuf\<lparr>sb_data := realloc_mem (sb_data sbuf) nsize, sb_alloc := nsize\<rparr>))
         else store sbuf)"

definition msgpack_sbuffer_release :: "msgpack_sbuffer \<Rightarrow> u8 option list \<times> msgpack_sbuffer" where
  "msgpack_sbuffer_release sbuf = (sb_data sbuf, sbuf\<lparr>sb_size := 0, sb_data := [], sb_alloc := 0\<rparr>)"

definition msgpack_sbuffer_clear :: "msgpack_sbuffer \<Rightarrow> msgpack_sbuffer" where
  "msgpack_sbuffer_clear sbuf = sbuf\<lparr>sb_size := 0\<rparr>"

section \<open>The buffer as a sink\<close>

definition sb_inv :: "msgpack_sbuffer \<Rightarrow> bool" where
  "sb_inv s \<longleftrightarrow> unat (sb_size s) \<le> unat (sb_alloc s) \<and> length (sb_data s) = unat (sb_alloc s) \<and>
     unat (sb_alloc s) < 2 ^ 63 \<and> (\<forall>c \<in> set (take (unat (sb_size s)) (sb_data s)). c \<noteq> None)"

definition sb_content :: "msgpack_sbuffer \<Rightarrow> bytes" where
  "sb_content s = map the (take (unat (sb_size s)) (sb_data s))"

text \<open>The callback: every caller passes the whole of its buffer.\<close>

definition sbuffer_callback :: "(u64 \<Rightarrow> bool) \<Rightarrow> msgpack_sbuffer packer_write" where
  "sbuffer_callback ok s b =
     (case msgpack_sbuffer_write ok s b (of_nat (length b)) of Some r \<Rightarrow> r | None \<Rightarrow> (- 1, s))"

lemma memcpy_to_some:
  "pos + length b \<le> length mem \<Longrightarrow>
   memcpy_to mem pos b = Some (take pos mem @ map Some b @ drop (pos + length b) mem)"
  by (simp add: memcpy_to_def)

text \<open>Storing behind the written part of a buffer with enough room.\<close>

lemma sb_store:
  assumes inv: "sb_inv s" and len: "unat len = length b" and room: "unat (sb_size s) + length b \<le> unat (sb_alloc s)"
  shows "\<exists>d. memcpy_to (sb_data s) (unat (sb_size s)) b = Some d
    \<and> sb_inv (s\<lparr>sb_data := d, sb_size := sb_size s + len\<rparr>)
    \<and> sb_content (s\<lparr>sb_data := d, sb_size := sb_size s + len\<rparr>) = sb_content s @ b"
proof -
  let ?n = "unat (sb_size s)"
  let ?d = "take ?n (sb_data s) @ map Some b @ drop (?n + length b) (sb_data s)"
  from inv have l: "length (sb_data s) = unat (sb_alloc s)" "unat (sb_alloc s) < 2 ^ 63" by (auto simp: sb_inv_def)
  have sz: "unat (sb_size s + len) = ?n + length b"
    using room l(2) len by (simp add: unat_word_ariths)
  have tk: "take (?n + length b) ?d = take ?n (sb_data s) @ map Some b"
    using room l by simp
  have "memcpy_to (sb_data s) ?n b = Some ?d" using room l by (simp add: memcpy_to_some)
  moreover have "sb_inv (s\<lparr>sb_data := ?d, sb_size := sb_size s + len\<rparr>)"
    using inv room l by (auto simp: sb_inv_def sz tk simp del: take_append)
  moreover have "sb_content (s\<lparr>sb_data := ?d, sb_size := sb_size s + len\<rparr>) = sb_content s @ b"
    using tk by (simp add: sb_content_def sz comp_def del: take_append)
  ultimately show ?thesis by blast
qed

lemma sb_realloc:
  assumes "sb_inv s" and "unat (sb_size s) \<le> unat n" and "unat n < 2 ^ 63"
  shows "sb_inv (s\<lparr>sb_data := realloc_mem (sb_data s) n, sb_alloc := n\<rparr>)"
    and "sb_content (s\<lparr>sb_data := realloc_mem (sb_data s) n, sb_alloc := n\<rparr>) = sb_content s"
proof -
  have "take (unat (sb_size s)) (realloc_mem (sb_data s) n) = take (unat (sb_size s)) (sb_data s)"
    using assms by (auto simp: realloc_mem_def sb_inv_def min_def)
  with assms show "sb_inv (s\<lparr>sb_data := realloc_mem (sb_data s) n, sb_alloc := n\<rparr>)"
    "sb_content (s\<lparr>sb_data := realloc_mem (sb_data s) n, sb_alloc := n\<rparr>) = sb_content s"
    by (auto simp: sb_inv_def sb_content_def realloc_mem_def)
qed

lemma sbuffer_write_cases:
  assumes inv: "sb_inv s" and len: "unat len = length b" and small: "unat (sb_size s) + length b < 2 ^ 64"
  shows "(\<exists>s'. msgpack_sbuffer_write ok s b len = Some (0, s') \<and> sb_inv s' \<and> sb_content s' = sb_content s @ b)
    \<or> (msgpack_sbuffer_write ok s b len = Some (- 1, s) \<and>
       (\<exists>n. unat (sb_size s) + length b \<le> unat n \<and> \<not> alloc_ok ok n))"
proof -
  have tb: "take (unat len) b = b" using len by simp
  have le: "sb_size s \<le> sb_alloc s" using inv by (simp add: sb_inv_def word_le_nat_alt)
  have sum: "unat (sb_size s + len) = unat (sb_size s) + length b"
    using small len by (simp add: unat_word_ariths)
  show ?thesis
  proof (cases "sb_alloc s - sb_size s < len")
    case True
    let ?n = "grow_size (if sb_alloc s \<noteq> 0 then sb_alloc s * 2 else MSGPACK_SBUFFER_INIT_SIZE) (sb_size s + len)"
    let ?s = "s\<lparr>sb_data := realloc_mem (sb_data s) ?n, sb_alloc := ?n\<rparr>"
    have ge: "unat (sb_size s) + length b \<le> unat ?n"
      using grow_size_ge [of "sb_size s + len"] sum by (simp add: word_le_nat_alt)
    show ?thesis
    proof (cases "alloc_ok ok ?n")
      case alloc: True
      then have "unat ?n < 2 ^ 63" by (simp add: alloc_ok_def)
      from sb_realloc [OF inv _ this] ge have "sb_inv ?s" "sb_content ?s = sb_content s" by simp_all
      from sb_store [OF this(1) len] ge this(2) alloc True tb show ?thesis
        by (auto simp: msgpack_sbuffer_write_def Let_def)
    next
      case False
      with True ge show ?thesis by (auto simp: msgpack_sbuffer_write_def Let_def)
    qed
  next
    case False
    have "unat (sb_alloc s - sb_size s) = unat (sb_alloc s) - unat (sb_size s)"
      using le by (simp add: unat_sub)
    with False len le have "unat (sb_size s) + length b \<le> unat (sb_alloc s)"
      by (simp add: word_less_nat_alt word_le_nat_alt)
    from sb_store [OF inv len this] False tb show ?thesis
      by (auto simp: msgpack_sbuffer_write_def Let_def)
  qed
qed

text \<open>Below \<open>2 ^ 62\<close> bytes the doubling never overflows, so only the allocator can refuse.\<close>

lemma grow_size_le:
  "unat need < 2 ^ 62 \<Longrightarrow> unat (grow_size nsize need) \<le> max (unat nsize) (2 * unat need)"
proof (induction nsize need rule: grow_size.induct)
  case (1 nsize need)
  show ?case
  proof (cases "nsize < need")
    case True
    then have lt: "unat nsize < unat need" by (simp add: word_less_nat_alt)
    with 1(2) have dbl: "unat (nsize * 2) = 2 * unat nsize" by (simp add: unat_word_ariths)
    show ?thesis
    proof (cases "nsize * 2 \<le> nsize")
      case le: True
      with True show ?thesis by (subst grow_size.simps) (simp add: Let_def)
    next
      case False
      with 1 True dbl lt have "unat (grow_size (nsize * 2) need) \<le> 2 * unat need" by fastforce
      with False True show ?thesis by (subst grow_size.simps) (simp add: Let_def)
    qed
  qed (subst grow_size.simps, simp)
qed

lemma sb_content_length: "sb_inv s \<Longrightarrow> length (sb_content s) = unat (sb_size s)"
  by (simp add: sb_content_def sb_inv_def)

lemma sbuffer_write_room:
  assumes inv: "sb_inv s" and len: "unat len = length b" and small: "unat (sb_size s) + length b < 2 ^ 62"
    and ok: "\<forall>n. ok n"
  shows "fst (the (msgpack_sbuffer_write ok s b len)) = 0"
proof -
  have sum: "unat (sb_size s + len) = unat (sb_size s) + length b"
    using small len by (simp add: unat_word_ariths)
  have le: "unat (sb_size s) \<le> unat (sb_alloc s)" using inv by (simp add: sb_inv_def)
  have alloc: "alloc_ok ok (grow_size (if sb_alloc s \<noteq> 0 then sb_alloc s * 2 else MSGPACK_SBUFFER_INIT_SIZE) (sb_size s + len))"
    if "sb_alloc s - sb_size s < len"
  proof -
    have "unat (sb_alloc s - sb_size s) = unat (sb_alloc s) - unat (sb_size s)"
      using le by (simp add: unat_sub word_le_nat_alt)
    with that len le have "unat (sb_alloc s) < unat (sb_size s) + length b" by (simp add: word_less_nat_alt)
    with small have n: "unat (if sb_alloc s \<noteq> 0 then sb_alloc s * 2 else MSGPACK_SBUFFER_INIT_SIZE) < 2 ^ 63"
      (is "unat ?n < _") by (simp add: unat_word_ariths MSGPACK_SBUFFER_INIT_SIZE_def)
    have "unat (grow_size ?n (sb_size s + len)) \<le> max (unat ?n) (2 * unat (sb_size s + len))"
      using sum small by (intro grow_size_le) simp
    also have "\<dots> < 2 ^ 63" using n sum small by simp
    finally show ?thesis unfolding alloc_ok_def using ok by blast
  qed
  have "unat (sb_size s) + length b < 2 ^ 64" using small by simp
  from sbuffer_write_cases [OF inv len this, of ok] show ?thesis
    using alloc by (auto simp: msgpack_sbuffer_write_def Let_def split: if_splits)
qed

text \<open>The capacity of a buffer whose allocator never refuses, and of any other.\<close>

definition sb_limit :: "(u64 \<Rightarrow> bool) \<Rightarrow> nat" where
  "sb_limit ok = (if (\<forall>n. ok n) then 2 ^ 62 else 0)"

interpretation sb: byte_sink sb_inv sb_content "sbuffer_callback ok" "sb_limit ok" for ok
proof
  fix s s' :: msgpack_sbuffer and b :: bytes and r
  assume inv: "sb_inv s" and b: "length b < 2 ^ 32" and cb: "sbuffer_callback ok s b = (r, s')"
  have len: "unat (of_nat (length b) :: u64) = length b" using b by (simp add: unat_of_nat_small)
  have small: "unat (sb_size s) + length b < 2 ^ 64" using inv b by (auto simp: sb_inv_def)
  from sbuffer_write_cases [OF inv len this, of ok] cb inv
  show "sb_inv s' \<and> sb_content s' = (if r < 0 then sb_content s else sb_content s @ b)"
    by (auto simp: sbuffer_callback_def)
  assume room: "length (sb_content s) + length b < sb_limit ok"
  then have "\<forall>n. ok n" "unat (sb_size s) + length b < 2 ^ 62"
    using inv by (auto simp: sb_limit_def sb_content_length split: if_splits)
  from sbuffer_write_room [OF inv len this(2,1)] sbuffer_write_cases [OF inv len small, of ok] cb
  show "0 \<le> r" by (auto simp: sbuffer_callback_def)
qed

end
