(* ===== verification/MP_Unpack.thy ===== *)
theory MP_Unpack
  imports MP_Pack
begin

text \<open>
  libmsgpack, deserialiser (\<open>include/msgpack/unpack_template.h\<close>, \<open>unpack_define.h\<close>, the callbacks
  and \<open>msgpack_unpack\<close>, \<open>msgpack_unpack_next\<close> of \<open>src/unpack.c\<close>).

  The parser is a state machine that can stop in the middle of an object and be resumed with more
  data. Its context holds the state \<open>cs\<close>, the number \<open>trail\<close> of bytes the state waits for, and the
  containers under construction: the used part of the array \<open>stack\<close>, innermost container first,
  so that \<open>top\<close> is the length of the list. The labels of the source are functions: \<open>exec_header\<close>
  and \<open>exec_trail\<close> are the two arms of the outer \<open>switch\<close>, \<open>template_push\<close> is the loop at \<open>_push\<close>,
  and a jump back into the loop is the outcome \<open>Run\<close>. Pointers into the data are resolved to the bytes
  they denote; \<open>None\<close> is a read outside the data, or a loop that never returns.

  Memory for arrays and maps comes from a zone, given by its allocation function \<open>zm\<close>, which
  returns \<open>None\<close> when it is out of memory.
\<close>

section \<open>Data\<close>

definition MSGPACK_EMBED_STACK_SIZE :: nat where
  "MSGPACK_EMBED_STACK_SIZE = 32"

datatype msgpack_unpack_state =
    CS_HEADER
  | CS_BIN_8 | CS_BIN_16 | CS_BIN_32
  | CS_EXT_8 | CS_EXT_16 | CS_EXT_32
  | CS_FLOAT | CS_DOUBLE
  | CS_UINT_8 | CS_UINT_16 | CS_UINT_32 | CS_UINT_64
  | CS_INT_8 | CS_INT_16 | CS_INT_32 | CS_INT_64
  | CS_FIXEXT_1 | CS_FIXEXT_2 | CS_FIXEXT_4 | CS_FIXEXT_8 | CS_FIXEXT_16
  | CS_STR_8 | CS_STR_16 | CS_STR_32
  | CS_ARRAY_16 | CS_ARRAY_32 | CS_MAP_16 | CS_MAP_32
  | ACS_STR_VALUE | ACS_BIN_VALUE | ACS_EXT_VALUE

text \<open>The numbers of the enumeration; 1, 2 and 3 are no states.\<close>

definition cs_of_nat :: "nat \<Rightarrow> msgpack_unpack_state option" where
  "cs_of_nat n = (if n < 32 then
     [Some CS_HEADER, None, None, None, Some CS_BIN_8, Some CS_BIN_16, Some CS_BIN_32,
      Some CS_EXT_8, Some CS_EXT_16, Some CS_EXT_32, Some CS_FLOAT, Some CS_DOUBLE,
      Some CS_UINT_8, Some CS_UINT_16, Some CS_UINT_32, Some CS_UINT_64,
      Some CS_INT_8, Some CS_INT_16, Some CS_INT_32, Some CS_INT_64,
      Some CS_FIXEXT_1, Some CS_FIXEXT_2, Some CS_FIXEXT_4, Some CS_FIXEXT_8, Some CS_FIXEXT_16,
      Some CS_STR_8, Some CS_STR_16, Some CS_STR_32,
      Some CS_ARRAY_16, Some CS_ARRAY_32, Some CS_MAP_16, Some CS_MAP_32] ! n
    else None)"

datatype msgpack_container_type = CT_ARRAY_ITEM | CT_MAP_KEY | CT_MAP_VALUE

record unpack_stack =
  st_obj :: msgpack_object
  st_count :: u64
  st_ct :: msgpack_container_type
  st_map_key :: msgpack_object

record 'z unpack_user =
  us_zone :: 'z
  referenced :: bool

record 'z template_context =
  ctx_user :: "'z unpack_user"
  ctx_cs :: msgpack_unpack_state
  ctx_trail :: u32
  ctx_stack :: "unpack_stack list"
  ctx_root :: msgpack_object

section \<open>Callbacks\<close>

definition template_callback_root :: msgpack_object where
  "template_callback_root = OBJECT_NIL"

definition template_callback_uint8 :: "u8 \<Rightarrow> msgpack_object" where
  "template_callback_uint8 d = OBJECT_POSITIVE_INTEGER (ucast d)"

definition template_callback_uint16 :: "u16 \<Rightarrow> msgpack_object" where
  "template_callback_uint16 d = OBJECT_POSITIVE_INTEGER (ucast d)"

definition template_callback_uint32 :: "u32 \<Rightarrow> msgpack_object" where
  "template_callback_uint32 d = OBJECT_POSITIVE_INTEGER (ucast d)"

definition template_callback_uint64 :: "u64 \<Rightarrow> msgpack_object" where
  "template_callback_uint64 d = OBJECT_POSITIVE_INTEGER d"

definition template_callback_int8 :: "u8 \<Rightarrow> msgpack_object" where
  "template_callback_int8 d =
     (if sint d \<ge> 0 then OBJECT_POSITIVE_INTEGER (scast d) else OBJECT_NEGATIVE_INTEGER (scast d))"

definition template_callback_int16 :: "u16 \<Rightarrow> msgpack_object" where
  "template_callback_int16 d =
     (if sint d \<ge> 0 then OBJECT_POSITIVE_INTEGER (scast d) else OBJECT_NEGATIVE_INTEGER (scast d))"

definition template_callback_int32 :: "u32 \<Rightarrow> msgpack_object" where
  "template_callback_int32 d =
     (if sint d \<ge> 0 then OBJECT_POSITIVE_INTEGER (scast d) else OBJECT_NEGATIVE_INTEGER (scast d))"

definition template_callback_int64 :: "u64 \<Rightarrow> msgpack_object" where
  "template_callback_int64 d =
     (if sint d \<ge> 0 then OBJECT_POSITIVE_INTEGER d else OBJECT_NEGATIVE_INTEGER d)"

definition template_callback_float :: "u32 \<Rightarrow> msgpack_object" where
  "template_callback_float bits = OBJECT_FLOAT (float_to_double bits)"

definition template_callback_double :: "u64 \<Rightarrow> msgpack_object" where
  "template_callback_double bits = OBJECT_FLOAT bits"

definition template_callback_nil :: msgpack_object where
  "template_callback_nil = OBJECT_NIL"

definition template_callback_true :: msgpack_object where
  "template_callback_true = OBJECT_BOOLEAN True"

definition template_callback_false :: msgpack_object where
  "template_callback_false = OBJECT_BOOLEAN False"

text \<open>The sizes of \<open>msgpack_object\<close> and \<open>msgpack_object_kv\<close> on a 64-bit platform.\<close>

definition sizeof_object :: u64 where
  "sizeof_object = 24"

definition sizeof_object_kv :: u64 where
  "sizeof_object_kv = 48"

type_synonym 'z zone_malloc = "'z \<Rightarrow> u64 \<Rightarrow> 'z option"

definition template_callback_array ::
  "'z zone_malloc \<Rightarrow> 'z unpack_user \<Rightarrow> u32 \<Rightarrow> (msgpack_object \<times> 'z unpack_user) option" where
  "template_callback_array zm u n =
     (case zm (us_zone u) (ucast n * sizeof_object) of
        None \<Rightarrow> None | Some z \<Rightarrow> Some (OBJECT_ARRAY [], u\<lparr>us_zone := z\<rparr>))"

definition template_callback_array_item :: "msgpack_object \<Rightarrow> msgpack_object \<Rightarrow> msgpack_object" where
  "template_callback_array_item c x = (case c of OBJECT_ARRAY os \<Rightarrow> OBJECT_ARRAY (os @ [x]) | _ \<Rightarrow> c)"

definition template_callback_map ::
  "'z zone_malloc \<Rightarrow> 'z unpack_user \<Rightarrow> u32 \<Rightarrow> (msgpack_object \<times> 'z unpack_user) option" where
  "template_callback_map zm u n =
     (case zm (us_zone u) (ucast n * sizeof_object_kv) of
        None \<Rightarrow> None | Some z \<Rightarrow> Some (OBJECT_MAP [], u\<lparr>us_zone := z\<rparr>))"

definition template_callback_map_item :: "msgpack_object \<Rightarrow> msgpack_object \<Rightarrow> msgpack_object \<Rightarrow> msgpack_object" where
  "template_callback_map_item c k v = (case c of OBJECT_MAP kvs \<Rightarrow> OBJECT_MAP (kvs @ [(k, v)]) | _ \<Rightarrow> c)"

text \<open>The bytes a pointer and a length denote; a pointer with length 0 is never followed.\<close>

definition sub_bytes :: "bytes \<Rightarrow> nat \<Rightarrow> nat \<Rightarrow> bytes option" where
  "sub_bytes data n l =
     (if l = 0 then Some [] else if n + l \<le> length data then Some (take l (drop n data)) else None)"

definition template_callback_str :: "bytes \<Rightarrow> nat \<Rightarrow> u32 \<Rightarrow> msgpack_object option" where
  "template_callback_str data p l = map_option OBJECT_STR (sub_bytes data p (unat l))"

definition template_callback_bin :: "bytes \<Rightarrow> nat \<Rightarrow> u32 \<Rightarrow> msgpack_object option" where
  "template_callback_bin data p l = map_option OBJECT_BIN (sub_bytes data p (unat l))"

definition template_callback_ext :: "bytes \<Rightarrow> nat \<Rightarrow> u32 \<Rightarrow> msgpack_object option" where
  "template_callback_ext data p l = do {
     type \<leftarrow> rd data p;
     body \<leftarrow> sub_bytes data (p + 1) (unat (l - 1));
     Some (OBJECT_EXT type body) }"

section \<open>Loading numbers\<close>

definition be_val16 :: "bytes \<Rightarrow> u16" where
  "be_val16 bs = (push_bit 8 (ucast (bs ! 0))) OR ucast (bs ! 1)"

definition be_val32 :: "bytes \<Rightarrow> u32" where
  "be_val32 bs = push_bit 24 (ucast (bs ! 0)) OR push_bit 16 (ucast (bs ! 1)) OR push_bit 8 (ucast (bs ! 2)) OR ucast (bs ! 3)"

definition be_val64 :: "bytes \<Rightarrow> u64" where
  "be_val64 bs = push_bit 32 (ucast (be_val32 (take 4 bs))) OR ucast (be_val32 (drop 4 bs))"

text \<open>
  The bytes are copied into a variable of a little-endian (\<open>True\<close>) or big-endian host, and the
  variable is converted.
\<close>

definition host_val16 :: "bool \<Rightarrow> bytes \<Rightarrow> u16" where
  "host_val16 little bs = be_val16 (if little then rev bs else bs)"

definition host_val32 :: "bool \<Rightarrow> bytes \<Rightarrow> u32" where
  "host_val32 little bs = be_val32 (if little then rev bs else bs)"

definition host_val64 :: "bool \<Rightarrow> bytes \<Rightarrow> u64" where
  "host_val64 little bs = be_val64 (if little then rev bs else bs)"

definition msgpack_load16 :: "bool \<Rightarrow> bytes \<Rightarrow> nat \<Rightarrow> u16 option" where
  "msgpack_load16 little data n = map_option (\<lambda>bs. msgpack_be16 little (host_val16 little bs)) (sub_bytes data n 2)"

definition msgpack_load32 :: "bool \<Rightarrow> bytes \<Rightarrow> nat \<Rightarrow> u32 option" where
  "msgpack_load32 little data n = map_option (\<lambda>bs. msgpack_be32 little (host_val32 little bs)) (sub_bytes data n 4)"

definition msgpack_load64 :: "bool \<Rightarrow> bytes \<Rightarrow> nat \<Rightarrow> u64 option" where
  "msgpack_load64 little data n = map_option (\<lambda>bs. msgpack_be64 little (host_val64 little bs)) (sub_bytes data n 8)"

text \<open>The loads of a little-endian host; by \<open>load16_host\<close> and its like every host loads the same.\<close>

abbreviation load16 :: "bytes \<Rightarrow> nat \<Rightarrow> u16 option" where "load16 \<equiv> msgpack_load16 True"

abbreviation load32 :: "bytes \<Rightarrow> nat \<Rightarrow> u32 option" where "load32 \<equiv> msgpack_load32 True"

abbreviation load64 :: "bytes \<Rightarrow> nat \<Rightarrow> u64 option" where "load64 \<equiv> msgpack_load64 True"

section \<open>The state machine\<close>

text \<open>
  The outcome of one pass through the \<open>switch\<close>: go on in the loop at a position, or leave the
  function with its return value.
\<close>

datatype 'z exec_out = Run "'z template_context" nat | Stop int "'z template_context" nat

definition template_init :: "'z template_context \<Rightarrow> 'z template_context" where
  "template_init ctx = ctx\<lparr>ctx_cs := CS_HEADER, ctx_trail := 0, ctx_stack := [], ctx_root := template_callback_root\<rparr>"

definition template_data :: "'z template_context \<Rightarrow> msgpack_object" where
  "template_data ctx = ctx_root ctx"

text \<open>A finished value is added to the innermost container; containers that it completes are values in turn.\<close>

fun template_push :: "unpack_stack list \<Rightarrow> msgpack_object \<Rightarrow> unpack_stack list + msgpack_object" where
  "template_push [] obj = Inr obj"
| "template_push (c # st) obj =
     (case st_ct c of
        CT_ARRAY_ITEM \<Rightarrow>
          (let c' = c\<lparr>st_obj := template_callback_array_item (st_obj c) obj, st_count := st_count c - 1\<rparr>
           in if st_count c' = 0 then template_push st (st_obj c') else Inl (c' # st))
      | CT_MAP_KEY \<Rightarrow> Inl (c\<lparr>st_map_key := obj, st_ct := CT_MAP_VALUE\<rparr> # st)
      | CT_MAP_VALUE \<Rightarrow>
          (let c' = c\<lparr>st_obj := template_callback_map_item (st_obj c) (st_map_key c) obj, st_count := st_count c - 1\<rparr>
           in if st_count c' = 0 then template_push st (st_obj c')
              else Inl (c'\<lparr>st_ct := CT_MAP_KEY\<rparr> # st)))"

definition do_push :: "'z template_context \<Rightarrow> nat \<Rightarrow> msgpack_object \<Rightarrow> 'z exec_out" where
  "do_push ctx p obj =
     (case template_push (ctx_stack ctx) obj of
        Inr x \<Rightarrow> Stop 1 (ctx\<lparr>ctx_stack := [], ctx_root := x\<rparr>) (p + 1)
      | Inl st \<Rightarrow> Run (ctx\<lparr>ctx_stack := st, ctx_cs := CS_HEADER\<rparr>) (p + 1))"

definition push_variable ::
  "'z template_context \<Rightarrow> nat \<Rightarrow> msgpack_object option \<Rightarrow> 'z exec_out option" where
  "push_variable ctx p val =
     map_option (do_push (ctx\<lparr>ctx_user := (ctx_user ctx)\<lparr>referenced := True\<rparr>\<rparr>) p) val"

definition again_fixed_trail ::
  "'z template_context \<Rightarrow> nat \<Rightarrow> msgpack_unpack_state option \<Rightarrow> u32 \<Rightarrow> 'z exec_out" where
  "again_fixed_trail ctx p cs trail =
     (case cs of Some s \<Rightarrow> Run (ctx\<lparr>ctx_trail := trail, ctx_cs := s\<rparr>) (p + 1) | None \<Rightarrow> Stop (- 1) ctx p)"

text \<open>With nothing to wait for, the value is complete at once; \<open>zero\<close> is its callback.\<close>

definition again_fixed_trail_if_zero ::
  "'z template_context \<Rightarrow> nat \<Rightarrow> msgpack_unpack_state \<Rightarrow> u32 \<Rightarrow> msgpack_object option \<Rightarrow> 'z exec_out option" where
  "again_fixed_trail_if_zero ctx p cs trail zero =
     (if trail = 0 then push_variable (ctx\<lparr>ctx_trail := trail\<rparr>) p zero
      else Some (again_fixed_trail ctx p (Some cs) trail))"

definition start_container ::
  "('z unpack_user \<Rightarrow> u32 \<Rightarrow> (msgpack_object \<times> 'z unpack_user) option) \<Rightarrow> msgpack_container_type \<Rightarrow>
   'z template_context \<Rightarrow> nat \<Rightarrow> u32 \<Rightarrow> 'z exec_out" where
  "start_container callback ct ctx p count =
     (if length (ctx_stack ctx) \<ge> MSGPACK_EMBED_STACK_SIZE then Stop (- 1) ctx p
      else case callback (ctx_user ctx) count of
        None \<Rightarrow> Stop (- 1) ctx p
      | Some (obj, u) \<Rightarrow>
          (if count = 0 then do_push (ctx\<lparr>ctx_user := u\<rparr>) p obj
           else Run (ctx\<lparr>ctx_user := u, ctx_cs := CS_HEADER,
                       ctx_stack := \<lparr>st_obj = obj, st_count = ucast count, st_ct = ct, st_map_key = OBJECT_NIL\<rparr>
                                     # ctx_stack ctx\<rparr>) (p + 1)))"

definition NEXT_CS :: "u8 \<Rightarrow> msgpack_unpack_state option" where
  "NEXT_CS b = cs_of_nat (unat (b AND 0x1f))"

definition exec_header :: "'z zone_malloc \<Rightarrow> bytes \<Rightarrow> 'z template_context \<Rightarrow> nat \<Rightarrow> u8 \<Rightarrow> 'z exec_out option" where
  "exec_header zm data ctx p b =
     (if b \<le> 0x7f then Some (do_push ctx p (template_callback_uint8 b))
      else if 0xe0 \<le> b then Some (do_push ctx p (template_callback_int8 b))
      else if 0xc0 \<le> b \<and> b \<le> 0xdf then
        (if b = 0xc0 then Some (do_push ctx p template_callback_nil)
         else if b = 0xc2 then Some (do_push ctx p template_callback_false)
         else if b = 0xc3 then Some (do_push ctx p template_callback_true)
         else if 0xc4 \<le> b \<and> b \<le> 0xc6 then
           Some (again_fixed_trail ctx p (NEXT_CS b) (push_bit (unat (b AND 3)) 1))
         else if 0xc7 \<le> b \<and> b \<le> 0xc9 then
           Some (again_fixed_trail ctx p (NEXT_CS b) (push_bit (unat ((b + 1) AND 3)) 1))
         else if 0xca \<le> b \<and> b \<le> 0xd3 then
           Some (again_fixed_trail ctx p (NEXT_CS b) (push_bit (unat (b AND 3)) 1))
         else if 0xd4 \<le> b \<and> b \<le> 0xd7 then
           again_fixed_trail_if_zero ctx p ACS_EXT_VALUE (push_bit (unat (b AND 3)) 1 + 1) None
         else if b = 0xd8 then
           again_fixed_trail_if_zero ctx p ACS_EXT_VALUE (16 + 1) None
         else if 0xd9 \<le> b \<and> b \<le> 0xdb then
           Some (again_fixed_trail ctx p (NEXT_CS b) (push_bit (unat (b AND 3) - 1) 1))
         else if 0xdc \<le> b \<and> b \<le> 0xdf then
           Some (again_fixed_trail ctx p (NEXT_CS b) (push_bit (unat (b AND 1)) 2))
         else Some (Stop (- 1) ctx p))
      else if 0xa0 \<le> b \<and> b \<le> 0xbf then
        again_fixed_trail_if_zero ctx p ACS_STR_VALUE (ucast b AND 0x1f) (template_callback_str data p 0)
      else if 0x90 \<le> b \<and> b \<le> 0x9f then
        Some (start_container (template_callback_array zm) CT_ARRAY_ITEM ctx p (ucast b AND 0x0f))
      else if 0x80 \<le> b \<and> b \<le> 0x8f then
        Some (start_container (template_callback_map zm) CT_MAP_KEY ctx p (ucast b AND 0x0f))
      else Some (Stop (- 1) ctx p))"

definition exec_trail :: "'z zone_malloc \<Rightarrow> bytes \<Rightarrow> 'z template_context \<Rightarrow> nat \<Rightarrow> 'z exec_out option" where
  "exec_trail zm data ctx n =
     (let trail = ctx_trail ctx;
          p = n + unat (trail - 1);
          byte = rd data n;
          len8 = (\<lambda>cs zero. do { b \<leftarrow> byte; again_fixed_trail_if_zero ctx p cs (ucast b) zero });
          len16 = (\<lambda>cs zero. do { tmp \<leftarrow> load16 data n; again_fixed_trail_if_zero ctx p cs (ucast tmp) zero });
          len32 = (\<lambda>cs zero. do { tmp \<leftarrow> load32 data n; again_fixed_trail_if_zero ctx p cs tmp zero });
          str0 = template_callback_str data n 0;
          bin0 = template_callback_bin data n 0;
          ext0 = template_callback_ext data n 0
      in if length data - n < unat trail then Some (Stop 0 ctx n)
         else case ctx_cs ctx of
           CS_FLOAT \<Rightarrow> do { i \<leftarrow> load32 data n; Some (do_push ctx p (template_callback_float i)) }
         | CS_DOUBLE \<Rightarrow> do { i \<leftarrow> load64 data n; Some (do_push ctx p (template_callback_double i)) }
         | CS_UINT_8 \<Rightarrow> do { b \<leftarrow> byte; Some (do_push ctx p (template_callback_uint8 b)) }
         | CS_UINT_16 \<Rightarrow> do { tmp \<leftarrow> load16 data n; Some (do_push ctx p (template_callback_uint16 tmp)) }
         | CS_UINT_32 \<Rightarrow> do { tmp \<leftarrow> load32 data n; Some (do_push ctx p (template_callback_uint32 tmp)) }
         | CS_UINT_64 \<Rightarrow> do { tmp \<leftarrow> load64 data n; Some (do_push ctx p (template_callback_uint64 tmp)) }
         | CS_INT_8 \<Rightarrow> do { b \<leftarrow> byte; Some (do_push ctx p (template_callback_int8 b)) }
         | CS_INT_16 \<Rightarrow> do { tmp \<leftarrow> load16 data n; Some (do_push ctx p (template_callback_int16 tmp)) }
         | CS_INT_32 \<Rightarrow> do { tmp \<leftarrow> load32 data n; Some (do_push ctx p (template_callback_int32 tmp)) }
         | CS_INT_64 \<Rightarrow> do { tmp \<leftarrow> load64 data n; Some (do_push ctx p (template_callback_int64 tmp)) }
         | CS_FIXEXT_1 \<Rightarrow> again_fixed_trail_if_zero ctx p ACS_EXT_VALUE (1 + 1) ext0
         | CS_FIXEXT_2 \<Rightarrow> again_fixed_trail_if_zero ctx p ACS_EXT_VALUE (2 + 1) ext0
         | CS_FIXEXT_4 \<Rightarrow> again_fixed_trail_if_zero ctx p ACS_EXT_VALUE (4 + 1) ext0
         | CS_FIXEXT_8 \<Rightarrow> again_fixed_trail_if_zero ctx p ACS_EXT_VALUE (8 + 1) ext0
         | CS_FIXEXT_16 \<Rightarrow> again_fixed_trail_if_zero ctx p ACS_EXT_VALUE (16 + 1) ext0
         | CS_STR_8 \<Rightarrow> len8 ACS_STR_VALUE str0
         | CS_BIN_8 \<Rightarrow> len8 ACS_BIN_VALUE bin0
         | CS_EXT_8 \<Rightarrow> do { b \<leftarrow> byte; again_fixed_trail_if_zero ctx p ACS_EXT_VALUE (ucast b + 1) ext0 }
         | CS_STR_16 \<Rightarrow> len16 ACS_STR_VALUE str0
         | CS_BIN_16 \<Rightarrow> len16 ACS_BIN_VALUE bin0
         | CS_EXT_16 \<Rightarrow> do { tmp \<leftarrow> load16 data n; again_fixed_trail_if_zero ctx p ACS_EXT_VALUE (ucast tmp + 1) ext0 }
         | CS_STR_32 \<Rightarrow> len32 ACS_STR_VALUE str0
         | CS_BIN_32 \<Rightarrow> len32 ACS_BIN_VALUE bin0
         | CS_EXT_32 \<Rightarrow> do { tmp \<leftarrow> load32 data n; again_fixed_trail_if_zero ctx p ACS_EXT_VALUE (tmp + 1) ext0 }
         | ACS_STR_VALUE \<Rightarrow> push_variable ctx p (template_callback_str data n trail)
         | ACS_BIN_VALUE \<Rightarrow> push_variable ctx p (template_callback_bin data n trail)
         | ACS_EXT_VALUE \<Rightarrow> push_variable ctx p (template_callback_ext data n trail)
         | CS_ARRAY_16 \<Rightarrow> do { tmp \<leftarrow> load16 data n;
             Some (start_container (template_callback_array zm) CT_ARRAY_ITEM ctx p (ucast tmp)) }
         | CS_ARRAY_32 \<Rightarrow> do { tmp \<leftarrow> load32 data n;
             Some (start_container (template_callback_array zm) CT_ARRAY_ITEM ctx p tmp) }
         | CS_MAP_16 \<Rightarrow> do { tmp \<leftarrow> load16 data n;
             Some (start_container (template_callback_map zm) CT_MAP_KEY ctx p (ucast tmp)) }
         | CS_MAP_32 \<Rightarrow> do { tmp \<leftarrow> load32 data n;
             Some (start_container (template_callback_map zm) CT_MAP_KEY ctx p tmp) }
         | CS_HEADER \<Rightarrow> Some (Stop (- 1) ctx p))"

definition execute_step :: "'z zone_malloc \<Rightarrow> bytes \<Rightarrow> 'z template_context \<Rightarrow> nat \<Rightarrow> 'z exec_out option" where
  "execute_step zm data ctx p =
     (if ctx_cs ctx = CS_HEADER then do { b \<leftarrow> rd data p; exec_header zm data ctx p b }
      else exec_trail zm data ctx p)"

partial_function (option) execute_loop ::
  "'z zone_malloc \<Rightarrow> bytes \<Rightarrow> 'z template_context \<Rightarrow> nat \<Rightarrow> (int \<times> 'z template_context \<times> nat) option" where
  "execute_loop zm data ctx p =
     (if length data \<le> p then Some (0, ctx, p)
      else Option.bind (execute_step zm data ctx p)
        (\<lambda>out. case out of
           Run ctx' p' \<Rightarrow> execute_loop zm data ctx' p'
         | Stop r ctx' p' \<Rightarrow> Some (r, ctx', p')))"

definition template_execute ::
  "'z zone_malloc \<Rightarrow> 'z template_context \<Rightarrow> bytes \<Rightarrow> nat \<Rightarrow> (int \<times> 'z template_context \<times> nat) option" where
  "template_execute zm ctx data off = (if off \<le> length data then execute_loop zm data ctx off else None)"

section \<open>Entry points\<close>

datatype msgpack_unpack_return =
  UNPACK_SUCCESS | UNPACK_EXTRA_BYTES | UNPACK_CONTINUE | UNPACK_PARSE_ERROR | UNPACK_NOMEM_ERROR

definition new_context :: "'z \<Rightarrow> 'z template_context" where
  "new_context z = template_init \<lparr>ctx_user = \<lparr>us_zone = z, referenced = False\<rparr>, ctx_cs = CS_HEADER,
     ctx_trail = 0, ctx_stack = [], ctx_root = OBJECT_NIL\<rparr>"

text \<open>
  The offset argument may be the null pointer, \<open>None\<close>. The results are the return code, the offset
  afterwards, the object if one was stored, and the zone.
\<close>

definition msgpack_unpack ::
  "'z zone_malloc \<Rightarrow> 'z \<Rightarrow> bytes \<Rightarrow> nat option \<Rightarrow>
   (msgpack_unpack_return \<times> nat option \<times> msgpack_object option \<times> 'z) option" where
  "msgpack_unpack zm z data off =
     (let noff = (case off of Some n \<Rightarrow> n | None \<Rightarrow> 0)
      in if length data \<le> noff then Some (UNPACK_CONTINUE, off, None, z)
         else do {
           (e, ctx, noff') \<leftarrow> template_execute zm (new_context z) data noff;
           let z' = us_zone (ctx_user ctx);
           let off' = map_option (\<lambda>_. noff') off;
           Some (if e < 0 then (UNPACK_PARSE_ERROR, off, None, z')
                 else if e = 0 then (UNPACK_CONTINUE, off', None, z')
                 else if noff' < length data then (UNPACK_EXTRA_BYTES, off', Some (template_data ctx), z')
                 else (UNPACK_SUCCESS, off', Some (template_data ctx), z')) })"

record 'z msgpack_unpacked =
  up_zone :: "'z option"
  up_data :: msgpack_object

definition msgpack_unpacked_init :: "'z msgpack_unpacked" where
  "msgpack_unpacked_init = \<lparr>up_zone = None, up_data = OBJECT_NIL\<rparr>"

definition msgpack_unpacked_destroy :: "'z msgpack_unpacked \<Rightarrow> 'z msgpack_unpacked" where
  "msgpack_unpacked_destroy r = (if up_zone r \<noteq> None then \<lparr>up_zone = None, up_data = OBJECT_NIL\<rparr> else r)"

definition msgpack_unpacked_release_zone :: "'z msgpack_unpacked \<Rightarrow> 'z option \<times> 'z msgpack_unpacked" where
  "msgpack_unpacked_release_zone r = (up_zone r, r\<lparr>up_zone := None\<rparr>)"

text \<open>The offset is stored on success only; \<open>znew\<close> is the result of \<open>msgpack_zone_new\<close>.\<close>

definition msgpack_unpack_next ::
  "'z zone_malloc \<Rightarrow> 'z option \<Rightarrow> 'z msgpack_unpacked \<Rightarrow> bytes \<Rightarrow> nat option \<Rightarrow>
   (msgpack_unpack_return \<times> nat option \<times> 'z msgpack_unpacked) option" where
  "msgpack_unpack_next zm znew result data off =
     (let noff = (case off of Some n \<Rightarrow> n | None \<Rightarrow> 0);
          result0 = msgpack_unpacked_destroy result
      in if length data \<le> noff then Some (UNPACK_CONTINUE, off, result0)
         else case (if up_zone result0 = None then znew else up_zone result0) of
           None \<Rightarrow> Some (UNPACK_NOMEM_ERROR, off, result0\<lparr>up_zone := None\<rparr>)
         | Some z \<Rightarrow> do {
             (e, ctx, noff') \<leftarrow> template_execute zm (new_context z) data noff;
             let z' = us_zone (ctx_user ctx);
             Some (if e < 0 then (UNPACK_PARSE_ERROR, off, result0\<lparr>up_zone := None\<rparr>)
                   else if e = 0 then (UNPACK_CONTINUE, off, result0\<lparr>up_zone := Some z'\<rparr>)
                   else (UNPACK_SUCCESS, map_option (\<lambda>_. noff') off,
                         \<lparr>up_zone = Some z', up_data = template_data ctx\<rparr>)) })"

section \<open>Bytes at a position\<close>

definition bytes_at :: "bytes \<Rightarrow> nat \<Rightarrow> bytes \<Rightarrow> bool" where
  "bytes_at data p bs \<longleftrightarrow> p + length bs \<le> length data \<and> take (length bs) (drop p data) = bs"

lemma bytes_at_Cons: "bytes_at data p (b # bs) \<longleftrightarrow> p < length data \<and> data ! p = b \<and> bytes_at data (p + 1) bs"
  by (auto simp: bytes_at_def Cons_nth_drop_Suc [symmetric])

lemma bytes_at_append:
  "bytes_at data p (xs @ ys) \<longleftrightarrow> bytes_at data p xs \<and> bytes_at data (p + length xs) ys"
proof (induction xs arbitrary: p)
  case Nil
  then show ?case by (auto simp: bytes_at_def)
next
  case (Cons x xs)
  then show ?case by (auto simp: bytes_at_Cons add.commute)
qed

lemma bytes_at_sub: "bytes_at data p bs \<Longrightarrow> sub_bytes data p (length bs) = Some bs"
  by (auto simp: bytes_at_def sub_bytes_def)

lemma be_val_bytes [simp]:
  "be_val16 (be_bytes16 x16) = x16" "be_val32 (be_bytes32 x32) = x32" "be_val64 (be_bytes64 x64) = x64"
proof -
  show "be_val16 (be_bytes16 x16) = x16"
    by (auto simp: be_val16_def be_bytes16_def bit_simps intro!: bit_word_eqI)
  show v32: "be_val32 (be_bytes32 x32) = x32" for x32
  proof (rule bit_word_eqI)
    fix n assume "n < LENGTH(32)"
    then consider "n < 8" | k where "n = 8 + k" "k < 8" | k where "n = 16 + k" "k < 8" | k where "n = 24 + k" "k < 8"
      by (cases "n < 8"; cases "n < 16"; cases "n < 24") (auto dest!: le_Suc_ex simp: not_less)
    then show "bit (be_val32 (be_bytes32 x32)) n = bit x32 n"
      by cases (auto simp: be_val32_def be_bytes32_def bit_simps)
  qed
  have "take 4 (be_bytes64 x64) = be_bytes32 (ucast (drop_bit 32 x64))" "drop 4 (be_bytes64 x64) = be_bytes32 (ucast x64)"
    by (simp_all add: be_bytes64_def be_bytes32_def)
  then show "be_val64 (be_bytes64 x64) = x64"
    by (auto simp: be_val64_def v32 bit_simps intro!: bit_word_eqI)
qed

lemma be_bytes_length [simp]: "length (be_bytes16 a) = 2" "length (be_bytes32 b) = 4" "length (be_bytes64 c) = 8"
  by (simp_all add: be_bytes16_def be_bytes32_def be_bytes64_def)

lemma bit_beyond8: "8 \<le> n \<Longrightarrow> \<not> bit (x :: u8) n"
  using bit_imp_le_length [of x n] by auto

lemma be_bytes_val16: "be_bytes16 (be_val16 [a, b]) = [a, b]"
  by (auto simp: be_bytes16_def be_val16_def bit_simps bit_beyond8 intro!: bit_word_eqI)

lemma be_bytes_val32: "be_bytes32 (be_val32 [a, b, c, d]) = [a, b, c, d]"
  by (auto simp: be_bytes32_def be_val32_def bit_simps bit_beyond8 intro!: bit_word_eqI)

lemma bit_beyond32: "32 \<le> n \<Longrightarrow> \<not> bit (x :: u32) n"
  using bit_imp_le_length [of x n] by auto

lemma split_halves:
  "ucast (drop_bit 32 (push_bit 32 (ucast (x :: u32)) OR ucast (y :: u32) :: u64)) = x"
  "ucast (push_bit 32 (ucast (x :: u32)) OR ucast (y :: u32) :: u64) = y"
  by (auto simp: bit_simps bit_beyond32 intro!: bit_word_eqI)

lemma be_bytes_val64: "be_bytes64 (be_val64 [a, b, c, d, e, f, g, h]) = [a, b, c, d, e, f, g, h]"
  unfolding be_bytes64_def be_val64_def split_halves by (simp add: be_bytes_val32)

text \<open>Storing a number and reading the bytes back; converting twice is the identity.\<close>

lemma host_val_mem:
  "host_val16 little (mem16 little x16) = x16" "host_val32 little (mem32 little x32) = x32"
  "host_val64 little (mem64 little x64) = x64"
  by (simp_all add: host_val16_def mem16_def host_val32_def mem32_def host_val64_def mem64_def)

lemma be_twice:
  "msgpack_be16 little (msgpack_be16 little x16) = x16" "msgpack_be32 little (msgpack_be32 little x32) = x32"
  "msgpack_be64 little (msgpack_be64 little x64) = x64"
proof -
  have rev: "be_bytes16 (msgpack_be16 True y16) = rev (be_bytes16 y16)"
    "be_bytes32 (msgpack_be32 True y32) = rev (be_bytes32 y32)"
    "be_bytes64 (msgpack_be64 True y64) = rev (be_bytes64 y64)" for y16 y32 y64
    using store16_host [of True y16] store32_host [of True y32] store64_host [of True y64]
    by (simp_all add: msgpack_store16_def mem16_def msgpack_store32_def mem32_def msgpack_store64_def mem64_def rev_swap)
  have "be_bytes16 (msgpack_be16 True (msgpack_be16 True x16)) = be_bytes16 x16"
    "be_bytes32 (msgpack_be32 True (msgpack_be32 True x32)) = be_bytes32 x32"
    "be_bytes64 (msgpack_be64 True (msgpack_be64 True x64)) = be_bytes64 x64" by (simp_all add: rev)
  then have "msgpack_be16 True (msgpack_be16 True x16) = x16" "msgpack_be32 True (msgpack_be32 True x32) = x32"
    "msgpack_be64 True (msgpack_be64 True x64) = x64" by (metis be_val_bytes)+
  then show "msgpack_be16 little (msgpack_be16 little x16) = x16" "msgpack_be32 little (msgpack_be32 little x32) = x32"
    "msgpack_be64 little (msgpack_be64 little x64) = x64"
    by (cases little; simp add: msgpack_be16_def msgpack_be32_def msgpack_be64_def)+
qed

lemma host_vals:
  "msgpack_be16 little (host_val16 little (be_bytes16 x16)) = x16"
  "msgpack_be32 little (host_val32 little (be_bytes32 x32)) = x32"
  "msgpack_be64 little (host_val64 little (be_bytes64 x64)) = x64"
  unfolding store16_host [of little, symmetric] store32_host [of little, symmetric] store64_host [of little, symmetric]
    msgpack_store16_def msgpack_store32_def msgpack_store64_def host_val_mem
  by (rule be_twice)+

lemma sub_bytes_length: "sub_bytes data n l = Some bs \<Longrightarrow> length bs = l"
  by (auto simp: sub_bytes_def split: if_splits)

lemma load16_host: "msgpack_load16 little data n = map_option be_val16 (sub_bytes data n 2)"
proof (cases "sub_bytes data n 2")
  case (Some bs)
  then obtain a b where "bs = [a, b]"
    using sub_bytes_length [OF Some] by (auto simp: numeral_eq_Suc length_Suc_conv)
  with Some host_vals(1) [of little "be_val16 bs"] show ?thesis by (simp add: msgpack_load16_def be_bytes_val16)
qed (simp add: msgpack_load16_def)

lemma load32_host: "msgpack_load32 little data n = map_option be_val32 (sub_bytes data n 4)"
proof (cases "sub_bytes data n 4")
  case (Some bs)
  then obtain a b c d where "bs = [a, b, c, d]"
    using sub_bytes_length [OF Some] by (auto simp: numeral_eq_Suc length_Suc_conv)
  with Some host_vals(2) [of little "be_val32 bs"] show ?thesis by (simp add: msgpack_load32_def be_bytes_val32)
qed (simp add: msgpack_load32_def)

lemma load64_host: "msgpack_load64 little data n = map_option be_val64 (sub_bytes data n 8)"
proof (cases "sub_bytes data n 8")
  case (Some bs)
  then obtain a b c d e f g h where "bs = [a, b, c, d, e, f, g, h]"
    using sub_bytes_length [OF Some] by (auto simp: numeral_eq_Suc length_Suc_conv)
  with Some host_vals(3) [of little "be_val64 bs"] show ?thesis by (simp add: msgpack_load64_def be_bytes_val64)
qed (simp add: msgpack_load64_def)

lemma load_at:
  "bytes_at data p (be_bytes16 x16) \<Longrightarrow> load16 data p = Some x16"
  "bytes_at data p (be_bytes32 x32) \<Longrightarrow> load32 data p = Some x32"
  "bytes_at data p (be_bytes64 x64) \<Longrightarrow> load64 data p = Some x64"
  using bytes_at_sub [of data p "be_bytes16 x16"] bytes_at_sub [of data p "be_bytes32 x32"]
    bytes_at_sub [of data p "be_bytes64 x64"]
  by (simp_all add: load16_host load32_host load64_host)

section \<open>Executing encoded bytes\<close>

text \<open>What happens after a pass through the \<open>switch\<close>.\<close>

definition resume :: "'z zone_malloc \<Rightarrow> bytes \<Rightarrow> 'z exec_out \<Rightarrow> (int \<times> 'z template_context \<times> nat) option" where
  "resume zm data out = (case out of
     Run ctx p \<Rightarrow> execute_loop zm data ctx p | Stop r ctx p \<Rightarrow> Some (r, ctx, p))"

lemma resume_simps [simp]:
  "resume zm data (Run ctx p) = execute_loop zm data ctx p" "resume zm data (Stop r ctx p) = Some (r, ctx, p)"
  by (simp_all add: resume_def)

lemma loop_step:
  "p < length data \<Longrightarrow> execute_loop zm data ctx p = Option.bind (execute_step zm data ctx p) (resume zm data)"
  by (subst execute_loop.simps) (simp add: resume_def [abs_def])

lemma loop_end: "length data \<le> p \<Longrightarrow> execute_loop zm data ctx p = Some (0, ctx, p)"
  by (subst execute_loop.simps) simp

text \<open>The single-byte headers that wait for more bytes.\<close>

lemma header_trail:
  "exec_header zm data ctx p 0xc4 = Some (Run (ctx\<lparr>ctx_trail := 1, ctx_cs := CS_BIN_8\<rparr>) (p + 1))"
  "exec_header zm data ctx p 0xc5 = Some (Run (ctx\<lparr>ctx_trail := 2, ctx_cs := CS_BIN_16\<rparr>) (p + 1))"
  "exec_header zm data ctx p 0xc6 = Some (Run (ctx\<lparr>ctx_trail := 4, ctx_cs := CS_BIN_32\<rparr>) (p + 1))"
  "exec_header zm data ctx p 0xc7 = Some (Run (ctx\<lparr>ctx_trail := 1, ctx_cs := CS_EXT_8\<rparr>) (p + 1))"
  "exec_header zm data ctx p 0xc8 = Some (Run (ctx\<lparr>ctx_trail := 2, ctx_cs := CS_EXT_16\<rparr>) (p + 1))"
  "exec_header zm data ctx p 0xc9 = Some (Run (ctx\<lparr>ctx_trail := 4, ctx_cs := CS_EXT_32\<rparr>) (p + 1))"
  "exec_header zm data ctx p 0xca = Some (Run (ctx\<lparr>ctx_trail := 4, ctx_cs := CS_FLOAT\<rparr>) (p + 1))"
  "exec_header zm data ctx p 0xcb = Some (Run (ctx\<lparr>ctx_trail := 8, ctx_cs := CS_DOUBLE\<rparr>) (p + 1))"
  "exec_header zm data ctx p 0xcc = Some (Run (ctx\<lparr>ctx_trail := 1, ctx_cs := CS_UINT_8\<rparr>) (p + 1))"
  "exec_header zm data ctx p 0xcd = Some (Run (ctx\<lparr>ctx_trail := 2, ctx_cs := CS_UINT_16\<rparr>) (p + 1))"
  "exec_header zm data ctx p 0xce = Some (Run (ctx\<lparr>ctx_trail := 4, ctx_cs := CS_UINT_32\<rparr>) (p + 1))"
  "exec_header zm data ctx p 0xcf = Some (Run (ctx\<lparr>ctx_trail := 8, ctx_cs := CS_UINT_64\<rparr>) (p + 1))"
  "exec_header zm data ctx p 0xd0 = Some (Run (ctx\<lparr>ctx_trail := 1, ctx_cs := CS_INT_8\<rparr>) (p + 1))"
  "exec_header zm data ctx p 0xd1 = Some (Run (ctx\<lparr>ctx_trail := 2, ctx_cs := CS_INT_16\<rparr>) (p + 1))"
  "exec_header zm data ctx p 0xd2 = Some (Run (ctx\<lparr>ctx_trail := 4, ctx_cs := CS_INT_32\<rparr>) (p + 1))"
  "exec_header zm data ctx p 0xd3 = Some (Run (ctx\<lparr>ctx_trail := 8, ctx_cs := CS_INT_64\<rparr>) (p + 1))"
  "exec_header zm data ctx p 0xd4 = Some (Run (ctx\<lparr>ctx_trail := 2, ctx_cs := ACS_EXT_VALUE\<rparr>) (p + 1))"
  "exec_header zm data ctx p 0xd5 = Some (Run (ctx\<lparr>ctx_trail := 3, ctx_cs := ACS_EXT_VALUE\<rparr>) (p + 1))"
  "exec_header zm data ctx p 0xd6 = Some (Run (ctx\<lparr>ctx_trail := 5, ctx_cs := ACS_EXT_VALUE\<rparr>) (p + 1))"
  "exec_header zm data ctx p 0xd7 = Some (Run (ctx\<lparr>ctx_trail := 9, ctx_cs := ACS_EXT_VALUE\<rparr>) (p + 1))"
  "exec_header zm data ctx p 0xd8 = Some (Run (ctx\<lparr>ctx_trail := 17, ctx_cs := ACS_EXT_VALUE\<rparr>) (p + 1))"
  "exec_header zm data ctx p 0xd9 = Some (Run (ctx\<lparr>ctx_trail := 1, ctx_cs := CS_STR_8\<rparr>) (p + 1))"
  "exec_header zm data ctx p 0xda = Some (Run (ctx\<lparr>ctx_trail := 2, ctx_cs := CS_STR_16\<rparr>) (p + 1))"
  "exec_header zm data ctx p 0xdb = Some (Run (ctx\<lparr>ctx_trail := 4, ctx_cs := CS_STR_32\<rparr>) (p + 1))"
  "exec_header zm data ctx p 0xdc = Some (Run (ctx\<lparr>ctx_trail := 2, ctx_cs := CS_ARRAY_16\<rparr>) (p + 1))"
  "exec_header zm data ctx p 0xdd = Some (Run (ctx\<lparr>ctx_trail := 4, ctx_cs := CS_ARRAY_32\<rparr>) (p + 1))"
  "exec_header zm data ctx p 0xde = Some (Run (ctx\<lparr>ctx_trail := 2, ctx_cs := CS_MAP_16\<rparr>) (p + 1))"
  "exec_header zm data ctx p 0xdf = Some (Run (ctx\<lparr>ctx_trail := 4, ctx_cs := CS_MAP_32\<rparr>) (p + 1))"
  by (simp_all add: exec_header_def again_fixed_trail_def again_fixed_trail_if_zero_def NEXT_CS_def cs_of_nat_def)

lemma header_simple:
  "exec_header zm data ctx p 0xc0 = Some (do_push ctx p OBJECT_NIL)"
  "exec_header zm data ctx p 0xc2 = Some (do_push ctx p (OBJECT_BOOLEAN False))"
  "exec_header zm data ctx p 0xc3 = Some (do_push ctx p (OBJECT_BOOLEAN True))"
  by (simp_all add: exec_header_def template_callback_nil_def template_callback_false_def template_callback_true_def)

text \<open>Narrowing a number that fits and widening it again.\<close>

lemma ucast_ucast_small:
  assumes "unat (d :: 'a::len word) < 2 ^ LENGTH('b)"
  shows "ucast (ucast d :: 'b::len word) = d"
proof (rule word_unat_eq_iff [THEN iffD2])
  have "unat (ucast d :: 'b word) = unat d" using assms by (rule unat_ucast_small)
  moreover have "unat (ucast d :: 'b word) < 2 ^ LENGTH('a)" using calculation unat_lt_exp [of d] by simp
  ultimately show "unat (ucast (ucast d :: 'b word) :: 'a word) = unat d" by (simp add: unat_ucast_small)
qed

lemma sint_ucast_range:
  assumes "- (2 ^ (LENGTH('b) - 1)) \<le> sint (d :: 'a::len word)" and "sint d < 2 ^ (LENGTH('b) - 1)"
    and "LENGTH('b) \<le> LENGTH('a)"
  shows "sint (ucast d :: 'b::len word) = sint d"
proof -
  have "signed_take_bit (LENGTH('b) - 1) (sint d) = sint d"
    using assms(1,2) by (intro signed_take_bit_int_eq_self) auto
  moreover have "sint (ucast d :: 'b word) = signed_take_bit (LENGTH('b) - 1) (uint d)"
    by (simp add: sint_uint unsigned_ucast_eq signed_take_bit_take_bit)
  moreover have "signed_take_bit (LENGTH('b) - 1) (sint d) = signed_take_bit (LENGTH('b) - 1) (uint d)"
    using assms(3) by (simp add: sint_uint min_def)
  ultimately show ?thesis by simp
qed

lemma scast_ucast_range:
  assumes "- (2 ^ (LENGTH('b) - 1)) \<le> sint (d :: 'a::len word)" and "sint d < 2 ^ (LENGTH('b) - 1)"
    and "LENGTH('b) \<le> LENGTH('a)"
  shows "scast (ucast d :: 'b::len word) = d"
  using sint_ucast_range [OF assms] by (simp add: scast_eq)

text \<open>
  \<open>delivers zm data st p n x\<close>: started at a header at \<open>p\<close> with the open containers \<open>st\<close>, the machine
  consumes \<open>n\<close> bytes and then adds the value \<open>x\<close> to the innermost container.
\<close>

definition delivers :: "'z zone_malloc \<Rightarrow> bytes \<Rightarrow> unpack_stack list \<Rightarrow> nat \<Rightarrow> nat \<Rightarrow> msgpack_object \<Rightarrow> bool" where
  "delivers zm data st p n x \<longleftrightarrow> 0 < n \<and>
     (\<forall>ctx. ctx_cs ctx = CS_HEADER \<and> ctx_stack ctx = st \<longrightarrow>
        (\<exists>ctx'. ctx_stack ctx' = st \<and>
           execute_loop zm data ctx p = resume zm data (do_push ctx' (p + n - 1) x)))"

lemma deliversI:
  assumes "0 < n" and "\<And>ctx. ctx_cs ctx = CS_HEADER \<Longrightarrow> ctx_stack ctx = st \<Longrightarrow>
      \<exists>ctx'. ctx_stack ctx' = st \<and> execute_loop zm data ctx p = resume zm data (do_push ctx' (p + n - 1) x)"
  shows "delivers zm data st p n x"
  using assms by (simp add: delivers_def)

lemma deliversE:
  assumes "delivers zm data st p n x" and "ctx_cs ctx = CS_HEADER" and "ctx_stack ctx = st"
  obtains ctx' where "ctx_stack ctx' = st" and "execute_loop zm data ctx p = resume zm data (do_push ctx' (p + n - 1) x)"
  using assms unfolding delivers_def by blast

text \<open>A value that is its own header, and one whose header announces \<open>t\<close> bytes.\<close>

lemma delivers_byte:
  assumes "bytes_at data p [b]"
    and "\<And>ctx :: 'z template_context. exec_header zm data ctx p b = Some (do_push ctx p x)"
  shows "delivers (zm :: 'z zone_malloc) data st p 1 x"
  using assms by (intro deliversI) (auto simp: loop_step execute_step_def bytes_at_Cons rd_def)

lemma delivers_trail:
  assumes "bytes_at data p (b # bs)" and "bs \<noteq> []" and "c \<noteq> CS_HEADER"
    and "\<And>ctx :: 'z template_context. exec_header zm data ctx p b = Some (Run (ctx\<lparr>ctx_trail := t, ctx_cs := c\<rparr>) (p + 1))"
    and "\<And>ctx :: 'z template_context. \<exists>ctx'. ctx_stack ctx' = ctx_stack ctx \<and>
      exec_trail zm data (ctx\<lparr>ctx_trail := t, ctx_cs := c\<rparr>) (p + 1) = Some (do_push ctx' (p + n - 1) x)"
    and "0 < n"
  shows "delivers (zm :: 'z zone_malloc) data st p n x"
proof (rule deliversI)
  fix ctx :: "'z template_context"
  assume cs: "ctx_cs ctx = CS_HEADER" and st: "ctx_stack ctx = st"
  have p: "p < length data" "data ! p = b" "p + 1 < length data"
    using assms(1,2) by (cases bs; auto simp: bytes_at_Cons)+
  from assms(5) obtain ctx' where "ctx_stack ctx' = ctx_stack ctx"
    "exec_trail zm data (ctx\<lparr>ctx_trail := t, ctx_cs := c\<rparr>) (p + 1) = Some (do_push ctx' (p + n - 1) x)" by blast
  with p cs st assms(3,4) show "\<exists>ctx'. ctx_stack ctx' = st \<and>
      execute_loop zm data ctx p = resume zm data (do_push ctx' (p + n - 1) x)"
    by (auto simp: loop_step execute_step_def rd_def)
qed (use assms in simp)

text \<open>The states that complete a number.\<close>

lemma trail_number:
  "bytes_at data n [b] \<Longrightarrow> exec_trail zm data (ctx\<lparr>ctx_trail := 1, ctx_cs := CS_UINT_8\<rparr>) n =
     Some (do_push (ctx\<lparr>ctx_trail := 1, ctx_cs := CS_UINT_8\<rparr>) n (template_callback_uint8 b))"
  "bytes_at data n (be_bytes16 x16) \<Longrightarrow> exec_trail zm data (ctx\<lparr>ctx_trail := 2, ctx_cs := CS_UINT_16\<rparr>) n =
     Some (do_push (ctx\<lparr>ctx_trail := 2, ctx_cs := CS_UINT_16\<rparr>) (n + 1) (template_callback_uint16 x16))"
  "bytes_at data n (be_bytes32 x32) \<Longrightarrow> exec_trail zm data (ctx\<lparr>ctx_trail := 4, ctx_cs := CS_UINT_32\<rparr>) n =
     Some (do_push (ctx\<lparr>ctx_trail := 4, ctx_cs := CS_UINT_32\<rparr>) (n + 3) (template_callback_uint32 x32))"
  "bytes_at data n (be_bytes64 x64) \<Longrightarrow> exec_trail zm data (ctx\<lparr>ctx_trail := 8, ctx_cs := CS_UINT_64\<rparr>) n =
     Some (do_push (ctx\<lparr>ctx_trail := 8, ctx_cs := CS_UINT_64\<rparr>) (n + 7) (template_callback_uint64 x64))"
  "bytes_at data n [b] \<Longrightarrow> exec_trail zm data (ctx\<lparr>ctx_trail := 1, ctx_cs := CS_INT_8\<rparr>) n =
     Some (do_push (ctx\<lparr>ctx_trail := 1, ctx_cs := CS_INT_8\<rparr>) n (template_callback_int8 b))"
  "bytes_at data n (be_bytes16 x16) \<Longrightarrow> exec_trail zm data (ctx\<lparr>ctx_trail := 2, ctx_cs := CS_INT_16\<rparr>) n =
     Some (do_push (ctx\<lparr>ctx_trail := 2, ctx_cs := CS_INT_16\<rparr>) (n + 1) (template_callback_int16 x16))"
  "bytes_at data n (be_bytes32 x32) \<Longrightarrow> exec_trail zm data (ctx\<lparr>ctx_trail := 4, ctx_cs := CS_INT_32\<rparr>) n =
     Some (do_push (ctx\<lparr>ctx_trail := 4, ctx_cs := CS_INT_32\<rparr>) (n + 3) (template_callback_int32 x32))"
  "bytes_at data n (be_bytes64 x64) \<Longrightarrow> exec_trail zm data (ctx\<lparr>ctx_trail := 8, ctx_cs := CS_INT_64\<rparr>) n =
     Some (do_push (ctx\<lparr>ctx_trail := 8, ctx_cs := CS_INT_64\<rparr>) (n + 7) (template_callback_int64 x64))"
  "bytes_at data n (be_bytes64 x64) \<Longrightarrow> exec_trail zm data (ctx\<lparr>ctx_trail := 8, ctx_cs := CS_DOUBLE\<rparr>) n =
     Some (do_push (ctx\<lparr>ctx_trail := 8, ctx_cs := CS_DOUBLE\<rparr>) (n + 7) (template_callback_double x64))"
  "bytes_at data n (be_bytes32 x32) \<Longrightarrow> exec_trail zm data (ctx\<lparr>ctx_trail := 4, ctx_cs := CS_FLOAT\<rparr>) n =
     Some (do_push (ctx\<lparr>ctx_trail := 4, ctx_cs := CS_FLOAT\<rparr>) (n + 3) (template_callback_float x32))"
  using load_at [of data n]
  by (auto simp: exec_trail_def Let_def bytes_at_def rd_def take_Suc_conv_app_nth)

lemma delivers_value:
  assumes "bytes_at data p (b # bs)"
    and "\<And>ctx :: 'z template_context. exec_header zm data ctx p b = Some (Run (ctx\<lparr>ctx_trail := t, ctx_cs := c\<rparr>) (p + 1))"
    and "bs \<noteq> []" and "c \<noteq> CS_HEADER" and "n = Suc (length bs)"
    and "\<And>ctx :: 'z template_context. bytes_at data (p + 1) bs \<Longrightarrow>
      exec_trail zm data (ctx\<lparr>ctx_trail := t, ctx_cs := c\<rparr>) (p + 1) =
        Some (do_push (ctx\<lparr>ctx_trail := t, ctx_cs := c\<rparr>) (p + n - 1) x)"
  shows "delivers (zm :: 'z zone_malloc) data st p n x"
proof (rule delivers_trail [OF assms(1,3,4,2)])
  fix ctx :: "'z template_context"
  have "bytes_at data (p + 1) bs" using assms(1) by (simp add: bytes_at_Cons)
  from assms(6) [OF this] show "\<exists>ctx'. ctx_stack ctx' = ctx_stack ctx \<and>
      exec_trail zm data (ctx\<lparr>ctx_trail := t, ctx_cs := c\<rparr>) (p + 1) = Some (do_push ctx' (p + n - 1) x)"
    by (intro exI [of _ "ctx\<lparr>ctx_trail := t, ctx_cs := c\<rparr>"]) simp
qed (use assms in simp)

lemma be_bytes_nonempty [simp]: "be_bytes16 a \<noteq> []" "be_bytes32 b \<noteq> []" "be_bytes64 c \<noteq> []"
  by (simp_all add: be_bytes16_def be_bytes32_def be_bytes64_def)

lemma delivers_numbers:
  "bytes_at data p [0xcc, b] \<Longrightarrow> delivers zm data st p 2 (template_callback_uint8 b)"
  "bytes_at data p (0xcd # be_bytes16 x16) \<Longrightarrow> delivers zm data st p 3 (template_callback_uint16 x16)"
  "bytes_at data p (0xce # be_bytes32 x32) \<Longrightarrow> delivers zm data st p 5 (template_callback_uint32 x32)"
  "bytes_at data p (0xcf # be_bytes64 x64) \<Longrightarrow> delivers zm data st p 9 (template_callback_uint64 x64)"
  "bytes_at data p [0xd0, b] \<Longrightarrow> delivers zm data st p 2 (template_callback_int8 b)"
  "bytes_at data p (0xd1 # be_bytes16 x16) \<Longrightarrow> delivers zm data st p 3 (template_callback_int16 x16)"
  "bytes_at data p (0xd2 # be_bytes32 x32) \<Longrightarrow> delivers zm data st p 5 (template_callback_int32 x32)"
  "bytes_at data p (0xd3 # be_bytes64 x64) \<Longrightarrow> delivers zm data st p 9 (template_callback_int64 x64)"
  "bytes_at data p (0xcb # be_bytes64 x64) \<Longrightarrow> delivers zm data st p 9 (template_callback_double x64)"
  "bytes_at data p (0xca # be_bytes32 x32) \<Longrightarrow> delivers zm data st p 5 (template_callback_float x32)"
proof -
  show "delivers zm data st p 2 (template_callback_uint8 b)" if "bytes_at data p [0xcc, b]"
    by (rule delivers_value [OF that header_trail(9)]; simp add: trail_number)
  show "delivers zm data st p 3 (template_callback_uint16 x16)" if "bytes_at data p (0xcd # be_bytes16 x16)"
    by (rule delivers_value [OF that header_trail(10)]; simp add: trail_number)
  show "delivers zm data st p 5 (template_callback_uint32 x32)" if "bytes_at data p (0xce # be_bytes32 x32)"
    by (rule delivers_value [OF that header_trail(11)]; simp add: trail_number)
  show "delivers zm data st p 9 (template_callback_uint64 x64)" if "bytes_at data p (0xcf # be_bytes64 x64)"
    by (rule delivers_value [OF that header_trail(12)]; simp add: trail_number)
  show "delivers zm data st p 2 (template_callback_int8 b)" if "bytes_at data p [0xd0, b]"
    by (rule delivers_value [OF that header_trail(13)]; simp add: trail_number)
  show "delivers zm data st p 3 (template_callback_int16 x16)" if "bytes_at data p (0xd1 # be_bytes16 x16)"
    by (rule delivers_value [OF that header_trail(14)]; simp add: trail_number)
  show "delivers zm data st p 5 (template_callback_int32 x32)" if "bytes_at data p (0xd2 # be_bytes32 x32)"
    by (rule delivers_value [OF that header_trail(15)]; simp add: trail_number)
  show "delivers zm data st p 9 (template_callback_int64 x64)" if "bytes_at data p (0xd3 # be_bytes64 x64)"
    by (rule delivers_value [OF that header_trail(16)]; simp add: trail_number)
  show "delivers zm data st p 9 (template_callback_double x64)" if "bytes_at data p (0xcb # be_bytes64 x64)"
    by (rule delivers_value [OF that header_trail(8)]; simp add: trail_number)
  show "delivers zm data st p 5 (template_callback_float x32)" if "bytes_at data p (0xca # be_bytes32 x32)"
    by (rule delivers_value [OF that header_trail(7)]; simp add: trail_number)
qed

lemma delivers_fixnum:
  "bytes_at data p [b] \<Longrightarrow> b \<le> 0x7f \<Longrightarrow> delivers zm data st p 1 (template_callback_uint8 b)"
  "bytes_at data p [b] \<Longrightarrow> 0xe0 \<le> b \<Longrightarrow> delivers zm data st p 1 (template_callback_int8 b)"
  by (erule delivers_byte, simp add: exec_header_def word_le_nat_alt)+

lemma delivers_uint64:
  assumes "bytes_at data p (pack_real_uint64 d)"
  shows "delivers zm data st p (length (pack_real_uint64 d)) (OBJECT_POSITIVE_INTEGER d)"
proof -
  consider "d < 2 ^ 7" | "\<not> d < 2 ^ 7" "d < 2 ^ 8" | "\<not> d < 2 ^ 8" "d < 2 ^ 16" | "\<not> d < 2 ^ 16" "d < 2 ^ 32"
    | "\<not> d < 2 ^ 32" by blast
  then show ?thesis
  proof cases
    case 1
    have "d < 2 ^ 8" using 1 by (rule order_less_trans) simp
    moreover have "unat d < 128" using 1 by (simp add: word_less_nat_alt)
    moreover from this have "(ucast d :: u8) \<le> 0x7f" by (simp add: word_le_nat_alt width_simps)
    ultimately show ?thesis
      using delivers_fixnum(1) [of data p "ucast d"] assms 1 ucast_ucast_small [of d, where 'b = 8]
      by (simp add: pack_real_uint64_def TAKE8_def template_callback_uint8_def)
  next
    case 2
    then show ?thesis
      using delivers_numbers(1) [of data p "ucast d", unfolded numeral_2_eq_2] assms ucast_ucast_small [of d, where 'b = 8]
      by (simp add: pack_real_uint64_def TAKE8_def template_callback_uint8_def word_less_nat_alt)
  next
    case 3
    then show ?thesis
      using delivers_numbers(2) [of data p "ucast d"] assms ucast_ucast_small [of d, where 'b = 16]
      by (simp add: pack_real_uint64_def store16_host template_callback_uint16_def word_less_nat_alt)
  next
    case 4
    then have "\<not> d < 2 ^ 8" by (auto simp: word_less_nat_alt)
    with 4 show ?thesis
      using delivers_numbers(3) [of data p "ucast d"] assms ucast_ucast_small [of d, where 'b = 32]
      by (simp add: pack_real_uint64_def store32_host template_callback_uint32_def word_less_nat_alt)
  next
    case 5
    then have "\<not> d < 2 ^ 8" "\<not> d < 2 ^ 16" by (auto simp: word_less_nat_alt)
    with 5 show ?thesis
      using delivers_numbers(4) [of data p d] assms
      by (simp add: pack_real_uint64_def store64_host template_callback_uint64_def)
  qed
qed

lemma high_byte:
  fixes b :: u8
  assumes "- 32 \<le> sint b" and "sint b < 0"
  shows "0xe0 \<le> b"
proof -
  have "uint b = sint b mod 2 ^ 8" by (subst uint_sint) (simp add: take_bit_eq_mod)
  also have "sint b mod 2 ^ 8 = (sint b + 2 ^ 8) mod 2 ^ 8" by simp
  also have "\<dots> = sint b + 2 ^ 8" using assms by (intro mod_pos_pos_trivial) auto
  finally show ?thesis using assms by (simp add: word_le_def)
qed

lemma delivers_negative:
  assumes "bytes_at data p (pack_real_int64 d)" and "sint d < 0"
  shows "delivers zm data st p (length (pack_real_int64 d)) (OBJECT_NEGATIVE_INTEGER d)"
proof -
  consider "sint d < - (2 ^ 31)" | "- (2 ^ 31) \<le> sint d" "sint d < - (2 ^ 15)"
    | "- (2 ^ 15) \<le> sint d" "sint d < - (2 ^ 7)" | "- (2 ^ 7) \<le> sint d" "sint d < - (2 ^ 5)" | "- (2 ^ 5) \<le> sint d"
    by linarith
  then show ?thesis
  proof cases
    case 1
    then show ?thesis
      using delivers_numbers(8) [of data p d] assms
      by (simp add: pack_real_int64_def store64_host template_callback_int64_def)
  next
    case 2
    then show ?thesis
      using delivers_numbers(7) [of data p "ucast d"] assms sint_ucast_range [of d, where 'b = 32]
        scast_ucast_range [of d, where 'b = 32]
      by (simp add: pack_real_int64_def store32_host template_callback_int32_def)
  next
    case 3
    then show ?thesis
      using delivers_numbers(6) [of data p "ucast d"] assms sint_ucast_range [of d, where 'b = 16]
        scast_ucast_range [of d, where 'b = 16]
      by (simp add: pack_real_int64_def store16_host template_callback_int16_def)
  next
    case 4
    then show ?thesis
      using delivers_numbers(5) [of data p "ucast d", unfolded numeral_2_eq_2] assms sint_ucast_range [of d, where 'b = 8]
        scast_ucast_range [of d, where 'b = 8]
      by (simp add: pack_real_int64_def TAKE8_def template_callback_int8_def)
  next
    case 5
    have s: "sint (ucast d :: u8) = sint d" "scast (ucast d :: u8) = d"
      using 5 assms(2) sint_ucast_range [of d, where 'b = 8] scast_ucast_range [of d, where 'b = 8] by simp_all
    have "0xe0 \<le> (ucast d :: u8)"
      using 5 assms(2) s(1) by (intro high_byte) simp_all
    then show ?thesis
      using delivers_fixnum(2) [of data p "ucast d"] assms 5 s
      by (simp add: pack_real_int64_def TAKE8_def template_callback_int8_def)
  qed
qed

text \<open>The header bytes that carry a small size, computed for each of the sizes.\<close>

lemma fix_headers:
  "list_all (\<lambda>k. let b = 0xa0 OR of_nat k :: u8 in
     \<not> b \<le> 0x7f \<and> \<not> 0xc0 \<le> b \<and> 0xa0 \<le> b \<and> b \<le> 0xbf \<and> (ucast b AND 0x1f :: u32) = of_nat k) [0..<32]"
  "list_all (\<lambda>k. let b = 0x90 OR of_nat k :: u8 in
     \<not> b \<le> 0x7f \<and> \<not> 0xa0 \<le> b \<and> 0x90 \<le> b \<and> b \<le> 0x9f \<and> (ucast b AND 0x0f :: u32) = of_nat k) [0..<16]"
  "list_all (\<lambda>k. let b = 0x80 OR of_nat k :: u8 in
     \<not> b \<le> 0x7f \<and> \<not> 0x90 \<le> b \<and> 0x80 \<le> b \<and> b \<le> 0x8f \<and> (ucast b AND 0x0f :: u32) = of_nat k) [0..<16]"
  by code_simp+

lemma fixstr_header:
  assumes "k < 32"
  shows "exec_header zm data ctx p (0xa0 OR of_nat k) =
    again_fixed_trail_if_zero ctx p ACS_STR_VALUE (of_nat k) (Some (OBJECT_STR []))"
proof -
  let ?b = "0xa0 OR of_nat k :: u8"
  have f: "\<not> ?b \<le> 0x7f" "\<not> 0xc0 \<le> ?b" "0xa0 \<le> ?b" "?b \<le> 0xbf" "(ucast ?b AND 0x1f :: u32) = of_nat k"
    using fix_headers(1) assms by (auto simp: list_all_iff Let_def)
  have "\<not> 0xe0 \<le> ?b" using f(2) by (auto simp: word_le_nat_alt)
  then show ?thesis
    unfolding exec_header_def using f
    by (simp only: if_False if_True simp_thms) (simp add: template_callback_str_def sub_bytes_def)
qed

lemma fixarray_header:
  assumes "k < 16"
  shows "exec_header zm data ctx p (0x90 OR of_nat k) =
    Some (start_container (template_callback_array zm) CT_ARRAY_ITEM ctx p (of_nat k))"
proof -
  let ?b = "0x90 OR of_nat k :: u8"
  have f: "\<not> ?b \<le> 0x7f" "\<not> 0xa0 \<le> ?b" "0x90 \<le> ?b" "?b \<le> 0x9f" "(ucast ?b AND 0x0f :: u32) = of_nat k"
    using fix_headers(2) assms by (auto simp: list_all_iff Let_def)
  have "\<not> 0xe0 \<le> ?b" "\<not> 0xc0 \<le> ?b" using f(2) by (auto simp: word_le_nat_alt)
  then show ?thesis
    unfolding exec_header_def using f by (simp only: if_False if_True simp_thms)
qed

lemma fixmap_header:
  assumes "k < 16"
  shows "exec_header zm data ctx p (0x80 OR of_nat k) =
    Some (start_container (template_callback_map zm) CT_MAP_KEY ctx p (of_nat k))"
proof -
  let ?b = "0x80 OR of_nat k :: u8"
  have f: "\<not> ?b \<le> 0x7f" "\<not> 0x90 \<le> ?b" "0x80 \<le> ?b" "?b \<le> 0x8f" "(ucast ?b AND 0x0f :: u32) = of_nat k"
    using fix_headers(3) assms by (auto simp: list_all_iff Let_def)
  have "\<not> 0xe0 \<le> ?b" "\<not> 0xc0 \<le> ?b" "\<not> 0xa0 \<le> ?b" using f(2) by (auto simp: word_le_nat_alt)
  then show ?thesis
    unfolding exec_header_def using f by (simp only: if_False if_True simp_thms)
qed

lemma unat_size_field: "length xs < 2 ^ 32 \<Longrightarrow> unat (size_field xs) = length xs"
  by (simp add: size_field_def width_simps)

lemma size_field_small: "length xs < 2 ^ 32 \<Longrightarrow> size_field xs = of_nat (length xs)"
  by (rule word_unat_eq_iff [THEN iffD2]) (simp add: unat_size_field unat_of_nat_small)

section \<open>Strings, binaries and extensions\<close>

text \<open>
  \<open>announces zm data st p k c t zero\<close>: the \<open>k\<close> header bytes at \<open>p\<close> make the machine wait for \<open>t\<close>
  bytes in state \<open>c\<close>, or deliver \<open>zero\<close> when \<open>t\<close> is 0.
\<close>

definition announces ::
  "'z zone_malloc \<Rightarrow> bytes \<Rightarrow> unpack_stack list \<Rightarrow> nat \<Rightarrow> nat \<Rightarrow> msgpack_unpack_state \<Rightarrow> u32 \<Rightarrow>
   msgpack_object option \<Rightarrow> bool" where
  "announces zm data st p k c t zero \<longleftrightarrow> 0 < k \<and>
     (\<forall>ctx. ctx_cs ctx = CS_HEADER \<and> ctx_stack ctx = st \<longrightarrow>
        (\<exists>ctx'. ctx_stack ctx' = st \<and> execute_loop zm data ctx p =
           Option.bind (again_fixed_trail_if_zero ctx' (p + k - 1) c t zero) (resume zm data)))"

lemma announces_byte:
  assumes "bytes_at data p [b]"
    and "\<And>ctx :: 'z template_context. exec_header zm data ctx p b = again_fixed_trail_if_zero ctx p c t zero"
  shows "announces (zm :: 'z zone_malloc) data st p 1 c t zero"
  using assms by (auto simp: announces_def loop_step execute_step_def bytes_at_Cons rd_def)

lemma announces_trail:
  assumes "bytes_at data p (b # bs)"
    and "\<And>ctx :: 'z template_context. exec_header zm data ctx p b = Some (Run (ctx\<lparr>ctx_trail := t0, ctx_cs := c0\<rparr>) (p + 1))"
    and "bs \<noteq> []" and "c0 \<noteq> CS_HEADER" and "k = Suc (length bs)"
    and "\<And>ctx :: 'z template_context. bytes_at data (p + 1) bs \<Longrightarrow>
      exec_trail zm data (ctx\<lparr>ctx_trail := t0, ctx_cs := c0\<rparr>) (p + 1) =
        again_fixed_trail_if_zero (ctx\<lparr>ctx_trail := t0, ctx_cs := c0\<rparr>) (p + k - 1) c t zero"
  shows "announces (zm :: 'z zone_malloc) data st p k c t zero"
  unfolding announces_def
proof (intro conjI allI impI, goal_cases)
  case (2 ctx)
  have p: "p < length data" "data ! p = b" "p + 1 < length data" "bytes_at data (p + 1) bs"
    using assms(1,3) by (cases bs; auto simp: bytes_at_Cons)+
  with 2 assms(2,4,6) show ?case
    by (intro exI [of _ "ctx\<lparr>ctx_trail := t0, ctx_cs := c0\<rparr>"]) (auto simp: loop_step execute_step_def rd_def)
qed (use assms in simp)

text \<open>The states that read a length.\<close>

lemma trail_length:
  "bytes_at data n [b] \<Longrightarrow> exec_trail zm data (ctx\<lparr>ctx_trail := 1, ctx_cs := CS_STR_8\<rparr>) n =
     again_fixed_trail_if_zero (ctx\<lparr>ctx_trail := 1, ctx_cs := CS_STR_8\<rparr>) n ACS_STR_VALUE (ucast b) (Some (OBJECT_STR []))"
  "bytes_at data n (be_bytes16 x16) \<Longrightarrow> exec_trail zm data (ctx\<lparr>ctx_trail := 2, ctx_cs := CS_STR_16\<rparr>) n =
     again_fixed_trail_if_zero (ctx\<lparr>ctx_trail := 2, ctx_cs := CS_STR_16\<rparr>) (n + 1) ACS_STR_VALUE (ucast x16) (Some (OBJECT_STR []))"
  "bytes_at data n (be_bytes32 x32) \<Longrightarrow> exec_trail zm data (ctx\<lparr>ctx_trail := 4, ctx_cs := CS_STR_32\<rparr>) n =
     again_fixed_trail_if_zero (ctx\<lparr>ctx_trail := 4, ctx_cs := CS_STR_32\<rparr>) (n + 3) ACS_STR_VALUE x32 (Some (OBJECT_STR []))"
  "bytes_at data n [b] \<Longrightarrow> exec_trail zm data (ctx\<lparr>ctx_trail := 1, ctx_cs := CS_BIN_8\<rparr>) n =
     again_fixed_trail_if_zero (ctx\<lparr>ctx_trail := 1, ctx_cs := CS_BIN_8\<rparr>) n ACS_BIN_VALUE (ucast b) (Some (OBJECT_BIN []))"
  "bytes_at data n (be_bytes16 x16) \<Longrightarrow> exec_trail zm data (ctx\<lparr>ctx_trail := 2, ctx_cs := CS_BIN_16\<rparr>) n =
     again_fixed_trail_if_zero (ctx\<lparr>ctx_trail := 2, ctx_cs := CS_BIN_16\<rparr>) (n + 1) ACS_BIN_VALUE (ucast x16) (Some (OBJECT_BIN []))"
  "bytes_at data n (be_bytes32 x32) \<Longrightarrow> exec_trail zm data (ctx\<lparr>ctx_trail := 4, ctx_cs := CS_BIN_32\<rparr>) n =
     again_fixed_trail_if_zero (ctx\<lparr>ctx_trail := 4, ctx_cs := CS_BIN_32\<rparr>) (n + 3) ACS_BIN_VALUE x32 (Some (OBJECT_BIN []))"
  "bytes_at data n [b] \<Longrightarrow> exec_trail zm data (ctx\<lparr>ctx_trail := 1, ctx_cs := CS_EXT_8\<rparr>) n =
     again_fixed_trail_if_zero (ctx\<lparr>ctx_trail := 1, ctx_cs := CS_EXT_8\<rparr>) n ACS_EXT_VALUE (ucast b + 1) (template_callback_ext data n 0)"
  "bytes_at data n (be_bytes16 x16) \<Longrightarrow> exec_trail zm data (ctx\<lparr>ctx_trail := 2, ctx_cs := CS_EXT_16\<rparr>) n =
     again_fixed_trail_if_zero (ctx\<lparr>ctx_trail := 2, ctx_cs := CS_EXT_16\<rparr>) (n + 1) ACS_EXT_VALUE (ucast x16 + 1) (template_callback_ext data n 0)"
  "bytes_at data n (be_bytes32 x32) \<Longrightarrow> exec_trail zm data (ctx\<lparr>ctx_trail := 4, ctx_cs := CS_EXT_32\<rparr>) n =
     again_fixed_trail_if_zero (ctx\<lparr>ctx_trail := 4, ctx_cs := CS_EXT_32\<rparr>) (n + 3) ACS_EXT_VALUE (x32 + 1) (template_callback_ext data n 0)"
  using load_at [of data n]
  by (auto simp: exec_trail_def Let_def bytes_at_def rd_def take_Suc_conv_app_nth template_callback_str_def
      template_callback_bin_def sub_bytes_def)

lemma announces_lengths:
  "bytes_at data p [0xd9, b] \<Longrightarrow> announces zm data st p 2 ACS_STR_VALUE (ucast b) (Some (OBJECT_STR []))"
  "bytes_at data p (0xda # be_bytes16 x16) \<Longrightarrow> announces zm data st p 3 ACS_STR_VALUE (ucast x16) (Some (OBJECT_STR []))"
  "bytes_at data p (0xdb # be_bytes32 x32) \<Longrightarrow> announces zm data st p 5 ACS_STR_VALUE x32 (Some (OBJECT_STR []))"
  "bytes_at data p [0xc4, b] \<Longrightarrow> announces zm data st p 2 ACS_BIN_VALUE (ucast b) (Some (OBJECT_BIN []))"
  "bytes_at data p (0xc5 # be_bytes16 x16) \<Longrightarrow> announces zm data st p 3 ACS_BIN_VALUE (ucast x16) (Some (OBJECT_BIN []))"
  "bytes_at data p (0xc6 # be_bytes32 x32) \<Longrightarrow> announces zm data st p 5 ACS_BIN_VALUE x32 (Some (OBJECT_BIN []))"
  "bytes_at data p [0xc7, b] \<Longrightarrow> announces zm data st p 2 ACS_EXT_VALUE (ucast b + 1) (template_callback_ext data (p + 1) 0)"
  "bytes_at data p (0xc8 # be_bytes16 x16) \<Longrightarrow> announces zm data st p 3 ACS_EXT_VALUE (ucast x16 + 1) (template_callback_ext data (p + 1) 0)"
  "bytes_at data p (0xc9 # be_bytes32 x32) \<Longrightarrow> announces zm data st p 5 ACS_EXT_VALUE (x32 + 1) (template_callback_ext data (p + 1) 0)"
proof -
  show "announces zm data st p 2 ACS_STR_VALUE (ucast b) (Some (OBJECT_STR []))" if "bytes_at data p [0xd9, b]"
    by (rule announces_trail [OF that header_trail(22)]; simp add: trail_length)
  show "announces zm data st p 3 ACS_STR_VALUE (ucast x16) (Some (OBJECT_STR []))" if "bytes_at data p (0xda # be_bytes16 x16)"
    by (rule announces_trail [OF that header_trail(23)]; simp add: trail_length)
  show "announces zm data st p 5 ACS_STR_VALUE x32 (Some (OBJECT_STR []))" if "bytes_at data p (0xdb # be_bytes32 x32)"
    by (rule announces_trail [OF that header_trail(24)]; simp add: trail_length)
  show "announces zm data st p 2 ACS_BIN_VALUE (ucast b) (Some (OBJECT_BIN []))" if "bytes_at data p [0xc4, b]"
    by (rule announces_trail [OF that header_trail(1)]; simp add: trail_length)
  show "announces zm data st p 3 ACS_BIN_VALUE (ucast x16) (Some (OBJECT_BIN []))" if "bytes_at data p (0xc5 # be_bytes16 x16)"
    by (rule announces_trail [OF that header_trail(2)]; simp add: trail_length)
  show "announces zm data st p 5 ACS_BIN_VALUE x32 (Some (OBJECT_BIN []))" if "bytes_at data p (0xc6 # be_bytes32 x32)"
    by (rule announces_trail [OF that header_trail(3)]; simp add: trail_length)
  show "announces zm data st p 2 ACS_EXT_VALUE (ucast b + 1) (template_callback_ext data (p + 1) 0)" if "bytes_at data p [0xc7, b]"
    by (rule announces_trail [OF that header_trail(4)]; simp add: trail_length)
  show "announces zm data st p 3 ACS_EXT_VALUE (ucast x16 + 1) (template_callback_ext data (p + 1) 0)" if "bytes_at data p (0xc8 # be_bytes16 x16)"
    by (rule announces_trail [OF that header_trail(5)]; simp add: trail_length)
  show "announces zm data st p 5 ACS_EXT_VALUE (x32 + 1) (template_callback_ext data (p + 1) 0)" if "bytes_at data p (0xc9 # be_bytes32 x32)"
    by (rule announces_trail [OF that header_trail(6)]; simp add: trail_length)
qed

text \<open>The states that wait for the bytes of the value.\<close>

lemma unat_pred: "unat t = Suc k \<Longrightarrow> unat (t - 1) = k"
  by (metis diff_Suc_1 unat_eq_zero unat_minus_one zero_neq_one nat.distinct(1))

lemma trail_body:
  assumes "bytes_at data n bs" and "bs \<noteq> []" and "unat t = length bs"
  shows "ctx_cs ctx = ACS_STR_VALUE \<Longrightarrow> ctx_trail ctx = t \<Longrightarrow> exec_trail zm data ctx n =
      push_variable ctx (n + length bs - 1) (Some (OBJECT_STR bs))"
    and "ctx_cs ctx = ACS_BIN_VALUE \<Longrightarrow> ctx_trail ctx = t \<Longrightarrow> exec_trail zm data ctx n =
      push_variable ctx (n + length bs - 1) (Some (OBJECT_BIN bs))"
    and "ctx_cs ctx = ACS_EXT_VALUE \<Longrightarrow> ctx_trail ctx = t \<Longrightarrow> exec_trail zm data ctx n =
      push_variable ctx (n + length bs - 1) (Some (OBJECT_EXT (hd bs) (tl bs)))"
proof -
  obtain b bs' where bs: "bs = b # bs'" using assms(2) by (cases bs) auto
  have "unat (t - 1) = length bs'" using assms(3) bs by (simp add: unat_pred)
  moreover have "sub_bytes data n (unat t) = Some bs" using bytes_at_sub [OF assms(1)] assms(3) by simp
  moreover have "sub_bytes data (n + 1) (length bs') = Some bs'" "rd data n = Some b"
    using assms(1) bs by (auto simp: bytes_at_Cons rd_def intro!: bytes_at_sub)
  moreover have "\<not> length data - n < unat t" using assms(1,3) by (auto simp: bytes_at_def)
  ultimately show "ctx_cs ctx = ACS_STR_VALUE \<Longrightarrow> ctx_trail ctx = t \<Longrightarrow> exec_trail zm data ctx n =
      push_variable ctx (n + length bs - 1) (Some (OBJECT_STR bs))"
    and "ctx_cs ctx = ACS_BIN_VALUE \<Longrightarrow> ctx_trail ctx = t \<Longrightarrow> exec_trail zm data ctx n =
      push_variable ctx (n + length bs - 1) (Some (OBJECT_BIN bs))"
    and "ctx_cs ctx = ACS_EXT_VALUE \<Longrightarrow> ctx_trail ctx = t \<Longrightarrow> exec_trail zm data ctx n =
      push_variable ctx (n + length bs - 1) (Some (OBJECT_EXT (hd bs) (tl bs)))"
    using bs by (simp_all add: exec_trail_def Let_def template_callback_str_def template_callback_bin_def
        template_callback_ext_def rd_def)
qed

lemma delivers_announced:
  assumes "announces (zm :: 'z zone_malloc) data st p k c t zero" and "bytes_at data (p + k) bs" and "unat t = length bs"
    and "c \<noteq> CS_HEADER" and "bs = [] \<Longrightarrow> zero = Some x"
    and "\<And>ctx :: 'z template_context. bs \<noteq> [] \<Longrightarrow> ctx_cs ctx = c \<Longrightarrow> ctx_trail ctx = t \<Longrightarrow>
      exec_trail zm data ctx (p + k) = push_variable ctx (p + k + length bs - 1) (Some x)"
  shows "delivers zm data st p (k + length bs) x"
proof (rule deliversI)
  fix ctx :: "'z template_context"
  assume "ctx_cs ctx = CS_HEADER" "ctx_stack ctx = st"
  with assms(1) obtain ctx' where c': "ctx_stack ctx' = st" "execute_loop zm data ctx p =
      Option.bind (again_fixed_trail_if_zero ctx' (p + k - 1) c t zero) (resume zm data)"
    unfolding announces_def by blast
  show "\<exists>ctx'. ctx_stack ctx' = st \<and> execute_loop zm data ctx p = resume zm data (do_push ctx' (p + (k + length bs) - 1) x)"
  proof (cases "bs = []")
    case True
    with assms(3) have "t = 0" by (simp add: unat_eq_zero)
    with True c' assms(5) show ?thesis
      by (auto simp: again_fixed_trail_if_zero_def push_variable_def
          intro!: exI [of _ "ctx'\<lparr>ctx_trail := 0, ctx_user := (ctx_user ctx')\<lparr>referenced := True\<rparr>\<rparr>"])
  next
    case False
    with assms(3) have "t \<noteq> 0" by auto
    moreover have "p + k < length data" using False assms(2) by (cases bs) (auto simp: bytes_at_def)
    moreover have "0 < k" using assms(1) by (simp add: announces_def)
    ultimately have "execute_loop zm data ctx p =
        Option.bind (exec_trail zm data (ctx'\<lparr>ctx_trail := t, ctx_cs := c\<rparr>) (p + k)) (resume zm data)"
      using c' assms(4) by (simp add: again_fixed_trail_if_zero_def again_fixed_trail_def loop_step execute_step_def)
    with False assms(6) c'(1) show ?thesis
      by (intro exI [of _ "ctx'\<lparr>ctx_trail := t, ctx_cs := c, ctx_user := (ctx_user ctx')\<lparr>referenced := True\<rparr>\<rparr>"])
        (simp add: push_variable_def add.assoc)
  qed
qed (use assms(1) in \<open>simp add: announces_def\<close>)


lemma nat_word32: "k < 2 ^ 32 \<Longrightarrow> unat (of_nat k :: u32) = k"
  by (simp add: unat_of_nat_small)

text \<open>Sizes narrowed to the field of their format.\<close>

lemma size_ucast:
  assumes "length s < 2 ^ 32"
  shows "size_field s < 32 \<longleftrightarrow> length s < 32" "size_field s < 16 \<longleftrightarrow> length s < 16"
    "size_field s < 256 \<longleftrightarrow> length s < 256" "size_field s < 65536 \<longleftrightarrow> length s < 65536"
    "(ucast (size_field s) :: u8) = of_nat (length s)" "(ucast (size_field s) :: u32) = of_nat (length s)"
    "(ucast (size_field s) :: u16) = of_nat (length s)"
proof -
  show "(ucast (size_field s) :: u8) = of_nat (length s)" "(ucast (size_field s) :: u32) = of_nat (length s)"
    "(ucast (size_field s) :: u16) = of_nat (length s)"
    using assms by (simp_all add: size_field_small ucast_of_nat_narrow)
qed (use assms in \<open>simp_all add: word_less_nat_alt unat_size_field\<close>)

lemma ucast_len:
  "l < 256 \<Longrightarrow> (ucast (of_nat l :: u8) :: u32) = of_nat l" "l < 65536 \<Longrightarrow> (ucast (of_nat l :: u16) :: u32) = of_nat l"
  by (simp_all add: word_unat_eq_iff width_simps)

text \<open>The header the packer writes announces the size.\<close>

lemma announces_str:
  assumes "length s < 2 ^ 32" and "bytes_at data p (pack_str (size_field s))"
  shows "announces zm data st p (length (pack_str (size_field s))) ACS_STR_VALUE (of_nat (length s)) (Some (OBJECT_STR []))"
proof -
  consider "length s < 32" | "\<not> length s < 32" "length s < 256" | "\<not> length s < 32" "\<not> length s < 256" "length s < 65536"
    | "\<not> length s < 32" "\<not> length s < 256" "\<not> length s < 65536" by linarith
  then show ?thesis
  proof cases
    case 1
    then have "announces zm data st p 1 ACS_STR_VALUE (of_nat (length s)) (Some (OBJECT_STR []))"
      using assms by (intro announces_byte [of data p "0xa0 OR of_nat (length s)"])
        (simp_all add: pack_str_def size_ucast fixstr_header)
    with 1 assms(1) show ?thesis by (simp add: pack_str_def size_ucast)
  next
    case 2
    then show ?thesis
      using assms announces_lengths(1) [of data p "of_nat (length s)", unfolded numeral_2_eq_2]
      by (simp add: pack_str_def size_ucast ucast_len)
  next
    case 3
    then show ?thesis
      using assms announces_lengths(2) [of data p "of_nat (length s)"]
      by (simp add: pack_str_def size_ucast store16_host ucast_len)
  next
    case 4
    then show ?thesis
      using assms announces_lengths(3) [of data p "of_nat (length s)"]
      by (simp add: pack_str_def size_ucast store32_host)
  qed
qed

lemma announces_bin:
  assumes "length s < 2 ^ 32" and "bytes_at data p (pack_bin (size_field s))"
  shows "announces zm data st p (length (pack_bin (size_field s))) ACS_BIN_VALUE (of_nat (length s)) (Some (OBJECT_BIN []))"
proof -
  consider "length s < 256" | "\<not> length s < 256" "length s < 65536" | "\<not> length s < 256" "\<not> length s < 65536"
    by linarith
  then show ?thesis
  proof cases
    case 1
    then show ?thesis
      using assms announces_lengths(4) [of data p "of_nat (length s)", unfolded numeral_2_eq_2]
      by (simp add: pack_bin_def size_ucast ucast_len)
  next
    case 2
    then show ?thesis
      using assms announces_lengths(5) [of data p "of_nat (length s)"]
      by (simp add: pack_bin_def size_ucast store16_host ucast_len)
  next
    case 3
    then show ?thesis
      using assms announces_lengths(6) [of data p "of_nat (length s)"]
      by (simp add: pack_bin_def size_ucast store32_host)
  qed
qed

lemma delivers_str:
  assumes "length s < 2 ^ 32" and "bytes_at data p (pack_str (size_field s) @ s)"
  shows "delivers zm data st p (length (pack_str (size_field s) @ s)) (OBJECT_STR s)"
proof -
  have hb: "bytes_at data p (pack_str (size_field s))" "bytes_at data (p + length (pack_str (size_field s))) s"
    and n: "unat (of_nat (length s) :: u32) = length s"
    using assms by (simp_all add: bytes_at_append nat_word32)
  show ?thesis unfolding length_append
    by (rule delivers_announced [OF announces_str [OF assms(1) hb(1)] hb(2) n])
      (simp_all add: trail_body(1) [OF hb(2) _ n])
qed

lemma delivers_bin:
  assumes "length s < 2 ^ 32" and "bytes_at data p (pack_bin (size_field s) @ s)"
  shows "delivers zm data st p (length (pack_bin (size_field s) @ s)) (OBJECT_BIN s)"
proof -
  have hb: "bytes_at data p (pack_bin (size_field s))" "bytes_at data (p + length (pack_bin (size_field s))) s"
    and n: "unat (of_nat (length s) :: u32) = length s"
    using assms by (simp_all add: bytes_at_append nat_word32)
  show ?thesis unfolding length_append
    by (rule delivers_announced [OF announces_bin [OF assms(1) hb(1)] hb(2) n])
      (simp_all add: trail_body(2) [OF hb(2) _ n])
qed

text \<open>The header of an extension without its type, which belongs to the bytes it announces.\<close>

definition ext_head :: "nat \<Rightarrow> bytes" where
  "ext_head l =
     (if l = 1 then [0xd4] else if l = 2 then [0xd5] else if l = 4 then [0xd6] else if l = 8 then [0xd7]
      else if l = 16 then [0xd8] else if l < 256 then [0xc7, of_nat l]
      else if l < 65536 then 0xc8 # be_bytes16 (of_nat l) else 0xc9 # be_bytes32 (of_nat l))"

lemma pack_ext_head:
  assumes "length s < 2 ^ 32"
  shows "pack_ext (size_field s) t = ext_head (length s) @ [t]"
proof -
  have "size_field s = k \<longleftrightarrow> length s = unat k" for k
    using assms by (simp add: word_unat_eq_iff unat_size_field)
  then show ?thesis
    using assms by (simp add: pack_ext_def ext_head_def size_ucast store16_host store32_host)
qed

lemma announces_fixext:
  "bytes_at data p [0xd4] \<Longrightarrow> announces zm data st p (Suc 0) ACS_EXT_VALUE 2 None"
  "bytes_at data p [0xd5] \<Longrightarrow> announces zm data st p (Suc 0) ACS_EXT_VALUE 3 None"
  "bytes_at data p [0xd6] \<Longrightarrow> announces zm data st p (Suc 0) ACS_EXT_VALUE 5 None"
  "bytes_at data p [0xd7] \<Longrightarrow> announces zm data st p (Suc 0) ACS_EXT_VALUE 9 None"
  "bytes_at data p [0xd8] \<Longrightarrow> announces zm data st p (Suc 0) ACS_EXT_VALUE 17 None"
  unfolding One_nat_def [symmetric]
  by (rule announces_byte, assumption, simp add: header_trail again_fixed_trail_if_zero_def again_fixed_trail_def)+

lemma announces_ext:
  assumes "l + 1 < 2 ^ 32" and "bytes_at data p (ext_head l)"
  shows "\<exists>zero. announces zm data st p (length (ext_head l)) ACS_EXT_VALUE (of_nat (l + 1)) zero"
proof -
  consider "l \<in> {1, 2, 4, 8, 16}" | "l \<notin> {1, 2, 4, 8, 16}" "l < 256" | "l \<notin> {1, 2, 4, 8, 16}" "\<not> l < 256" "l < 65536"
    | "l \<notin> {1, 2, 4, 8, 16}" "\<not> l < 256" "\<not> l < 65536" by blast
  then show ?thesis
  proof cases
    case 1
    then show ?thesis
      using assms(2) announces_fixext [of data p zm st] by (auto simp: ext_head_def)
  next
    case 2
    then show ?thesis
      using assms(2) announces_lengths(7) [of data p "of_nat l" zm st, unfolded numeral_2_eq_2]
      by (intro exI) (simp add: ext_head_def add.commute ucast_len)
  next
    case 3
    then show ?thesis
      using assms(2) announces_lengths(8) [of data p "of_nat l" zm st, unfolded numeral_3_eq_3]
      by (intro exI [of _ "template_callback_ext data (p + 1) 0"]) (simp add: ext_head_def add.commute ucast_len)
  next
    case 4
    then show ?thesis
      using assms(2) announces_lengths(9) [of data p "of_nat l" zm st]
      by (intro exI [of _ "template_callback_ext data (p + 1) 0"]) (simp add: ext_head_def add.commute)
  qed
qed

lemma delivers_ext:
  assumes "length s + 1 < 2 ^ 32" and "bytes_at data p (pack_ext (size_field s) t @ s)"
  shows "delivers zm data st p (length (pack_ext (size_field s) t @ s)) (OBJECT_EXT t s)"
proof -
  have e: "pack_ext (size_field s) t @ s = ext_head (length s) @ (t # s)"
    using assms(1) by (simp add: pack_ext_head)
  have hb: "bytes_at data p (ext_head (length s))" "bytes_at data (p + length (ext_head (length s))) (t # s)"
    using assms(2) unfolding e by (simp_all add: bytes_at_append)
  have n: "unat (of_nat (length s + 1) :: u32) = length (t # s)"
    using nat_word32 [OF assms(1)] by simp
  obtain zero where a: "announces zm data st p (length (ext_head (length s))) ACS_EXT_VALUE (of_nat (length s + 1)) zero"
    using announces_ext [OF assms(1) hb(1), of zm st] by blast
  show ?thesis unfolding e length_append
    by (rule delivers_announced [OF a hb(2) n]) (simp_all add: trail_body(3) [OF hb(2) _ n])
qed

section \<open>Arrays and maps\<close>

text \<open>A zone that never runs out of memory.\<close>

definition zone_total :: "'z zone_malloc \<Rightarrow> bool" where
  "zone_total zm \<longleftrightarrow> (\<forall>z n. zm z n \<noteq> None)"

lemma do_push_frame:
  "template_push (ctx_stack ctx) x = template_push st y \<Longrightarrow> do_push ctx p x = do_push (ctx\<lparr>ctx_stack := st\<rparr>) p y"
  by (simp add: do_push_def split: sum.splits)

definition array_frame :: "msgpack_object \<Rightarrow> msgpack_object list \<Rightarrow> nat \<Rightarrow> unpack_stack" where
  "array_frame key acc m =
     \<lparr>st_obj = OBJECT_ARRAY acc, st_count = of_nat m, st_ct = CT_ARRAY_ITEM, st_map_key = key\<rparr>"

definition map_frame :: "msgpack_object \<Rightarrow> (msgpack_object \<times> msgpack_object) list \<Rightarrow> nat \<Rightarrow> msgpack_container_type \<Rightarrow> unpack_stack" where
  "map_frame key acc m ct =
     \<lparr>st_obj = OBJECT_MAP acc, st_count = of_nat m, st_ct = ct, st_map_key = key\<rparr>"

lemma count_zero: "m < 2 ^ 32 \<Longrightarrow> (of_nat m :: u64) = 0 \<longleftrightarrow> m = 0"
  by (simp add: word_unat_eq_iff unat_of_nat_small)

lemma push_array_item:
  assumes "m < 2 ^ 32"
  shows "template_push (array_frame key acc (Suc m) # st) x =
    (if m = 0 then template_push st (OBJECT_ARRAY (acc @ [x])) else Inl (array_frame key (acc @ [x]) m # st))"
  using count_zero [OF assms] by (simp add: array_frame_def template_callback_array_item_def)

lemma push_map_key:
  "template_push (map_frame key acc m CT_MAP_KEY # st) x = Inl (map_frame x acc m CT_MAP_VALUE # st)"
  by (simp add: map_frame_def)

lemma push_map_value:
  assumes "m < 2 ^ 32"
  shows "template_push (map_frame key acc (Suc m) CT_MAP_VALUE # st) x =
    (if m = 0 then template_push st (OBJECT_MAP (acc @ [(key, x)]))
     else Inl (map_frame key (acc @ [(key, x)]) m CT_MAP_KEY # st))"
  using count_zero [OF assms] by (simp add: map_frame_def template_callback_map_item_def)

declare template_push.simps(2) [simp del]

text \<open>Delivering an item that is not the last leaves the container open for the next one.\<close>

lemma deliver_inner:
  assumes "delivers zm data st p n x" and "ctx_cs ctx = CS_HEADER" and "ctx_stack ctx = st" and "template_push st x = Inl st'"
  shows "\<exists>ctx'. ctx_cs ctx' = CS_HEADER \<and> ctx_stack ctx' = st' \<and> execute_loop zm data ctx p = execute_loop zm data ctx' (p + n)"
proof -
  obtain c where c: "ctx_stack c = st" "execute_loop zm data ctx p = resume zm data (do_push c (p + n - 1) x)"
    using assms(1-3) by (rule deliversE)
  moreover have "0 < n" using assms(1) by (simp add: delivers_def)
  ultimately show ?thesis
    using assms(4) by (intro exI [of _ "c\<lparr>ctx_stack := st', ctx_cs := CS_HEADER\<rparr>"]) (simp add: do_push_def)
qed

lemma deliver_last:
  assumes "delivers zm data st p n x" and "ctx_cs ctx = CS_HEADER" and "ctx_stack ctx = st"
    and "template_push st x = template_push st' y"
  shows "\<exists>ctx'. ctx_stack ctx' = st' \<and> execute_loop zm data ctx p = resume zm data (do_push ctx' (p + n - 1) y)"
proof -
  obtain c where c: "ctx_stack c = st" "execute_loop zm data ctx p = resume zm data (do_push c (p + n - 1) x)"
    using assms(1-3) by (rule deliversE)
  with do_push_frame [of c x st' y] assms(4) show ?thesis by (intro exI [of _ "c\<lparr>ctx_stack := st'\<rparr>"]) simp
qed

lemma array_inner:
  assumes "delivers zm data (array_frame key acc (Suc m) # st) p n x" and "ctx_cs ctx = CS_HEADER"
    and "ctx_stack ctx = array_frame key acc (Suc m) # st" and "m < 2 ^ 32" and "m \<noteq> 0"
  shows "\<exists>ctx'. ctx_cs ctx' = CS_HEADER \<and> ctx_stack ctx' = array_frame key (acc @ [x]) m # st \<and>
    execute_loop zm data ctx p = execute_loop zm data ctx' (p + n)"
  using assms by (intro deliver_inner [OF assms(1)]) (simp_all add: push_array_item)

lemma map_key_inner:
  assumes "delivers zm data (map_frame key acc m CT_MAP_KEY # st) p n k" and "ctx_cs ctx = CS_HEADER"
    and "ctx_stack ctx = map_frame key acc m CT_MAP_KEY # st"
  shows "\<exists>ctx'. ctx_cs ctx' = CS_HEADER \<and> ctx_stack ctx' = map_frame k acc m CT_MAP_VALUE # st \<and>
    execute_loop zm data ctx p = execute_loop zm data ctx' (p + n)"
  using assms by (intro deliver_inner [OF assms(1)]) (simp_all add: push_map_key)

lemma map_value_inner:
  assumes "delivers zm data (map_frame k acc (Suc m) CT_MAP_VALUE # st) p n v" and "ctx_cs ctx = CS_HEADER"
    and "ctx_stack ctx = map_frame k acc (Suc m) CT_MAP_VALUE # st" and "m < 2 ^ 32" and "m \<noteq> 0"
  shows "\<exists>ctx'. ctx_cs ctx' = CS_HEADER \<and> ctx_stack ctx' = map_frame k (acc @ [(k, v)]) m CT_MAP_KEY # st \<and>
    execute_loop zm data ctx p = execute_loop zm data ctx' (p + n)"
  using assms by (intro deliver_inner [OF assms(1)]) (simp_all add: push_map_value)

text \<open>Every item of a container is delivered in turn, and then the container itself.\<close>

lemma array_items_loop:
  fixes zm :: "'z zone_malloc"
  assumes "\<And>x p st'. x \<in> set xs \<Longrightarrow> length st' = Suc (length st) \<Longrightarrow> bytes_at data p (encode x) \<Longrightarrow>
      delivers zm data st' p (length (encode x)) x"
    and "xs \<noteq> []" and "length xs < 2 ^ 32" and "bytes_at data p (concat (map encode xs))"
    and "ctx_cs ctx = CS_HEADER" and "ctx_stack ctx = array_frame key acc (length xs) # st"
  shows "\<exists>ctx'. ctx_stack ctx' = st \<and> execute_loop zm data ctx p =
    resume zm data (do_push ctx' (p + length (concat (map encode xs)) - 1) (OBJECT_ARRAY (acc @ xs)))"
  using assms
proof (induction xs arbitrary: p acc ctx)
  case (Cons x xs)
  let ?n = "length (encode x)" and ?f = "array_frame key acc (Suc (length xs))"
  have at: "bytes_at data p (encode x)" "bytes_at data (p + ?n) (concat (map encode xs))"
    using Cons.prems(4) by (simp_all add: bytes_at_append)
  have d: "delivers zm data (?f # st) p ?n x" using Cons.prems(1) at(1) by simp
  have m: "length xs < 2 ^ 32" using Cons.prems(3) by simp
  have st: "ctx_stack ctx = ?f # st" using Cons.prems(6) by simp
  show ?case
  proof (cases "xs = []")
    case True
    have "\<exists>ctx'. ctx_stack ctx' = st \<and> execute_loop zm data ctx p =
        resume zm data (do_push ctx' (p + ?n - 1) (OBJECT_ARRAY (acc @ [x])))"
      by (rule deliver_last [OF d Cons.prems(5) st]) (use True push_array_item [OF m] in simp)
    with True show ?thesis by simp
  next
    case False
    then obtain c2 where c2: "ctx_cs c2 = CS_HEADER" "ctx_stack c2 = array_frame key (acc @ [x]) (length xs) # st"
      "execute_loop zm data ctx p = execute_loop zm data c2 (p + ?n)"
      using array_inner [OF d Cons.prems(5) st m] by auto
    have "\<exists>ctx'. ctx_stack ctx' = st \<and> execute_loop zm data c2 (p + ?n) =
        resume zm data (do_push ctx' (p + ?n + length (concat (map encode xs)) - 1) (OBJECT_ARRAY ((acc @ [x]) @ xs)))"
      using False m at(2) c2 Cons.prems(1) by (intro Cons.IH) auto
    then show ?thesis unfolding c2(3) by (simp add: add.assoc)
  qed
qed simp

lemma map_items_loop:
  fixes zm :: "'z zone_malloc"
  assumes "\<And>k v x p st'. (k, v) \<in> set kvs \<Longrightarrow> x = k \<or> x = v \<Longrightarrow> length st' = Suc (length st) \<Longrightarrow>
      bytes_at data p (encode x) \<Longrightarrow> delivers zm data st' p (length (encode x)) x"
    and "kvs \<noteq> []" and "length kvs < 2 ^ 32" and "bytes_at data p (concat (map (\<lambda>(k, v). encode k @ encode v) kvs))"
    and "ctx_cs ctx = CS_HEADER" and "ctx_stack ctx = map_frame key acc (length kvs) CT_MAP_KEY # st"
  shows "\<exists>ctx'. ctx_stack ctx' = st \<and> execute_loop zm data ctx p =
    resume zm data (do_push ctx' (p + length (concat (map (\<lambda>(k, v). encode k @ encode v) kvs)) - 1) (OBJECT_MAP (acc @ kvs)))"
  using assms
proof (induction kvs arbitrary: p acc key ctx)
  case (Cons kv kvs)
  obtain k v where kv: "kv = (k, v)" by (cases kv)
  let ?n = "length (encode k)" and ?m = "length (encode v)"
  let ?f = "map_frame key acc (Suc (length kvs)) CT_MAP_KEY" and ?g = "map_frame k acc (Suc (length kvs)) CT_MAP_VALUE"
  let ?rest = "concat (map (\<lambda>(k, v). encode k @ encode v) kvs)"
  have at: "bytes_at data p (encode k)" "bytes_at data (p + ?n) (encode v)" "bytes_at data (p + ?n + ?m) ?rest"
    using Cons.prems(4) by (simp_all add: bytes_at_append kv add.assoc)
  have d: "delivers zm data (?f # st) p ?n k" "delivers zm data (?g # st) (p + ?n) ?m v"
    using Cons.prems(1) [of k v] at by (simp_all add: kv)
  have m: "length kvs < 2 ^ 32" using Cons.prems(3) by simp
  have st: "ctx_stack ctx = ?f # st" using Cons.prems(6) by simp
  obtain c2 where c2: "ctx_cs c2 = CS_HEADER" "ctx_stack c2 = ?g # st"
    "execute_loop zm data ctx p = execute_loop zm data c2 (p + ?n)"
    using map_key_inner [OF d(1) Cons.prems(5) st] by auto
  show ?case
  proof (cases "kvs = []")
    case True
    have "\<exists>ctx'. ctx_stack ctx' = st \<and> execute_loop zm data c2 (p + ?n) =
        resume zm data (do_push ctx' (p + ?n + ?m - 1) (OBJECT_MAP (acc @ [(k, v)])))"
      by (rule deliver_last [OF d(2) c2(1,2)]) (use True push_map_value [OF m] in simp)
    with True c2(3) show ?thesis by (simp add: kv add.assoc)
  next
    case False
    then obtain c4 where c4: "ctx_cs c4 = CS_HEADER" "ctx_stack c4 = map_frame k (acc @ [(k, v)]) (length kvs) CT_MAP_KEY # st"
      "execute_loop zm data ctx p = execute_loop zm data c4 (p + ?n + ?m)"
      using map_value_inner [OF d(2) c2(1,2) m] c2(3) by auto
    have "\<exists>ctx'. ctx_stack ctx' = st \<and> execute_loop zm data c4 (p + ?n + ?m) =
        resume zm data (do_push ctx' (p + ?n + ?m + length ?rest - 1) (OBJECT_MAP ((acc @ [(k, v)]) @ kvs)))"
    proof (rule Cons.IH)
      show "delivers zm data st' q (length (encode y)) y" if "(a, b) \<in> set kvs" "y = a \<or> y = b"
        "length st' = Suc (length st)" "bytes_at data q (encode y)" for a b y q st'
        using Cons.prems(1) [of a b y st' q] that by simp
    qed (use False m at(3) c4 in simp_all)
    then show ?thesis unfolding c4(3) by (simp add: kv add.assoc)
  qed
qed simp

text \<open>\<open>opens\<close>: the header bytes start a container.\<close>

definition opens ::
  "'z zone_malloc \<Rightarrow> bytes \<Rightarrow> unpack_stack list \<Rightarrow> nat \<Rightarrow> nat \<Rightarrow>
   ('z unpack_user \<Rightarrow> u32 \<Rightarrow> (msgpack_object \<times> 'z unpack_user) option) \<Rightarrow> msgpack_container_type \<Rightarrow> u32 \<Rightarrow> bool" where
  "opens zm data st p k cb ct n \<longleftrightarrow> 0 < k \<and>
     (\<forall>ctx. ctx_cs ctx = CS_HEADER \<and> ctx_stack ctx = st \<longrightarrow>
        (\<exists>ctx'. ctx_stack ctx' = st \<and> execute_loop zm data ctx p =
           resume zm data (start_container cb ct ctx' (p + k - 1) n)))"

lemma opens_byte:
  assumes "bytes_at data p [b]"
    and "\<And>ctx :: 'z template_context. exec_header zm data ctx p b = Some (start_container cb ct ctx p n)"
  shows "opens (zm :: 'z zone_malloc) data st p 1 cb ct n"
  using assms by (auto simp: opens_def loop_step execute_step_def bytes_at_Cons rd_def)

lemma opens_trail:
  assumes "bytes_at data p (b # bs)"
    and "\<And>ctx :: 'z template_context. exec_header zm data ctx p b = Some (Run (ctx\<lparr>ctx_trail := t0, ctx_cs := c0\<rparr>) (p + 1))"
    and "bs \<noteq> []" and "c0 \<noteq> CS_HEADER" and "k = Suc (length bs)"
    and "\<And>ctx :: 'z template_context. bytes_at data (p + 1) bs \<Longrightarrow>
      exec_trail zm data (ctx\<lparr>ctx_trail := t0, ctx_cs := c0\<rparr>) (p + 1) =
        Some (start_container cb ct (ctx\<lparr>ctx_trail := t0, ctx_cs := c0\<rparr>) (p + k - 1) n)"
  shows "opens (zm :: 'z zone_malloc) data st p k cb ct n"
  unfolding opens_def
proof (intro conjI allI impI, goal_cases)
  case (2 ctx)
  have p: "p < length data" "data ! p = b" "p + 1 < length data" "bytes_at data (p + 1) bs"
    using assms(1,3) by (cases bs; auto simp: bytes_at_Cons)+
  with 2 assms(2,4,6) show ?case
    by (intro exI [of _ "ctx\<lparr>ctx_trail := t0, ctx_cs := c0\<rparr>"]) (auto simp: loop_step execute_step_def rd_def)
qed (use assms in simp)

lemma trail_count:
  "bytes_at data n (be_bytes16 x16) \<Longrightarrow> exec_trail zm data (ctx\<lparr>ctx_trail := 2, ctx_cs := CS_ARRAY_16\<rparr>) n =
     Some (start_container (template_callback_array zm) CT_ARRAY_ITEM (ctx\<lparr>ctx_trail := 2, ctx_cs := CS_ARRAY_16\<rparr>) (n + 1) (ucast x16))"
  "bytes_at data n (be_bytes32 x32) \<Longrightarrow> exec_trail zm data (ctx\<lparr>ctx_trail := 4, ctx_cs := CS_ARRAY_32\<rparr>) n =
     Some (start_container (template_callback_array zm) CT_ARRAY_ITEM (ctx\<lparr>ctx_trail := 4, ctx_cs := CS_ARRAY_32\<rparr>) (n + 3) x32)"
  "bytes_at data n (be_bytes16 x16) \<Longrightarrow> exec_trail zm data (ctx\<lparr>ctx_trail := 2, ctx_cs := CS_MAP_16\<rparr>) n =
     Some (start_container (template_callback_map zm) CT_MAP_KEY (ctx\<lparr>ctx_trail := 2, ctx_cs := CS_MAP_16\<rparr>) (n + 1) (ucast x16))"
  "bytes_at data n (be_bytes32 x32) \<Longrightarrow> exec_trail zm data (ctx\<lparr>ctx_trail := 4, ctx_cs := CS_MAP_32\<rparr>) n =
     Some (start_container (template_callback_map zm) CT_MAP_KEY (ctx\<lparr>ctx_trail := 4, ctx_cs := CS_MAP_32\<rparr>) (n + 3) x32)"
  using load_at [of data n] by (auto simp: exec_trail_def Let_def bytes_at_def)

lemma opens_array:
  assumes "length xs < 2 ^ 32" and "bytes_at data p (pack_array (size_field xs))"
  shows "opens zm data st p (length (pack_array (size_field xs))) (template_callback_array zm) CT_ARRAY_ITEM (of_nat (length xs))"
proof -
  consider "length xs < 16" | "\<not> length xs < 16" "length xs < 65536" | "\<not> length xs < 16" "\<not> length xs < 65536"
    by linarith
  then show ?thesis
  proof cases
    case 1
    then have "opens zm data st p 1 (template_callback_array zm) CT_ARRAY_ITEM (of_nat (length xs))"
      using assms by (intro opens_byte [of data p "0x90 OR of_nat (length xs)"])
        (simp_all add: pack_array_def size_ucast fixarray_header)
    with 1 assms(1) show ?thesis by (simp add: pack_array_def size_ucast)
  next
    case 2
    then have "opens zm data st p 3 (template_callback_array zm) CT_ARRAY_ITEM (of_nat (length xs))"
      using assms by (intro opens_trail [OF _ header_trail(25), of _ _ "be_bytes16 (of_nat (length xs))"])
        (simp_all add: pack_array_def size_ucast store16_host trail_count ucast_len)
    with 2 assms(1) show ?thesis by (simp add: pack_array_def size_ucast store16_host)
  next
    case 3
    then have "opens zm data st p 5 (template_callback_array zm) CT_ARRAY_ITEM (of_nat (length xs))"
      using assms by (intro opens_trail [OF _ header_trail(26), of _ _ "be_bytes32 (of_nat (length xs))"])
        (simp_all add: pack_array_def size_ucast store32_host trail_count)
    with 3 assms(1) show ?thesis by (simp add: pack_array_def size_ucast store32_host)
  qed
qed

lemma opens_map:
  assumes "length xs < 2 ^ 32" and "bytes_at data p (pack_map (size_field xs))"
  shows "opens zm data st p (length (pack_map (size_field xs))) (template_callback_map zm) CT_MAP_KEY (of_nat (length xs))"
proof -
  consider "length xs < 16" | "\<not> length xs < 16" "length xs < 65536" | "\<not> length xs < 16" "\<not> length xs < 65536"
    by linarith
  then show ?thesis
  proof cases
    case 1
    then have "opens zm data st p 1 (template_callback_map zm) CT_MAP_KEY (of_nat (length xs))"
      using assms by (intro opens_byte [of data p "0x80 OR of_nat (length xs)"])
        (simp_all add: pack_map_def size_ucast fixmap_header)
    with 1 assms(1) show ?thesis by (simp add: pack_map_def size_ucast)
  next
    case 2
    then have "opens zm data st p 3 (template_callback_map zm) CT_MAP_KEY (of_nat (length xs))"
      using assms by (intro opens_trail [OF _ header_trail(27), of _ _ "be_bytes16 (of_nat (length xs))"])
        (simp_all add: pack_map_def size_ucast store16_host trail_count ucast_len)
    with 2 assms(1) show ?thesis by (simp add: pack_map_def size_ucast store16_host)
  next
    case 3
    then have "opens zm data st p 5 (template_callback_map zm) CT_MAP_KEY (of_nat (length xs))"
      using assms by (intro opens_trail [OF _ header_trail(28), of _ _ "be_bytes32 (of_nat (length xs))"])
        (simp_all add: pack_map_def size_ucast store32_host trail_count)
    with 3 assms(1) show ?thesis by (simp add: pack_map_def size_ucast store32_host)
  qed
qed

text \<open>With room on the stack, the container is opened with its frame on top, or delivered when empty.\<close>

lemma start_array:
  assumes "zone_total zm" and "length (ctx_stack ctx) < 32" and "n < 2 ^ 32"
  shows "\<exists>ctx'. ctx_stack ctx' = (if n = 0 then [] else [array_frame OBJECT_NIL [] n]) @ ctx_stack ctx \<and>
    (n \<noteq> 0 \<longrightarrow> ctx_cs ctx' = CS_HEADER) \<and>
    start_container (template_callback_array zm) CT_ARRAY_ITEM ctx p (of_nat n) =
      (if n = 0 then do_push ctx' p (OBJECT_ARRAY []) else Run ctx' (p + 1))"
proof -
  obtain z where z: "zm (us_zone (ctx_user ctx)) (ucast (of_nat n :: u32) * sizeof_object) = Some z"
    using assms(1) by (auto simp: zone_total_def)
  have n: "(of_nat n :: u32) = 0 \<longleftrightarrow> n = 0" "ucast (of_nat n :: u32) = (of_nat n :: u64)"
    using assms(3) by (simp_all add: word_unat_eq_iff width_simps)
  show ?thesis
  proof (cases "n = 0")
    case True
    with z n assms(2) show ?thesis
      by (intro exI [of _ "ctx\<lparr>ctx_user := (ctx_user ctx)\<lparr>us_zone := z\<rparr>\<rparr>"])
        (simp add: start_container_def template_callback_array_def MSGPACK_EMBED_STACK_SIZE_def)
  next
    case False
    with z n assms(2) show ?thesis
      by (intro exI [of _ "ctx\<lparr>ctx_user := (ctx_user ctx)\<lparr>us_zone := z\<rparr>, ctx_cs := CS_HEADER,
            ctx_stack := array_frame OBJECT_NIL [] n # ctx_stack ctx\<rparr>"])
        (simp add: start_container_def template_callback_array_def MSGPACK_EMBED_STACK_SIZE_def array_frame_def)
  qed
qed

lemma start_map:
  assumes "zone_total zm" and "length (ctx_stack ctx) < 32" and "n < 2 ^ 32"
  shows "\<exists>ctx'. ctx_stack ctx' = (if n = 0 then [] else [map_frame OBJECT_NIL [] n CT_MAP_KEY]) @ ctx_stack ctx \<and>
    (n \<noteq> 0 \<longrightarrow> ctx_cs ctx' = CS_HEADER) \<and>
    start_container (template_callback_map zm) CT_MAP_KEY ctx p (of_nat n) =
      (if n = 0 then do_push ctx' p (OBJECT_MAP []) else Run ctx' (p + 1))"
proof -
  obtain z where z: "zm (us_zone (ctx_user ctx)) (ucast (of_nat n :: u32) * sizeof_object_kv) = Some z"
    using assms(1) by (auto simp: zone_total_def)
  have n: "(of_nat n :: u32) = 0 \<longleftrightarrow> n = 0" "ucast (of_nat n :: u32) = (of_nat n :: u64)"
    using assms(3) by (simp_all add: word_unat_eq_iff width_simps)
  show ?thesis
  proof (cases "n = 0")
    case True
    with z n assms(2) show ?thesis
      by (intro exI [of _ "ctx\<lparr>ctx_user := (ctx_user ctx)\<lparr>us_zone := z\<rparr>\<rparr>"])
        (simp add: start_container_def template_callback_map_def MSGPACK_EMBED_STACK_SIZE_def)
  next
    case False
    with z n assms(2) show ?thesis
      by (intro exI [of _ "ctx\<lparr>ctx_user := (ctx_user ctx)\<lparr>us_zone := z\<rparr>, ctx_cs := CS_HEADER,
            ctx_stack := map_frame OBJECT_NIL [] n CT_MAP_KEY # ctx_stack ctx\<rparr>"])
        (simp add: start_container_def template_callback_map_def MSGPACK_EMBED_STACK_SIZE_def map_frame_def)
  qed
qed

lemma delivers_array:
  fixes zm :: "'z zone_malloc"
  assumes "zone_total zm" and "length st < 32" and "length xs < 2 ^ 32"
    and "bytes_at data p (encode (OBJECT_ARRAY xs))"
    and "\<And>x p st'. x \<in> set xs \<Longrightarrow> length st' = Suc (length st) \<Longrightarrow> bytes_at data p (encode x) \<Longrightarrow>
      delivers zm data st' p (length (encode x)) x"
  shows "delivers zm data st p (length (encode (OBJECT_ARRAY xs))) (OBJECT_ARRAY xs)"
proof (rule deliversI)
  let ?k = "length (pack_array (size_field xs))"
  have at: "bytes_at data p (pack_array (size_field xs))" "bytes_at data (p + ?k) (concat (map encode xs))"
    using assms(4) by (simp_all add: bytes_at_append)
  note o = opens_array [OF assms(3) at(1), of zm st]
  then have k: "0 < ?k" by (simp add: opens_def)
  then show "0 < length (encode (OBJECT_ARRAY xs))" by simp
  fix ctx :: "'z template_context"
  assume "ctx_cs ctx = CS_HEADER" "ctx_stack ctx = st"
  with o obtain c1 where c1: "ctx_stack c1 = st" "execute_loop zm data ctx p =
      resume zm data (start_container (template_callback_array zm) CT_ARRAY_ITEM c1 (p + ?k - 1) (of_nat (length xs)))"
    unfolding opens_def by blast
  from start_array [OF assms(1) _ assms(3), of c1 "p + ?k - 1"] c1(1) assms(2) obtain c2 where c2:
    "ctx_stack c2 = (if length xs = 0 then [] else [array_frame OBJECT_NIL [] (length xs)]) @ st"
    "length xs \<noteq> 0 \<longrightarrow> ctx_cs c2 = CS_HEADER"
    "start_container (template_callback_array zm) CT_ARRAY_ITEM c1 (p + ?k - 1) (of_nat (length xs)) =
      (if length xs = 0 then do_push c2 (p + ?k - 1) (OBJECT_ARRAY []) else Run c2 (p + ?k - 1 + 1))" by auto
  show "\<exists>ctx'. ctx_stack ctx' = st \<and> execute_loop zm data ctx p =
      resume zm data (do_push ctx' (p + length (encode (OBJECT_ARRAY xs)) - 1) (OBJECT_ARRAY xs))"
  proof (cases "xs = []")
    case True
    with c1 c2 show ?thesis by auto
  next
    case False
    have "\<exists>ctx'. ctx_stack ctx' = st \<and> execute_loop zm data c2 (p + ?k) =
        resume zm data (do_push ctx' (p + ?k + length (concat (map encode xs)) - 1) (OBJECT_ARRAY ([] @ xs)))"
      by (rule array_items_loop [OF assms(5) False assms(3) at(2)]) (use False c2 in simp_all)
    with False c1 c2 k show ?thesis by (simp add: add.assoc)
  qed
qed

lemma delivers_map:
  fixes zm :: "'z zone_malloc"
  assumes "zone_total zm" and "length st < 32" and "length kvs < 2 ^ 32"
    and "bytes_at data p (encode (OBJECT_MAP kvs))"
    and "\<And>k v x p st'. (k, v) \<in> set kvs \<Longrightarrow> x = k \<or> x = v \<Longrightarrow> length st' = Suc (length st) \<Longrightarrow>
      bytes_at data p (encode x) \<Longrightarrow> delivers zm data st' p (length (encode x)) x"
  shows "delivers zm data st p (length (encode (OBJECT_MAP kvs))) (OBJECT_MAP kvs)"
proof (rule deliversI)
  let ?k = "length (pack_map (size_field kvs))" and ?items = "concat (map (\<lambda>(k, v). encode k @ encode v) kvs)"
  have enc: "encode (OBJECT_MAP kvs) = pack_map (size_field kvs) @ ?items"
    by (simp add: case_prod_beta' comp_def)
  have at: "bytes_at data p (pack_map (size_field kvs))" "bytes_at data (p + ?k) ?items"
    using assms(4) unfolding enc by (simp_all add: bytes_at_append)
  note o = opens_map [OF assms(3) at(1), of zm st]
  then have k: "0 < ?k" by (simp add: opens_def)
  then show "0 < length (encode (OBJECT_MAP kvs))" by simp
  fix ctx :: "'z template_context"
  assume "ctx_cs ctx = CS_HEADER" "ctx_stack ctx = st"
  with o obtain c1 where c1: "ctx_stack c1 = st" "execute_loop zm data ctx p =
      resume zm data (start_container (template_callback_map zm) CT_MAP_KEY c1 (p + ?k - 1) (of_nat (length kvs)))"
    unfolding opens_def by blast
  from start_map [OF assms(1) _ assms(3), of c1 "p + ?k - 1"] c1(1) assms(2) obtain c2 where c2:
    "ctx_stack c2 = (if length kvs = 0 then [] else [map_frame OBJECT_NIL [] (length kvs) CT_MAP_KEY]) @ st"
    "length kvs \<noteq> 0 \<longrightarrow> ctx_cs c2 = CS_HEADER"
    "start_container (template_callback_map zm) CT_MAP_KEY c1 (p + ?k - 1) (of_nat (length kvs)) =
      (if length kvs = 0 then do_push c2 (p + ?k - 1) (OBJECT_MAP []) else Run c2 (p + ?k - 1 + 1))" by auto
  show "\<exists>ctx'. ctx_stack ctx' = st \<and> execute_loop zm data ctx p =
      resume zm data (do_push ctx' (p + length (encode (OBJECT_MAP kvs)) - 1) (OBJECT_MAP kvs))"
  proof (cases "kvs = []")
    case True
    with c1 c2 show ?thesis by auto
  next
    case False
    have "\<exists>ctx'. ctx_stack ctx' = st \<and> execute_loop zm data c2 (p + ?k) =
        resume zm data (do_push ctx' (p + ?k + length ?items - 1) (OBJECT_MAP ([] @ kvs)))"
      by (rule map_items_loop [OF assms(5) False assms(3) at(2)]) (use False c2 in simp_all)
    with False c1 c2 k show ?thesis unfolding enc by (simp add: add.assoc)
  qed
qed

section \<open>Decoding an encoded object\<close>

lemma depth_item: "x \<in> set os \<Longrightarrow> obj_depth x < obj_depth (OBJECT_ARRAY os)"
  by (induction os) (auto simp: less_Suc_eq_le le_max_iff_disj)

lemma depth_kv: "(k, v) \<in> set kvs \<Longrightarrow> x = k \<or> x = v \<Longrightarrow> obj_depth x < obj_depth (OBJECT_MAP kvs)"
  by (induction kvs) (auto simp: less_Suc_eq_le le_max_iff_disj)

lemma delivers_encode:
  "zone_total zm \<Longrightarrow> wf_object x \<Longrightarrow> length st + obj_depth x \<le> 32 \<Longrightarrow> bytes_at data p (encode x) \<Longrightarrow>
   delivers zm data st p (length (encode x)) x"
proof (induction x arbitrary: st p)
  case OBJECT_NIL
  then show ?case using delivers_byte [OF _ header_simple(1)] by simp
next
  case (OBJECT_BOOLEAN b)
  then show ?case using delivers_byte [OF _ header_simple(2)] delivers_byte [OF _ header_simple(3)] by (cases b) simp_all
next
  case (OBJECT_POSITIVE_INTEGER n)
  then show ?case using delivers_uint64 by simp
next
  case (OBJECT_NEGATIVE_INTEGER n)
  then show ?case using delivers_negative by simp
next
  case (OBJECT_FLOAT d)
  then show ?case using delivers_numbers(9) [of data p d] by (simp add: store64_host template_callback_double_def)
next
  case (OBJECT_STR s)
  then show ?case using delivers_str [of s data p] by simp
next
  case (OBJECT_ARRAY os)
  have "delivers zm data st' q (length (encode y)) y"
    if "y \<in> set os" "length st' = Suc (length st)" "bytes_at data q (encode y)" for y q st'
    using OBJECT_ARRAY.IH [OF that(1), of st' q] OBJECT_ARRAY.prems that depth_item [OF that(1)] by simp
  then show ?case using OBJECT_ARRAY.prems by (intro delivers_array) auto
next
  case (OBJECT_MAP kvs)
  have "delivers zm data st' q (length (encode y)) y"
    if "(k, v) \<in> set kvs" "y = k \<or> y = v" "length st' = Suc (length st)" "bytes_at data q (encode y)" for k v y q st'
    using OBJECT_MAP.IH [OF that(1), of y st' q] OBJECT_MAP.prems that depth_kv [OF that(1,2)] by fastforce
  then show ?case using OBJECT_MAP.prems by (intro delivers_map) auto
next
  case (OBJECT_BIN s)
  then show ?case using delivers_bin [of s data p] by simp
next
  case (OBJECT_EXT t s)
  then show ?case using delivers_ext [of s data p t] by simp
qed

end
