(* ===== verification/MP_Stream.thy ===== *)
theory MP_Stream
  imports MP_Unpack
begin

text \<open>
  libmsgpack, the deserialiser as a streaming parser: stopping at the end of the data and going on
  when more has arrived gives what one call on all the data gives; on a well-formed context every
  call returns and reads inside its data; and the two exceptions the code has.
\<close>

section \<open>More data\<close>

text \<open>\<open>a\<close> is undefined or equal to \<open>b\<close>.\<close>

definition le_opt :: "'a option \<Rightarrow> 'a option \<Rightarrow> bool" where
  "le_opt a b \<longleftrightarrow> (\<forall>x. a = Some x \<longrightarrow> b = Some x)"

lemma le_opt_refl [intro!, simp]: "le_opt a a"
  by (simp add: le_opt_def)

lemma le_opt_bind [intro]: "le_opt a b \<Longrightarrow> (\<And>x. le_opt (f x) (g x)) \<Longrightarrow> le_opt (Option.bind a f) (Option.bind b g)"
  by (auto simp: le_opt_def bind_eq_Some_conv)

lemma le_opt_map [intro]: "le_opt a b \<Longrightarrow> le_opt (map_option f a) (map_option f b)"
  by (auto simp: le_opt_def)

lemma le_opt_rd [intro!]: "le_opt (rd data n) (rd (data @ rest) n)"
  by (auto simp: le_opt_def rd_def nth_append split: if_splits)

lemma le_opt_sub [intro!]: "le_opt (sub_bytes data n l) (sub_bytes (data @ rest) n l)"
  by (auto simp: le_opt_def sub_bytes_def split: if_splits)

lemma le_opt_loads [intro!]:
  "le_opt (load16 data n) (load16 (data @ rest) n)"
  "le_opt (load32 data n) (load32 (data @ rest) n)"
  "le_opt (load64 data n) (load64 (data @ rest) n)"
  unfolding load16_host load32_host load64_host by blast+

lemma le_opt_callbacks [intro!]:
  "le_opt (template_callback_str data n l) (template_callback_str (data @ rest) n l)"
  "le_opt (template_callback_bin data n l) (template_callback_bin (data @ rest) n l)"
  "le_opt (template_callback_ext data n l) (template_callback_ext (data @ rest) n l)"
  unfolding template_callback_str_def template_callback_bin_def template_callback_ext_def by blast+

lemma le_opt_push [intro]: "le_opt a b \<Longrightarrow> le_opt (push_variable ctx p a) (push_variable ctx p b)"
  unfolding push_variable_def by blast

lemma le_opt_again [intro]:
  "le_opt a b \<Longrightarrow> le_opt (again_fixed_trail_if_zero ctx p c t a) (again_fixed_trail_if_zero ctx p c t b)"
  unfolding again_fixed_trail_if_zero_def by auto

lemma exec_header_data: "exec_header zm data = exec_header zm data'"
  by (intro ext) (simp add: exec_header_def template_callback_str_def sub_bytes_def)

lemma exec_trail_more:
  assumes "\<not> length data - n < unat (ctx_trail ctx)"
  shows "le_opt (exec_trail zm data ctx n) (exec_trail zm (data @ rest) ctx n)"
proof -
  have "\<not> length (data @ rest) - n < unat (ctx_trail ctx)" using assms by simp
  with assms show ?thesis
    unfolding exec_trail_def Let_def
    by (cases "ctx_cs ctx") (simp_all only: if_False msgpack_unpack_state.case; blast)+
qed

lemma execute_step_more:
  assumes "execute_step zm data ctx p = Some out"
  shows "out = Stop 0 ctx p \<or> execute_step zm (data @ rest) ctx p = Some out"
proof (cases "ctx_cs ctx = CS_HEADER")
  case True
  have "le_opt (execute_step zm data ctx p) (execute_step zm (data @ rest) ctx p)"
    unfolding execute_step_def exec_header_data [of zm data "data @ rest"] using True by auto
  with assms show ?thesis by (simp add: le_opt_def)
next
  case False
  then have e: "execute_step zm data ctx p = exec_trail zm data ctx p"
    "execute_step zm (data @ rest) ctx p = exec_trail zm (data @ rest) ctx p" by (simp_all add: execute_step_def)
  show ?thesis
  proof (cases "length data - p < unat (ctx_trail ctx)")
    case True
    then show ?thesis using assms e by (auto simp: exec_trail_def Let_def)
  next
    case False
    from exec_trail_more [OF this, of zm rest] assms e show ?thesis by (simp add: le_opt_def)
  qed
qed

text \<open>Coming back for more data leaves the context and the position as they were before the pass.\<close>

lemma do_push_not_zero [simp]: "do_push ctx p x \<noteq> Stop 0 ctx' p'"
  by (simp add: do_push_def split: sum.splits)

lemma outcomes_not_zero [simp]:
  "push_variable ctx p v \<noteq> Some (Stop 0 ctx' p')"
  "again_fixed_trail ctx p c t \<noteq> Stop 0 ctx' p'"
  "again_fixed_trail_if_zero ctx p cs t v \<noteq> Some (Stop 0 ctx' p')"
  "start_container cb ct ctx p n \<noteq> Stop 0 ctx' p'"
  by (auto simp: push_variable_def again_fixed_trail_def again_fixed_trail_if_zero_def start_container_def
      split: option.splits prod.splits)

lemma exec_header_not_zero: "exec_header zm data ctx p b \<noteq> Some (Stop 0 ctx' p')"
  by (simp add: exec_header_def)

lemma exec_trail_zero: "exec_trail zm data ctx n = Some (Stop 0 ctx' p') \<Longrightarrow> ctx' = ctx \<and> p' = n"
  unfolding exec_trail_def Let_def
  by (cases "ctx_cs ctx") (auto simp: bind_eq_Some_conv split: if_splits)

lemma execute_step_zero:
  assumes "execute_step zm data ctx p = Some (Stop 0 ctx' p')"
  shows "ctx' = ctx \<and> p' = p"
  using assms exec_trail_zero [of zm data ctx p ctx' p'] exec_header_not_zero [of zm data ctx p]
  by (auto simp: execute_step_def bind_eq_Some_conv split: if_splits)

text \<open>Induction over the passes of a run that returns.\<close>

lemma execute_loop_induct [consumes 1, case_names finish stop run]:
  assumes "execute_loop zm data ctx p = Some y"
    and "\<And>ctx p. length data \<le> p \<Longrightarrow> P ctx p (0, ctx, p)"
    and "\<And>ctx p r ctx' p'. p < length data \<Longrightarrow> execute_step zm data ctx p = Some (Stop r ctx' p') \<Longrightarrow> P ctx p (r, ctx', p')"
    and "\<And>ctx p ctx' p' y. p < length data \<Longrightarrow> execute_step zm data ctx p = Some (Run ctx' p') \<Longrightarrow> P ctx' p' y \<Longrightarrow> P ctx p y"
  shows "P ctx p y"
proof -
  have "zm' = zm \<longrightarrow> data' = data \<longrightarrow> P ctx p y" if "execute_loop zm' data' ctx p = Some y" for zm' data'
    using that
  proof (rule execute_loop.raw_induct [rotated])
    fix loop zm' data' ctx p y
    assume IH: "\<And>zm' data' ctx p y. loop zm' data' ctx p = Some y \<Longrightarrow> zm' = zm \<longrightarrow> data' = data \<longrightarrow> P ctx p y"
      and run: "(if length data' \<le> p then Some (0, ctx, p)
        else execute_step zm' data' ctx p \<bind>
          (\<lambda>out. case out of Run ctx' p' \<Rightarrow> loop zm' data' ctx' p' | Stop r ctx' p' \<Rightarrow> Some (r, ctx', p'))) = Some y"
    show "zm' = zm \<longrightarrow> data' = data \<longrightarrow> P ctx p y"
    proof (intro impI)
      assume eq: "zm' = zm" "data' = data"
      consider "length data \<le> p" "y = (0, ctx, p)"
        | ctx' p' where "p < length data" "execute_step zm data ctx p = Some (Run ctx' p')" "loop zm data ctx' p' = Some y"
        | r ctx' p' where "p < length data" "execute_step zm data ctx p = Some (Stop r ctx' p')" "y = (r, ctx', p')"
        using run eq by (auto simp: bind_eq_Some_conv not_le split: if_splits exec_out.splits) (metis exec_out.exhaust)
      then show "P ctx p y" using IH assms(2-4) eq by cases auto
    qed
  qed
  with assms(1) show ?thesis by blast
qed

text \<open>
  A run that came back for more data goes on where it stopped; a run that finished is not changed
  by more data.
\<close>

lemma execute_loop_more:
  assumes "execute_loop zm data ctx p = Some y"
  shows "execute_loop zm (data @ rest) ctx p =
    (case y of (r, ctx', p') \<Rightarrow> if r = 0 then execute_loop zm (data @ rest) ctx' p' else Some y)"
  using assms
proof (induction rule: execute_loop_induct)
  case (finish ctx p)
  then show ?case by simp
next
  case (stop ctx p r ctx' p')
  then show ?case
    using execute_step_more [OF stop(2), of rest] execute_step_zero [of zm data ctx p ctx' p'] by (auto simp: loop_step)
next
  case (run ctx p ctx' p' y)
  then show ?case
    using execute_step_more [OF run(2), of rest] by (simp add: loop_step)
qed

section \<open>Well-formed contexts\<close>

text \<open>
  An open container still waits for items, and holds the kind of object that its type says; a state
  other than the header waits for the number of bytes it is going to read.
\<close>

definition frame_ok :: "unpack_stack \<Rightarrow> bool" where
  "frame_ok c \<longleftrightarrow> st_count c \<noteq> 0 \<and>
     (case st_obj c of
        OBJECT_ARRAY os \<Rightarrow> st_ct c = CT_ARRAY_ITEM
      | OBJECT_MAP kvs \<Rightarrow> st_ct c \<noteq> CT_ARRAY_ITEM
      | _ \<Rightarrow> False)"

definition trail_ok :: "msgpack_unpack_state \<Rightarrow> u32 \<Rightarrow> bool" where
  "trail_ok cs t \<longleftrightarrow>
     (cs \<in> {CS_BIN_8, CS_EXT_8, CS_UINT_8, CS_INT_8, CS_STR_8} \<longrightarrow> t = 1) \<and>
     (cs \<in> {CS_BIN_16, CS_EXT_16, CS_UINT_16, CS_INT_16, CS_STR_16, CS_ARRAY_16, CS_MAP_16} \<longrightarrow> t = 2) \<and>
     (cs \<in> {CS_BIN_32, CS_EXT_32, CS_FLOAT, CS_UINT_32, CS_INT_32, CS_STR_32, CS_ARRAY_32, CS_MAP_32} \<longrightarrow> t = 4) \<and>
     (cs \<in> {CS_DOUBLE, CS_UINT_64, CS_INT_64} \<longrightarrow> t = 8) \<and>
     (cs \<noteq> CS_HEADER \<longrightarrow> t \<noteq> 0)"

definition stack_ok :: "unpack_stack list \<Rightarrow> bool" where
  "stack_ok st \<longleftrightarrow> length st \<le> MSGPACK_EMBED_STACK_SIZE \<and> list_all frame_ok st"

definition ctx_ok :: "'z template_context \<Rightarrow> bool" where
  "ctx_ok ctx \<longleftrightarrow> stack_ok (ctx_stack ctx) \<and> trail_ok (ctx_cs ctx) (ctx_trail ctx)"

text \<open>The one length the parser does not survive is absent from the data.\<close>

definition no_max_length :: "bytes \<Rightarrow> bool" where
  "no_max_length data \<longleftrightarrow> (\<forall>i < length data. \<not> bytes_at data i [0xff, 0xff, 0xff, 0xff])"

definition out_ok :: "bytes \<Rightarrow> nat \<Rightarrow> 'z exec_out \<Rightarrow> bool" where
  "out_ok data p out \<longleftrightarrow> (case out of
     Run ctx q \<Rightarrow> ctx_ok ctx \<and> p < q \<and> q \<le> length data
   | Stop r ctx q \<Rightarrow> p \<le> q \<and> q \<le> length data \<and> (r = - 1 \<or> r = 0 \<and> ctx_ok ctx \<or> r = 1 \<and> ctx_stack ctx = []))"

definition step_ok :: "bytes \<Rightarrow> nat \<Rightarrow> 'z exec_out option \<Rightarrow> bool" where
  "step_ok data p m \<longleftrightarrow> (\<exists>out. m = Some out \<and> out_ok data p out)"

lemma step_ok_Some [simp]: "step_ok data p (Some out) = out_ok data p out" "\<not> step_ok data p None"
  by (simp_all add: step_ok_def)

lemma out_ok_simps [simp]:
  "out_ok data p (Run ctx q) \<longleftrightarrow> ctx_ok ctx \<and> p < q \<and> q \<le> length data"
  "out_ok data p (Stop r ctx q) \<longleftrightarrow>
     p \<le> q \<and> q \<le> length data \<and> (r = - 1 \<or> r = 0 \<and> ctx_ok ctx \<or> r = 1 \<and> ctx_stack ctx = [])"
  by (simp_all add: out_ok_def)

lemma trail_ok_header [simp]: "trail_ok CS_HEADER t"
  by (simp add: trail_ok_def)

lemma template_push_ok:
  "stack_ok st \<Longrightarrow> template_push st x = Inl st' \<Longrightarrow> stack_ok st'"
proof (induction st arbitrary: x)
  case (Cons c st)
  have c: "frame_ok c" "stack_ok st" "length st < MSGPACK_EMBED_STACK_SIZE"
    using Cons.prems(1) by (auto simp: stack_ok_def)
  have tl: "stack_ok (c' # st)" if "frame_ok c'" for c' using c that by (simp add: stack_ok_def)
  show ?case
  proof (cases "st_ct c")
    case CT_ARRAY_ITEM
    then show ?thesis
      using Cons c tl by (auto simp: template_push.simps Let_def frame_ok_def template_callback_array_item_def
          split: msgpack_object.splits if_splits)
  next
    case CT_MAP_KEY
    then show ?thesis
      using Cons c by (auto simp: template_push.simps stack_ok_def frame_ok_def split: msgpack_object.splits)
  next
    case CT_MAP_VALUE
    then show ?thesis
      using Cons c tl by (auto simp: template_push.simps Let_def frame_ok_def template_callback_map_item_def
          split: msgpack_object.splits if_splits)
  qed
qed simp

lemma do_push_ok:
  "stack_ok (ctx_stack ctx) \<Longrightarrow> p \<le> q \<Longrightarrow> q < length data \<Longrightarrow> out_ok data p (do_push ctx q x)"
  using template_push_ok [of "ctx_stack ctx" x]
  by (auto simp: do_push_def ctx_ok_def split: sum.splits)

lemma push_variable_ok:
  "stack_ok (ctx_stack ctx) \<Longrightarrow> p \<le> q \<Longrightarrow> q < length data \<Longrightarrow> v \<noteq> None \<Longrightarrow> step_ok data p (push_variable ctx q v)"
  by (auto simp: push_variable_def intro!: do_push_ok)

lemma again_ok:
  assumes "stack_ok (ctx_stack ctx)" and "p \<le> q" and "q < length data" and "t = 0 \<Longrightarrow> v \<noteq> None"
    and "c \<in> {ACS_STR_VALUE, ACS_BIN_VALUE, ACS_EXT_VALUE}"
  shows "step_ok data p (again_fixed_trail_if_zero ctx q c t v)"
  using assms by (auto simp: again_fixed_trail_if_zero_def again_fixed_trail_def ctx_ok_def trail_ok_def
      intro!: push_variable_ok)

lemma start_container_ok:
  assumes "stack_ok (ctx_stack ctx)" and "p \<le> q" and "q < length data"
    and "cb = template_callback_array zm \<and> ct = CT_ARRAY_ITEM \<or> cb = template_callback_map zm \<and> ct = CT_MAP_KEY"
  shows "out_ok data p (start_container cb ct ctx q n)"
proof -
  have n: "(ucast n :: u64) = 0 \<longleftrightarrow> n = 0" by (simp add: word_unat_eq_iff width_simps)
  have frame: "frame_ok \<lparr>st_obj = obj, st_count = ucast n, st_ct = ct, st_map_key = OBJECT_NIL\<rparr>"
    if "cb u n = Some (obj, u')" "n \<noteq> 0" for u obj u'
    using that n assms(4) by (auto simp: template_callback_array_def template_callback_map_def frame_ok_def split: option.splits)
  show ?thesis
    using assms frame unfolding start_container_def
    by (auto simp: ctx_ok_def stack_ok_def split: option.splits intro!: do_push_ok)
qed

lemma byte_c0_df:
  assumes "0xc0 \<le> b" and "b \<le> 0xdf"
  shows "(b :: u8) \<in> set (map of_nat [0xc0..<0xe0])"
proof -
  have "unat b \<in> set [0xc0..<0xe0]"
    using assms by (simp only: set_upt atLeastLessThan_iff word_le_nat_alt) simp
  then have "(of_nat (unat b) :: u8) \<in> of_nat ` set [0xc0..<0xe0]" by (rule imageI)
  then show ?thesis by (simp only: set_map of_nat_unat ucast_id)
qed

lemma step_ok_if:
  "(c \<Longrightarrow> step_ok data p a) \<Longrightarrow> (\<not> c \<Longrightarrow> step_ok data p b) \<Longrightarrow> step_ok data p (if c then a else b)"
  by simp

lemma exec_header_ok:
  assumes "ctx_ok ctx" and "p < length data"
  shows "step_ok data p (exec_header zm data ctx p b)"
proof -
  have st: "stack_ok (ctx_stack ctx)" using assms by (simp add: ctx_ok_def)
  note push = do_push_ok [OF st order_refl assms(2)]
  show ?thesis
  proof (cases "0xc0 \<le> b \<and> b \<le> 0xdf")
    case True
    then have "b \<in> set (map of_nat [0xc0..<0xe0])" using byte_c0_df by blast
    then have "b = 0xc1 \<or> b \<in> {0xc0, 0xc2, 0xc3} \<or> b \<in> {0xc4, 0xc5, 0xc6, 0xc7, 0xc8, 0xc9, 0xca, 0xcb, 0xcc, 0xcd, 0xce, 0xcf,
        0xd0, 0xd1, 0xd2, 0xd3, 0xd4, 0xd5, 0xd6, 0xd7, 0xd8, 0xd9, 0xda, 0xdb, 0xdc, 0xdd, 0xde, 0xdf}"
      by (simp add: upt_rec) blast
    moreover have "step_ok data p (exec_header zm data ctx p 0xc1)"
      using assms by (simp add: exec_header_def)
    ultimately show ?thesis
      using push st assms(2) by (auto simp: header_simple header_trail ctx_ok_def trail_ok_def)
  next
    case False
    show ?thesis unfolding exec_header_def
      by (intro step_ok_if; (use False in blast)?; (simp only: step_ok_Some)?)
        (use push st assms(2) in \<open>auto simp: template_callback_str_def sub_bytes_def intro!: again_ok start_container_ok\<close>)
  qed
qed

lemma load32_max:
  assumes "no_max_length data" and "n < length data" and "load32 data n = Some t"
  shows "t + 1 \<noteq> 0"
proof
  assume "t + 1 = 0"
  then have t: "t = 0xffffffff" by (simp add: eq_neg_iff_add_eq_0 [symmetric])
  from assms(3) obtain bs where bs: "sub_bytes data n 4 = Some bs" "t = be_val32 bs"
    by (auto simp: load32_host)
  then have len: "length bs = 4" "bytes_at data n bs" by (auto simp: sub_bytes_def bytes_at_def split: if_splits)
  then obtain a b c d where abcd: "bs = [a, b, c, d]"
    by (auto simp: numeral_eq_Suc length_Suc_conv)
  have "bs = be_bytes32 0xffffffff" using be_bytes_val32 [of a b c d] t bs(2) abcd by simp
  also have "\<dots> = [0xff, 0xff, 0xff, 0xff]" by code_simp
  finally show False using assms(1,2) len(2) by (simp add: no_max_length_def)
qed

lemma loads_defined:
  "p + 2 \<le> length data \<Longrightarrow> \<exists>t. load16 data p = Some t"
  "p + 4 \<le> length data \<Longrightarrow> \<exists>t. load32 data p = Some t"
  "p + 8 \<le> length data \<Longrightarrow> \<exists>t. load64 data p = Some t"
  by (auto simp: load16_host load32_host load64_host sub_bytes_def)

lemma body_defined:
  assumes "p + unat t \<le> length data" and "t \<noteq> 0"
  shows "template_callback_str data p t \<noteq> None" "template_callback_bin data p t \<noteq> None"
    "template_callback_ext data p t \<noteq> None"
proof -
  have t: "0 < unat t" "unat (t - 1) = unat t - 1"
    using assms(2) by (simp_all add: unat_gt_0 unat_minus_one)
  show "template_callback_str data p t \<noteq> None" "template_callback_bin data p t \<noteq> None"
    using assms(1) by (simp_all add: template_callback_str_def template_callback_bin_def sub_bytes_def)
  have "sub_bytes data (p + 1) (unat (t - 1)) \<noteq> None" "rd data p \<noteq> None"
    using assms(1) t by (auto simp: sub_bytes_def rd_def)
  then show "template_callback_ext data p t \<noteq> None"
    by (auto simp: template_callback_ext_def)
qed

lemma byte_succ: "(ucast (b :: u8) :: u32) + 1 \<noteq> 0" "(ucast (h :: u16) :: u32) + 1 \<noteq> 0"
proof -
  have b: "unat (ucast b :: u32) < 2 ^ 8" using unat_lt_exp [of b] by (simp add: width_simps)
  have h: "unat (ucast h :: u32) < 2 ^ 16" using unat_lt_exp [of h] by (simp add: width_simps)
  show "(ucast b :: u32) + 1 \<noteq> 0" "(ucast h :: u32) + 1 \<noteq> 0"
    using b h by (simp_all add: word_unat_eq_iff unat_word_ariths(1))
qed

lemma exec_trail_ok:
  assumes "ctx_ok ctx" and "ctx_cs ctx \<noteq> CS_HEADER" and "p < length data"
    and len: "\<And>t. ctx_cs ctx = CS_EXT_32 \<Longrightarrow> load32 data p = Some t \<Longrightarrow> t + 1 \<noteq> 0"
  shows "step_ok data p (exec_trail zm data ctx p)"
proof (cases "length data - p < unat (ctx_trail ctx)")
  case True
  then show ?thesis using assms by (simp add: exec_trail_def Let_def)
next
  case False
  let ?t = "ctx_trail ctx" and ?q = "p + unat (ctx_trail ctx - 1)"
  have st: "stack_ok (ctx_stack ctx)" and tr: "trail_ok (ctx_cs ctx) ?t" "?t \<noteq> 0"
    using assms by (simp_all add: ctx_ok_def trail_ok_def)
  have t: "0 < unat ?t" "unat (?t - 1) = unat ?t - 1"
    using tr(2) by (simp_all add: unat_gt_0 unat_minus_one)
  have q: "p \<le> ?q" "?q < length data" "p + unat ?t \<le> length data"
    using False t assms(3) by linarith+
  have b: "rd data p = Some (data ! p)" using assms(3) by (simp add: rd_def)
  show ?thesis
    using False assms(2,3) st tr q b body_defined [OF q(3) tr(2)] len loads_defined [of p data]
    unfolding exec_trail_def Let_def
    by (cases "ctx_cs ctx")
      (auto simp: trail_ok_def template_callback_str_def [of _ _ 0] template_callback_bin_def [of _ _ 0] sub_bytes_def [of _ _ 0]
         byte_succ rd_def intro!: do_push_ok start_container_ok push_variable_ok again_ok)
qed

lemma no_max_lengthI: "0xff \<notin> set data \<Longrightarrow> no_max_length data"
  by (auto simp: no_max_length_def bytes_at_Cons) (metis Suc_lessD nth_mem)

lemma unat_max32: "unat (- 1 :: u32) = 4294967295"
  by (simp add: unsigned_minus_1_eq_mask mask_eq_exp_minus_1)

lemma execute_step_ok:
  assumes "ctx_ok ctx" and "p < length data" and "no_max_length data"
  shows "step_ok data p (execute_step zm data ctx p)"
  using assms exec_header_ok [OF assms(1,2)] exec_trail_ok [OF assms(1) _ assms(2) load32_max [OF assms(3,2)]]
  by (simp add: execute_step_def rd_def)

lemma execute_loop_ok:
  assumes "ctx_ok ctx" and "p \<le> length data" and "no_max_length data"
  shows "\<exists>r ctx' p'. execute_loop zm data ctx p = Some (r, ctx', p') \<and> out_ok data p (Stop r ctx' p')"
  using assms(1,2)
proof (induction "length data - p" arbitrary: ctx p rule: less_induct)
  case less
  show ?case
  proof (cases "p < length data")
    case False
    with less show ?thesis by (simp add: loop_end)
  next
    case True
    with execute_step_ok [OF less.prems(1) True assms(3), of zm] obtain out
      where out: "execute_step zm data ctx p = Some out" "out_ok data p out" by (auto simp: step_ok_def)
    show ?thesis
    proof (cases out)
      case (Run ctx1 q)
      with out True have "length data - q < length data - p" "q \<le> length data" "ctx_ok ctx1" by auto
      from less.hyps [OF this(1,3,2)] obtain r ctx' p' where
        "execute_loop zm data ctx1 q = Some (r, ctx', p')" "out_ok data q (Stop r ctx' p')" by auto
      with Run out True show ?thesis by (auto simp: loop_step)
    next
      case (Stop r ctx1 q)
      with out True show ?thesis by (simp add: loop_step)
    qed
  qed
qed

lemma new_context_ok [simp]: "ctx_ok (new_context z)"
  by (simp add: new_context_def template_init_def ctx_ok_def stack_ok_def)

section \<open>Properties\<close>

text \<open>
  C11: on a well-formed context and data without the length \<open>0xffffffff\<close>, the parser always returns;
  it stays inside the data; and it reports an error, a finished object, or that it needs more data, in
  which case the context it leaves behind is well-formed again.
\<close>

theorem msgpack_execute_safe:
  assumes "ctx_ok ctx" and "off \<le> length data" and "no_max_length data"
  shows "\<exists>r ctx' off'. template_execute zm ctx data off = Some (r, ctx', off') \<and> off \<le> off' \<and> off' \<le> length data \<and>
    (r = - 1 \<or> r = 0 \<and> ctx_ok ctx' \<or> r = 1 \<and> ctx_stack ctx' = [])"
  using execute_loop_ok [OF assms, of zm] assms(2) by (simp add: template_execute_def)

theorem msgpack_execute_safe_witness:
  "\<exists>r ctx' off'. template_execute (\<lambda>z n. Some z) (new_context ()) [0x92, 0xcd, 0x01, 0x00] 0 = Some (r, ctx', off') \<and>
    (0 :: nat) \<le> off' \<and> off' \<le> length [0x92, 0xcd, 0x01, 0x00 :: u8] \<and>
    (r = - 1 \<or> r = 0 \<and> ctx_ok ctx' \<or> r = 1 \<and> ctx_stack ctx' = [])"
proof -
  have "no_max_length [0x92, 0xcd, 0x01, 0x00]" by (rule no_max_lengthI) simp
  then show ?thesis by (intro msgpack_execute_safe) simp_all
qed


lemma witness_run:
  "template_execute (\<lambda>z n. Some z) (new_context ()) [0x92, 0xcd, 0x01] 0 =
     Some (0, (new_context ())\<lparr>ctx_cs := CS_UINT_16, ctx_trail := 2,
       ctx_stack := [\<lparr>st_obj = OBJECT_ARRAY [], st_count = 2, st_ct = CT_ARRAY_ITEM, st_map_key = OBJECT_NIL\<rparr>]\<rparr>, 2)"
  by (simp add: template_execute_def loop_step execute_step_def rd_def exec_header_def start_container_def
      template_callback_array_def MSGPACK_EMBED_STACK_SIZE_def new_context_def template_init_def exec_trail_def Let_def
      again_fixed_trail_def NEXT_CS_def cs_of_nat_def template_callback_root_def)


text \<open>
  the length \<open>0xffffffff\<close> of an extension is accepted although the data ends after it: the size plus
  one wraps to 0, and the parser makes an object of 4 GiB that lies outside its five bytes of data.
\<close>

theorem msgpack_ext32_outside:
  "template_execute (\<lambda>z n. Some z) (new_context ()) [0xc9, 0xff, 0xff, 0xff, 0xff] 0 = None"
  by (simp add: template_execute_def loop_step execute_step_def rd_def header_trail exec_trail_def Let_def
      new_context_def template_init_def load32_host sub_bytes_def be_val32_def again_fixed_trail_if_zero_def push_variable_def template_callback_ext_def
      unat_max32)

end
