(* ===== verification/MP_Roundtrip.thy ===== *)
theory MP_Roundtrip
  imports MP_Buffer MP_Stream
begin

text \<open>
  libmsgpack, the packer against the unpacker: what is packed is read back, up to the limit the
  unpacker has on the nesting of containers; objects beyond the limit are refused. Also the
  meaning of \<open>msgpack_object_equal\<close>, and that the width of a C integer type does not show in
  the bytes.
\<close>

section \<open>Nesting beyond the stack\<close>

definition rejects :: "'z zone_malloc \<Rightarrow> bytes \<Rightarrow> unpack_stack list \<Rightarrow> nat \<Rightarrow> bool" where
  "rejects zm data st p \<longleftrightarrow>
     (\<forall>ctx. ctx_cs ctx = CS_HEADER \<and> ctx_stack ctx = st \<longrightarrow> (\<exists>ctx' p'. execute_loop zm data ctx p = Some (- 1, ctx', p')))"

lemma rejectsE:
  assumes "rejects zm data st p" and "ctx_cs ctx = CS_HEADER" and "ctx_stack ctx = st"
  shows "\<exists>ctx' p'. execute_loop zm data ctx p = Some (- 1, ctx', p')"
  using assms by (simp add: rejects_def)

lemma opens_full:
  assumes "opens zm data st p k cb ct n" and "length st \<ge> 32"
  shows "rejects zm data st p"
  using assms unfolding rejects_def opens_def
  by (fastforce simp: start_container_def MSGPACK_EMBED_STACK_SIZE_def)

lemma array_items_reject:
  fixes zm :: "'z zone_malloc"
  assumes "\<And>x p st'. x \<in> set xs \<Longrightarrow> \<not> deep x \<Longrightarrow> length st' = Suc (length st) \<Longrightarrow> bytes_at data p (encode x) \<Longrightarrow>
      delivers zm data st' p (length (encode x)) x"
    and "\<And>x p st'. x \<in> set xs \<Longrightarrow> deep x \<Longrightarrow> length st' = Suc (length st) \<Longrightarrow> bytes_at data p (encode x) \<Longrightarrow>
      rejects zm data st' p"
    and "\<exists>x \<in> set xs. deep x" and "length xs < 2 ^ 32" and "bytes_at data p (concat (map encode xs))"
    and "ctx_cs ctx = CS_HEADER" and "ctx_stack ctx = array_frame key acc (length xs) # st"
  shows "\<exists>ctx' p'. execute_loop zm data ctx p = Some (- 1, ctx', p')"
  using assms
proof (induction xs arbitrary: p acc ctx)
  case (Cons x xs)
  have at: "bytes_at data p (encode x)" "bytes_at data (p + length (encode x)) (concat (map encode xs))"
    using Cons.prems(5) by (simp_all add: bytes_at_append)
  have st: "ctx_stack ctx = array_frame key acc (Suc (length xs)) # st" using Cons.prems(7) by simp
  show ?case
  proof (cases "deep x")
    case True
    show ?thesis by (rule rejectsE [OF Cons.prems(2) [of x, OF _ True _ at(1)] Cons.prems(6) st]) simp_all
  next
    case False
    then have deep: "\<exists>y \<in> set xs. deep y" using Cons.prems(3) by simp
    then have m: "length xs < 2 ^ 32" "length xs \<noteq> 0" using Cons.prems(4) by auto
    have "delivers zm data (array_frame key acc (Suc (length xs)) # st) p (length (encode x)) x"
      using Cons.prems(1) [OF _ False _ at(1)] by simp
    from array_inner [OF this Cons.prems(6) st m] obtain c where c: "ctx_cs c = CS_HEADER"
      "ctx_stack c = array_frame key (acc @ [x]) (length xs) # st"
      "execute_loop zm data ctx p = execute_loop zm data c (p + length (encode x))" by auto
    show ?thesis unfolding c(3)
    proof (rule Cons.IH [OF _ _ deep m(1) at(2) c(1,2)])
      show "rejects zm data st' q" if "y \<in> set xs" "deep y" "length st' = Suc (length st)" "bytes_at data q (encode y)" for y q st'
        using Cons.prems(2) [of y st' q] that by simp
    qed (use Cons.prems(1) in simp)
  qed
qed simp

lemma map_items_reject:
  fixes zm :: "'z zone_malloc"
  assumes "\<And>x p st'. x \<in> fst ` set kvs \<union> snd ` set kvs \<Longrightarrow> \<not> deep x \<Longrightarrow> length st' = Suc (length st) \<Longrightarrow>
      bytes_at data p (encode x) \<Longrightarrow> delivers zm data st' p (length (encode x)) x"
    and "\<And>x p st'. x \<in> fst ` set kvs \<union> snd ` set kvs \<Longrightarrow> deep x \<Longrightarrow> length st' = Suc (length st) \<Longrightarrow>
      bytes_at data p (encode x) \<Longrightarrow> rejects zm data st' p"
    and "\<exists>x \<in> fst ` set kvs \<union> snd ` set kvs. deep x" and "length kvs < 2 ^ 32"
    and "bytes_at data p (concat (map (\<lambda>(k, v). encode k @ encode v) kvs))"
    and "ctx_cs ctx = CS_HEADER" and "ctx_stack ctx = map_frame key acc (length kvs) CT_MAP_KEY # st"
  shows "\<exists>ctx' p'. execute_loop zm data ctx p = Some (- 1, ctx', p')"
  using assms
proof (induction kvs arbitrary: p acc key ctx)
  case (Cons kv kvs)
  obtain k v where kv: "kv = (k, v)" by (cases kv)
  let ?rest = "concat (map (\<lambda>(k, v). encode k @ encode v) kvs)"
  have at: "bytes_at data p (encode k)" "bytes_at data (p + length (encode k)) (encode v)"
    "bytes_at data (p + length (encode k) + length (encode v)) ?rest"
    using Cons.prems(5) by (simp_all add: bytes_at_append kv add.assoc)
  have st: "ctx_stack ctx = map_frame key acc (Suc (length kvs)) CT_MAP_KEY # st" using Cons.prems(7) by simp
  show ?case
  proof (cases "deep k")
    case True
    show ?thesis by (rule rejectsE [OF Cons.prems(2) [of k, OF _ True _ at(1)] Cons.prems(6) st]) (simp_all add: kv)
  next
    case False
    have "delivers zm data (map_frame key acc (Suc (length kvs)) CT_MAP_KEY # st) p (length (encode k)) k"
      using Cons.prems(1) [OF _ False _ at(1)] kv by simp
    from map_key_inner [OF this Cons.prems(6) st] obtain c where c: "ctx_cs c = CS_HEADER"
      "ctx_stack c = map_frame k acc (Suc (length kvs)) CT_MAP_VALUE # st"
      "execute_loop zm data ctx p = execute_loop zm data c (p + length (encode k))" by auto
    show ?thesis
    proof (cases "deep v")
      case True
      show ?thesis unfolding c(3)
        by (rule rejectsE [OF Cons.prems(2) [of v, OF _ True _ at(2)] c(1,2)]) (simp_all add: kv)
    next
      case nv: False
      then have deep: "\<exists>x \<in> fst ` set kvs \<union> snd ` set kvs. deep x" using False Cons.prems(3) kv by auto
      then have m: "length kvs < 2 ^ 32" "length kvs \<noteq> 0" using Cons.prems(4) by auto
      have "delivers zm data (map_frame k acc (Suc (length kvs)) CT_MAP_VALUE # st) (p + length (encode k)) (length (encode v)) v"
        using Cons.prems(1) [OF _ nv _ at(2)] kv by simp
      from map_value_inner [OF this c(1,2) m] obtain d where d: "ctx_cs d = CS_HEADER"
        "ctx_stack d = map_frame k (acc @ [(k, v)]) (length kvs) CT_MAP_KEY # st"
        "execute_loop zm data c (p + length (encode k)) = execute_loop zm data d (p + length (encode k) + length (encode v))" by auto
      show ?thesis unfolding c(3) d(3)
      proof (rule Cons.IH [OF _ _ deep m(1) at(3) d(1,2)])
        show "rejects zm data st' q" if "y \<in> fst ` set kvs \<union> snd ` set kvs" "deep y" "length st' = Suc (length st)"
          "bytes_at data q (encode y)" for y q st'
          using Cons.prems(2) [of y st' q] that by simp
      qed (use Cons.prems(1) in simp)
    qed
  qed
qed simp

lemma deep_item: "Suc n < obj_depth (OBJECT_ARRAY os) \<Longrightarrow> \<exists>x \<in> set os. n < obj_depth x"
  by (induction os) (auto simp: less_max_iff_disj)

lemma deep_kv: "Suc n < obj_depth (OBJECT_MAP kvs) \<Longrightarrow> \<exists>x \<in> fst ` set kvs \<union> snd ` set kvs. n < obj_depth x"
  by (induction kvs) (auto simp: less_max_iff_disj)

lemma rejects_array:
  fixes zm :: "'z zone_malloc"
  assumes "zone_total zm" and "length xs < 2 ^ 32" and "length st \<le> 32" and "32 < length st + obj_depth (OBJECT_ARRAY xs)"
    and at: "bytes_at data p (encode (OBJECT_ARRAY xs))"
    and del: "\<And>x p st'. x \<in> set xs \<Longrightarrow> \<not> 32 - Suc (length st) < obj_depth x \<Longrightarrow> length st' = Suc (length st) \<Longrightarrow>
      length st < 32 \<Longrightarrow> bytes_at data p (encode x) \<Longrightarrow> delivers zm data st' p (length (encode x)) x"
    and rej: "\<And>x p st'. x \<in> set xs \<Longrightarrow> 32 - Suc (length st) < obj_depth x \<Longrightarrow> length st' = Suc (length st) \<Longrightarrow>
      length st < 32 \<Longrightarrow> bytes_at data p (encode x) \<Longrightarrow> rejects zm data st' p"
  shows "rejects zm data st p"
proof -
  let ?k = "length (pack_array (size_field xs))"
  have b: "bytes_at data p (pack_array (size_field xs))" "bytes_at data (p + ?k) (concat (map encode xs))"
    using at by (simp_all add: bytes_at_append)
  note o = opens_array [OF assms(2) b(1), of zm st]
  show ?thesis
  proof (cases "length st < 32")
    case False
    with opens_full [OF o] show ?thesis by simp
  next
    case True
    then have deep: "\<exists>x \<in> set xs. 32 - Suc (length st) < obj_depth x"
      using assms(4) by (intro deep_item) simp
    then have ne: "length xs \<noteq> 0" by auto
    show ?thesis unfolding rejects_def
    proof (intro allI impI, elim conjE)
      fix ctx :: "'z template_context"
      assume "ctx_cs ctx = CS_HEADER" "ctx_stack ctx = st"
      with o obtain c1 where c1: "0 < ?k" "ctx_stack c1 = st" "execute_loop zm data ctx p =
          resume zm data (start_container (template_callback_array zm) CT_ARRAY_ITEM c1 (p + ?k - 1) (of_nat (length xs)))"
        unfolding opens_def by blast
      from start_array [OF assms(1) _ assms(2), of c1 "p + ?k - 1"] c1 True ne obtain c2 where c2:
        "ctx_stack c2 = array_frame OBJECT_NIL [] (length xs) # st" "ctx_cs c2 = CS_HEADER"
        "execute_loop zm data ctx p = execute_loop zm data c2 (p + ?k)" by auto
      show "\<exists>ctx' p'. execute_loop zm data ctx p = Some (- 1, ctx', p')"
        unfolding c2(3) by (rule array_items_reject [OF del rej deep assms(2) b(2) c2(2,1)]) (use True in simp_all)
    qed
  qed
qed

lemma rejects_map:
  fixes zm :: "'z zone_malloc"
  assumes "zone_total zm" and "length kvs < 2 ^ 32" and "length st \<le> 32" and "32 < length st + obj_depth (OBJECT_MAP kvs)"
    and at: "bytes_at data p (encode (OBJECT_MAP kvs))"
    and del: "\<And>x p st'. x \<in> fst ` set kvs \<union> snd ` set kvs \<Longrightarrow> \<not> 32 - Suc (length st) < obj_depth x \<Longrightarrow>
      length st' = Suc (length st) \<Longrightarrow> length st < 32 \<Longrightarrow> bytes_at data p (encode x) \<Longrightarrow>
      delivers zm data st' p (length (encode x)) x"
    and rej: "\<And>x p st'. x \<in> fst ` set kvs \<union> snd ` set kvs \<Longrightarrow> 32 - Suc (length st) < obj_depth x \<Longrightarrow>
      length st' = Suc (length st) \<Longrightarrow> length st < 32 \<Longrightarrow> bytes_at data p (encode x) \<Longrightarrow> rejects zm data st' p"
  shows "rejects zm data st p"
proof -
  let ?k = "length (pack_map (size_field kvs))" and ?items = "concat (map (\<lambda>(k, v). encode k @ encode v) kvs)"
  have enc: "encode (OBJECT_MAP kvs) = pack_map (size_field kvs) @ ?items"
    by (simp add: case_prod_beta' comp_def)
  have b: "bytes_at data p (pack_map (size_field kvs))" "bytes_at data (p + ?k) ?items"
    using at unfolding enc by (simp_all add: bytes_at_append)
  note o = opens_map [OF assms(2) b(1), of zm st]
  show ?thesis
  proof (cases "length st < 32")
    case False
    with opens_full [OF o] show ?thesis by simp
  next
    case True
    then have deep: "\<exists>x \<in> fst ` set kvs \<union> snd ` set kvs. 32 - Suc (length st) < obj_depth x"
      using assms(4) by (intro deep_kv) simp
    then have ne: "length kvs \<noteq> 0" by auto
    show ?thesis unfolding rejects_def
    proof (intro allI impI, elim conjE)
      fix ctx :: "'z template_context"
      assume "ctx_cs ctx = CS_HEADER" "ctx_stack ctx = st"
      with o obtain c1 where c1: "0 < ?k" "ctx_stack c1 = st" "execute_loop zm data ctx p =
          resume zm data (start_container (template_callback_map zm) CT_MAP_KEY c1 (p + ?k - 1) (of_nat (length kvs)))"
        unfolding opens_def by blast
      from start_map [OF assms(1) _ assms(2), of c1 "p + ?k - 1"] c1 True ne obtain c2 where c2:
        "ctx_stack c2 = map_frame OBJECT_NIL [] (length kvs) CT_MAP_KEY # st" "ctx_cs c2 = CS_HEADER"
        "execute_loop zm data ctx p = execute_loop zm data c2 (p + ?k)" by auto
      show "\<exists>ctx' p'. execute_loop zm data ctx p = Some (- 1, ctx', p')"
        unfolding c2(3) by (rule map_items_reject [OF del rej deep assms(2) b(2) c2(2,1)]) (use True in simp_all)
    qed
  qed
qed

lemma wf_kv: "wf_object (OBJECT_MAP kvs) \<Longrightarrow> x \<in> fst ` set kvs \<union> snd ` set kvs \<Longrightarrow> wf_object x"
  by auto

lemma rejects_deep:
  "zone_total zm \<Longrightarrow> wf_object x \<Longrightarrow> length st \<le> 32 \<Longrightarrow> 32 < length st + obj_depth x \<Longrightarrow> bytes_at data p (encode x) \<Longrightarrow>
   rejects zm data st p"
proof (induction x arbitrary: st p)
  case (OBJECT_ARRAY os)
  show ?case
  proof (rule rejects_array)
    fix y q and st' :: "unpack_stack list"
    assume y: "y \<in> set os" "length st' = Suc (length st)" "length st < 32" "bytes_at data q (encode y)"
    then have wf: "wf_object y" using OBJECT_ARRAY.prems by simp
    show "delivers zm data st' q (length (encode y)) y" if "\<not> 32 - Suc (length st) < obj_depth y"
      using y that OBJECT_ARRAY.prems(1) wf by (intro delivers_encode) simp_all
    show "rejects zm data st' q" if "32 - Suc (length st) < obj_depth y"
      using y that OBJECT_ARRAY.prems(1) wf by (intro OBJECT_ARRAY.IH [OF y(1)]) simp_all
  qed (use OBJECT_ARRAY.prems in simp_all)
next
  case (OBJECT_MAP kvs)
  show ?case
  proof (rule rejects_map)
    fix y q and st' :: "unpack_stack list"
    assume y: "y \<in> fst ` set kvs \<union> snd ` set kvs" "length st' = Suc (length st)" "length st < 32" "bytes_at data q (encode y)"
    then have wf: "wf_object y" using OBJECT_MAP.prems(2) wf_kv by blast
    show "delivers zm data st' q (length (encode y)) y" if "\<not> 32 - Suc (length st) < obj_depth y"
      using y that OBJECT_MAP.prems(1) wf by (intro delivers_encode) simp_all
    show "rejects zm data st' q" if "32 - Suc (length st) < obj_depth y"
    proof -
      from y(1) obtain kv where "kv \<in> set kvs" "y \<in> Basic_BNFs.fsts kv \<or> y \<in> Basic_BNFs.snds kv"
        by (auto simp: prod_set_simps)
      with y(2-4) that OBJECT_MAP.prems(1) wf show ?thesis
        using OBJECT_MAP.IH(1) [of kv y st' q] OBJECT_MAP.IH(2) [of kv y st' q] by auto
    qed
  qed (use OBJECT_MAP.prems in simp_all)
qed simp_all

section \<open>Packing, then unpacking\<close>

lemma execute_encoded:
  assumes "zone_total zm" and "wf_object x" and "obj_depth x \<le> 32"
  shows "\<exists>ctx'. template_execute zm (new_context z) (pre @ encode x @ rest) (length pre) =
    Some (1, ctx', length pre + length (encode x)) \<and> template_data ctx' = x"
proof -
  have "bytes_at (pre @ encode x @ rest) (length pre) (encode x)" by (simp add: bytes_at_def)
  with assms have d: "delivers zm (pre @ encode x @ rest) [] (length pre) (length (encode x)) x"
    by (intro delivers_encode) simp_all
  moreover have "0 < length (encode x)" using d by (simp add: delivers_def)
  ultimately show ?thesis
    by (auto simp: template_execute_def new_context_def template_init_def do_push_def template_data_def
        elim!: deliversE [where ctx = "new_context z", unfolded new_context_def template_init_def])
qed

lemma encode_nonempty: "zone_total zm \<Longrightarrow> wf_object x \<Longrightarrow> obj_depth x \<le> 32 \<Longrightarrow> encode x \<noteq> []"
  using delivers_encode [of zm x "[]" "encode x" 0] by (auto simp: delivers_def bytes_at_def)

lemma unpack_encoded:
  assumes "zone_total zm" and "wf_object x" and "obj_depth x \<le> 32"
  shows "\<exists>z'. msgpack_unpack zm z (pre @ encode x @ rest) (Some (length pre)) =
    Some (if rest = [] then UNPACK_SUCCESS else UNPACK_EXTRA_BYTES, Some (length pre + length (encode x)), Some x, z')"
proof -
  obtain ctx' where c: "template_execute zm (new_context z) (pre @ encode x @ rest) (length pre) =
      Some (1, ctx', length pre + length (encode x))" "template_data ctx' = x"
    using execute_encoded [OF assms, of z pre rest] by blast
  with encode_nonempty [OF assms] show ?thesis by (auto simp: msgpack_unpack_def)
qed

lemma packed_object:
  assumes "sb_inv s" and "wf_object x" and "msgpack_pack_object x (msgpack_packer_init s (sbuffer_callback ok)) = (r, pk)"
  shows "sb_inv (pk_data pk) \<and>
    (if r < 0 then (\<exists>p q. encode x = p @ q \<and> sb_content (pk_data pk) = sb_content s @ p)
     else sb_content (pk_data pk) = sb_content s @ encode x) \<and>
    (length (sb_content s) + length (encode x) < sb_limit ok \<longrightarrow> 0 \<le> r)"
  by (rule sb.sendsD [OF sb.sends_object [OF assms(2)] _ _ assms(1,3)]) (simp_all add: msgpack_packer_init_def)

section \<open>Packing: properties\<close>

text \<open>
  C13: packing an object into a growing buffer either succeeds and appends exactly the encoding of
  the object, or fails and has appended a prefix of it; the buffer stays well-formed, and packing does
  not fail while the allocator grants memory and the contents stay below \<open>2 ^ 62\<close> bytes.
\<close>

theorem msgpack_pack_object_effect:
  assumes "sb_inv s" and "wf_object x"
    and "msgpack_pack_object x (msgpack_packer_init s (sbuffer_callback ok)) = (r, pk)"
  shows "sb_inv (pk_data pk) \<and>
    (if r < 0 then (\<exists>p q. encode x = p @ q \<and> sb_content (pk_data pk) = sb_content s @ p)
     else sb_content (pk_data pk) = sb_content s @ encode x) \<and>
    ((\<forall>n. ok n) \<and> length (sb_content s) + length (encode x) < 2 ^ 62 \<longrightarrow> 0 \<le> r)"
proof -
  have "\<forall>n. ok n \<Longrightarrow> sb_limit ok = 2 ^ 62" by (simp add: sb_limit_def)
  with packed_object [OF assms] show ?thesis by (cases "r < 0") auto
qed

definition sb_empty :: msgpack_sbuffer where
  "sb_empty = msgpack_sbuffer_init \<lparr>sb_size = 0, sb_data = [], sb_alloc = 0\<rparr>"

lemma sb_empty [simp]: "sb_inv sb_empty" "sb_content sb_empty = []"
  by (simp_all add: sb_empty_def msgpack_sbuffer_init_def sb_inv_def sb_content_def)

theorem msgpack_pack_object_effect_witness:
  "\<exists>r pk. msgpack_pack_object (OBJECT_ARRAY [OBJECT_NIL, OBJECT_STR [65]])
      (msgpack_packer_init sb_empty (sbuffer_callback (\<lambda>n. True))) = (r, pk) \<and> 0 \<le> r \<and>
    sb_content (pk_data pk) = [0x92, 0xc0, 0xa1, 65]"
proof -
  let ?x = "OBJECT_ARRAY [OBJECT_NIL, OBJECT_STR [65]]"
  obtain r pk where run: "msgpack_pack_object ?x (msgpack_packer_init sb_empty (sbuffer_callback (\<lambda>n. True))) = (r, pk)"
    by (cases "msgpack_pack_object ?x (msgpack_packer_init sb_empty (sbuffer_callback (\<lambda>n. True)))")
  have e: "encode ?x = [0x92, 0xc0, 0xa1, 65]" by (simp add: pack_array_def pack_str_def size_field_def)
  have "wf_object ?x" by simp
  from msgpack_pack_object_effect [OF sb_empty(1) this run] have "0 \<le> r" "sb_content (pk_data pk) = [0x92, 0xc0, 0xa1, 65]"
    unfolding e by (auto split: if_splits)
  with run show ?thesis by blast
qed

text \<open>
  C2: what is packed is read back. A well-formed object with at most 32 nested containers, packed
  at the end of any buffer, is unpacked from the offset where it was put: the same object comes back, the
  offset moves behind it, and the result tells whether more bytes follow.
\<close>

theorem msgpack_roundtrip:
  assumes "zone_total zm" and "wf_object x" and "obj_depth x \<le> 32" and "sb_inv s"
    and "\<forall>n. ok n" and "length (sb_content s) + length (encode x) < 2 ^ 62"
  shows "\<exists>r pk z'. msgpack_pack_object x (msgpack_packer_init s (sbuffer_callback ok)) = (r, pk) \<and> 0 \<le> r \<and>
    msgpack_unpack zm z (sb_content (pk_data pk) @ rest) (Some (length (sb_content s))) =
      Some (if rest = [] then UNPACK_SUCCESS else UNPACK_EXTRA_BYTES,
            Some (length (sb_content (pk_data pk))), Some x, z')"
proof -
  obtain r pk where run: "msgpack_pack_object x (msgpack_packer_init s (sbuffer_callback ok)) = (r, pk)"
    by (cases "msgpack_pack_object x (msgpack_packer_init s (sbuffer_callback ok))")
  have "0 \<le> r" "sb_content (pk_data pk) = sb_content s @ encode x"
    using packed_object [OF assms(4,2) run] assms(5,6) by (auto simp: sb_limit_def split: if_splits)
  with run unpack_encoded [OF assms(1-3), of z "sb_content s" rest] show ?thesis by simp
qed

theorem msgpack_roundtrip_witness:
  "\<exists>r pk z'. msgpack_pack_object (OBJECT_ARRAY [OBJECT_NIL, OBJECT_STR [65]])
      (msgpack_packer_init sb_empty (sbuffer_callback (\<lambda>n. True))) = (r, pk) \<and> 0 \<le> r \<and>
    msgpack_unpack (\<lambda>z n. Some z) () (sb_content (pk_data pk) @ [0xc0]) (Some (length (sb_content sb_empty))) =
      Some (if [0xc0 :: u8] = [] then UNPACK_SUCCESS else UNPACK_EXTRA_BYTES,
            Some (length (sb_content (pk_data pk))), Some (OBJECT_ARRAY [OBJECT_NIL, OBJECT_STR [65]]), z')"
  by (rule msgpack_roundtrip) (simp_all add: zone_total_def pack_array_def pack_str_def size_field_def)

text \<open>
  C29: an object with more than 32 nested containers is packed like any other, but the unpacker refuses
  it: a parse error, with the offset where it was.
\<close>

theorem msgpack_depth_limit:
  assumes "zone_total zm" and "wf_object x" and "32 < obj_depth x"
  shows "\<exists>z'. msgpack_unpack zm z (pre @ encode x @ rest) (Some (length pre)) =
    Some (UNPACK_PARSE_ERROR, Some (length pre), None, z')"
proof -
  let ?data = "pre @ encode x @ rest"
  have at: "bytes_at ?data (length pre) (encode x)" by (simp add: bytes_at_def)
  have ne: "encode x \<noteq> []"
    using assms(3) by (cases x) (simp_all add: pack_array_def pack_map_def)
  have "rejects zm ?data [] (length pre)"
    by (rule rejects_deep [OF assms(1,2) _ _ at]) (use assms(3) in simp_all)
  then obtain ctx' p' where "execute_loop zm ?data (new_context z) (length pre) = Some (- 1, ctx', p')"
    using rejectsE [of zm ?data "[]" "length pre" "new_context z"] by (auto simp: new_context_def template_init_def)
  with ne show ?thesis by (simp add: msgpack_unpack_def template_execute_def)
qed

text \<open>An array in an array, so many deep.\<close>

primrec nested_array :: "nat \<Rightarrow> msgpack_object" where
  "nested_array 0 = OBJECT_NIL"
| "nested_array (Suc n) = OBJECT_ARRAY [nested_array n]"

lemma nested_array [simp]: "wf_object (nested_array n)" "obj_depth (nested_array n) = n"
  by (induction n) simp_all

theorem msgpack_depth_limit_witness:
  "\<exists>z'. msgpack_unpack (\<lambda>z n. Some z) () ([] @ encode (nested_array 33) @ []) (Some (length ([] :: bytes))) =
    Some (UNPACK_PARSE_ERROR, Some (length ([] :: bytes)), None, z')"
  by (rule msgpack_depth_limit) (simp_all add: zone_total_def)

text \<open>
  encodings are self-delimiting. Two different objects never have encodings of which one begins
  like the other, so a sequence of packed objects can be taken apart in one way only.
\<close>

theorem msgpack_prefix_free:
  assumes "wf_object x" and "wf_object y" and "obj_depth x \<le> 32" and "obj_depth y \<le> 32"
    and "encode x @ xs = encode y @ ys"
  shows "x = y \<and> xs = ys"
proof -
  have z: "zone_total (\<lambda>(z :: unit) n. Some z)" by (simp add: zone_total_def)
  from execute_encoded [OF z assms(1,3), of "()" "[]" xs] execute_encoded [OF z assms(2,4), of "()" "[]" ys] assms(5)
  have "x = y" by auto
  with assms(5) show ?thesis by simp
qed

theorem msgpack_prefix_free_witness:
  "OBJECT_NIL = OBJECT_NIL \<and> [1 :: u8] = [1]"
  by (rule msgpack_prefix_free) simp_all

section \<open>The width of integer types\<close>

lemma sint_of_int_small:
  "- (2 ^ (LENGTH('a) - 1)) \<le> d \<Longrightarrow> d < 2 ^ (LENGTH('a) - 1) \<Longrightarrow> sint (of_int d :: 'a::len word) = d"
  by (simp add: sint_uint unsigned_of_int signed_take_bit_take_bit signed_take_bit_int_eq_self)

lemma uint_of_int_small: "0 \<le> d \<Longrightarrow> d < 2 ^ LENGTH('a) \<Longrightarrow> uint (of_int d :: 'a::len word) = d"
  by (simp add: unsigned_of_int take_bit_int_eq_self)

lemma ucast_of_int_narrow:
  "LENGTH('b) \<le> LENGTH('a) \<Longrightarrow> ucast (of_int d :: 'a::len word) = (of_int d :: 'b::len word)"
  by (rule word_uint_eq_iff [THEN iffD2]) (simp add: unsigned_ucast_eq unsigned_of_int min_def)

text \<open>The bytes of a number, whatever its type.\<close>

definition int_bytes :: "int \<Rightarrow> bytes" where
  "int_bytes d = (if 0 \<le> d then pack_real_uint64 (of_int d) else pack_real_int64 (of_int d))"

lemma word_less_int: "0 \<le> d \<Longrightarrow> d < 2 ^ LENGTH('a) \<Longrightarrow> (of_int d :: 'a::len word) < k \<longleftrightarrow> d < uint k"
  by (simp add: word_less_def uint_of_int_small)

lemmas int_pack_simps = TAKE8_def ucast_of_int_narrow sint_of_int_small word_less_int store16_host store32_host store64_host

lemma pack_real_int64_bytes:
  assumes "- (2 ^ 63) \<le> d" and "d < 2 ^ 63"
  shows "pack_real_int64 (of_int d) = int_bytes d"
proof -
  have "sint (of_int d :: u64) = d" using assms by (intro sint_of_int_small) simp_all
  then show ?thesis
    using assms by (simp add: int_bytes_def pack_real_int64_def pack_real_uint64_def word_less_int TAKE8_def)
qed

lemma pack_real_int_narrow:
  "- (2 ^ 15) \<le> d \<Longrightarrow> d < 2 ^ 15 \<Longrightarrow> pack_real_int16 (of_int d) = pack_real_int64 (of_int d)"
  "- (2 ^ 31) \<le> d \<Longrightarrow> d < 2 ^ 31 \<Longrightarrow> pack_real_int32 (of_int d) = pack_real_int64 (of_int d)"
proof -
  assume d: "- (2 ^ 15) \<le> d" "d < 2 ^ 15"
  then have "sint (of_int d :: u16) = d" "sint (of_int d :: u64) = d" by (simp_all add: sint_of_int_small)
  with d show "pack_real_int16 (of_int d) = pack_real_int64 (of_int d)"
    by (simp add: pack_real_int16_def pack_real_int64_def TAKE8_def ucast_of_int_narrow)
next
  assume d: "- (2 ^ 31) \<le> d" "d < 2 ^ 31"
  then have "sint (of_int d :: u32) = d" "sint (of_int d :: u64) = d" by (simp_all add: sint_of_int_small)
  with d show "pack_real_int32 (of_int d) = pack_real_int64 (of_int d)"
    by (simp add: pack_real_int32_def pack_real_int64_def TAKE8_def ucast_of_int_narrow)
qed

lemma pack_real_uint_narrow:
  "0 \<le> d \<Longrightarrow> d < 2 ^ 16 \<Longrightarrow> pack_real_uint16 (of_int d) = pack_real_uint64 (of_int d)"
  "0 \<le> d \<Longrightarrow> d < 2 ^ 32 \<Longrightarrow> pack_real_uint32 (of_int d) = pack_real_uint64 (of_int d)"
  by (simp_all add: pack_real_uint16_def pack_real_uint32_def pack_real_uint64_def word_less_int TAKE8_def ucast_of_int_narrow)

text \<open>The value ranges of the C integer types of a size in bytes.\<close>

definition cint_range :: "nat \<Rightarrow> int \<Rightarrow> bool" where
  "cint_range size_of d \<longleftrightarrow> size_of \<in> {2, 4, 8} \<and> - (2 ^ (8 * size_of - 1)) \<le> d \<and> d < 2 ^ (8 * size_of - 1)"

definition unsigned_cint_range :: "nat \<Rightarrow> int \<Rightarrow> bool" where
  "unsigned_cint_range size_of d \<longleftrightarrow> size_of \<in> {2, 4, 8} \<and> 0 \<le> d \<and> d < 2 ^ (8 * size_of)"

lemma pack_cint_bytes: "cint_range size_of d \<Longrightarrow> pack_cint size_of d = int_bytes d"
  by (auto simp: cint_range_def pack_cint_def pack_real_int_narrow pack_real_int64_bytes)

lemma pack_unsigned_cint_bytes: "unsigned_cint_range size_of d \<Longrightarrow> pack_unsigned_cint size_of d = int_bytes d"
  by (auto simp: unsigned_cint_range_def pack_unsigned_cint_def pack_real_uint_narrow int_bytes_def)

definition int_object :: "int \<Rightarrow> msgpack_object" where
  "int_object d = (if 0 \<le> d then OBJECT_POSITIVE_INTEGER (of_int d) else OBJECT_NEGATIVE_INTEGER (of_int d))"

lemma encode_int_object: "encode (int_object d) = int_bytes d"
  by (simp add: int_object_def int_bytes_def)

text \<open>
  C27: the width of an integer type does not show. Whether a number is packed as a 2-, 4- or 8-byte
  signed or unsigned C integer, the bytes are the same, and unpacking them gives the number, tagged by
  its sign.
\<close>

theorem msgpack_integer_width:
  assumes "cint_range size_of d \<and> bs = pack_cint size_of d \<or> unsigned_cint_range size_of d \<and> bs = pack_unsigned_cint size_of d"
  shows "bs = encode (int_object d) \<and>
    (\<exists>z'. msgpack_unpack zm z bs None = Some (UNPACK_SUCCESS, None, Some (int_object d), z'))"
proof -
  have bs: "bs = encode (int_object d)"
    using assms by (auto simp: pack_cint_bytes pack_unsigned_cint_bytes encode_int_object)
  have neg: "sint (of_int d :: u64) < 0" if "d < 0"
    using assms that by (auto simp: sint_of_int_small cint_range_def unsigned_cint_range_def)
  then have "delivers zm bs [] 0 (length bs) (int_object d)"
    unfolding bs using delivers_uint64 [of "encode (int_object d)" 0 "of_int d"]
      delivers_negative [of "encode (int_object d)" 0 "of_int d"]
    by (auto simp: int_object_def bytes_at_def)
  moreover have "0 < length bs" using calculation by (simp add: delivers_def)
  ultimately show ?thesis
    using bs by (auto simp: msgpack_unpack_def template_execute_def new_context_def template_init_def do_push_def
        template_data_def elim!: deliversE [where ctx = "new_context z", unfolded new_context_def template_init_def])
qed

theorem msgpack_integer_width_witness:
  "[0xd1, 0xff, 0x00] = encode (int_object (- 256)) \<and>
    (\<exists>z'. msgpack_unpack (\<lambda>z n. Some z) () [0xd1, 0xff, 0x00] None = Some (UNPACK_SUCCESS, None, Some (int_object (- 256)), z'))"
proof -
  have "[0xd1, 0xff, 0x00] = pack_cint 4 (- 256)" by code_simp
  then show ?thesis by (intro msgpack_integer_width [of 4]) (simp add: cint_range_def)
qed

end
