(* ===== verification/MP_Zone.thy ===== *)
theory MP_Zone
  imports MP_Buffer
begin

text \<open>
  libmsgpack, memory zones (\<open>include/msgpack/zone.h\<close>, \<open>src/zone.c\<close>).

  A zone hands out pieces of chunks that it gets from \<open>malloc\<close>, and frees everything at once. Pointers
  are 64-bit addresses. A chunk is its address and the size of its data part, which the source knows
  when it allocates the chunk; the list of chunks is the linked list that starts at \<open>head\<close>. \<open>malloc\<close> is
  the argument \<open>mal\<close>, a function of the state of the heap; what C says about it is \<open>malloc_law\<close>. The
  effects of destroying a zone are returned as lists: the finalizers in the order of their calls,
  and the addresses that are freed.
\<close>

section \<open>Data\<close>

type_synonym 'h malloc_fn = "'h \<Rightarrow> u64 \<Rightarrow> (u64 \<times> 'h) option"

record msgpack_zone_chunk =
  ck_addr :: u64
  ck_data :: u64

record msgpack_zone_chunk_list =
  cl_free :: u64
  cl_ptr :: u64
  cl_head :: "msgpack_zone_chunk list"

text \<open>The finalizers from \<open>array\<close> to \<open>tail\<close>, and the number of places from \<open>array\<close> to \<open>end\<close>.\<close>

record 'f msgpack_zone_finalizer_array =
  fa_used :: "'f list"
  fa_places :: nat

record 'f msgpack_zone =
  chunk_list :: msgpack_zone_chunk_list
  finalizer_array :: "'f msgpack_zone_finalizer_array"
  zn_chunk_size :: u64

definition sizeof_chunk :: u64 where
  "sizeof_chunk = 8"

definition sizeof_finalizer :: nat where
  "sizeof_finalizer = 16"

definition MSGPACK_ZONE_ALIGN :: u64 where
  "MSGPACK_ZONE_ALIGN = 8"

definition MSGPACK_ZONE_CHUNK_SIZE :: u64 where
  "MSGPACK_ZONE_CHUNK_SIZE = 8192"

section \<open>Chunks\<close>

definition init_chunk_list :: "'h malloc_fn \<Rightarrow> 'h \<Rightarrow> u64 \<Rightarrow> (msgpack_zone_chunk_list \<times> 'h) option" where
  "init_chunk_list mal h chunk_size =
     (case mal h (sizeof_chunk + chunk_size) of
        None \<Rightarrow> None
      | Some (chunk, h') \<Rightarrow>
          Some (\<lparr>cl_free = chunk_size, cl_ptr = chunk + sizeof_chunk,
                 cl_head = [\<lparr>ck_addr = chunk, ck_data = chunk_size\<rparr>]\<rparr>, h'))"

fun destroy_chunks :: "msgpack_zone_chunk list \<Rightarrow> u64 list" where
  "destroy_chunks [] = []"
| "destroy_chunks (c # n) = ck_addr c # (if n \<noteq> [] then destroy_chunks n else [])"

definition destroy_chunk_list :: "msgpack_zone_chunk_list \<Rightarrow> u64 list" where
  "destroy_chunk_list cl = destroy_chunks (cl_head cl)"

text \<open>All chunks but the last are freed; the result is the last one and what was freed.\<close>

fun clear_chunks :: "msgpack_zone_chunk list \<Rightarrow> msgpack_zone_chunk list \<times> u64 list" where
  "clear_chunks [] = ([], [])"
| "clear_chunks (c # n) =
     (if n \<noteq> [] then (let (last, freed) = clear_chunks n in (last, ck_addr c # freed)) else ([c], []))"

definition clear_chunk_list :: "msgpack_zone_chunk_list \<Rightarrow> u64 \<Rightarrow> (msgpack_zone_chunk_list \<times> u64 list) option" where
  "clear_chunk_list cl chunk_size =
     (case clear_chunks (cl_head cl) of
        ([c], freed) \<Rightarrow> Some (\<lparr>cl_free = chunk_size, cl_ptr = ck_addr c + sizeof_chunk, cl_head = [c]\<rparr>, freed)
      | _ \<Rightarrow> None)"

text \<open>The size of the new chunk is found by the same loop as in the buffers.\<close>

definition msgpack_zone_malloc_expand ::
  "'h malloc_fn \<Rightarrow> 'h \<Rightarrow> 'f msgpack_zone \<Rightarrow> u64 \<Rightarrow> u64 option \<times> 'f msgpack_zone \<times> 'h" where
  "msgpack_zone_malloc_expand mal h zone n =
     (let cl = chunk_list zone; sz = grow_size (zn_chunk_size zone) n
      in case mal h (sizeof_chunk + sz) of
           None \<Rightarrow> (None, zone, h)
         | Some (chunk, h') \<Rightarrow>
             (let ptr = chunk + sizeof_chunk
              in (Some ptr,
                  zone\<lparr>chunk_list := \<lparr>cl_free = sz - n, cl_ptr = ptr + n,
                                      cl_head = \<lparr>ck_addr = chunk, ck_data = sz\<rparr> # cl_head cl\<rparr>\<rparr>, h')))"

definition msgpack_zone_malloc_no_align ::
  "'h malloc_fn \<Rightarrow> 'h \<Rightarrow> 'f msgpack_zone \<Rightarrow> u64 \<Rightarrow> u64 option \<times> 'f msgpack_zone \<times> 'h" where
  "msgpack_zone_malloc_no_align mal h zone n =
     (let cl = chunk_list zone
      in if cl_free cl < n then msgpack_zone_malloc_expand mal h zone n
         else (Some (cl_ptr cl),
               zone\<lparr>chunk_list := cl\<lparr>cl_free := cl_free cl - n, cl_ptr := cl_ptr cl + n\<rparr>\<rparr>, h))"

definition msgpack_zone_malloc ::
  "'h malloc_fn \<Rightarrow> 'h \<Rightarrow> 'f msgpack_zone \<Rightarrow> u64 \<Rightarrow> u64 option \<times> 'f msgpack_zone \<times> 'h" where
  "msgpack_zone_malloc mal h zone n =
     (let cl = chunk_list zone;
          aligned = (cl_ptr cl + (MSGPACK_ZONE_ALIGN - 1)) div MSGPACK_ZONE_ALIGN * MSGPACK_ZONE_ALIGN;
          adjusted_size = n + (aligned - cl_ptr cl)
      in if cl_free cl \<ge> adjusted_size then
           (Some aligned,
            zone\<lparr>chunk_list := cl\<lparr>cl_free := cl_free cl - adjusted_size, cl_ptr := cl_ptr cl + adjusted_size\<rparr>\<rparr>, h)
         else
           (case msgpack_zone_malloc_expand mal h zone (n + (MSGPACK_ZONE_ALIGN - 1)) of
              (Some ptr, zone', h') \<Rightarrow> (Some (ptr div MSGPACK_ZONE_ALIGN * MSGPACK_ZONE_ALIGN), zone', h')
            | (None, zone', h') \<Rightarrow> (None, zone', h')))"

section \<open>Finalizers\<close>

definition init_finalizer_array :: "'f msgpack_zone_finalizer_array" where
  "init_finalizer_array = \<lparr>fa_used = [], fa_places = 0\<rparr>"

text \<open>The calls, from \<open>tail\<close> down to \<open>array\<close>: place \<open>k - 1\<close> for each position \<open>k\<close> of \<open>fin\<close>.\<close>

fun call_finalizers :: "'f list \<Rightarrow> nat \<Rightarrow> 'f list" where
  "call_finalizers fs 0 = []"
| "call_finalizers fs (Suc k) = (fs ! k) # call_finalizers fs k"

definition call_finalizer_array :: "'f msgpack_zone_finalizer_array \<Rightarrow> 'f list" where
  "call_finalizer_array fa = call_finalizers (fa_used fa) (length (fa_used fa))"

definition destroy_finalizer_array :: "'f msgpack_zone_finalizer_array \<Rightarrow> 'f list" where
  "destroy_finalizer_array fa = call_finalizer_array fa"

definition clear_finalizer_array :: "'f msgpack_zone_finalizer_array \<Rightarrow> 'f list \<times> 'f msgpack_zone_finalizer_array" where
  "clear_finalizer_array fa = (call_finalizer_array fa, fa\<lparr>fa_used := []\<rparr>)"

text \<open>Whether \<open>realloc\<close> grants that many bytes is the argument \<open>ok\<close>.\<close>

definition msgpack_zone_push_finalizer_expand ::
  "(nat \<Rightarrow> bool) \<Rightarrow> 'f msgpack_zone \<Rightarrow> 'f \<Rightarrow> bool \<times> 'f msgpack_zone" where
  "msgpack_zone_push_finalizer_expand ok zone f =
     (let fa = finalizer_array zone;
          nused = fa_places fa;
          nnext = (if nused = 0 then (if sizeof_finalizer < 72 div 2 then 72 div sizeof_finalizer else 8) else nused * 2)
      in if \<not> ok (sizeof_finalizer * nnext) then (False, zone)
         else (True, zone\<lparr>finalizer_array := \<lparr>fa_used = take nused (fa_used fa) @ [f], fa_places = nnext\<rparr>\<rparr>))"

definition msgpack_zone_push_finalizer ::
  "(nat \<Rightarrow> bool) \<Rightarrow> 'f msgpack_zone \<Rightarrow> 'f \<Rightarrow> bool \<times> 'f msgpack_zone" where
  "msgpack_zone_push_finalizer ok zone f =
     (let fa = finalizer_array zone
      in if length (fa_used fa) = fa_places fa then msgpack_zone_push_finalizer_expand ok zone f
         else (True, zone\<lparr>finalizer_array := fa\<lparr>fa_used := fa_used fa @ [f]\<rparr>\<rparr>))"

section \<open>Zones\<close>

definition msgpack_zone_is_empty :: "'f msgpack_zone \<Rightarrow> bool" where
  "msgpack_zone_is_empty zone \<longleftrightarrow>
     cl_free (chunk_list zone) = zn_chunk_size zone \<and> length (cl_head (chunk_list zone)) = 1 \<and>
     fa_used (finalizer_array zone) = []"

text \<open>The calls and the freed chunks.\<close>

definition msgpack_zone_destroy :: "'f msgpack_zone \<Rightarrow> 'f list \<times> u64 list" where
  "msgpack_zone_destroy zone =
     (destroy_finalizer_array (finalizer_array zone), destroy_chunk_list (chunk_list zone))"

definition msgpack_zone_clear :: "'f msgpack_zone \<Rightarrow> ('f list \<times> u64 list \<times> 'f msgpack_zone) option" where
  "msgpack_zone_clear zone =
     (let (calls, fa) = clear_finalizer_array (finalizer_array zone)
      in case clear_chunk_list (chunk_list zone) (zn_chunk_size zone) of
           None \<Rightarrow> None
         | Some (cl, freed) \<Rightarrow> Some (calls, freed, zone\<lparr>finalizer_array := fa, chunk_list := cl\<rparr>))"

definition msgpack_zone_init :: "'h malloc_fn \<Rightarrow> 'h \<Rightarrow> u64 \<Rightarrow> ('f msgpack_zone \<times> 'h) option" where
  "msgpack_zone_init mal h chunk_size =
     (case init_chunk_list mal h chunk_size of
        None \<Rightarrow> None
      | Some (cl, h') \<Rightarrow>
          Some (\<lparr>chunk_list = cl, finalizer_array = init_finalizer_array, zn_chunk_size = chunk_size\<rparr>, h'))"

text \<open>The record itself is allocated first; its address is not used by the model.\<close>

definition sizeof_zone :: u64 where
  "sizeof_zone = 56"

definition msgpack_zone_new :: "'h malloc_fn \<Rightarrow> 'h \<Rightarrow> u64 \<Rightarrow> ('f msgpack_zone \<times> 'h) option" where
  "msgpack_zone_new mal h chunk_size =
     (case mal h sizeof_zone of
        None \<Rightarrow> None
      | Some (zone, h1) \<Rightarrow>
          (case init_chunk_list mal h1 chunk_size of
             None \<Rightarrow> None
           | Some (cl, h2) \<Rightarrow>
               Some (\<lparr>chunk_list = cl, finalizer_array = init_finalizer_array, zn_chunk_size = chunk_size\<rparr>, h2)))"

definition msgpack_zone_swap :: "'f msgpack_zone \<Rightarrow> 'f msgpack_zone \<Rightarrow> 'f msgpack_zone \<times> 'f msgpack_zone" where
  "msgpack_zone_swap a b = (b, a)"

section \<open>What C says about malloc\<close>

definition span :: "u64 \<Rightarrow> nat \<Rightarrow> nat set" where
  "span a n = {unat a ..< unat a + n}"

text \<open>
  \<open>live h\<close> are the addresses in use. A block is aligned for every type, ends before the end of the
  address space, and is disjoint from everything in use.
\<close>

definition malloc_law :: "'h malloc_fn \<Rightarrow> ('h \<Rightarrow> nat set) \<Rightarrow> bool" where
  "malloc_law mal live \<longleftrightarrow>
     (\<forall>h n a h'. mal h n = Some (a, h') \<longrightarrow>
        a \<noteq> 0 \<and> unat a mod 16 = 0 \<and> unat a + unat n + 16 \<le> 2 ^ 64 \<and> span a (unat n) \<inter> live h = {} \<and>
        live h \<union> span a (unat n) \<subseteq> live h')"

text \<open>An allocator that never reuses memory.\<close>

definition bump_malloc :: "nat malloc_fn" where
  "bump_malloc brk n =
     (if 0 < brk \<and> brk mod 16 = 0 \<and> brk + unat n + 16 \<le> 2 ^ 64
      then Some (of_nat brk, 16 * ((brk + unat n + 15) div 16)) else None)"

lemma bump_malloc_law: "malloc_law bump_malloc (\<lambda>brk. {..< brk})"
  unfolding malloc_law_def
proof (intro allI impI)
  fix h n a h'
  assume run: "bump_malloc h n = Some (a, h')"
  then have h: "0 < h" "h mod 16 = 0" "h + unat n + 16 \<le> 2 ^ 64" "a = of_nat h" "h' = 16 * ((h + unat n + 15) div 16)"
    by (auto simp: bump_malloc_def split: if_splits)
  have a: "unat a = h" using h by (simp add: unat_of_nat_small)
  have "h + unat n \<le> h'" using h(5) by linarith
  with h a show "a \<noteq> 0 \<and> unat a mod 16 = 0 \<and> unat a + unat n + 16 \<le> 2 ^ 64 \<and> span a (unat n) \<inter> {..<h} = {} \<and>
      {..<h} \<union> span a (unat n) \<subseteq> {..<h'}"
    by (auto simp: span_def)
qed

section \<open>The invariant\<close>

text \<open>All of a chunk, and the part of it that can be handed out.\<close>

definition chunk_span :: "msgpack_zone_chunk \<Rightarrow> nat set" where
  "chunk_span c = {unat (ck_addr c) ..< unat (ck_addr c) + 8 + unat (ck_data c)}"

definition data_span :: "msgpack_zone_chunk \<Rightarrow> nat set" where
  "data_span c = {unat (ck_addr c) + 8 ..< unat (ck_addr c) + 8 + unat (ck_data c)}"

definition chunk_ok :: "msgpack_zone_chunk \<Rightarrow> bool" where
  "chunk_ok c \<longleftrightarrow> unat (ck_addr c) mod 16 = 0 \<and> unat (ck_addr c) + 8 + unat (ck_data c) + 16 \<le> 2 ^ 64"

fun chunks_disjoint :: "msgpack_zone_chunk list \<Rightarrow> bool" where
  "chunks_disjoint [] = True"
| "chunks_disjoint (c # cs) \<longleftrightarrow> (\<forall>d \<in> set cs. chunk_span c \<inter> chunk_span d = {}) \<and> chunks_disjoint cs"

definition chunks_inv :: "nat set \<Rightarrow> msgpack_zone_chunk list \<Rightarrow> u64 \<Rightarrow> bool" where
  "chunks_inv l cs chunk_size \<longleftrightarrow> cs \<noteq> [] \<and> list_all chunk_ok cs \<and> chunks_disjoint cs \<and>
     (\<forall>c \<in> set cs. chunk_span c \<subseteq> l) \<and> ck_data (last cs) = chunk_size"

text \<open>The free part is the rest of the newest chunk; the oldest chunk has the standard size.\<close>

definition zone_inv :: "nat set \<Rightarrow> 'f msgpack_zone \<Rightarrow> bool" where
  "zone_inv l z \<longleftrightarrow>
     (let cl = chunk_list z; c = hd (cl_head cl)
      in chunks_inv l (cl_head cl) (zn_chunk_size z) \<and>
         unat (cl_ptr cl) + unat (cl_free cl) = unat (ck_addr c) + 8 + unat (ck_data c) \<and>
         unat (ck_addr c) + 8 \<le> unat (cl_ptr cl)) \<and>
     unat (zn_chunk_size z) < 2 ^ 62 \<and> length (fa_used (finalizer_array z)) \<le> fa_places (finalizer_array z)"

text \<open>The addresses that were handed out, or skipped.\<close>

definition zone_used :: "'f msgpack_zone \<Rightarrow> nat set" where
  "zone_used z =
     (let cl = chunk_list z
      in \<Union> (data_span ` set (tl (cl_head cl))) \<union> {unat (ck_addr (hd (cl_head cl))) + 8 ..< unat (cl_ptr cl)})"

lemma data_chunk: "data_span c \<subseteq> chunk_span c"
  by (auto simp: data_span_def chunk_span_def)

lemma zone_used_live:
  assumes "zone_inv l z"
  shows "zone_used z \<subseteq> l"
proof -
  let ?cs = "cl_head (chunk_list z)"
  have cs: "?cs \<noteq> []" "\<forall>c \<in> set ?cs. chunk_span c \<subseteq> l" using assms by (auto simp: zone_inv_def chunks_inv_def Let_def)
  have "{unat (ck_addr (hd ?cs)) + 8 ..< unat (cl_ptr (chunk_list z))} \<subseteq> chunk_span (hd ?cs)"
    using assms by (auto simp: zone_inv_def chunk_span_def Let_def)
  also have "chunk_span (hd ?cs) \<subseteq> l" using cs by simp
  finally have "{unat (ck_addr (hd ?cs)) + 8 ..< unat (cl_ptr (chunk_list z))} \<subseteq> l" .
  moreover have "data_span c \<subseteq> l" if "c \<in> set (tl ?cs)" for c
    using cs that data_chunk [of c] by (cases ?cs) auto
  ultimately show ?thesis using cs by (auto simp: zone_used_def Let_def)
qed

lemma chunks_inv_mono: "chunks_inv l cs n \<Longrightarrow> l \<subseteq> l' \<Longrightarrow> chunks_inv l' cs n"
  by (auto simp: chunks_inv_def)

text \<open>A new chunk.\<close>

lemma malloc_chunk:
  assumes "malloc_law mal live" and "mal h (sizeof_chunk + sz) = Some (a, h')" and "unat sz < 2 ^ 63"
  shows "chunk_ok \<lparr>ck_addr = a, ck_data = sz\<rparr>" "chunk_span \<lparr>ck_addr = a, ck_data = sz\<rparr> \<inter> live h = {}"
    "live h \<union> chunk_span \<lparr>ck_addr = a, ck_data = sz\<rparr> \<subseteq> live h'" "unat (a + sizeof_chunk) = unat a + 8"
    "unat a mod 16 = 0" "a \<noteq> 0"
proof -
  have n: "unat (sizeof_chunk + sz) = 8 + unat sz"
    using assms(3) by (simp add: sizeof_chunk_def unat_word_ariths)
  from assms(1,2) have law: "a \<noteq> 0" "unat a mod 16 = 0" "unat a + (8 + unat sz) + 16 \<le> 2 ^ 64"
    "span a (8 + unat sz) \<inter> live h = {}" "live h \<union> span a (8 + unat sz) \<subseteq> live h'"
    unfolding malloc_law_def n [symmetric] by blast+
  then show "chunk_ok \<lparr>ck_addr = a, ck_data = sz\<rparr>" "chunk_span \<lparr>ck_addr = a, ck_data = sz\<rparr> \<inter> live h = {}"
    "live h \<union> chunk_span \<lparr>ck_addr = a, ck_data = sz\<rparr> \<subseteq> live h'" "unat a mod 16 = 0" "a \<noteq> 0"
    by (simp_all add: chunk_ok_def chunk_span_def span_def add.assoc)
  from law(3) show "unat (a + sizeof_chunk) = unat a + 8"
    by (simp add: sizeof_chunk_def unat_word_ariths)
qed

lemma zone_new_inv:
  assumes law: "malloc_law mal live" and "msgpack_zone_new mal h chunk_size = Some (z, h')" and size: "unat chunk_size < 2 ^ 62"
  shows "zone_inv (live h') z \<and> zone_used z = {} \<and> fa_used (finalizer_array z) = []"
proof -
  from assms(2) obtain zone h1 a where h1: "mal h sizeof_zone = Some (zone, h1)" "mal h1 (sizeof_chunk + chunk_size) = Some (a, h')"
    and z: "z = \<lparr>chunk_list = \<lparr>cl_free = chunk_size, cl_ptr = a + sizeof_chunk, cl_head = [\<lparr>ck_addr = a, ck_data = chunk_size\<rparr>]\<rparr>,
      finalizer_array = init_finalizer_array, zn_chunk_size = chunk_size\<rparr>"
    by (auto simp: msgpack_zone_new_def init_chunk_list_def split: option.splits)
  from malloc_chunk [OF law h1(2)] size show ?thesis
    by (auto simp: z zone_inv_def chunks_inv_def zone_used_def init_finalizer_array_def)
qed

section \<open>Allocation\<close>

text \<open>
  \<open>grants live z h n r z' h'\<close>: the outcome of an allocation of \<open>n\<close> bytes. The invariant holds again,
  nothing that was handed out is taken back, and the block, if there is one, lies in what is newly
  handed out.
\<close>

definition grants ::
  "('h \<Rightarrow> nat set) \<Rightarrow> 'f msgpack_zone \<Rightarrow> nat \<Rightarrow> u64 option \<times> 'f msgpack_zone \<times> 'h \<Rightarrow> bool" where
  "grants live z n out \<longleftrightarrow> (case out of (r, z', h') \<Rightarrow>
     zone_inv (live h') z' \<and> zone_used z \<subseteq> zone_used z' \<and> finalizer_array z' = finalizer_array z \<and>
     (case r of None \<Rightarrow> z' = z | Some p \<Rightarrow> p \<noteq> 0 \<and> span p n \<subseteq> zone_used z' - zone_used z))"

lemma expand_grants:
  assumes law: "malloc_law mal live" and inv: "zone_inv (live h) z" and n: "unat n < 2 ^ 62"
  shows "grants live z (unat n) (msgpack_zone_malloc_expand mal h z n) \<and>
    (\<forall>p z' h'. msgpack_zone_malloc_expand mal h z n = (Some p, z', h') \<longrightarrow> unat p mod 8 = 0)"
proof -
  let ?sz = "grow_size (zn_chunk_size z) n" and ?cs = "cl_head (chunk_list z)"
  have cs: "unat (zn_chunk_size z) < 2 ^ 62" "chunks_inv (live h) ?cs (zn_chunk_size z)"
    using inv by (simp_all add: zone_inv_def Let_def)
  have sz: "unat ?sz < 2 ^ 63" "unat n \<le> unat ?sz"
    using grow_size_le [of n "zn_chunk_size z"] grow_size_ge [of n "zn_chunk_size z"] cs(1) n
    by (simp_all add: word_le_nat_alt)
  show ?thesis
  proof (cases "mal h (sizeof_chunk + ?sz)")
    case None
    then show ?thesis using inv by (simp add: grants_def msgpack_zone_malloc_expand_def Let_def)
  next
    case (Some r)
    then obtain a h' where run: "mal h (sizeof_chunk + ?sz) = Some (a, h')" by (cases r) auto
    let ?c = "\<lparr>ck_addr = a, ck_data = ?sz\<rparr>"
    let ?z = "z\<lparr>chunk_list := \<lparr>cl_free = ?sz - n, cl_ptr = a + sizeof_chunk + n, cl_head = ?c # ?cs\<rparr>\<rparr>"
    note c = malloc_chunk [OF law run sz(1)]
    have p: "unat (a + sizeof_chunk + n) = unat a + 8 + unat n"
      using c(1,4) sz by (simp add: unat_word_ariths chunk_ok_def)
    have f: "unat (?sz - n) = unat ?sz - unat n" using sz by (simp add: unat_sub word_le_nat_alt)
    have "chunk_span ?c \<inter> chunk_span d = {}" if "d \<in> set ?cs" for d
      using that cs(2) c(2) by (auto simp: chunks_inv_def)
    then have "chunks_inv (live h') (?c # ?cs) (zn_chunk_size z)"
      using chunks_inv_mono [OF cs(2), of "live h'"] c(1,3) by (auto simp: chunks_inv_def)
    then have inv': "zone_inv (live h') ?z" using inv p f sz by (simp add: zone_inv_def Let_def)
    have data: "data_span (hd ?cs) \<supseteq> {unat (ck_addr (hd ?cs)) + 8 ..< unat (cl_ptr (chunk_list z))}"
      using inv by (auto simp: zone_inv_def data_span_def Let_def)
    have ne: "?cs \<noteq> []" using cs(2) by (simp add: chunks_inv_def)
    then have "set ?cs = insert (hd ?cs) (set (tl ?cs))" by (cases ?cs) auto
    with data have used: "zone_used z \<subseteq> zone_used ?z" by (auto simp: zone_used_def Let_def)
    have "span (a + sizeof_chunk) (unat n) \<subseteq> zone_used ?z"
      using p c(4) by (auto simp: zone_used_def span_def)
    moreover have "span (a + sizeof_chunk) (unat n) \<subseteq> chunk_span ?c" using c(4) sz by (auto simp: span_def chunk_span_def)
    moreover have "chunk_span ?c \<inter> zone_used z = {}" using c(2) zone_used_live [OF inv] by blast
    moreover have "a + sizeof_chunk \<noteq> 0" using c(4) by (auto simp: word_unat_eq_iff)
    moreover have "unat (a + sizeof_chunk) mod 8 = 0" using c(4,5) by presburger
    ultimately show ?thesis
      using run inv' used by (auto simp: grants_def msgpack_zone_malloc_expand_def Let_def)
  qed
qed

lemma round_up:
  assumes "P + 8 \<le> (2 :: nat) ^ 64" and "unat (p :: u64) = P"
  shows "unat ((p + 7) div 8 * 8) = (P + 7) div 8 * 8"
proof -
  have "unat (p + 7) = P + 7" using assms by (simp add: unat_word_ariths)
  then have "unat ((p + 7) div 8) = (P + 7) div 8" by (simp add: unat_div)
  moreover have "(P + 7) div 8 * 8 < 2 ^ 64" using assms(1) by linarith
  ultimately show ?thesis by (simp add: unat_word_ariths)
qed

lemma malloc_grants:
  assumes law: "malloc_law mal live" and inv: "zone_inv (live h) z" and n: "unat n < 2 ^ 61"
  shows "grants live z (unat n) (msgpack_zone_malloc mal h z n) \<and>
    (\<forall>p z' h'. msgpack_zone_malloc mal h z n = (Some p, z', h') \<longrightarrow> unat p mod 8 = 0)"
proof -
  let ?cl = "chunk_list z" and ?c = "hd (cl_head (chunk_list z))"
  let ?P = "unat (cl_ptr ?cl)" and ?F = "unat (cl_free ?cl)"
  let ?al = "(cl_ptr ?cl + 7) div 8 * 8" and ?A = "(unat (cl_ptr (chunk_list z)) + 7) div 8 * 8"
  let ?adj = "n + (?al - cl_ptr ?cl)"
  have c: "chunk_ok ?c" "?P + ?F = unat (ck_addr ?c) + 8 + unat (ck_data ?c)" "unat (ck_addr ?c) + 8 \<le> ?P"
    using inv by (auto simp: zone_inv_def chunks_inv_def Let_def list_all_iff)
  then have top: "?P + ?F + 16 \<le> 2 ^ 64" by (simp add: chunk_ok_def)
  have A: "unat ?al = ?A" using top by (intro round_up) simp_all
  have AP: "?P \<le> ?A" "?A \<le> ?P + 7" "?A mod 8 = 0" by presburger+
  have d: "unat (?al - cl_ptr ?cl) = ?A - ?P" using A AP by (simp add: unat_sub word_le_nat_alt)
  have adj: "unat ?adj = unat n + (?A - ?P)" using d AP n by (simp add: unat_word_ariths)
  show ?thesis
  proof (cases "?adj \<le> cl_free ?cl")
    case True
    then have le: "unat n + (?A - ?P) \<le> ?F" using adj by (simp add: word_le_nat_alt)
    let ?z = "z\<lparr>chunk_list := ?cl\<lparr>cl_free := cl_free ?cl - ?adj, cl_ptr := cl_ptr ?cl + ?adj\<rparr>\<rparr>"
    have p: "unat (cl_ptr ?cl + ?adj) = ?A + unat n" using adj le top AP by (simp add: unat_word_ariths)
    have f: "unat (cl_free ?cl - ?adj) = ?F - (unat n + (?A - ?P))" using True adj by (simp add: unat_sub)
    have "zone_inv (live h) ?z" using inv p f le AP by (auto simp: zone_inv_def Let_def)
    moreover have "zone_used z \<subseteq> zone_used ?z" using p AP by (auto simp: zone_used_def Let_def)
    moreover have "span ?al (unat n) \<subseteq> zone_used ?z" using p A AP c(3) by (auto simp: span_def zone_used_def Let_def)
    moreover have "span ?al (unat n) \<inter> zone_used z = {}"
    proof -
      have cs: "chunks_inv (live h) (cl_head ?cl) (zn_chunk_size z)" using inv by (simp add: zone_inv_def Let_def)
      have "span ?al (unat n) \<subseteq> chunk_span ?c" using A AP c le by (auto simp: span_def chunk_span_def)
      moreover have "chunk_span ?c \<inter> data_span e = {}" if "e \<in> set (tl (cl_head ?cl))" for e
        using cs that data_chunk [of e] by (cases "cl_head ?cl") (auto simp: chunks_inv_def)
      ultimately show ?thesis using A AP by (auto simp: zone_used_def span_def Let_def)
    qed
    moreover have "?al \<noteq> 0" using A AP c(3) by (auto simp: word_unat_eq_iff)
    ultimately show ?thesis
      using True A AP(3) by (auto simp: msgpack_zone_malloc_def Let_def MSGPACK_ZONE_ALIGN_def grants_def)
  next
    case False
    have n7: "unat (n + 7) = unat n + 7" using n by (simp add: unat_word_ariths)
    obtain r z' h' where run: "msgpack_zone_malloc_expand mal h z (n + 7) = (r, z', h')" by (metis prod_cases3)
    have g: "grants live z (unat n + 7) (r, z', h')" and al: "\<And>p. r = Some p \<Longrightarrow> unat p mod 8 = 0"
      using expand_grants [OF law inv, of "n + 7"] n n7 run by auto
    have "p div 8 * 8 = p" if "r = Some p" for p
    proof -
      have "unat p div 8 * 8 = unat p" using al [OF that] by presburger
      then show ?thesis using unat_lt_exp [of p] by (simp add: word_unat_eq_iff unat_word_ariths unat_div)
    qed
    moreover have "span p (unat n) \<subseteq> span p (unat n + 7)" for p by (auto simp: span_def)
    ultimately show ?thesis
      using False run g al by (auto simp: msgpack_zone_malloc_def Let_def MSGPACK_ZONE_ALIGN_def grants_def split: option.splits)
  qed
qed

section \<open>Sequences of allocations\<close>

text \<open>
  Clients of an allocator rely on blocks that never overlap. The interface: a state with an
  invariant and the set of addresses handed out so far.
\<close>

fun alloc_all :: "('s \<Rightarrow> u64 \<Rightarrow> u64 option \<times> 's) \<Rightarrow> 's \<Rightarrow> u64 list \<Rightarrow> (u64 \<times> u64) list \<times> 's" where
  "alloc_all al s [] = ([], s)"
| "alloc_all al s (n # ns) =
     (let (r, s1) = al s n; (bs, s2) = alloc_all al s1 ns
      in ((case r of None \<Rightarrow> bs | Some p \<Rightarrow> (p, n) # bs), s2))"

fun blocks_disjoint :: "(u64 \<times> u64) list \<Rightarrow> bool" where
  "blocks_disjoint [] = True"
| "blocks_disjoint ((p, n) # bs) \<longleftrightarrow>
     (\<forall>(q, k) \<in> set bs. span p (unat n) \<inter> span q (unat k) = {}) \<and> blocks_disjoint bs"

locale arena =
  fixes al :: "'s \<Rightarrow> u64 \<Rightarrow> u64 option \<times> 's"
    and inv :: "'s \<Rightarrow> bool"
    and used :: "'s \<Rightarrow> nat set"
    and good :: "u64 \<Rightarrow> u64 \<Rightarrow> bool"
    and max_size :: nat
  assumes al_inv: "inv s \<Longrightarrow> unat n < max_size \<Longrightarrow> al s n = (r, s') \<Longrightarrow> inv s' \<and> used s \<subseteq> used s'"
    and al_block: "inv s \<Longrightarrow> unat n < max_size \<Longrightarrow> al s n = (Some p, s') \<Longrightarrow>
      span p (unat n) \<subseteq> used s' - used s \<and> good p n"
begin

lemma alloc_all_blocks:
  "inv s \<Longrightarrow> \<forall>n \<in> set ns. unat n < max_size \<Longrightarrow> alloc_all al s ns = (bs, s') \<Longrightarrow>
   inv s' \<and> used s \<subseteq> used s' \<and> blocks_disjoint bs \<and>
   (\<forall>(p, n) \<in> set bs. span p (unat n) \<subseteq> used s' - used s \<and> good p n)"
proof (induction ns arbitrary: s bs)
  case (Cons n ns)
  obtain r s1 where 1: "al s n = (r, s1)" by (cases "al s n")
  obtain bs1 s2 where 2: "alloc_all al s1 ns = (bs1, s2)" by (cases "alloc_all al s1 ns")
  have s2: "s2 = s'" and bs: "bs = (case r of None \<Rightarrow> bs1 | Some p \<Rightarrow> (p, n) # bs1)"
    using Cons.prems(3) 1 2 by auto
  have n: "unat n < max_size" using Cons.prems(2) by simp
  have i: "inv s1" "used s \<subseteq> used s1" using al_inv [OF Cons.prems(1) n 1] by auto
  have IH: "inv s'" "used s1 \<subseteq> used s'" "blocks_disjoint bs1"
    "\<forall>(p, n) \<in> set bs1. span p (unat n) \<subseteq> used s' - used s1 \<and> good p n"
    using Cons.IH [OF i(1) _ 2 [unfolded s2]] Cons.prems(2) by auto
  have old: "\<forall>(q, k) \<in> set bs1. span q (unat k) \<subseteq> used s' - used s \<and> good q k"
    using IH(4) i(2) by blast
  have sub: "used s \<subseteq> used s'" using i IH by blast
  show ?case
  proof (cases r)
    case None
    with bs IH sub old show ?thesis by simp
  next
    case (Some p)
    have b: "span p (unat n) \<subseteq> used s1 - used s \<and> good p n" using al_block [OF Cons.prems(1) n] 1 Some by simp
    have "span p (unat n) \<inter> span q (unat k) = {}" if "(q, k) \<in> set bs1" for q k
      using b IH(4) that by blast
    moreover have "span p (unat n) \<subseteq> used s' - used s" using b IH(2) by blast
    ultimately show ?thesis using Some bs IH sub old b by auto
  qed
qed simp

end

text \<open>The zone as such an allocator; blocks are aligned.\<close>

definition zone_al :: "'h malloc_fn \<Rightarrow> 'f msgpack_zone \<times> 'h \<Rightarrow> u64 \<Rightarrow> u64 option \<times> ('f msgpack_zone \<times> 'h)" where
  "zone_al mal s n = msgpack_zone_malloc mal (snd s) (fst s) n"

interpretation zn: arena "zone_al mal" "\<lambda>s. malloc_law mal live \<and> zone_inv (live (snd s)) (fst s)"
  "\<lambda>s. zone_used (fst s)" "\<lambda>p n. p \<noteq> 0 \<and> unat p mod 8 = 0" "2 ^ 61" for mal live
proof
  fix s s' :: "'b msgpack_zone \<times> 'a" and n r
  assume inv: "malloc_law mal live \<and> zone_inv (live (snd s)) (fst s)" and n: "unat n < 2 ^ 61" and run: "zone_al mal s n = (r, s')"
  note g = malloc_grants [OF conjunct1 [OF inv] conjunct2 [OF inv] n]
  obtain z' h' where s': "s' = (z', h')" by (cases s')
  with run have m: "msgpack_zone_malloc mal (snd s) (fst s) n = (r, z', h')" by (simp add: zone_al_def)
  with g inv s' show "(malloc_law mal live \<and> zone_inv (live (snd s')) (fst s')) \<and> zone_used (fst s) \<subseteq> zone_used (fst s')"
    by (simp add: grants_def)
  show "span p (unat n) \<subseteq> zone_used (fst s') - zone_used (fst s) \<and> p \<noteq> 0 \<and> unat p mod 8 = 0"
    if "zone_al mal s n = (Some p, s')" for p
    using that g m run s' by (auto simp: grants_def)
qed

section \<open>Properties\<close>


definition witness_zone :: "nat msgpack_zone" where
  "witness_zone = \<lparr>chunk_list = \<lparr>cl_free = 64, cl_ptr = 152, cl_head = [\<lparr>ck_addr = 144, ck_data = 64\<rparr>]\<rparr>,
     finalizer_array = init_finalizer_array, zn_chunk_size = 64\<rparr>"

lemma witness_zone_new: "msgpack_zone_new bump_malloc 80 64 = Some (witness_zone, 224)"
  by (simp add: msgpack_zone_new_def bump_malloc_def sizeof_zone_def init_chunk_list_def sizeof_chunk_def witness_zone_def)


text \<open>Finalizers are kept in the order in which they were pushed.\<close>

fun push_all :: "(nat \<Rightarrow> bool) \<Rightarrow> 'f msgpack_zone \<Rightarrow> 'f list \<Rightarrow> bool \<times> 'f msgpack_zone" where
  "push_all ok z [] = (True, z)"
| "push_all ok z (f # fs) = (case msgpack_zone_push_finalizer ok z f of (True, z1) \<Rightarrow> push_all ok z1 fs | (False, z1) \<Rightarrow> (False, z1))"

lemma push_finalizer_effect:
  assumes "length (fa_used (finalizer_array z)) \<le> fa_places (finalizer_array z)"
    and "msgpack_zone_push_finalizer ok z f = (b, z')"
  shows "(if b then fa_used (finalizer_array z') = fa_used (finalizer_array z) @ [f] else z' = z) \<and>
    length (fa_used (finalizer_array z')) \<le> fa_places (finalizer_array z') \<and>
    chunk_list z' = chunk_list z \<and> zn_chunk_size z' = zn_chunk_size z"
  using assms
  by (auto simp: msgpack_zone_push_finalizer_def msgpack_zone_push_finalizer_expand_def Let_def sizeof_finalizer_def
      split: if_splits)

lemma push_all_effect:
  "length (fa_used (finalizer_array z)) \<le> fa_places (finalizer_array z) \<Longrightarrow> push_all ok z fs = (True, z') \<Longrightarrow>
   fa_used (finalizer_array z') = fa_used (finalizer_array z) @ fs \<and> chunk_list z' = chunk_list z \<and>
   zn_chunk_size z' = zn_chunk_size z \<and> length (fa_used (finalizer_array z')) \<le> fa_places (finalizer_array z')"
proof (induction fs arbitrary: z)
  case (Cons f fs)
  obtain b z1 where p: "msgpack_zone_push_finalizer ok z f = (b, z1)" by (cases "msgpack_zone_push_finalizer ok z f")
  with Cons.prems(2) have b: "b" "push_all ok z1 fs = (True, z')" by (auto split: bool.splits)
  from push_finalizer_effect [OF Cons.prems(1) p] b(1)
  have z1: "fa_used (finalizer_array z1) = fa_used (finalizer_array z) @ [f]" "chunk_list z1 = chunk_list z"
    "zn_chunk_size z1 = zn_chunk_size z" "length (fa_used (finalizer_array z1)) \<le> fa_places (finalizer_array z1)" by auto
  from Cons.IH [OF z1(4) b(2)] z1(1-3) show ?case by (elim conjE) simp
qed simp

lemma call_finalizers_rev: "k \<le> length fs \<Longrightarrow> call_finalizers fs k = rev (take k fs)"
  by (induction k) (simp_all add: take_Suc_conv_app_nth)

lemma destroy_chunks_addrs: "destroy_chunks cs = map ck_addr cs"
  by (induction cs rule: destroy_chunks.induct) auto

lemma clear_chunks_last: "cs \<noteq> [] \<Longrightarrow> clear_chunks cs = ([last cs], map ck_addr (butlast cs))"
  by (induction cs rule: clear_chunks.induct) auto

lemma chunks_distinct: "chunks_disjoint cs \<Longrightarrow> distinct (map ck_addr cs)"
proof (induction cs)
  case (Cons c cs)
  have "ck_addr c \<noteq> ck_addr d" if "d \<in> set cs" for d
  proof
    assume "ck_addr c = ck_addr d"
    then have "unat (ck_addr c) \<in> chunk_span c \<inter> chunk_span d" by (simp add: chunk_span_def)
    then show False using Cons.prems that by auto
  qed
  with Cons show ?case by auto
qed simp

text \<open>
  destroying a zone calls every finalizer that was pushed exactly once, the last one first, and
  frees every chunk exactly once.
\<close>

theorem msgpack_zone_destroy_effect:
  assumes "zone_inv l z" and "fa_used (finalizer_array z) = []" and "push_all ok z fs = (True, z')"
  shows "msgpack_zone_destroy z' = (rev fs, map ck_addr (cl_head (chunk_list z'))) \<and>
    distinct (map ck_addr (cl_head (chunk_list z')))"
proof -
  have "fa_used (finalizer_array z') = fs" "chunk_list z' = chunk_list z"
    using push_all_effect [OF _ assms(3)] assms(1,2) by (auto simp: zone_inv_def)
  moreover have "distinct (map ck_addr (cl_head (chunk_list z)))"
    using assms(1) by (intro chunks_distinct) (simp add: zone_inv_def chunks_inv_def Let_def)
  ultimately show ?thesis
    by (simp add: msgpack_zone_destroy_def destroy_finalizer_array_def call_finalizer_array_def call_finalizers_rev
        destroy_chunk_list_def destroy_chunks_addrs)
qed

lemma witness_zone_inv: "zone_inv {..< 224} witness_zone"
  using zone_new_inv [OF bump_malloc_law witness_zone_new] by simp

theorem msgpack_zone_destroy_effect_witness:
  "\<exists>z'. push_all (\<lambda>n. True) witness_zone [1, 2, 3, 4, 5] = (True, z') \<and>
    msgpack_zone_destroy z' = (rev [1, 2, 3, 4, 5], map ck_addr (cl_head (chunk_list z')))"
proof -
  obtain z' where run: "push_all (\<lambda>n. True) witness_zone [1, 2, 3, 4, 5] = (True, z')"
    by (simp add: msgpack_zone_push_finalizer_def msgpack_zone_push_finalizer_expand_def Let_def sizeof_finalizer_def
        witness_zone_def init_finalizer_array_def)
  moreover have "fa_used (finalizer_array witness_zone) = []" by (simp add: witness_zone_def init_finalizer_array_def)
  ultimately show ?thesis using msgpack_zone_destroy_effect [OF witness_zone_inv _ run] by auto
qed

text \<open>
  clearing a zone in any state makes it empty again and keeps it usable: only the first chunk
  remains, which has the standard size, every other chunk is freed once, the finalizers have run, and
  everything it hands out from then on is again within its memory.
\<close>

theorem msgpack_zone_clear_effect:
  assumes "zone_inv l z"
  shows "\<exists>z'. msgpack_zone_clear z =
      Some (rev (fa_used (finalizer_array z)), map ck_addr (butlast (cl_head (chunk_list z))), z') \<and>
    msgpack_zone_is_empty z' \<and> zone_inv l z' \<and> zone_used z' = {} \<and> cl_head (chunk_list z') = [last (cl_head (chunk_list z))]"
proof -
  let ?cs = "cl_head (chunk_list z)"
  have cs: "chunks_inv l ?cs (zn_chunk_size z)" "?cs \<noteq> []" using assms by (auto simp: zone_inv_def chunks_inv_def Let_def)
  then have l: "chunk_ok (last ?cs)" "chunk_span (last ?cs) \<subseteq> l" "ck_data (last ?cs) = zn_chunk_size z"
    by (auto simp: chunks_inv_def list_all_iff)
  then have p: "unat (ck_addr (last ?cs) + sizeof_chunk) = unat (ck_addr (last ?cs)) + 8"
    by (simp add: sizeof_chunk_def unat_word_ariths chunk_ok_def)
  with assms cs l show ?thesis
    by (auto simp: msgpack_zone_clear_def clear_finalizer_array_def call_finalizer_array_def call_finalizers_rev
        clear_chunk_list_def clear_chunks_last msgpack_zone_is_empty_def zone_inv_def chunks_inv_def zone_used_def Let_def)
qed

theorem msgpack_zone_clear_effect_witness:
  "\<exists>z'. msgpack_zone_clear witness_zone =
      Some (rev (fa_used (finalizer_array witness_zone)), map ck_addr (butlast (cl_head (chunk_list witness_zone))), z') \<and>
    msgpack_zone_is_empty z' \<and> zone_inv {..< 224} z' \<and> zone_used z' = {} \<and>
    cl_head (chunk_list z') = [last (cl_head (chunk_list witness_zone))]"
  by (rule msgpack_zone_clear_effect [OF witness_zone_inv])

text \<open>
  the sizes are not checked for overflow. A request of \<open>2 ^ 64 - 1\<close> bytes asks \<open>malloc\<close> for 7 bytes and
  succeeds.
\<close>

theorem msgpack_zone_malloc_overflow:
  "\<exists>z'. msgpack_zone_malloc_no_align bump_malloc 224 witness_zone (- 1) = (Some 232, z', 240)"
proof -
  have "grow_size 64 (- 1) = - 1" using grow_size_ge [of "- 1" 64] by (simp add: word_order.extremum_unique)
  then show ?thesis
    by (simp add: msgpack_zone_malloc_no_align_def msgpack_zone_malloc_expand_def witness_zone_def bump_malloc_def
        sizeof_chunk_def Let_def)
qed

end
