(* ===== verification/MP_Unpacker.thy ===== *)
theory MP_Unpacker
  imports MP_Roundtrip MP_Zone "HOL-Library.Multiset" "HOL-Library.Sublist"
begin

text \<open>
  libmsgpack, the streaming deserialiser (\<open>include/msgpack/unpack.h\<close>, the \<open>msgpack_unpacker_\<close> functions
  of \<open>src/unpack.c\<close>): the client copies what it receives into a buffer, and takes finished objects
  out. Strings in these objects point into the buffer. A buffer starts with a reference count; a
  zone that belongs to an object with such pointers has a finalizer that gives up one reference.

  The buffers are a map from addresses to the count and the bytes; a buffer that is freed disappears
  from the map, and every access to it afterwards is \<open>None\<close>. Addresses come from the allocator \<open>mal\<close> of
  the zones, which does not use freed memory again, so that a stale pointer is never valid by chance;
  \<open>realloc\<close> always moves. New memory holds zeros. The zone of the unpacker and of its context are the
  same object; it is kept, with the heap, in the context. Whether the finalizer array of a zone can grow is \<open>ok\<close>.
\<close>

section \<open>Buffers with a count\<close>

definition COUNTER_SIZE :: u64 where
  "COUNTER_SIZE = 4"

record unpack_buffer =
  bf_count :: u32
  bf_bytes :: bytes

type_synonym buffers = "u64 \<rightharpoonup> unpack_buffer"

definition init_count :: "unpack_buffer \<Rightarrow> unpack_buffer" where
  "init_count buffer = buffer\<lparr>bf_count := 1\<rparr>"

definition decr_count :: "buffers \<Rightarrow> u64 \<Rightarrow> buffers option" where
  "decr_count bufs buffer =
     (case bufs buffer of
        None \<Rightarrow> None
      | Some b \<Rightarrow>
          (let c = bf_count b - 1
           in Some (if c = 0 then bufs(buffer := None) else bufs(buffer \<mapsto> b\<lparr>bf_count := c\<rparr>))))"

definition incr_count :: "buffers \<Rightarrow> u64 \<Rightarrow> buffers option" where
  "incr_count bufs buffer = map_option (\<lambda>b. bufs(buffer \<mapsto> b\<lparr>bf_count := bf_count b + 1\<rparr>)) (bufs buffer)"

definition get_count :: "buffers \<Rightarrow> u64 \<Rightarrow> u32 option" where
  "get_count bufs buffer = map_option bf_count (bufs buffer)"

definition new_bytes :: "u64 \<Rightarrow> unpack_buffer" where
  "new_bytes n = \<lparr>bf_count = 0, bf_bytes = replicate (unat n) 0\<rparr>"

text \<open>\<open>realloc\<close> keeps the bytes up to the smaller size; \<open>memcpy\<close> beyond the end of the target is \<open>None\<close>.\<close>

definition realloc_bytes :: "unpack_buffer \<Rightarrow> u64 \<Rightarrow> unpack_buffer" where
  "realloc_bytes b n = b\<lparr>bf_bytes := take (unat n) (bf_bytes b) @ replicate (unat n - length (bf_bytes b)) 0\<rparr>"

definition memcpy_bytes :: "unpack_buffer \<Rightarrow> nat \<Rightarrow> bytes \<Rightarrow> unpack_buffer option" where
  "memcpy_bytes b pos bs =
     (if pos + length bs \<le> length (bf_bytes b)
      then Some (b\<lparr>bf_bytes := take pos (bf_bytes b) @ bs @ drop (pos + length bs) (bf_bytes b)\<rparr>) else None)"

section \<open>Zones\<close>

text \<open>The finalizers of a zone are calls of \<open>decr_count\<close>, given by their argument.\<close>

type_synonym 'h zone_heap = "u64 msgpack_zone \<times> 'h"

definition zone_zm :: "'h malloc_fn \<Rightarrow> 'h zone_heap zone_malloc" where
  "zone_zm mal zh n =
     (case msgpack_zone_malloc mal (snd zh) (fst zh) n of
        (None, z, h) \<Rightarrow> None
      | (Some p, z, h) \<Rightarrow> Some (z, h))"

fun run_finalizers :: "buffers \<Rightarrow> u64 list \<Rightarrow> buffers option" where
  "run_finalizers bufs [] = Some bufs"
| "run_finalizers bufs (b # bs) = Option.bind (decr_count bufs b) (\<lambda>bufs'. run_finalizers bufs' bs)"

definition msgpack_zone_free :: "buffers \<Rightarrow> u64 msgpack_zone \<Rightarrow> buffers option" where
  "msgpack_zone_free bufs z = run_finalizers bufs (fst (msgpack_zone_destroy z))"

section \<open>The unpacker\<close>

record 'h msgpack_unpacker =
  mp_buffer :: u64
  mp_used :: u64
  mp_free :: u64
  mp_off :: u64
  mp_parsed :: u64
  mp_initial_buffer_size :: u64
  mp_ctx :: "'h zone_heap template_context"

definition MSGPACK_UNPACKER_INIT_BUFFER_SIZE :: u64 where
  "MSGPACK_UNPACKER_INIT_BUFFER_SIZE = 64 * 1024"

definition sizeof_context :: u64 where
  "sizeof_context = 32 + 32 * 64"

definition sizeof_unpacker :: u64 where
  "sizeof_unpacker = 64"

definition mp_zone :: "'h msgpack_unpacker \<Rightarrow> u64 msgpack_zone" where
  "mp_zone mpac = fst (us_zone (ctx_user (mp_ctx mpac)))"

definition mp_heap :: "'h msgpack_unpacker \<Rightarrow> 'h" where
  "mp_heap mpac = snd (us_zone (ctx_user (mp_ctx mpac)))"

definition CTX_REFERENCED :: "'h msgpack_unpacker \<Rightarrow> bool" where
  "CTX_REFERENCED mpac = referenced (ctx_user (mp_ctx mpac))"

definition set_user :: "'h msgpack_unpacker \<Rightarrow> u64 msgpack_zone \<Rightarrow> 'h \<Rightarrow> bool \<Rightarrow> 'h msgpack_unpacker" where
  "set_user mpac z h r = mpac\<lparr>mp_ctx := (mp_ctx mpac)\<lparr>ctx_user := \<lparr>us_zone = (z, h), referenced = r\<rparr>\<rparr>\<rparr>"

definition msgpack_unpacker_init ::
  "'h malloc_fn \<Rightarrow> 'h \<Rightarrow> buffers \<Rightarrow> u64 \<Rightarrow> ('h msgpack_unpacker \<times> buffers) option" where
  "msgpack_unpacker_init mal h bufs initial_buffer_size =
     (let n = (if initial_buffer_size < COUNTER_SIZE then COUNTER_SIZE else initial_buffer_size)
      in do {
        (buffer, h1) \<leftarrow> mal h n;
        (c, h2) \<leftarrow> mal h1 sizeof_context;
        (z, h3) \<leftarrow> msgpack_zone_new mal h2 MSGPACK_ZONE_CHUNK_SIZE;
        Some (\<lparr>mp_buffer = buffer, mp_used = COUNTER_SIZE, mp_free = n - COUNTER_SIZE, mp_off = COUNTER_SIZE,
               mp_parsed = 0, mp_initial_buffer_size = n, mp_ctx = new_context (z, h3)\<rparr>,
              bufs(buffer \<mapsto> init_count (new_bytes n))) })"

definition msgpack_unpacker_destroy :: "buffers \<Rightarrow> 'h msgpack_unpacker \<Rightarrow> buffers option" where
  "msgpack_unpacker_destroy bufs mpac = do {
     bufs1 \<leftarrow> msgpack_zone_free bufs (mp_zone mpac);
     decr_count bufs1 (mp_buffer mpac) }"

definition msgpack_unpacker_new ::
  "'h malloc_fn \<Rightarrow> 'h \<Rightarrow> buffers \<Rightarrow> u64 \<Rightarrow> ('h msgpack_unpacker \<times> buffers) option" where
  "msgpack_unpacker_new mal h bufs initial_buffer_size = do {
     (p, h1) \<leftarrow> mal h sizeof_unpacker;
     msgpack_unpacker_init mal h1 bufs initial_buffer_size }"

text \<open>The first test of \<open>msgpack_unpacker_expand_buffer\<close>, with its reading of the count.\<close>

definition can_rewind :: "buffers \<Rightarrow> 'h msgpack_unpacker \<Rightarrow> bool option" where
  "can_rewind bufs mpac =
     (if mp_used mpac = mp_off mpac
      then map_option (\<lambda>c. c = 1 \<and> \<not> CTX_REFERENCED mpac) (get_count bufs (mp_buffer mpac))
      else Some False)"

definition rewind_buffer :: "'h msgpack_unpacker \<Rightarrow> 'h msgpack_unpacker" where
  "rewind_buffer mpac = mpac\<lparr>mp_free := mp_free mpac + (mp_used mpac - COUNTER_SIZE), mp_used := COUNTER_SIZE, mp_off := COUNTER_SIZE\<rparr>"

text \<open>Nothing has been parsed: the buffer is enlarged with \<open>realloc\<close>.\<close>

definition expand_in_place ::
  "'h malloc_fn \<Rightarrow> buffers \<Rightarrow> 'h msgpack_unpacker \<Rightarrow> u64 \<Rightarrow> (bool \<times> 'h msgpack_unpacker \<times> buffers) option" where
  "expand_in_place mal bufs mpac n =
     (let next_size = grow_size ((mp_used mpac + mp_free mpac) * 2) (n + mp_used mpac)
      in case mal (mp_heap mpac) next_size of
           None \<Rightarrow> Some (False, mpac, bufs)
         | Some (tmp, h) \<Rightarrow> do {
             b \<leftarrow> bufs (mp_buffer mpac);
             Some (True,
               set_user (mpac\<lparr>mp_buffer := tmp, mp_free := next_size - mp_used mpac\<rparr>) (mp_zone mpac) h (CTX_REFERENCED mpac),
               bufs(mp_buffer mpac := None, tmp \<mapsto> realloc_bytes b next_size)) })"

text \<open>Otherwise a new buffer takes the bytes that are not yet parsed; the old one goes to the zone or is given up.\<close>

definition expand_to_new ::
  "'h malloc_fn \<Rightarrow> (nat \<Rightarrow> bool) \<Rightarrow> buffers \<Rightarrow> 'h msgpack_unpacker \<Rightarrow> u64 \<Rightarrow> (bool \<times> 'h msgpack_unpacker \<times> buffers) option" where
  "expand_to_new mal ok bufs mpac n =
     (let not_parsed = mp_used mpac - mp_off mpac;
          next_size = grow_size (mp_initial_buffer_size mpac) (n + not_parsed + COUNTER_SIZE);
          use = (\<lambda>tmp. mpac\<lparr>mp_buffer := tmp, mp_used := not_parsed + COUNTER_SIZE,
                           mp_free := next_size - (not_parsed + COUNTER_SIZE), mp_off := COUNTER_SIZE\<rparr>)
      in case mal (mp_heap mpac) next_size of
           None \<Rightarrow> Some (False, mpac, bufs)
         | Some (tmp, h) \<Rightarrow> do {
             b \<leftarrow> bufs (mp_buffer mpac);
             nb \<leftarrow> memcpy_bytes (init_count (new_bytes next_size)) (unat COUNTER_SIZE)
                     (take (unat not_parsed) (drop (unat (mp_off mpac)) (bf_bytes b)));
             (if CTX_REFERENCED mpac then
                (case msgpack_zone_push_finalizer ok (mp_zone mpac) (mp_buffer mpac) of
                   (False, z) \<Rightarrow> Some (False, set_user mpac z h True, bufs)
                 | (True, z) \<Rightarrow> Some (True, set_user (use tmp) z h False, bufs(tmp \<mapsto> nb)))
              else do {
                bufs1 \<leftarrow> decr_count bufs (mp_buffer mpac);
                Some (True, set_user (use tmp) (mp_zone mpac) h False, bufs1(tmp \<mapsto> nb)) }) })"

definition msgpack_unpacker_expand_buffer ::
  "'h malloc_fn \<Rightarrow> (nat \<Rightarrow> bool) \<Rightarrow> buffers \<Rightarrow> 'h msgpack_unpacker \<Rightarrow> u64 \<Rightarrow> (bool \<times> 'h msgpack_unpacker \<times> buffers) option" where
  "msgpack_unpacker_expand_buffer mal ok bufs mpac n = do {
     rewind \<leftarrow> can_rewind bufs mpac;
     let mpac1 = (if rewind then rewind_buffer mpac else mpac);
     (if rewind \<and> mp_free mpac1 \<ge> n then Some (True, mpac1, bufs)
      else if mp_off mpac1 = COUNTER_SIZE then expand_in_place mal bufs mpac1 n
      else expand_to_new mal ok bufs mpac1 n) }"

definition msgpack_unpacker_reserve_buffer ::
  "'h malloc_fn \<Rightarrow> (nat \<Rightarrow> bool) \<Rightarrow> buffers \<Rightarrow> 'h msgpack_unpacker \<Rightarrow> u64 \<Rightarrow> (bool \<times> 'h msgpack_unpacker \<times> buffers) option" where
  "msgpack_unpacker_reserve_buffer mal ok bufs mpac n =
     (if mp_free mpac \<ge> n then Some (True, mpac, bufs) else msgpack_unpacker_expand_buffer mal ok bufs mpac n)"

definition msgpack_unpacker_buffer :: "'h msgpack_unpacker \<Rightarrow> u64" where
  "msgpack_unpacker_buffer mpac = mp_buffer mpac + mp_used mpac"

definition msgpack_unpacker_buffer_capacity :: "'h msgpack_unpacker \<Rightarrow> u64" where
  "msgpack_unpacker_buffer_capacity mpac = mp_free mpac"

definition msgpack_unpacker_buffer_consumed :: "'h msgpack_unpacker \<Rightarrow> u64 \<Rightarrow> 'h msgpack_unpacker" where
  "msgpack_unpacker_buffer_consumed mpac n = mpac\<lparr>mp_used := mp_used mpac + n, mp_free := mp_free mpac - n\<rparr>"

definition msgpack_unpacker_message_size :: "'h msgpack_unpacker \<Rightarrow> u64" where
  "msgpack_unpacker_message_size mpac = mp_parsed mpac - mp_off mpac + mp_used mpac"

definition msgpack_unpacker_parsed_size :: "'h msgpack_unpacker \<Rightarrow> u64" where
  "msgpack_unpacker_parsed_size mpac = mp_parsed mpac"

section \<open>Parsing\<close>

definition msgpack_unpacker_execute ::
  "'h malloc_fn \<Rightarrow> buffers \<Rightarrow> 'h msgpack_unpacker \<Rightarrow> (int \<times> 'h msgpack_unpacker) option" where
  "msgpack_unpacker_execute mal bufs mpac = do {
     b \<leftarrow> bufs (mp_buffer mpac);
     (if length (bf_bytes b) < unat (mp_used mpac) then None else do {
       (ret, ctx, off) \<leftarrow> template_execute (zone_zm mal) (mp_ctx mpac) (take (unat (mp_used mpac)) (bf_bytes b)) (unat (mp_off mpac));
       let m = mpac\<lparr>mp_ctx := ctx, mp_off := of_nat off\<rparr>;
       Some (ret, if mp_off m > mp_off mpac then m\<lparr>mp_parsed := mp_parsed mpac + (mp_off m - mp_off mpac)\<rparr> else m) }) }"

definition msgpack_unpacker_data :: "'h msgpack_unpacker \<Rightarrow> msgpack_object" where
  "msgpack_unpacker_data mpac = template_data (mp_ctx mpac)"

definition msgpack_unpacker_flush_zone ::
  "(nat \<Rightarrow> bool) \<Rightarrow> buffers \<Rightarrow> 'h msgpack_unpacker \<Rightarrow> (bool \<times> 'h msgpack_unpacker \<times> buffers) option" where
  "msgpack_unpacker_flush_zone ok bufs mpac =
     (if CTX_REFERENCED mpac then
        (case msgpack_zone_push_finalizer ok (mp_zone mpac) (mp_buffer mpac) of
           (False, z) \<Rightarrow> Some (False, set_user mpac z (mp_heap mpac) True, bufs)
         | (True, z) \<Rightarrow>
             map_option (\<lambda>bufs1. (True, set_user mpac z (mp_heap mpac) False, bufs1)) (incr_count bufs (mp_buffer mpac)))
      else Some (True, mpac, bufs))"

definition msgpack_unpacker_release_zone ::
  "'h malloc_fn \<Rightarrow> (nat \<Rightarrow> bool) \<Rightarrow> buffers \<Rightarrow> 'h msgpack_unpacker \<Rightarrow>
   (u64 msgpack_zone option \<times> 'h msgpack_unpacker \<times> buffers) option" where
  "msgpack_unpacker_release_zone mal ok bufs mpac = do {
     (flushed, mpac1, bufs1) \<leftarrow> msgpack_unpacker_flush_zone ok bufs mpac;
     Some (if \<not> flushed then (None, mpac1, bufs1)
           else (case msgpack_zone_new mal (mp_heap mpac1) MSGPACK_ZONE_CHUNK_SIZE of
                   None \<Rightarrow> (None, mpac1, bufs1)
                 | Some (r, h) \<Rightarrow> (Some (mp_zone mpac1), set_user mpac1 r h (CTX_REFERENCED mpac1), bufs1))) }"

definition msgpack_unpacker_reset_zone :: "buffers \<Rightarrow> 'h msgpack_unpacker \<Rightarrow> ('h msgpack_unpacker \<times> buffers) option" where
  "msgpack_unpacker_reset_zone bufs mpac = do {
     (calls, freed, z) \<leftarrow> msgpack_zone_clear (mp_zone mpac);
     bufs1 \<leftarrow> run_finalizers bufs calls;
     Some (set_user mpac z (mp_heap mpac) (CTX_REFERENCED mpac), bufs1) }"

definition msgpack_unpacker_reset :: "'h msgpack_unpacker \<Rightarrow> 'h msgpack_unpacker" where
  "msgpack_unpacker_reset mpac = mpac\<lparr>mp_ctx := template_init (mp_ctx mpac), mp_parsed := 0\<rparr>"

text \<open>The zone of the last result is freed first.\<close>

definition unpacked_free :: "buffers \<Rightarrow> u64 msgpack_zone msgpack_unpacked \<Rightarrow> buffers option" where
  "unpacked_free bufs result = (case up_zone result of None \<Rightarrow> Some bufs | Some z \<Rightarrow> msgpack_zone_free bufs z)"

definition msgpack_unpacker_next ::
  "'h malloc_fn \<Rightarrow> (nat \<Rightarrow> bool) \<Rightarrow> buffers \<Rightarrow> 'h msgpack_unpacker \<Rightarrow> u64 msgpack_zone msgpack_unpacked \<Rightarrow>
   (msgpack_unpack_return \<times> 'h msgpack_unpacker \<times> buffers \<times> u64 msgpack_zone msgpack_unpacked) option" where
  "msgpack_unpacker_next mal ok bufs mpac result = do {
     bufs0 \<leftarrow> unpacked_free bufs result;
     (ret, mpac1) \<leftarrow> msgpack_unpacker_execute mal bufs0 mpac;
     (if ret < 0 then Some (UNPACK_PARSE_ERROR, mpac1, bufs0, \<lparr>up_zone = None, up_data = OBJECT_NIL\<rparr>)
      else if ret = 0 then Some (UNPACK_CONTINUE, mpac1, bufs0, msgpack_unpacked_destroy result)
      else do {
        (z, mpac2, bufs1) \<leftarrow> msgpack_unpacker_release_zone mal ok bufs0 mpac1;
        Some (UNPACK_SUCCESS, msgpack_unpacker_reset mpac2, bufs1,
              \<lparr>up_zone = z, up_data = msgpack_unpacker_data mpac2\<rparr>) }) }"

section \<open>What parsing does to the zone\<close>

text \<open>
  The parser touches the zone by allocating from it only: a relation that every allocation keeps is kept
  by a run. A run that makes a pointer into the data has consumed a byte.
\<close>

locale parser_zone =
  fixes zm :: "'z zone_malloc"
    and rel :: "'z \<Rightarrow> 'z \<Rightarrow> bool"
  assumes rel_refl: "rel z z"
    and rel_trans: "rel z1 z2 \<Longrightarrow> rel z2 z3 \<Longrightarrow> rel z1 z3"
    and rel_malloc: "zm z n = Some z' \<Longrightarrow> rel z z'"
begin

definition grown :: "'z template_context \<Rightarrow> nat \<Rightarrow> 'z template_context \<Rightarrow> nat \<Rightarrow> bool" where
  "grown ctx p ctx' p' \<longleftrightarrow> rel (us_zone (ctx_user ctx)) (us_zone (ctx_user ctx')) \<and> p \<le> p' \<and>
     (referenced (ctx_user ctx') \<noteq> referenced (ctx_user ctx) \<longrightarrow> p < p' \<and> referenced (ctx_user ctx'))"

definition out_grown :: "'z template_context \<Rightarrow> nat \<Rightarrow> 'z exec_out \<Rightarrow> bool" where
  "out_grown ctx p out \<longleftrightarrow> (case out of Run ctx' p' \<Rightarrow> grown ctx p ctx' p' \<and> p < p' | Stop r ctx' p' \<Rightarrow> grown ctx p ctx' p')"

lemma out_grown_simps [simp]:
  "out_grown ctx p (Run ctx' p') \<longleftrightarrow> grown ctx p ctx' p' \<and> p < p'"
  "out_grown ctx p (Stop r ctx' p') \<longleftrightarrow> grown ctx p ctx' p'"
  by (simp_all add: out_grown_def)

lemma do_push_with:
  assumes "p \<le> q" and "rel (us_zone (ctx_user ctx)) (us_zone (ctx_user ctx1))"
    and "referenced (ctx_user ctx1) \<or> \<not> referenced (ctx_user ctx)"
  shows "out_grown ctx p (do_push ctx1 q x)"
  using assms by (cases "template_push (ctx_stack ctx1) x") (auto simp: do_push_def grown_def)

lemma do_push_grown: "p \<le> q \<Longrightarrow> out_grown ctx p (do_push ctx q x)"
  by (auto intro: do_push_with simp: rel_refl)

lemma push_variable_with:
  "p \<le> q \<Longrightarrow> push_variable (ctx\<lparr>ctx_trail := t\<rparr>) q v = Some out \<Longrightarrow> out_grown ctx p out"
  "p \<le> q \<Longrightarrow> push_variable ctx q v = Some out \<Longrightarrow> out_grown ctx p out"
  by (cases v; auto simp: push_variable_def rel_refl intro!: do_push_with)+

lemma again_grown:
  "p \<le> q \<Longrightarrow> out_grown ctx p (again_fixed_trail ctx q c t)"
  "p \<le> q \<Longrightarrow> again_fixed_trail_if_zero ctx q cs t v = Some out \<Longrightarrow> out_grown ctx p out"
proof -
  show again: "p \<le> q \<Longrightarrow> out_grown ctx p (again_fixed_trail ctx q c t)" for c
    by (auto simp: again_fixed_trail_def grown_def rel_refl split: option.splits)
  show "p \<le> q \<Longrightarrow> again_fixed_trail_if_zero ctx q cs t v = Some out \<Longrightarrow> out_grown ctx p out"
    using again [of "Some cs"] push_variable_with(1)
    by (auto simp: again_fixed_trail_if_zero_def split: if_splits)
qed

lemma start_container_grown:
  assumes "p \<le> q" and "cb = template_callback_array zm \<or> cb = template_callback_map zm"
  shows "out_grown ctx p (start_container cb ct ctx q n)"
proof -
  have "rel (us_zone u) (us_zone u') \<and> referenced u' = referenced u" if "cb u n = Some (obj, u')" for u u' obj
    using that assms(2) rel_malloc by (auto simp: template_callback_array_def template_callback_map_def split: option.splits)
  with assms(1) show ?thesis
    by (fastforce simp: start_container_def grown_def rel_refl split: option.splits intro: do_push_with)
qed

lemma exec_header_grown: "exec_header zm data ctx p b = Some out \<Longrightarrow> out_grown ctx p out"
  unfolding exec_header_def
  by (auto intro: do_push_grown again_grown(1) start_container_grown dest: again_grown(2) [OF order_refl]
      simp: grown_def rel_refl split: if_splits)

lemma exec_trail_grown: "exec_trail zm data ctx p = Some out \<Longrightarrow> out_grown ctx p out"
  unfolding exec_trail_def Let_def
  by (cases "ctx_cs ctx")
    (auto intro: do_push_grown start_container_grown dest: again_grown(2) [OF le_add1] push_variable_with(2) [OF le_add1]
      simp: grown_def rel_refl split: if_splits)

lemma execute_step_grown: "execute_step zm data ctx p = Some out \<Longrightarrow> out_grown ctx p out"
  using exec_header_grown exec_trail_grown by (fastforce simp: execute_step_def split: if_splits)

lemma grown_trans: "grown c1 p1 c2 p2 \<Longrightarrow> grown c2 p2 c3 p3 \<Longrightarrow> grown c1 p1 c3 p3"
  using rel_trans unfolding grown_def by (metis le_trans less_le_trans le_less_trans)

lemma execute_grown:
  assumes "template_execute zm ctx data off = Some (r, ctx', off')"
  shows "grown ctx off ctx' off'"
proof -
  have "execute_loop zm data ctx off = Some (r, ctx', off')" using assms by (simp add: template_execute_def split: if_splits)
  then have "case (r, ctx', off') of (r, ctx', off') \<Rightarrow> grown ctx off ctx' off'"
  proof (induction rule: execute_loop_induct)
    case (finish ctx p)
    then show ?case by (simp add: grown_def rel_refl)
  next
    case (stop ctx p r ctx' p')
    with execute_step_grown show ?case by fastforce
  next
    case (run ctx p ctx' p' y)
    then have "grown ctx p ctx' p'" using execute_step_grown by fastforce
    with run.IH show ?case by (auto intro: grown_trans)
  qed
  then show ?thesis by simp
qed

end

text \<open>Zones of the model: allocation leaves the finalizers alone, and the heap only grows.\<close>

abbreviation finals :: "'f msgpack_zone \<Rightarrow> 'f list" where
  "finals z \<equiv> fa_used (finalizer_array z)"

definition zone_ok :: "'f msgpack_zone \<Rightarrow> bool" where
  "zone_ok z \<longleftrightarrow> length (finals z) \<le> fa_places (finalizer_array z) \<and> cl_head (chunk_list z) \<noteq> []"

definition zone_rel :: "('h \<Rightarrow> nat set) \<Rightarrow> 'h malloc_fn \<Rightarrow> 'h zone_heap \<Rightarrow> 'h zone_heap \<Rightarrow> bool" where
  "zone_rel live mal zh zh' \<longleftrightarrow>
     finals (fst zh') = finals (fst zh) \<and> (zone_ok (fst zh) \<longrightarrow> zone_ok (fst zh')) \<and>
     (malloc_law mal live \<longrightarrow> live (snd zh) \<subseteq> live (snd zh'))"

lemma malloc_grow: "malloc_law mal live \<Longrightarrow> mal h n = Some (a, h') \<Longrightarrow> live h \<subseteq> live h'"
  unfolding malloc_law_def by blast

interpretation pz: parser_zone "zone_zm mal" "zone_rel live mal" for mal live
proof
  fix z z' :: "'a zone_heap" and n
  assume "zone_zm mal z n = Some z'"
  then show "zone_rel live mal z z'"
    by (auto simp: zone_zm_def zone_rel_def zone_ok_def msgpack_zone_malloc_def msgpack_zone_malloc_expand_def Let_def
        split: option.splits if_splits prod.splits dest: malloc_grow [THEN subsetD])
qed (auto simp: zone_rel_def)

section \<open>Staying inside the data\<close>

text \<open>A run that returns has stayed inside the data, and unless it has finished an object it leaves a well-formed context.\<close>

definition out_in :: "bytes \<Rightarrow> nat \<Rightarrow> 'z exec_out \<Rightarrow> bool" where
  "out_in data p out \<longleftrightarrow> (case out of
     Run ctx q \<Rightarrow> ctx_ok ctx \<and> p \<le> q \<and> q \<le> length data | Stop r ctx q \<Rightarrow> (r \<noteq> 1 \<longrightarrow> ctx_ok ctx) \<and> p \<le> q \<and> q \<le> length data)"

lemma out_in_simps [simp]:
  "out_in data p (Run ctx q) \<longleftrightarrow> ctx_ok ctx \<and> p \<le> q \<and> q \<le> length data"
  "out_in data p (Stop r ctx q) \<longleftrightarrow> (r \<noteq> 1 \<longrightarrow> ctx_ok ctx) \<and> p \<le> q \<and> q \<le> length data"
  by (simp_all add: out_in_def)

lemma do_push_in: "stack_ok (ctx_stack ctx) \<Longrightarrow> p \<le> q \<Longrightarrow> q < length data \<Longrightarrow> out_in data p (do_push ctx q x)"
  using template_push_ok [of "ctx_stack ctx" x] by (auto simp: do_push_def ctx_ok_def split: sum.splits)

lemma push_variable_in:
  "stack_ok (ctx_stack ctx) \<Longrightarrow> p \<le> q \<Longrightarrow> q < length data \<Longrightarrow> push_variable ctx q v = Some out \<Longrightarrow> out_in data p out"
  by (cases v) (auto simp: push_variable_def intro!: do_push_in)

lemma again_in:
  assumes "again_fixed_trail_if_zero ctx q c t v = Some out" and "stack_ok (ctx_stack ctx)" and "p \<le> q" and "q < length data"
    and "c \<in> {ACS_STR_VALUE, ACS_BIN_VALUE, ACS_EXT_VALUE}"
  shows "out_in data p out"
  using assms push_variable_in [of "ctx\<lparr>ctx_trail := t\<rparr>" p q data v out]
  by (auto simp: again_fixed_trail_if_zero_def again_fixed_trail_def ctx_ok_def trail_ok_def split: if_splits)

lemma start_container_in:
  assumes "ctx_ok ctx" and "p \<le> q" and "q < length data"
    and "cb = template_callback_array zm \<and> ct = CT_ARRAY_ITEM \<or> cb = template_callback_map zm \<and> ct = CT_MAP_KEY"
  shows "out_in data p (start_container cb ct ctx q n)"
proof -
  have n: "(ucast n :: u64) = 0 \<longleftrightarrow> n = 0" by (simp add: word_unat_eq_iff width_simps)
  have frame: "frame_ok \<lparr>st_obj = obj, st_count = ucast n, st_ct = ct, st_map_key = OBJECT_NIL\<rparr>"
    if "cb u n = Some (obj, u')" "n \<noteq> 0" for u obj u'
    using that n assms(4) by (auto simp: template_callback_array_def template_callback_map_def frame_ok_def split: option.splits)
  show ?thesis
    using assms(1-3) frame unfolding start_container_def
    by (auto simp: ctx_ok_def stack_ok_def split: option.splits intro!: do_push_in)
qed

lemma do_push_no_error [simp]: "do_push ctx p x \<noteq> Stop (- 1) ctx' q"
  by (simp add: do_push_def split: sum.splits)

lemma exec_header_in:
  assumes "ctx_ok ctx" and "p < length data" and run: "exec_header zm data ctx p b = Some out"
  shows "out_in data p out"
proof -
  have "step_ok data p (exec_header zm data ctx p b)" using assms(1,2) by (rule exec_header_ok)
  then have "out_ok data p out" using run by (simp add: step_ok_def)
  moreover have "ctx_ok ctx'" if "out = Stop (- 1) ctx' q" for ctx' q
    using run that assms(1) unfolding exec_header_def
    by (auto simp: again_fixed_trail_def again_fixed_trail_if_zero_def push_variable_def start_container_def
        split: if_splits option.splits)
  ultimately show ?thesis by (cases out) auto
qed

lemma exec_trail_in:
  assumes "ctx_ok ctx" and "ctx_cs ctx \<noteq> CS_HEADER" and "p < length data" and run: "exec_trail zm data ctx p = Some out"
  shows "out_in data p out"
proof (cases "length data - p < unat (ctx_trail ctx)")
  case True
  then show ?thesis using assms by (auto simp: exec_trail_def Let_def)
next
  case False
  let ?t = "ctx_trail ctx" and ?q = "p + unat (ctx_trail ctx - 1)"
  have st: "stack_ok (ctx_stack ctx)" and tr: "?t \<noteq> 0"
    using assms by (simp_all add: ctx_ok_def trail_ok_def)
  have t: "0 < unat ?t" "unat (?t - 1) = unat ?t - 1"
    using tr by (simp_all add: unat_gt_0 unat_minus_one)
  have q: "p \<le> ?q" "?q < length data"
    using False t assms(3) by linarith+
  show ?thesis
    using run False assms(1,2) st q
    unfolding exec_trail_def Let_def
    by (cases "ctx_cs ctx")
      (auto intro!: do_push_in start_container_in elim!: again_in push_variable_in [rotated 3])
qed

lemma execute_step_in:
  assumes "ctx_ok ctx" and "p < length data" and "execute_step zm data ctx p = Some out"
  shows "out_in data p out"
  using assms exec_header_in [OF assms(1,2)] exec_trail_in [OF assms(1) _ assms(2)]
  by (auto simp: execute_step_def split: if_splits)

lemma execute_inside:
  assumes "template_execute zm ctx data off = Some (r, ctx', off')" and "ctx_ok ctx"
  shows "off' \<le> length data \<and> (r \<noteq> 1 \<longrightarrow> ctx_ok ctx')"
proof -
  have "execute_loop zm data ctx off = Some (r, ctx', off')" "off \<le> length data"
    using assms(1) by (auto simp: template_execute_def split: if_splits)
  then have "ctx_ok ctx \<longrightarrow> off \<le> length data \<longrightarrow>
      (case (r, ctx', off') of (r, ctx', off') \<Rightarrow> off' \<le> length data \<and> (r \<noteq> 1 \<longrightarrow> ctx_ok ctx'))"
  proof (induction rule: execute_loop_induct)
    case (finish ctx p)
    then show ?case by simp
  next
    case (stop ctx p r ctx' p')
    with execute_step_in show ?case by fastforce
  next
    case (run ctx p ctx' p' y)
    with execute_step_in [of ctx p data zm "Run ctx' p'"] show ?case by auto
  qed
  with assms(2) \<open>off \<le> length data\<close> show ?thesis by simp
qed

section \<open>Counting\<close>

text \<open>\<open>M\<close> are the references to buffers that exist: a buffer is allocated exactly as long as there are some.\<close>

definition cnt_ok :: "unpack_buffer option \<Rightarrow> nat \<Rightarrow> bool" where
  "cnt_ok x n \<longleftrightarrow> (case x of None \<Rightarrow> n = 0 | Some bf \<Rightarrow> 0 < n \<and> unat (bf_count bf) = n)"

definition counts_ok :: "buffers \<Rightarrow> u64 multiset \<Rightarrow> bool" where
  "counts_ok bufs M \<longleftrightarrow> (\<forall>b. cnt_ok (bufs b) (count M b))"

lemma cnt_ok_simps [simp]: "cnt_ok None n \<longleftrightarrow> n = 0" "cnt_ok (Some bf) n \<longleftrightarrow> 0 < n \<and> unat (bf_count bf) = n"
  by (simp_all add: cnt_ok_def)

text \<open>What an operation may not do to buffers that stay.\<close>

definition same_bytes :: "buffers \<Rightarrow> buffers \<Rightarrow> bool" where
  "same_bytes bufs bufs' \<longleftrightarrow>
     (\<forall>b bf'. bufs' b = Some bf' \<longrightarrow> (\<exists>bf. bufs b = Some bf \<and> bf_bytes bf' = bf_bytes bf))"

lemma same_bytes_refl [simp]: "same_bytes bufs bufs"
  by (simp add: same_bytes_def)

lemma same_bytes_trans: "same_bytes b1 b2 \<Longrightarrow> same_bytes b2 b3 \<Longrightarrow> same_bytes b1 b3"
  unfolding same_bytes_def by metis

lemma counts_at: "counts_ok bufs M \<Longrightarrow> cnt_ok (bufs b) (count M b)"
  by (simp add: counts_ok_def)

lemma counts_upd:
  assumes "counts_ok bufs M" and "cnt_ok x (count M' b)" and "\<And>c. c \<noteq> b \<Longrightarrow> count M' c = count M c"
  shows "counts_ok (bufs(b := x)) M'"
  using assms by (simp add: counts_ok_def)

lemma counts_in:
  assumes "counts_ok bufs M" and "b \<in># M"
  shows "\<exists>bf. bufs b = Some bf \<and> unat (bf_count bf) = count M b"
  using counts_at [OF assms(1), of b] assms(2) by (cases "bufs b") (auto simp: count_eq_zero_iff)

lemma counts_dom: "counts_ok bufs M \<Longrightarrow> dom bufs = set_mset M"
proof (intro set_eqI iffI)
  fix b
  assume M: "counts_ok bufs M"
  show "b \<in> dom bufs \<Longrightarrow> b \<in># M" using counts_at [OF M, of b] by auto
  show "b \<in># M \<Longrightarrow> b \<in> dom bufs" using counts_in [OF M] by auto
qed

lemma decr_ok:
  assumes "counts_ok bufs (add_mset b M)"
  shows "\<exists>bufs'. decr_count bufs b = Some bufs' \<and> counts_ok bufs' M \<and> same_bytes bufs bufs'"
proof -
  obtain bf where bf: "bufs b = Some bf" "unat (bf_count bf) = Suc (count M b)"
    using counts_in [OF assms, of b] by auto
  then have "bf_count bf \<noteq> 0" by auto
  then have c: "unat (bf_count bf - 1) = count M b" using bf(2) by (simp add: unat_minus_one)
  let ?x = "if bf_count bf - 1 = 0 then None else Some (bf\<lparr>bf_count := bf_count bf - 1\<rparr>)"
  have run: "decr_count bufs b = Some (bufs(b := ?x))" by (simp add: decr_count_def bf Let_def)
  have "cnt_ok ?x (count M b)" using c by (auto simp: word_unat_eq_iff)
  then have "counts_ok (bufs(b := ?x)) M" by (rule counts_upd [OF assms]) simp
  moreover have "same_bytes bufs (bufs(b := ?x))" using bf by (auto simp: same_bytes_def split: if_splits)
  ultimately show ?thesis using run by blast
qed

lemma incr_ok:
  assumes "counts_ok bufs M" and "b \<in># M" and "count M b < 2 ^ 32 - 1"
  shows "\<exists>bufs'. incr_count bufs b = Some bufs' \<and> counts_ok bufs' (add_mset b M) \<and> same_bytes bufs bufs'"
proof -
  obtain bf where bf: "bufs b = Some bf" "unat (bf_count bf) = count M b" using counts_in [OF assms(1,2)] by auto
  then have c: "unat (bf_count bf + 1) = Suc (count M b)" using assms(3) by (simp add: unat_word_ariths)
  let ?x = "Some (bf\<lparr>bf_count := bf_count bf + 1\<rparr>)"
  have "incr_count bufs b = Some (bufs(b := ?x))" by (simp add: incr_count_def bf)
  moreover have "counts_ok (bufs(b := ?x)) (add_mset b M)" by (rule counts_upd [OF assms(1)]) (simp_all add: c)
  moreover have "same_bytes bufs (bufs(b := ?x))" using bf by (auto simp: same_bytes_def)
  ultimately show ?thesis by blast
qed

lemma run_finalizers_ok:
  "counts_ok bufs (mset fs + M) \<Longrightarrow>
   \<exists>bufs'. run_finalizers bufs fs = Some bufs' \<and> counts_ok bufs' M \<and> same_bytes bufs bufs'"
proof (induction fs arbitrary: bufs)
  case (Cons f fs)
  then have "counts_ok bufs (add_mset f (mset fs + M))" by simp
  from decr_ok [OF this] obtain b1 where
    b1: "decr_count bufs f = Some b1" "counts_ok b1 (mset fs + M)" "same_bytes bufs b1" by blast
  from Cons.IH [OF b1(2)] b1 show ?case by (auto intro: same_bytes_trans)
qed simp

lemma zone_free_ok:
  assumes "counts_ok bufs (mset (finals z) + M)"
  shows "\<exists>bufs'. msgpack_zone_free bufs z = Some bufs' \<and> counts_ok bufs' M \<and> same_bytes bufs bufs'"
  using run_finalizers_ok [of bufs "rev (finals z)" M] assms
  by (simp add: msgpack_zone_free_def msgpack_zone_destroy_def destroy_finalizer_array_def call_finalizer_array_def
      call_finalizers_rev)

lemma counts_new:
  assumes "counts_ok bufs M" and "b \<notin># M" and "bf_count bf = 1"
  shows "counts_ok (bufs(b \<mapsto> bf)) (add_mset b M)"
  using assms by (intro counts_upd [OF assms(1)]) (simp_all add: not_in_iff)

lemma counts_move:
  assumes "counts_ok bufs (add_mset b M)" and "b \<notin># M" and "t \<notin># add_mset b M" and "bf_count bf = 1"
  shows "counts_ok (bufs(b := None, t \<mapsto> bf)) (add_mset t M)"
proof -
  have "counts_ok (bufs(b := None)) M" using assms(2) by (intro counts_upd [OF assms(1)]) (simp_all add: not_in_iff)
  with assms show ?thesis by (intro counts_new) auto
qed

section \<open>States of the unpacker and its client\<close>

text \<open>
  The unpacker, the buffers, and the zones of the objects the client holds. References to buffers are
  that of the unpacker and one for each finalizer. A buffer is pinned if objects may point into it.
\<close>

type_synonym 'h unpacker_state = "'h msgpack_unpacker \<times> buffers \<times> u64 msgpack_zone list"

definition zone_refs :: "u64 msgpack_zone list \<Rightarrow> u64 multiset" where
  "zone_refs zs = mset (concat (map finals zs))"

definition held :: "'h msgpack_unpacker \<Rightarrow> u64 msgpack_zone list \<Rightarrow> u64 multiset" where
  "held m zs = add_mset (mp_buffer m) (zone_refs (mp_zone m # zs))"

definition pins :: "'h unpacker_state \<Rightarrow> u64 set" where
  "pins s = (case s of (m, bufs, zs) \<Rightarrow>
     set_mset (zone_refs (mp_zone m # zs)) \<union> (if CTX_REFERENCED m then {mp_buffer m} else {}))"

definition filled :: "'h unpacker_state \<Rightarrow> u64 \<Rightarrow> bytes" where
  "filled s b = (case s of (m, bufs, zs) \<Rightarrow>
     (case bufs b of None \<Rightarrow> [] | Some bf \<Rightarrow> if b = mp_buffer m then take (unat (mp_used m)) (bf_bytes bf) else bf_bytes bf))"

definition room_ok :: "buffers \<Rightarrow> 'h msgpack_unpacker \<Rightarrow> bool" where
  "room_ok bufs m \<longleftrightarrow> (\<exists>bf. bufs (mp_buffer m) = Some bf \<and>
     unat (mp_used m) + unat (mp_free m) = length (bf_bytes bf) \<and> length (bf_bytes bf) < 2 ^ 64 \<and>
     4 \<le> unat (mp_off m) \<and> unat (mp_off m) \<le> unat (mp_used m) \<and> 4 \<le> unat (mp_initial_buffer_size m))"

text \<open>A buffer of which nothing has been parsed has no pointers into it: this is what \<open>realloc\<close> relies on.\<close>

definition unshared :: "'h msgpack_unpacker \<Rightarrow> u64 msgpack_zone list \<Rightarrow> bool" where
  "unshared m zs \<longleftrightarrow> \<not> CTX_REFERENCED m \<and> mp_buffer m \<notin># zone_refs (mp_zone m # zs)"

definition U_inv :: "('h \<Rightarrow> nat set) \<Rightarrow> 'h unpacker_state \<Rightarrow> bool" where
  "U_inv live s \<longleftrightarrow> (case s of (m, bufs, zs) \<Rightarrow>
     counts_ok bufs (held m zs) \<and> (\<forall>b \<in> dom bufs. unat b \<in> live (mp_heap m)) \<and> list_all zone_ok (mp_zone m # zs) \<and>
     room_ok bufs m \<and> (mp_off m = COUNTER_SIZE \<longrightarrow> unshared m zs))"

text \<open>What every step keeps: the invariant, and what objects point to.\<close>

definition keeps :: "('h \<Rightarrow> nat set) \<Rightarrow> 'h unpacker_state \<Rightarrow> 'h unpacker_state \<Rightarrow> bool" where
  "keeps live s s' \<longleftrightarrow> U_inv live s' \<and> (\<forall>b \<in> pins s \<inter> pins s'. prefix (filled s b) (filled s' b))"

lemma zone_refs_simps [simp]: "zone_refs [] = {#}" "zone_refs (z # zs) = mset (finals z) + zone_refs zs"
  "zone_refs (zs @ ws) = zone_refs zs + zone_refs ws"
  by (simp_all add: zone_refs_def)

lemma set_user_simps [simp]:
  "mp_zone (set_user m z h r) = z" "mp_heap (set_user m z h r) = h" "CTX_REFERENCED (set_user m z h r) = r"
  "mp_buffer (set_user m z h r) = mp_buffer m" "mp_used (set_user m z h r) = mp_used m"
  "mp_free (set_user m z h r) = mp_free m" "mp_off (set_user m z h r) = mp_off m"
  "mp_initial_buffer_size (set_user m z h r) = mp_initial_buffer_size m"
  by (simp_all add: set_user_def mp_zone_def mp_heap_def CTX_REFERENCED_def)

lemma bind_pair_eq_Some:
  "Option.bind x (\<lambda>(a, b). f a b) = Some y \<longleftrightarrow> (\<exists>a b. x = Some (a, b) \<and> f a b = Some y)"
  by (cases x) auto

lemma malloc_fresh:
  assumes "malloc_law mal live" and "mal h n = Some (t, h')" and "0 < unat n"
  shows "unat t \<notin> live h" "unat t \<in> live h'" "live h \<subseteq> live h'"
proof -
  have "span t (unat n) \<inter> live h = {}" "live h \<union> span t (unat n) \<subseteq> live h'"
    using assms(1,2) unfolding malloc_law_def by blast+
  moreover have "unat t \<in> span t (unat n)" using assms(3) by (simp add: span_def)
  ultimately show "unat t \<notin> live h" "unat t \<in> live h'" "live h \<subseteq> live h'" by auto
qed

lemma zone_new_ok:
  assumes "malloc_law mal live" and "msgpack_zone_new mal h n = Some (z, h')"
  shows "zone_ok z \<and> finals z = [] \<and> live h \<subseteq> live h'"
proof -
  obtain p h1 c where al: "mal h sizeof_zone = Some (p, h1)" "mal h1 (sizeof_chunk + n) = Some (c, h')"
    and "finalizer_array z = init_finalizer_array" "cl_head (chunk_list z) = [\<lparr>ck_addr = c, ck_data = n\<rparr>]"
    using assms(2) by (auto simp: msgpack_zone_new_def init_chunk_list_def split: option.splits)
  moreover have "live h \<subseteq> live h'" using malloc_grow [OF assms(1)] al by blast
  ultimately show ?thesis by (simp add: zone_ok_def init_finalizer_array_def)
qed

lemma counter_size: "unat COUNTER_SIZE = 4"
  by (simp add: COUNTER_SIZE_def)

lemma unpacker_init_inv:
  assumes law: "malloc_law mal live" and run: "msgpack_unpacker_init mal h Map.empty n = Some (m, bufs)"
  shows "U_inv live (m, bufs, [])"
proof -
  define k where "k = (if n < COUNTER_SIZE then COUNTER_SIZE else n)"
  have "do { (buffer, h1) \<leftarrow> mal h k; (c, h2) \<leftarrow> mal h1 sizeof_context;
      (z, h3) \<leftarrow> msgpack_zone_new mal h2 MSGPACK_ZONE_CHUNK_SIZE;
      Some (\<lparr>mp_buffer = buffer, mp_used = COUNTER_SIZE, mp_free = k - COUNTER_SIZE, mp_off = COUNTER_SIZE,
             mp_parsed = 0, mp_initial_buffer_size = k, mp_ctx = new_context (z, h3)\<rparr>,
            Map.empty(buffer \<mapsto> init_count (new_bytes k))) } = Some (m, bufs)"
    using run by (simp only: msgpack_unpacker_init_def Let_def k_def)
  then obtain buffer h1 c h2 z h3 where al: "mal h k = Some (buffer, h1)" "mal h1 sizeof_context = Some (c, h2)"
      "msgpack_zone_new mal h2 MSGPACK_ZONE_CHUNK_SIZE = Some (z, h3)"
    and m: "m = \<lparr>mp_buffer = buffer, mp_used = COUNTER_SIZE, mp_free = k - COUNTER_SIZE, mp_off = COUNTER_SIZE,
               mp_parsed = 0, mp_initial_buffer_size = k, mp_ctx = new_context (z, h3)\<rparr>"
    and bufs: "bufs = [buffer \<mapsto> init_count (new_bytes k)]"
    unfolding bind_pair_eq_Some by blast
  have n: "4 \<le> unat k" by (simp add: k_def counter_size word_less_nat_alt not_less)
  then have f: "unat buffer \<in> live h1" using malloc_fresh(2) [OF law al(1)] by linarith
  note z = zone_new_ok [OF law al(3)]
  have live: "unat buffer \<in> live h3" using f malloc_grow [OF law al(2)] z by blast
  have ctx: "mp_zone m = z" "mp_heap m = h3" "\<not> CTX_REFERENCED m"
    by (simp_all add: m mp_zone_def mp_heap_def CTX_REFERENCED_def new_context_def template_init_def)
  have "counts_ok bufs (held m [])"
    using z ctx counts_new [of Map.empty "{#}" buffer] by (simp add: held_def bufs m init_count_def counts_ok_def)
  moreover have "room_ok bufs m"
    using n unat_lt_exp [of k]
    by (simp add: room_ok_def bufs m init_count_def new_bytes_def counter_size unat_sub word_le_nat_alt)
  ultimately show ?thesis using z ctx live by (simp add: U_inv_def unshared_def bufs)
qed

section \<open>Making room\<close>

lemma keeps_refl: "U_inv live s \<Longrightarrow> keeps live s s"
  by (simp add: keeps_def)

lemma keeps_trans: "keeps live s1 s2 \<Longrightarrow> keeps live s2 s3 \<Longrightarrow> pins s1 \<inter> pins s3 \<subseteq> pins s2 \<Longrightarrow> keeps live s1 s3"
  unfolding keeps_def by (meson IntD1 IntD2 IntI prefix_order.trans subsetD)

lemma rewind_keeps:
  assumes inv: "U_inv live (m, bufs, zs)" and can: "can_rewind bufs m = Some True"
  shows "keeps live (m, bufs, zs) (rewind_buffer m, bufs, zs) \<and> pins (rewind_buffer m, bufs, zs) = pins (m, bufs, zs)"
proof -
  obtain bf where bf: "bufs (mp_buffer m) = Some bf" "bf_count bf = 1" and ref: "\<not> CTX_REFERENCED m" and uo: "mp_used m = mp_off m"
    using can by (auto simp: can_rewind_def get_count_def split: if_splits)
  have same: "mp_zone (rewind_buffer m) = mp_zone m" "mp_heap (rewind_buffer m) = mp_heap m"
    "CTX_REFERENCED (rewind_buffer m) = CTX_REFERENCED m" "mp_buffer (rewind_buffer m) = mp_buffer m"
    by (simp_all add: rewind_buffer_def mp_zone_def mp_heap_def CTX_REFERENCED_def)
  have "count (held m zs) (mp_buffer m) = 1" using inv counts_at [of bufs "held m zs" "mp_buffer m"] bf by (simp add: U_inv_def)
  then have un: "mp_buffer m \<notin># zone_refs (mp_zone m # zs)" by (simp add: held_def not_in_iff)
  have room: "room_ok bufs m" using inv by (simp add: U_inv_def)
  then have "4 \<le> unat (mp_used m)" "unat (mp_free m) + (unat (mp_used m) - 4) < 2 ^ 64" by (auto simp: room_ok_def)
  then have "unat (mp_free m + (mp_used m - COUNTER_SIZE)) = unat (mp_free m) + (unat (mp_used m) - 4)"
    by (simp add: unat_word_ariths(1) unat_sub word_le_nat_alt counter_size)
  then have "room_ok bufs (rewind_buffer m)" using room by (auto simp: room_ok_def rewind_buffer_def counter_size)
  then have "U_inv live (rewind_buffer m, bufs, zs)"
    using inv un ref by (simp add: U_inv_def held_def unshared_def same)
  moreover have pins: "pins (rewind_buffer m, bufs, zs) = pins (m, bufs, zs)" by (simp add: pins_def same)
  moreover have "filled (rewind_buffer m, bufs, zs) b = filled (m, bufs, zs) b" if "b \<in> pins (m, bufs, zs)" for b
    using that un ref by (auto simp: pins_def filled_def same split: option.splits)
  ultimately show ?thesis by (simp add: keeps_def)
qed

lemma grow_next:
  assumes "unat n + unat u < 2 ^ 64"
  shows "unat n + unat u \<le> unat (grow_size a (n + u))"
  using grow_size_ge [of "n + u" a] assms by (simp add: word_le_nat_alt unat_word_ariths)

lemma U_inv_fresh:
  assumes "U_inv live (m, bufs, zs)" and "malloc_law mal live" and "mal (mp_heap m) n = Some (t, h)" and "0 < unat n"
  shows "t \<notin># held m zs" "\<forall>b \<in> dom bufs. unat b \<in> live h" "unat t \<in> live h"
proof -
  note f = malloc_fresh [OF assms(2-4)]
  have d: "dom bufs = set_mset (held m zs)" "\<forall>b \<in> dom bufs. unat b \<in> live (mp_heap m)"
    using assms(1) counts_dom by (auto simp: U_inv_def)
  with f show "t \<notin># held m zs" "\<forall>b \<in> dom bufs. unat b \<in> live h" "unat t \<in> live h" by auto
qed

lemma in_place_keeps:
  assumes law: "malloc_law mal live" and inv: "U_inv live (m, bufs, zs)" and off: "mp_off m = COUNTER_SIZE"
    and n: "unat n + unat (mp_used m) + 4 < 2 ^ 64"
  shows "\<exists>r m' bufs'. expand_in_place mal bufs m n = Some (r, m', bufs') \<and> keeps live (m, bufs, zs) (m', bufs', zs) \<and>
    (r \<longrightarrow> unat n \<le> unat (mp_free m'))"
proof -
  define N where "N = grow_size ((mp_used m + mp_free m) * 2) (n + mp_used m)"
  have ex: "expand_in_place mal bufs m n =
      (case mal (mp_heap m) N of None \<Rightarrow> Some (False, m, bufs)
       | Some (tmp, h) \<Rightarrow> do { b \<leftarrow> bufs (mp_buffer m);
           Some (True, set_user (m\<lparr>mp_buffer := tmp, mp_free := N - mp_used m\<rparr>) (mp_zone m) h (CTX_REFERENCED m),
             bufs(mp_buffer m := None, tmp \<mapsto> realloc_bytes b N)) })"
    by (simp only: expand_in_place_def Let_def N_def)
  show ?thesis
  proof (cases "mal (mp_heap m) N")
    case None
    then show ?thesis using keeps_refl [OF inv] by (intro exI [of _ False] exI conjI) (simp_all add: ex)
  next
    case (Some p)
    then obtain t h where al: "mal (mp_heap m) N = Some (t, h)" by (cases p) auto
    obtain bf where bf: "bufs (mp_buffer m) = Some bf" "4 \<le> unat (mp_used m)" "unat (mp_used m) \<le> length (bf_bytes bf)"
      using inv by (auto simp: U_inv_def room_ok_def)
    have big: "unat n + unat (mp_used m) \<le> unat N" unfolding N_def using n by (intro grow_next) simp
    then have "0 < unat N" using bf(2) by linarith
    note f = U_inv_fresh [OF inv law al this]
    have un: "\<not> CTX_REFERENCED m" "mp_buffer m \<notin># zone_refs (mp_zone m # zs)"
      using inv off by (auto simp: U_inv_def unshared_def)
    have c1: "bf_count bf = 1"
      using inv counts_at [of bufs "held m zs" "mp_buffer m"] bf(1) un(2)
      by (simp add: U_inv_def held_def not_in_iff word_unat_eq_iff)
    let ?m = "set_user (m\<lparr>mp_buffer := t, mp_free := N - mp_used m\<rparr>) (mp_zone m) h (CTX_REFERENCED m)"
    let ?bufs = "bufs(mp_buffer m := None, t \<mapsto> realloc_bytes bf N)"
    have run: "expand_in_place mal bufs m n = Some (True, ?m, ?bufs)" by (simp add: ex al bf(1))
    have free: "unat (N - mp_used m) = unat N - unat (mp_used m)" using big by (simp add: unat_sub word_le_nat_alt)
    have "counts_ok ?bufs (held ?m zs)"
      using counts_move [of bufs "mp_buffer m" "zone_refs (mp_zone m # zs)" t "realloc_bytes bf N"] inv un(2) f(1) c1
      by (simp add: U_inv_def held_def realloc_bytes_def)
    moreover have "room_ok ?bufs ?m"
      using inv bf big free unat_lt_exp [of N] by (auto simp: U_inv_def room_ok_def realloc_bytes_def min_def)
    moreover have "unshared ?m zs" using un f(1) by (auto simp: unshared_def held_def)
    ultimately have "U_inv live (?m, ?bufs, zs)" using inv f by (simp add: U_inv_def)
    moreover have "filled (?m, ?bufs, zs) b = filled (m, bufs, zs) b" if "b \<in> pins (m, bufs, zs)" for b
      using that un f(1) by (auto simp: pins_def filled_def held_def split: option.splits)
    ultimately have "keeps live (m, bufs, zs) (?m, ?bufs, zs)" by (simp add: keeps_def)
    then show ?thesis using run big free by (intro exI [of _ True] exI [of _ ?m] exI [of _ ?bufs]) simp
  qed
qed

lemma push_keeps_zone:
  assumes "zone_ok z" and "msgpack_zone_push_finalizer ok z f = (r, z')"
  shows "zone_ok z'" "finals z' = (if r then finals z @ [f] else finals z)"
  using push_finalizer_effect [OF _ assms(2)] assms(1) by (auto simp: zone_ok_def split: if_splits)

text \<open>The buffer that replaces the old one.\<close>

definition next_buffer :: "'h msgpack_unpacker \<Rightarrow> unpack_buffer \<Rightarrow> u64 \<Rightarrow> unpack_buffer" where
  "next_buffer m bf N = \<lparr>bf_count = 1,
     bf_bytes = replicate 4 0 @ take (unat (mp_used m) - unat (mp_off m)) (drop (unat (mp_off m)) (bf_bytes bf)) @
       replicate (unat N - 4 - (unat (mp_used m) - unat (mp_off m))) 0\<rparr>"

lemma copy_unparsed:
  assumes "unat (mp_off m) \<le> unat (mp_used m)" and "unat (mp_used m) \<le> length (bf_bytes bf)"
    and "unat (mp_used m) - unat (mp_off m) + 4 \<le> unat N"
  shows "memcpy_bytes (init_count (new_bytes N)) (unat COUNTER_SIZE)
      (take (unat (mp_used m - mp_off m)) (drop (unat (mp_off m)) (bf_bytes bf))) = Some (next_buffer m bf N)"
proof -
  have "unat (mp_used m - mp_off m) = unat (mp_used m) - unat (mp_off m)" using assms(1) by (simp add: unat_sub word_le_nat_alt)
  then show ?thesis
    using assms by (auto simp: memcpy_bytes_def init_count_def new_bytes_def next_buffer_def counter_size min_def drop_replicate take_replicate)
qed

definition moved_to :: "'h msgpack_unpacker \<Rightarrow> u64 \<Rightarrow> u64 \<Rightarrow> 'h msgpack_unpacker" where
  "moved_to m N t = m\<lparr>mp_buffer := t, mp_used := mp_used m - mp_off m + COUNTER_SIZE,
     mp_free := N - (mp_used m - mp_off m + COUNTER_SIZE), mp_off := COUNTER_SIZE\<rparr>"

lemma moved_buffer [simp]: "mp_buffer (moved_to m N t) = t"
  by (simp add: moved_to_def)

lemma moved_room:
  assumes "room_ok bufs m" and "bufs (mp_buffer m) = Some bf" and "unat n + unat (mp_used m) + 4 < 2 ^ 64"
    and N: "unat n + (unat (mp_used m) - unat (mp_off m)) + 4 \<le> unat N"
  shows "room_ok (bufs'(t \<mapsto> next_buffer m bf N)) (set_user (moved_to m N t) z h r)"
    and "unat n \<le> unat (mp_free (moved_to m N t))"
    and "unat (mp_used (moved_to m N t)) = unat (mp_used m) - unat (mp_off m) + 4"
proof -
  have off: "unat (mp_off m) \<le> unat (mp_used m)" "4 \<le> unat (mp_off m)" "4 \<le> unat (mp_initial_buffer_size m)"
    "unat (mp_used m) \<le> length (bf_bytes bf)"
    using assms(1,2) by (auto simp: room_ok_def)
  have u: "unat (mp_used m - mp_off m + COUNTER_SIZE) = unat (mp_used m) - unat (mp_off m) + 4"
    using off(1,2) unat_lt_exp [of "mp_used m"] by (simp add: unat_word_ariths(1) unat_sub word_le_nat_alt counter_size)
  have f: "unat (N - (mp_used m - mp_off m + COUNTER_SIZE)) = unat N - (unat (mp_used m) - unat (mp_off m) + 4)"
    using N by (simp add: u unat_sub word_le_nat_alt)
  show "room_ok (bufs'(t \<mapsto> next_buffer m bf N)) (set_user (moved_to m N t) z h r)"
    using off N unat_lt_exp [of N] by (auto simp: room_ok_def moved_to_def u f next_buffer_def counter_size min_def)
  show "unat n \<le> unat (mp_free (moved_to m N t))" using N by (simp add: moved_to_def f)
  show "unat (mp_used (moved_to m N t)) = unat (mp_used m) - unat (mp_off m) + 4" by (simp add: moved_to_def u)
qed

lemma U_inv_parts:
  assumes "U_inv live (m, bufs, zs)"
  obtains bf where "bufs (mp_buffer m) = Some bf" "unat (mp_off m) \<le> unat (mp_used m)" "unat (mp_used m) \<le> length (bf_bytes bf)"
    "4 \<le> unat (mp_off m)" "counts_ok bufs (held m zs)" "\<forall>b \<in> dom bufs. unat b \<in> live (mp_heap m)"
    "list_all zone_ok (mp_zone m # zs)" "room_ok bufs m"
  using assms by (auto simp: U_inv_def room_ok_def)

text \<open>Moving the unparsed bytes to a new buffer, once the old one has been handed over or given up.\<close>

lemma moved_keeps:
  assumes inv: "U_inv live (m, bufs, zs)" and bf: "bufs (mp_buffer m) = Some bf"
    and n: "unat n + unat (mp_used m) + 4 < 2 ^ 64" and N: "unat n + (unat (mp_used m) - unat (mp_off m)) + 4 \<le> unat N"
    and t: "t \<notin># held m zs" "unat t \<in> live h" "\<forall>b \<in> dom bufs. unat b \<in> live h"
    and z: "zone_ok z" "counts_ok bufs' (mset (finals z) + zone_refs zs)" "same_bytes bufs bufs'"
      "set (finals z) \<subseteq> insert (mp_buffer m) (set (finals (mp_zone m)))"
  shows "keeps live (m, bufs, zs) (set_user (moved_to m N t) z h False, bufs'(t \<mapsto> next_buffer m bf N), zs)"
proof -
  let ?m = "set_user (moved_to m N t) z h False" and ?bufs = "bufs'(t \<mapsto> next_buffer m bf N)"
  have mb: "mp_buffer ?m = t" "mp_zone ?m = z" by (simp_all add: moved_to_def)
  have tz: "t \<notin># mset (finals z) + zone_refs zs" using t(1) z(4) by (auto simp: held_def)
  have "room_ok bufs m" using inv by (simp add: U_inv_def)
  then have "room_ok ?bufs ?m" using bf n N by (rule moved_room(1))
  moreover have "counts_ok ?bufs (held ?m zs)"
    unfolding held_def mb using counts_new [OF z(2) tz, of "next_buffer m bf N"] by (simp add: next_buffer_def)
  moreover have "dom bufs' \<subseteq> dom bufs" using z(3) by (fastforce simp: same_bytes_def)
  then have "\<forall>b \<in> dom ?bufs. unat b \<in> live h" using t by auto
  moreover have "unshared ?m zs" unfolding unshared_def mb using tz by simp
  ultimately have "U_inv live (?m, ?bufs, zs)" using inv z(1) by (simp add: U_inv_def mb)
  moreover have "prefix (filled (m, bufs, zs) b) (filled (?m, ?bufs, zs) b)" if b: "b \<in> pins (?m, ?bufs, zs)" for b
  proof -
    have "b \<in># mset (finals z) + zone_refs zs" using b by (simp add: pins_def mb)
    from counts_in [OF z(2) this] obtain f where f: "bufs' b = Some f" by blast
    then obtain f0 where "bufs b = Some f0" "bf_bytes f = bf_bytes f0" using z(3) by (auto simp: same_bytes_def)
    moreover have "b \<noteq> t" using tz b by (auto simp: pins_def mb)
    ultimately show ?thesis using f by (auto simp: filled_def mb take_is_prefix)
  qed
  ultimately show ?thesis by (simp add: keeps_def)
qed

lemma next_size_ok:
  assumes inv: "U_inv live (m, bufs, zs)" and n: "unat n + unat (mp_used m) + 4 < 2 ^ 64"
  shows "unat n + (unat (mp_used m) - unat (mp_off m)) + 4 \<le>
    unat (grow_size (mp_initial_buffer_size m) (n + (mp_used m - mp_off m) + COUNTER_SIZE))"
proof -
  have le: "unat (mp_off m) \<le> unat (mp_used m)" using U_inv_parts [OF inv] by blast
  then have np: "unat (mp_used m - mp_off m) = unat (mp_used m) - unat (mp_off m)" by (simp add: unat_sub word_le_nat_alt)
  have need: "unat (n + (mp_used m - mp_off m) + COUNTER_SIZE) = unat n + (unat (mp_used m) - unat (mp_off m)) + 4"
    using n le by (simp add: unat_word_ariths(1) np counter_size)
  show ?thesis
    using grow_size_ge [of "n + (mp_used m - mp_off m) + COUNTER_SIZE" "mp_initial_buffer_size m"]
    unfolding word_le_nat_alt need .
qed

lemma expand_to_new_eq:
  assumes inv: "U_inv live (m, bufs, zs)" and n: "unat n + unat (mp_used m) + 4 < 2 ^ 64" and b: "bufs (mp_buffer m) = Some bf"
  defines "N \<equiv> grow_size (mp_initial_buffer_size m) (n + (mp_used m - mp_off m) + COUNTER_SIZE)"
  shows "expand_to_new mal ok bufs m n =
      (case mal (mp_heap m) N of None \<Rightarrow> Some (False, m, bufs)
       | Some (t, h) \<Rightarrow>
           (if CTX_REFERENCED m then
              (case msgpack_zone_push_finalizer ok (mp_zone m) (mp_buffer m) of
                 (False, z) \<Rightarrow> Some (False, set_user m z h True, bufs)
               | (True, z) \<Rightarrow> Some (True, set_user (moved_to m N t) z h False, bufs(t \<mapsto> next_buffer m bf N)))
            else do { bufs1 \<leftarrow> decr_count bufs (mp_buffer m);
              Some (True, set_user (moved_to m N t) (mp_zone m) h False, bufs1(t \<mapsto> next_buffer m bf N)) }))"
proof -
  have le: "unat (mp_off m) \<le> unat (mp_used m)" "unat (mp_used m) \<le> length (bf_bytes bf)"
    using U_inv_parts [OF inv] b by (metis option.inject)+
  have copy: "memcpy_bytes (init_count (new_bytes N)) (unat COUNTER_SIZE)
      (take (unat (mp_used m - mp_off m)) (drop (unat (mp_off m)) (bf_bytes bf))) = Some (next_buffer m bf N)"
    using next_size_ok [OF inv n, folded N_def] by (intro copy_unparsed [OF le]) simp
  show ?thesis
    unfolding expand_to_new_def Let_def N_def [symmetric] b bind.bind_lunit copy moved_to_def by (rule refl)
qed

lemma to_new_keeps:
  assumes law: "malloc_law mal live" and inv: "U_inv live (m, bufs, zs)"
    and n: "unat n + unat (mp_used m) + 4 < 2 ^ 64"
  shows "\<exists>r m' bufs'. expand_to_new mal ok bufs m n = Some (r, m', bufs') \<and> keeps live (m, bufs, zs) (m', bufs', zs) \<and>
    (r \<longrightarrow> unat n \<le> unat (mp_free m'))"
proof -
  obtain bf where bf: "bufs (mp_buffer m) = Some bf" "unat (mp_off m) \<le> unat (mp_used m)" "unat (mp_used m) \<le> length (bf_bytes bf)"
    "4 \<le> unat (mp_off m)" and C: "counts_ok bufs (held m zs)" and zok: "list_all zone_ok (mp_zone m # zs)" and room: "room_ok bufs m"
    using U_inv_parts [OF inv] by blast
  define N where "N = grow_size (mp_initial_buffer_size m) (n + (mp_used m - mp_off m) + COUNTER_SIZE)"
  have N: "unat n + (unat (mp_used m) - unat (mp_off m)) + 4 \<le> unat N" unfolding N_def by (rule next_size_ok [OF inv n])
  note ex = expand_to_new_eq [OF inv n bf(1), folded N_def, of mal ok]
  show ?thesis
  proof (cases "mal (mp_heap m) N")
    case None
    then show ?thesis using keeps_refl [OF inv] by (intro exI [of _ False] exI conjI) (simp_all add: ex)
  next
    case (Some p)
    then obtain t h where al: "mal (mp_heap m) N = Some (t, h)" by (cases p) auto
    have "0 < unat N" using N by linarith
    note f = U_inv_fresh [OF inv law al this]
    note free = moved_room(2) [OF room bf(1) n N]
    show ?thesis
    proof (cases "CTX_REFERENCED m")
      case True
      obtain r z where push: "msgpack_zone_push_finalizer ok (mp_zone m) (mp_buffer m) = (r, z)" by (cases "msgpack_zone_push_finalizer ok (mp_zone m) (mp_buffer m)")
      note z = push_keeps_zone [OF _ push]
      show ?thesis
      proof (cases r)
        case True
        have "keeps live (m, bufs, zs) (set_user (moved_to m N t) z h False, bufs(t \<mapsto> next_buffer m bf N), zs)"
          using z zok True C by (intro moved_keeps [OF inv bf(1) n N f(1,3,2)]) (auto simp: held_def)
        with True \<open>CTX_REFERENCED m\<close> push al free show ?thesis
          by (intro exI [of _ True] exI [of _ "set_user (moved_to m N t) z h False"] exI) (auto simp: ex)
      next
        case False
        then have fz: "finals z = finals (mp_zone m)" "zone_ok z" using z zok by auto
        have live: "\<forall>b \<in> dom bufs. unat b \<in> live h" using f by blast
        have "keeps live (m, bufs, zs) (set_user m z h True, bufs, zs)"
          using inv fz \<open>CTX_REFERENCED m\<close> live
          by (auto simp: keeps_def U_inv_def held_def room_ok_def unshared_def filled_def split: option.splits)
        with False \<open>CTX_REFERENCED m\<close> push al show ?thesis
          by (intro exI [of _ False] exI conjI) (simp_all add: ex)
      qed
    next
      case False
      have "counts_ok bufs (add_mset (mp_buffer m) (mset (finals (mp_zone m)) + zone_refs zs))" using C by (simp add: held_def)
      from decr_ok [OF this] obtain b1 where b1: "decr_count bufs (mp_buffer m) = Some b1"
        "counts_ok b1 (mset (finals (mp_zone m)) + zone_refs zs)" "same_bytes bufs b1" by blast
      have "keeps live (m, bufs, zs) (set_user (moved_to m N t) (mp_zone m) h False, b1(t \<mapsto> next_buffer m bf N), zs)"
        using zok b1 by (intro moved_keeps [OF inv bf(1) n N f(1,3,2)]) auto
      with False b1(1) al free show ?thesis
        by (intro exI [of _ True] exI [of _ "set_user (moved_to m N t) (mp_zone m) h False"] exI) (auto simp: ex)
    qed
  qed
qed

lemma expand_keeps:
  assumes law: "malloc_law mal live" and inv: "U_inv live (m, bufs, zs)"
    and n: "unat n + unat (mp_used m) + 4 < 2 ^ 64"
  shows "\<exists>r m' bufs'. msgpack_unpacker_expand_buffer mal ok bufs m n = Some (r, m', bufs') \<and>
    keeps live (m, bufs, zs) (m', bufs', zs) \<and> (r \<longrightarrow> unat n \<le> unat (mp_free m'))"
proof -
  obtain bf where bf: "bufs (mp_buffer m) = Some bf" "4 \<le> unat (mp_used m)" using U_inv_parts [OF inv] by (metis order_trans)
  then obtain rw where rw: "can_rewind bufs m = Some rw"
    by (cases "mp_used m = mp_off m") (auto simp: can_rewind_def get_count_def)
  let ?m1 = "if rw then rewind_buffer m else m"
  have k: "keeps live (m, bufs, zs) (?m1, bufs, zs)" "pins (?m1, bufs, zs) = pins (m, bufs, zs)"
    using rewind_keeps [OF inv] rw keeps_refl [OF inv] by auto
  then have inv1: "U_inv live (?m1, bufs, zs)" by (simp add: keeps_def)
  have n1: "unat n + unat (mp_used ?m1) + 4 < 2 ^ 64" using n bf(2) by (simp add: rewind_buffer_def counter_size)
  have ex: "msgpack_unpacker_expand_buffer mal ok bufs m n =
      (if rw \<and> mp_free ?m1 \<ge> n then Some (True, ?m1, bufs)
       else if mp_off ?m1 = COUNTER_SIZE then expand_in_place mal bufs ?m1 n else expand_to_new mal ok bufs ?m1 n)"
    by (simp only: msgpack_unpacker_expand_buffer_def rw bind.bind_lunit Let_def)
  have "\<exists>r m' bufs'. msgpack_unpacker_expand_buffer mal ok bufs m n = Some (r, m', bufs') \<and>
      keeps live (?m1, bufs, zs) (m', bufs', zs) \<and> (r \<longrightarrow> unat n \<le> unat (mp_free m'))"
    using in_place_keeps [OF law inv1 _ n1] to_new_keeps [OF law inv1 n1, of ok] keeps_refl [OF inv1]
    unfolding ex by (auto simp: word_le_nat_alt simp del: split_paired_Ex)
  then show ?thesis using keeps_trans [OF k(1)] k(2) by blast
qed

lemma reserve_keeps:
  assumes "malloc_law mal live" and "U_inv live (m, bufs, zs)" and "unat n + unat (mp_used m) + 4 < 2 ^ 64"
  shows "\<exists>r m' bufs'. msgpack_unpacker_reserve_buffer mal ok bufs m n = Some (r, m', bufs') \<and>
    keeps live (m, bufs, zs) (m', bufs', zs) \<and> (r \<longrightarrow> unat n \<le> unat (mp_free m'))"
  using expand_keeps [OF assms, of ok] keeps_refl [OF assms(2)]
  by (auto simp: msgpack_unpacker_reserve_buffer_def word_le_nat_alt)

section \<open>Receiving\<close>

text \<open>The client copies bytes to where \<open>msgpack_unpacker_buffer\<close> points, and announces them.\<close>

definition feed :: "buffers \<Rightarrow> 'h msgpack_unpacker \<Rightarrow> bytes \<Rightarrow> ('h msgpack_unpacker \<times> buffers) option" where
  "feed bufs m bs = do {
     b \<leftarrow> bufs (mp_buffer m);
     b' \<leftarrow> memcpy_bytes b (unat (mp_used m)) bs;
     Some (msgpack_unpacker_buffer_consumed m (of_nat (length bs)), bufs(mp_buffer m \<mapsto> b')) }"

lemma counts_bytes:
  assumes "counts_ok bufs M" and "bufs b = Some bf" and "bf_count bf' = bf_count bf"
  shows "counts_ok (bufs(b \<mapsto> bf')) M"
  using counts_at [OF assms(1), of b] assms by (intro counts_upd [OF assms(1)]) auto

lemma feed_keeps:
  assumes inv: "U_inv live (m, bufs, zs)" and len: "length bs \<le> unat (mp_free m)"
  shows "\<exists>m' bufs'. feed bufs m bs = Some (m', bufs') \<and> keeps live (m, bufs, zs) (m', bufs', zs)"
proof -
  obtain bf where bf: "bufs (mp_buffer m) = Some bf" "unat (mp_used m) + unat (mp_free m) = length (bf_bytes bf)"
    "length (bf_bytes bf) < 2 ^ 64" "4 \<le> unat (mp_off m)" "unat (mp_off m) \<le> unat (mp_used m)" "4 \<le> unat (mp_initial_buffer_size m)"
    and C: "counts_ok bufs (held m zs)"
    using inv by (auto simp: U_inv_def room_ok_def)
  let ?u = "unat (mp_used m)"
  let ?bf = "bf\<lparr>bf_bytes := take ?u (bf_bytes bf) @ bs @ drop (?u + length bs) (bf_bytes bf)\<rparr>"
  let ?m = "msgpack_unpacker_buffer_consumed m (of_nat (length bs))" and ?bufs = "bufs(mp_buffer m \<mapsto> ?bf)"
  have run: "feed bufs m bs = Some (?m, ?bufs)" using bf len by (simp add: feed_def memcpy_bytes_def)
  have l: "unat (of_nat (length bs) :: u64) = length bs" using len bf(2,3) by (simp add: unat_of_nat_small)
  have used: "unat (mp_used ?m) = ?u + length bs" "unat (mp_free ?m) = unat (mp_free m) - length bs"
    using l len bf(2,3) by (simp_all add: msgpack_unpacker_buffer_consumed_def unat_word_ariths(1) unat_sub word_le_nat_alt)
  have same: "mp_zone ?m = mp_zone m" "mp_heap ?m = mp_heap m" "CTX_REFERENCED ?m = CTX_REFERENCED m" "mp_buffer ?m = mp_buffer m"
    "mp_off ?m = mp_off m" "mp_initial_buffer_size ?m = mp_initial_buffer_size m"
    by (simp_all add: msgpack_unpacker_buffer_consumed_def mp_zone_def mp_heap_def CTX_REFERENCED_def)
  have "counts_ok ?bufs (held ?m zs)" using counts_bytes [OF C bf(1)] by (simp add: held_def same)
  moreover have "room_ok ?bufs ?m" using bf len by (simp add: room_ok_def used same)
  moreover have "dom ?bufs = dom bufs" using bf(1) by auto
  ultimately have "U_inv live (?m, ?bufs, zs)" using inv by (simp add: U_inv_def same unshared_def)
  moreover have "prefix (filled (m, bufs, zs) b) (filled (?m, ?bufs, zs) b)" for b
    using bf(1,2) len by (auto simp: filled_def same used split: option.splits)
  ultimately show ?thesis using run by (simp add: keeps_def)
qed

section \<open>Parsing\<close>

text \<open>Parsing and everything about zones moves no bytes.\<close>

definition calm :: "'h unpacker_state \<Rightarrow> 'h unpacker_state \<Rightarrow> bool" where
  "calm s s' \<longleftrightarrow> (case (s, s') of ((m, bufs, zs), (m', bufs', zs')) \<Rightarrow>
     same_bytes bufs bufs' \<and> mp_buffer m' = mp_buffer m \<and> mp_used m' = mp_used m)"

lemma calm_simps [simp]:
  "calm (m, bufs, zs) (m', bufs', zs') \<longleftrightarrow> same_bytes bufs bufs' \<and> mp_buffer m' = mp_buffer m \<and> mp_used m' = mp_used m"
  by (simp add: calm_def)

lemma calm_keeps:
  assumes "U_inv live (m', bufs', zs')" and "calm (m, bufs, zs) (m', bufs', zs')"
  shows "keeps live (m, bufs, zs) (m', bufs', zs')"
proof -
  have "filled (m', bufs', zs') b = filled (m, bufs, zs) b" if "b \<in> pins (m', bufs', zs')" for b
  proof -
    have "b \<in># held m' zs'" using that by (auto simp: pins_def held_def split: if_splits)
    then obtain f where f: "bufs' b = Some f" using assms(1) counts_in by (fastforce simp: U_inv_def)
    then obtain f0 where "bufs b = Some f0" "bf_bytes f = bf_bytes f0" using assms(2) by (auto simp: same_bytes_def)
    with f assms(2) show ?thesis by (simp add: filled_def)
  qed
  with assms(1) show ?thesis by (simp add: keeps_def)
qed

lemma execute_keeps:
  assumes law: "malloc_law mal live" and inv: "U_inv live (m, bufs, zs)" and ctx: "ctx_ok (mp_ctx m)"
    and run: "msgpack_unpacker_execute mal bufs m = Some (r, m')"
  shows "U_inv live (m', bufs, zs) \<and> calm (m, bufs, zs) (m', bufs, zs) \<and> held m' zs = held m zs \<and>
    (r \<noteq> 1 \<longrightarrow> ctx_ok (mp_ctx m'))"
proof -
  obtain bf ctx off where bf: "bufs (mp_buffer m) = Some bf" "unat (mp_used m) \<le> length (bf_bytes bf)"
    and ex: "template_execute (zone_zm mal) (mp_ctx m) (take (unat (mp_used m)) (bf_bytes bf)) (unat (mp_off m)) = Some (r, ctx, off)"
    and m': "m' = (let m1 = m\<lparr>mp_ctx := ctx, mp_off := of_nat off\<rparr> in
      if mp_off m1 > mp_off m then m1\<lparr>mp_parsed := mp_parsed m + (mp_off m1 - mp_off m)\<rparr> else m1)"
    using run by (auto simp: msgpack_unpacker_execute_def bind_eq_Some_conv Let_def split: if_splits)
  note g = pz.execute_grown [OF ex, of live, unfolded pz.grown_def zone_rel_def]
  have bound: "off \<le> unat (mp_used m)"
    using execute_inside [OF ex ctx] bf(2) by simp
  have off: "unat (of_nat off :: u64) = off" using bound unat_lt_exp [of "mp_used m"] by (simp add: unat_of_nat_small)
  have same: "mp_buffer m' = mp_buffer m" "mp_used m' = mp_used m" "mp_free m' = mp_free m"
    "mp_initial_buffer_size m' = mp_initial_buffer_size m" "mp_off m' = of_nat off"
    by (simp_all add: m' Let_def)
  have zone: "finals (mp_zone m') = finals (mp_zone m)" "zone_ok (mp_zone m) \<Longrightarrow> zone_ok (mp_zone m')"
    "live (mp_heap m) \<subseteq> live (mp_heap m')"
    using g law by (auto simp: m' Let_def mp_zone_def mp_heap_def)
  have ref: "CTX_REFERENCED m' = CTX_REFERENCED m \<or> unat (mp_off m) < off \<and> CTX_REFERENCED m'"
    using g by (auto simp: m' Let_def CTX_REFERENCED_def)
  have grow: "unat (mp_off m) \<le> off" using g by simp
  have "room_ok bufs m'" using inv bound grow off by (auto simp: U_inv_def room_ok_def same)
  moreover have "mp_off m' = COUNTER_SIZE \<Longrightarrow> unshared m' zs"
  proof -
    assume "mp_off m' = COUNTER_SIZE"
    then have "off = 4" using off same(5) counter_size by metis
    moreover have "4 \<le> unat (mp_off m)" using inv by (auto simp: U_inv_def room_ok_def)
    ultimately have "unat (mp_off m) = off" "mp_off m = COUNTER_SIZE" using grow by (auto simp: word_unat_eq_iff counter_size)
    then show "unshared m' zs" using inv ref zone(1) same by (auto simp: U_inv_def unshared_def)
  qed
  ultimately have "U_inv live (m', bufs, zs)" using inv zone by (auto simp: U_inv_def held_def same)
  moreover have "r \<noteq> 1 \<longrightarrow> ctx_ok (mp_ctx m')" using execute_inside [OF ex ctx] by (simp add: m' Let_def)
  ultimately show ?thesis using same zone(1) by (simp add: calm_def held_def)
qed

text \<open>Steps that change the user part of the context and the counts only.\<close>

lemma user_keeps:
  assumes inv: "U_inv live (m, bufs, zs)" and z: "zone_ok z" and zs: "list_all zone_ok zs'"
    and C: "counts_ok bufs' (add_mset (mp_buffer m) (mset (finals z) + zone_refs zs'))"
    and same: "same_bytes bufs bufs'" and h: "live (mp_heap m) \<subseteq> live h"
    and un: "mp_off m = COUNTER_SIZE \<Longrightarrow> unshared (set_user m z h r) zs'"
  shows "U_inv live (set_user m z h r, bufs', zs')"
proof -
  let ?m = "set_user m z h r"
  obtain bf where bf: "bufs (mp_buffer m) = Some bf" and d: "\<forall>b \<in> dom bufs. unat b \<in> live (mp_heap m)" and room: "room_ok bufs m"
    using U_inv_parts [OF inv] by blast
  obtain bf' where bf': "bufs' (mp_buffer m) = Some bf'" using counts_in [OF C, of "mp_buffer m"] by auto
  then have "bf_bytes bf' = bf_bytes bf" using same bf by (fastforce simp: same_bytes_def)
  then have "room_ok bufs' ?m" using room bf bf' by (auto simp: room_ok_def)
  moreover have "dom bufs' \<subseteq> dom bufs" using same by (fastforce simp: same_bytes_def)
  ultimately show ?thesis using C z zs d h un by (auto simp: U_inv_def held_def)
qed

lemma set_user_same: "set_user m (mp_zone m) (mp_heap m) (CTX_REFERENCED m) = m"
  by (simp add: set_user_def mp_zone_def mp_heap_def CTX_REFERENCED_def)

lemma set_user_ctx [simp]: "ctx_ok (mp_ctx (set_user m z h r)) = ctx_ok (mp_ctx m)"
  by (simp add: set_user_def ctx_ok_def)

text \<open>Giving back the zone of an object the client no longer needs.\<close>

lemma free_keeps:
  assumes inv: "U_inv live (m, bufs, zs1 @ z # zs2)"
  shows "\<exists>bufs'. msgpack_zone_free bufs z = Some bufs' \<and> U_inv live (m, bufs', zs1 @ zs2) \<and> same_bytes bufs bufs'"
proof -
  have "counts_ok bufs (mset (finals z) + add_mset (mp_buffer m) (mset (finals (mp_zone m)) + zone_refs (zs1 @ zs2)))"
    using inv by (simp add: U_inv_def held_def ac_simps)
  from zone_free_ok [OF this] obtain bufs' where b: "msgpack_zone_free bufs z = Some bufs'"
    "counts_ok bufs' (add_mset (mp_buffer m) (mset (finals (mp_zone m)) + zone_refs (zs1 @ zs2)))" "same_bytes bufs bufs'" by blast
  have "U_inv live (set_user m (mp_zone m) (mp_heap m) (CTX_REFERENCED m), bufs', zs1 @ zs2)"
    using inv b(2,3) by (intro user_keeps [OF inv]) (auto simp: U_inv_def unshared_def)
  with b show ?thesis by (simp add: set_user_same)
qed

lemma flush_keeps:
  assumes inv: "U_inv live (m, bufs, zs)" and c: "count (held m zs) (mp_buffer m) < 2 ^ 32 - 1"
  shows "\<exists>r m' bufs'. msgpack_unpacker_flush_zone ok bufs m = Some (r, m', bufs') \<and> U_inv live (m', bufs', zs) \<and>
    calm (m, bufs, zs) (m', bufs', zs) \<and>
    (r \<longrightarrow> set (finals (mp_zone m)) \<union> (if CTX_REFERENCED m then {mp_buffer m} else {}) \<subseteq> set (finals (mp_zone m')))"
proof (cases "CTX_REFERENCED m")
  case False
  then show ?thesis using inv
    by (intro exI [of _ True] exI [of _ m] exI [of _ bufs]) (simp add: msgpack_unpacker_flush_zone_def)
next
  case True
  obtain r z where push: "msgpack_zone_push_finalizer ok (mp_zone m) (mp_buffer m) = (r, z)"
    by (cases "msgpack_zone_push_finalizer ok (mp_zone m) (mp_buffer m)")
  have zok: "zone_ok (mp_zone m)" "list_all zone_ok zs" and C: "counts_ok bufs (held m zs)"
    and off: "mp_off m \<noteq> COUNTER_SIZE" using inv True by (auto simp: U_inv_def unshared_def)
  note z = push_keeps_zone [OF zok(1) push]
  show ?thesis
  proof (cases r)
    case False
    with C z have "counts_ok bufs (add_mset (mp_buffer m) (mset (finals z) + zone_refs zs))" by (simp add: held_def)
    with z(1) zok(2) off have "U_inv live (set_user m z (mp_heap m) True, bufs, zs)"
      by (intro user_keeps [OF inv]) auto
    with False True push z show ?thesis
      by (intro exI [of _ False] exI [of _ "set_user m z (mp_heap m) True"] exI [of _ bufs])
        (simp add: msgpack_unpacker_flush_zone_def pins_def)
  next
    case r: True
    have "mp_buffer m \<in># held m zs" by (simp add: held_def)
    from incr_ok [OF C this c] obtain b1 where b1: "incr_count bufs (mp_buffer m) = Some b1"
      "counts_ok b1 (add_mset (mp_buffer m) (held m zs))" "same_bytes bufs b1" by blast
    have "counts_ok b1 (add_mset (mp_buffer m) (mset (finals z) + zone_refs zs))" using b1(2) z(2) r by (simp add: held_def)
    with z(1) zok(2) off b1(3) have "U_inv live (set_user m z (mp_heap m) False, b1, zs)"
      by (intro user_keeps [OF inv]) auto
    with r True push b1(1,3) z show ?thesis
      by (intro exI [of _ True] exI [of _ "set_user m z (mp_heap m) False"] exI [of _ b1])
        (auto simp: msgpack_unpacker_flush_zone_def pins_def)
  qed
qed

definition zone_list :: "'z option \<Rightarrow> 'z list" where
  "zone_list x = (case x of None \<Rightarrow> [] | Some z \<Rightarrow> [z])"

lemma zone_list_simps [simp]: "zone_list None = []" "zone_list (Some z) = [z]"
  by (simp_all add: zone_list_def)

lemma release_keeps:
  assumes law: "malloc_law mal live" and inv: "U_inv live (m, bufs, zs1 @ zs2)"
    and c: "count (held m (zs1 @ zs2)) (mp_buffer m) < 2 ^ 32 - 1"
  shows "\<exists>z m' bufs'. msgpack_unpacker_release_zone mal ok bufs m = Some (z, m', bufs') \<and>
    U_inv live (m', bufs', zs1 @ zone_list z @ zs2) \<and> calm (m, bufs, zs1 @ zs2) (m', bufs', zs1 @ zone_list z @ zs2) \<and>
    (\<forall>z'. z = Some z' \<longrightarrow> set (finals (mp_zone m)) \<union> (if CTX_REFERENCED m then {mp_buffer m} else {}) \<subseteq> set (finals z'))"
proof -
  obtain r m1 b1 where fl: "msgpack_unpacker_flush_zone ok bufs m = Some (r, m1, b1)" and inv1: "U_inv live (m1, b1, zs1 @ zs2)"
    and k: "calm (m, bufs, zs1 @ zs2) (m1, b1, zs1 @ zs2)"
    and ref: "r \<longrightarrow> set (finals (mp_zone m)) \<union> (if CTX_REFERENCED m then {mp_buffer m} else {}) \<subseteq> set (finals (mp_zone m1))"
    using flush_keeps [OF inv c, of ok] by blast
  show ?thesis
  proof (cases "r \<and> msgpack_zone_new mal (mp_heap m1) MSGPACK_ZONE_CHUNK_SIZE \<noteq> (None :: 'a zone_heap option)")
    case False
    then have "msgpack_unpacker_release_zone mal ok bufs m = Some (None, m1, b1)"
      by (auto simp: msgpack_unpacker_release_zone_def fl split: option.split prod.split)
    with k inv1 show ?thesis by (intro exI [of _ None] exI [of _ m1] exI [of _ b1]) simp
  next
    case True
    then obtain z :: "u64 msgpack_zone" and h where new: "msgpack_zone_new mal (mp_heap m1) MSGPACK_ZONE_CHUNK_SIZE = Some (z, h)" by auto
    note z = zone_new_ok [OF law new]
    let ?zs = "zs1 @ [mp_zone m1] @ zs2" and ?m = "set_user m1 z h (CTX_REFERENCED m1)"
    have run: "msgpack_unpacker_release_zone mal ok bufs m = Some (Some (mp_zone m1), ?m, b1)"
      using True new by (simp add: msgpack_unpacker_release_zone_def fl)
    have "U_inv live (?m, b1, ?zs)"
      using inv1 z by (intro user_keeps [OF inv1]) (auto simp: U_inv_def held_def unshared_def ac_simps)
    with run k ref True show ?thesis
      by (intro exI [of _ "Some (mp_zone m1)"] exI [of _ ?m] exI [of _ b1]) simp
  qed
qed

lemma reset_zone_keeps:
  assumes inv: "U_inv live (m, bufs, zs)"
  shows "\<exists>m' bufs'. msgpack_unpacker_reset_zone bufs m = Some (m', bufs') \<and> U_inv live (m', bufs', zs) \<and>
    calm (m, bufs, zs) (m', bufs', zs) \<and> ctx_ok (mp_ctx m') = ctx_ok (mp_ctx m)"
proof -
  have zok: "zone_ok (mp_zone m)" "list_all zone_ok zs" and C: "counts_ok bufs (held m zs)" using inv by (auto simp: U_inv_def)
  then obtain freed z where clr: "msgpack_zone_clear (mp_zone m) = Some (rev (finals (mp_zone m)), freed, z)"
    and z: "zone_ok z" "finals z = []"
    by (auto simp: msgpack_zone_clear_def clear_finalizer_array_def call_finalizer_array_def call_finalizers_rev
        clear_chunk_list_def clear_chunks_last zone_ok_def)
  have "counts_ok bufs (mset (rev (finals (mp_zone m))) + add_mset (mp_buffer m) (zone_refs zs))" using C by (simp add: held_def ac_simps)
  from run_finalizers_ok [OF this] obtain b1 where b1: "run_finalizers bufs (rev (finals (mp_zone m))) = Some b1"
    "counts_ok b1 (add_mset (mp_buffer m) (zone_refs zs))" "same_bytes bufs b1" by blast
  have "U_inv live (set_user m z (mp_heap m) (CTX_REFERENCED m), b1, zs)"
    using inv z zok b1 by (intro user_keeps [OF inv]) (auto simp: U_inv_def unshared_def)
  with b1 clr show ?thesis
    by (intro exI [of _ "set_user m z (mp_heap m) (CTX_REFERENCED m)"] exI [of _ b1]) (simp add: msgpack_unpacker_reset_zone_def)
qed

lemma reset_inv:
  assumes "U_inv live (m, bufs, zs)"
  shows "U_inv live (msgpack_unpacker_reset m, bufs, zs) \<and> calm (m, bufs, zs) (msgpack_unpacker_reset m, bufs, zs) \<and>
    ctx_ok (mp_ctx (msgpack_unpacker_reset m)) \<and> held (msgpack_unpacker_reset m) zs = held m zs"
  using assms by (auto simp: msgpack_unpacker_reset_def U_inv_def held_def unshared_def room_ok_def mp_zone_def mp_heap_def
      CTX_REFERENCED_def template_init_def ctx_ok_def stack_ok_def)

lemma result_freed:
  assumes inv: "U_inv live (m, bufs, zs1 @ zone_list (up_zone result) @ zs2)"
  shows "\<exists>bufs0. unpacked_free bufs result = Some bufs0 \<and> U_inv live (m, bufs0, zs1 @ zs2) \<and> same_bytes bufs bufs0"
  using free_keeps [of live m bufs zs1 _ zs2] assms by (cases "up_zone result") (auto simp: unpacked_free_def)

lemma next_keeps:
  assumes law: "malloc_law mal live" and inv: "U_inv live (m, bufs, zs1 @ zone_list (up_zone result) @ zs2)" and ctx: "ctx_ok (mp_ctx m)"
    and c: "count (held m (zs1 @ zs2)) (mp_buffer m) < 2 ^ 32 - 1"
    and run: "msgpack_unpacker_next mal ok bufs m result = Some (ret, m', bufs', result')"
  shows "U_inv live (m', bufs', zs1 @ zone_list (up_zone result') @ zs2) \<and> ctx_ok (mp_ctx m') \<and>
    calm (m, bufs, zs1 @ zone_list (up_zone result) @ zs2) (m', bufs', zs1 @ zone_list (up_zone result') @ zs2)"
proof -
  obtain b0 where b0: "unpacked_free bufs result = Some b0" "U_inv live (m, b0, zs1 @ zs2)" "same_bytes bufs b0"
    using result_freed [OF inv] by blast
  obtain r m1 where ex: "msgpack_unpacker_execute mal b0 m = Some (r, m1)"
    using run b0(1) by (auto simp: msgpack_unpacker_next_def bind_eq_Some_conv)
  note e = execute_keeps [OF law b0(2) ctx ex]
  show ?thesis
  proof (cases "r \<le> 0")
    case True
    then have "m' = m1" "bufs' = b0" "up_zone result' = None"
      using run b0(1) ex by (auto simp: msgpack_unpacker_next_def msgpack_unpacked_destroy_def split: if_splits)
    with e b0 True show ?thesis by (auto intro: same_bytes_trans)
  next
    case False
    have "count (held m1 (zs1 @ zs2)) (mp_buffer m1) < 2 ^ 32 - 1" using e c by simp
    from release_keeps [OF law conjunct1 [OF e] this, of ok] obtain z m2 b1
      where rel: "msgpack_unpacker_release_zone mal ok b0 m1 = Some (z, m2, b1)"
        "U_inv live (m2, b1, zs1 @ zone_list z @ zs2)" "calm (m1, b0, zs1 @ zs2) (m2, b1, zs1 @ zone_list z @ zs2)" by blast
    have "m' = msgpack_unpacker_reset m2" "bufs' = b1" "up_zone result' = z"
      using run b0(1) ex rel(1) False by (auto simp: msgpack_unpacker_next_def)
    with reset_inv [OF rel(2)] rel(3) e b0(3) show ?thesis by (auto intro: same_bytes_trans)
  qed
qed

text \<open>Beyond the parser itself, asking for the next object cannot go wrong.\<close>

lemma next_defined:
  assumes law: "malloc_law mal live" and inv: "U_inv live (m, bufs, zs1 @ zone_list (up_zone result) @ zs2)" and ctx: "ctx_ok (mp_ctx m)"
    and c: "count (held m (zs1 @ zs2)) (mp_buffer m) < 2 ^ 32 - 1"
    and bf: "bufs (mp_buffer m) = Some bf" and data: "no_max_length (take (unat (mp_used m)) (bf_bytes bf))"
  shows "msgpack_unpacker_next mal ok bufs m result \<noteq> None"
proof -
  obtain b0 where b0: "unpacked_free bufs result = Some b0" "U_inv live (m, b0, zs1 @ zs2)" "same_bytes bufs b0"
    using result_freed [OF inv] by blast
  obtain f where f: "b0 (mp_buffer m) = Some f" "unat (mp_off m) \<le> unat (mp_used m)" "unat (mp_used m) \<le> length (bf_bytes f)"
    using U_inv_parts [OF b0(2)] by metis
  then have same: "bf_bytes f = bf_bytes bf" using b0(3) bf by (fastforce simp: same_bytes_def)
  have "unat (mp_off m) \<le> length (take (unat (mp_used m)) (bf_bytes bf))" using f same by simp
  from execute_loop_ok [OF ctx this data, of "zone_zm mal"] this
  obtain r ctx' off' where "template_execute (zone_zm mal) (mp_ctx m) (take (unat (mp_used m)) (bf_bytes bf)) (unat (mp_off m)) =
      Some (r, ctx', off')" by (auto simp: template_execute_def)
  then obtain r m1 where ex: "msgpack_unpacker_execute mal b0 m = Some (r, m1)"
    using f same by (simp add: msgpack_unpacker_execute_def Let_def)
  note e = execute_keeps [OF law b0(2) ctx ex]
  have "count (held m1 (zs1 @ zs2)) (mp_buffer m1) < 2 ^ 32 - 1" using e c by simp
  from release_keeps [OF law conjunct1 [OF e] this, of ok] obtain x where "msgpack_unpacker_release_zone mal ok b0 m1 = Some x" by blast
  with b0(1) ex show ?thesis by (cases x) (simp add: msgpack_unpacker_next_def)
qed

end
