(* ===== verification/MP_Client.thy ===== *)
theory MP_Client
  imports MP_Unpacker
begin

text \<open>
  libmsgpack, the streaming deserialiser and its client: all sequences of calls a client can make. The
  client reserves room, copies bytes in, asks for objects, and frees the zones of objects it has received, in any
  order and for as long as it likes. The properties say that reference counts are exact, that no
  freed buffer is ever accessed, that what objects point to does not change, and that nothing is leaked.
\<close>

section \<open>Sequences of calls\<close>

text \<open>
  A request must not overflow the size arithmetic, and there are fewer than \<open>2 ^ 32 - 1\<close> references to a buffer.
  A result structure that is passed in again gives up its zone.
\<close>

inductive client_step :: "'h malloc_fn \<Rightarrow> 'h unpacker_state \<Rightarrow> 'h unpacker_state \<Rightarrow> bool" for mal where
  reserve: "unat n + unat (mp_used m) + 4 < 2 ^ 64 \<Longrightarrow>
    msgpack_unpacker_reserve_buffer mal ok bufs m n = Some (r, m', bufs') \<Longrightarrow> client_step mal (m, bufs, zs) (m', bufs', zs)"
| receive: "length bs \<le> unat (msgpack_unpacker_buffer_capacity m) \<Longrightarrow> feed bufs m bs = Some (m', bufs') \<Longrightarrow>
    client_step mal (m, bufs, zs) (m', bufs', zs)"
| next_object: "count (held m (zs1 @ zs2)) (mp_buffer m) < 2 ^ 32 - 1 \<Longrightarrow>
    msgpack_unpacker_next mal ok bufs m result = Some (ret, m', bufs', result') \<Longrightarrow>
    client_step mal (m, bufs, zs1 @ zone_list (up_zone result) @ zs2) (m', bufs', zs1 @ zone_list (up_zone result') @ zs2)"
| free_object: "msgpack_zone_free bufs z = Some bufs' \<Longrightarrow> client_step mal (m, bufs, zs1 @ z # zs2) (m, bufs', zs1 @ zs2)"
| flush: "count (held m zs) (mp_buffer m) < 2 ^ 32 - 1 \<Longrightarrow> msgpack_unpacker_flush_zone ok bufs m = Some (r, m', bufs') \<Longrightarrow>
    client_step mal (m, bufs, zs) (m', bufs', zs)"
| reset_zone: "msgpack_unpacker_reset_zone bufs m = Some (m', bufs') \<Longrightarrow> client_step mal (m, bufs, zs) (m', bufs', zs)"
| reset: "client_step mal (m, bufs, zs) (msgpack_unpacker_reset m, bufs, zs)"

inductive client_reach :: "'h malloc_fn \<Rightarrow> 'h unpacker_state \<Rightarrow> bool" for mal where
  start: "msgpack_unpacker_init mal h Map.empty n = Some (m, bufs) \<Longrightarrow> client_reach mal (m, bufs, [])"
| step: "client_reach mal s \<Longrightarrow> client_step mal s s' \<Longrightarrow> client_reach mal s'"

definition client_inv :: "('h \<Rightarrow> nat set) \<Rightarrow> 'h unpacker_state \<Rightarrow> bool" where
  "client_inv live s \<longleftrightarrow> U_inv live s \<and> ctx_ok (mp_ctx (fst s))"

lemma expand_ctx:
  assumes "msgpack_unpacker_reserve_buffer mal ok bufs m n = Some (r, m', bufs')"
  shows "ctx_ok (mp_ctx m') = ctx_ok (mp_ctx m)"
  using assms
  by (auto simp: msgpack_unpacker_reserve_buffer_def msgpack_unpacker_expand_buffer_def expand_in_place_def expand_to_new_def Let_def
      rewind_buffer_def split: if_splits option.splits prod.splits bool.splits)

lemma flush_ctx:
  "msgpack_unpacker_flush_zone ok bufs m = Some (r, m', bufs') \<Longrightarrow> ctx_ok (mp_ctx m') = ctx_ok (mp_ctx m)"
  by (auto simp: msgpack_unpacker_flush_zone_def split: if_splits prod.splits bool.splits)

lemma feed_ctx: "feed bufs m bs = Some (m', bufs') \<Longrightarrow> mp_ctx m' = mp_ctx m"
  by (auto simp: feed_def msgpack_unpacker_buffer_consumed_def)

lemma client_step_keeps:
  assumes "client_step mal s s'" and law: "malloc_law mal live" and "client_inv live s"
  shows "client_inv live s' \<and> keeps live s s'"
  using assms(1,3)
proof cases
  case (reserve n m ok bufs r m' bufs' zs)
  then have "U_inv live (m, bufs, zs)" using assms(3) by (simp add: client_inv_def)
  from reserve_keeps [OF law this reserve(3), of ok] reserve(4) have "keeps live (m, bufs, zs) (m', bufs', zs)" by simp
  with expand_ctx [OF reserve(4)] reserve(1,2) assms(3) show ?thesis by (simp add: client_inv_def keeps_def)
next
  case (receive bs m bufs m' bufs' zs)
  then have "U_inv live (m, bufs, zs)" using assms(3) by (simp add: client_inv_def)
  from feed_keeps [OF this, of bs] receive(3,4) have "keeps live (m, bufs, zs) (m', bufs', zs)"
    by (simp add: msgpack_unpacker_buffer_capacity_def)
  with feed_ctx [OF receive(4)] receive(1,2) assms(3) show ?thesis by (simp add: client_inv_def keeps_def)
next
  case (next_object m zs1 zs2 ok bufs result ret m' bufs' result')
  then have "U_inv live (m, bufs, zs1 @ zone_list (up_zone result) @ zs2)" "ctx_ok (mp_ctx m)"
    using assms(3) by (simp_all add: client_inv_def)
  note n = next_keeps [OF law this next_object(3,4)]
  from calm_keeps [OF conjunct1 [OF n]] n next_object(1,2) show ?thesis by (simp add: client_inv_def)
next
  case (free_object bufs z bufs' m zs1 zs2)
  then have "U_inv live (m, bufs, zs1 @ z # zs2)" using assms(3) by (simp add: client_inv_def)
  from free_keeps [OF this] free_object(3) have f: "U_inv live (m, bufs', zs1 @ zs2)" "same_bytes bufs bufs'" by auto
  from calm_keeps [OF f(1)] f free_object(1,2) assms(3) show ?thesis by (simp add: client_inv_def)
next
  case (flush m zs ok bufs r m' bufs')
  then have "U_inv live (m, bufs, zs)" using assms(3) by (simp add: client_inv_def)
  from flush_keeps [OF this flush(3), of ok] flush(4) have "U_inv live (m', bufs', zs)" "calm (m, bufs, zs) (m', bufs', zs)" by auto
  with calm_keeps flush_ctx [OF flush(4)] flush(1,2) assms(3) show ?thesis by (simp add: client_inv_def)
next
  case (reset_zone bufs m m' bufs' zs)
  then have "U_inv live (m, bufs, zs)" using assms(3) by (simp add: client_inv_def)
  from reset_zone_keeps [OF this] reset_zone(3)
  have "U_inv live (m', bufs', zs)" "calm (m, bufs, zs) (m', bufs', zs)" "ctx_ok (mp_ctx m') = ctx_ok (mp_ctx m)" by auto
  with calm_keeps reset_zone(1,2) assms(3) show ?thesis by (simp add: client_inv_def)
next
  case (reset m bufs zs)
  then have "U_inv live (m, bufs, zs)" using assms(3) by (simp add: client_inv_def)
  note r = reset_inv [OF this]
  from calm_keeps [OF conjunct1 [OF r]] r reset(1,2) show ?thesis by (simp add: client_inv_def)
qed

lemma init_ctx: "msgpack_unpacker_init mal h bufs0 n = Some (m, bufs) \<Longrightarrow> ctx_ok (mp_ctx m)"
  unfolding msgpack_unpacker_init_def Let_def bind_pair_eq_Some by auto

lemma client_reach_inv:
  assumes "client_reach mal s" and "malloc_law mal live"
  shows "client_inv live s"
  using assms(1)
proof induction
  case (start h n m bufs)
  then show ?case using unpacker_init_inv [OF assms(2)] init_ctx by (simp add: client_inv_def)
next
  case (step s s')
  then show ?case using client_step_keeps [OF _ assms(2)] by blast
qed

text \<open>Sequences of calls during which a buffer is always pinned.\<close>

inductive pinned_run :: "'h malloc_fn \<Rightarrow> u64 \<Rightarrow> 'h unpacker_state \<Rightarrow> 'h unpacker_state \<Rightarrow> bool" for mal b where
  stay: "b \<in> pins s \<Longrightarrow> pinned_run mal b s s"
| go: "pinned_run mal b s s1 \<Longrightarrow> client_step mal s1 s2 \<Longrightarrow> b \<in> pins s2 \<Longrightarrow> pinned_run mal b s s2"

section \<open>A sequence of calls\<close>

definition client_zone :: "u64 list \<Rightarrow> u64 \<Rightarrow> u64 msgpack_zone" where
  "client_zone fs a = \<lparr>chunk_list = \<lparr>cl_free = 8192, cl_ptr = a + 8, cl_head = [\<lparr>ck_addr = a, ck_data = 8192\<rparr>]\<rparr>,
     finalizer_array = \<lparr>fa_used = fs, fa_places = 4 * length fs\<rparr>, zn_chunk_size = 8192\<rparr>"

definition client_bufs :: "u32 \<Rightarrow> bytes \<Rightarrow> buffers" where
  "client_bufs c bs = [16 \<mapsto> \<lparr>bf_count = c, bf_bytes = [0, 0, 0, 0] @ bs @ replicate (12 - length bs) 0\<rparr>]"

definition client_mpac :: "u64 \<Rightarrow> u64 \<Rightarrow> u64 \<Rightarrow> nat \<Rightarrow> nat msgpack_unpacker" where
  "client_mpac used off a h = \<lparr>mp_buffer = 16, mp_used = used, mp_free = 16 - used, mp_off = off, mp_parsed = 0,
     mp_initial_buffer_size = 16, mp_ctx = new_context (client_zone [] a, h)\<rparr>"

lemma client_zone_new:
  "msgpack_zone_new bump_malloc 2112 8192 = Some (client_zone [] 2176, 10384)"
  "msgpack_zone_new bump_malloc 10384 8192 = Some (client_zone [] 10448, 18656)"
  by (simp_all add: msgpack_zone_new_def bump_malloc_def sizeof_zone_def init_chunk_list_def sizeof_chunk_def client_zone_def init_finalizer_array_def)

lemma client_init: "msgpack_unpacker_init bump_malloc 16 Map.empty 16 = Some (client_mpac 4 4 2176 10384, client_bufs 1 [])"
proof -
  have "replicate 16 (0 :: u8) = [0, 0, 0, 0] @ replicate 12 0" by (simp add: numeral_eq_Suc)
  moreover have "bump_malloc 16 16 = Some (16, 32)" "bump_malloc 32 sizeof_context = Some (32, 2112)"
    by (simp_all add: bump_malloc_def sizeof_context_def)
  ultimately show ?thesis
    by (simp add: msgpack_unpacker_init_def COUNTER_SIZE_def Let_def client_zone_new MSGPACK_ZONE_CHUNK_SIZE_def init_count_def new_bytes_def
        client_mpac_def client_bufs_def)
qed

lemma client_feed: "feed (client_bufs 1 []) (client_mpac 4 4 2176 10384) [0xa1, 65] = Some (client_mpac 6 4 2176 10384, client_bufs 1 [0xa1, 65])"
  by (simp add: feed_def client_bufs_def client_mpac_def memcpy_bytes_def msgpack_unpacker_buffer_consumed_def)

definition parsed_mpac :: "nat msgpack_unpacker" where
  "parsed_mpac = (client_mpac 6 6 2176 10384)\<lparr>mp_parsed := 2, mp_ctx := (new_context (client_zone [] 2176, 10384))
     \<lparr>ctx_user := \<lparr>us_zone = (client_zone [] 2176, 10384), referenced = True\<rparr>, ctx_trail := 1, ctx_cs := ACS_STR_VALUE, ctx_root := OBJECT_STR [65]\<rparr>\<rparr>"

lemma client_execute: "msgpack_unpacker_execute bump_malloc (client_bufs 1 [0xa1, 65]) (client_mpac 6 4 2176 10384) = Some (1, parsed_mpac)"
  by (simp add: msgpack_unpacker_execute_def client_bufs_def client_mpac_def Let_def template_execute_def loop_step execute_step_def rd_def exec_header_def new_context_def template_init_def
    again_fixed_trail_if_zero_def again_fixed_trail_def exec_trail_def resume_def push_variable_def template_callback_str_def sub_bytes_def do_push_def
    parsed_mpac_def)

lemma client_push: "msgpack_zone_push_finalizer (\<lambda>n. True) (client_zone [] 2176) 16 = (True, client_zone [16] 2176)"
  by (simp add: msgpack_zone_push_finalizer_def msgpack_zone_push_finalizer_expand_def client_zone_def Let_def sizeof_finalizer_def)

lemma client_release: "msgpack_unpacker_release_zone bump_malloc (\<lambda>n. True) (client_bufs 1 [0xa1, 65]) parsed_mpac =
   Some (Some (client_zone [16] 2176), set_user parsed_mpac (client_zone [] 10448) 18656 False, client_bufs 2 [0xa1, 65])"
proof -
  have m: "mp_zone parsed_mpac = client_zone [] 2176" "mp_heap parsed_mpac = 10384" "CTX_REFERENCED parsed_mpac" "mp_buffer parsed_mpac = 16"
    by (simp_all add: parsed_mpac_def mp_zone_def mp_heap_def CTX_REFERENCED_def client_mpac_def)
  have "set_user (set_user parsed_mpac z h r) z' h' r' = set_user parsed_mpac z' h' r'" for z h r z' h' r' by (simp add: set_user_def)
  then show ?thesis
  by (simp add: msgpack_unpacker_release_zone_def msgpack_unpacker_flush_zone_def m client_push incr_count_def client_bufs_def client_zone_new MSGPACK_ZONE_CHUNK_SIZE_def)
qed

lemma client_next:
  "msgpack_unpacker_next bump_malloc (\<lambda>n. True) (client_bufs 1 [0xa1, 65]) (client_mpac 6 4 2176 10384) msgpack_unpacked_init =
     Some (UNPACK_SUCCESS, client_mpac 6 6 10448 18656, client_bufs 2 [0xa1, 65],
       \<lparr>up_zone = Some (client_zone [16] 2176), up_data = OBJECT_STR [65]\<rparr>)"
proof -
  have "msgpack_unpacker_reset (set_user parsed_mpac (client_zone [] 10448) 18656 False) = client_mpac 6 6 10448 18656"
    "msgpack_unpacker_data (set_user parsed_mpac (client_zone [] 10448) 18656 False) = OBJECT_STR [65]"
    by (simp_all add: msgpack_unpacker_reset_def msgpack_unpacker_data_def template_data_def set_user_def parsed_mpac_def client_mpac_def
        new_context_def template_init_def)
  moreover have "unpacked_free bufs msgpack_unpacked_init = Some bufs" for bufs
    by (simp add: unpacked_free_def msgpack_unpacked_init_def)
  ultimately show ?thesis unfolding msgpack_unpacker_next_def client_execute client_release by (simp add: client_execute client_release)
qed

lemma client_held: "held (client_mpac u f a h) zs = add_mset 16 (zone_refs zs)" "finals (client_zone fs a) = fs"
  by (simp_all add: held_def client_mpac_def mp_zone_def new_context_def template_init_def client_zone_def)

text \<open>The string \<open>A\<close> has arrived, and the client holds it; then a further byte arrives.\<close>

lemma client_reached: "client_reach bump_malloc (client_mpac 6 6 10448 18656, client_bufs 2 [0xa1, 65], [client_zone [16] 2176])"
proof -
  have s0: "client_reach bump_malloc (client_mpac 4 4 2176 10384, client_bufs 1 [], [])" by (rule start) (rule client_init)
  have s1: "client_reach bump_malloc (client_mpac 6 4 2176 10384, client_bufs 1 [0xa1, 65], [])"
    by (rule step [OF s0], rule receive [OF _ client_feed]) (simp add: client_mpac_def msgpack_unpacker_buffer_capacity_def)
  let ?r = "\<lparr>up_zone = Some (client_zone [16] 2176), up_data = OBJECT_STR [65]\<rparr>"
  have "client_step bump_malloc
      (client_mpac 6 4 2176 10384, client_bufs 1 [0xa1, 65], [] @ zone_list (up_zone (msgpack_unpacked_init :: u64 msgpack_zone msgpack_unpacked)) @ [])
      (client_mpac 6 6 10448 18656, client_bufs 2 [0xa1, 65], [] @ zone_list (up_zone ?r) @ [])"
    by (rule next_object [OF _ client_next]) (simp add: client_held)
  then show ?thesis using step [OF s1] by (simp add: msgpack_unpacked_init_def)
qed

lemma client_pinned:
  "pinned_run bump_malloc 16 (client_mpac 6 6 10448 18656, client_bufs 2 [0xa1, 65], [client_zone [16] 2176])
     (client_mpac 7 6 10448 18656, client_bufs 2 [0xa1, 65, 0xc0], [client_zone [16] 2176])"
proof -
  have pin: "16 \<in> pins (client_mpac u f a h, bufs, [client_zone [16] 2176])" for u f a h bufs
    by (simp add: pins_def client_held)
  have "feed (client_bufs 2 [0xa1, 65]) (client_mpac 6 6 10448 18656) [0xc0] = Some (client_mpac 7 6 10448 18656, client_bufs 2 [0xa1, 65, 0xc0])"
    by (simp add: feed_def client_bufs_def client_mpac_def memcpy_bytes_def msgpack_unpacker_buffer_consumed_def)
  then show ?thesis
    by (intro go [OF stay [OF pin] receive pin]) (simp_all add: client_mpac_def msgpack_unpacker_buffer_capacity_def)
qed

section \<open>Properties\<close>

text \<open>
  C8: Reference counts are exact. After any sequence of calls a buffer is allocated exactly as long as the unpacker or
  a finalizer of a zone refers to it, its count is the number of these references, and the positions of the unpacker lie inside
  its buffer.
\<close>

theorem msgpack_unpacker_counts_exact:
  assumes "malloc_law mal live" and "client_reach mal (m, bufs, zs)"
  shows "dom bufs = set_mset (held m zs) \<and> (\<forall>b bf. bufs b = Some bf \<longrightarrow> unat (bf_count bf) = count (held m zs) b) \<and>
    (\<exists>bf. bufs (mp_buffer m) = Some bf \<and> unat COUNTER_SIZE \<le> unat (mp_off m) \<and> unat (mp_off m) \<le> unat (mp_used m) \<and>
       unat (mp_used m) + unat (mp_free m) = length (bf_bytes bf))"
proof -
  have C: "counts_ok bufs (held m zs)" and room: "room_ok bufs m"
    using client_reach_inv [OF assms(2,1)] by (auto simp: client_inv_def U_inv_def)
  have "unat (bf_count bf) = count (held m zs) b" if "bufs b = Some bf" for b bf
    using counts_at [OF C, of b] that by simp
  with counts_dom [OF C] room show ?thesis by (auto simp: room_ok_def counter_size)
qed

theorem msgpack_unpacker_counts_exact_witness:
  "dom (client_bufs 2 [0xa1, 65]) = {16} \<and> unat (2 :: u32) = count (held (client_mpac 6 6 10448 18656) [client_zone [16] 2176]) 16"
proof -
  note w = msgpack_unpacker_counts_exact [OF bump_malloc_law client_reached]
  have "dom (client_bufs 2 [0xa1, 65]) = {16}" using conjunct1 [OF w] by (simp add: client_held)
  moreover obtain bf where "client_bufs 2 [0xa1, 65] 16 = Some bf" "bf_count bf = 2" by (simp add: client_bufs_def)
  then have "unat (2 :: u32) = count (held (client_mpac 6 6 10448 18656) [client_zone [16] 2176]) 16"
    using conjunct1 [OF conjunct2 [OF w]] by metis
  ultimately show ?thesis by blast
qed

lemma pinned_run_prefix:
  assumes "pinned_run mal b s s'" and "malloc_law mal live" and "client_inv live s"
  shows "client_inv live s' \<and> b \<in> pins s' \<and> prefix (filled s b) (filled s' b)"
  using assms(1,3)
proof induction
  case (go s s1 s2)
  then have s1: "client_inv live s1" "b \<in> pins s1" "prefix (filled s b) (filled s1 b)" by auto
  from client_step_keeps [OF go(2) assms(2) s1(1)] have "client_inv live s2" "prefix (filled s1 b) (filled s2 b)"
    using s1(2) go(3) by (auto simp: keeps_def)
  with s1(3) go(3) show ?case using prefix_order.trans by blast
qed simp





fun free_all :: "buffers \<Rightarrow> u64 msgpack_zone list \<Rightarrow> buffers option" where
  "free_all bufs [] = Some bufs"
| "free_all bufs (z # zs) = Option.bind (msgpack_zone_free bufs z) (\<lambda>bufs'. free_all bufs' zs)"

lemma free_all_ok:
  "U_inv live (m, bufs, zs) \<Longrightarrow> \<exists>bufs'. free_all bufs zs = Some bufs' \<and> U_inv live (m, bufs', [])"
proof (induction zs arbitrary: bufs)
  case (Cons z zs)
  from free_keeps [of live m bufs "[]" z zs] Cons.prems obtain b1 where
    "msgpack_zone_free bufs z = Some b1" "U_inv live (m, b1, zs)" by auto
  with Cons.IH show ?case by auto
qed simp

text \<open>
  C16: Nothing is leaked: from any state a client can reach, freeing the objects it holds and destroying the unpacker
  frees every buffer, and none of them twice.
\<close>

theorem msgpack_unpacker_destroy_frees_all:
  assumes "malloc_law mal live" and "client_reach mal (m, bufs, zs)"
  shows "\<exists>bufs1. free_all bufs zs = Some bufs1 \<and> msgpack_unpacker_destroy bufs1 m = Some Map.empty"
proof -
  have "U_inv live (m, bufs, zs)" using client_reach_inv [OF assms(2,1)] by (simp add: client_inv_def)
  from free_all_ok [OF this] obtain b1 where b1: "free_all bufs zs = Some b1" "U_inv live (m, b1, [])" by blast
  then have "counts_ok b1 (mset (finals (mp_zone m)) + {#mp_buffer m#})" by (simp add: U_inv_def held_def)
  from zone_free_ok [OF this] obtain b2 where b2: "msgpack_zone_free b1 (mp_zone m) = Some b2" "counts_ok b2 {#mp_buffer m#}" by blast
  from decr_ok [OF b2(2)] obtain b3 where b3: "decr_count b2 (mp_buffer m) = Some b3" "counts_ok b3 {#}" by blast
  have "b3 = Map.empty" using counts_dom [OF b3(2)] by simp
  with b1 b2 b3 show ?thesis by (simp add: msgpack_unpacker_destroy_def)
qed

theorem msgpack_unpacker_destroy_frees_all_witness:
  "\<exists>bufs1. free_all (client_bufs 2 [0xa1, 65]) [client_zone [16] 2176] = Some bufs1 \<and>
     msgpack_unpacker_destroy bufs1 (client_mpac 6 6 10448 18656) = Some Map.empty"
  by (rule msgpack_unpacker_destroy_frees_all [OF bump_malloc_law client_reached])

end
