(* ===== verification/MP_Feed.thy ===== *)
theory MP_Feed
  imports MP_Client
begin

text \<open>
  libmsgpack, the streaming deserialiser delivers what was sent: whatever the pieces in which the
  encodings of a sequence of objects arrive, and however the calls of the client are ordered, the
  objects come out unchanged and in order, each as soon as its last byte has arrived.

  The parser is compared with one whose zones never run out of memory and hold nothing, the
  \<^emph>\<open>ideal\<close> parser; and the bytes not yet parsed are followed through the moves of the buffer.
\<close>

section \<open>The ideal parser\<close>

definition ideal :: "unit zone_malloc" where
  "ideal z n = Some ()"

definition erase :: "'z template_context \<Rightarrow> unit template_context" where
  "erase ctx = \<lparr>ctx_user = \<lparr>us_zone = (), referenced = False\<rparr>, ctx_cs = ctx_cs ctx, ctx_trail = ctx_trail ctx,
     ctx_stack = ctx_stack ctx, ctx_root = ctx_root ctx\<rparr>"

fun erase_out :: "'z exec_out \<Rightarrow> unit exec_out" where
  "erase_out (Run ctx p) = Run (erase ctx) p"
| "erase_out (Stop r ctx p) = Stop r (erase ctx) p"

text \<open>
  \<open>sim zm a b\<close>: the parser and the ideal parser are undefined together; they do the same, or the zone
  has refused an allocation and the parser stops with an error.
\<close>

definition refused :: "'z zone_malloc \<Rightarrow> 'z template_context \<Rightarrow> bool" where
  "refused zm ctx \<longleftrightarrow> (\<exists>n. zm (us_zone (ctx_user ctx)) n = None)"

definition sim :: "'z zone_malloc \<Rightarrow> 'z exec_out option \<Rightarrow> unit exec_out option \<Rightarrow> bool" where
  "sim zm a b \<longleftrightarrow> (case (a, b) of
     (None, None) \<Rightarrow> True
   | (Some x, Some y) \<Rightarrow> erase_out x = erase_out y \<or> (\<exists>ctx p. x = Stop (- 1) ctx p \<and> refused zm ctx)
   | _ \<Rightarrow> False)"

lemma sim_simps [simp]:
  "sim zm None None" "\<not> sim zm None (Some y)" "\<not> sim zm (Some x) None"
  "sim zm (Some x) (Some y) \<longleftrightarrow> erase_out x = erase_out y \<or> (\<exists>ctx p. x = Stop (- 1) ctx p \<and> refused zm ctx)"
  by (simp_all add: sim_def)

lemma sim_if: "(c \<Longrightarrow> sim zm a a') \<Longrightarrow> (\<not> c \<Longrightarrow> sim zm b b') \<Longrightarrow> sim zm (if c then a else b) (if c then a' else b')"
  by simp

lemma sim_bind: "(\<And>x. sim zm (f x) (g x)) \<Longrightarrow> sim zm (Option.bind v f) (Option.bind v g)"
  by (cases v) simp_all

lemma erase_eq:
  "erase c = erase d \<longleftrightarrow> ctx_cs c = ctx_cs d \<and> ctx_trail c = ctx_trail d \<and> ctx_stack c = ctx_stack d \<and> ctx_root c = ctx_root d"
  by (auto simp: erase_def)

lemma do_push_sim: "erase c = erase d \<Longrightarrow> erase_out (do_push c p x) = erase_out (do_push d p x)"
proof -
  assume "erase c = erase d"
  then have e: "ctx_cs c = ctx_cs d" "ctx_trail c = ctx_trail d" "ctx_stack c = ctx_stack d" "ctx_root c = ctx_root d"
    unfolding erase_eq by blast+
  show ?thesis unfolding do_push_def e(3) by (cases "template_push (ctx_stack d) x") (simp_all add: erase_def e)
qed

lemma push_variable_sim: "erase c = erase d \<Longrightarrow> sim zm (push_variable c p v) (push_variable d p v)"
proof (cases v)
  case (Some x)
  assume "erase c = erase d"
  then have "erase (c\<lparr>ctx_user := u\<rparr>) = erase (d\<lparr>ctx_user := w\<rparr>)" for u w by (simp add: erase_eq)
  from do_push_sim [OF this] Some show ?thesis by (simp add: push_variable_def)
qed (simp add: push_variable_def)

lemma again_sim:
  "erase c = erase d \<Longrightarrow> erase_out (again_fixed_trail c p s t) = erase_out (again_fixed_trail d p s t)"
  "erase c = erase d \<Longrightarrow> sim zm (again_fixed_trail_if_zero c p cs t v) (again_fixed_trail_if_zero d p cs t v)"
  by (auto simp: again_fixed_trail_def again_fixed_trail_if_zero_def erase_eq intro!: push_variable_sim split: option.splits)

lemma start_container_sim:
  assumes "erase c = erase d"
  shows "sim zm (Some (start_container (template_callback_array zm) ct c p n))
      (Some (start_container (template_callback_array ideal) ct d p n))"
    "sim zm (Some (start_container (template_callback_map zm) ct c p n))
      (Some (start_container (template_callback_map ideal) ct d p n))"
proof -
  have st: "ctx_stack c = ctx_stack d" using assms by (simp add: erase_eq)
  have push: "erase_out (do_push (c\<lparr>ctx_user := u\<rparr>) p x) = erase_out (do_push (d\<lparr>ctx_user := w\<rparr>) p x)" for u w x
    using assms by (intro do_push_sim) (simp add: erase_eq)
  show "sim zm (Some (start_container (template_callback_array zm) ct c p n))
      (Some (start_container (template_callback_array ideal) ct d p n))"
    "sim zm (Some (start_container (template_callback_map zm) ct c p n))
      (Some (start_container (template_callback_map ideal) ct d p n))"
    using assms push
    by (auto simp: start_container_def st template_callback_array_def template_callback_map_def ideal_def refused_def
        erase_eq split: option.splits)
qed

lemma exec_header_sim:
  assumes "erase c = erase d"
  shows "sim zm (exec_header zm data c p b) (exec_header ideal data d p b)"
  unfolding exec_header_def
  by (intro sim_if; (rule again_sim(2) [OF assms] start_container_sim [OF assms])?)
    (simp_all add: do_push_sim [OF assms] again_sim(1) [OF assms] assms)

lemma exec_trail_sim:
  assumes "erase c = erase d"
  shows "sim zm (exec_trail zm data c p) (exec_trail ideal data d p)"
proof -
  have same: "ctx_cs c = ctx_cs d" "ctx_trail c = ctx_trail d" using assms by (simp_all add: erase_eq)
  show ?thesis
    unfolding exec_trail_def Let_def same
    by (cases "ctx_cs d"; simp only: msgpack_unpack_state.case; intro sim_if sim_bind;
        (rule again_sim(2) [OF assms] start_container_sim [OF assms] push_variable_sim [OF assms])?)
      (simp_all add: do_push_sim [OF assms] assms)
qed

lemma execute_step_sim:
  assumes "erase c = erase d"
  shows "sim zm (execute_step zm data c p) (execute_step ideal data d p)"
proof -
  have "ctx_cs c = ctx_cs d" using assms by (simp add: erase_eq)
  then show ?thesis
    unfolding execute_step_def by (auto intro!: sim_if sim_bind exec_header_sim exec_trail_sim assms)
qed

lemma execute_loop_sim:
  assumes "execute_loop ideal data d p = Some y" and "erase c = erase d"
  shows "\<exists>r c' q. execute_loop zm data c p = Some (r, c', q) \<and>
    (r = - 1 \<and> refused zm c' \<or> r = fst y \<and> q = snd (snd y) \<and> erase c' = erase (fst (snd y)))"
  using assms
proof (induction arbitrary: c rule: execute_loop_induct)
  case (finish d p)
  then show ?case by (simp add: loop_end)
next
  case (stop d p r d' q)
  from execute_step_sim [OF stop(3), of zm data p] stop(2) obtain x where
    x: "execute_step zm data c p = Some x" "erase_out x = Stop r (erase d') q \<or> (\<exists>ctx p. x = Stop (- 1) ctx p \<and> refused zm ctx)"
    by (cases "execute_step zm data c p") auto
  with stop(1) show ?case by (cases x) (auto simp: loop_step resume_def)
next
  case (run d p d' q y)
  from execute_step_sim [OF run(4), of zm data p] run(2) obtain x where
    x: "execute_step zm data c p = Some x" "erase_out x = Run (erase d') q \<or> (\<exists>ctx p. x = Stop (- 1) ctx p \<and> refused zm ctx)"
    by (cases "execute_step zm data c p") auto
  with run(1) run.IH show ?case by (cases x) (auto simp: loop_step resume_def)
qed

section \<open>The position of the data\<close>

text \<open>Bytes in front of the position do not matter.\<close>

fun shift_out :: "nat \<Rightarrow> 'z exec_out \<Rightarrow> 'z exec_out" where
  "shift_out k (Run ctx p) = Run ctx (k + p)"
| "shift_out k (Stop r ctx p) = Stop r ctx (k + p)"

abbreviation shifted :: "nat \<Rightarrow> 'z exec_out option \<Rightarrow> 'z exec_out option" where
  "shifted k \<equiv> map_option (shift_out k)"

lemma shift_reads [simp]:
  "rd (pre @ data) (length pre + n) = rd data n"
  "sub_bytes (pre @ data) (length pre + n) l = sub_bytes data n l"
  by (auto simp: rd_def sub_bytes_def nth_append)

lemma shift_loads [simp]:
  "load16 (pre @ data) (length pre + n) = load16 data n"
  "load32 (pre @ data) (length pre + n) = load32 data n"
  "load64 (pre @ data) (length pre + n) = load64 data n"
  by (simp_all add: msgpack_load16_def msgpack_load32_def msgpack_load64_def)

lemma shift_callbacks [simp]:
  "template_callback_str (pre @ data) (length pre + n) l = template_callback_str data n l"
  "template_callback_bin (pre @ data) (length pre + n) l = template_callback_bin data n l"
  "template_callback_ext (pre @ data) (length pre + n) l = template_callback_ext data n l"
  using shift_reads(2) [of pre data "n + 1"]
  by (simp_all add: template_callback_str_def template_callback_bin_def template_callback_ext_def)

lemma do_push_shift [simp]: "do_push ctx (k + p) x = shift_out k (do_push ctx p x)"
  by (cases "template_push (ctx_stack ctx) x") (simp_all add: do_push_def)

lemma push_variable_shift [simp]: "push_variable ctx (k + p) v = shifted k (push_variable ctx p v)"
  by (cases v) (simp_all add: push_variable_def)

lemma again_shift [simp]:
  "again_fixed_trail ctx (k + p) s t = shift_out k (again_fixed_trail ctx p s t)"
  "again_fixed_trail_if_zero ctx (k + p) cs t v = shifted k (again_fixed_trail_if_zero ctx p cs t v)"
  by (auto simp: again_fixed_trail_def again_fixed_trail_if_zero_def split: option.splits)

lemma start_container_shift [simp]:
  "start_container cb ct ctx (k + p) n = shift_out k (start_container cb ct ctx p n)"
  by (auto simp: start_container_def split: option.splits prod.splits)

lemma shifted_bind: "(\<And>x. f x = shifted k (g x)) \<Longrightarrow> Option.bind v f = shifted k (Option.bind v g)"
  by (cases v) simp_all

lemma shifted_if:
  "(c \<Longrightarrow> a = shifted k a') \<Longrightarrow> (\<not> c \<Longrightarrow> b = shifted k b') \<Longrightarrow> (if c then a else b) = shifted k (if c then a' else b')"
  by simp

lemma exec_header_shift: "exec_header zm (pre @ data) ctx (length pre + p) b = shifted (length pre) (exec_header zm data ctx p b)"
  unfolding exec_header_def by (intro shifted_if) simp_all

lemma exec_trail_shift: "exec_trail zm (pre @ data) ctx (length pre + n) = shifted (length pre) (exec_trail zm data ctx n)"
proof -
  have p: "length pre + n + k = length pre + (n + k)" "length (pre @ data) - (length pre + n) = length data - n" for k by simp_all
  show ?thesis
    unfolding exec_trail_def Let_def p shift_reads shift_loads shift_callbacks
    by (cases "ctx_cs ctx"; simp only: msgpack_unpack_state.case; intro shifted_if shifted_bind) simp_all
qed

lemma execute_step_shift: "execute_step zm (pre @ data) ctx (length pre + p) = shifted (length pre) (execute_step zm data ctx p)"
  unfolding execute_step_def by (auto intro!: shifted_bind simp: exec_header_shift exec_trail_shift)

lemma execute_loop_shift:
  assumes "execute_loop zm data ctx p = Some y"
  shows "execute_loop zm (pre @ data) ctx (length pre + p) = Some (fst y, fst (snd y), length pre + snd (snd y))"
  using assms
proof (induction rule: execute_loop_induct)
  case (finish ctx p)
  then show ?case by (simp add: loop_end)
next
  case (stop ctx p r ctx' p')
  then show ?case by (simp add: loop_step execute_step_shift resume_def)
next
  case (run ctx p ctx' p' y)
  then show ?case by (simp add: loop_step execute_step_shift resume_def)
qed

lemma execute_loop_unshift:
  assumes "execute_loop zm data ctx p = Some y"
  shows "n \<le> p \<Longrightarrow> n \<le> length data \<Longrightarrow> \<exists>y'. execute_loop zm (drop n data) ctx (p - n) = Some y'"
  using assms
proof (induction rule: execute_loop_induct)
  case (finish ctx p)
  then show ?case by (simp add: loop_end)
next
  case (stop ctx p r ctx' p')
  then have "execute_step zm data ctx p = shifted n (execute_step zm (drop n data) ctx (p - n))"
    using execute_step_shift [of zm "take n data" "drop n data" ctx "p - n"] by simp
  then obtain out where "execute_step zm (drop n data) ctx (p - n) = Some out" "shift_out n out = Stop r ctx' p'"
    using stop(2) by (cases "execute_step zm (drop n data) ctx (p - n)") simp_all
  with stop show ?case by (cases out) (auto simp: loop_step resume_def)
next
  case (run ctx p ctx' p' y)
  then have "execute_step zm data ctx p = shifted n (execute_step zm (drop n data) ctx (p - n))"
    using execute_step_shift [of zm "take n data" "drop n data" ctx "p - n"] by simp
  then obtain out where "execute_step zm (drop n data) ctx (p - n) = Some out" "shift_out n out = Run ctx' p'"
    using run(2) by (cases "execute_step zm (drop n data) ctx (p - n)") simp_all
  with run show ?case by (cases out) (auto simp: loop_step resume_def)
qed

lemma execute_loop_dropped:
  assumes run: "execute_loop zm data ctx n = Some (r, ctx', q)" and n: "n \<le> length data"
  shows "execute_loop zm (drop n data) ctx 0 = Some (r, ctx', q - n) \<and> n \<le> q"
proof -
  obtain r1 c1 q1 where y': "execute_loop zm (drop n data) ctx 0 = Some (r1, c1, q1)"
    using execute_loop_unshift [OF run, of n] n by auto
  have "length (take n data) = n" using n by simp
  with execute_loop_shift [OF y', of "take n data"] run have "r1 = r" "c1 = ctx'" "q = n + q1"
    by (simp_all only: append_take_drop_id fst_conv snd_conv add_0_right option.inject prod.inject)
  with y' show ?thesis by simp
qed

section \<open>Part of the data\<close>

text \<open>A run that is defined on some data is defined on a prefix of it.\<close>

lemma sub_bytes_long: "length data < l \<Longrightarrow> 0 < l \<Longrightarrow> sub_bytes data n l = None"
  by (simp add: sub_bytes_def)

lemma step_prefix_defined:
  assumes ctx: "ctx_ok ctx" and p: "p < length data" and small: "length (data @ rest) < 2 ^ 32 - 1"
    and run: "execute_step zm (data @ rest) ctx p = Some out"
  shows "execute_step zm data ctx p \<noteq> None"
proof (cases "ctx_cs ctx = CS_HEADER")
  case True
  then show ?thesis using exec_header_ok [OF ctx p, of zm] p by (auto simp: execute_step_def rd_def step_ok_def)
next
  case False
  show ?thesis
  proof (cases "length data - p < unat (ctx_trail ctx)")
    case True
    with False show ?thesis by (simp add: execute_step_def exec_trail_def Let_def)
  next
    case enough: False
    have "t + 1 \<noteq> 0" if cs: "ctx_cs ctx = CS_EXT_32" and t: "load32 data p = Some t" for t
    proof
      assume "t + 1 = 0"
      moreover have "load32 (data @ rest) p = Some t" using t le_opt_loads(2) [of data p rest] by (auto simp: le_opt_def)
      moreover have "template_callback_ext (data @ rest) p 0 = None"
        using small by (simp add: template_callback_ext_def unat_max32 sub_bytes_long del: length_append)
      ultimately have "execute_step zm (data @ rest) ctx p = None"
        using cs enough by (simp add: execute_step_def exec_trail_def Let_def again_fixed_trail_if_zero_def push_variable_def)
      with run show False by simp
    qed
    then have "step_ok data p (exec_trail zm data ctx p)" using exec_trail_ok [OF ctx False p] by blast
    with False show ?thesis by (auto simp: execute_step_def step_ok_def)
  qed
qed

lemma loop_prefix_defined:
  assumes "execute_loop zm (data @ rest) ctx p = Some y" and "ctx_ok ctx" and "length (data @ rest) < 2 ^ 32 - 1"
  shows "\<exists>y'. execute_loop zm data ctx p = Some y'"
  using assms(1,2)
proof (induction rule: execute_loop_induct)
  case (finish ctx p)
  then show ?case by (simp add: loop_end)
next
  case (stop ctx p r ctx' p')
  show ?case
  proof (cases "p < length data")
    case True
    with step_prefix_defined [OF stop(3) True assms(3) stop(2)] execute_step_more [of zm data ctx p _ rest] stop(2)
    show ?thesis by (fastforce simp: loop_step resume_def)
  qed (simp add: loop_end)
next
  case (run ctx p ctx' p' y)
  show ?case
  proof (cases "p < length data")
    case True
    obtain out where out: "execute_step zm data ctx p = Some out"
      using step_prefix_defined [OF run(4) True assms(3) run(2)] by blast
    from execute_step_more [OF out, of rest] run(2) have "out = Stop 0 ctx p \<or> out = Run ctx' p'" by auto
    moreover have "ctx_ok ctx'" using execute_step_in [OF run(4) _ run(2)] run(1) by simp
    ultimately show ?thesis using run.IH out True by (auto simp: loop_step resume_def)
  qed (simp add: loop_end)
qed

section \<open>What is still to come\<close>

text \<open>\<open>delivering ctx rem x\<close>: from this context, the bytes \<open>rem\<close> complete the object \<open>x\<close>.\<close>

definition delivering :: "unit template_context \<Rightarrow> bytes \<Rightarrow> msgpack_object \<Rightarrow> bool" where
  "delivering ctx rem x \<longleftrightarrow> ctx_ok ctx \<and> length rem < 2 ^ 32 - 1 \<and>
     (\<exists>ctx'. execute_loop ideal rem ctx 0 = Some (1, ctx', length rem) \<and> ctx_root ctx' = x)"

definition sendable :: "msgpack_object \<Rightarrow> bool" where
  "sendable x \<longleftrightarrow> wf_object x \<and> obj_depth x \<le> 32 \<and> length (encode x) < 2 ^ 32 - 1"

abbreviation encodings :: "msgpack_object list \<Rightarrow> bytes" where
  "encodings xs \<equiv> concat (map encode xs)"

fun stream_ok :: "unit template_context \<Rightarrow> bytes \<Rightarrow> msgpack_object list \<Rightarrow> bool" where
  "stream_ok ctx bs [] \<longleftrightarrow> bs = []"
| "stream_ok ctx bs (x # xs) \<longleftrightarrow> (\<exists>rem. bs = rem @ encodings xs \<and> delivering ctx rem x)"

lemma not_refused [simp]: "\<not> refused ideal ctx"
  by (simp add: refused_def ideal_def)

lemma ideal_erase:
  assumes "execute_loop ideal data d p = Some (r, d', q)" and "erase c = erase d"
  shows "\<exists>c'. execute_loop ideal data c p = Some (r, c', q) \<and> erase c' = erase d'"
  using execute_loop_sim [OF assms, of ideal] by auto

lemma ctx_ok_erase: "erase c = erase d \<Longrightarrow> ctx_ok c = ctx_ok d"
  by (simp add: erase_eq ctx_ok_def)

lemma delivering_erase:
  assumes "delivering d rem x" and "erase c = erase d"
  shows "delivering c rem x"
proof -
  obtain d' where d': "execute_loop ideal rem d 0 = Some (1, d', length rem)" "ctx_root d' = x" using assms(1) by (auto simp: delivering_def)
  from ideal_erase [OF d'(1) assms(2)] obtain c' where
    "execute_loop ideal rem c 0 = Some (1, c', length rem)" "erase c' = erase d'" by blast
  with d'(2) assms(1) ctx_ok_erase [OF assms(2)] show ?thesis by (auto simp: delivering_def erase_eq)
qed

lemma stream_erase: "stream_ok d bs xs \<Longrightarrow> erase c = erase d \<Longrightarrow> stream_ok c bs xs"
  using delivering_erase by (cases xs) auto

lemma delivering_new:
  assumes "sendable x"
  shows "delivering (new_context ()) (encode x) x"
proof -
  have "zone_total ideal" by (simp add: zone_total_def ideal_def)
  from execute_encoded [OF this, of x "()" "[]" "[]"] assms show ?thesis
    by (auto simp: delivering_def sendable_def template_execute_def template_data_def split: if_splits)
qed

lemma stream_new: "list_all sendable xs \<Longrightarrow> stream_ok (new_context ()) (encodings xs) xs"
  using delivering_new by (cases xs) auto

text \<open>Fewer bytes than are needed: the parser takes what it can, and the rest completes the object.\<close>

lemma delivering_part:
  assumes del: "delivering ctx (pending @ missing) x" and more: "missing \<noteq> []"
  shows "\<exists>ctx1 n. execute_loop ideal pending ctx 0 = Some (0, ctx1, n) \<and> n \<le> length pending \<and>
    delivering ctx1 (drop n pending @ missing) x"
proof -
  let ?rem = "pending @ missing"
  obtain ctx' where ctx: "ctx_ok ctx" and small: "length ?rem < 2 ^ 32 - 1"
    and run: "execute_loop ideal ?rem ctx 0 = Some (1, ctx', length ?rem)" "ctx_root ctx' = x"
    using del by (auto simp: delivering_def)
  obtain r ctx1 n where y: "execute_loop ideal pending ctx 0 = Some (r, ctx1, n)"
    using loop_prefix_defined [OF run(1) ctx small] by auto
  then have "template_execute ideal ctx pending 0 = Some (r, ctx1, n)" by (simp add: template_execute_def)
  from execute_inside [OF this ctx] have n: "n \<le> length pending" "r \<noteq> 1 \<longrightarrow> ctx_ok ctx1" by auto
  note long = execute_loop_more [OF y, of missing]
  have r: "r = 0"
  proof (rule ccontr)
    assume "r \<noteq> 0"
    with long run(1) have "n = length ?rem" by simp
    with n(1) more show False by simp
  qed
  with long run(1) have rest: "execute_loop ideal ?rem ctx1 n = Some (1, ctx', length ?rem)" by simp
  have "n \<le> length ?rem" using n(1) by simp
  from execute_loop_dropped [OF rest this]
  have "execute_loop ideal (drop n ?rem) ctx1 0 = Some (1, ctx', length (drop n ?rem))" by simp
  with run(2) n(2) r small have "delivering ctx1 (drop n ?rem) x" by (auto simp: delivering_def)
  with y r n(1) show ?thesis by auto
qed

lemma stream_execute:
  assumes st: "stream_ok ctx (pending @ future) xs" and ok: "list_all sendable xs"
  shows "\<exists>r ctx1 n. execute_loop ideal pending ctx 0 = Some (r, ctx1, n) \<and> n \<le> length pending \<and>
    (r = 0 \<and> stream_ok ctx1 (drop n pending @ future) xs \<and> (xs \<noteq> [] \<longrightarrow> length (encodings (tl xs)) < length future) \<or>
     r = 1 \<and> xs \<noteq> [] \<and> ctx_root ctx1 = hd xs \<and> drop n pending @ future = encodings (tl xs) \<and> length future \<le> length (encodings (tl xs)))"
proof (cases xs)
  case Nil
  with st show ?thesis by (simp add: loop_end)
next
  case (Cons x xs')
  then obtain rem where rem: "pending @ future = rem @ encodings xs'" "delivering ctx rem x" using st by auto
  show ?thesis
  proof (cases "length rem \<le> length pending")
    case True
    have "take (length rem) (pending @ future) = rem" using rem(1) by simp
    with True have "take (length rem) pending = rem" by simp
    then obtain rest where p1: "pending = rem @ rest" by (metis append_take_drop_id)
    then have p: "pending = rem @ rest" "rest @ future = encodings xs'" using rem(1) by simp_all
    obtain ctx' where "execute_loop ideal rem ctx 0 = Some (1, ctx', length rem)" "ctx_root ctx' = x"
      using rem(2) by (auto simp: delivering_def)
    with execute_loop_more [OF this(1), of rest] p Cons show ?thesis
      by (intro exI [of _ 1] exI [of _ ctx'] exI [of _ "length rem"]) (simp flip: p(2))
  next
    case False
    have "take (length pending) (rem @ encodings xs') = pending" using rem(1) by (metis append_eq_conv_conj)
    with False have "take (length pending) rem = pending" by simp
    then obtain missing where p1: "rem = pending @ missing" by (metis append_take_drop_id)
    then have p: "rem = pending @ missing" "future = missing @ encodings xs'" using rem(1) by simp_all
    moreover have "missing \<noteq> []" using False p(1) by auto
    ultimately obtain ctx1 n where "execute_loop ideal pending ctx 0 = Some (0, ctx1, n)" "n \<le> length pending"
      "delivering ctx1 (drop n pending @ missing) x"
      using delivering_part [of ctx pending missing x] rem(2) by auto
    with p Cons \<open>missing \<noteq> []\<close> show ?thesis
      by (intro exI [of _ 0] exI [of _ ctx1] exI [of _ n]) auto
  qed
qed

section \<open>Unparsed bytes\<close>

definition pend :: "buffers \<Rightarrow> 'h msgpack_unpacker \<Rightarrow> bytes" where
  "pend bufs m = (case bufs (mp_buffer m) of None \<Rightarrow> [] | Some bf \<Rightarrow> drop (unat (mp_off m)) (take (unat (mp_used m)) (bf_bytes bf)))"

lemma set_user_erase [simp]: "erase (mp_ctx (set_user m z h r)) = erase (mp_ctx m)"
  by (simp add: set_user_def erase_eq)

lemma in_place_pend:
  assumes inv: "U_inv live (m, bufs, zs)" and n: "unat n + unat (mp_used m) + 4 < 2 ^ 64"
    and run: "expand_in_place mal bufs m n = Some (r, m', bufs')"
  shows "pend bufs' m' = pend bufs m \<and> erase (mp_ctx m') = erase (mp_ctx m)"
proof -
  define N where "N = grow_size ((mp_used m + mp_free m) * 2) (n + mp_used m)"
  obtain bf where bf: "bufs (mp_buffer m) = Some bf" "unat (mp_used m) \<le> length (bf_bytes bf)" using U_inv_parts [OF inv] by metis
  have "unat n + unat (mp_used m) \<le> unat N" unfolding N_def using n by (intro grow_next) simp
  then have big: "unat (mp_used m) \<le> unat N" by simp
  show ?thesis
    using run bf big unfolding expand_in_place_def Let_def N_def [symmetric]
    by (auto simp: pend_def realloc_bytes_def min_def erase_eq set_user_def split: option.splits)
qed

lemma moved_pend:
  assumes "bufs (mp_buffer m) = Some bf" and "unat (mp_off m) \<le> unat (mp_used m)" and "unat (mp_used m) \<le> length (bf_bytes bf)"
    and "unat (mp_used (moved_to m N t)) = unat (mp_used m) - unat (mp_off m) + 4"
  shows "pend (bufs'(t \<mapsto> next_buffer m bf N)) (set_user (moved_to m N t) z h r) = pend bufs m"
  using assms(1-3) assms(4)
  by (simp add: pend_def moved_to_def next_buffer_def counter_size drop_take)

lemma to_new_pend:
  assumes inv: "U_inv live (m, bufs, zs)" and n: "unat n + unat (mp_used m) + 4 < 2 ^ 64"
    and run: "expand_to_new mal ok bufs m n = Some (r, m', bufs')"
  shows "pend bufs' m' = pend bufs m \<and> erase (mp_ctx m') = erase (mp_ctx m)"
proof -
  obtain bf where bf: "bufs (mp_buffer m) = Some bf" "unat (mp_off m) \<le> unat (mp_used m)" "unat (mp_used m) \<le> length (bf_bytes bf)"
    and room: "room_ok bufs m" using U_inv_parts [OF inv] by blast
  define N where "N = grow_size (mp_initial_buffer_size m) (n + (mp_used m - mp_off m) + COUNTER_SIZE)"
  note ex = expand_to_new_eq [OF inv n bf(1), folded N_def, of mal ok]
  have used: "unat (mp_used (moved_to m N t)) = unat (mp_used m) - unat (mp_off m) + 4" for t
    using moved_room(3) [OF room bf(1) n] next_size_ok [OF inv n] unfolding N_def by blast
  have ctx: "erase (mp_ctx (set_user (moved_to m N t) z h b)) = erase (mp_ctx m)" for t z h b by (simp add: moved_to_def)
  have same: "pend bufs (set_user m z h b) = pend bufs m" for z h b by (simp add: pend_def split: option.splits)
  show ?thesis
    using run moved_pend [of bufs m bf N, OF bf used] ctx same unfolding ex
    by (auto split: option.splits prod.splits bool.splits if_splits)
qed

lemma reserve_pend:
  assumes inv: "U_inv live (m, bufs, zs)" and n: "unat n + unat (mp_used m) + 4 < 2 ^ 64"
    and run: "msgpack_unpacker_reserve_buffer mal ok bufs m n = Some (r, m', bufs')"
  shows "pend bufs' m' = pend bufs m \<and> erase (mp_ctx m') = erase (mp_ctx m)"
proof (cases "n \<le> mp_free m")
  case True
  then show ?thesis using run by (simp add: msgpack_unpacker_reserve_buffer_def)
next
  case False
  obtain rw where rw: "can_rewind bufs m = Some rw"
    using run False by (auto simp: msgpack_unpacker_reserve_buffer_def msgpack_unpacker_expand_buffer_def bind_eq_Some_conv)
  define m1 where "m1 = (if rw then rewind_buffer m else m)"
  have inv1: "U_inv live (m1, bufs, zs)" using rewind_keeps [OF inv] rw inv by (auto simp: keeps_def m1_def)
  have "4 \<le> unat (mp_used m)" using U_inv_parts [OF inv] by (metis order_trans)
  then have n1: "unat n + unat (mp_used m1) + 4 < 2 ^ 64" using n by (simp add: m1_def rewind_buffer_def counter_size)
  have "mp_used m = mp_off m" if rw using rw that by (simp add: can_rewind_def split: if_splits)
  then have p1: "pend bufs m1 = pend bufs m \<and> erase (mp_ctx m1) = erase (mp_ctx m)"
    by (auto simp: m1_def pend_def rewind_buffer_def split: option.splits)
  have "Some (r, m', bufs') =
      (if rw \<and> mp_free m1 \<ge> n then Some (True, m1, bufs)
       else if mp_off m1 = COUNTER_SIZE then expand_in_place mal bufs m1 n else expand_to_new mal ok bufs m1 n)"
    using run False by (simp only: msgpack_unpacker_reserve_buffer_def msgpack_unpacker_expand_buffer_def rw bind.bind_lunit Let_def if_False m1_def)
  then consider "m' = m1" "bufs' = bufs" | "expand_in_place mal bufs m1 n = Some (r, m', bufs')"
    | "expand_to_new mal ok bufs m1 n = Some (r, m', bufs')"
    by (auto split: if_splits)
  then show ?thesis
    using p1 in_place_pend [OF inv1 n1] to_new_pend [OF inv1 n1] by cases metis+
qed

lemma feed_pend:
  assumes inv: "U_inv live (m, bufs, zs)" and len: "length bs \<le> unat (mp_free m)" and run: "feed bufs m bs = Some (m', bufs')"
  shows "pend bufs' m' = pend bufs m @ bs \<and> mp_ctx m' = mp_ctx m"
proof -
  obtain bf where bf: "bufs (mp_buffer m) = Some bf" "unat (mp_used m) + unat (mp_free m) = length (bf_bytes bf)"
    "length (bf_bytes bf) < 2 ^ 64" "unat (mp_off m) \<le> unat (mp_used m)"
    using inv by (auto simp: U_inv_def room_ok_def)
  have l: "unat (of_nat (length bs) :: u64) = length bs" using len bf(2,3) by (simp add: unat_of_nat_small)
  have "unat (mp_used m + of_nat (length bs)) = unat (mp_used m) + length bs"
    using l len bf(2,3) by (simp add: unat_word_ariths(1))
  then show ?thesis
    using run bf len by (auto simp: feed_def memcpy_bytes_def msgpack_unpacker_buffer_consumed_def pend_def)
qed

lemma pend_cong:
  "mp_buffer m' = mp_buffer m \<Longrightarrow> mp_used m' = mp_used m \<Longrightarrow> mp_off m' = mp_off m \<Longrightarrow> pend bufs m' = pend bufs m"
  by (simp add: pend_def split: option.splits)

lemma same_bytes_pend:
  assumes "same_bytes bufs bufs'" and "bufs' (mp_buffer m) \<noteq> None"
  shows "pend bufs' m = pend bufs m"
  using assms by (fastforce simp: same_bytes_def pend_def split: option.splits)

text \<open>Parsing the bytes that are there, with zones that may run out of memory.\<close>

lemma execute_pend:
  assumes inv: "U_inv live (m, bufs, zs)"
    and st: "stream_ok (erase (mp_ctx m)) (pend bufs m @ future) xs" and ok: "list_all sendable xs"
  shows "\<exists>r m'. msgpack_unpacker_execute mal bufs m = Some (r, m') \<and>
    (r = - 1 \<and> refused (zone_zm mal) (mp_ctx m') \<or>
     r = 0 \<and> stream_ok (erase (mp_ctx m')) (pend bufs m' @ future) xs \<and> (xs \<noteq> [] \<longrightarrow> length (encodings (tl xs)) < length future) \<or>
     r = 1 \<and> xs \<noteq> [] \<and> ctx_root (mp_ctx m') = hd xs \<and> pend bufs m' @ future = encodings (tl xs) \<and>
       length future \<le> length (encodings (tl xs)))"
proof -
  obtain bf where bf: "bufs (mp_buffer m) = Some bf" "unat (mp_off m) \<le> unat (mp_used m)" "unat (mp_used m) \<le> length (bf_bytes bf)"
    using U_inv_parts [OF inv] by blast
  let ?data = "take (unat (mp_used m)) (bf_bytes bf)" and ?off = "unat (mp_off m)"
  have pd: "pend bufs m = drop ?off ?data" by (simp add: pend_def bf)
  from stream_execute [OF st ok] obtain r0 c0 n where ideal: "execute_loop ideal (pend bufs m) (erase (mp_ctx m)) 0 = Some (r0, c0, n)"
    and n: "n \<le> length (pend bufs m)"
    and out: "r0 = 0 \<and> stream_ok c0 (drop n (pend bufs m) @ future) xs \<and> (xs \<noteq> [] \<longrightarrow> length (encodings (tl xs)) < length future) \<or>
      r0 = 1 \<and> xs \<noteq> [] \<and> ctx_root c0 = hd xs \<and> drop n (pend bufs m) @ future = encodings (tl xs) \<and>
        length future \<le> length (encodings (tl xs))" by blast
  have len: "length (take ?off ?data) = ?off" using bf(2,3) by simp
  have "execute_loop ideal ?data (erase (mp_ctx m)) ?off = Some (r0, c0, ?off + n)"
    using execute_loop_shift [OF ideal, of "take ?off ?data"] len unfolding pd by (simp only: append_take_drop_id fst_conv snd_conv add_0_right)
  moreover have "erase (mp_ctx m) = erase (erase (mp_ctx m))" by (simp add: erase_def)
  ultimately obtain r c q where run: "execute_loop (zone_zm mal) ?data (mp_ctx m) ?off = Some (r, c, q)"
    and rel: "r = - 1 \<and> refused (zone_zm mal) c \<or> r = r0 \<and> q = ?off + n \<and> erase c = erase c0"
    using execute_loop_sim [of ?data "erase (mp_ctx m)" ?off _ "mp_ctx m" "zone_zm mal"] by fastforce
  let ?m = "m\<lparr>mp_ctx := c, mp_off := of_nat q\<rparr>"
  obtain m' where ex: "msgpack_unpacker_execute mal bufs m = Some (r, m')"
    and m': "mp_ctx m' = c" "mp_off m' = of_nat q" "mp_buffer m' = mp_buffer m" "mp_used m' = mp_used m"
    using run bf by (simp add: msgpack_unpacker_execute_def template_execute_def Let_def)
  show ?thesis
  proof (cases "r = - 1 \<and> refused (zone_zm mal) c")
    case True
    with ex m' show ?thesis by auto
  next
    case False
    with rel have r: "r = r0" "q = ?off + n" "erase c = erase c0" by auto
    have "?off + n \<le> unat (mp_used m)" using n bf(2,3) unfolding pd by simp
    then have "q < 2 ^ 64" using r(2) unat_lt_exp [of "mp_used m"] by simp
    then have "unat (of_nat q :: u64) = ?off + n" unfolding r(2) [symmetric] by (intro unat_of_nat_small) simp
    then have pend': "pend bufs m' = drop n (pend bufs m)" by (simp add: pend_def m' bf drop_drop add.commute)
    have "erase (erase c) = erase c0" using r(3) by (simp add: erase_def)
    then have "stream_ok c0 bs xs \<Longrightarrow> stream_ok (erase c) bs xs" for bs using stream_erase by blast
    moreover have "ctx_root c = ctx_root c0" using r(3) by (simp add: erase_eq)
    ultimately show ?thesis using ex out r(1) by (intro exI [of _ r] exI [of _ m']) (auto simp: pend' m')
  qed
qed

lemma release_same:
  assumes "msgpack_unpacker_release_zone mal ok bufs m = Some (z, m', bufs')"
  shows "erase (mp_ctx m') = erase (mp_ctx m) \<and> mp_buffer m' = mp_buffer m \<and> mp_used m' = mp_used m \<and> mp_off m' = mp_off m"
  using assms
  by (auto simp: msgpack_unpacker_release_zone_def msgpack_unpacker_flush_zone_def split: if_splits option.splits prod.splits bool.splits)

lemma next_pend:
  assumes law: "malloc_law mal live" and inv: "U_inv live (m, bufs, zs1 @ zone_list (up_zone result) @ zs2)" and ctx: "ctx_ok (mp_ctx m)"
    and c: "count (held m (zs1 @ zs2)) (mp_buffer m) < 2 ^ 32 - 1"
    and st: "stream_ok (erase (mp_ctx m)) (pend bufs m @ future) xs" and ok: "list_all sendable xs"
  shows "\<exists>ret m' bufs' result'. msgpack_unpacker_next mal ok' bufs m result = Some (ret, m', bufs', result') \<and>
    (ret = UNPACK_PARSE_ERROR \<and> (\<exists>n. zone_zm mal (mp_zone m', mp_heap m') n = None) \<or>
     ret = UNPACK_CONTINUE \<and> stream_ok (erase (mp_ctx m')) (pend bufs' m' @ future) xs \<and>
       (xs \<noteq> [] \<longrightarrow> length (encodings (tl xs)) < length future) \<or>
     ret = UNPACK_SUCCESS \<and> xs \<noteq> [] \<and> up_data result' = hd xs \<and>
       stream_ok (erase (mp_ctx m')) (pend bufs' m' @ future) (tl xs) \<and> length future \<le> length (encodings (tl xs)))"
proof -
  obtain b0 where b0: "unpacked_free bufs result = Some b0" "U_inv live (m, b0, zs1 @ zs2)" "same_bytes bufs b0"
    using result_freed [OF inv] by blast
  have "b0 (mp_buffer m) \<noteq> None" using U_inv_parts [OF b0(2)] by (metis option.distinct(1))
  from same_bytes_pend [OF b0(3) this] have "stream_ok (erase (mp_ctx m)) (pend b0 m @ future) xs" using st by simp
  from execute_pend [OF b0(2) this ok, of mal] obtain r m1 where ex: "msgpack_unpacker_execute mal b0 m = Some (r, m1)"
    and cases: "r = - 1 \<and> refused (zone_zm mal) (mp_ctx m1) \<or>
      r = 0 \<and> stream_ok (erase (mp_ctx m1)) (pend b0 m1 @ future) xs \<and> (xs \<noteq> [] \<longrightarrow> length (encodings (tl xs)) < length future) \<or>
      r = 1 \<and> xs \<noteq> [] \<and> ctx_root (mp_ctx m1) = hd xs \<and> pend b0 m1 @ future = encodings (tl xs) \<and>
        length future \<le> length (encodings (tl xs))" by blast
  note e = execute_keeps [OF law b0(2) ctx ex]
  have nx: "msgpack_unpacker_next mal ok' bufs m result =
      (if r < 0 then Some (UNPACK_PARSE_ERROR, m1, b0, \<lparr>up_zone = None, up_data = OBJECT_NIL\<rparr>)
       else if r = 0 then Some (UNPACK_CONTINUE, m1, b0, msgpack_unpacked_destroy result)
       else do { (z, mpac2, bufs1) \<leftarrow> msgpack_unpacker_release_zone mal ok' b0 m1;
         Some (UNPACK_SUCCESS, msgpack_unpacker_reset mpac2, bufs1, \<lparr>up_zone = z, up_data = msgpack_unpacker_data mpac2\<rparr>) })"
    unfolding msgpack_unpacker_next_def b0(1) bind.bind_lunit ex prod.case by (rule refl)
  consider "r = - 1" "refused (zone_zm mal) (mp_ctx m1)"
    | "r = 0" "stream_ok (erase (mp_ctx m1)) (pend b0 m1 @ future) xs" "xs \<noteq> [] \<longrightarrow> length (encodings (tl xs)) < length future"
    | "r = 1" "xs \<noteq> []" "ctx_root (mp_ctx m1) = hd xs" "pend b0 m1 @ future = encodings (tl xs)" "length future \<le> length (encodings (tl xs))"
    using cases by blast
  then show ?thesis
  proof cases
    case 1
    then show ?thesis unfolding nx by (auto simp: refused_def mp_zone_def mp_heap_def)
  next
    case 2
    then show ?thesis unfolding nx by auto
  next
    case 3
    have "count (held m1 (zs1 @ zs2)) (mp_buffer m1) < 2 ^ 32 - 1" using e c by simp
    from release_keeps [OF law conjunct1 [OF e] this, of ok'] obtain z m2 b1
      where rel: "msgpack_unpacker_release_zone mal ok' b0 m1 = Some (z, m2, b1)"
        "U_inv live (m2, b1, zs1 @ zone_list z @ zs2)" "same_bytes b0 b1" by auto
    from release_same [OF rel(1)] have same: "erase (mp_ctx m2) = erase (mp_ctx m1)" "mp_buffer m2 = mp_buffer m1" "mp_used m2 = mp_used m1" "mp_off m2 = mp_off m1"
      by auto
    have "b1 (mp_buffer m1) \<noteq> None" using U_inv_parts [OF rel(2)] same(2) by (metis option.distinct(1))
    moreover have "pend b1 (msgpack_unpacker_reset m2) = pend b1 m1"
      by (rule pend_cong) (simp_all add: msgpack_unpacker_reset_def same)
    ultimately have "pend b1 (msgpack_unpacker_reset m2) = pend b0 m1" using same_bytes_pend [OF rel(3)] by metis
    moreover have "erase (mp_ctx (msgpack_unpacker_reset m2)) = erase (new_context ())"
      by (simp add: msgpack_unpacker_reset_def erase_eq template_init_def new_context_def)
    then have "erase (erase (mp_ctx (msgpack_unpacker_reset m2))) = erase (new_context ())" by (simp add: erase_def)
    moreover have "stream_ok (new_context ()) (encodings (tl xs)) (tl xs)" using ok by (intro stream_new) (cases xs; simp)
    ultimately have "stream_ok (erase (mp_ctx (msgpack_unpacker_reset m2))) (pend b1 (msgpack_unpacker_reset m2) @ future) (tl xs)"
      using 3(4) stream_erase by metis
    moreover have "msgpack_unpacker_data m2 = hd xs" using same(1) 3(3) by (simp add: msgpack_unpacker_data_def template_data_def erase_eq)
    ultimately show ?thesis using 3 rel(1) unfolding nx by auto
  qed
qed

section \<open>Sessions\<close>

text \<open>
  A session: the calls of a client, the bytes it has passed on so far, and the objects it has received. Zones
  are given back at any time. A parse error ends the session.
\<close>

inductive session :: "'h malloc_fn \<Rightarrow> 'h unpacker_state \<Rightarrow> bytes \<Rightarrow> msgpack_object list \<Rightarrow> bool" for mal where
  begin_session: "msgpack_unpacker_init mal h Map.empty n = Some (m, bufs) \<Longrightarrow> session mal (m, bufs, []) [] []"
| make_room: "session mal (m, bufs, zs) inp objs \<Longrightarrow> unat n + unat (mp_used m) + 4 < 2 ^ 64 \<Longrightarrow>
    msgpack_unpacker_reserve_buffer mal ok bufs m n = Some (r, m', bufs') \<Longrightarrow> session mal (m', bufs', zs) inp objs"
| pass_on: "session mal (m, bufs, zs) inp objs \<Longrightarrow> length bs \<le> unat (msgpack_unpacker_buffer_capacity m) \<Longrightarrow>
    feed bufs m bs = Some (m', bufs') \<Longrightarrow> session mal (m', bufs', zs) (inp @ bs) objs"
| ask: "session mal (m, bufs, zs1 @ zone_list (up_zone result) @ zs2) inp objs \<Longrightarrow>
    count (held m (zs1 @ zs2)) (mp_buffer m) < 2 ^ 32 - 1 \<Longrightarrow>
    msgpack_unpacker_next mal ok bufs m result = Some (ret, m', bufs', result') \<Longrightarrow> ret \<noteq> UNPACK_PARSE_ERROR \<Longrightarrow>
    session mal (m', bufs', zs1 @ zone_list (up_zone result') @ zs2) inp
      (if ret = UNPACK_SUCCESS then objs @ [up_data result'] else objs)"
| give_back: "session mal (m, bufs, zs1 @ z # zs2) inp objs \<Longrightarrow> msgpack_zone_free bufs z = Some bufs' \<Longrightarrow>
    session mal (m, bufs', zs1 @ zs2) inp objs"

lemma session_reach: "session mal s inp objs \<Longrightarrow> client_reach mal s"
proof (induction rule: session.induct)
  case begin_session
  then show ?case by (rule client_reach.start)
next
  case make_room
  from client_reach.step [OF make_room.IH client_step.reserve [OF make_room.hyps(2,3)]] show ?case .
next
  case pass_on
  from client_reach.step [OF pass_on.IH client_step.receive [OF pass_on.hyps(2,3)]] show ?case .
next
  case ask
  from client_reach.step [OF ask.IH client_step.next_object [OF ask.hyps(2,3)]] show ?case .
next
  case give_back
  from client_reach.step [OF give_back.IH client_step.free_object [OF give_back.hyps(2)]] show ?case .
qed

lemma init_stream:
  assumes "msgpack_unpacker_init mal h Map.empty n = Some (m, bufs)"
  shows "pend bufs m = []" and "erase (erase (mp_ctx m)) = erase (new_context ())"
  using assms unfolding msgpack_unpacker_init_def Let_def bind_pair_eq_Some
  by (auto simp: pend_def erase_def new_context_def template_init_def)

lemma session_stream:
  assumes law: "malloc_law mal live" and ok: "list_all sendable xs"
  shows "session mal s inp objs \<Longrightarrow> inp @ future = encodings xs \<Longrightarrow>
    (case s of (m, bufs, zs) \<Rightarrow> \<exists>ys. xs = objs @ ys \<and> stream_ok (erase (mp_ctx m)) (pend bufs m @ future) ys)"
proof (induction arbitrary: future rule: session.induct)
  case (begin_session h n m bufs)
  from init_stream(2) [OF begin_session(1)] stream_new [OF ok]
  have "stream_ok (erase (mp_ctx m)) (encodings xs) xs" using stream_erase by blast
  with init_stream(1) [OF begin_session(1)] begin_session(2) show ?case by simp
next
  case (make_room m bufs zs inp objs n ok' r m' bufs')
  have "U_inv live (m, bufs, zs)" using client_reach_inv [OF session_reach [OF make_room(1)] law] by (simp add: client_inv_def)
  from reserve_pend [OF this make_room(2,3)] make_room.IH [OF make_room.prems] show ?case by simp
next
  case (pass_on m bufs zs inp objs bs m' bufs')
  have "U_inv live (m, bufs, zs)" using client_reach_inv [OF session_reach [OF pass_on(1)] law] by (simp add: client_inv_def)
  from feed_pend [OF this _ pass_on(3)] pass_on(2) have "pend bufs' m' = pend bufs m @ bs" "mp_ctx m' = mp_ctx m"
    by (simp_all add: msgpack_unpacker_buffer_capacity_def)
  moreover have "inp @ (bs @ future) = encodings xs" using pass_on.prems by simp
  ultimately show ?case using pass_on.IH [of "bs @ future"] by simp
next
  case (ask m bufs zs1 result zs2 inp objs ok' ret m' bufs' result')
  have inv: "U_inv live (m, bufs, zs1 @ zone_list (up_zone result) @ zs2)" "ctx_ok (mp_ctx m)"
    using client_reach_inv [OF session_reach [OF ask(1)] law] by (simp_all add: client_inv_def)
  from ask.IH [OF ask.prems] obtain ys where ys: "xs = objs @ ys" "stream_ok (erase (mp_ctx m)) (pend bufs m @ future) ys" by auto
  then have "list_all sendable ys" using ok by simp
  from next_pend [OF law inv ask(2) ys(2) this, of ok'] ask(3,4)
  have "ret = UNPACK_CONTINUE \<and> stream_ok (erase (mp_ctx m')) (pend bufs' m' @ future) ys \<or>
      ret = UNPACK_SUCCESS \<and> ys \<noteq> [] \<and> up_data result' = hd ys \<and> stream_ok (erase (mp_ctx m')) (pend bufs' m' @ future) (tl ys)"
    by auto
  then show ?case
  proof
    assume "ret = UNPACK_SUCCESS \<and> ys \<noteq> [] \<and> up_data result' = hd ys \<and> stream_ok (erase (mp_ctx m')) (pend bufs' m' @ future) (tl ys)"
    with ys(1) show ?case by (auto intro!: exI [of _ "tl ys"])
  qed (use ys(1) in auto)
next
  case (give_back m bufs zs1 z zs2 inp objs bufs')
  have inv: "U_inv live (m, bufs, zs1 @ z # zs2)" using client_reach_inv [OF session_reach [OF give_back(1)] law] by (simp add: client_inv_def)
  from free_keeps [OF inv] give_back(2) have f: "U_inv live (m, bufs', zs1 @ zs2)" "same_bytes bufs bufs'" by auto
  have "bufs' (mp_buffer m) \<noteq> None" using U_inv_parts [OF f(1)] by (metis option.distinct(1))
  from same_bytes_pend [OF f(2) this] give_back.IH [OF give_back.prems] show ?case by simp
qed

section \<open>Property\<close>


lemma client_session: "session bump_malloc (client_mpac 6 4 2176 10384, client_bufs 1 [0xa1, 65], []) [0xa1, 65] []"
proof -
  have s0: "session bump_malloc (client_mpac 4 4 2176 10384, client_bufs 1 [], []) [] []" by (rule begin_session) (rule client_init)
  have "session bump_malloc (client_mpac 6 4 2176 10384, client_bufs 1 [0xa1, 65], []) ([] @ [0xa1, 65]) []"
    by (rule pass_on [OF s0 _ client_feed]) (simp add: client_mpac_def msgpack_unpacker_buffer_capacity_def)
  then show ?thesis by simp
qed


end
