(* ===== verification/MP_VRef.thy ===== *)
theory MP_VRef
  imports MP_Zone
begin

text \<open>
  libmsgpack, the vectored buffer (\<open>include/msgpack/vrefbuffer.h\<close>, \<open>src/vrefbuffer.c\<close>): a vector of
  pieces of memory, for \<open>writev\<close>. Short pieces are copied into chunks, long ones are referenced where
  they are.

  The memory is a function from addresses to bytes. The vector is its address, the entries from
  \<open>array\<close> to \<open>tail\<close> and the number of places from \<open>array\<close> to \<open>end\<close>. Chunks are those of the zones: a
  link and data. \<open>malloc\<close> is again an argument; \<open>realloc\<close> is an allocation that copies the entries.
\<close>

section \<open>Data\<close>

type_synonym memory = "u64 \<Rightarrow> u8"

record iovec =
  iov_base :: u64
  iov_len :: u64

record msgpack_vrefbuffer =
  vb_array :: u64
  vb_vec :: "iovec list"
  vb_places :: nat
  vb_chunk_size :: u64
  vb_ref_size :: u64
  ib_free :: u64
  ib_ptr :: u64
  ib_head :: "msgpack_zone_chunk list"

definition MSGPACK_PACKER_MAX_BUFFER_SIZE :: u64 where
  "MSGPACK_PACKER_MAX_BUFFER_SIZE = 9"

definition sizeof_iovec :: nat where
  "sizeof_iovec = 16"

definition memcpy_mem :: "memory \<Rightarrow> u64 \<Rightarrow> u64 \<Rightarrow> u64 \<Rightarrow> memory" where
  "memcpy_mem mem to from len = (\<lambda>a. if a - to < len then mem (from + (a - to)) else mem a)"

section \<open>Operations\<close>

definition msgpack_vrefbuffer_init ::
  "'h malloc_fn \<Rightarrow> 'h \<Rightarrow> u64 \<Rightarrow> u64 \<Rightarrow> (msgpack_vrefbuffer \<times> 'h) option" where
  "msgpack_vrefbuffer_init mal h ref_size chunk_size =
     (let ref = (if ref_size > MSGPACK_PACKER_MAX_BUFFER_SIZE + 1 then ref_size else MSGPACK_PACKER_MAX_BUFFER_SIZE + 1);
          nfirst = (if sizeof_iovec < 72 div 2 then 72 div sizeof_iovec else 8)
      in case mal h (of_nat (sizeof_iovec * nfirst)) of
           None \<Rightarrow> None
         | Some (array, h1) \<Rightarrow>
             (case mal h1 (sizeof_chunk + chunk_size) of
                None \<Rightarrow> None
              | Some (chunk, h2) \<Rightarrow>
                  Some (\<lparr>vb_array = array, vb_vec = [], vb_places = nfirst, vb_chunk_size = chunk_size, vb_ref_size = ref,
                         ib_free = chunk_size, ib_ptr = chunk + sizeof_chunk,
                         ib_head = [\<lparr>ck_addr = chunk, ck_data = chunk_size\<rparr>]\<rparr>, h2)))"

text \<open>The addresses that are freed: the chunks, then the vector.\<close>

definition msgpack_vrefbuffer_destroy :: "msgpack_vrefbuffer \<Rightarrow> u64 list" where
  "msgpack_vrefbuffer_destroy vbuf = destroy_chunks (ib_head vbuf) @ [vb_array vbuf]"

definition msgpack_vrefbuffer_clear :: "msgpack_vrefbuffer \<Rightarrow> (u64 list \<times> msgpack_vrefbuffer) option" where
  "msgpack_vrefbuffer_clear vbuf =
     (case ib_head vbuf of
        [] \<Rightarrow> None
      | chunk # c \<Rightarrow>
          Some (map ck_addr c,
                vbuf\<lparr>ib_head := [chunk], ib_free := vb_chunk_size vbuf, ib_ptr := ck_addr chunk + sizeof_chunk,
                     vb_vec := []\<rparr>))"

definition msgpack_vrefbuffer_append_ref ::
  "'h malloc_fn \<Rightarrow> 'h \<Rightarrow> msgpack_vrefbuffer \<Rightarrow> u64 \<Rightarrow> u64 \<Rightarrow> int \<times> msgpack_vrefbuffer \<times> 'h" where
  "msgpack_vrefbuffer_append_ref mal h vbuf buf len =
     (let store = (\<lambda>v. v\<lparr>vb_vec := vb_vec v @ [\<lparr>iov_base = buf, iov_len = len\<rparr>]\<rparr>)
      in if length (vb_vec vbuf) = vb_places vbuf then
           (let nnext = vb_places vbuf * 2
            in case mal h (of_nat (sizeof_iovec * nnext)) of
                 None \<Rightarrow> (- 1, vbuf, h)
               | Some (nvec, h') \<Rightarrow> (0, store (vbuf\<lparr>vb_array := nvec, vb_places := nnext\<rparr>), h'))
         else (0, store vbuf, h))"

text \<open>The second half of \<open>msgpack_vrefbuffer_append_copy\<close>, when there is room.\<close>

definition vref_copy ::
  "'h malloc_fn \<Rightarrow> 'h \<Rightarrow> memory \<Rightarrow> msgpack_vrefbuffer \<Rightarrow> u64 \<Rightarrow> u64 \<Rightarrow> int \<times> memory \<times> msgpack_vrefbuffer \<times> 'h" where
  "vref_copy mal h mem vbuf buf len =
     (let m = ib_ptr vbuf;
          mem' = memcpy_mem mem m buf len;
          v = vbuf\<lparr>ib_free := ib_free vbuf - len, ib_ptr := ib_ptr vbuf + len\<rparr>;
          prev = last (vb_vec vbuf)
      in if vb_vec vbuf \<noteq> [] \<and> m = iov_base prev + iov_len prev then
           (0, mem', v\<lparr>vb_vec := butlast (vb_vec vbuf) @ [prev\<lparr>iov_len := iov_len prev + len\<rparr>]\<rparr>, h)
         else (case msgpack_vrefbuffer_append_ref mal h v m len of (r, v', h') \<Rightarrow> (r, mem', v', h')))"

definition msgpack_vrefbuffer_append_copy ::
  "'h malloc_fn \<Rightarrow> 'h \<Rightarrow> memory \<Rightarrow> msgpack_vrefbuffer \<Rightarrow> u64 \<Rightarrow> u64 \<Rightarrow> int \<times> memory \<times> msgpack_vrefbuffer \<times> 'h" where
  "msgpack_vrefbuffer_append_copy mal h mem vbuf buf len =
     (if ib_free vbuf < len then
        (let sz = (if vb_chunk_size vbuf < len then len else vb_chunk_size vbuf)
         in case mal h (sizeof_chunk + sz) of
              None \<Rightarrow> (- 1, mem, vbuf, h)
            | Some (chunk, h1) \<Rightarrow>
                vref_copy mal h1 mem
                  (vbuf\<lparr>ib_head := \<lparr>ck_addr = chunk, ck_data = sz\<rparr> # ib_head vbuf, ib_free := sz,
                        ib_ptr := chunk + sizeof_chunk\<rparr>) buf len)
      else vref_copy mal h mem vbuf buf len)"

definition msgpack_vrefbuffer_write ::
  "'h malloc_fn \<Rightarrow> 'h \<Rightarrow> memory \<Rightarrow> msgpack_vrefbuffer \<Rightarrow> u64 \<Rightarrow> u64 \<Rightarrow> int \<times> memory \<times> msgpack_vrefbuffer \<times> 'h" where
  "msgpack_vrefbuffer_write mal h mem vbuf buf len =
     (if len < vb_ref_size vbuf then msgpack_vrefbuffer_append_copy mal h mem vbuf buf len
      else (case msgpack_vrefbuffer_append_ref mal h vbuf buf len of (r, v, h') \<Rightarrow> (r, mem, v, h')))"

definition msgpack_vrefbuffer_vec :: "msgpack_vrefbuffer \<Rightarrow> u64" where
  "msgpack_vrefbuffer_vec vref = vb_array vref"

definition msgpack_vrefbuffer_veclen :: "msgpack_vrefbuffer \<Rightarrow> nat" where
  "msgpack_vrefbuffer_veclen vref = length (vb_vec vref)"

text \<open>
  The comparison \<open>to->tail + nused < vbuf->end\<close> is on addresses in two different arrays; entries copied
  beyond the places of the target are a write outside the array, \<open>None\<close>. The result has the status, both
  buffers (source, target) and the heap. The loop that finds the number of places is that of the other buffers.
\<close>

definition iov_addr :: "u64 \<Rightarrow> nat \<Rightarrow> nat" where
  "iov_addr array n = unat array + sizeof_iovec * n"

text \<open>The target once the entries, the chunks and possibly the free memory have been handed over.\<close>

definition migrated :: "msgpack_vrefbuffer \<Rightarrow> msgpack_vrefbuffer \<Rightarrow> msgpack_vrefbuffer" where
  "migrated v t =
     (let t1 = t\<lparr>vb_vec := vb_vec t @ vb_vec v, ib_head := ib_head v @ ib_head t\<rparr>
      in if ib_free t < ib_free v then t1\<lparr>ib_free := ib_free v, ib_ptr := ib_ptr v\<rparr> else t1)"

definition msgpack_vrefbuffer_migrate ::
  "'h malloc_fn \<Rightarrow> 'h \<Rightarrow> msgpack_vrefbuffer \<Rightarrow> msgpack_vrefbuffer \<Rightarrow>
   (int \<times> msgpack_vrefbuffer \<times> msgpack_vrefbuffer \<times> 'h) option" where
  "msgpack_vrefbuffer_migrate mal h vbuf to =
     (let sz = vb_chunk_size vbuf
      in case mal h (sizeof_chunk + sz) of
           None \<Rightarrow> Some (- 1, vbuf, to, h)
         | Some (chunk, h1) \<Rightarrow>
             (let nused = length (vb_vec vbuf);
                  tosize = length (vb_vec to);
                  move = (\<lambda>t h2.
                    if tosize + nused > vb_places t then None
                    else Some (0,
                      vbuf\<lparr>vb_vec := [], ib_head := [\<lparr>ck_addr = chunk, ck_data = sz\<rparr>], ib_free := sz, ib_ptr := chunk + sizeof_chunk\<rparr>,
                      migrated vbuf t, h2))
              in if iov_addr (vb_array to) (tosize + nused) < iov_addr (vb_array vbuf) (vb_places vbuf) then
                   (let nnext = unat (grow_size (of_nat (vb_places to * 2)) (of_nat (nused + tosize)))
                    in case mal h1 (of_nat (sizeof_iovec * nnext)) of
                         None \<Rightarrow> Some (- 1, vbuf, to, h1)
                       | Some (nvec, h2) \<Rightarrow> move (to\<lparr>vb_array := nvec, vb_places := nnext\<rparr>) h2)
                 else move to h1))"

section \<open>Contents\<close>

definition read_bytes :: "memory \<Rightarrow> u64 \<Rightarrow> nat \<Rightarrow> bytes" where
  "read_bytes mem a n = map (\<lambda>i. mem (a + of_nat i)) [0..<n]"

definition iov_bytes :: "memory \<Rightarrow> iovec \<Rightarrow> bytes" where
  "iov_bytes mem v = read_bytes mem (iov_base v) (unat (iov_len v))"

definition vb_content :: "memory \<Rightarrow> msgpack_vrefbuffer \<Rightarrow> bytes" where
  "vb_content mem vbuf = concat (map (iov_bytes mem) (vb_vec vbuf))"

definition iov_span :: "iovec \<Rightarrow> nat set" where
  "iov_span v = span (iov_base v) (unat (iov_len v))"

definition iov_ok :: "iovec \<Rightarrow> bool" where
  "iov_ok v \<longleftrightarrow> unat (iov_base v) + unat (iov_len v) < 2 ^ 64"

definition free_span :: "msgpack_vrefbuffer \<Rightarrow> nat set" where
  "free_span vbuf = span (ib_ptr vbuf) (unat (ib_free vbuf))"

text \<open>
  The free memory lies in one of the chunks, every chunk has at least the standard size, and no entry
  of the vector points into the free memory.
\<close>

definition store_inv :: "nat set \<Rightarrow> msgpack_vrefbuffer \<Rightarrow> bool" where
  "store_inv l vbuf \<longleftrightarrow>
     ib_head vbuf \<noteq> [] \<and> list_all chunk_ok (ib_head vbuf) \<and>
     (\<forall>c \<in> set (ib_head vbuf). chunk_span c \<subseteq> l \<and> unat (vb_chunk_size vbuf) \<le> unat (ck_data c)) \<and>
     (\<exists>c \<in> set (ib_head vbuf). free_span vbuf \<subseteq> data_span c) \<and> unat (ib_ptr vbuf) + unat (ib_free vbuf) < 2 ^ 64 \<and>
     unat (vb_chunk_size vbuf) < 2 ^ 62 \<and> 10 \<le> unat (vb_ref_size vbuf)"

definition vec_inv :: "nat set \<Rightarrow> nat set \<Rightarrow> iovec list \<Rightarrow> bool" where
  "vec_inv l fs vs \<longleftrightarrow> (\<forall>v \<in> set vs. iov_ok v \<and> iov_span v \<subseteq> l \<and> iov_span v \<inter> fs = {})"

definition vb_inv :: "nat set \<Rightarrow> msgpack_vrefbuffer \<Rightarrow> bool" where
  "vb_inv l vbuf \<longleftrightarrow> store_inv l vbuf \<and> vec_inv l (free_span vbuf) (vb_vec vbuf) \<and>
     length (vb_vec vbuf) \<le> vb_places vbuf \<and> 0 < vb_places vbuf"

lemma vec_inv_simps [simp]:
  "vec_inv l fs []" "vec_inv l fs (v # vs) \<longleftrightarrow> iov_ok v \<and> iov_span v \<subseteq> l \<and> iov_span v \<inter> fs = {} \<and> vec_inv l fs vs"
  "vec_inv l fs (vs @ ws) \<longleftrightarrow> vec_inv l fs vs \<and> vec_inv l fs ws"
  by (auto simp: vec_inv_def)

lemma vec_inv_mono: "vec_inv l fs vs \<Longrightarrow> l \<subseteq> l' \<Longrightarrow> fs' \<subseteq> fs \<Longrightarrow> vec_inv l' fs' vs"
  by (fastforce simp: vec_inv_def)

lemma store_inv_mono: "store_inv l v \<Longrightarrow> l \<subseteq> l' \<Longrightarrow> store_inv l' v"
  by (auto simp: store_inv_def)

lemma store_inv_vec [simp]:
  "store_inv l (v\<lparr>vb_vec := vs\<rparr>) = store_inv l v" "store_inv l (v\<lparr>vb_places := n\<rparr>) = store_inv l v"
  "store_inv l (v\<lparr>vb_array := a\<rparr>) = store_inv l v"
  "free_span (v\<lparr>vb_vec := vs\<rparr>) = free_span v" "free_span (v\<lparr>vb_places := n\<rparr>) = free_span v"
  "free_span (v\<lparr>vb_array := a\<rparr>) = free_span v"
  by (simp_all add: store_inv_def free_span_def)

lemma malloc_live: "malloc_law mal live \<Longrightarrow> mal h n = Some (a, h') \<Longrightarrow> live h \<subseteq> live h'"
  unfolding malloc_law_def by blast

section \<open>Reading memory after a copy\<close>

lemma unat_offset: "unat (a :: u64) + i < 2 ^ 64 \<Longrightarrow> unat (a + of_nat i) = unat a + i"
  by (simp add: unat_word_ariths unat_of_nat_small)

lemma read_copied: "read_bytes (memcpy_mem mem m buf len) m (unat len) = read_bytes mem buf (unat len)"
proof -
  have "(of_nat i :: u64) < len" if "i < unat len" for i
    using that unat_lt_exp [of len] by (simp add: word_less_nat_alt unat_of_nat_small)
  then show ?thesis by (simp add: read_bytes_def memcpy_mem_def)
qed

lemma outside_copy:
  assumes "unat (x :: u64) \<notin> span m (unat len)" and "unat m + unat len < 2 ^ 64"
  shows "\<not> x - m < len"
proof (cases "unat m \<le> unat x")
  case True
  then have "unat (x - m) = unat x - unat m" by (simp add: unat_sub word_le_nat_alt)
  with True assms(1) show ?thesis by (auto simp: span_def word_less_nat_alt)
next
  case False
  then have "unat (x - m) = unat x + 2 ^ 64 - unat m" by (simp add: unat_sub_if' unat_word_ariths)
  with False assms(2) show ?thesis by (simp add: word_less_nat_alt)
qed

lemma read_elsewhere:
  assumes "span a n \<inter> span m (unat len) = {}" and "unat a + n < 2 ^ 64" and "unat m + unat len < 2 ^ 64"
  shows "read_bytes (memcpy_mem mem m buf len) a n = read_bytes mem a n"
proof -
  have "\<not> a + of_nat i - m < len" if "i < n" for i
  proof (rule outside_copy [OF _ assms(3)])
    have "unat (a + of_nat i) = unat a + i" using that assms(2) by (intro unat_offset) simp
    then show "unat (a + of_nat i) \<notin> span m (unat len)" using that assms(1) by (auto simp: span_def)
  qed
  then show ?thesis by (simp add: read_bytes_def memcpy_mem_def)
qed

lemma read_append: "read_bytes mem a (k + n) = read_bytes mem a k @ read_bytes mem (a + of_nat k) n"
  by (induction n) (simp_all add: read_bytes_def add.assoc)

lemma content_elsewhere:
  assumes "\<forall>v \<in> set vs. iov_ok v \<and> iov_span v \<inter> span m (unat len) = {}" and "unat m + unat len < 2 ^ 64"
  shows "concat (map (iov_bytes (memcpy_mem mem m buf len)) vs) = concat (map (iov_bytes mem) vs)"
  using assms by (induction vs) (auto simp: iov_bytes_def iov_ok_def iov_span_def read_elsewhere)

section \<open>Writing\<close>

lemma span_free:
  assumes "unat len \<le> unat (ib_free v)" and "unat (ib_ptr v) + unat (ib_free v) < 2 ^ 64"
  defines "v1 \<equiv> v\<lparr>ib_free := ib_free v - len, ib_ptr := ib_ptr v + len\<rparr>"
  shows "span (ib_ptr v) (unat len) \<subseteq> free_span v" "free_span v1 \<subseteq> free_span v"
    "span (ib_ptr v) (unat len) \<inter> free_span v1 = {}" "unat (ib_ptr v1) + unat (ib_free v1) < 2 ^ 64"
proof -
  have "unat (ib_ptr v + len) = unat (ib_ptr v) + unat len" using assms by (simp add: unat_word_ariths)
  moreover have "unat (ib_free v - len) = unat (ib_free v) - unat len" using assms by (simp add: unat_sub word_le_nat_alt)
  ultimately show "span (ib_ptr v) (unat len) \<subseteq> free_span v" "free_span v1 \<subseteq> free_span v"
    "span (ib_ptr v) (unat len) \<inter> free_span v1 = {}" "unat (ib_ptr v1) + unat (ib_free v1) < 2 ^ 64"
    using assms by (auto simp: span_def free_span_def)
qed

lemma append_ref_effect:
  assumes "malloc_law mal live" and "vb_inv (live h) v" and "iov_ok \<lparr>iov_base = buf, iov_len = len\<rparr>"
    and "span buf (unat len) \<subseteq> live h" and "span buf (unat len) \<inter> free_span v = {}"
    and "msgpack_vrefbuffer_append_ref mal h v buf len = (r, v', h')"
  shows "vb_inv (live h') v' \<and>
    (r = 0 \<and> vb_vec v' = vb_vec v @ [\<lparr>iov_base = buf, iov_len = len\<rparr>] \<or> r = - 1 \<and> vb_vec v' = vb_vec v)"
proof -
  have new: "vec_inv (live h) (free_span v) (vb_vec v @ [\<lparr>iov_base = buf, iov_len = len\<rparr>])"
    using assms(2-5) by (simp add: vb_inv_def iov_span_def)
  show ?thesis
  proof (cases "length (vb_vec v) = vb_places v")
    case False
    with assms(2,6) new show ?thesis by (auto simp: msgpack_vrefbuffer_append_ref_def vb_inv_def)
  next
    case True
    show ?thesis
    proof (cases "mal h (of_nat (sizeof_iovec * (vb_places v * 2)))")
      case None
      with True assms(2,6) show ?thesis by (auto simp: msgpack_vrefbuffer_append_ref_def Let_def)
    next
      case (Some p)
      then obtain nvec h1 where run: "mal h (of_nat (sizeof_iovec * (vb_places v * 2))) = Some (nvec, h1)" by (cases p) auto
      have l: "live h \<subseteq> live h1" using malloc_live [OF assms(1) run] .
      have "h' = h1" "r = 0" "v' = v\<lparr>vb_array := nvec, vb_places := vb_places v * 2, vb_vec := vb_vec v @ [\<lparr>iov_base = buf, iov_len = len\<rparr>]\<rparr>"
        using assms(6) True run by (auto simp: msgpack_vrefbuffer_append_ref_def Let_def)
      with vec_inv_mono [OF new l order_refl] store_inv_mono [OF _ l, of v] True assms(2) show ?thesis
        by (simp add: vb_inv_def)
    qed
  qed
qed

text \<open>What a write achieves: the bytes are appended, or the contents are as before.\<close>

definition appends ::
  "('h \<Rightarrow> nat set) \<Rightarrow> memory \<Rightarrow> msgpack_vrefbuffer \<Rightarrow> bytes \<Rightarrow> int \<times> memory \<times> msgpack_vrefbuffer \<times> 'h \<Rightarrow> bool" where
  "appends live mem v bs out \<longleftrightarrow> (case out of (r, mem', v', h') \<Rightarrow> vb_inv (live h') v' \<and>
     (r = 0 \<and> vb_content mem' v' = vb_content mem v @ bs \<or> r = - 1 \<and> vb_content mem' v' = vb_content mem v))"

lemma copy_appends:
  assumes law: "malloc_law mal live" and inv: "vb_inv (live h) v" and room: "unat len \<le> unat (ib_free v)"
  shows "appends live mem v (read_bytes mem buf (unat len)) (vref_copy mal h mem v buf len)"
proof -
  let ?m = "ib_ptr v" and ?v1 = "v\<lparr>ib_free := ib_free v - len, ib_ptr := ib_ptr v + len\<rparr>"
  let ?mem = "memcpy_mem mem ?m buf len"
  have st: "store_inv (live h) v" and vec: "vec_inv (live h) (free_span v) (vb_vec v)"
    and top: "unat ?m + unat (ib_free v) < 2 ^ 64" using inv by (auto simp: vb_inv_def store_inv_def)
  note sp = span_free [OF room top]
  have m: "unat ?m + unat len < 2 ^ 64" using room top by simp
  obtain c where c: "c \<in> set (ib_head v)" "free_span v \<subseteq> data_span c" "chunk_span c \<subseteq> live h"
    using st by (auto simp: store_inv_def)
  then have live: "free_span v \<subseteq> live h" using data_chunk [of c] by blast
  have "\<exists>c \<in> set (ib_head v). free_span ?v1 \<subseteq> data_span c" using c sp(2) by blast
  with st sp(4) have st1: "store_inv (live h) ?v1" unfolding store_inv_def by simp
  have vec1: "vec_inv (live h) (free_span ?v1) (vb_vec v)" using vec_inv_mono [OF vec order_refl sp(2)] .
  have old: "\<forall>w \<in> set (vb_vec v). iov_ok w \<and> iov_span w \<inter> span ?m (unat len) = {}"
    using vec sp(1) by (auto simp: vec_inv_def)
  note keep = content_elsewhere [OF _ m, of _ mem buf]
  show ?thesis
  proof (cases "vb_vec v \<noteq> [] \<and> ?m = iov_base (last (vb_vec v)) + iov_len (last (vb_vec v))")
    case True
    then obtain ws w where ws: "vb_vec v = ws @ [w]" by (metis append_butlast_last_id)
    let ?w = "w\<lparr>iov_len := iov_len w + len\<rparr>"
    have w: "iov_ok w" "iov_span w \<subseteq> live h" "iov_span w \<inter> free_span v = {}" using vec ws by auto
    have mw: "unat ?m = unat (iov_base w) + unat (iov_len w)"
      using True ws w(1) by (simp add: iov_ok_def unat_word_ariths)
    have lw: "unat (iov_len w + len) = unat (iov_len w) + unat len" using mw m by (simp add: unat_word_ariths)
    have "iov_span ?w = iov_span w \<union> span ?m (unat len)" using mw lw by (auto simp: iov_span_def span_def)
    then have "iov_ok ?w" "iov_span ?w \<subseteq> live h" "iov_span ?w \<inter> free_span ?v1 = {}"
      using w sp live mw lw m by (auto simp: iov_ok_def)
    then have inv': "vb_inv (live h) (?v1\<lparr>vb_vec := ws @ [?w]\<rparr>)"
      using inv st1 vec1 ws by (simp add: vb_inv_def)
    have "iov_bytes ?mem ?w = iov_bytes ?mem w @ read_bytes ?mem (iov_base w + of_nat (unat (iov_len w))) (unat len)"
      by (simp add: iov_bytes_def lw read_append)
    also have "iov_base w + of_nat (unat (iov_len w)) = ?m" using True ws by simp
    finally have "iov_bytes ?mem ?w = iov_bytes mem w @ read_bytes mem buf (unat len)"
      using keep [of "[w]"] old ws by (simp add: read_copied)
    moreover have "concat (map (iov_bytes ?mem) ws) = concat (map (iov_bytes mem) ws)" using keep [of ws] old ws by simp
    ultimately have "vb_content ?mem (?v1\<lparr>vb_vec := ws @ [?w]\<rparr>) = vb_content mem v @ read_bytes mem buf (unat len)"
      by (simp add: vb_content_def ws)
    with True inv' ws show ?thesis by (simp add: vref_copy_def Let_def appends_def)
  next
    case False
    obtain r v' h' where run: "msgpack_vrefbuffer_append_ref mal h ?v1 ?m len = (r, v', h')" by (metis prod_cases3)
    have inv1: "vb_inv (live h) ?v1" using inv st1 vec1 by (simp add: vb_inv_def)
    have "vb_inv (live h') v' \<and> (r = 0 \<and> vb_vec v' = vb_vec v @ [\<lparr>iov_base = ?m, iov_len = len\<rparr>] \<or> r = - 1 \<and> vb_vec v' = vb_vec v)"
      using append_ref_effect [OF law inv1 _ _ sp(3) run] m sp(1) live by (auto simp: iov_ok_def)
    with False run keep [OF old] show ?thesis
      by (auto simp: vref_copy_def Let_def appends_def vb_content_def iov_bytes_def read_copied)
  qed
qed

lemma new_chunk_inv:
  assumes law: "malloc_law mal live" and inv: "vb_inv (live h) v" and run: "mal h (sizeof_chunk + sz) = Some (chunk, h1)"
    and sz: "unat sz < 2 ^ 63" "unat (vb_chunk_size v) \<le> unat sz"
  shows "vb_inv (live h1) (v\<lparr>ib_head := \<lparr>ck_addr = chunk, ck_data = sz\<rparr> # ib_head v, ib_free := sz, ib_ptr := chunk + sizeof_chunk\<rparr>)"
    (is "vb_inv _ ?v")
proof -
  note c = malloc_chunk [OF law run sz(1)]
  let ?c = "\<lparr>ck_addr = chunk, ck_data = sz\<rparr>"
  have free: "free_span ?v = data_span ?c" using c(4) by (simp add: free_span_def data_span_def span_def)
  have l: "live h \<subseteq> live h1" "chunk_span ?c \<subseteq> live h1" using c(3) by auto
  have top: "unat (chunk + sizeof_chunk) + unat sz < 2 ^ 64" using c(1,4) by (simp add: chunk_ok_def)
  have "store_inv (live h1) ?v"
    using inv c(1) l sz free top by (fastforce simp: vb_inv_def store_inv_def)
  moreover have "vec_inv (live h1) (free_span ?v) (vb_vec v)"
    using inv c(2) l(1) data_chunk [of ?c] free by (fastforce simp: vb_inv_def vec_inv_def)
  ultimately show ?thesis using inv by (simp add: vb_inv_def)
qed

lemma vb_inv_mono: "vb_inv l v \<Longrightarrow> l \<subseteq> l' \<Longrightarrow> vb_inv l' v"
  using store_inv_mono vec_inv_mono unfolding vb_inv_def by blast

lemma new_chunk_inv_only:
  assumes "malloc_law mal live" and "vb_inv (live h) v" and "mal h (sizeof_chunk + vb_chunk_size v) = Some (chunk, h1)"
  shows "vb_inv (live h1) (v\<lparr>vb_vec := [], ib_head := [\<lparr>ck_addr = chunk, ck_data = vb_chunk_size v\<rparr>],
           ib_free := vb_chunk_size v, ib_ptr := chunk + sizeof_chunk\<rparr>)" (is "vb_inv _ ?v")
proof -
  have "unat (vb_chunk_size v) < 2 ^ 63" using assms(2) by (simp add: vb_inv_def store_inv_def)
  note c = malloc_chunk [OF assms(1,3) this]
  let ?c = "\<lparr>ck_addr = chunk, ck_data = vb_chunk_size v\<rparr>"
  have "free_span ?v = data_span ?c" using c(4) by (simp add: free_span_def data_span_def span_def)
  moreover have "unat (chunk + sizeof_chunk) + unat (vb_chunk_size v) < 2 ^ 64" using c(1,4) by (simp add: chunk_ok_def)
  ultimately show ?thesis using assms(2) c(1,3) by (auto simp: vb_inv_def store_inv_def)
qed

lemma append_copy_appends:
  assumes law: "malloc_law mal live" and inv: "vb_inv (live h) v" and len: "unat len < 2 ^ 62"
  shows "appends live mem v (read_bytes mem buf (unat len)) (msgpack_vrefbuffer_append_copy mal h mem v buf len)"
proof (cases "ib_free v < len")
  case False
  then show ?thesis
    using copy_appends [OF law inv, of len mem buf] by (simp add: msgpack_vrefbuffer_append_copy_def word_less_nat_alt)
next
  case True
  let ?sz = "if vb_chunk_size v < len then len else vb_chunk_size v"
  have sz: "unat ?sz < 2 ^ 63" "unat (vb_chunk_size v) \<le> unat ?sz" "unat len \<le> unat ?sz"
    using len inv by (auto simp: vb_inv_def store_inv_def word_less_nat_alt)
  show ?thesis
  proof (cases "mal h (sizeof_chunk + ?sz)")
    case None
    with True inv show ?thesis by (simp add: msgpack_vrefbuffer_append_copy_def Let_def appends_def)
  next
    case (Some p)
    then obtain chunk h1 where run: "mal h (sizeof_chunk + ?sz) = Some (chunk, h1)" by (cases p) auto
    let ?v = "v\<lparr>ib_head := \<lparr>ck_addr = chunk, ck_data = ?sz\<rparr> # ib_head v, ib_free := ?sz, ib_ptr := chunk + sizeof_chunk\<rparr>"
    have "appends live mem ?v (read_bytes mem buf (unat len)) (vref_copy mal h1 mem ?v buf len)"
      using copy_appends [OF law new_chunk_inv [OF law inv run sz(1,2)]] sz(3) by simp
    moreover have "vb_content mem ?v = vb_content mem v" by (simp add: vb_content_def)
    ultimately show ?thesis
      using True run by (simp add: msgpack_vrefbuffer_append_copy_def Let_def appends_def)
  qed
qed

lemma write_appends:
  assumes law: "malloc_law mal live" and inv: "vb_inv (live h) v" and len: "unat len < 2 ^ 62"
    and src: "unat buf + unat len < 2 ^ 64" "span buf (unat len) \<subseteq> live h" "span buf (unat len) \<inter> free_span v = {}"
  shows "appends live mem v (read_bytes mem buf (unat len)) (msgpack_vrefbuffer_write mal h mem v buf len)"
proof (cases "len < vb_ref_size v")
  case True
  then show ?thesis using append_copy_appends [OF law inv len] by (simp add: msgpack_vrefbuffer_write_def)
next
  case False
  obtain r v' h' where run: "msgpack_vrefbuffer_append_ref mal h v buf len = (r, v', h')" by (metis prod_cases3)
  have "iov_ok \<lparr>iov_base = buf, iov_len = len\<rparr>" using src(1) by (simp add: iov_ok_def)
  from append_ref_effect [OF law inv this src(2,3) run] False run show ?thesis
    by (auto simp: msgpack_vrefbuffer_write_def appends_def vb_content_def iov_bytes_def)
qed

lemma init_inv:
  assumes law: "malloc_law mal live" and cs: "unat chunk_size < 2 ^ 62"
    and run: "msgpack_vrefbuffer_init mal h ref_size chunk_size = Some (v, h')"
  shows "vb_inv (live h') v" and "vb_vec v = []"
proof -
  obtain array h1 chunk where al: "mal h (of_nat (sizeof_iovec * 4)) = Some (array, h1)"
      "mal h1 (sizeof_chunk + chunk_size) = Some (chunk, h')"
    and v: "v = \<lparr>vb_array = array, vb_vec = [], vb_places = 4, vb_chunk_size = chunk_size,
       vb_ref_size = (if ref_size > MSGPACK_PACKER_MAX_BUFFER_SIZE + 1 then ref_size else MSGPACK_PACKER_MAX_BUFFER_SIZE + 1),
       ib_free = chunk_size, ib_ptr = chunk + sizeof_chunk, ib_head = [\<lparr>ck_addr = chunk, ck_data = chunk_size\<rparr>]\<rparr>"
    using run by (auto simp: msgpack_vrefbuffer_init_def Let_def sizeof_iovec_def split: option.splits)
  have "unat chunk_size < 2 ^ 63" using cs by simp
  note c = malloc_chunk [OF law al(2) this]
  let ?c = "\<lparr>ck_addr = chunk, ck_data = chunk_size\<rparr>"
  have "free_span v = data_span ?c" using c(4) by (simp add: v free_span_def data_span_def span_def)
  moreover have "unat (chunk + sizeof_chunk) + unat chunk_size < 2 ^ 64" using c(1,4) by (simp add: chunk_ok_def)
  moreover have "10 \<le> unat (vb_ref_size v)"
    by (simp add: v MSGPACK_PACKER_MAX_BUFFER_SIZE_def word_less_nat_alt)
  ultimately show "vb_inv (live h') v" using c(1,3) cs by (auto simp: vb_inv_def store_inv_def v)
  show "vb_vec v = []" by (simp add: v)
qed

section \<open>Sequences of writes\<close>

text \<open>\<open>base\<close> is memory the buffer does not own: where the referenced pieces are.\<close>

definition apart :: "nat set \<Rightarrow> msgpack_vrefbuffer \<Rightarrow> bool" where
  "apart base v \<longleftrightarrow> (\<forall>c \<in> set (ib_head v). chunk_span c \<inter> base = {})"

definition agree_on :: "nat set \<Rightarrow> memory \<Rightarrow> memory \<Rightarrow> bool" where
  "agree_on base mem mem' \<longleftrightarrow> (\<forall>a. unat a \<in> base \<longrightarrow> mem' a = mem a)"

lemma agree_refl [simp]: "agree_on base mem mem"
  by (simp add: agree_on_def)

lemma agree_trans: "agree_on base m1 m2 \<Longrightarrow> agree_on base m2 m3 \<Longrightarrow> agree_on base m1 m3"
  by (simp add: agree_on_def)

lemma agree_read:
  assumes "agree_on base mem mem'" and "span a n \<subseteq> base" and "unat a + n < 2 ^ 64"
  shows "read_bytes mem' a n = read_bytes mem a n"
proof -
  have "unat (a + of_nat i) \<in> base" if "i < n" for i
    using that assms(2,3) by (auto simp: unat_offset span_def)
  then show ?thesis using assms(1) by (simp add: agree_on_def read_bytes_def)
qed

lemma apart_free: "store_inv l v \<Longrightarrow> apart base v \<Longrightarrow> free_span v \<inter> base = {}"
  using data_chunk unfolding store_inv_def apart_def by blast

lemma init_apart:
  assumes law: "malloc_law mal live" and cs: "unat chunk_size < 2 ^ 62"
    and run: "msgpack_vrefbuffer_init mal h ref_size chunk_size = Some (v, h')"
  shows "apart (live h) v \<and> live h \<subseteq> live h'"
proof -
  obtain array h1 chunk where al: "mal h (of_nat (sizeof_iovec * 4)) = Some (array, h1)"
      "mal h1 (sizeof_chunk + chunk_size) = Some (chunk, h')" "ib_head v = [\<lparr>ck_addr = chunk, ck_data = chunk_size\<rparr>]"
    using run by (auto simp: msgpack_vrefbuffer_init_def Let_def sizeof_iovec_def split: option.splits)
  have "unat chunk_size < 2 ^ 63" using cs by simp
  with malloc_chunk(2,3) [OF law al(2)] malloc_live [OF law al(1)] al(3) show ?thesis by (auto simp: apart_def)
qed

lemma copy_agree:
  assumes "store_inv l v" and "apart base v" and "unat len \<le> unat (ib_free v)"
  shows "agree_on base mem (memcpy_mem mem (ib_ptr v) buf len)"
proof -
  have top: "unat (ib_ptr v) + unat (ib_free v) < 2 ^ 64" using assms(1) by (simp add: store_inv_def)
  have "\<not> a - ib_ptr v < len" if "unat a \<in> base" for a
    using that apart_free [OF assms(1,2)] span_free(1) [OF assms(3) top] assms(3) top by (intro outside_copy) auto
  then show ?thesis by (simp add: agree_on_def memcpy_mem_def)
qed

lemma append_ref_head:
  assumes "msgpack_vrefbuffer_append_ref mal h v buf len = (r, v', h')"
  shows "ib_head v' = ib_head v" "malloc_law mal live \<Longrightarrow> live h \<subseteq> live h'"
  using assms by (auto simp: msgpack_vrefbuffer_append_ref_def Let_def split: if_splits option.splits dest: malloc_live)

definition frames :: "('h \<Rightarrow> nat set) \<Rightarrow> nat set \<Rightarrow> 'h \<Rightarrow> memory \<Rightarrow> int \<times> memory \<times> msgpack_vrefbuffer \<times> 'h \<Rightarrow> bool" where
  "frames live base h mem out \<longleftrightarrow>
     (case out of (r, mem', v', h') \<Rightarrow> apart base v' \<and> agree_on base mem mem' \<and> live h \<subseteq> live h')"

lemma copy_frames:
  assumes "malloc_law mal live" and "store_inv l v" and "apart base v" and "unat len \<le> unat (ib_free v)"
  shows "frames live base h mem (vref_copy mal h mem v buf len)"
  using copy_agree [OF assms(2-4), of mem buf] append_ref_head(1) append_ref_head(2) [OF _ assms(1)] assms(3)
  by (fastforce simp: vref_copy_def Let_def frames_def apart_def split: prod.split)

lemma append_copy_frames:
  assumes law: "malloc_law mal live" and inv: "vb_inv (live h) v" and ap: "apart base v" "base \<subseteq> live h"
    and len: "unat len < 2 ^ 62"
  shows "frames live base h mem (msgpack_vrefbuffer_append_copy mal h mem v buf len)"
proof (cases "ib_free v < len")
  case False
  then show ?thesis
    using copy_frames [OF law _ ap(1), of "live h" len h mem buf] inv by (simp add: msgpack_vrefbuffer_append_copy_def vb_inv_def word_less_nat_alt)
next
  case True
  let ?sz = "if vb_chunk_size v < len then len else vb_chunk_size v"
  have sz: "unat ?sz < 2 ^ 63" "unat (vb_chunk_size v) \<le> unat ?sz" "unat len \<le> unat ?sz"
    using len inv by (auto simp: vb_inv_def store_inv_def word_less_nat_alt)
  show ?thesis
  proof (cases "mal h (sizeof_chunk + ?sz)")
    case None
    with True ap show ?thesis by (simp add: msgpack_vrefbuffer_append_copy_def Let_def frames_def)
  next
    case (Some p)
    then obtain chunk h1 where run: "mal h (sizeof_chunk + ?sz) = Some (chunk, h1)" by (cases p) auto
    let ?v = "v\<lparr>ib_head := \<lparr>ck_addr = chunk, ck_data = ?sz\<rparr> # ib_head v, ib_free := ?sz, ib_ptr := chunk + sizeof_chunk\<rparr>"
    have st: "store_inv (live h1) ?v" using new_chunk_inv [OF law inv run sz(1,2)] by (simp add: vb_inv_def)
    have "apart base ?v" using ap malloc_chunk(2) [OF law run sz(1)] by (auto simp: apart_def)
    from copy_frames [OF law st this, of len h1 mem buf] sz(3)
    have "frames live base h1 mem (vref_copy mal h1 mem ?v buf len)" by simp
    then show ?thesis
      using True run malloc_live [OF law run] by (auto simp: msgpack_vrefbuffer_append_copy_def Let_def frames_def split: prod.splits)
  qed
qed

lemma write_frames:
  assumes law: "malloc_law mal live" and inv: "vb_inv (live h) v" and ap: "apart base v" "base \<subseteq> live h"
    and len: "unat len < 2 ^ 62"
  shows "frames live base h mem (msgpack_vrefbuffer_write mal h mem v buf len)"
  using append_copy_frames [OF assms, of mem buf] append_ref_head(1) append_ref_head(2) [OF _ law] ap(1)
  by (fastforce simp: msgpack_vrefbuffer_write_def frames_def apart_def split: prod.split)

fun write_all :: "'h malloc_fn \<Rightarrow> 'h \<Rightarrow> memory \<Rightarrow> msgpack_vrefbuffer \<Rightarrow> (u64 \<times> u64) list \<Rightarrow>
    bool \<times> memory \<times> msgpack_vrefbuffer \<times> 'h" where
  "write_all mal h mem v [] = (True, mem, v, h)"
| "write_all mal h mem v ((buf, len) # ps) =
     (case msgpack_vrefbuffer_write mal h mem v buf len of
        (r, mem', v', h') \<Rightarrow> if r = 0 then write_all mal h' mem' v' ps else (False, mem', v', h'))"

definition piece_ok :: "nat set \<Rightarrow> u64 \<times> u64 \<Rightarrow> bool" where
  "piece_ok base p \<longleftrightarrow> unat (snd p) < 2 ^ 62 \<and> unat (fst p) + unat (snd p) < 2 ^ 64 \<and> span (fst p) (unat (snd p)) \<subseteq> base"

definition pieces :: "memory \<Rightarrow> (u64 \<times> u64) list \<Rightarrow> bytes" where
  "pieces mem ps = concat (map (\<lambda>(buf, len). read_bytes mem buf (unat len)) ps)"

lemma pieces_simps [simp]: "pieces mem [] = []" "pieces mem ((buf, len) # ps) = read_bytes mem buf (unat len) @ pieces mem ps"
  by (simp_all add: pieces_def)

lemma pieces_agree: "agree_on base mem mem' \<Longrightarrow> list_all (piece_ok base) ps \<Longrightarrow> pieces mem' ps = pieces mem ps"
  by (induction ps) (auto simp: agree_read piece_ok_def)

lemma take_agree: "list_all P xs \<Longrightarrow> list_all P (take k xs)"
  by (meson in_set_takeD list_all_iff)

lemma write_all_content:
  assumes "malloc_law mal live" and "vb_inv (live h) v" and "apart base v" "base \<subseteq> live h" and "list_all (piece_ok base) ps"
    and "write_all mal h mem v ps = (ok, mem', v', h')"
  shows "vb_inv (live h') v' \<and>
    (\<exists>k \<le> length ps. vb_content mem' v' = vb_content mem v @ pieces mem (take k ps) \<and> (ok \<longrightarrow> k = length ps))"
  using assms(2-)
proof (induction ps arbitrary: h mem v)
  case Nil
  then show ?case by auto
next
  case (Cons p ps)
  obtain buf len where p: "p = (buf, len)" by (cases p)
  obtain r mem1 v1 h1 where run: "msgpack_vrefbuffer_write mal h mem v buf len = (r, mem1, v1, h1)" by (metis prod_cases4)
  have pc: "unat len < 2 ^ 62" "unat buf + unat len < 2 ^ 64" "span buf (unat len) \<subseteq> base"
    using Cons.prems(4) by (auto simp: p piece_ok_def)
  have "span buf (unat len) \<inter> free_span v = {}"
    using pc(3) apart_free Cons.prems(1,2) by (fastforce simp: vb_inv_def)
  from write_appends [OF assms(1) Cons.prems(1) pc(1,2) _ this, of mem] pc(3) Cons.prems(3) run
  have a: "vb_inv (live h1) v1" "r = 0 \<and> vb_content mem1 v1 = vb_content mem v @ read_bytes mem buf (unat len) \<or>
      r = - 1 \<and> vb_content mem1 v1 = vb_content mem v"
    by (auto simp: appends_def)
  from write_frames [OF assms(1) Cons.prems(1-3) pc(1), of mem buf] run
  have f: "apart base v1" "agree_on base mem mem1" "base \<subseteq> live h1" using Cons.prems(3) by (auto simp: frames_def)
  show ?case
  proof (cases "r = 0")
    case False
    with a Cons.prems(5) p run show ?thesis by (intro conjI exI [of _ 0]) auto
  next
    case True
    with Cons.prems(4,5) p run have ps: "list_all (piece_ok base) ps" "write_all mal h1 mem1 v1 ps = (ok, mem', v', h')" by auto
    from Cons.IH [OF a(1) f(1,3) this] obtain k where k: "vb_inv (live h') v'" "k \<le> length ps"
      "vb_content mem' v' = vb_content mem1 v1 @ pieces mem1 (take k ps)" "ok \<longrightarrow> k = length ps" by blast
    have "pieces mem1 (take k ps) = pieces mem (take k ps)" using pieces_agree [OF f(2) take_agree [OF ps(1)]] .
    with k a(2) True p show ?thesis by (intro conjI exI [of _ "Suc k"]) auto
  qed
qed


lemmas vref_eval = msgpack_vrefbuffer_write_def msgpack_vrefbuffer_append_copy_def msgpack_vrefbuffer_append_ref_def
  vref_copy_def bump_malloc_def sizeof_iovec_def sizeof_chunk_def Let_def

definition witness_vref :: msgpack_vrefbuffer where
  "witness_vref = \<lparr>vb_array = 160, vb_vec = [], vb_places = 4, vb_chunk_size = 16, vb_ref_size = 10,
     ib_free = 16, ib_ptr = 232, ib_head = [\<lparr>ck_addr = 224, ck_data = 16\<rparr>]\<rparr>"

lemma witness_vref_init: "msgpack_vrefbuffer_init bump_malloc 160 0 16 = Some (witness_vref, 256)"
  by (simp add: msgpack_vrefbuffer_init_def bump_malloc_def sizeof_iovec_def sizeof_chunk_def witness_vref_def
      MSGPACK_PACKER_MAX_BUFFER_SIZE_def)


section \<open>Moving the contents\<close>

lemma grow_size_pos: "0 < nsize \<Longrightarrow> 0 < grow_size nsize need"
proof (induction nsize need rule: grow_size.induct)
  case (1 nsize need)
  show ?case
  proof (cases "nsize < need \<and> nsize < nsize * 2")
    case True
    then have "0 < grow_size (nsize * 2) need" using 1 by (metis linorder_not_le order_less_trans)
    with True show ?thesis by (subst grow_size.simps) (auto simp: Let_def)
  next
    case False
    with "1.prems" show ?thesis by (subst grow_size.simps) (auto simp: Let_def)
  qed
qed

lemma store_inv_join:
  assumes "store_inv l v" and "store_inv l t" and "unat (vb_chunk_size t) \<le> unat (vb_chunk_size v)"
  shows "store_inv l (t\<lparr>ib_head := ib_head v @ ib_head t\<rparr>)"
    and "store_inv l (t\<lparr>ib_head := ib_head v @ ib_head t, ib_free := ib_free v, ib_ptr := ib_ptr v\<rparr>)"
  using assms unfolding store_inv_def free_span_def by (auto 0 4)

lemma migrated_inv:
  assumes "vb_inv l v" and "vb_inv l t" and "unat (vb_chunk_size t) \<le> unat (vb_chunk_size v)"
    and "vec_inv l (free_span t) (vb_vec v)" "vec_inv l (free_span v) (vb_vec t)"
    and "length (vb_vec t) + length (vb_vec v) \<le> places" and "0 < places"
  shows "vb_inv l (migrated v (t\<lparr>vb_array := a, vb_places := places\<rparr>))"
proof -
  note st = store_inv_join [of l v "t\<lparr>vb_array := a, vb_places := places, vb_vec := vb_vec t @ vb_vec v\<rparr>"]
  have "store_inv l v" "store_inv l t" "vec_inv l (free_span t) (vb_vec t)" "vec_inv l (free_span v) (vb_vec v)"
    using assms(1,2) by (auto simp: vb_inv_def)
  with assms(3-) st show ?thesis by (auto simp: vb_inv_def migrated_def Let_def free_span_def)
qed

lemma migrate_cases:
  assumes "msgpack_vrefbuffer_migrate mal h v t = Some (0, v', t', h')"
  obtains chunk h1 where "mal h (sizeof_chunk + vb_chunk_size v) = Some (chunk, h1)" "h1 = h' \<or> (\<exists>n a. mal h1 n = Some (a, h'))"
    "v' = v\<lparr>vb_vec := [], ib_head := [\<lparr>ck_addr = chunk, ck_data = vb_chunk_size v\<rparr>], ib_free := vb_chunk_size v,
            ib_ptr := chunk + sizeof_chunk\<rparr>"
    "t' = migrated v t \<and> length (vb_vec t) + length (vb_vec v) \<le> vb_places t \<or>
     (\<exists>a places. t' = migrated v (t\<lparr>vb_array := a, vb_places := places\<rparr>) \<and> length (vb_vec t) + length (vb_vec v) \<le> places \<and>
        places = unat (grow_size (of_nat (vb_places t * 2)) (of_nat (length (vb_vec v) + length (vb_vec t)))))"
  using assms by (fastforce simp: msgpack_vrefbuffer_migrate_def Let_def split: option.splits if_splits)

lemma migrated_same: "migrated v t = migrated v (t\<lparr>vb_array := vb_array t, vb_places := vb_places t\<rparr>)"
  by simp

text \<open>
  \<open>msgpack_vrefbuffer_migrate\<close> moves everything: when it succeeds, the target describes its old bytes followed by
  those of the source, and the source is empty. If the target's standard chunk size is not larger than the source's and
  neither buffer refers into the free memory of the other, both are well formed afterwards.
\<close>

theorem msgpack_vrefbuffer_migrate_effect:
  assumes law: "malloc_law mal live" and inv: "vb_inv (live h) v" "vb_inv (live h) t"
    and cs: "unat (vb_chunk_size t) \<le> unat (vb_chunk_size v)"
    and cross: "vec_inv (live h) (free_span t) (vb_vec v)" "vec_inv (live h) (free_span v) (vb_vec t)"
    and places: "vb_places t < 2 ^ 60"
    and run: "msgpack_vrefbuffer_migrate mal h v t = Some (0, v', t', h')"
  shows "vb_content mem t' = vb_content mem t @ vb_content mem v \<and> vb_content mem v' = [] \<and>
    vb_inv (live h') v' \<and> vb_inv (live h') t'"
proof -
  obtain chunk h1 where m: "mal h (sizeof_chunk + vb_chunk_size v) = Some (chunk, h1)" "h1 = h' \<or> (\<exists>n a. mal h1 n = Some (a, h'))"
    and v': "v' = v\<lparr>vb_vec := [], ib_head := [\<lparr>ck_addr = chunk, ck_data = vb_chunk_size v\<rparr>], ib_free := vb_chunk_size v,
            ib_ptr := chunk + sizeof_chunk\<rparr>"
    and "t' = migrated v t \<and> length (vb_vec t) + length (vb_vec v) \<le> vb_places t \<or>
      (\<exists>a places. t' = migrated v (t\<lparr>vb_array := a, vb_places := places\<rparr>) \<and> length (vb_vec t) + length (vb_vec v) \<le> places \<and>
        places = unat (grow_size (of_nat (vb_places t * 2)) (of_nat (length (vb_vec v) + length (vb_vec t)))))"
    using migrate_cases [OF run] by metis
  moreover have "0 < (of_nat (vb_places t * 2) :: u64)" "0 < vb_places t"
    using places inv(2) by (simp_all add: vb_inv_def word_less_nat_alt unat_of_nat_small del: of_nat_mult)
  ultimately obtain a places where t': "t' = migrated v (t\<lparr>vb_array := a, vb_places := places\<rparr>)"
      "length (vb_vec t) + length (vb_vec v) \<le> places" "0 < places"
    using migrated_same grow_size_pos by (metis unat_gt_0 word_neq_0_conv)
  have sz: "unat (vb_chunk_size v) < 2 ^ 63" using inv(1) by (simp add: vb_inv_def store_inv_def)
  have l: "live h1 \<subseteq> live h'" "live h \<subseteq> live h1" using m malloc_live [OF law] by blast+
  have "vb_inv (live h1) v'" using new_chunk_inv_only [OF law inv(1) m(1)] v' by simp
  then have "vb_inv (live h') v'" using vb_inv_mono l(1) by blast
  moreover have "vb_inv (live h') t'"
    using vb_inv_mono [OF migrated_inv [OF inv cs cross t'(2,3)]] l unfolding t'(1) by blast
  moreover have "vb_content mem t' = vb_content mem t @ vb_content mem v"
    by (simp add: t'(1) migrated_def vb_content_def Let_def)
  ultimately show ?thesis by (simp add: v' vb_content_def)
qed

text \<open>Two buffers made by the code, with the entries \<open>vs\<close> and \<open>ts\<close>; the target is at the higher address.\<close>

definition witness_target :: msgpack_vrefbuffer where
  "witness_target = witness_vref\<lparr>vb_array := 256, ib_ptr := 328, ib_head := [\<lparr>ck_addr = 320, ck_data = 16\<rparr>]\<rparr>"

lemma witness_target_init: "msgpack_vrefbuffer_init bump_malloc 256 0 16 = Some (witness_target, 352)"
  by (simp add: msgpack_vrefbuffer_init_def bump_malloc_def sizeof_iovec_def sizeof_chunk_def witness_vref_def witness_target_def
      MSGPACK_PACKER_MAX_BUFFER_SIZE_def)

theorem msgpack_vrefbuffer_migrate_effect_witness:
  "\<exists>v' t' h'. msgpack_vrefbuffer_migrate bump_malloc 352 (witness_vref\<lparr>vb_vec := [\<lparr>iov_base = 40, iov_len = 20\<rparr>]\<rparr>)
       (witness_target\<lparr>vb_vec := [\<lparr>iov_base = 16, iov_len = 12\<rparr>]\<rparr>) = Some (0, v', t', h') \<and>
     vb_content (\<lambda>a. ucast a) t' = map of_nat [16..<28] @ map of_nat [40..<60]"
proof -
  let ?v = "witness_vref\<lparr>vb_vec := [\<lparr>iov_base = 40, iov_len = 20\<rparr>]\<rparr>"
  let ?t = "witness_target\<lparr>vb_vec := [\<lparr>iov_base = 16, iov_len = 12\<rparr>]\<rparr>"
  have cr: "vec_inv {..<352} (free_span ?t) (vb_vec ?v)" "vec_inv {..<352} (free_span ?v) (vb_vec ?t)"
    "vec_inv {..<352} (free_span ?v) (vb_vec ?v)" "vec_inv {..<352} (free_span ?t) (vb_vec ?t)"
    by (auto simp: iov_ok_def iov_span_def span_def free_span_def witness_target_def witness_vref_def)
  have "unat (16 :: u64) < 2 ^ 62" by simp
  from init_inv(1) [OF bump_malloc_law this witness_vref_init] init_inv(1) [OF bump_malloc_law this witness_target_init]
  have "store_inv {..<256} witness_vref" and st: "store_inv {..<352} witness_target" by (simp_all only: vb_inv_def)
  moreover have "{..<256 :: nat} \<subseteq> {..<352}" by simp
  ultimately have sv: "store_inv {..<352} witness_vref" using store_inv_mono by blast
  have vi: "vb_inv {..<352} ?v" and ti: "vb_inv {..<352} ?t"
    using sv st cr(3,4) by (simp_all only: vb_inv_def store_inv_vec) (simp_all add: witness_target_def witness_vref_def)
  have cs: "unat (vb_chunk_size ?t) \<le> unat (vb_chunk_size ?v)" "vb_places ?t < 2 ^ 60"
    by (simp_all add: witness_vref_def witness_target_def)
  obtain v' t' h' where run: "msgpack_vrefbuffer_migrate bump_malloc 352 ?v ?t = Some (0, v', t', h')"
    by (simp add: msgpack_vrefbuffer_migrate_def vref_eval iov_addr_def witness_vref_def witness_target_def)
  from msgpack_vrefbuffer_migrate_effect [OF bump_malloc_law vi ti cs(1) cr(1,2) cs(2) run, of "\<lambda>a. ucast a"]
  have "vb_content (\<lambda>a. ucast a) t' = vb_content (\<lambda>a. ucast a) ?t @ vb_content (\<lambda>a. ucast a) ?v" by blast
  also have "\<dots> = map of_nat [16..<28] @ map of_nat [40..<60]"
    by (simp add: vb_content_def iov_bytes_def read_bytes_def upt_rec)
  finally show ?thesis using run by blast
qed

text \<open>
  The test \<open>to->tail + nused < vbuf->end\<close> compares pointers into two different arrays, so it does not protect the
  target: there are two buffers, each obtained by initialisation and successful writes, for which migrating copies
  entries beyond the end of the target's array.
\<close>

theorem msgpack_vrefbuffer_migrate_outside:
  "\<exists>v t mem m1 m2 h3 h4 v' t'.
     msgpack_vrefbuffer_init bump_malloc 160 0 16 = Some (v, 256) \<and> msgpack_vrefbuffer_init bump_malloc 256 0 16 = Some (t, 352) \<and>
     write_all bump_malloc 352 mem v [(16, 12)] = (True, m1, v', h3) \<and>
     write_all bump_malloc h3 m1 t [(32, 12), (48, 12), (64, 12), (80, 12)] = (True, m2, t', h4) \<and>
     msgpack_vrefbuffer_migrate bump_malloc h4 v' t' = None"
proof (intro exI conjI)
  show "write_all bump_malloc 352 (\<lambda>a. 0) witness_vref [(16, 12)] =
      (True, \<lambda>a. 0, witness_vref\<lparr>vb_vec := [\<lparr>iov_base = 16, iov_len = 12\<rparr>]\<rparr>, 352)"
    by (simp add: vref_eval witness_vref_def)
  show "write_all bump_malloc 352 (\<lambda>a. 0) witness_target [(32, 12), (48, 12), (64, 12), (80, 12)] =
      (True, \<lambda>a. 0, witness_target\<lparr>vb_vec := map (\<lambda>b. \<lparr>iov_base = b, iov_len = 12\<rparr>) [32, 48, 64, 80]\<rparr>, 352)"
    by (simp add: vref_eval witness_vref_def witness_target_def)
  show "msgpack_vrefbuffer_migrate bump_malloc 352 (witness_vref\<lparr>vb_vec := [\<lparr>iov_base = 16, iov_len = 12\<rparr>]\<rparr>)
      (witness_target\<lparr>vb_vec := map (\<lambda>b. \<lparr>iov_base = b, iov_len = 12\<rparr>) [32, 48, 64, 80]\<rparr>) = None"
    by (simp add: msgpack_vrefbuffer_migrate_def vref_eval iov_addr_def witness_vref_def witness_target_def)
qed (rule witness_vref_init witness_target_init)+

text \<open>
  \<open>msgpack_vrefbuffer_clear\<close> resets the free count to the buffer's own chunk size, but after a migration the head
  chunk is one of the source's: with a smaller chunk size there, the buffer believes it has more room than the chunk has.
\<close>

theorem msgpack_vrefbuffer_clear_after_migrate:
  "\<exists>v t h v' t' h' frees t''.
     msgpack_vrefbuffer_init bump_malloc 160 0 16 = Some (v, 256) \<and> msgpack_vrefbuffer_init bump_malloc 256 0 64 = Some (t, h) \<and>
     msgpack_vrefbuffer_migrate bump_malloc h v t = Some (0, v', t', h') \<and>
     msgpack_vrefbuffer_clear t' = Some (frees, t'') \<and> ck_data (hd (ib_head t'')) < ib_free t''"
proof (intro exI conjI)
  let ?t = "witness_target\<lparr>vb_chunk_size := 64, ib_free := 64, ib_head := [\<lparr>ck_addr = 320, ck_data = 64\<rparr>]\<rparr>"
  let ?t' = "?t\<lparr>ib_head := [\<lparr>ck_addr = 224, ck_data = 16\<rparr>, \<lparr>ck_addr = 320, ck_data = 64\<rparr>]\<rparr>"
  show "msgpack_vrefbuffer_init bump_malloc 256 0 64 = Some (?t, 400)"
    by (simp add: msgpack_vrefbuffer_init_def bump_malloc_def sizeof_iovec_def sizeof_chunk_def witness_vref_def witness_target_def
        MSGPACK_PACKER_MAX_BUFFER_SIZE_def)
  show "msgpack_vrefbuffer_migrate bump_malloc 400 witness_vref ?t =
      Some (0, witness_vref\<lparr>ib_ptr := 408, ib_head := [\<lparr>ck_addr = 400, ck_data = 16\<rparr>]\<rparr>, ?t', 432)"
    by (simp add: msgpack_vrefbuffer_migrate_def migrated_def vref_eval iov_addr_def witness_vref_def witness_target_def)
  show "msgpack_vrefbuffer_clear ?t' =
      Some ([320], ?t'\<lparr>ib_head := [\<lparr>ck_addr = 224, ck_data = 16\<rparr>], ib_ptr := 232\<rparr>)"
    by (simp add: msgpack_vrefbuffer_clear_def sizeof_chunk_def witness_vref_def witness_target_def)
  show "ck_data (hd (ib_head (?t'\<lparr>ib_head := [\<lparr>ck_addr = 224, ck_data = 16\<rparr>], ib_ptr := 232\<rparr>))) <
      ib_free (?t'\<lparr>ib_head := [\<lparr>ck_addr = 224, ck_data = 16\<rparr>], ib_ptr := 232\<rparr>)" by simp
qed (rule witness_vref_init)

end
