(* ===== verification/Sdhc.thy ===== *)
theory Sdhc
  imports Prelude
begin

text \<open>
  The SD host controller driver (\<open>src/libsdhcdrivers/src/sdhc.c\<close>, \<open>sdhc.h\<close>, with the command structures of \<open>mmc.h\<close>): commands
  wait in a linked list, the first one is given to the controller, and interrupts complete it and start the next.

  The controller is a parameter, a \<open>device\<close> whose reads and writes of 32-bit registers may change its state. Commands are found by their
  addresses; the list is threaded through their \<open>next\<close> fields, and its tail pointer refers either to the head field of the host or to the
  \<open>next\<close> field of a command, as in the source. Loops that poll a register are partial functions: \<open>None\<close> is a loop that does not
  end, a failed assertion, or the use of a null pointer or of a command that no longer exists. Client buffers are 32-bit words by address.
\<close>

section \<open>Registers\<close>

definition DS_ADDR :: u32 where "DS_ADDR = 0x00"
definition BLK_ATT :: u32 where "BLK_ATT = 0x04"
definition CMD_ARG :: u32 where "CMD_ARG = 0x08"
definition CMD_XFR_TYP :: u32 where "CMD_XFR_TYP = 0x0C"
definition CMD_RSP0 :: u32 where "CMD_RSP0 = 0x10"
definition CMD_RSP1 :: u32 where "CMD_RSP1 = 0x14"
definition CMD_RSP2 :: u32 where "CMD_RSP2 = 0x18"
definition CMD_RSP3 :: u32 where "CMD_RSP3 = 0x1C"
definition DATA_BUFF_ACC_PORT :: u32 where "DATA_BUFF_ACC_PORT = 0x20"
definition PRES_STATE :: u32 where "PRES_STATE = 0x24"
definition PROT_CTRL :: u32 where "PROT_CTRL = 0x28"
definition SYS_CTRL :: u32 where "SYS_CTRL = 0x2C"
definition INT_STATUS :: u32 where "INT_STATUS = 0x30"
definition INT_STATUS_EN :: u32 where "INT_STATUS_EN = 0x34"
definition INT_SIGNAL_EN :: u32 where "INT_SIGNAL_EN = 0x38"
definition HOST_CTRL_CAP :: u32 where "HOST_CTRL_CAP = 0x40"
definition WTMK_LVL :: u32 where "WTMK_LVL = 0x44"
definition MIX_CTRL :: u32 where "MIX_CTRL = 0x48"
definition HOST_VERSION :: u32 where "HOST_VERSION = 0xFC"

lemmas reg_defs = DS_ADDR_def BLK_ATT_def CMD_ARG_def CMD_XFR_TYP_def CMD_RSP0_def CMD_RSP1_def CMD_RSP2_def CMD_RSP3_def DATA_BUFF_ACC_PORT_def PRES_STATE_def PROT_CTRL_def SYS_CTRL_def INT_STATUS_def INT_STATUS_EN_def INT_SIGNAL_EN_def HOST_CTRL_CAP_def WTMK_LVL_def MIX_CTRL_def HOST_VERSION_def

definition BLK_ATT_BLKCNT_SHF :: nat where "BLK_ATT_BLKCNT_SHF = 16"
definition CMD_XFR_TYP_CMDINX_SHF :: nat where "CMD_XFR_TYP_CMDINX_SHF = 24"
definition CMD_XFR_TYP_CMDTYP_SHF :: nat where "CMD_XFR_TYP_CMDTYP_SHF = 22"
definition CMD_XFR_TYP_RSPTYP_SHF :: nat where "CMD_XFR_TYP_RSPTYP_SHF = 16"
definition SYS_CTRL_DTOCV_SHF :: nat where "SYS_CTRL_DTOCV_SHF = 16"
definition SYS_CTRL_SDCLKS_SHF :: nat where "SYS_CTRL_SDCLKS_SHF = 8"
definition SYS_CTRL_DVS_SHF :: nat where "SYS_CTRL_DVS_SHF = 4"
definition HOST_CTRL_CAP_MBL_SHF :: nat where "HOST_CTRL_CAP_MBL_SHF = 16"
definition WTMK_LVL_WR_WML_SHF :: nat where "WTMK_LVL_WR_WML_SHF = 16"
definition WTMK_LVL_RD_WML_SHF :: nat where "WTMK_LVL_RD_WML_SHF = 0"
definition BLK_ATT_BLKSIZE_MASK :: u32 where "BLK_ATT_BLKSIZE_MASK = 0xFFF"
definition CMD_XFR_TYP_CMDINX_MASK :: u32 where "CMD_XFR_TYP_CMDINX_MASK = 0x3F"
definition CMD_XFR_TYP_CMDTYP_MASK :: u32 where "CMD_XFR_TYP_CMDTYP_MASK = 0x3"
definition CMD_XFR_TYP_RSPTYP_MASK :: u32 where "CMD_XFR_TYP_RSPTYP_MASK = 0x3"
definition SYS_CTRL_SDCLKS_MASK :: u32 where "SYS_CTRL_SDCLKS_MASK = 0xFF"
definition SYS_CTRL_DVS_MASK :: u32 where "SYS_CTRL_DVS_MASK = 0xF"
definition HOST_CTRL_CAP_MBL_MASK :: u32 where "HOST_CTRL_CAP_MBL_MASK = 0x3"
definition CMD_XFR_TYP_DPSEL :: u32 where "CMD_XFR_TYP_DPSEL = 2 ^ 21"
definition CMD_XFR_TYP_CICEN :: u32 where "CMD_XFR_TYP_CICEN = 2 ^ 20"
definition CMD_XFR_TYP_CCCEN :: u32 where "CMD_XFR_TYP_CCCEN = 2 ^ 19"
definition SYS_CTRL_INITA :: u32 where "SYS_CTRL_INITA = 2 ^ 27"
definition SYS_CTRL_RSTA :: u32 where "SYS_CTRL_RSTA = 2 ^ 24"
definition SYS_CTRL_CLK_INT_EN :: u32 where "SYS_CTRL_CLK_INT_EN = 2 ^ 0"
definition SYS_CTRL_CLK_INT_STABLE :: u32 where "SYS_CTRL_CLK_INT_STABLE = 2 ^ 1"
definition SYS_CTRL_CLK_CARD_EN :: u32 where "SYS_CTRL_CLK_CARD_EN = 2 ^ 2"
definition INT_STATUS_DMAE :: u32 where "INT_STATUS_DMAE = 2 ^ 28"
definition INT_STATUS_ADMAE :: u32 where "INT_STATUS_ADMAE = 2 ^ 25"
definition INT_STATUS_AC12E :: u32 where "INT_STATUS_AC12E = 2 ^ 24"
definition INT_STATUS_OVRCURE :: u32 where "INT_STATUS_OVRCURE = 2 ^ 23"
definition INT_STATUS_DEBE :: u32 where "INT_STATUS_DEBE = 2 ^ 22"
definition INT_STATUS_DCE :: u32 where "INT_STATUS_DCE = 2 ^ 21"
definition INT_STATUS_DTOE :: u32 where "INT_STATUS_DTOE = 2 ^ 20"
definition INT_STATUS_CIE :: u32 where "INT_STATUS_CIE = 2 ^ 19"
definition INT_STATUS_CEBE :: u32 where "INT_STATUS_CEBE = 2 ^ 18"
definition INT_STATUS_CCE :: u32 where "INT_STATUS_CCE = 2 ^ 17"
definition INT_STATUS_CTOE :: u32 where "INT_STATUS_CTOE = 2 ^ 16"
definition INT_STATUS_ERR :: u32 where "INT_STATUS_ERR = 2 ^ 15"
definition INT_STATUS_CRM :: u32 where "INT_STATUS_CRM = 2 ^ 7"
definition INT_STATUS_CINS :: u32 where "INT_STATUS_CINS = 2 ^ 6"
definition INT_STATUS_BRR :: u32 where "INT_STATUS_BRR = 2 ^ 5"
definition INT_STATUS_BWR :: u32 where "INT_STATUS_BWR = 2 ^ 4"
definition INT_STATUS_TC :: u32 where "INT_STATUS_TC = 2 ^ 1"
definition INT_STATUS_CC :: u32 where "INT_STATUS_CC = 2 ^ 0"
definition HOST_CTRL_CAP_VS33 :: u32 where "HOST_CTRL_CAP_VS33 = 2 ^ 24"
definition HOST_CTRL_CAP_DMAS :: u32 where "HOST_CTRL_CAP_DMAS = 2 ^ 22"
definition MIX_CTRL_MSBSEL :: u32 where "MIX_CTRL_MSBSEL = 2 ^ 5"
definition MIX_CTRL_DTDSEL :: u32 where "MIX_CTRL_DTDSEL = 2 ^ 4"
definition MIX_CTRL_DDR_EN :: u32 where "MIX_CTRL_DDR_EN = 2 ^ 3"
definition MIX_CTRL_BCEN :: u32 where "MIX_CTRL_BCEN = 2 ^ 1"
definition MIX_CTRL_DMAEN :: u32 where "MIX_CTRL_DMAEN = 2 ^ 0"
definition SDHC_PRES_STATE_WPSPL :: u32 where "SDHC_PRES_STATE_WPSPL = 2 ^ 19"
definition SDHC_PRES_STATE_CINST :: u32 where "SDHC_PRES_STATE_CINST = 2 ^ 16"
definition SDHC_PRES_STATE_SDSTB :: u32 where "SDHC_PRES_STATE_SDSTB = 2 ^ 3"
definition SDHC_PRES_STATE_DLA :: u32 where "SDHC_PRES_STATE_DLA = 2 ^ 2"
definition SDHC_PRES_STATE_CDIHB :: u32 where "SDHC_PRES_STATE_CDIHB = 2 ^ 1"
definition SDHC_PRES_STATE_CIHB :: u32 where "SDHC_PRES_STATE_CIHB = 2 ^ 0"

lemmas shift_defs = BLK_ATT_BLKCNT_SHF_def CMD_XFR_TYP_CMDINX_SHF_def CMD_XFR_TYP_CMDTYP_SHF_def CMD_XFR_TYP_RSPTYP_SHF_def SYS_CTRL_DTOCV_SHF_def SYS_CTRL_SDCLKS_SHF_def SYS_CTRL_DVS_SHF_def HOST_CTRL_CAP_MBL_SHF_def WTMK_LVL_WR_WML_SHF_def WTMK_LVL_RD_WML_SHF_def BLK_ATT_BLKSIZE_MASK_def CMD_XFR_TYP_CMDINX_MASK_def CMD_XFR_TYP_CMDTYP_MASK_def CMD_XFR_TYP_RSPTYP_MASK_def SYS_CTRL_SDCLKS_MASK_def SYS_CTRL_DVS_MASK_def HOST_CTRL_CAP_MBL_MASK_def

lemmas bit_defs = CMD_XFR_TYP_DPSEL_def CMD_XFR_TYP_CICEN_def CMD_XFR_TYP_CCCEN_def SYS_CTRL_INITA_def SYS_CTRL_RSTA_def SYS_CTRL_CLK_INT_EN_def SYS_CTRL_CLK_INT_STABLE_def SYS_CTRL_CLK_CARD_EN_def INT_STATUS_DMAE_def INT_STATUS_ADMAE_def INT_STATUS_AC12E_def INT_STATUS_OVRCURE_def INT_STATUS_DEBE_def INT_STATUS_DCE_def INT_STATUS_DTOE_def INT_STATUS_CIE_def INT_STATUS_CEBE_def INT_STATUS_CCE_def INT_STATUS_CTOE_def INT_STATUS_ERR_def INT_STATUS_CRM_def INT_STATUS_CINS_def INT_STATUS_BRR_def INT_STATUS_BWR_def INT_STATUS_TC_def INT_STATUS_CC_def HOST_CTRL_CAP_VS33_def HOST_CTRL_CAP_DMAS_def MIX_CTRL_MSBSEL_def MIX_CTRL_DTDSEL_def MIX_CTRL_DDR_EN_def MIX_CTRL_BCEN_def MIX_CTRL_DMAEN_def SDHC_PRES_STATE_WPSPL_def SDHC_PRES_STATE_CINST_def SDHC_PRES_STATE_SDSTB_def SDHC_PRES_STATE_DLA_def SDHC_PRES_STATE_CDIHB_def SDHC_PRES_STATE_CIHB_def

definition MMC_MODE_4BIT :: u32 where "MMC_MODE_4BIT = 0x02"
definition MMC_GO_IDLE_STATE :: u32 where "MMC_GO_IDLE_STATE = 0"
definition MMC_SEND_OP_COND :: u32 where "MMC_SEND_OP_COND = 1"
definition MMC_ALL_SEND_CID :: u32 where "MMC_ALL_SEND_CID = 2"
definition MMC_SEND_RELATIVE_ADDR :: u32 where "MMC_SEND_RELATIVE_ADDR = 3"
definition MMC_SELECT_CARD :: u32 where "MMC_SELECT_CARD = 7"
definition MMC_SEND_EXT_CSD :: u32 where "MMC_SEND_EXT_CSD = 8"
definition MMC_SEND_CSD :: u32 where "MMC_SEND_CSD = 9"
definition MMC_STOP_TRANSMISSION :: u32 where "MMC_STOP_TRANSMISSION = 12"
definition MMC_SEND_STATUS :: u32 where "MMC_SEND_STATUS = 13"
definition MMC_SET_BLOCKLEN :: u32 where "MMC_SET_BLOCKLEN = 16"
definition MMC_READ_SINGLE_BLOCK :: u32 where "MMC_READ_SINGLE_BLOCK = 17"
definition MMC_WRITE_BLOCK :: u32 where "MMC_WRITE_BLOCK = 24"
definition MMC_APP_CMD :: u32 where "MMC_APP_CMD = 55"
definition SD_SET_BUS_WIDTH :: u32 where "SD_SET_BUS_WIDTH = 6"
definition SD_SD_APP_OP_COND :: u32 where "SD_SD_APP_OP_COND = 41"

lemmas cmd_index_defs = MMC_GO_IDLE_STATE_def MMC_SEND_OP_COND_def MMC_ALL_SEND_CID_def MMC_SEND_RELATIVE_ADDR_def MMC_SELECT_CARD_def MMC_SEND_EXT_CSD_def MMC_SEND_CSD_def MMC_STOP_TRANSMISSION_def MMC_SEND_STATUS_def MMC_SET_BLOCKLEN_def MMC_READ_SINGLE_BLOCK_def MMC_WRITE_BLOCK_def MMC_APP_CMD_def SD_SET_BUS_WIDTH_def SD_SD_APP_OP_COND_def

section \<open>Data\<close>

datatype mmc_rsp_type = MMC_RSP_TYPE_NONE | MMC_RSP_TYPE_R1 | MMC_RSP_TYPE_R1b | MMC_RSP_TYPE_R2 | MMC_RSP_TYPE_R3 | MMC_RSP_TYPE_R4
  | MMC_RSP_TYPE_R5 | MMC_RSP_TYPE_R5b | MMC_RSP_TYPE_R6

record mmc_data =
  pbuf :: u64
  vbuf :: u64
  data_addr :: u32
  block_size :: u32
  blocks :: u32

text \<open>A callback is given by a number; \<open>None\<close> is the null pointer, here and in the links.\<close>

record mmc_cmd =
  cmd_index :: u32
  cmd_arg :: u32
  cmd_response :: "u32 list"
  cmd_data :: "mmc_data option"
  rsp_type :: mmc_rsp_type
  cmd_cb :: "nat option"
  cmd_token :: u64
  cmd_next :: "u64 option"
  cmd_complete :: int

datatype tail_ref = Head_Field | Next_Field u64

record 'h device =
  dv_read :: "'h \<Rightarrow> u32 \<Rightarrow> u32 \<times> 'h"
  dv_write :: "'h \<Rightarrow> u32 \<Rightarrow> u32 \<Rightarrow> 'h"

record 'h sdhc =
  hw :: 'h
  version :: int
  nirqs :: int
  irq_table :: "int list"
  cmd_list_head :: "u64 option"
  cmd_list_tail :: tail_ref
  blocks_remaining :: u32
  cmds :: "u64 \<rightharpoonup> mmc_cmd"
  words :: "u64 \<Rightarrow> u32"

definition readl :: "'h device \<Rightarrow> u32 \<Rightarrow> ('h, 'z) sdhc_scheme \<Rightarrow> u32 \<times> ('h, 'z) sdhc_scheme" where
  "readl dev a s = (let (v, h) = dv_read dev (hw s) a in (v, s\<lparr>hw := h\<rparr>))"

definition writel :: "'h device \<Rightarrow> u32 \<Rightarrow> u32 \<Rightarrow> ('h, 'z) sdhc_scheme \<Rightarrow> ('h, 'z) sdhc_scheme" where
  "writel dev v a s = s\<lparr>hw := dv_write dev (hw s) a v\<rparr>"

text \<open>Polling a register until the bits of a mask are clear.\<close>

partial_function (option) wait_clear :: "'h device \<Rightarrow> u32 \<Rightarrow> u32 \<Rightarrow> ('h, 'z) sdhc_scheme \<Rightarrow> ('h, 'z) sdhc_scheme option" where
  "wait_clear dev a bits s = (let (v, s1) = readl dev a s in if v AND bits = 0 then Some s1 else wait_clear dev a bits s1)"

section \<open>Issuing a command\<close>

datatype dma_mode = DMA_MODE_NONE | DMA_MODE_SDMA | DMA_MODE_ADMA

definition get_dma_mode :: "mmc_cmd \<Rightarrow> dma_mode" where
  "get_dma_mode cmd = (case cmd_data cmd of
     None \<Rightarrow> DMA_MODE_NONE
   | Some d \<Rightarrow> if pbuf d = 0 then DMA_MODE_NONE else DMA_MODE_SDMA)"

definition cap_sdma_supported :: "'h device \<Rightarrow> ('h, 'z) sdhc_scheme \<Rightarrow> bool \<times> ('h, 'z) sdhc_scheme" where
  "cap_sdma_supported dev s = (let (v, s1) = readl dev HOST_CTRL_CAP s in (v AND HOST_CTRL_CAP_DMAS \<noteq> 0, s1))"

definition cap_max_buffer_size :: "'h device \<Rightarrow> ('h, 'z) sdhc_scheme \<Rightarrow> nat \<times> ('h, 'z) sdhc_scheme" where
  "cap_max_buffer_size dev s =
     (let (v, s1) = readl dev HOST_CTRL_CAP s
      in (512 * 2 ^ unat (drop_bit HOST_CTRL_CAP_MBL_SHF v AND HOST_CTRL_CAP_MBL_MASK), s1))"

definition irq_enable :: "mmc_cmd \<Rightarrow> u32" where
  "irq_enable cmd =
     (let val = INT_STATUS_ADMAE OR INT_STATUS_OVRCURE OR INT_STATUS_DEBE
           OR INT_STATUS_DCE OR INT_STATUS_DTOE OR INT_STATUS_CRM
           OR INT_STATUS_CINS OR INT_STATUS_CIE OR INT_STATUS_CEBE
           OR INT_STATUS_CCE OR INT_STATUS_CTOE OR INT_STATUS_TC
           OR INT_STATUS_CC
      in if get_dma_mode cmd = DMA_MODE_NONE then val OR (INT_STATUS_BRR OR INT_STATUS_BWR) else val)"

definition blk_att :: "mmc_data \<Rightarrow> u32" where
  "blk_att d = (block_size d AND BLK_ATT_BLKSIZE_MASK) OR push_bit BLK_ATT_BLKCNT_SHF (blocks d)"

definition watermark :: "mmc_cmd \<Rightarrow> mmc_data \<Rightarrow> u32" where
  "watermark cmd d =
     (let v = block_size d div 4; v = (if v > 0x80 then 0x80 else v)
      in if cmd_index cmd = MMC_READ_SINGLE_BLOCK then push_bit WTMK_LVL_RD_WML_SHF v else push_bit WTMK_LVL_WR_WML_SHF v)"

definition mixer :: "mmc_cmd \<Rightarrow> mmc_data \<Rightarrow> u32" where
  "mixer cmd d =
     (let mix = MIX_CTRL_BCEN;
          mix = (if blocks d > 1 then mix OR MIX_CTRL_MSBSEL else mix);
          mix = (if cmd_index cmd = MMC_READ_SINGLE_BLOCK then mix OR MIX_CTRL_DTDSEL else mix)
      in if get_dma_mode cmd \<noteq> DMA_MODE_NONE then mix OR MIX_CTRL_DMAEN else mix)"

text \<open>The command word, with the mixer bits \<open>mix\<close> that some controllers want in it.\<close>

definition rsp_bits :: "mmc_rsp_type \<Rightarrow> u32 \<Rightarrow> u32" where
  "rsp_bits t v = (case t of
     MMC_RSP_TYPE_R2 \<Rightarrow> v OR push_bit CMD_XFR_TYP_RSPTYP_SHF 1 OR CMD_XFR_TYP_CCCEN
   | MMC_RSP_TYPE_R3 \<Rightarrow> v OR push_bit CMD_XFR_TYP_RSPTYP_SHF 2
   | MMC_RSP_TYPE_R4 \<Rightarrow> v OR push_bit CMD_XFR_TYP_RSPTYP_SHF 2
   | MMC_RSP_TYPE_R1 \<Rightarrow> v OR push_bit CMD_XFR_TYP_RSPTYP_SHF 2 OR CMD_XFR_TYP_CICEN OR CMD_XFR_TYP_CCCEN
   | MMC_RSP_TYPE_R5 \<Rightarrow> v OR push_bit CMD_XFR_TYP_RSPTYP_SHF 2 OR CMD_XFR_TYP_CICEN OR CMD_XFR_TYP_CCCEN
   | MMC_RSP_TYPE_R6 \<Rightarrow> v OR push_bit CMD_XFR_TYP_RSPTYP_SHF 2 OR CMD_XFR_TYP_CICEN OR CMD_XFR_TYP_CCCEN
   | MMC_RSP_TYPE_R1b \<Rightarrow> v OR push_bit CMD_XFR_TYP_RSPTYP_SHF 3 OR CMD_XFR_TYP_CICEN OR CMD_XFR_TYP_CCCEN
   | MMC_RSP_TYPE_R5b \<Rightarrow> v OR push_bit CMD_XFR_TYP_RSPTYP_SHF 3 OR CMD_XFR_TYP_CICEN OR CMD_XFR_TYP_CCCEN
   | MMC_RSP_TYPE_NONE \<Rightarrow> v)"

definition xfr_typ :: "mmc_cmd \<Rightarrow> u32 \<Rightarrow> u32" where
  "xfr_typ cmd mix =
     (let v = push_bit CMD_XFR_TYP_CMDINX_SHF (cmd_index cmd AND CMD_XFR_TYP_CMDINX_MASK);
          v = v AND NOT (push_bit CMD_XFR_TYP_CMDTYP_SHF CMD_XFR_TYP_CMDTYP_MASK);
          v = v OR mix;
          v = v AND NOT CMD_XFR_TYP_CICEN;
          v = v AND NOT CMD_XFR_TYP_CCCEN;
          v = v AND NOT (push_bit CMD_XFR_TYP_RSPTYP_SHF CMD_XFR_TYP_RSPTYP_MASK);
          v = rsp_bits (rsp_type cmd) v
      in if cmd_data cmd \<noteq> None then v OR CMD_XFR_TYP_DPSEL else v)"

text \<open>The registers for a data segment.\<close>

definition setup_data :: "'h device \<Rightarrow> mmc_cmd \<Rightarrow> mmc_data \<Rightarrow> ('h, 'z) sdhc_scheme \<Rightarrow> ('h, 'z) sdhc_scheme" where
  "setup_data dev cmd d s =
     (let (v, s) = readl dev SYS_CTRL s;
          s = writel dev ((v AND NOT (push_bit 16 0xff)) OR push_bit 16 0xE) SYS_CTRL s;
          s = writel dev (blk_att d) BLK_ATT s;
          s = writel dev (watermark cmd d) WTMK_LVL s;
          s = (if get_dma_mode cmd \<noteq> DMA_MODE_NONE then writel dev (ucast (pbuf d)) DS_ADDR s else s)
      in s\<lparr>blocks_remaining := blocks d\<rparr>)"

definition sdhc_next_cmd :: "'h device \<Rightarrow> ('h, 'z) sdhc_scheme \<Rightarrow> ('h, 'z) sdhc_scheme option" where
  "sdhc_next_cmd dev s = do {
     c \<leftarrow> cmd_list_head s;
     cmd \<leftarrow> cmds s c;
     let s = writel dev (irq_enable cmd) INT_STATUS_EN s;
     s \<leftarrow> wait_clear dev PRES_STATE (SDHC_PRES_STATE_CIHB OR SDHC_PRES_STATE_CDIHB) s;
     s \<leftarrow> wait_clear dev PRES_STATE SDHC_PRES_STATE_DLA s;
     let s = writel dev (cmd_arg cmd) CMD_ARG s;
     (case cmd_data cmd of
        None \<Rightarrow> Some (writel dev (xfr_typ cmd 0) CMD_XFR_TYP s)
      | Some d \<Rightarrow>
          (let s = setup_data dev cmd d s
           in if version s = 2 then Some (writel dev (xfr_typ cmd (mixer cmd d)) CMD_XFR_TYP s)
              else Some (writel dev (xfr_typ cmd 0) CMD_XFR_TYP (writel dev (mixer cmd d) MIX_CTRL s)))) }"

section \<open>Interrupts\<close>

text \<open>The bits that report an error, in the order of the source; the other bits are only logged.\<close>

definition error_bits :: "u32 list" where
  "error_bits = [INT_STATUS_ERR, INT_STATUS_AC12E, INT_STATUS_DMAE, INT_STATUS_ADMAE, INT_STATUS_DEBE, INT_STATUS_DCE,
     INT_STATUS_DTOE, INT_STATUS_CIE, INT_STATUS_CEBE, INT_STATUS_CCE, INT_STATUS_CTOE, INT_STATUS_CRM]"

definition mark_error :: "u32 \<Rightarrow> u32 \<Rightarrow> mmc_cmd \<Rightarrow> mmc_cmd" where
  "mark_error int_status b cmd = (if int_status AND b \<noteq> 0 then cmd\<lparr>cmd_complete := - 1\<rparr> else cmd)"

definition mark_errors :: "u32 \<Rightarrow> mmc_cmd \<Rightarrow> mmc_cmd" where
  "mark_errors int_status cmd = fold (mark_error int_status) error_bits cmd"

text \<open>Reading the response registers.\<close>

definition set_response :: "nat \<Rightarrow> u32 \<Rightarrow> mmc_cmd \<Rightarrow> mmc_cmd" where
  "set_response i v cmd = cmd\<lparr>cmd_response := (cmd_response cmd)[i := v]\<rparr>"

definition read_response :: "'h device \<Rightarrow> mmc_cmd \<Rightarrow> ('h, 'z) sdhc_scheme \<Rightarrow> mmc_cmd \<times> ('h, 'z) sdhc_scheme" where
  "read_response dev cmd s = (case rsp_type cmd of
     MMC_RSP_TYPE_R2 \<Rightarrow>
       (let (r0, s) = readl dev CMD_RSP0 s; (r1, s) = readl dev CMD_RSP1 s; (r2, s) = readl dev CMD_RSP2 s; (r3, s) = readl dev CMD_RSP3 s
        in (set_response 3 r3 (set_response 2 r2 (set_response 1 r1 (set_response 0 r0 cmd))), s))
   | MMC_RSP_TYPE_R1b \<Rightarrow>
       (if cmd_index cmd = MMC_STOP_TRANSMISSION
        then let (r, s) = readl dev CMD_RSP3 s in (set_response 3 r cmd, s)
        else let (r, s) = readl dev CMD_RSP0 s in (set_response 0 r cmd, s))
   | MMC_RSP_TYPE_NONE \<Rightarrow> (cmd, s)
   | _ \<Rightarrow> (let (r, s) = readl dev CMD_RSP0 s in (set_response 0 r cmd, s)))"

definition command_complete :: "'h device \<Rightarrow> u32 \<Rightarrow> mmc_cmd \<Rightarrow> ('h, 'z) sdhc_scheme \<Rightarrow> (mmc_cmd \<times> ('h, 'z) sdhc_scheme) option" where
  "command_complete dev int_status cmd s =
     (if int_status AND INT_STATUS_CC = 0 then Some (cmd, s)
      else let (cmd, s) = read_response dev cmd s
           in if cmd_data cmd = None
              then (if cmd_complete cmd \<noteq> 0 then None else Some (cmd\<lparr>cmd_complete := 1\<rparr>, s))
              else Some (cmd, s))"

text \<open>Programmed transfers of one block between the data port and the buffer, a word at a time.\<close>

primrec pio_read :: "'h device \<Rightarrow> nat \<Rightarrow> u64 \<Rightarrow> ('h, 'z) sdhc_scheme \<Rightarrow> ('h, 'z) sdhc_scheme" where
  "pio_read dev 0 a s = s"
| "pio_read dev (Suc n) a s =
     (let (v, s) = readl dev DATA_BUFF_ACC_PORT s in pio_read dev n (a + 4) (s\<lparr>words := (words s)(a := v)\<rparr>))"

primrec pio_write :: "'h device \<Rightarrow> nat \<Rightarrow> u64 \<Rightarrow> ('h, 'z) sdhc_scheme \<Rightarrow> ('h, 'z) sdhc_scheme" where
  "pio_write dev 0 a s = s"
| "pio_write dev (Suc n) a s = pio_write dev n (a + 4) (writel dev (words s a) DATA_BUFF_ACC_PORT s)"

definition block_words :: "mmc_data \<Rightarrow> nat" where
  "block_words d = (unat (block_size d) + 3) div 4"

definition programmed_io :: "'h device \<Rightarrow> u32 \<Rightarrow> mmc_cmd \<Rightarrow> ('h, 'z) sdhc_scheme \<Rightarrow> ('h, 'z) sdhc_scheme option" where
  "programmed_io dev int_status cmd s =
     (if int_status AND (INT_STATUS_BRR OR INT_STATUS_BWR) = 0 then Some s
      else case cmd_data cmd of
        None \<Rightarrow> None
      | Some d \<Rightarrow>
          (if vbuf d = 0 \<or> cmd_complete cmd \<noteq> 0 then None
           else if blocks_remaining s \<noteq> 0 then
             (let s = (if int_status AND INT_STATUS_BRR \<noteq> 0 then pio_read dev (block_words d) (vbuf d) s
                       else pio_write dev (block_words d) (vbuf d) s)
              in Some (s\<lparr>blocks_remaining := blocks_remaining s - 1\<rparr>))
           else Some s))"

definition transfer_complete :: "u32 \<Rightarrow> mmc_cmd \<Rightarrow> mmc_cmd option" where
  "transfer_complete int_status cmd =
     (if int_status AND INT_STATUS_TC = 0 then Some cmd
      else if cmd_complete cmd \<noteq> 0 then None else Some (cmd\<lparr>cmd_complete := 1\<rparr>))"

text \<open>The finished command leaves the list, and the next one is issued.\<close>

definition retire :: "'h device \<Rightarrow> u64 \<Rightarrow> mmc_cmd \<Rightarrow> ('h, 'z) sdhc_scheme \<Rightarrow> ('h, 'z) sdhc_scheme option" where
  "retire dev c cmd s = do {
     s \<leftarrow> (case cmd_next cmd of
             None \<Rightarrow> Some (s\<lparr>cmd_list_head := None, cmd_list_tail := Head_Field\<rparr>)
           | Some n \<Rightarrow> sdhc_next_cmd dev (s\<lparr>cmd_list_head := Some n\<rparr>));
     Some (s\<lparr>cmds := (cmds s)(c \<mapsto> cmd\<lparr>cmd_next := None\<rparr>)\<rparr>) }"

text \<open>The interrupt handler up to the callback; the result is the command that has finished, if any.\<close>

definition sdhc_irq_step :: "'h device \<Rightarrow> ('h, 'z) sdhc_scheme \<Rightarrow> (u64 option \<times> ('h, 'z) sdhc_scheme) option" where
  "sdhc_irq_step dev s =
     (let (int_status, s) = readl dev INT_STATUS s
      in case cmd_list_head s of
           None \<Rightarrow> Some (None, writel dev int_status INT_STATUS s)
         | Some c \<Rightarrow> do {
             cmd \<leftarrow> cmds s c;
             (cmd, s) \<leftarrow> command_complete dev int_status (mark_errors int_status cmd) s;
             s \<leftarrow> programmed_io dev int_status cmd s;
             cmd \<leftarrow> transfer_complete int_status cmd;
             let s = writel dev int_status INT_STATUS (s\<lparr>cmds := (cmds s)(c \<mapsto> cmd)\<rparr>);
             (if cmd_complete cmd \<noteq> 0 then do {
                s \<leftarrow> retire dev c cmd s;
                Some (Some c, s) }
              else Some (None, s)) })"

text \<open>Callbacks are code of the client: from the number, the status, the command and the token to a change of the state.\<close>

type_synonym ('h, 'z) callbacks = "nat \<Rightarrow> int \<Rightarrow> u64 \<Rightarrow> u64 \<Rightarrow> ('h, 'z) sdhc_scheme \<Rightarrow> ('h, 'z) sdhc_scheme option"

definition sdhc_handle_irq :: "'h device \<Rightarrow> ('h, 'z) callbacks \<Rightarrow> ('h, 'z) sdhc_scheme \<Rightarrow> ('h, 'z) sdhc_scheme option" where
  "sdhc_handle_irq dev cbs s = do {
     (fin, s) \<leftarrow> sdhc_irq_step dev s;
     (case fin of
        None \<Rightarrow> Some s
      | Some c \<Rightarrow> do {
          cmd \<leftarrow> cmds s c;
          (case cmd_cb cmd of None \<Rightarrow> Some s | Some cb \<Rightarrow> cbs cb 0 c (cmd_token cmd) s) }) }"

section \<open>Sending a command\<close>

definition append_cmd :: "u64 \<Rightarrow> ('h, 'z) sdhc_scheme \<Rightarrow> ('h, 'z) sdhc_scheme option" where
  "append_cmd c s = (case cmd_list_tail s of
     Head_Field \<Rightarrow> Some (s\<lparr>cmd_list_head := Some c, cmd_list_tail := Next_Field c\<rparr>)
   | Next_Field t \<Rightarrow> do {
       tcmd \<leftarrow> cmds s t;
       Some (s\<lparr>cmds := (cmds s)(t \<mapsto> tcmd\<lparr>cmd_next := Some c\<rparr>), cmd_list_tail := Next_Field c\<rparr>) })"

partial_function (option) wait_complete :: "'h device \<Rightarrow> ('h, 'z) callbacks \<Rightarrow> u64 \<Rightarrow> ('h, 'z) sdhc_scheme \<Rightarrow> (int \<times> ('h, 'z) sdhc_scheme) option" where
  "wait_complete dev cbs c s = (case cmds s c of
     None \<Rightarrow> None
   | Some cmd \<Rightarrow>
       if cmd_complete cmd \<noteq> 0 then Some (cmd_complete cmd, s)
       else Option.bind (sdhc_handle_irq dev cbs s) (wait_complete dev cbs c))"

text \<open>Everything before the wait: the command joins the list, and is issued when it is alone there.\<close>

definition submit :: "'h device \<Rightarrow> u64 \<Rightarrow> nat option \<Rightarrow> u64 \<Rightarrow> ('h, 'z) sdhc_scheme \<Rightarrow> ('h, 'z) sdhc_scheme option" where
  "submit dev c cb token s = do {
     cmd \<leftarrow> cmds s c;
     s \<leftarrow> append_cmd c (s\<lparr>cmds := (cmds s)(c \<mapsto> cmd\<lparr>cmd_complete := 0, cmd_next := None, cmd_cb := cb, cmd_token := token\<rparr>)\<rparr>);
     (if cmd_list_head s = Some c then sdhc_next_cmd dev s else Some s) }"

definition sdhc_send_cmd :: "'h device \<Rightarrow> ('h, 'z) callbacks \<Rightarrow> u64 \<Rightarrow> nat option \<Rightarrow> u64 \<Rightarrow> ('h, 'z) sdhc_scheme \<Rightarrow> (int \<times> ('h, 'z) sdhc_scheme) option" where
  "sdhc_send_cmd dev cbs c cb token s = do {
     s \<leftarrow> submit dev c cb token s;
     (if cb = None then do {
        (r, s) \<leftarrow> wait_complete dev cbs c s;
        Some (if r < 0 then r else 0, s) }
      else Some (0, s)) }"

section \<open>The controller\<close>

definition sdhc_is_voltage_compatible :: "'h device \<Rightarrow> int \<Rightarrow> ('h, 'z) sdhc_scheme \<Rightarrow> bool \<times> ('h, 'z) sdhc_scheme" where
  "sdhc_is_voltage_compatible dev mv s =
     (let (v, s) = readl dev HOST_CTRL_CAP s in (mv = 3300 \<and> v AND HOST_CTRL_CAP_VS33 \<noteq> 0, s))"

partial_function (option) wait_stable :: "'h device \<Rightarrow> ('h, 'z) sdhc_scheme \<Rightarrow> (u32 \<times> ('h, 'z) sdhc_scheme) option" where
  "wait_stable dev s = (let (v, s1) = readl dev SYS_CTRL s
     in if v AND SYS_CTRL_CLK_INT_STABLE \<noteq> 0 then Some (v, s1) else wait_stable dev s1)"

definition sdhc_enable_clock :: "'h device \<Rightarrow> ('h, 'z) sdhc_scheme \<Rightarrow> ('h, 'z) sdhc_scheme option" where
  "sdhc_enable_clock dev s =
     (let (v, s) = readl dev SYS_CTRL s
      in do {
        (v, s) \<leftarrow> wait_stable dev (writel dev (v OR SYS_CTRL_CLK_INT_EN) SYS_CTRL s);
        Some (writel dev (v OR SYS_CTRL_CLK_CARD_EN) SYS_CTRL s) })"

definition DIV_4 :: u32 where "DIV_4 = 0x3"
definition DIV_16 :: u32 where "DIV_16 = 0xf"
definition PRESCALER_2 :: u32 where "PRESCALER_2 = 0x1"
definition PRESCALER_32 :: u32 where "PRESCALER_32 = 0x10"
definition SDCLK_TIMES_2_POW_14 :: u32 where "SDCLK_TIMES_2_POW_14 = 0x0"
definition SDCLK_TIMES_2_POW_29 :: u32 where "SDCLK_TIMES_2_POW_29 = 0xf"

datatype clock_mode = CLOCK_INITIAL | CLOCK_OPERATIONAL

text \<open>The new value of the system control register: prescaler, divisor and data timeout.\<close>

definition clock_bits :: "u32 \<Rightarrow> u32 \<Rightarrow> u32 \<Rightarrow> u32 \<Rightarrow> u32" where
  "clock_bits v sdclks dvs dtocv =
     (let v = v AND NOT (push_bit SYS_CTRL_SDCLKS_SHF SYS_CTRL_SDCLKS_MASK);
          v = v OR push_bit SYS_CTRL_SDCLKS_SHF sdclks;
          v = v AND NOT (push_bit SYS_CTRL_DVS_SHF SYS_CTRL_DVS_MASK);
          v = v OR push_bit SYS_CTRL_DVS_SHF dvs
      in v OR push_bit SYS_CTRL_DTOCV_SHF dtocv)"

definition sdhc_set_clock_div :: "'h device \<Rightarrow> u32 \<Rightarrow> u32 \<Rightarrow> u32 \<Rightarrow> ('h, 'z) sdhc_scheme \<Rightarrow> int \<times> ('h, 'z) sdhc_scheme" where
  "sdhc_set_clock_div dev dvs_div sdclks_div dtocv s =
     (let (p, s) = readl dev PRES_STATE s
      in if p AND SDHC_PRES_STATE_SDSTB \<noteq> 0 then
           (let (v, s) = readl dev SYS_CTRL s;
                (x, s) = readl dev MIX_CTRL s
            in (0, writel dev (clock_bits v (if x AND MIX_CTRL_DDR_EN \<noteq> 0 then drop_bit 1 sdclks_div else sdclks_div) dvs_div dtocv) SYS_CTRL s))
         else (- 1, s))"

definition sdhc_set_clock :: "'h device \<Rightarrow> clock_mode \<Rightarrow> ('h, 'z) sdhc_scheme \<Rightarrow> (int \<times> ('h, 'z) sdhc_scheme) option" where
  "sdhc_set_clock dev clk_mode s =
     (let (v, s) = readl dev SYS_CTRL s
      in do {
        s \<leftarrow> (if v AND SYS_CTRL_CLK_INT_EN = 0 then sdhc_enable_clock dev s else Some s);
        Some (case clk_mode of
          CLOCK_INITIAL \<Rightarrow> sdhc_set_clock_div dev DIV_16 PRESCALER_32 SDCLK_TIMES_2_POW_14 s
        | CLOCK_OPERATIONAL \<Rightarrow> sdhc_set_clock_div dev DIV_4 PRESCALER_2 SDCLK_TIMES_2_POW_29 s) })"

text \<open>The second condition of the loop is read only when the first is false.\<close>

partial_function (option) wait_lines :: "'h device \<Rightarrow> ('h, 'z) sdhc_scheme \<Rightarrow> ('h, 'z) sdhc_scheme option" where
  "wait_lines dev s = (let (v, s1) = readl dev PRES_STATE s
     in if v AND SDHC_PRES_STATE_CDIHB \<noteq> 0 then wait_lines dev s1
        else let (w, s2) = readl dev PRES_STATE s1
             in if w AND SDHC_PRES_STATE_CIHB \<noteq> 0 then wait_lines dev s2 else Some s2)"

definition reset_irqs :: u32 where
  "reset_irqs = INT_STATUS_ADMAE OR INT_STATUS_OVRCURE OR INT_STATUS_DEBE
           OR INT_STATUS_DCE OR INT_STATUS_DTOE OR INT_STATUS_CRM
           OR INT_STATUS_CINS OR INT_STATUS_BRR OR INT_STATUS_BWR
           OR INT_STATUS_CIE OR INT_STATUS_CEBE OR INT_STATUS_CCE
           OR INT_STATUS_CTOE OR INT_STATUS_TC OR INT_STATUS_CC"

definition sdhc_reset :: "'h device \<Rightarrow> ('h, 'z) sdhc_scheme \<Rightarrow> (int \<times> ('h, 'z) sdhc_scheme) option" where
  "sdhc_reset dev s =
     (let (v, s) = readl dev SYS_CTRL s
      in do {
        s \<leftarrow> wait_clear dev SYS_CTRL SYS_CTRL_RSTA (writel dev (v OR SYS_CTRL_RSTA) SYS_CTRL s);
        let s = writel dev reset_irqs INT_SIGNAL_EN (writel dev reset_irqs INT_STATUS_EN s);
        (r, s) \<leftarrow> sdhc_set_clock dev CLOCK_INITIAL s;
        let (v, s) = readl dev PROT_CTRL s;
        s \<leftarrow> wait_lines dev (writel dev (v OR MMC_MODE_4BIT) PROT_CTRL s);
        let (v, s) = readl dev SYS_CTRL s;
        s \<leftarrow> wait_clear dev SYS_CTRL SYS_CTRL_INITA (writel dev (v OR SYS_CTRL_INITA) SYS_CTRL s);
        let (v, s) = readl dev PRES_STATE s;
        Some (0, s) })"

definition sdhc_get_nth_irq :: "('h, 'z) sdhc_scheme \<Rightarrow> int \<Rightarrow> int option" where
  "sdhc_get_nth_irq s n = (if n < 0 \<or> n \<ge> nirqs s then Some (- 1) else rd (irq_table s) (nat n))"

definition sdhc_get_present_state_register :: "'h device \<Rightarrow> ('h, 'z) sdhc_scheme \<Rightarrow> u32 \<times> ('h, 'z) sdhc_scheme" where
  "sdhc_get_present_state_register dev s = readl dev PRES_STATE s"

definition sdhc_set_operational :: "'h device \<Rightarrow> ('h, 'z) sdhc_scheme \<Rightarrow> (int \<times> ('h, 'z) sdhc_scheme) option" where
  "sdhc_set_operational dev s = sdhc_set_clock dev CLOCK_OPERATIONAL s"

text \<open>
  The commands and buffers of the clients are given; \<open>None\<close> is a failed allocation. The number of remaining blocks is not initialised by the
  source, and not read before it is set; it is 0 here.
\<close>

definition sdhc_init :: "'h device \<Rightarrow> bool \<Rightarrow> 'h \<Rightarrow> int list \<Rightarrow> int \<Rightarrow> (u64 \<rightharpoonup> mmc_cmd) \<Rightarrow> (u64 \<Rightarrow> u32) \<Rightarrow> 'h sdhc option" where
  "sdhc_init dev malloc_ok h table n cs ws =
     (if \<not> malloc_ok then None
      else let s = \<lparr>hw = h, version = 0, nirqs = n, irq_table = table, cmd_list_head = None, cmd_list_tail = Head_Field,
                    blocks_remaining = 0, cmds = cs, words = ws\<rparr>;
               (v, s) = readl dev HOST_VERSION s;
               s = s\<lparr>version := int (unat (drop_bit 16 v AND 0xff)) + 1\<rparr>;
               s = writel dev 0 INT_SIGNAL_EN (writel dev 0 INT_STATUS_EN s);
               (v, s) = readl dev INT_STATUS s
           in Some (writel dev v INT_STATUS s))"

end
