(* ===== verification/Sdhc_Queue.thy ===== *)
theory Sdhc_Queue
  imports Sdhc
begin

text \<open>
  Correctness of the SD host controller driver of theory \<open>Sdhc\<close>: the linked list is a queue, commands are given to the controller once
  each and in order, an interrupt finishes the first command with the right outcome, and a blocking call returns.
\<close>

section \<open>What the parts leave alone\<close>

text \<open>Only the controller and the number of remaining blocks change.\<close>

definition same_list :: "('h, 'z) sdhc_scheme \<Rightarrow> ('h, 'z) sdhc_scheme \<Rightarrow> bool" where
  "same_list s s' \<longleftrightarrow> cmds s' = cmds s \<and> cmd_list_head s' = cmd_list_head s \<and> cmd_list_tail s' = cmd_list_tail s \<and> version s' = version s \<and>
     sdhc.more s' = sdhc.more s"

lemma same_list_refl [simp]: "same_list s s"
  by (simp add: same_list_def)

lemma same_list_trans [trans]: "same_list s t \<Longrightarrow> same_list t u \<Longrightarrow> same_list s u"
  by (simp add: same_list_def)

lemma readl_same: "readl dev a s = (v, s') \<Longrightarrow> same_list s s' \<and> words s' = words s \<and> blocks_remaining s' = blocks_remaining s"
  by (auto simp: readl_def same_list_def split: prod.splits)

lemma writel_simps [simp]:
  "cmds (writel dev v a s) = cmds s" "cmd_list_head (writel dev v a s) = cmd_list_head s"
  "cmd_list_tail (writel dev v a s) = cmd_list_tail s" "version (writel dev v a s) = version s"
  "words (writel dev v a s) = words s" "blocks_remaining (writel dev v a s) = blocks_remaining s" "sdhc.more (writel dev v a s) = sdhc.more s"
  by (simp_all add: writel_def)

text \<open>What every read of the register does, the polling loop does.\<close>

lemma wait_clear_rule:
  assumes step: "\<And>s v s1. readl dev a s = (v, s1) \<Longrightarrow> R s s1" and R: "transp R" and "wait_clear dev a bits s = Some s'"
  shows "R s s'"
proof -
  let ?P = "\<lambda>dev' a' bits s s'. dev' = dev \<longrightarrow> a' = a \<longrightarrow> R s s'"
  have "?P dev a bits s s'"
  proof (rule wait_clear.raw_induct [where P = ?P, OF _ assms(3)])
    fix wait :: "'a device \<Rightarrow> u32 \<Rightarrow> u32 \<Rightarrow> ('a, 'b) sdhc_scheme \<Rightarrow> ('a, 'b) sdhc_scheme option" and dev' a' bits s s'
    assume IH: "\<And>dev' a' bits s s'. wait dev' a' bits s = Some s' \<Longrightarrow> ?P dev' a' bits s s'"
      and run: "(let (v, s1) = readl dev' a' s in if v AND bits = 0 then Some s1 else wait dev' a' bits s1) = Some s'"
    obtain v s1 where r: "readl dev' a' s = (v, s1)" by fastforce
    with run step IH [of dev' a' bits s1 s'] show "?P dev' a' bits s s'"
      by (auto split: if_splits dest: transpD [OF R])
  qed
  then show ?thesis by simp
qed

lemma wait_clear_same:
  assumes "wait_clear dev a bits s = Some s'"
  shows "same_list s s' \<and> words s' = words s"
  by (rule wait_clear_rule [where R = "\<lambda>s s'. same_list s s' \<and> words s' = words s", OF _ _ assms])
    (auto dest: readl_same simp: transp_def same_list_def)

lemma setup_data_same: "same_list s (setup_data dev cmd d s)" "words (setup_data dev cmd d s) = words s"
proof -
  obtain v s1 where r: "readl dev SYS_CTRL s = (v, s1)" by fastforce
  show "same_list s (setup_data dev cmd d s)" "words (setup_data dev cmd d s) = words s"
    using readl_same [OF r] by (simp_all add: setup_data_def r Let_def same_list_def)
qed

lemma next_cmd_same:
  assumes "sdhc_next_cmd dev s = Some s'"
  shows "same_list s s' \<and> words s' = words s"
proof -
  obtain c cmd s1 s2 where c: "cmd_list_head s = Some c" "cmds s c = Some cmd"
    "wait_clear dev PRES_STATE (SDHC_PRES_STATE_CIHB OR SDHC_PRES_STATE_CDIHB) (writel dev (irq_enable cmd) INT_STATUS_EN s) = Some s1"
    "wait_clear dev PRES_STATE SDHC_PRES_STATE_DLA s1 = Some s2"
    using assms by (auto simp: sdhc_next_cmd_def Let_def)
  have s2: "same_list s s2 \<and> words s2 = words s"
    using wait_clear_same [OF c(3)] wait_clear_same [OF c(4)] by (simp add: same_list_def)
  show ?thesis
  proof (cases "cmd_data cmd")
    case None
    then show ?thesis using assms c s2 by (auto simp: sdhc_next_cmd_def Let_def same_list_def)
  next
    case (Some d)
    then show ?thesis
      using assms c s2 setup_data_same [where s = "writel dev (cmd_arg cmd) CMD_ARG s2" and dev = dev and cmd = cmd and d = d]
      by (auto simp: sdhc_next_cmd_def Let_def same_list_def split: if_splits)
  qed
qed

text \<open>The fields of a command that the driver never changes.\<close>

definition same_cmd :: "mmc_cmd \<Rightarrow> mmc_cmd \<Rightarrow> bool" where
  "same_cmd m m' \<longleftrightarrow> cmd_index m' = cmd_index m \<and> cmd_arg m' = cmd_arg m \<and> cmd_data m' = cmd_data m \<and> rsp_type m' = rsp_type m \<and>
     cmd_cb m' = cmd_cb m \<and> cmd_token m' = cmd_token m"

lemma read_response_same:
  "read_response dev cmd s = (cmd', s') \<Longrightarrow> same_list s s' \<and> words s' = words s \<and> blocks_remaining s' = blocks_remaining s \<and>
     same_cmd cmd cmd' \<and> cmd_next cmd' = cmd_next cmd \<and> cmd_complete cmd' = cmd_complete cmd"
  by (auto simp: read_response_def set_response_def Let_def same_cmd_def split: mmc_rsp_type.splits prod.splits if_splits dest!: readl_same)
    (simp_all add: same_list_def)

lemma pio_read_same: "same_list s (pio_read dev n a s) \<and> blocks_remaining (pio_read dev n a s) = blocks_remaining s"
proof (induction n arbitrary: a s)
  case (Suc n)
  obtain v s1 where r: "readl dev DATA_BUFF_ACC_PORT s = (v, s1)" by fastforce
  with readl_same [OF r] Suc [of "s1\<lparr>words := (words s1)(a := v)\<rparr>" "a + 4"] show ?case by (simp add: same_list_def)
qed simp

lemma pio_write_same: "same_list s (pio_write dev n a s) \<and> words (pio_write dev n a s) = words s \<and> blocks_remaining (pio_write dev n a s) = blocks_remaining s"
proof (induction n arbitrary: a s)
  case (Suc n)
  from Suc [of "writel dev (words s a) DATA_BUFF_ACC_PORT s" "a + 4"] show ?case by (simp add: same_list_def)
qed simp

lemma programmed_io_same: "programmed_io dev v cmd s = Some s' \<Longrightarrow> same_list s s'"
  using pio_read_same pio_write_same
  by (fastforce simp: programmed_io_def same_list_def Let_def split: if_splits option.splits)

section \<open>The queue\<close>

text \<open>The commands from a link on: all present, and none of them complete.\<close>

fun cmd_chain :: "(u64 \<rightharpoonup> mmc_cmd) \<Rightarrow> u64 option \<Rightarrow> u64 list \<Rightarrow> bool" where
  "cmd_chain cs p [] \<longleftrightarrow> p = None"
| "cmd_chain cs p (c # q) \<longleftrightarrow> p = Some c \<and> (\<exists>cmd. cs c = Some cmd \<and> cmd_complete cmd = 0 \<and> cmd_chain cs (cmd_next cmd) q)"

definition queue_inv :: "('h, 'z) sdhc_scheme \<Rightarrow> u64 list \<Rightarrow> bool" where
  "queue_inv s q \<longleftrightarrow> cmd_chain (cmds s) (cmd_list_head s) q \<and> distinct q \<and>
     cmd_list_tail s = (if q = [] then Head_Field else Next_Field (last q))"

lemma cmd_chain_other: "c \<notin> set q \<Longrightarrow> cmd_chain (cs(c := x)) p q = cmd_chain cs p q"
  by (induction q arbitrary: p) auto

lemma cmd_chain_cong: "(\<And>c. c \<in> set q \<Longrightarrow> cs' c = cs c) \<Longrightarrow> cmd_chain cs' p q = cmd_chain cs p q"
proof (induction q arbitrary: p)
  case (Cons a q)
  then show ?case by simp
qed simp

lemma cmd_chain_snoc:
  assumes "cmd_chain cs p q" and "distinct (q @ [c])" and "q \<noteq> []" and "cs (last q) = Some t" and "cs c = Some cmd"
    and "cmd_complete cmd = 0" and "cmd_next cmd = None"
  shows "cmd_chain (cs(last q \<mapsto> t\<lparr>cmd_next := Some c\<rparr>)) p (q @ [c])"
  using assms
proof (induction q arbitrary: p)
  case (Cons a q)
  show ?case
  proof (cases "q = []")
    case True
    with Cons.prems show ?thesis by auto
  next
    case False
    then have "a \<noteq> last q" using Cons.prems(2) by auto
    then show ?thesis using Cons.IH Cons.prems False by auto
  qed
qed simp

lemma queue_same: "same_list s s' \<Longrightarrow> queue_inv s' q = queue_inv s q"
  by (simp add: same_list_def queue_inv_def)

lemma queue_last:
  assumes "queue_inv s q" and "q \<noteq> []"
  shows "\<exists>t. cmds s (last q) = Some t \<and> cmd_complete t = 0"
proof -
  have "cmd_chain (cmds s) p q \<Longrightarrow> q \<noteq> [] \<Longrightarrow> \<exists>t. cmds s (last q) = Some t \<and> cmd_complete t = 0" for p
  proof (induction q arbitrary: p)
    case (Cons a q)
    then show ?case by (cases "q = []") auto
  qed simp
  then show ?thesis using assms by (auto simp: queue_inv_def)
qed

lemma append_queue:
  assumes "queue_inv s q" and "c \<notin> set q" and "cmds s c = Some cmd" and "cmd_complete cmd = 0" and "cmd_next cmd = None"
  shows "\<exists>s'. append_cmd c s = Some s' \<and> queue_inv s' (q @ [c]) \<and> hw s' = hw s \<and> version s' = version s \<and> sdhc.more s' = sdhc.more s \<and> words s' = words s \<and>
    (\<forall>x. map_option (\<lambda>m. m\<lparr>cmd_next := None\<rparr>) (cmds s' x) = map_option (\<lambda>m. m\<lparr>cmd_next := None\<rparr>) (cmds s x)) \<and>
    cmd_list_head s' = Some (hd (q @ [c]))"
proof (cases "q = []")
  case True
  then show ?thesis using assms by (auto simp: append_cmd_def queue_inv_def)
next
  case False
  from queue_last [OF assms(1) this] obtain t where t: "cmds s (last q) = Some t" by blast
  let ?s = "s\<lparr>cmds := (cmds s)(last q \<mapsto> t\<lparr>cmd_next := Some c\<rparr>), cmd_list_tail := Next_Field c\<rparr>"
  have "append_cmd c s = Some ?s" using False assms(1) t by (simp add: append_cmd_def queue_inv_def)
  moreover have "queue_inv ?s (q @ [c])"
    using assms cmd_chain_snoc [of "cmds s" "cmd_list_head s" q c t cmd] False t by (simp add: queue_inv_def)
  moreover have "cmd_list_head s = Some (hd q)" using assms(1) False by (cases q) (auto simp: queue_inv_def)
  ultimately show ?thesis using False t by auto
qed

lemma submit_queue:
  assumes "queue_inv s q" and "c \<notin> set q" and "cmds s c = Some cmd" and "submit dev c cb tok s = Some s'"
  shows "queue_inv s' (q @ [c]) \<and> version s' = version s \<and> sdhc.more s' = sdhc.more s \<and> words s' = words s \<and>
    (\<forall>x. map_option (\<lambda>m. m\<lparr>cmd_next := None\<rparr>) (cmds s' x) =
       map_option (\<lambda>m. m\<lparr>cmd_next := None\<rparr>) (((cmds s)(c \<mapsto> cmd\<lparr>cmd_complete := 0, cmd_cb := cb, cmd_token := tok\<rparr>)) x))"
proof -
  let ?s = "s\<lparr>cmds := (cmds s)(c \<mapsto> cmd\<lparr>cmd_complete := 0, cmd_next := None, cmd_cb := cb, cmd_token := tok\<rparr>)\<rparr>"
  have "queue_inv ?s q" using assms(1,2) cmd_chain_other [of c q "cmds s"] by (simp add: queue_inv_def)
  from append_queue [OF this assms(2)] obtain s1 where s1: "append_cmd c ?s = Some s1" "queue_inv s1 (q @ [c])"
    "version s1 = version s" "sdhc.more s1 = sdhc.more s" "words s1 = words s"
    "\<And>x. map_option (\<lambda>m. m\<lparr>cmd_next := None\<rparr>) (cmds s1 x) = map_option (\<lambda>m. m\<lparr>cmd_next := None\<rparr>) (cmds ?s x)"
    by auto
  have "same_list s1 s' \<and> words s' = words s1"
    using assms(3,4) s1(1) by (auto simp: submit_def split: if_splits dest: next_cmd_same)
  then show ?thesis using s1(2-) queue_same [of s1 s'] by (auto simp: same_list_def)
qed

section \<open>Interrupts\<close>

definition irq_error :: "u32 \<Rightarrow> bool" where
  "irq_error st = list_ex (\<lambda>b. st AND b \<noteq> 0) error_bits"

text \<open>The command has run: its data has been transferred, or its response has arrived and there is no data.\<close>

definition irq_done :: "u32 \<Rightarrow> mmc_cmd \<Rightarrow> bool" where
  "irq_done st cmd \<longleftrightarrow> st AND INT_STATUS_TC \<noteq> 0 \<or> (st AND INT_STATUS_CC \<noteq> 0 \<and> cmd_data cmd = None)"

definition irq_pio :: "u32 \<Rightarrow> bool" where
  "irq_pio st \<longleftrightarrow> st AND (INT_STATUS_BRR OR INT_STATUS_BWR) \<noteq> 0"

text \<open>The combinations of flags that the assertions of the handler allow.\<close>

definition irq_lawful :: "u32 \<Rightarrow> mmc_cmd \<Rightarrow> bool" where
  "irq_lawful st cmd \<longleftrightarrow>
     (irq_error st \<longrightarrow> \<not> irq_done st cmd \<and> \<not> irq_pio st) \<and>
     (cmd_data cmd = None \<longrightarrow> \<not> irq_pio st \<and> \<not> (st AND INT_STATUS_TC \<noteq> 0 \<and> st AND INT_STATUS_CC \<noteq> 0)) \<and>
     (irq_pio st \<longrightarrow> (\<forall>d. cmd_data cmd = Some d \<longrightarrow> vbuf d \<noteq> 0))"

definition irq_outcome :: "u32 \<Rightarrow> mmc_cmd \<Rightarrow> int" where
  "irq_outcome st cmd = (if irq_error st then - 1 else if irq_done st cmd then 1 else 0)"

lemma mark_errors_eq: "mark_errors st cmd = (if irq_error st then cmd\<lparr>cmd_complete := - 1\<rparr> else cmd)"
proof -
  have "fold (mark_error st) bs m = (if list_ex (\<lambda>b. st AND b \<noteq> 0) bs then m\<lparr>cmd_complete := - 1\<rparr> else m)" for bs m
    by (induction bs arbitrary: m) (auto simp: mark_error_def)
  then show ?thesis by (simp add: mark_errors_def irq_error_def)
qed

text \<open>The flags are handled in three parts; together they decide the outcome.\<close>

definition irq_flags :: "'h device \<Rightarrow> u32 \<Rightarrow> mmc_cmd \<Rightarrow> ('h, 'z) sdhc_scheme \<Rightarrow> (mmc_cmd \<times> ('h, 'z) sdhc_scheme) option" where
  "irq_flags dev st cmd s = do {
     (m, s1) \<leftarrow> command_complete dev st (mark_errors st cmd) s;
     s2 \<leftarrow> programmed_io dev st m s1;
     m' \<leftarrow> transfer_complete st m;
     Some (m', s2) }"

lemma command_complete_same:
  assumes "command_complete dev st m s = Some (m1, s1)"
  shows "same_list s s1 \<and> same_cmd m m1 \<and> cmd_next m1 = cmd_next m \<and> blocks_remaining s1 = blocks_remaining s \<and> words s1 = words s \<and>
     cmd_complete m1 = (if st AND INT_STATUS_CC \<noteq> 0 \<and> cmd_data m = None then 1 else cmd_complete m) \<and>
     (st AND INT_STATUS_CC \<noteq> 0 \<and> cmd_data m = None \<longrightarrow> cmd_complete m = 0)"
proof -
  obtain m2 s2 where r: "read_response dev m s = (m2, s2)" by fastforce
  from read_response_same [OF r] show ?thesis
    using assms by (auto simp: command_complete_def r same_cmd_def split: if_splits)
qed

lemma command_complete_runs:
  assumes "st AND INT_STATUS_CC \<noteq> 0 \<and> cmd_data m = None \<longrightarrow> cmd_complete m = 0"
  shows "\<exists>m1 s1. command_complete dev st m s = Some (m1, s1)"
proof -
  obtain m2 s2 where r: "read_response dev m s = (m2, s2)" by fastforce
  from read_response_same [OF r] assms show ?thesis by (auto simp: command_complete_def r same_cmd_def)
qed

lemma irq_flags_outcome:
  assumes "cmd_complete cmd = 0" and "irq_flags dev st cmd s = Some (m, s')"
  shows "irq_lawful st cmd \<and> same_cmd cmd m \<and> cmd_next m = cmd_next cmd \<and> cmd_complete m = irq_outcome st cmd \<and> same_list s s'"
proof -
  obtain m1 s1 where c: "command_complete dev st (mark_errors st cmd) s = Some (m1, s1)" "programmed_io dev st m1 s1 = Some s'"
    "transfer_complete st m1 = Some m"
    using assms(2) by (auto simp: irq_flags_def split: bind_splits)
  note c1 = command_complete_same [OF c(1)]
  have "same_list s s'" using c1 programmed_io_same [OF c(2)] by (auto intro: same_list_trans)
  moreover have "same_cmd cmd m" "cmd_next m = cmd_next cmd"
    using c1 c(3) by (auto simp: same_cmd_def mark_errors_eq transfer_complete_def split: if_splits)
  moreover have "irq_lawful st cmd"
    using c1 c(2,3) assms(1)
    by (auto simp: irq_lawful_def irq_pio_def irq_done_def mark_errors_eq same_cmd_def programmed_io_def transfer_complete_def
        split: if_splits option.splits)
  moreover have "cmd_complete m = irq_outcome st cmd"
    using c1 c(3) assms(1)
    by (auto simp: irq_outcome_def irq_done_def mark_errors_eq transfer_complete_def same_cmd_def split: if_splits)
  ultimately show ?thesis by blast
qed

lemma irq_flags_runs:
  assumes "cmd_complete cmd = 0" and "irq_lawful st cmd"
  shows "irq_flags dev st cmd s \<noteq> None"
proof -
  obtain m1 s1 where c: "command_complete dev st (mark_errors st cmd) s = Some (m1, s1)"
  proof -
    have "st AND INT_STATUS_CC \<noteq> 0 \<and> cmd_data (mark_errors st cmd) = None \<longrightarrow> cmd_complete (mark_errors st cmd) = 0"
      using assms by (auto simp: mark_errors_eq irq_lawful_def irq_done_def)
    from command_complete_runs [OF this] show ?thesis using that by blast
  qed
  note c1 = command_complete_same [OF c]
  have "programmed_io dev st m1 s1 \<noteq> None"
    using c1 assms
    by (auto simp: programmed_io_def irq_lawful_def irq_pio_def irq_done_def mark_errors_eq same_cmd_def Let_def split: option.splits if_splits)
  moreover have "transfer_complete st m1 \<noteq> None"
    using c1 assms by (auto simp: transfer_complete_def irq_lawful_def irq_done_def mark_errors_eq same_cmd_def split: if_splits)
  ultimately show ?thesis by (auto simp: irq_flags_def c)
qed

lemma irq_step_flags:
  assumes "cmd_list_head s = Some c" and "cmds s c = Some cmd" and "readl dev INT_STATUS s = (st, s1)"
  shows "sdhc_irq_step dev s = do {
    (m, s2) \<leftarrow> irq_flags dev st cmd s1;
    let s3 = writel dev st INT_STATUS (s2\<lparr>cmds := (cmds s2)(c \<mapsto> m)\<rparr>);
    (if cmd_complete m \<noteq> 0 then do { s4 \<leftarrow> retire dev c m s3; Some (Some c, s4) } else Some (None, s3)) }"
proof -
  have h: "cmd_list_head s1 = Some c" "cmds s1 c = Some cmd" using assms readl_same [OF assms(3)] by (auto simp: same_list_def)
  show ?thesis
    by (simp add: sdhc_irq_step_def irq_flags_def assms(3) h Let_def Option.bind_assoc case_prod_beta split: bind_split)
qed

lemma retire_queue:
  assumes "queue_inv s (c # q)" and "cmds s c = Some cmd'" and "cmd_next m = cmd_next cmd'"
    and "retire dev c m (s\<lparr>cmds := (cmds s)(c \<mapsto> m)\<rparr>) = Some s'"
  shows "queue_inv s' q \<and> cmds s' = (cmds s)(c \<mapsto> m\<lparr>cmd_next := None\<rparr>) \<and> version s' = version s \<and> sdhc.more s' = sdhc.more s \<and> words s' = words s"
proof -
  have q: "cmd_chain (cmds s) (cmd_next m) q" "c \<notin> set q" "distinct q" using assms(1-3) by (auto simp: queue_inv_def)
  show ?thesis
  proof (cases "cmd_next m")
    case None
    then have "q = []" using q(1) by (cases q) auto
    with None assms(4) show ?thesis by (auto simp: retire_def queue_inv_def)
  next
    case (Some n)
    then obtain r where r: "q = n # r" using q(1) by (cases q) auto
    let ?s = "s\<lparr>cmds := (cmds s)(c \<mapsto> m), cmd_list_head := Some n\<rparr>"
    obtain s1 where s1: "sdhc_next_cmd dev ?s = Some s1" "s' = s1\<lparr>cmds := (cmds s1)(c \<mapsto> m\<lparr>cmd_next := None\<rparr>)\<rparr>"
      using assms(4) Some by (auto simp: retire_def split: bind_splits)
    from next_cmd_same [OF s1(1)] q assms(1) Some r show ?thesis
      by (auto simp: s1(2) same_list_def queue_inv_def cmd_chain_other)
  qed
qed

lemma irq_step_outcome:
  assumes inv: "queue_inv s (c # q)" and cmd: "cmds s c = Some cmd" and st: "readl dev INT_STATUS s = (st, s1)"
    and run: "sdhc_irq_step dev s = Some (fin, s')"
  shows "irq_lawful st cmd \<and> fin = (if irq_outcome st cmd = 0 then None else Some c) \<and>
    queue_inv s' (if irq_outcome st cmd = 0 then c # q else q) \<and> version s' = version s \<and> sdhc.more s' = sdhc.more s \<and>
    (\<exists>m. cmds s' = (cmds s)(c \<mapsto> m) \<and> same_cmd cmd m \<and> cmd_complete m = irq_outcome st cmd \<and>
       cmd_next m = (if irq_outcome st cmd = 0 then cmd_next cmd else None))"
proof -
  have h: "cmd_list_head s = Some c" "cmd_complete cmd = 0" using inv cmd by (auto simp: queue_inv_def)
  obtain m s2 where f: "irq_flags dev st cmd s1 = Some (m, s2)"
    using run by (auto simp: irq_step_flags [OF h(1) cmd st] split: bind_splits)
  note o = irq_flags_outcome [OF h(2) f]
  have s2: "same_list s s2" using o readl_same [OF st] by (auto intro: same_list_trans)
  let ?s3 = "writel dev st INT_STATUS (s2\<lparr>cmds := (cmds s2)(c \<mapsto> m)\<rparr>)"
  let ?t3 = "writel dev st INT_STATUS s2"
  have c3: "?s3 = ?t3\<lparr>cmds := (cmds ?t3)(c \<mapsto> m)\<rparr>" by (simp add: writel_def)
  show ?thesis
  proof (cases "irq_outcome st cmd = 0")
    case True
    have "s' = ?s3" "fin = None" using run True o f by (simp_all add: irq_step_flags [OF h(1) cmd st] Let_def)
    then show ?thesis using True o s2 inv cmd by (auto simp: same_list_def queue_inv_def cmd_chain_other)
  next
    case False
    then have r: "retire dev c m ?s3 = Some s'" "fin = Some c"
      using run o f by (auto simp: irq_step_flags [OF h(1) cmd st] Let_def split: bind_splits)
    have "queue_inv ?t3 (c # q)" "cmds ?t3 c = Some cmd" using inv s2 cmd queue_same [OF s2] by (auto simp: queue_inv_def same_list_def)
    from retire_queue [OF this _ r(1) [unfolded c3]] o s2 r(2) False show ?thesis
      by (auto simp: same_list_def same_cmd_def intro!: exI [of _ "m\<lparr>cmd_next := None\<rparr>"])
  qed
qed

section \<open>Access to the controller\<close>

text \<open>
  A relation between states of the controller that every read keeps, and every write that is not part of giving it a command. The parts of the
  driver that only use such accesses keep it too.
\<close>

locale quiet_device =
  fixes dev :: "'h device" and R :: "'h \<Rightarrow> 'h \<Rightarrow> bool"
  assumes refl: "R h h"
    and trans: "R h h' \<Longrightarrow> R h' h'' \<Longrightarrow> R h h''"
    and reads: "dv_read dev h a = (v, h') \<Longrightarrow> R h h'"
    and writes: "a \<noteq> CMD_ARG \<Longrightarrow> a \<noteq> CMD_XFR_TYP \<Longrightarrow> R h (dv_write dev h a v)"
begin

lemma readl_quiet: "readl dev a s = (v, s') \<Longrightarrow> R (hw s) (hw s')"
  by (auto simp: readl_def split: prod.splits dest: reads)

lemma writel_quiet: "a \<noteq> CMD_ARG \<Longrightarrow> a \<noteq> CMD_XFR_TYP \<Longrightarrow> R (hw s) (hw (writel dev v a s))"
  by (simp add: writel_def writes)

lemma wait_clear_quiet:
  assumes "wait_clear dev a bits s = Some s'"
  shows "R (hw s) (hw s')"
  by (rule wait_clear_rule [where R = "\<lambda>s s'. R (hw s) (hw s')", OF _ _ assms]) (auto simp: transp_def dest: readl_quiet intro: trans)

lemma setup_data_quiet: "R (hw s) (hw (setup_data dev cmd d s))"
proof -
  obtain v s1 where r: "readl dev SYS_CTRL s = (v, s1)" by fastforce
  let ?s2 = "writel dev (watermark cmd d) WTMK_LVL (writel dev (blk_att d) BLK_ATT (writel dev ((v AND NOT (push_bit 16 0xff)) OR push_bit 16 0xE) SYS_CTRL s1))"
  have "R (hw s) (hw ?s2)"
    using readl_quiet [OF r] by (auto simp: reg_defs intro!: trans [OF _ writel_quiet])
  moreover have "DS_ADDR \<noteq> CMD_ARG" "DS_ADDR \<noteq> CMD_XFR_TYP" by (simp_all add: reg_defs)
  ultimately show ?thesis by (auto simp: setup_data_def r Let_def intro: trans [OF _ writel_quiet])
qed

lemma read_response_quiet:
  assumes "read_response dev cmd s = (m, s')"
  shows "R (hw s) (hw s')"
proof (cases "rsp_type cmd = MMC_RSP_TYPE_R2")
  case True
  with assms show ?thesis
    by (auto simp: read_response_def split: prod.splits dest!: readl_quiet) (blast intro: trans)
next
  case False
  with assms show ?thesis
    by (auto simp: read_response_def refl split: mmc_rsp_type.splits prod.splits if_splits dest: readl_quiet)
qed

lemma pio_read_quiet: "R (hw s) (hw (pio_read dev n a s))"
proof (induction n arbitrary: a s)
  case (Suc n)
  obtain v s1 where r: "readl dev DATA_BUFF_ACC_PORT s = (v, s1)" by fastforce
  from Suc [of "s1\<lparr>words := (words s1)(a := v)\<rparr>" "a + 4"] readl_quiet [OF r] show ?case by (auto simp: r intro: trans)
qed (simp add: refl)

lemma pio_write_quiet: "R (hw s) (hw (pio_write dev n a s))"
proof (induction n arbitrary: a s)
  case (Suc n)
  from Suc [of "writel dev (words s a) DATA_BUFF_ACC_PORT s" "a + 4"] show ?case
    using trans [OF writel_quiet [where a = DATA_BUFF_ACC_PORT and s = s and v = "words s a"]] by (simp add: reg_defs)
qed (simp add: refl)

lemma irq_flags_quiet:
  assumes "irq_flags dev st cmd s = Some (m, s')"
  shows "R (hw s) (hw s')"
proof -
  obtain m1 s1 where c: "command_complete dev st (mark_errors st cmd) s = Some (m1, s1)" "programmed_io dev st m1 s1 = Some s'"
    using assms by (auto simp: irq_flags_def split: bind_splits)
  obtain m2 s2 where r: "read_response dev (mark_errors st cmd) s = (m2, s2)" by fastforce
  have "R (hw s) (hw s1)" using c(1) read_response_quiet [OF r] by (auto simp: command_complete_def r refl split: if_splits)
  moreover have "R (hw s1) (hw s')"
    using c(2) by (auto simp: programmed_io_def pio_read_quiet pio_write_quiet Let_def refl split: if_splits option.splits)
  ultimately show ?thesis by (rule trans)
qed

end

section \<open>What the controller is told\<close>

text \<open>A controller that keeps a record of the commands written to it: the argument and the command word of each.\<close>

type_synonym 'h log_state = "'h \<times> u32 \<times> (u32 \<times> u32) list"

definition logged :: "'h device \<Rightarrow> 'h log_state device" where
  "logged dev = \<lparr>
     dv_read = \<lambda>(h, x) a. (case dv_read dev h a of (v, h') \<Rightarrow> (v, h', x)),
     dv_write = \<lambda>(h, arg, log) a v.
       (dv_write dev h a v, if a = CMD_ARG then v else arg, if a = CMD_XFR_TYP then log @ [(arg, v)] else log)\<rparr>"

definition issued :: "'h log_state sdhc \<Rightarrow> (u32 \<times> u32) list" where
  "issued s = snd (snd (hw s))"

text \<open>The argument and the word of a command, for a controller of the given version.\<close>

definition command_word :: "int \<Rightarrow> mmc_cmd \<Rightarrow> u32 \<times> u32" where
  "command_word ver cmd = (cmd_arg cmd, xfr_typ cmd (case cmd_data cmd of None \<Rightarrow> 0 | Some d \<Rightarrow> if ver = 2 then mixer cmd d else 0))"

lemma command_word_cong: "same_cmd cmd m \<Longrightarrow> command_word ver m = command_word ver cmd"
  by (simp add: command_word_def same_cmd_def xfr_typ_def mixer_def get_dma_mode_def Let_def split: option.splits)

interpretation la: quiet_device "logged dev" "\<lambda>h h'. snd h' = snd h" for dev
  by unfold_locales (auto simp: logged_def split: prod.splits)

lemma writel_logged: "snd (hw (writel (logged dev) v a s)) =
    (if a = CMD_ARG then v else fst (snd (hw s)), if a = CMD_XFR_TYP then issued s @ [(fst (snd (hw s)), v)] else issued s)"
  by (simp add: writel_def logged_def issued_def split: prod.splits)

lemma next_cmd_logged:
  assumes "sdhc_next_cmd (logged dev) s = Some s'" and "cmd_list_head s = Some c" and "cmds s c = Some cmd"
  shows "issued s' = issued s @ [command_word (version s) cmd]"
proof -
  obtain s1 s2 where w:
    "wait_clear (logged dev) PRES_STATE (SDHC_PRES_STATE_CIHB OR SDHC_PRES_STATE_CDIHB) (writel (logged dev) (irq_enable cmd) INT_STATUS_EN s) = Some s1"
    "wait_clear (logged dev) PRES_STATE SDHC_PRES_STATE_DLA s1 = Some s2"
    using assms by (auto simp: sdhc_next_cmd_def Let_def split: bind_splits)
  have s2: "snd (hw s2) = snd (hw s)" "version s2 = version s"
    using la.wait_clear_quiet [OF w(1)] la.wait_clear_quiet [OF w(2)] wait_clear_same [OF w(1)] wait_clear_same [OF w(2)]
    by (auto simp: writel_logged same_list_def reg_defs issued_def)
  show ?thesis
  proof (cases "cmd_data cmd")
    case None
    then show ?thesis using assms w s2 by (auto simp: sdhc_next_cmd_def Let_def issued_def writel_logged command_word_def reg_defs)
  next
    case (Some d)
    have "version (setup_data (logged dev) cmd d (writel (logged dev) (cmd_arg cmd) CMD_ARG s2)) = version s"
      using setup_data_same(1) [where s = "writel (logged dev) (cmd_arg cmd) CMD_ARG s2" and dev = "logged dev" and cmd = cmd and d = d] s2
      by (simp add: same_list_def)
    then show ?thesis
      using assms w s2 Some
      by (auto simp: sdhc_next_cmd_def Let_def issued_def writel_logged la.setup_data_quiet command_word_def reg_defs split: if_splits)
  qed
qed

lemma retire_logged:
  assumes "retire (logged dev) c m s = Some s'" and "\<forall>n. cmd_next m = Some n \<longrightarrow> cmds s n \<noteq> None"
  shows "issued s' = issued s @ (case cmd_next m of None \<Rightarrow> [] | Some n \<Rightarrow> [command_word (version s) (the (cmds s n))])"
proof (cases "cmd_next m")
  case None
  with assms show ?thesis by (auto simp: retire_def issued_def)
next
  case (Some n)
  then obtain s1 where s1: "sdhc_next_cmd (logged dev) (s\<lparr>cmd_list_head := Some n\<rparr>) = Some s1" "s' = s1\<lparr>cmds := (cmds s1)(c \<mapsto> m\<lparr>cmd_next := None\<rparr>)\<rparr>"
    using assms(1) by (auto simp: retire_def split: bind_splits)
  obtain nc where "cmds s n = Some nc" using Some assms(2) by auto
  with next_cmd_logged [OF s1(1)] Some show ?thesis by (simp add: s1(2) issued_def)
qed

lemma irq_step_issued:
  assumes inv: "queue_inv s (c # q)" and run: "sdhc_irq_step (logged dev) s = Some (fin, s')"
  shows "issued s' = issued s @ (if fin = None then [] else map (\<lambda>n. command_word (version s) (the (cmds s n))) (take 1 q))"
proof -
  obtain cmd where cmd: "cmds s c = Some cmd" "cmd_complete cmd = 0" "cmd_chain (cmds s) (cmd_next cmd) q" using inv by (auto simp: queue_inv_def)
  obtain st s1 where st: "readl (logged dev) INT_STATUS s = (st, s1)" by fastforce
  have h: "cmd_list_head s = Some c" using inv by (simp add: queue_inv_def)
  obtain m s2 where f: "irq_flags (logged dev) st cmd s1 = Some (m, s2)"
    using run by (auto simp: irq_step_flags [OF h cmd(1) st] split: bind_splits)
  note o = irq_flags_outcome [OF cmd(2) f]
  let ?s3 = "writel (logged dev) st INT_STATUS (s2\<lparr>cmds := (cmds s2)(c \<mapsto> m)\<rparr>)"
  have s3: "issued ?s3 = issued s" "version ?s3 = version s" "cmds s2 = cmds s"
    using la.irq_flags_quiet [OF f] la.readl_quiet [OF st] o readl_same [OF st] by (auto simp: writel_logged issued_def reg_defs same_list_def)
  show ?thesis
  proof (cases "cmd_complete m = 0")
    case True
    then show ?thesis using run f s3 by (auto simp: irq_step_flags [OF h cmd(1) st])
  next
    case False
    then have r: "retire (logged dev) c m ?s3 = Some s'" "fin = Some c"
      using run f by (auto simp: irq_step_flags [OF h cmd(1) st] Let_def split: bind_splits)
    have "c \<notin> set q" using inv by (simp add: queue_inv_def)
    then show ?thesis using retire_logged [OF r(1)] s3 r(2) o cmd(3) by (cases q) auto
  qed
qed

lemma submit_issued:
  assumes "queue_inv s q" and "c \<notin> set q" and "cmds s c = Some cmd" and "submit (logged dev) c cb tok s = Some s'"
  shows "issued s' = issued s @ (if q = [] then [command_word (version s) cmd] else [])"
proof -
  let ?s = "s\<lparr>cmds := (cmds s)(c \<mapsto> cmd\<lparr>cmd_complete := 0, cmd_next := None, cmd_cb := cb, cmd_token := tok\<rparr>)\<rparr>"
  have "queue_inv ?s q" using assms(1,2) cmd_chain_other [of c q "cmds s"] by (simp add: queue_inv_def)
  from append_queue [OF this assms(2)] obtain s1 where s1: "append_cmd c ?s = Some s1" "hw s1 = hw s" "version s1 = version s"
    "\<And>x. map_option (\<lambda>m. m\<lparr>cmd_next := None\<rparr>) (cmds s1 x) = map_option (\<lambda>m. m\<lparr>cmd_next := None\<rparr>) (cmds ?s x)"
    "cmd_list_head s1 = Some (hd (q @ [c]))" by auto
  show ?thesis
  proof (cases "q = []")
    case True
    obtain m where m: "cmds s1 c = Some m" "m\<lparr>cmd_next := None\<rparr> = cmd\<lparr>cmd_complete := 0, cmd_next := None, cmd_cb := cb, cmd_token := tok\<rparr>"
      using s1(4) [of c] by auto
    have "same_cmd (cmd\<lparr>cmd_cb := cb, cmd_token := tok\<rparr>) m" using m(2) by (cases m, cases cmd) (auto simp: same_cmd_def)
    then have "command_word (version s) m = command_word (version s) cmd"
      using command_word_cong by (force simp: command_word_def xfr_typ_def mixer_def get_dma_mode_def Let_def)
    moreover have "sdhc_next_cmd (logged dev) s1 = Some s'" using assms(3,4) s1 True by (simp add: submit_def)
    ultimately show ?thesis using next_cmd_logged [OF _ _ m(1)] s1 True by (simp add: issued_def)
  next
    case False
    then have "hd (q @ [c]) \<noteq> c" using assms(2) by (cases q) auto
    then show ?thesis using assms(3,4) s1 False by (simp add: submit_def issued_def)
  qed
qed

section \<open>Runs of the driver\<close>

text \<open>
  A run: the clients send commands that are not pending and change memory except for the pending commands, and interrupts are handled.
  The lists hold the commands sent so far (address, argument and command word at the time of sending) and the addresses of those finished.
\<close>

inductive sd_run :: "'h device \<Rightarrow> 'h log_state sdhc \<Rightarrow> (u64 \<times> u32 \<times> u32) list \<Rightarrow> u64 list \<Rightarrow> bool" for dev where
  start: "sdhc_init (logged dev) True (h, 0, []) table n cs ws = Some s \<Longrightarrow> sd_run dev s [] []"
| send: "sd_run dev s sent fin \<Longrightarrow> c \<notin> fst ` set (drop (length fin) sent) \<Longrightarrow> cmds s c = Some cmd \<Longrightarrow> submit (logged dev) c cb tok s = Some s' \<Longrightarrow>
    sd_run dev s' (sent @ [(c, command_word (version s) cmd)]) fin"
| interrupt: "sd_run dev s sent fin \<Longrightarrow> sdhc_irq_step (logged dev) s = Some (None, s') \<Longrightarrow> sd_run dev s' sent fin"
| finish: "sd_run dev s sent fin \<Longrightarrow> sdhc_irq_step (logged dev) s = Some (Some c, s') \<Longrightarrow> sd_run dev s' sent (fin @ [c])"
| client: "sd_run dev s sent fin \<Longrightarrow> (\<forall>c \<in> fst ` set (drop (length fin) sent). cs c = cmds s c) \<Longrightarrow>
    sd_run dev (s\<lparr>cmds := cs, words := ws\<rparr>) sent fin"

text \<open>The pending commands are those in the list, unchanged since they were sent.\<close>

definition cmds_pending :: "'h sdhc \<Rightarrow> (u64 \<times> u32 \<times> u32) list \<Rightarrow> bool" where
  "cmds_pending s p \<longleftrightarrow> queue_inv s (map fst p) \<and> (\<forall>(c, w) \<in> set p. \<exists>cmd. cmds s c = Some cmd \<and> command_word (version s) cmd = w)"

lemma cmds_pendingD: "cmds_pending s p \<Longrightarrow> (c, w) \<in> set p \<Longrightarrow> \<exists>cmd. cmds s c = Some cmd \<and> command_word (version s) cmd = w"
  by (auto simp: cmds_pending_def)

lemma pending_client:
  assumes "cmds_pending s p" and eq: "\<And>c. c \<in> fst ` set p \<Longrightarrow> cs c = cmds s c"
  shows "cmds_pending (s\<lparr>cmds := cs, words := ws\<rparr>) p"
proof -
  have "cmd_chain cs q (map fst p) = cmd_chain (cmds s) q (map fst p)" for q using eq by (intro cmd_chain_cong) auto
  then have "queue_inv (s\<lparr>cmds := cs, words := ws\<rparr>) (map fst p)" using assms(1) by (simp add: cmds_pending_def queue_inv_def)
  moreover have "\<exists>cmd. cs c = Some cmd \<and> command_word (version s) cmd = w" if "(c, w) \<in> set p" for c w
  proof -
    have "cs c = cmds s c" using eq that by force
    with cmds_pendingD [OF assms(1) that] show ?thesis by simp
  qed
  ultimately show ?thesis by (auto simp: cmds_pending_def)
qed

lemma pending_submit:
  assumes "cmds_pending s p" and "c \<notin> fst ` set p" and "cmds s c = Some cmd" and "submit (logged dev) c cb tok s = Some s'"
  shows "cmds_pending s' (p @ [(c, command_word (version s) cmd)]) \<and> version s' = version s \<and>
    issued s' = issued s @ (if p = [] then [command_word (version s) cmd] else [])"
proof -
  have q: "queue_inv s (map fst p)" "c \<notin> set (map fst p)" using assms(1,2) by (auto simp: cmds_pending_def)
  note sq = submit_queue [OF q assms(3,4)]
  have word: "\<exists>m. cmds s' x = Some m \<and> command_word (version s) m = command_word (version s) y"
    if "((cmds s)(c \<mapsto> cmd\<lparr>cmd_complete := 0, cmd_cb := cb, cmd_token := tok\<rparr>)) x = Some y" for x y
  proof -
    have "map_option (\<lambda>m. m\<lparr>cmd_next := None\<rparr>) (cmds s' x) = map_option (\<lambda>m. m\<lparr>cmd_next := None\<rparr>) (Some y)"
      using sq unfolding that [symmetric] by blast
    then obtain m where m: "cmds s' x = Some m" "m\<lparr>cmd_next := None\<rparr> = y\<lparr>cmd_next := None\<rparr>" by (cases "cmds s' x") simp_all
    then have "same_cmd y m" by (cases m, cases y) (auto simp: same_cmd_def)
    with m(1) command_word_cong show ?thesis by blast
  qed
  have new: "command_word (version s) (cmd\<lparr>cmd_complete := 0, cmd_cb := cb, cmd_token := tok\<rparr>) = command_word (version s) cmd"
    by (cases "cmd_data cmd") (simp_all add: command_word_def xfr_typ_def mixer_def get_dma_mode_def Let_def)
  have "\<exists>m. cmds s' x = Some m \<and> command_word (version s) m = w" if "(x, w) \<in> set p" for x w
  proof -
    have "x \<noteq> c" using assms(2) that by force
    moreover from cmds_pendingD [OF assms(1) that] obtain y where "cmds s x = Some y" "command_word (version s) y = w" by blast
    ultimately show ?thesis using word [of x y] by auto
  qed
  then show ?thesis using sq word [of c] new submit_issued [OF q assms(3,4)] by (auto simp: cmds_pending_def)
qed

lemma pending_irq:
  assumes "cmds_pending s p" and "sdhc_irq_step (logged dev) s = Some (fin, s')"
  shows "version s' = version s \<and> (case fin of
      None \<Rightarrow> cmds_pending s' p \<and> issued s' = issued s
    | Some c \<Rightarrow> \<exists>w r. p = (c, w) # r \<and> cmds_pending s' r \<and> issued s' = issued s @ map snd (take 1 r))"
proof (cases p)
  case Nil
  obtain st s1 where r: "readl (logged dev) INT_STATUS s = (st, s1)" by fastforce
  have h: "cmd_list_head s1 = None" using assms(1) Nil readl_same [OF r] by (auto simp: cmds_pending_def queue_inv_def same_list_def)
  have "fin = None" "s' = writel (logged dev) st INT_STATUS s1" using assms(2) by (simp_all add: sdhc_irq_step_def r h)
  with readl_same [OF r] la.readl_quiet [OF r] show ?thesis
    using assms(1) Nil by (auto simp: cmds_pending_def queue_inv_def same_list_def writel_logged issued_def reg_defs)
next
  case (Cons cw r)
  obtain c w where cw: "cw = (c, w)" by (cases cw)
  have inv: "queue_inv s (c # map fst r)" using assms(1) Cons cw by (simp add: cmds_pending_def)
  then obtain cmd where cmd: "cmds s c = Some cmd" by (auto simp: queue_inv_def)
  obtain st s1 where st: "readl (logged dev) INT_STATUS s = (st, s1)" by fastforce
  from irq_step_outcome [OF inv cmd st assms(2)] obtain m where o:
    "fin = (if irq_outcome st cmd = 0 then None else Some c)" "queue_inv s' (if irq_outcome st cmd = 0 then c # map fst r else map fst r)"
    "version s' = version s" "cmds s' = (cmds s)(c \<mapsto> m)" "same_cmd cmd m" by blast
  have c: "c \<notin> fst ` set r" using inv by (simp add: queue_inv_def)
  have rest: "\<exists>y. cmds s' x = Some y \<and> command_word (version s') y = v" if "(x, v) \<in> set r" for x v
  proof -
    have "x \<noteq> c" using c that by force
    then show ?thesis using assms(1) Cons o(3,4) that by (auto simp: cmds_pending_def)
  qed
  have words: "map (\<lambda>n. command_word (version s) (the (cmds s n))) (map fst r) = map snd r"
    using assms(1) Cons by (force simp: cmds_pending_def)
  have "issued s' = issued s @ (if fin = None then [] else map snd (take 1 r))"
    using irq_step_issued [OF inv assms(2)] words by (metis (no_types, lifting) take_map)
  then show ?thesis
    using o rest Cons cw cmd command_word_cong [OF o(5)] assms(1) by (auto simp: cmds_pending_def)
qed

lemma sd_run_fifo:
  assumes "sd_run dev s sent fin"
  shows "length fin \<le> length sent \<and> fin = map fst (take (length fin) sent) \<and> cmds_pending s (drop (length fin) sent) \<and>
    issued s = map snd (take (Suc (length fin)) sent)"
  using assms
proof induction
  case (start h table n cs ws s)
  obtain v s1 where "readl (logged dev) HOST_VERSION \<lparr>hw = (h, 0, []), version = 0, nirqs = n, irq_table = table, cmd_list_head = None, cmd_list_tail = Head_Field,
                    blocks_remaining = 0, cmds = cs, words = ws\<rparr> = (v, s1)" by fastforce
  note r1 = this readl_same [OF this] la.readl_quiet [OF this]
  let ?s = "writel (logged dev) 0 INT_SIGNAL_EN (writel (logged dev) 0 INT_STATUS_EN (s1\<lparr>version := uint (drop_bit 16 v AND 0xff) + 1\<rparr>))"
  obtain w s2 where "readl (logged dev) INT_STATUS ?s = (w, s2)" by fastforce
  note r2 = this readl_same [OF this] la.readl_quiet [OF this]
  have "s = writel (logged dev) w INT_STATUS s2" using start by (simp add: sdhc_init_def r1(1) r2(1) Let_def)
  then show ?case using r1(2-) r2(2-) by (auto simp: cmds_pending_def queue_inv_def same_list_def issued_def writel_logged reg_defs)
next
  case (send s sent fin c cmd cb tok s')
  then show ?case using pending_submit [OF _ send(2-4)] by (auto simp: take_Suc_conv_app_nth Suc_le_eq)
next
  case (interrupt s sent fin s')
  then show ?case using pending_irq [OF _ interrupt(2)] by auto
next
  case (finish s sent fin c s')
  then have "cmds_pending s (drop (length fin) sent)" by blast
  from pending_irq [OF this finish(2)] obtain w r where
    r: "drop (length fin) sent = (c, w) # r" "cmds_pending s' r" "issued s' = issued s @ map snd (take 1 r)" by auto
  then have lt: "length fin < length sent" and nth: "sent ! length fin = (c, w)"
    by (metis drop_eq_Nil leI list.distinct(1), metis nth_via_drop)
  have "r = drop (Suc (length fin)) sent" using r(1) by (metis Cons_nth_drop_Suc list.inject lt)
  moreover have "take (Suc (Suc (length fin))) sent = take (Suc (length fin)) sent @ take 1 (drop (Suc (length fin)) sent)"
    using take_add [of "Suc (length fin)" 1 sent] by simp
  ultimately show ?case using r finish(3) lt nth by (simp add: take_Suc_conv_app_nth)
next
  case (client s sent fin cs ws)
  then have "cmds_pending (s\<lparr>cmds := cs, words := ws\<rparr>) (drop (length fin) sent)" by (intro pending_client) auto
  then show ?case using client(3) by (simp add: issued_def)
qed

section \<open>Blocking calls\<close>

text \<open>
  What the driver relies on in a controller: it never reports an error together with success or with a request for data, it reports completion of
  a transfer and asks for data only for a command with data, and it cannot be busy, or silent about the command in progress, for ever. \<open>lag\<close> bounds
  how long, and \<open>dat\<close> tells whether the command in progress has data.
\<close>

definition sound_status :: "bool \<Rightarrow> u32 \<Rightarrow> bool" where
  "sound_status d st \<longleftrightarrow>
     (irq_error st \<longrightarrow> st AND INT_STATUS_TC = 0 \<and> \<not> irq_pio st \<and> (d \<or> st AND INT_STATUS_CC = 0)) \<and>
     (\<not> d \<longrightarrow> st AND INT_STATUS_TC = 0 \<and> \<not> irq_pio st)"

definition settles :: "bool \<Rightarrow> u32 \<Rightarrow> bool" where
  "settles d st \<longleftrightarrow> irq_error st \<or> (if d then st AND INT_STATUS_TC \<noteq> 0 else st AND INT_STATUS_CC \<noteq> 0)"

definition busy_status :: "u32 \<Rightarrow> bool" where
  "busy_status v \<longleftrightarrow> v AND (SDHC_PRES_STATE_CIHB OR SDHC_PRES_STATE_CDIHB) \<noteq> 0 \<or> v AND SDHC_PRES_STATE_DLA \<noteq> 0"

definition controller_answers :: "'h device \<Rightarrow> ('h \<Rightarrow> nat) \<Rightarrow> ('h \<Rightarrow> bool) \<Rightarrow> bool" where
  "controller_answers dev lag dat \<longleftrightarrow>
     (\<forall>h a v h'. dv_read dev h a = (v, h') \<longrightarrow> lag h' \<le> lag h \<and> dat h' = dat h \<and>
        (a = PRES_STATE \<longrightarrow> busy_status v \<longrightarrow> lag h' < lag h) \<and>
        (a = INT_STATUS \<longrightarrow> sound_status (dat h) v \<and> (\<not> settles (dat h) v \<longrightarrow> lag h' < lag h))) \<and>
     (\<forall>h a v. a \<noteq> CMD_ARG \<longrightarrow> a \<noteq> CMD_XFR_TYP \<longrightarrow> lag (dv_write dev h a v) \<le> lag h \<and> dat (dv_write dev h a v) = dat h) \<and>
     (\<forall>h v. dat (dv_write dev h CMD_XFR_TYP v) \<longleftrightarrow> v AND CMD_XFR_TYP_DPSEL \<noteq> 0)"

lemma controller_quiet:
  assumes "controller_answers dev lag dat"
  shows "quiet_device dev (\<lambda>h h'. lag h' \<le> lag h \<and> dat h' = dat h)"
proof unfold_locales
  show "lag h' \<le> lag h \<and> dat h' = dat h" if "dv_read dev h a = (v, h')" for h a v h'
    using assms that unfolding controller_answers_def by blast
  show "lag (dv_write dev h a v) \<le> lag h \<and> dat (dv_write dev h a v) = dat h" if "a \<noteq> CMD_ARG" "a \<noteq> CMD_XFR_TYP" for h a v
    using assms that unfolding controller_answers_def by blast
qed auto

lemma wait_clear_runs:
  assumes "controller_answers dev lag dat" and "\<And>v. v AND bits \<noteq> 0 \<Longrightarrow> busy_status v"
  shows "\<exists>s'. wait_clear dev PRES_STATE bits s = Some s'"
proof (induction "lag (hw s)" arbitrary: s rule: less_induct)
  case less
  obtain v h where d: "dv_read dev (hw s) PRES_STATE = (v, h)" by fastforce
  show ?case
  proof (cases "v AND bits = 0")
    case True
    then show ?thesis by (subst wait_clear.simps) (simp add: readl_def d)
  next
    case False
    then have "lag h < lag (hw s)" using assms d unfolding controller_answers_def by blast
    with less [of "s\<lparr>hw := h\<rparr>"] False show ?thesis by (subst wait_clear.simps) (simp add: readl_def d)
  qed
qed

text \<open>The word of a command says whether there is data.\<close>

lemma dpsel_bit: "w AND CMD_XFR_TYP_DPSEL = 0 \<longleftrightarrow> \<not> bit w 21"
  unfolding CMD_XFR_TYP_DPSEL_def by (rule and_exp_eq_0_iff_not_bit)

lemma command_word_data: "snd (command_word ver cmd) AND CMD_XFR_TYP_DPSEL \<noteq> 0 \<longleftrightarrow> cmd_data cmd \<noteq> None"
proof (cases "cmd_data cmd")
  case None
  then have "\<not> bit (snd (command_word ver cmd)) 21"
    by (cases "rsp_type cmd") (simp_all add: command_word_def xfr_typ_def rsp_bits_def shift_defs bit_defs bit_simps)
  with None show ?thesis by (simp add: dpsel_bit)
next
  case (Some d)
  then have "bit (snd (command_word ver cmd)) 21" by (simp add: command_word_def xfr_typ_def bit_defs bit_simps Let_def)
  with Some show ?thesis by (simp add: dpsel_bit)
qed

lemma next_cmd_runs:
  assumes ca: "controller_answers dev lag dat" and "cmd_list_head s = Some c" and "cmds s c = Some cmd"
  shows "\<exists>s'. sdhc_next_cmd dev s = Some s' \<and> (dat (hw s') \<longleftrightarrow> cmd_data cmd \<noteq> None)"
proof -
  from wait_clear_runs [OF ca, of "SDHC_PRES_STATE_CIHB OR SDHC_PRES_STATE_CDIHB" "writel dev (irq_enable cmd) INT_STATUS_EN s"]
  obtain s1 where s1: "wait_clear dev PRES_STATE (SDHC_PRES_STATE_CIHB OR SDHC_PRES_STATE_CDIHB) (writel dev (irq_enable cmd) INT_STATUS_EN s) = Some s1"
    by (auto simp: busy_status_def)
  from wait_clear_runs [OF ca, of SDHC_PRES_STATE_DLA s1]
  obtain s2 where s2: "wait_clear dev PRES_STATE SDHC_PRES_STATE_DLA s1 = Some s2" by (auto simp: busy_status_def)
  have dat: "dat (hw (writel dev v CMD_XFR_TYP t)) \<longleftrightarrow> v AND CMD_XFR_TYP_DPSEL \<noteq> 0" for v t
    using ca by (simp add: controller_answers_def writel_def)
  show ?thesis
    using command_word_data [of 2 cmd] command_word_data [of 1 cmd] s1 s2 assms(2,3)
    by (cases "cmd_data cmd") (simp_all add: sdhc_next_cmd_def Let_def dat command_word_def)
qed

lemma controller_status:
  assumes "controller_answers dev lag dat" and "dv_read dev h INT_STATUS = (v, h')"
  shows "sound_status (dat h) v" and "\<not> settles (dat h) v \<Longrightarrow> lag h' < lag h"
  using assms unfolding controller_answers_def by blast+

lemma sound_lawful:
  assumes "sound_status (cmd_data cmd \<noteq> None) st" and "\<forall>d. cmd_data cmd = Some d \<longrightarrow> vbuf d \<noteq> 0"
  shows "irq_lawful st cmd" and "irq_outcome st cmd = 0 \<longleftrightarrow> \<not> settles (cmd_data cmd \<noteq> None) st"
  using assms by (auto simp: sound_status_def irq_lawful_def irq_done_def irq_outcome_def settles_def)

lemma irq_step_settles:
  assumes ca: "controller_answers dev lag dat" and inv: "queue_inv s [c]" and cmd: "cmds s c = Some cmd"
    and dat: "dat (hw s) \<longleftrightarrow> cmd_data cmd \<noteq> None" and buf: "\<forall>d. cmd_data cmd = Some d \<longrightarrow> vbuf d \<noteq> 0"
  shows "\<exists>fin s'. sdhc_irq_step dev s = Some (fin, s') \<and> (fin = None \<longrightarrow> lag (hw s') < lag (hw s) \<and> dat (hw s') = dat (hw s))"
proof -
  note quiet = controller_quiet [OF ca]
  have h: "cmd_list_head s = Some c" "cmd_complete cmd = 0" "cmd_next cmd = None" using inv cmd by (auto simp: queue_inv_def)
  obtain st s1 where st: "readl dev INT_STATUS s = (st, s1)" by fastforce
  then have rd: "dv_read dev (hw s) INT_STATUS = (st, hw s1)" by (auto simp: readl_def split: prod.splits)
  have sound: "sound_status (cmd_data cmd \<noteq> None) st" and slow: "\<not> settles (cmd_data cmd \<noteq> None) st \<Longrightarrow> lag (hw s1) < lag (hw s)"
    using controller_status [OF ca rd] dat by simp_all
  note law = sound_lawful [OF sound buf]
  obtain m s2 where f: "irq_flags dev st cmd s1 = Some (m, s2)" using irq_flags_runs [OF h(2) law(1)] by fastforce
  note o = irq_flags_outcome [OF h(2) f]
  let ?s3 = "writel dev st INT_STATUS (s2\<lparr>cmds := (cmds s2)(c \<mapsto> m)\<rparr>)"
  have "lag (hw ?s3) \<le> lag (hw s1) \<and> dat (hw ?s3) = dat (hw s)"
    using quiet_device.irq_flags_quiet [OF quiet f] quiet_device.readl_quiet [OF quiet st]
      quiet_device.writel_quiet [OF quiet, where a = INT_STATUS and s = "s2\<lparr>cmds := (cmds s2)(c \<mapsto> m)\<rparr>" and v = st] by (auto simp: reg_defs)
  moreover have "\<exists>s'. retire dev c m ?s3 = Some s'" using o h(3) by (simp add: retire_def)
  ultimately show ?thesis using f o law(2) slow by (auto simp: irq_step_flags [OF h(1) cmd st] Let_def)
qed

lemma wait_complete_runs:
  assumes ca: "controller_answers dev lag dat" and "queue_inv s [c]" and "cmds s c = Some cmd"
    and "dat (hw s) \<longleftrightarrow> cmd_data cmd \<noteq> None" and "\<forall>d. cmd_data cmd = Some d \<longrightarrow> vbuf d \<noteq> 0" and "cmd_cb cmd = None"
  shows "\<exists>r s' m. wait_complete dev cbs c s = Some (r, s') \<and> queue_inv s' [] \<and> r \<in> {1, - 1} \<and>
    cmds s' = (cmds s)(c \<mapsto> m) \<and> same_cmd cmd m \<and> cmd_complete m = r \<and> version s' = version s \<and> sdhc.more s' = sdhc.more s"
  using assms(2-)
proof (induction "lag (hw s)" arbitrary: s cmd rule: less_induct)
  case less
  obtain st s1 where st: "readl dev INT_STATUS s = (st, s1)" by fastforce
  from irq_step_settles [OF ca less(2-5)] obtain fin s' where step: "sdhc_irq_step dev s = Some (fin, s')"
    "fin = None \<longrightarrow> lag (hw s') < lag (hw s) \<and> dat (hw s') = dat (hw s)" by blast
  from irq_step_outcome [OF less(2,3) st step(1)] obtain m where o:
    "fin = (if irq_outcome st cmd = 0 then None else Some c)" "queue_inv s' (if irq_outcome st cmd = 0 then [c] else [])"
    "version s' = version s" "cmds s' = (cmds s)(c \<mapsto> m)" "same_cmd cmd m" "cmd_complete m = irq_outcome st cmd" "sdhc.more s' = sdhc.more s" by blast
  have cb: "cmd_cb m = None" and c0: "cmd_complete cmd = 0" using o(5) less(2,3,6) by (auto simp: same_cmd_def queue_inv_def)
  then have irq: "sdhc_handle_irq dev cbs s = Some s'" using step(1) o(1,4) by (auto simp: sdhc_handle_irq_def)
  have wc: "wait_complete dev cbs c s = wait_complete dev cbs c s'"
    using less(3) c0 irq by (subst wait_complete.simps) simp
  show ?case
  proof (cases "irq_outcome st cmd = 0")
    case True
    have "dat (hw s') \<longleftrightarrow> cmd_data m \<noteq> None" "\<forall>d. cmd_data m = Some d \<longrightarrow> vbuf d \<noteq> 0"
      using True o step(2) less(4,5) by (auto simp: same_cmd_def)
    with less(1) [of s' m] True o step(2) cb obtain r s'' m' where
      "wait_complete dev cbs c s' = Some (r, s'')" "queue_inv s'' []" "r \<in> {1, - 1}" "cmds s'' = (cmds s')(c \<mapsto> m')" "same_cmd m m'"
      "cmd_complete m' = r" "version s'' = version s'" "sdhc.more s'' = sdhc.more s'" by auto
    then show ?thesis using wc o by (auto simp: same_cmd_def)
  next
    case False
    have "wait_complete dev cbs c s' = Some (cmd_complete m, s')" using False o by (subst wait_complete.simps) simp
    then show ?thesis using wc o False by (auto simp: irq_outcome_def split: if_splits)
  qed
qed

lemma send_blocking_runs:
  assumes ca: "controller_answers dev lag dat" and inv: "queue_inv s []" and cmd: "cmds s c = Some cmd"
    and buf: "\<forall>d. cmd_data cmd = Some d \<longrightarrow> vbuf d \<noteq> 0"
  shows "\<exists>r s' m. sdhc_send_cmd dev cbs c None tok s = Some (r, s') \<and> queue_inv s' [] \<and> cmds s' = (cmds s)(c \<mapsto> m) \<and>
    same_cmd (cmd\<lparr>cmd_cb := None, cmd_token := tok\<rparr>) m \<and> version s' = version s \<and> sdhc.more s' = sdhc.more s \<and>
    (r = 0 \<and> cmd_complete m = 1 \<or> r = - 1 \<and> cmd_complete m = - 1)"
proof -
  let ?m = "cmd\<lparr>cmd_complete := 0, cmd_next := None, cmd_cb := None, cmd_token := tok\<rparr>"
  let ?s = "s\<lparr>cmds := (cmds s)(c \<mapsto> ?m), cmd_list_head := Some c, cmd_list_tail := Next_Field c\<rparr>"
  from next_cmd_runs [OF ca, of ?s c ?m] obtain s1 where s1: "sdhc_next_cmd dev ?s = Some s1" "dat (hw s1) \<longleftrightarrow> cmd_data cmd \<noteq> None" by auto
  have sub: "submit dev c None tok s = Some s1" using inv cmd s1(1) by (simp add: submit_def append_cmd_def queue_inv_def)
  have "queue_inv s1 [c]" "cmds s1 c = Some ?m" "cmds s1 = (cmds s)(c \<mapsto> ?m)" "version s1 = version s" "sdhc.more s1 = sdhc.more s"
    using next_cmd_same [OF s1(1)] by (auto simp: queue_inv_def same_list_def)
  moreover from wait_complete_runs [OF ca this(1,2), of cbs] s1(2) buf obtain r s' m where
    w: "wait_complete dev cbs c s1 = Some (r, s')" "queue_inv s' []" "r \<in> {1, - 1}" "cmds s' = (cmds s1)(c \<mapsto> m)" "same_cmd ?m m"
      "cmd_complete m = r" "version s' = version s1" "sdhc.more s' = sdhc.more s1" by auto
  ultimately show ?thesis using sub by (auto simp: sdhc_send_cmd_def same_cmd_def)
qed

section \<open>Programmed transfers\<close>

text \<open>The values that successive reads of the data port return.\<close>

primrec port_read :: "'h device \<Rightarrow> nat \<Rightarrow> 'h \<Rightarrow> u32 list \<times> 'h" where
  "port_read dev 0 h = ([], h)"
| "port_read dev (Suc n) h = (let (v, h1) = dv_read dev h DATA_BUFF_ACC_PORT; (vs, h2) = port_read dev n h1 in (v # vs, h2))"

lemma port_read_length: "port_read dev n h = (vs, h') \<Longrightarrow> length vs = n"
  by (induction n arbitrary: h vs) (auto split: prod.splits)

definition word_slot :: "u64 \<Rightarrow> nat \<Rightarrow> u64" where
  "word_slot a i = a + 4 * of_nat i"

lemma word_slot_Suc: "word_slot a (Suc i) = word_slot (a + 4) i"
  by (simp add: word_slot_def algebra_simps)

lemma word_slot_inj: "i < 2 ^ 62 \<Longrightarrow> j < 2 ^ 62 \<Longrightarrow> word_slot a i = word_slot a j \<longleftrightarrow> i = j"
proof -
  assume "i < 2 ^ 62" "j < 2 ^ 62"
  then have "unat (4 * of_nat i :: u64) = 4 * i" "unat (4 * of_nat j :: u64) = 4 * j"
    by (simp_all add: unat_word_ariths unat_of_nat)
  then show ?thesis by (metis add_left_cancel mult_cancel1 word_slot_def zero_neq_numeral)
qed

text \<open>A block is stored from its first address on, and nowhere else.\<close>

lemma pio_read_stores:
  assumes "n \<le> 2 ^ 62" and "port_read dev n (hw s) = (vs, h)"
  shows "hw (pio_read dev n a s) = h \<and> (\<forall>i < n. words (pio_read dev n a s) (word_slot a i) = vs ! i) \<and>
    (\<forall>x. (\<forall>i < n. x \<noteq> word_slot a i) \<longrightarrow> words (pio_read dev n a s) x = words s x)"
  using assms
proof (induction n arbitrary: a s vs)
  case (Suc n)
  obtain v h1 where v: "dv_read dev (hw s) DATA_BUFF_ACC_PORT = (v, h1)" by fastforce
  then obtain ws where ws: "port_read dev n h1 = (ws, h)" "vs = v # ws" using Suc.prems(2) by (auto split: prod.splits)
  let ?s = "s\<lparr>hw := h1, words := (words s)(a := v)\<rparr>"
  have run: "pio_read dev (Suc n) a s = pio_read dev n (a + 4) ?s" by (simp add: readl_def v)
  from Suc.IH [of ?s ws "a + 4"] Suc.prems(1) ws(1)
  have IH: "hw (pio_read dev n (a + 4) ?s) = h" "\<And>i. i < n \<Longrightarrow> words (pio_read dev n (a + 4) ?s) (word_slot a (Suc i)) = ws ! i"
    "\<And>x. (\<forall>i < n. x \<noteq> word_slot a (Suc i)) \<Longrightarrow> words (pio_read dev n (a + 4) ?s) x = ((words s)(a := v)) x"
    by (auto simp: word_slot_Suc)
  have first: "words (pio_read dev n (a + 4) ?s) (word_slot a 0) = v"
  proof -
    have "word_slot a 0 \<noteq> word_slot a (Suc i)" if "i < n" for i using word_slot_inj [of 0 "Suc i" a] that Suc.prems(1) by simp
    then show ?thesis using IH(3) [of "word_slot a 0"] by (simp add: word_slot_def)
  qed
  show ?case unfolding run
  proof (intro conjI allI impI)
    fix i assume "i < Suc n"
    then show "words (pio_read dev n (a + 4) ?s) (word_slot a i) = vs ! i" using first IH(2) ws(2) by (cases i) auto
  next
    fix x assume out: "\<forall>i < Suc n. x \<noteq> word_slot a i"
    then have "x \<noteq> a" by (force simp: word_slot_def)
    with out IH(3) [of x] show "words (pio_read dev n (a + 4) ?s) x = words s x" by auto
  qed (rule IH(1))
qed simp

lemma pio_moves_block:
  assumes "programmed_io dev st cmd s = Some s'" and "st AND INT_STATUS_BRR \<noteq> 0" and "cmd_data cmd = Some d" and "blocks_remaining s \<noteq> 0"
    and "port_read dev (block_words d) (hw s) = (vs, h)"
  shows "hw s' = h \<and> blocks_remaining s' = blocks_remaining s - 1 \<and> (\<forall>i < block_words d. words s' (word_slot (vbuf d) i) = vs ! i) \<and>
    (\<forall>x. (\<forall>i < block_words d. x \<noteq> word_slot (vbuf d) i) \<longrightarrow> words s' x = words s x)"
proof -
  have "st AND (INT_STATUS_BRR OR INT_STATUS_BWR) \<noteq> 0"
    using assms(2) by (simp add: and.left_commute bit.conj_disj_distrib or_eq_0_iff)
  then have s': "s' = (pio_read dev (block_words d) (vbuf d) s)\<lparr>blocks_remaining := blocks_remaining s - 1\<rparr>"
    using assms pio_read_same [of s dev "block_words d" "vbuf d"] by (auto simp: programmed_io_def Let_def split: if_splits)
  have "block_words d \<le> 2 ^ 62" using unsigned_less [of "block_size d", where ?'a = nat] by (simp add: block_words_def)
  from pio_read_stores [OF this assms(5), of "vbuf d"] show ?thesis by (simp add: s')
qed

text \<open>A controller that is never busy and answers at once, for the examples: its state tells whether the command in progress has data.\<close>

definition ready_dev :: "bool device" where
  "ready_dev = \<lparr>
     dv_read = \<lambda>h a. (if a = INT_STATUS then (if h then INT_STATUS_TC else INT_STATUS_CC) else 0, h),
     dv_write = \<lambda>h a v. if a = CMD_XFR_TYP then v AND CMD_XFR_TYP_DPSEL \<noteq> 0 else h\<rparr>"

lemma ready_status: "\<not> irq_error INT_STATUS_TC" "\<not> irq_error INT_STATUS_CC" "\<not> irq_pio INT_STATUS_TC" "\<not> irq_pio INT_STATUS_CC"
  "INT_STATUS_CC AND INT_STATUS_TC = 0" "INT_STATUS_TC AND INT_STATUS_CC = 0" "INT_STATUS_CC \<noteq> 0" "INT_STATUS_TC \<noteq> 0"
  by (simp_all add: irq_error_def error_bits_def irq_pio_def bit_defs)

lemma ready_answers: "controller_answers ready_dev (\<lambda>_. 0) (\<lambda>h. h)"
proof -
  have "INT_STATUS \<noteq> PRES_STATE" by (simp add: reg_defs)
  then show ?thesis
    by (simp add: controller_answers_def ready_dev_def ready_status sound_status_def settles_def busy_status_def)
qed

definition plain_cmd :: mmc_cmd where
  "plain_cmd = \<lparr>cmd_index = 13, cmd_arg = 7, cmd_response = [0, 0, 0, 0], cmd_data = None, rsp_type = MMC_RSP_TYPE_R1, cmd_cb = None,
     cmd_token = 0, cmd_next = None, cmd_complete = 0\<rparr>"

definition idle_host :: "'h \<Rightarrow> 'h sdhc" where
  "idle_host h = \<lparr>hw = h, version = 3, nirqs = 1, irq_table = [54], cmd_list_head = None, cmd_list_tail = Head_Field,
     blocks_remaining = 0, cmds = [1 \<mapsto> plain_cmd], words = (\<lambda>_. 0)\<rparr>"

lemma idle_queue: "queue_inv (idle_host h) []"
  by (simp add: idle_host_def queue_inv_def)

section \<open>Properties of the driver\<close>

text \<open>
  C20: When the interrupt handler returns, the flags it read were a combination its assertions allow, and they decide the outcome: an error flag
  finishes the first command with \<open>-1\<close>, a completed transfer (or the response, for a command without data) finishes it with \<open>1\<close>, and otherwise it
  goes on. A finished command has left the list and is returned for its callback, all other commands are as they were, and of the finished one
  only the response, the outcome and the link have changed.
\<close>

theorem sdhc_irq_decides:
  assumes "queue_inv s (c # q)" and "cmds s c = Some cmd" and "readl dev INT_STATUS s = (st, s1)"
    and "sdhc_irq_step dev s = Some (fin, s')"
  shows "irq_lawful st cmd \<and> fin = (if irq_outcome st cmd = 0 then None else Some c) \<and>
    queue_inv s' (if irq_outcome st cmd = 0 then c # q else q) \<and> version s' = version s \<and> sdhc.more s' = sdhc.more s \<and>
    (\<exists>m. cmds s' = (cmds s)(c \<mapsto> m) \<and> same_cmd cmd m \<and> cmd_complete m = irq_outcome st cmd \<and>
       cmd_next m = (if irq_outcome st cmd = 0 then cmd_next cmd else None))"
  by (rule irq_step_outcome [OF assms])

definition busy_host :: "bool sdhc" where
  "busy_host = (idle_host False)\<lparr>cmd_list_head := Some 1, cmd_list_tail := Next_Field 1\<rparr>"

lemma busy_run: "\<exists>s'. sdhc_irq_step ready_dev busy_host = Some (Some 1, s')"
  by (simp add: sdhc_irq_step_def busy_host_def idle_host_def plain_cmd_def readl_def ready_dev_def mark_errors_eq ready_status
      command_complete_def read_response_def programmed_io_def transfer_complete_def retire_def writel_def set_response_def irq_error_def error_bits_def bit_defs reg_defs)

theorem sdhc_irq_decides_witness:
  "\<exists>fin s'. sdhc_irq_step ready_dev busy_host = Some (fin, s') \<and> irq_lawful INT_STATUS_CC plain_cmd \<and>
    fin = (if irq_outcome INT_STATUS_CC plain_cmd = 0 then None else Some 1)"
proof -
  have "queue_inv busy_host [1]" "cmds busy_host 1 = Some plain_cmd"
    by (simp_all add: queue_inv_def busy_host_def idle_host_def plain_cmd_def)
  moreover have "readl ready_dev INT_STATUS busy_host = (INT_STATUS_CC, busy_host)"
    by (simp add: readl_def ready_dev_def busy_host_def idle_host_def)
  ultimately show ?thesis using sdhc_irq_decides [of busy_host 1 "[]" plain_cmd ready_dev INT_STATUS_CC busy_host] busy_run by blast
qed

text \<open>
  C3: The controller is given every command exactly once, in the order in which the clients sent them, and each with the argument and the command
  word it had when it was sent; commands also finish in that order, and exactly one unfinished command has been issued whenever one is pending.
\<close>

theorem sdhc_commands_in_order:
  assumes "sd_run dev s sent fin"
  shows "fin = map fst (take (length fin) sent) \<and> issued s = map snd (take (Suc (length fin)) sent) \<and>
    queue_inv s (map fst (drop (length fin) sent))"
  using sd_run_fifo [OF assms] by (simp add: cmds_pending_def)

lemma logged_answers: "controller_answers (logged ready_dev) (\<lambda>_. 0) fst"
proof -
  have "INT_STATUS \<noteq> PRES_STATE" by (simp add: reg_defs)
  then show ?thesis
    by (auto simp: controller_answers_def logged_def ready_dev_def ready_status sound_status_def settles_def busy_status_def)
qed

lemma example_run: "\<exists>s. sd_run ready_dev s [(1, command_word 1 plain_cmd)] []"
proof -
  obtain s where s: "sdhc_init (logged ready_dev) True (False, 0, []) [54] 1 [1 \<mapsto> plain_cmd] (\<lambda>_. 0) = Some s"
    "cmds s = [1 \<mapsto> plain_cmd]" "version s = 1" "cmd_list_head s = None" "cmd_list_tail s = Head_Field"
    by (simp add: sdhc_init_def readl_def writel_def logged_def ready_dev_def reg_defs)
  let ?m = "plain_cmd\<lparr>cmd_complete := 0, cmd_next := None, cmd_cb := Some 0, cmd_token := 0\<rparr>"
  let ?s = "s\<lparr>cmds := (cmds s)(1 \<mapsto> ?m), cmd_list_head := Some 1, cmd_list_tail := Next_Field 1\<rparr>"
  from next_cmd_runs [OF logged_answers, of ?s 1 ?m] obtain s' where "sdhc_next_cmd (logged ready_dev) ?s = Some s'" by auto
  then have "submit (logged ready_dev) 1 (Some 0) 0 s = Some s'" using s by (simp add: submit_def append_cmd_def)
  then show ?thesis using sd_run.send [OF sd_run.start [OF s(1)], of 1 plain_cmd "Some 0" 0 s'] s by auto
qed

theorem sdhc_commands_in_order_witness:
  "\<exists>s. sd_run ready_dev s [(1, command_word 1 plain_cmd)] [] \<and> issued s = [command_word 1 plain_cmd] \<and> queue_inv s [1]"
proof -
  from example_run obtain s where "sd_run ready_dev s [(1, command_word 1 plain_cmd)] []" by blast
  with sdhc_commands_in_order [OF this] show ?thesis by auto
qed



text \<open>
  A programmed read moves one block from the data port into the buffer of the command: its words are the values the port returned, in order,
  from the start of the buffer on, no other word of memory changes, and one block fewer remains.
\<close>

theorem sdhc_pio_moves_block:
  assumes "programmed_io dev st cmd s = Some s'" and "st AND INT_STATUS_BRR \<noteq> 0" and "cmd_data cmd = Some d" and "blocks_remaining s \<noteq> 0"
    and "port_read dev (block_words d) (hw s) = (vs, h)"
  shows "hw s' = h \<and> blocks_remaining s' = blocks_remaining s - 1 \<and> (\<forall>i < block_words d. words s' (word_slot (vbuf d) i) = vs ! i) \<and>
    (\<forall>x. (\<forall>i < block_words d. x \<noteq> word_slot (vbuf d) i) \<longrightarrow> words s' x = words s x)"
  by (rule pio_moves_block [OF assms])

definition read_cmd :: mmc_cmd where
  "read_cmd = plain_cmd\<lparr>cmd_index := MMC_READ_SINGLE_BLOCK, cmd_data := Some \<lparr>pbuf = 0, vbuf = 64, data_addr = 0, block_size = 8, blocks = 2\<rparr>\<rparr>"

theorem sdhc_pio_moves_block_witness:
  "\<exists>s'. programmed_io ready_dev INT_STATUS_BRR read_cmd ((idle_host True)\<lparr>blocks_remaining := 2\<rparr>) = Some s' \<and>
    blocks_remaining s' = 1 \<and> words s' 64 = 0 \<and> words s' 68 = 0"
proof -
  obtain s' where s': "programmed_io ready_dev INT_STATUS_BRR read_cmd ((idle_host True)\<lparr>blocks_remaining := 2\<rparr>) = Some s'"
    by (simp add: programmed_io_def read_cmd_def plain_cmd_def idle_host_def bit_defs Let_def)
  let ?d = "\<lparr>pbuf = 0, vbuf = 64, data_addr = 0, block_size = 8, blocks = 2\<rparr>"
  have p: "port_read ready_dev (Suc (Suc 0)) True = ([0, 0], True)" by (simp add: ready_dev_def reg_defs)
  have bw: "block_words ?d = Suc (Suc 0)" by (simp add: block_words_def)
  have rest: "INT_STATUS_BRR AND INT_STATUS_BRR \<noteq> 0" "cmd_data read_cmd = Some ?d" "blocks_remaining ((idle_host True)\<lparr>blocks_remaining := 2\<rparr>) \<noteq> 0"
    "port_read ready_dev (block_words ?d) (hw ((idle_host True)\<lparr>blocks_remaining := 2\<rparr>)) = ([0, 0], True)"
    by (simp_all add: p bw read_cmd_def idle_host_def bit_defs del: port_read.simps)
  from sdhc_pio_moves_block [OF s' rest] show ?thesis by (auto simp: s' bw word_slot_def less_Suc_eq)
qed

text \<open>
  Of a programmed read of several blocks only the last one is left, at the start of the buffer: every block is stored there, and the memory
  after it is never written.
\<close>

theorem sdhc_pio_overwrites:
  assumes "programmed_io dev st cmd s = Some s1" and "programmed_io dev st cmd s1 = Some s2" and "st AND INT_STATUS_BRR \<noteq> 0"
    and "cmd_data cmd = Some d" and "blocks_remaining s = 2" and "port_read dev (block_words d) (hw s) = (vs, h)"
    and "port_read dev (block_words d) h = (ws, h')"
  shows "blocks_remaining s2 = 0 \<and> (\<forall>i < block_words d. words s2 (word_slot (vbuf d) i) = ws ! i) \<and>
    (\<forall>x. (\<forall>i < block_words d. x \<noteq> word_slot (vbuf d) i) \<longrightarrow> words s2 x = words s x)"
proof -
  from pio_moves_block [OF assms(1,3,4) _ assms(6)] assms(5) have s1: "hw s1 = h" "blocks_remaining s1 = 1"
    "\<forall>x. (\<forall>i < block_words d. x \<noteq> word_slot (vbuf d) i) \<longrightarrow> words s1 x = words s x" by auto
  from pio_moves_block [OF assms(2,3,4), of ws h'] assms(7) s1 show ?thesis by auto
qed

end
