(* ===== verification/Mmc.thy ===== *)
theory Mmc
  imports Sdhc_Queue
begin

text \<open>
  The SD/MMC card driver (\<open>src/libsdhcdrivers/src/mmc.c\<close>, \<open>mmc.h\<close>) over the interface of \<open>sdio.h\<close>, with the SD host controller
  driver behind that interface: identification of a cd, its capacity from the cd specific data register, and block transfers, blocking or
  with a callback.

  The state of the host is extended by the memory the cd driver allocates: the outcomes of the coming calls of \<open>malloc\<close>, the blocks in use,
  the data segments and the completion tokens. A command on the stack of a function has an address that is a parameter, and disappears when the
  function returns. \<open>None\<close> is as before a loop that does not end, a failed assertion or an invalid access, and now also a \<open>free\<close> of memory not in use.
\<close>

section \<open>Bit fields of the card registers\<close>

definition slice_bits :: "u32 list \<Rightarrow> nat \<Rightarrow> nat \<Rightarrow> u32 option" where
  "slice_bits val start sz =
     (if sz > 32 then None
      else let idx = start div 32; low = start mod 32; high = (start + sz) mod 32
           in if high = 0 \<and> low = 0 then rd val idx
              else if high = 0 \<and> low \<noteq> 0 then map_option (drop_bit low) (rd val idx)
              else if high > low then map_option (\<lambda>v. drop_bit low (v AND (push_bit high 1 - 1))) (rd val idx)
              else do {
                v \<leftarrow> rd val idx;
                w \<leftarrow> rd val (Suc idx);
                Some (drop_bit low v OR push_bit (32 - low) (w AND (push_bit high 1 - 1))) })"

definition CSD_VERSION_1 :: u8 where "CSD_VERSION_1 = 0"
definition CSD_VERSION_2_AND_3 :: u8 where "CSD_VERSION_2_AND_3 = 1"

record csd =
  csd_structure :: u8
  tran_speed :: u8
  read_bl_len :: u8
  c_size :: u32
  c_size_mult :: u8

text \<open>The inner \<open>None\<close> is the result \<open>-1\<close>.\<close>

definition mmc_decode_csd :: "u32 list \<Rightarrow> csd option option" where
  "mmc_decode_csd raw_csd = do {
     st \<leftarrow> slice_bits raw_csd 126 2;
     (if (ucast st :: u8) = CSD_VERSION_1 then do {
        cs \<leftarrow> slice_bits raw_csd 62 12;
        cm \<leftarrow> slice_bits raw_csd 47 3;
        bl \<leftarrow> slice_bits raw_csd 80 4;
        ts \<leftarrow> slice_bits raw_csd 96 8;
        Some (Some \<lparr>csd_structure = ucast st, tran_speed = ucast ts, read_bl_len = ucast bl, c_size = cs, c_size_mult = ucast cm\<rparr>) }
      else if (ucast st :: u8) = CSD_VERSION_2_AND_3 then do {
        cs \<leftarrow> slice_bits raw_csd 48 22;
        bl \<leftarrow> slice_bits raw_csd 80 4;
        ts \<leftarrow> slice_bits raw_csd 96 8;
        Some (Some \<lparr>csd_structure = ucast st, tran_speed = ucast ts, read_bl_len = ucast bl, c_size = cs, c_size_mult = 0\<rparr>) }
      else Some None) }"

text \<open>The products are of type \<open>long long\<close>; they stay below \<open>2 ^ 63\<close>.\<close>

definition mmc_card_capacity :: "u32 list \<Rightarrow> int option" where
  "mmc_card_capacity raw_csd = do {
     d \<leftarrow> mmc_decode_csd raw_csd;
     (case d of
        None \<Rightarrow> Some (- 1)
      | Some csd \<Rightarrow>
          (if csd_structure csd = CSD_VERSION_1
           then Some ((uint (c_size csd) + 1) * uint (push_bit (unat (c_size_mult csd) + 2) (1 :: u32)) * uint (push_bit (unat (read_bl_len csd)) (1 :: u32)))
           else if csd_structure csd = CSD_VERSION_2_AND_3 then Some ((uint (c_size csd) + 1) * 512 * 1024)
           else Some (- 1))) }"

section \<open>The interface of a host\<close>

record 's sdio_host_dev =
  op_reset :: "'s \<Rightarrow> (int \<times> 's) option"
  op_set_operational :: "'s \<Rightarrow> (int \<times> 's) option"
  op_send_command :: "u64 \<Rightarrow> nat option \<Rightarrow> u64 \<Rightarrow> 's \<Rightarrow> (int \<times> 's) option"
  op_handle_irq :: "int \<Rightarrow> 's \<Rightarrow> (int \<times> 's) option"
  op_is_voltage_compatible :: "int \<Rightarrow> 's \<Rightarrow> (int \<times> 's) option"
  op_nth_irq :: "int \<Rightarrow> 's \<Rightarrow> int option"
  op_get_present_state :: "'s \<Rightarrow> (u32 \<times> 's) option"

definition sdio_send_command :: "'s sdio_host_dev \<Rightarrow> u64 \<Rightarrow> nat option \<Rightarrow> u64 \<Rightarrow> 's \<Rightarrow> (int \<times> 's) option" where
  "sdio_send_command sdio c cb token s = op_send_command sdio c cb token s"

definition sdio_is_voltage_compatible :: "'s sdio_host_dev \<Rightarrow> int \<Rightarrow> 's \<Rightarrow> (int \<times> 's) option" where
  "sdio_is_voltage_compatible sdio mv s = op_is_voltage_compatible sdio mv s"

definition sdio_reset :: "'s sdio_host_dev \<Rightarrow> 's \<Rightarrow> (int \<times> 's) option" where
  "sdio_reset sdio s = op_reset sdio s"

definition sdio_set_operational :: "'s sdio_host_dev \<Rightarrow> 's \<Rightarrow> (int \<times> 's) option" where
  "sdio_set_operational sdio s = op_set_operational sdio s"

definition sdio_nth_irq :: "'s sdio_host_dev \<Rightarrow> int \<Rightarrow> 's \<Rightarrow> int option" where
  "sdio_nth_irq sdio n s = op_nth_irq sdio n s"

definition sdio_get_present_state :: "'s sdio_host_dev \<Rightarrow> 's \<Rightarrow> (u32 \<times> 's) option" where
  "sdio_get_present_state sdio s = op_get_present_state sdio s"

definition sdio_handle_irq :: "'s sdio_host_dev \<Rightarrow> int \<Rightarrow> 's \<Rightarrow> (int \<times> 's) option" where
  "sdio_handle_irq sdio irq s = op_handle_irq sdio irq s"

text \<open>The functions with which the host controller driver fills it.\<close>

definition sdhc_ops :: "'h device \<Rightarrow> ('h, 'z) callbacks \<Rightarrow> ('h, 'z) sdhc_scheme sdio_host_dev" where
  "sdhc_ops dev cbs = \<lparr>
     op_reset = sdhc_reset dev,
     op_set_operational = sdhc_set_operational dev,
     op_send_command = sdhc_send_cmd dev cbs,
     op_handle_irq = \<lambda>irq s. map_option (\<lambda>s. (0, s)) (sdhc_handle_irq dev cbs s),
     op_is_voltage_compatible = \<lambda>mv s. (case sdhc_is_voltage_compatible dev mv s of (b, s) \<Rightarrow> Some (if b then 1 else 0, s)),
     op_nth_irq = \<lambda>n s. sdhc_get_nth_irq s n,
     op_get_present_state = \<lambda>s. Some (sdhc_get_present_state_register dev s)\<rparr>"

section \<open>State of the card driver\<close>

datatype mmc_card_type = CARD_TYPE_UNKNOWN | CARD_TYPE_MMC | CARD_TYPE_SD | CARD_TYPE_SDIO

datatype mmc_card_status = CARD_STS_ACTIVE | CARD_STS_INACTIVE | CARD_STS_BUSY

record mmc_card =
  ocr :: u32
  raw_cid :: "u32 list"
  raw_csd :: "u32 list"
  raw_rca :: u16
  card_type :: mmc_card_type
  high_capacity :: u32
  card_status :: mmc_card_status

record mmc_completion_token =
  tok_cb :: nat
  tok_token :: u64

record 'h mmc_sys = "'h sdhc" +
  mallocs :: "u64 option list"
  live :: "u64 set"
  data_at :: "u64 \<rightharpoonup> u64"
  tokens :: "u64 \<rightharpoonup> mmc_completion_token"

definition mmc_block_size :: nat where
  "mmc_block_size = 512"

definition host_send_command :: "'s sdio_host_dev \<Rightarrow> u64 \<Rightarrow> nat option \<Rightarrow> u64 \<Rightarrow> 's \<Rightarrow> (int \<times> 's) option" where
  "host_send_command sdio c cb token s = sdio_send_command sdio c cb token s"

definition host_nth_irq :: "'s sdio_host_dev \<Rightarrow> int \<Rightarrow> 's \<Rightarrow> int option" where
  "host_nth_irq sdio n s = sdio_nth_irq sdio n s"

definition host_handle_irq :: "'s sdio_host_dev \<Rightarrow> int \<Rightarrow> 's \<Rightarrow> (int \<times> 's) option" where
  "host_handle_irq sdio irq s = sdio_handle_irq sdio irq s"

definition host_is_voltage_compatible :: "'s sdio_host_dev \<Rightarrow> int \<Rightarrow> 's \<Rightarrow> (int \<times> 's) option" where
  "host_is_voltage_compatible sdio mv s = sdio_is_voltage_compatible sdio mv s"

definition host_reset :: "'s sdio_host_dev \<Rightarrow> 's \<Rightarrow> (int \<times> 's) option" where
  "host_reset sdio s = sdio_reset sdio s"

definition host_set_operational :: "'s sdio_host_dev \<Rightarrow> 's \<Rightarrow> (int \<times> 's) option" where
  "host_set_operational sdio s = sdio_set_operational sdio s"

lemmas host_defs = host_send_command_def host_nth_irq_def host_handle_irq_def host_is_voltage_compatible_def host_reset_def
  host_set_operational_def sdio_send_command_def sdio_is_voltage_compatible_def sdio_reset_def sdio_set_operational_def sdio_nth_irq_def
  sdio_get_present_state_def sdio_handle_irq_def

definition malloc :: "('h, 'z) mmc_sys_scheme \<Rightarrow> u64 option \<times> ('h, 'z) mmc_sys_scheme" where
  "malloc s = (case mallocs s of
     [] \<Rightarrow> (None, s)
   | None # r \<Rightarrow> (None, s\<lparr>mallocs := r\<rparr>)
   | Some a # r \<Rightarrow> (Some a, s\<lparr>mallocs := r, live := insert a (live s)\<rparr>))"

definition free :: "u64 \<Rightarrow> ('h, 'z) mmc_sys_scheme \<Rightarrow> ('h, 'z) mmc_sys_scheme option" where
  "free a s = (if a \<in> live s then Some (s\<lparr>live := live s - {a}\<rparr>) else None)"

section \<open>Commands and tokens\<close>

text \<open>The response of a new command is not initialised; it is 0 here.\<close>

definition mmc_cmd_new :: "u32 \<Rightarrow> u32 \<Rightarrow> mmc_rsp_type \<Rightarrow> ('h, 'z) mmc_sys_scheme \<Rightarrow> u64 option \<times> ('h, 'z) mmc_sys_scheme" where
  "mmc_cmd_new index arg rt s = (case malloc s of
     (None, s) \<Rightarrow> (None, s)
   | (Some a, s) \<Rightarrow> (Some a, s\<lparr>cmds := (cmds s)(a \<mapsto> \<lparr>cmd_index = index, cmd_arg = arg, cmd_response = [0, 0, 0, 0], cmd_data = None,
        rsp_type = rt, cmd_cb = None, cmd_token = 0, cmd_next = None, cmd_complete = 0\<rparr>)\<rparr>))"

definition mmc_cmd_add_data ::
  "u64 \<Rightarrow> u64 \<Rightarrow> u64 \<Rightarrow> u32 \<Rightarrow> u32 \<Rightarrow> u32 \<Rightarrow> ('h, 'z) mmc_sys_scheme \<Rightarrow> (int \<times> ('h, 'z) mmc_sys_scheme) option" where
  "mmc_cmd_add_data c vb pb addr bs n s = do {
     cmd \<leftarrow> cmds s c;
     (if cmd_data cmd \<noteq> None then None
      else Some (case malloc s of
        (None, s) \<Rightarrow> (- 1, s)
      | (Some a, s) \<Rightarrow>
          (0, s\<lparr>data_at := (data_at s)(c \<mapsto> a),
                cmds := (cmds s)(c \<mapsto> cmd\<lparr>cmd_data := Some \<lparr>pbuf = pb, vbuf = vb, data_addr = addr, block_size = bs, blocks = n\<rparr>\<rparr>)\<rparr>))) }"

definition mmc_cmd_destroy :: "u64 \<Rightarrow> ('h, 'z) mmc_sys_scheme \<Rightarrow> ('h, 'z) mmc_sys_scheme option" where
  "mmc_cmd_destroy c s = do {
     cmd \<leftarrow> cmds s c;
     s \<leftarrow> (if cmd_data cmd \<noteq> None then do { d \<leftarrow> data_at s c; s \<leftarrow> free d s; Some (s\<lparr>data_at := (data_at s)(c := None)\<rparr>) } else Some s);
     s \<leftarrow> free c s;
     Some (s\<lparr>cmds := (cmds s)(c := None)\<rparr>) }"

definition mmc_new_completion_token :: "nat \<Rightarrow> u64 \<Rightarrow> ('h, 'z) mmc_sys_scheme \<Rightarrow> u64 option \<times> ('h, 'z) mmc_sys_scheme" where
  "mmc_new_completion_token cb token s = (case malloc s of
     (None, s) \<Rightarrow> (None, s)
   | (Some a, s) \<Rightarrow> (Some a, s\<lparr>tokens := (tokens s)(a \<mapsto> \<lparr>tok_cb = cb, tok_token = token\<rparr>)\<rparr>))"

definition mmc_completion_token_destroy :: "u64 \<Rightarrow> ('h, 'z) mmc_sys_scheme \<Rightarrow> ('h, 'z) mmc_sys_scheme option" where
  "mmc_completion_token_destroy t s = do {
     s \<leftarrow> free t s;
     Some (s\<lparr>tokens := (tokens s)(t := None)\<rparr>) }"

section \<open>Identifying a card\<close>

text \<open>A command on the stack: zero at first, and its fields are assigned before each use.\<close>

definition local_cmd :: mmc_cmd where
  "local_cmd = \<lparr>cmd_index = 0, cmd_arg = 0, cmd_response = [0, 0, 0, 0], cmd_data = None, rsp_type = MMC_RSP_TYPE_NONE, cmd_cb = None,
     cmd_token = 0, cmd_next = None, cmd_complete = 0\<rparr>"

definition set_cmd :: "u64 \<Rightarrow> u32 \<Rightarrow> u32 \<Rightarrow> mmc_rsp_type \<Rightarrow> ('h, 'z) sdhc_scheme \<Rightarrow> ('h, 'z) sdhc_scheme" where
  "set_cmd l index arg rt s =
     s\<lparr>cmds := (cmds s)(l := map_option (\<lambda>c. c\<lparr>cmd_index := index, cmd_arg := arg, rsp_type := rt\<rparr>) (cmds s l))\<rparr>"

definition arg_of :: "u64 \<Rightarrow> ('h, 'z) sdhc_scheme \<Rightarrow> u32" where
  "arg_of l s = (case cmds s l of None \<Rightarrow> 0 | Some c \<Rightarrow> cmd_arg c)"

definition response :: "u64 \<Rightarrow> ('h, 'z) sdhc_scheme \<Rightarrow> u32 list option" where
  "response l s = map_option cmd_response (cmds s l)"

definition exec :: "('h, 'z) sdhc_scheme sdio_host_dev \<Rightarrow> u64 \<Rightarrow> u32 \<Rightarrow> u32 \<Rightarrow> mmc_rsp_type \<Rightarrow> ('h, 'z) sdhc_scheme \<Rightarrow>
    (int \<times> ('h, 'z) sdhc_scheme) option" where
  "exec sdio l index arg rt s = host_send_command sdio l None 0 (set_cmd l index arg rt s)"

text \<open>A long response, moved up by the byte that the controller drops.\<close>

definition shift_response :: "u32 list \<Rightarrow> u32 list option" where
  "shift_response r = do {
     r0 \<leftarrow> rd r 0; r1 \<leftarrow> rd r 1; r2 \<leftarrow> rd r 2; r3 \<leftarrow> rd r 3;
     Some [push_bit 8 r0, push_bit 8 r1 OR drop_bit 24 r0, push_bit 8 r2 OR drop_bit 24 r1, push_bit 8 r3 OR drop_bit 24 r2] }"

definition store_response :: "u64 \<Rightarrow> u32 list \<Rightarrow> ('h, 'z) sdhc_scheme \<Rightarrow> ('h, 'z) sdhc_scheme" where
  "store_response l r s = s\<lparr>cmds := (cmds s)(l := map_option (\<lambda>c. c\<lparr>cmd_response := r\<rparr>) (cmds s l))\<rparr>"

definition rca_arg :: "u16 \<Rightarrow> u32" where
  "rca_arg rca = push_bit 16 (ucast rca)"

definition mmc_card_registry :: "('h, 'z) sdhc_scheme sdio_host_dev \<Rightarrow> u64 \<Rightarrow> mmc_card \<Rightarrow> ('h, 'z) sdhc_scheme \<Rightarrow>
    (int \<times> mmc_card \<times> ('h, 'z) sdhc_scheme) option" where
  "mmc_card_registry sdio l cd s = do {
     (ret, s) \<leftarrow> exec sdio l MMC_ALL_SEND_CID 0 MMC_RSP_TYPE_R2 (s\<lparr>cmds := (cmds s)(l \<mapsto> local_cmd)\<rparr>);
     (if ret \<noteq> 0 then Some (- 1, cd\<lparr>card_status := CARD_STS_INACTIVE\<rparr>, s\<lparr>cmds := (cmds s)(l := None)\<rparr>)
      else do {
        r \<leftarrow> response l s;
        cid \<leftarrow> shift_response r;
        let s = store_response l cid s;
        let cd = cd\<lparr>card_status := CARD_STS_ACTIVE, raw_cid := cid\<rparr>;
        (_, s) \<leftarrow> exec sdio l MMC_SEND_RELATIVE_ADDR 0 MMC_RSP_TYPE_R6 s;
        r \<leftarrow> response l s;
        r0 \<leftarrow> rd r 0;
        let cd = cd\<lparr>raw_rca := ucast (drop_bit 16 r0)\<rparr>;
        (_, s) \<leftarrow> exec sdio l MMC_SEND_CSD (rca_arg (raw_rca cd)) MMC_RSP_TYPE_R2 s;
        r \<leftarrow> response l s;
        csd \<leftarrow> shift_response r;
        let s = store_response l csd s;
        let cd = cd\<lparr>raw_csd := csd\<rparr>;
        (_, s) \<leftarrow> exec sdio l MMC_SEND_STATUS (arg_of l s) MMC_RSP_TYPE_R1 s;
        (_, s) \<leftarrow> exec sdio l MMC_SELECT_CARD (rca_arg (raw_rca cd)) MMC_RSP_TYPE_R1b s;
        (_, s) \<leftarrow> exec sdio l MMC_APP_CMD (rca_arg (raw_rca cd)) MMC_RSP_TYPE_R1 s;
        (_, s) \<leftarrow> exec sdio l SD_SET_BUS_WIDTH MMC_MODE_4BIT MMC_RSP_TYPE_R1 s;
        s \<leftarrow> (if high_capacity cd = 0 then map_option snd (exec sdio l MMC_SET_BLOCKLEN (of_nat mmc_block_size) MMC_RSP_TYPE_R1 s) else Some s);
        Some (0, cd, s\<lparr>cmds := (cmds s)(l := None)\<rparr>) }) }"

definition MMC_VDD_30_31 :: u32 where "MMC_VDD_30_31 = 2 ^ 18"
definition MMC_VDD_29_30 :: u32 where "MMC_VDD_29_30 = 2 ^ 17"

text \<open>Asking the card until it reports, in the top bit, that its voltage is set; the delay between two attempts is left out.\<close>

partial_function (option) voltage_loop :: "('h, 'z) sdhc_scheme sdio_host_dev \<Rightarrow> u64 \<Rightarrow> mmc_card_type \<Rightarrow> u32 \<Rightarrow> ('h, 'z) sdhc_scheme \<Rightarrow>
    (u32 \<times> ('h, 'z) sdhc_scheme) option" where
  "voltage_loop sdio l ty voltage s = do {
     s \<leftarrow> (if ty = CARD_TYPE_SD then map_option snd (exec sdio l MMC_APP_CMD 0 MMC_RSP_TYPE_R1 s) else Some s);
     (_, s) \<leftarrow> exec sdio l SD_SD_APP_OP_COND voltage MMC_RSP_TYPE_R3 s;
     r \<leftarrow> response l s;
     r0 \<leftarrow> rd r 0;
     (if r0 AND 2 ^ 31 = 0 then voltage_loop sdio l ty voltage s else Some (r0, s)) }"

definition mmc_voltage_validation :: "('h, 'z) sdhc_scheme sdio_host_dev \<Rightarrow> u64 \<Rightarrow> mmc_card \<Rightarrow> ('h, 'z) sdhc_scheme \<Rightarrow>
    (int \<times> mmc_card \<times> ('h, 'z) sdhc_scheme) option" where
  "mmc_voltage_validation sdio l cd s = do {
     (ret, s) \<leftarrow> exec sdio l MMC_APP_CMD 0 MMC_RSP_TYPE_R1 (s\<lparr>cmds := (cmds s)(l \<mapsto> local_cmd)\<rparr>);
     let cd = cd\<lparr>card_type := (if ret = 0 then CARD_TYPE_SD else CARD_TYPE_MMC)\<rparr>;
     (ret, s) \<leftarrow> exec sdio l (if ret = 0 then SD_SD_APP_OP_COND else MMC_SEND_OP_COND) 0 MMC_RSP_TYPE_R3 s;
     (if ret \<noteq> 0 then None
      else do {
        r \<leftarrow> response l s;
        r0 \<leftarrow> rd r 0;
        let cd = cd\<lparr>ocr := r0\<rparr>;
        let voltage = MMC_VDD_29_30 OR MMC_VDD_30_31;
        (ok, s) \<leftarrow> host_is_voltage_compatible sdio 3300 s;
        let voltage = (if ok \<noteq> 0 \<and> ocr cd AND voltage \<noteq> 0 then voltage OR 2 ^ 30 OR 2 ^ 25 OR 2 ^ 24 else voltage);
        (r0, s) \<leftarrow> voltage_loop sdio l (card_type cd) voltage s;
        let cd = cd\<lparr>ocr := r0, high_capacity := (if r0 AND 2 ^ 30 \<noteq> 0 then 1 else 0)\<rparr>;
        Some (0, cd, s\<lparr>cmds := (cmds s)(l := None)\<rparr>) }) }"

definition mmc_reset :: "('h, 'z) sdhc_scheme sdio_host_dev \<Rightarrow> u64 \<Rightarrow> ('h, 'z) sdhc_scheme \<Rightarrow> (int \<times> ('h, 'z) sdhc_scheme) option" where
  "mmc_reset sdio l s = do {
     (_, s) \<leftarrow> exec sdio l MMC_GO_IDLE_STATE 0 MMC_RSP_TYPE_NONE (s\<lparr>cmds := (cmds s)(l \<mapsto> local_cmd)\<rparr>);
     (_, s) \<leftarrow> exec sdio l MMC_SEND_EXT_CSD 0x1AA MMC_RSP_TYPE_R1 s;
     Some (0, s\<lparr>cmds := (cmds s)(l := None)\<rparr>) }"

section \<open>Transfers\<close>

text \<open>The functions of the clients: from a number, the status, the number of bytes and the token to a change of the state.\<close>

type_synonym 'w mmc_callbacks = "nat \<Rightarrow> int \<Rightarrow> u64 \<Rightarrow> u64 \<Rightarrow> 'w \<Rightarrow> 'w option"

definition mmc_blockop_completion_cb :: "('h, 'z) mmc_sys_scheme mmc_callbacks \<Rightarrow> int \<Rightarrow> u64 \<Rightarrow> u64 \<Rightarrow> ('h, 'z) mmc_sys_scheme \<Rightarrow>
    ('h, 'z) mmc_sys_scheme option" where
  "mmc_blockop_completion_cb client stat c token s = do {
     t \<leftarrow> tokens s token;
     bytes \<leftarrow> (if stat = 0 then do { cmd \<leftarrow> cmds s c; d \<leftarrow> cmd_data cmd; Some (ucast (block_size d * blocks d)) } else Some 0);
     s \<leftarrow> client (tok_cb t) stat bytes (tok_token t) s;
     s \<leftarrow> mmc_cmd_destroy c s;
     mmc_completion_token_destroy token s }"

definition BLOCKOP :: nat where "BLOCKOP = 0"

definition mmc_cbs :: "('h, 'z) mmc_sys_scheme mmc_callbacks \<Rightarrow> nat \<Rightarrow> int \<Rightarrow> u64 \<Rightarrow> u64 \<Rightarrow> ('h, 'z) mmc_sys_scheme \<Rightarrow> ('h, 'z) mmc_sys_scheme option" where
  "mmc_cbs client k stat c token s = (if k = BLOCKOP then mmc_blockop_completion_cb client stat c token s else None)"

text \<open>
  With or without a callback \<open>cb\<close> of the client. The product of the block size and the number of blocks is of type \<open>int\<close>; a larger one is
  undefined, \<open>None\<close>.
\<close>

definition transfer_bytes :: "nat option \<Rightarrow> int \<Rightarrow> int option" where
  "transfer_bytes cb nblocks =
     (if cb \<noteq> None then Some 0
      else if - (2 ^ 31) \<le> int mmc_block_size * nblocks \<and> int mmc_block_size * nblocks < 2 ^ 31 then Some (int mmc_block_size * nblocks)
      else None)"

definition transfer_data :: "('h, 'z) mmc_sys_scheme sdio_host_dev \<Rightarrow> mmc_card \<Rightarrow> u64 \<Rightarrow> int \<Rightarrow> u64 \<Rightarrow> u64 \<Rightarrow> nat option \<Rightarrow> u64 \<Rightarrow> u32 \<Rightarrow>
    ('h, 'z) mmc_sys_scheme \<Rightarrow> (int \<times> ('h, 'z) mmc_sys_scheme) option" where
  "transfer_data sdio cd start nblocks vb pb cb token command s =
     (let arg = (if high_capacity cd \<noteq> 0 then ucast start else ucast (start * of_nat mmc_block_size))
      in case mmc_cmd_new command arg MMC_RSP_TYPE_R1 s of
           (None, s) \<Rightarrow> Some (- 1, s)
         | (Some c, s) \<Rightarrow> do {
             (ret, s) \<leftarrow> mmc_cmd_add_data c vb pb (ucast start) (of_nat mmc_block_size) (word_of_int nblocks) s;
             (ret, mmc_token, s) \<leftarrow>
               (if ret < 0 then Some (ret, None, s)
                else case cb of
                  None \<Rightarrow> map_option (\<lambda>(r, s). (r, None, s)) (host_send_command sdio c None 0 s)
                | Some k \<Rightarrow>
                    (case mmc_new_completion_token k token s of
                       (None, s) \<Rightarrow> Some (- 1, None, s)
                     | (Some t, s) \<Rightarrow> map_option (\<lambda>(r, s). (r, Some t, s)) (host_send_command sdio c (Some BLOCKOP) t s)));
             s \<leftarrow> (if cb = None \<or> ret \<noteq> 0 then do {
                      s \<leftarrow> (case mmc_token of None \<Rightarrow> Some s | Some t \<Rightarrow> mmc_completion_token_destroy t s);
                      mmc_cmd_destroy c s }
                    else Some s);
             bytes \<leftarrow> transfer_bytes cb nblocks;
             Some (if ret = 0 then bytes else ret, s) })"

definition mmc_block_read :: "('h, 'z) mmc_sys_scheme sdio_host_dev \<Rightarrow> mmc_card \<Rightarrow> u64 \<Rightarrow> int \<Rightarrow> u64 \<Rightarrow> u64 \<Rightarrow> nat option \<Rightarrow> u64 \<Rightarrow>
    ('h, 'z) mmc_sys_scheme \<Rightarrow> (int \<times> ('h, 'z) mmc_sys_scheme) option" where
  "mmc_block_read sdio cd start nblocks vb pb cb token s = transfer_data sdio cd start nblocks vb pb cb token MMC_READ_SINGLE_BLOCK s"

definition mmc_block_write :: "('h, 'z) mmc_sys_scheme sdio_host_dev \<Rightarrow> mmc_card \<Rightarrow> u64 \<Rightarrow> int \<Rightarrow> u64 \<Rightarrow> u64 \<Rightarrow> nat option \<Rightarrow> u64 \<Rightarrow>
    ('h, 'z) mmc_sys_scheme \<Rightarrow> (int \<times> ('h, 'z) mmc_sys_scheme) option" where
  "mmc_block_write sdio cd start nblocks vb pb cb token s = transfer_data sdio cd start nblocks vb pb cb token MMC_WRITE_BLOCK s"

definition mmc_nth_irq :: "'s sdio_host_dev \<Rightarrow> int \<Rightarrow> 's \<Rightarrow> int option" where
  "mmc_nth_irq sdio n s = host_nth_irq sdio n s"

definition mmc_handle_irq :: "'s sdio_host_dev \<Rightarrow> int \<Rightarrow> 's \<Rightarrow> (int \<times> 's) option" where
  "mmc_handle_irq sdio irq s = host_handle_irq sdio irq s"

text \<open>
  Initialisation: the result, and on success the address and the contents of the card structure. The fields of the new structure are not
  initialised; \<open>card0\<close> stands for them.
\<close>

definition mmc_init :: "('h, 'z) mmc_sys_scheme sdio_host_dev \<Rightarrow> u64 \<Rightarrow> mmc_card \<Rightarrow> ('h, 'z) mmc_sys_scheme \<Rightarrow>
    (int \<times> (u64 \<times> mmc_card) option \<times> ('h, 'z) mmc_sys_scheme) option" where
  "mmc_init sdio l card0 s =
     (case malloc s of
        (None, s) \<Rightarrow> None
      | (Some mmc, s) \<Rightarrow> do {
          (r, s) \<leftarrow> host_reset sdio s;
          (if r \<noteq> 0 then do { s \<leftarrow> free mmc s; Some (- 1, None, s) }
           else do {
             (r, s) \<leftarrow> mmc_reset sdio l s;
             (if r \<noteq> 0 then do { s \<leftarrow> free mmc s; Some (- 1, None, s) }
              else do {
                (r, cd, s) \<leftarrow> mmc_voltage_validation sdio l card0 s;
                (if r \<noteq> 0 then do { s \<leftarrow> free mmc s; Some (- 1, None, s) }
                 else do {
                   (r, cd, s) \<leftarrow> mmc_card_registry sdio l cd s;
                   (if r \<noteq> 0 then do { s \<leftarrow> free mmc s; Some (- 1, None, s) }
                    else do {
                      (r, s) \<leftarrow> host_set_operational sdio s;
                      (if r \<noteq> 0 then do { s \<leftarrow> free mmc s; Some (- 1, None, s) }
                       else Some (0, Some (mmc, cd), s)) }) }) }) }) })"

end
