(* ===== verification/Mmc_Card.thy ===== *)
theory Mmc_Card
  imports Mmc
begin

text \<open>
  Correctness of the card driver of theory \<open>Mmc\<close>: the bit fields and the capacity are those of the 128-bit register, and block transfers account
  for all memory, whatever \<open>malloc\<close> and the card do.
\<close>

section \<open>Registers as numbers\<close>

text \<open>The number that four words, the lowest first, stand for, and a field of it.\<close>

definition reg128 :: "u32 list \<Rightarrow> int" where
  "reg128 ws = horner_sum uint (2 ^ 32) ws"

definition field :: "u32 list \<Rightarrow> nat \<Rightarrow> nat \<Rightarrow> int" where
  "field ws start sz = take_bit sz (drop_bit start (reg128 ws))"

lemma bit_reg128: "bit (reg128 ws) n \<longleftrightarrow> n div 32 < length ws \<and> bit (ws ! (n div 32)) (n mod 32)"
  using bit_horner_sum_uint_exp_iff [of ws n] by (simp add: reg128_def)

lemma bit_low_mask: "bit (v AND (push_bit n 1 - 1) :: u32) i \<longleftrightarrow> bit v i \<and> i < n \<and> i < 32"
  using bit_imp_le_length [of v i] by (auto simp: bit_and_iff push_bit_eq_mult bit_mask_iff simp flip: mask_eq_exp_minus_1)

lemma slice_bits_bits:
  assumes "length ws = 4" and "0 < sz" and "sz \<le> 32" and "start + sz \<le> 128"
  shows "\<exists>w. slice_bits ws start sz = Some w \<and> (\<forall>i. bit w i \<longleftrightarrow> i < sz \<and> bit (ws ! ((start + i) div 32)) ((start + i) mod 32))"
proof -
  define k l where "k = start div 32" and "l = start mod 32"
  then have s: "start = 32 * k + l" "l < 32" by simp_all
  have k: "k < 4" using assms s by linarith
  have top: "\<not> bit (ws ! j) i" if "32 \<le> i" for i j using bit_imp_le_length [of "ws ! j" i] that by auto
  have rk: "rd ws k = Some (ws ! k)" using k assms(1) by (simp add: rd_def)
  show ?thesis
  proof (cases "l + sz \<le> 32")
    case True
    have pos: "(start + i) div 32 = k \<and> (start + i) mod 32 = l + i" if "i < sz" for i
      using that s True by (simp add: add.assoc)
    have high: "(start + sz) mod 32 = (if l + sz = 32 then 0 else l + sz)" using s True by (simp add: add.assoc)
    let ?w = "if l + sz = 32 then drop_bit l (ws ! k) else drop_bit l (ws ! k AND (push_bit (l + sz) 1 - 1))"
    have "slice_bits ws start sz = Some ?w"
      using assms(2,3) rk True unfolding slice_bits_def Let_def high k_def [symmetric] l_def [symmetric] by auto
    moreover have "bit ?w i \<longleftrightarrow> i < sz \<and> bit (ws ! k) (l + i)" for i
    proof (cases "l + sz = 32")
      case True
      then show ?thesis using top [of "l + i" k] by (cases "32 \<le> l + i") (auto simp: bit_drop_bit_eq)
    next
      case False
      have "bit (drop_bit l (ws ! k AND (push_bit (l + sz) 1 - 1))) i \<longleftrightarrow> bit (ws ! k) (l + i) \<and> l + i < l + sz \<and> l + i < 32"
        by (simp only: bit_drop_bit_eq o_def bit_low_mask)
      then show ?thesis using True False by auto
    qed
    ultimately show ?thesis using pos by fastforce
  next
    case False
    have k1: "Suc k < 4" using assms(4) s False by linarith
    have rk1: "rd ws (Suc k) = Some (ws ! Suc k)" using k1 assms(1) by (simp add: rd_def)
    define h where "h = l + sz - 32"
    have h: "0 < h" "h \<le> l" "l \<noteq> 0" "h < 32" using False assms(3) s(2) by (auto simp: h_def)
    have high: "(start + sz) mod 32 = h"
    proof -
      have "start + sz = 32 * Suc k + h" using False s(1) by (simp add: h_def)
      then show ?thesis using h(4) by (simp only: mod_mult_self4 mod_less)
    qed
    let ?w = "drop_bit l (ws ! k) OR push_bit (32 - l) (ws ! Suc k AND (push_bit h 1 - 1))"
    have "slice_bits ws start sz = Some ?w"
      using assms(3) rk rk1 h unfolding slice_bits_def Let_def high k_def [symmetric] l_def [symmetric] by auto
    moreover have "bit ?w i \<longleftrightarrow> i < sz \<and> bit (ws ! ((start + i) div 32)) ((start + i) mod 32)" for i
    proof (cases "l + i < 32")
      case True
      then have "(start + i) div 32 = k" "(start + i) mod 32 = l + i" using s(1) by (simp_all add: add.assoc)
      then show ?thesis using True False by (auto simp: bit_simps bit_low_mask)
    next
      case wrap: False
      then have "start + i = 32 * Suc k + (l + i - 32)" using s(1) by simp
      then have pos: "(start + i) div 32 = Suc k" "(start + i) mod 32 = l + i - 32" if "i < sz"
        using that assms(3) s(2) by (simp_all only: div_mult_self4 mod_mult_self4) auto
      have "bit ?w i \<longleftrightarrow> bit (ws ! k) (l + i) \<or> (32 - l \<le> i \<and> possible_bit TYPE(u32) i \<and> bit (ws ! Suc k) (i - (32 - l)) \<and> i - (32 - l) < h \<and> i - (32 - l) < 32)"
        by (simp only: bit_or_iff bit_drop_bit_eq bit_push_bit_iff o_def bit_low_mask)
      moreover have "i - (32 - l) = l + i - 32" "i - (32 - l) < h \<longleftrightarrow> i < sz" using wrap s(2) False by (auto simp: h_def)
      ultimately show ?thesis using wrap top [of "l + i" k] assms(3) pos by (auto simp: possible_bit_word)
    qed
    ultimately show ?thesis by blast
  qed
qed

lemma slice_bits_field:
  assumes "length ws = 4" and "0 < sz" and "sz \<le> 32" and "start + sz \<le> 128"
  shows "\<exists>w. slice_bits ws start sz = Some w \<and> uint w = field ws start sz"
proof -
  from slice_bits_bits [OF assms] obtain w where w: "slice_bits ws start sz = Some w"
    "\<And>i. bit w i \<longleftrightarrow> i < sz \<and> bit (ws ! ((start + i) div 32)) ((start + i) mod 32)" by blast
  have "bit (uint w) i = bit (field ws start sz) i" for i
    using w(2) [of i] assms bit_imp_le_length [of w i]
    by (auto simp: field_def bit_simps bit_reg128 div_less_iff_less_mult)
  then show ?thesis using w(1) by (auto simp: bit_eq_iff)
qed

section \<open>Capacity\<close>

lemma field_bounds: "0 \<le> field ws start sz" "field ws start sz < 2 ^ sz"
  by (simp_all add: field_def)

text \<open>A field of at most eight bits survives its conversion to a byte.\<close>

lemma byte_field:
  assumes "uint w = field ws start sz" and "sz \<le> 8"
  shows "uint (ucast (w :: u32) :: u8) = field ws start sz" and "unat (ucast w :: u8) = nat (field ws start sz)"
proof -
  have "field ws start sz < 2 ^ 8" using field_bounds(2) [of ws start sz] power_increasing [OF assms(2), of "2 :: int"] by simp
  then show "uint (ucast w :: u8) = field ws start sz"
    using field_bounds(1) [of ws start sz] by (simp add: unsigned_ucast_eq assms(1) take_bit_eq_mod)
  then show "unat (ucast w :: u8) = nat (field ws start sz)" by (metis unat_eq_nat_uint)
qed

text \<open>The capacity that the card specific data register stands for, by its version.\<close>

definition csd_capacity :: "u32 list \<Rightarrow> int" where
  "csd_capacity ws =
     (if field ws 126 2 = 0 then (field ws 62 12 + 1) * 2 ^ (nat (field ws 47 3) + 2) * 2 ^ nat (field ws 80 4)
      else if field ws 126 2 = 1 then (field ws 48 22 + 1) * 2 ^ 19
      else - 1)"

lemma shifted_one: "n < 32 \<Longrightarrow> uint (push_bit n (1 :: u32)) = 2 ^ n"
proof -
  assume "n < 32"
  then have "(2 :: int) ^ n < 2 ^ 32" by (intro power_strict_increasing) auto
  then show ?thesis by (subst unsigned_push_bit_eq) (simp add: push_bit_eq_mult take_bit_eq_mod)
qed

lemma csd_capacity_bound: "csd_capacity ws < 2 ^ 63"
proof -
  have p: "(2 :: int) ^ (nat (field ws 47 3) + 2) \<le> 2 ^ 9" "(2 :: int) ^ nat (field ws 80 4) \<le> 2 ^ 15"
  proof -
    have "nat (field ws 47 3) + 2 \<le> 9" "nat (field ws 80 4) \<le> 15" using field_bounds [of ws 47 3] field_bounds [of ws 80 4] by auto
    from power_increasing [OF this(1), of "2 :: int"] power_increasing [OF this(2), of "2 :: int"]
    show "(2 :: int) ^ (nat (field ws 47 3) + 2) \<le> 2 ^ 9" "(2 :: int) ^ nat (field ws 80 4) \<le> 2 ^ 15" by simp_all
  qed
  have "(field ws 62 12 + 1) * 2 ^ (nat (field ws 47 3) + 2) \<le> 2 ^ 12 * 2 ^ 9"
    using field_bounds [of ws 62 12] p(1) by (intro mult_mono) auto
  then have "(field ws 62 12 + 1) * 2 ^ (nat (field ws 47 3) + 2) * 2 ^ nat (field ws 80 4) \<le> 2 ^ 12 * 2 ^ 9 * 2 ^ 15"
    using p(2) by (rule mult_mono) auto
  then show ?thesis using field_bounds [of ws 48 22] by (auto simp: csd_capacity_def)
qed

lemma capacity_correct:
  assumes "length ws = 4"
  shows "mmc_card_capacity ws = Some (csd_capacity ws)"
proof -
  note sl = slice_bits_field [OF assms]
  obtain st cs cm bl ts cs2 where w:
    "slice_bits ws 126 2 = Some st" "uint st = field ws 126 2" "slice_bits ws 62 12 = Some cs" "uint cs = field ws 62 12"
    "slice_bits ws 47 3 = Some cm" "uint cm = field ws 47 3" "slice_bits ws 80 4 = Some bl" "uint bl = field ws 80 4"
    "slice_bits ws 96 8 = Some ts" "slice_bits ws 48 22 = Some cs2" "uint cs2 = field ws 48 22"
    using sl [of 2 126] sl [of 12 62] sl [of 3 47] sl [of 4 80] sl [of 8 96] sl [of 22 48] by auto
  have st: "(ucast st :: u8) = CSD_VERSION_1 \<longleftrightarrow> field ws 126 2 = 0" "(ucast st :: u8) = CSD_VERSION_2_AND_3 \<longleftrightarrow> field ws 126 2 = 1"
    using byte_field(1) [OF w(2)] by (simp_all add: CSD_VERSION_1_def CSD_VERSION_2_AND_3_def word_uint_eq_iff)
  have cm: "unat (ucast cm :: u8) = nat (field ws 47 3)" and bl: "unat (ucast bl :: u8) = nat (field ws 80 4)"
    using byte_field(2) [OF w(6)] byte_field(2) [OF w(8)] by simp_all
  have sh: "nat (field ws 47 3) + 2 < 32" "nat (field ws 80 4) < 32" using field_bounds [of ws 47 3] field_bounds [of ws 80 4] by auto
  show ?thesis
    using w st cm bl shifted_one [OF sh(1)] shifted_one [OF sh(2)]
    by (auto simp: mmc_card_capacity_def mmc_decode_csd_def csd_capacity_def)
qed

section \<open>A long response\<close>

text \<open>Moving the four words up by one byte, each taking the top byte of the word below, is a shift of the number they stand for.\<close>

lemma shift_words_bit:
  assumes "length r = 4" and "length w = 4" and "k < 4" and "l < 32"
    and w: "\<And>k. k < 4 \<Longrightarrow> w ! k = (if k = 0 then push_bit 8 (r ! 0) else push_bit 8 (r ! k) OR drop_bit 24 (r ! (k - 1)))"
  shows "bit (reg128 w) (32 * k + l) \<longleftrightarrow> 8 \<le> 32 * k + l \<and> bit (reg128 r) (32 * k + l - 8)"
proof -
  have top: "\<not> bit (v :: u32) n" if "32 \<le> n" for v n using that bit_imp_le_length [of v n] by auto
  have pos: "(32 * k + l) div 32 = k" "(32 * k + l) mod 32 = l" using assms(4) by simp_all
  show ?thesis
  proof (cases "8 \<le> l")
    case True
    then have "32 * k + l - 8 = 32 * k + (l - 8)" by simp
    moreover have "(32 * k + (l - 8)) div 32 = k" "(32 * k + (l - 8)) mod 32 = l - 8" using assms(4) by simp_all
    ultimately show ?thesis
      using True assms w [OF assms(3)] top [of "l + 24" "r ! (k - 1)"] pos by (auto simp: bit_reg128 bit_simps add.commute)
  next
    case False
    show ?thesis
    proof (cases k)
      case 0
      then show ?thesis using False assms w [of 0] pos by (auto simp: bit_reg128 bit_simps)
    next
      case (Suc j)
      then have eq: "32 * k + l - 8 = 32 * j + (l + 24)" using False by simp
      have "(32 * j + (l + 24)) div 32 = j" "(32 * j + (l + 24)) mod 32 = l + 24" using False by simp_all
      then have "bit (reg128 r) (32 * k + l - 8) \<longleftrightarrow> bit (r ! j) (l + 24)" unfolding eq bit_reg128 using assms(1,3) Suc by simp
      moreover have "bit (reg128 w) (32 * k + l) \<longleftrightarrow> bit (r ! j) (l + 24)"
        unfolding bit_reg128 pos using Suc False assms(2-4) w [OF assms(3)] by (auto simp: bit_simps add.commute)
      ultimately show ?thesis using Suc by simp
    qed
  qed
qed

lemma shift_response_reg:
  assumes "length r = 4"
  shows "\<exists>w. shift_response r = Some w \<and> length w = 4 \<and> reg128 w = take_bit 128 (push_bit 8 (reg128 r))"
proof -
  let ?w = "[push_bit 8 (r ! 0), push_bit 8 (r ! 1) OR drop_bit 24 (r ! 0), push_bit 8 (r ! 2) OR drop_bit 24 (r ! 1), push_bit 8 (r ! 3) OR drop_bit 24 (r ! 2)]"
  have w: "?w ! k = (if k = 0 then push_bit 8 (r ! 0) else push_bit 8 (r ! k) OR drop_bit 24 (r ! (k - 1)))" if "k < 4" for k
  proof -
    from that consider "k = 0" | "k = 1" | "k = 2" | "k = 3" by linarith
    then show ?thesis by cases simp_all
  qed
  have "bit (reg128 ?w) n \<longleftrightarrow> bit (take_bit 128 (push_bit 8 (reg128 r))) n" for n
  proof (cases "n < 128")
    case True
    define k l where "k = n div 32" and "l = n mod 32"
    then have n: "n = 32 * k + l" "k < 4" "l < 32" using True by (simp_all add: less_mult_imp_div_less)
    show ?thesis using shift_words_bit [OF assms _ n(2,3) w] n(1) True by (auto simp: bit_simps)
  next
    case False
    then show ?thesis by (simp add: bit_reg128 bit_simps div_less_iff_less_mult)
  qed
  then have "reg128 ?w = take_bit 128 (push_bit 8 (reg128 r))" by (intro bit_eqI) blast
  moreover have "shift_response r = Some ?w" using assms by (simp add: shift_response_def rd_def)
  ultimately show ?thesis by (intro exI [of _ ?w]) simp
qed

section \<open>Block transfers\<close>

text \<open>The memory of the card driver: what \<open>malloc\<close> will return is not in use.\<close>

definition fresh_allocs :: "('h, 'z) mmc_sys_scheme \<Rightarrow> bool" where
  "fresh_allocs s \<longleftrightarrow> distinct [a. Some a \<leftarrow> mallocs s] \<and>
     (\<forall>a. Some a \<in> set (mallocs s) \<longrightarrow> a \<notin> live s \<and> cmds s a = None \<and> data_at s a = None \<and> tokens s a = None)"

definition same_memory :: "('h, 'z) mmc_sys_scheme \<Rightarrow> ('h, 'z) mmc_sys_scheme \<Rightarrow> bool" where
  "same_memory s s' \<longleftrightarrow> live s' = live s \<and> cmds s' = cmds s \<and> data_at s' = data_at s \<and> tokens s' = tokens s"

lemma more_fields:
  fixes s s' :: "('h, 'z) mmc_sys_scheme"
  assumes "sdhc.more s' = sdhc.more s"
  shows "mallocs s' = mallocs s" "live s' = live s" "data_at s' = data_at s" "tokens s' = tokens s"
  using assms by (cases s, cases s', simp)+

text \<open>
  What the card driver relies on in a host: a command without a callback is carried out, changes at most that command, and is answered with 0 or
  \<open>-1\<close>; afterwards the host is idle again, and it stays so whatever the card driver does with its memory.
\<close>

locale sdio_host =
  fixes sdio :: "('h, 'z) mmc_sys_scheme sdio_host_dev" and idle :: "('h, 'z) mmc_sys_scheme \<Rightarrow> bool"
  assumes send: "idle s \<Longrightarrow> cmds s c = Some cmd \<Longrightarrow> (\<And>d. cmd_data cmd = Some d \<Longrightarrow> vbuf d \<noteq> 0) \<Longrightarrow>
      \<exists>r s' m. op_send_command sdio c None tok s = Some (r, s') \<and> idle s' \<and> cmds s' = (cmds s)(c \<mapsto> m) \<and> cmd_data m = cmd_data cmd \<and>
        (r = 0 \<or> r = - 1) \<and> sdhc.more s' = sdhc.more s"
    and client: "idle s \<Longrightarrow> cmd_list_head s' = cmd_list_head s \<Longrightarrow> cmd_list_tail s' = cmd_list_tail s \<Longrightarrow> idle s'"
begin

text \<open>A command without data on the stack.\<close>

lemma exec_runs: 
  assumes "idle s" and "cmds s l = Some cmd" and "cmd_data cmd = None"
  shows "\<exists>r s' m. exec sdio l index arg rt s = Some (r, s') \<and> idle s' \<and> cmds s' = (cmds s)(l \<mapsto> m) \<and> cmd_data m = None \<and>
    (r = 0 \<or> r = - 1) \<and> sdhc.more s' = sdhc.more s"
proof -
  have "idle (set_cmd l index arg rt s)" using client [OF assms(1)] by (simp add: set_cmd_def)
  from send [OF this, of l "cmd\<lparr>cmd_index := index, cmd_arg := arg, rsp_type := rt\<rparr>" 0] assms(2,3)
  show ?thesis by (auto simp: exec_def host_defs set_cmd_def)
qed

lemma mmc_reset_runs:
  assumes "idle s" and "cmds s l = None"
  shows "\<exists>s'. mmc_reset sdio l s = Some (0, s') \<and> idle s' \<and> cmds s' = cmds s \<and> sdhc.more s' = sdhc.more s"
proof -
  have "idle (s\<lparr>cmds := (cmds s)(l \<mapsto> local_cmd)\<rparr>)" using client [OF assms(1)] by simp
  from exec_runs [OF this, where l = l and cmd = local_cmd and index = MMC_GO_IDLE_STATE and arg = 0 and rt = MMC_RSP_TYPE_NONE] obtain r1 s1 m1 where
    s1: "exec sdio l MMC_GO_IDLE_STATE 0 MMC_RSP_TYPE_NONE (s\<lparr>cmds := (cmds s)(l \<mapsto> local_cmd)\<rparr>) = Some (r1, s1)" "idle s1"
      "cmds s1 = (cmds s)(l \<mapsto> m1)" "cmd_data m1 = None" "sdhc.more s1 = sdhc.more s"
    by (auto simp: local_cmd_def)
  from exec_runs [OF s1(2) _ s1(4), where l = l and index = MMC_SEND_EXT_CSD and arg = "0x1AA" and rt = MMC_RSP_TYPE_R1] s1 obtain r2 s2 m2 where
    s2: "exec sdio l MMC_SEND_EXT_CSD 0x1AA MMC_RSP_TYPE_R1 s1 = Some (r2, s2)" "idle s2" "cmds s2 = (cmds s)(l \<mapsto> m2)" "sdhc.more s2 = sdhc.more s"
    by auto
  then show ?thesis using s1 client [OF s2(2)] assms(2) by (simp add: mmc_reset_def fun_upd_idem)
qed

text \<open>A command that is to be sent with its data segment attached, and its removal.\<close>

lemma destroy_releases:
  assumes "cmds s c = Some cmd" and "cmd_data cmd = Some d" and "data_at s c = Some a" and "c \<in> live s" and "a \<in> live s" and "a \<noteq> c"
  shows "\<exists>s'. mmc_cmd_destroy c s = Some s' \<and> live s' = live s - {a, c} \<and> cmds s' = (cmds s)(c := None) \<and> data_at s' = (data_at s)(c := None) \<and>
    tokens s' = tokens s \<and> mallocs s' = mallocs s \<and> cmd_list_head s' = cmd_list_head s \<and> cmd_list_tail s' = cmd_list_tail s"
  using assms by (auto simp: mmc_cmd_destroy_def free_def)

lemma transfer_blocking_runs:
  assumes idle: "idle s" and fresh: "fresh_allocs s" and vb: "vb \<noteq> 0" and range: "- (2 ^ 22) \<le> n" "n < 2 ^ 22"
  shows "\<exists>r s'. transfer_data sdio cd start n vb pb None tok command s = Some (r, s') \<and> idle s' \<and> same_memory s s' \<and>
    (r = 512 * n \<and> (\<exists>c a rest. mallocs s = Some c # Some a # rest) \<or> r = - 1)"
proof -
  have bytes: "transfer_bytes None n = Some (512 * n)" using range by (simp add: transfer_bytes_def mmc_block_size_def)
  show ?thesis
  proof (cases "mallocs s")
    case Nil
    then show ?thesis using idle by (simp add: transfer_data_def mmc_cmd_new_def malloc_def Let_def same_memory_def)
  next
    case (Cons x rest)
    show ?thesis
    proof (cases x)
      case None
      then show ?thesis using Cons client [OF idle] by (simp add: transfer_data_def mmc_cmd_new_def malloc_def Let_def same_memory_def)
    next
      case (Some c)
      then have c: "c \<notin> live s" "cmds s c = None" "data_at s c = None" using fresh Cons by (auto simp: fresh_allocs_def)
      define arg :: u32 where "arg = (if high_capacity cd \<noteq> 0 then ucast start else ucast (start * of_nat mmc_block_size))"
      let ?cmd = "\<lparr>cmd_index = command, cmd_arg = arg, cmd_response = [0, 0, 0, 0], cmd_data = None, rsp_type = MMC_RSP_TYPE_R1, cmd_cb = None,
        cmd_token = 0, cmd_next = None, cmd_complete = 0\<rparr>"
      let ?d = "\<lparr>pbuf = pb, vbuf = vb, data_addr = ucast start, block_size = of_nat mmc_block_size, blocks = word_of_int n\<rparr>"
      have new: "mmc_cmd_new command arg MMC_RSP_TYPE_R1 s = (Some c, s\<lparr>mallocs := rest, live := insert c (live s), cmds := (cmds s)(c \<mapsto> ?cmd)\<rparr>)"
        using Cons Some by (simp add: mmc_cmd_new_def malloc_def)
      show ?thesis
      proof (cases "\<exists>a rest'. rest = Some a # rest'")
        case False
        define rest2 where "rest2 = tl rest"
        have "malloc (s\<lparr>mallocs := rest, live := insert c (live s), cmds := (cmds s)(c \<mapsto> ?cmd)\<rparr>) =
            (None, s\<lparr>mallocs := rest2, live := insert c (live s), cmds := (cmds s)(c \<mapsto> ?cmd)\<rparr>)"
          using False by (auto simp: malloc_def rest2_def split: list.splits option.splits)
        then have "transfer_data sdio cd start n vb pb None tok command s =
            Some (- 1, s\<lparr>mallocs := rest2, live := insert c (live s) - {c}, cmds := ((cmds s)(c \<mapsto> ?cmd))(c := None)\<rparr>)"
          unfolding transfer_data_def Let_def arg_def [symmetric] new by (simp add: mmc_cmd_add_data_def mmc_cmd_destroy_def free_def bytes)
        moreover have "idle (s\<lparr>mallocs := rest2, live := insert c (live s) - {c}, cmds := ((cmds s)(c \<mapsto> ?cmd))(c := None)\<rparr>)"
          by (rule client [OF idle]) simp_all
        ultimately show ?thesis using c by (simp add: same_memory_def fun_upd_idem)
      next
        case True
        then obtain a rest' where rest: "rest = Some a # rest'" by blast
        have a: "a \<notin> live s" "a \<noteq> c" using fresh Cons Some rest by (auto simp: fresh_allocs_def)
        define s2 where "s2 = s\<lparr>mallocs := rest', live := insert a (insert c (live s)), data_at := (data_at s)(c \<mapsto> a), cmds := (cmds s)(c \<mapsto> ?cmd\<lparr>cmd_data := Some ?d\<rparr>)\<rparr>"
        have s2: "live s2 = insert a (insert c (live s))" "data_at s2 = (data_at s)(c \<mapsto> a)" "tokens s2 = tokens s"
          "cmds s2 = (cmds s)(c \<mapsto> ?cmd\<lparr>cmd_data := Some ?d\<rparr>)" by (simp_all add: s2_def)
        have add: "mmc_cmd_add_data c vb pb (ucast start) (of_nat mmc_block_size) (word_of_int n)
            (s\<lparr>mallocs := rest, live := insert c (live s), cmds := (cmds s)(c \<mapsto> ?cmd)\<rparr>) = Some (0, s2)"
          by (simp add: mmc_cmd_add_data_def malloc_def rest s2_def)
        have "idle s2" by (rule client [OF idle]) (simp_all add: s2_def)
        from send [OF this, of c "?cmd\<lparr>cmd_data := Some ?d\<rparr>" 0] vb s2(4) obtain r s3 m where
          s3: "op_send_command sdio c None 0 s2 = Some (r, s3)" "idle s3" "cmds s3 = (cmds s2)(c \<mapsto> m)" "cmd_data m = Some ?d" "r = 0 \<or> r = - 1"
            "sdhc.more s3 = sdhc.more s2" by auto
        from destroy_releases [of s3 c m ?d a] s3(3,4) more_fields [OF s3(6)] a s2 obtain s4 where
          s4: "mmc_cmd_destroy c s3 = Some s4" "live s4 = live s3 - {a, c}" "cmds s4 = (cmds s3)(c := None)" "data_at s4 = (data_at s3)(c := None)"
            "tokens s4 = tokens s3" "cmd_list_head s4 = cmd_list_head s3" "cmd_list_tail s4 = cmd_list_tail s3" by auto
        have "transfer_data sdio cd start n vb pb None tok command s = Some (if r = 0 then 512 * n else r, s4)"
          unfolding transfer_data_def Let_def arg_def [symmetric] new by (simp add: add host_defs s3(1) s4(1) bytes)
        moreover have "idle s4" by (rule client [OF s3(2) s4(6,7)])
        moreover have "same_memory s s4" using s4 s3(3) more_fields [OF s3(6)] s2 a c by (auto simp: same_memory_def fun_upd_idem)
        ultimately show ?thesis using s3(5) Cons Some rest by auto
      qed
    qed
  qed
qed

end

text \<open>The host controller driver is such a host, on a controller that answers, whatever the callbacks are.\<close>

definition sdhc_idle :: "'h device \<Rightarrow> ('h, 'z) sdhc_scheme \<Rightarrow> bool" where
  "sdhc_idle dev s \<longleftrightarrow> queue_inv s [] \<and> (\<exists>lag dat. controller_answers dev lag dat)"

interpretation sh: sdio_host "sdhc_ops dev cbs" "sdhc_idle dev" for dev cbs
proof unfold_locales
  fix s :: "('a, 'b) mmc_sys_scheme" and c cmd tok
  assume "sdhc_idle dev s" and cmd: "cmds s c = Some cmd" and buf: "\<And>d. cmd_data cmd = Some d \<Longrightarrow> vbuf d \<noteq> 0"
  then obtain lag dat where "controller_answers dev lag dat" "queue_inv s []" by (auto simp: sdhc_idle_def)
  from send_blocking_runs [OF this cmd, of cbs tok] buf this(1)
  show "\<exists>r s' m. op_send_command (sdhc_ops dev cbs) c None tok s = Some (r, s') \<and> sdhc_idle dev s' \<and> cmds s' = (cmds s)(c \<mapsto> m) \<and>
      cmd_data m = cmd_data cmd \<and> (r = 0 \<or> r = - 1) \<and> sdhc.more s' = sdhc.more s"
    by (fastforce simp: sdhc_ops_def sdhc_idle_def same_cmd_def)
qed (auto simp: sdhc_idle_def queue_inv_def)

section \<open>Completion of a transfer\<close>

lemma handle_irq_completes:
  fixes s :: "('h, 'z) mmc_sys_scheme"
  assumes "queue_inv s (c # q)" and cmd: "cmds s c = Some cmd" and "readl dev INT_STATUS s = (st, s1)"
    and run: "sdhc_irq_step dev s = Some (Some c, s')" and cb: "cmd_cb cmd = Some BLOCKOP" and tok: "tokens s (cmd_token cmd) = Some t"
    and d: "cmd_data cmd = Some d"
  shows "sdhc_handle_irq dev (mmc_cbs client) s = do {
      s \<leftarrow> client (tok_cb t) 0 (ucast (block_size d * blocks d)) (tok_token t) s';
      s \<leftarrow> mmc_cmd_destroy c s;
      mmc_completion_token_destroy (cmd_token cmd) s } \<and> (\<exists>m. cmds s' c = Some m \<and> cmd_complete m = irq_outcome st cmd)"
proof -
  from irq_step_outcome [OF assms(1-4)] obtain m where m: "cmds s' c = Some m" "same_cmd cmd m" "cmd_complete m = irq_outcome st cmd"
    "sdhc.more s' = sdhc.more s" by auto
  then have "tokens s' (cmd_token m) = Some t" "cmd_cb m = Some BLOCKOP" "cmd_data m = Some d" "cmd_token m = cmd_token cmd"
    using tok cb d more_fields(4) [OF m(4)] by (auto simp: same_cmd_def)
  then show ?thesis using run m by (simp add: sdhc_handle_irq_def mmc_cbs_def mmc_blockop_completion_cb_def)
qed

section \<open>Properties of the card driver\<close>

text \<open>
  A bit field of a card register, put together from one or two of its words, is that field of the 128-bit number the four words stand for.
\<close>

theorem slice_bits_is_field:
  assumes "length ws = 4" and "0 < sz" and "sz \<le> 32" and "start + sz \<le> 128"
  shows "\<exists>w. slice_bits ws start sz = Some w \<and> uint w = take_bit sz (drop_bit start (reg128 ws))"
  using slice_bits_field [OF assms] by (simp add: field_def)

theorem slice_bits_is_field_witness:
  "\<exists>w. slice_bits [0, 0x80000000, 3, 0] 62 12 = Some w \<and> uint w = take_bit 12 (drop_bit 62 (reg128 [0, 0x80000000, 3, 0]))"
  by (rule slice_bits_is_field) simp_all

text \<open>
  C34: The capacity of a card is computed from its card specific data as the SD specification defines it for both versions of the register, \<open>-1\<close> for
  any other version, and without overflow; the data are the response of the card moved up by the byte that the controller drops.
\<close>

theorem mmc_capacity_of_response:
  assumes "length r = 4"
  shows "\<exists>ws. shift_response r = Some ws \<and> reg128 ws = take_bit 128 (push_bit 8 (reg128 r)) \<and>
    mmc_card_capacity ws = Some (csd_capacity ws) \<and> csd_capacity ws < 2 ^ 63"
  using shift_response_reg [OF assms] capacity_correct csd_capacity_bound by blast

theorem mmc_capacity_of_response_witness:
  "\<exists>ws. shift_response [0, 0x1d69, 0x5b5900, 0x400e00] = Some ws \<and> mmc_card_capacity ws = Some (csd_capacity ws)"
  using mmc_capacity_of_response [of "[0, 0x1d69, 0x5b5900, 0x400e00]"] by auto


definition card_host :: "bool mmc_sys" where
  "card_host = \<lparr>hw = False, version = 3, nirqs = 1, irq_table = [54], cmd_list_head = None, cmd_list_tail = Head_Field,
     blocks_remaining = 0, cmds = Map.empty, words = (\<lambda>_. 0), mallocs = [Some 16, Some 32, Some 48], live = {}, data_at = Map.empty, tokens = Map.empty\<rparr>"

definition card_example :: mmc_card where
  "card_example = \<lparr>ocr = 0, raw_cid = [], raw_csd = [], raw_rca = 0, card_type = CARD_TYPE_SD, high_capacity = 1, card_status = CARD_STS_ACTIVE\<rparr>"


text \<open>
  C35: When the controller reports an error for a transfer with a callback, the client is called with status 0 and with the full number of bytes,
  exactly as after a successful transfer; the command alone, which is then freed, records the failure.
\<close>

theorem mmc_failed_transfer_reported_complete:
  fixes s :: "('h, 'z) mmc_sys_scheme"
  assumes "queue_inv s (c # q)" and "cmds s c = Some cmd" and "readl dev INT_STATUS s = (st, s1)"
    and "sdhc_irq_step dev s = Some (Some c, s')" and "cmd_cb cmd = Some BLOCKOP" and "tokens s (cmd_token cmd) = Some t"
    and "cmd_data cmd = Some d" and "irq_error st"
  shows "sdhc_handle_irq dev (mmc_cbs client) s = do {
      s \<leftarrow> client (tok_cb t) 0 (ucast (block_size d * blocks d)) (tok_token t) s';
      s \<leftarrow> mmc_cmd_destroy c s;
      mmc_completion_token_destroy (cmd_token cmd) s } \<and> (\<exists>m. cmds s' c = Some m \<and> cmd_complete m = - 1)"
  using handle_irq_completes [OF assms(1-7), of client] assms(8) by (simp add: irq_outcome_def)

definition failing_dev :: "unit device" where
  "failing_dev = \<lparr>dv_read = \<lambda>h a. (if a = INT_STATUS then INT_STATUS_CTOE else 0, h), dv_write = \<lambda>h a v. h\<rparr>"

definition data_cmd :: mmc_cmd where
  "data_cmd = \<lparr>cmd_index = 17, cmd_arg = 0, cmd_response = [0, 0, 0, 0],
     cmd_data = Some \<lparr>pbuf = 0, vbuf = 64, data_addr = 0, block_size = 512, blocks = 2\<rparr>, rsp_type = MMC_RSP_TYPE_R1, cmd_cb = Some BLOCKOP,
     cmd_token = 48, cmd_next = None, cmd_complete = 0\<rparr>"

definition waiting_host :: "unit mmc_sys" where
  "waiting_host = \<lparr>hw = (), version = 3, nirqs = 1, irq_table = [54], cmd_list_head = Some 16, cmd_list_tail = Next_Field 16,
     blocks_remaining = 2, cmds = [16 \<mapsto> data_cmd], words = (\<lambda>_. 0), mallocs = [], live = {16, 32, 48}, data_at = [16 \<mapsto> 32],
     tokens = [48 \<mapsto> \<lparr>tok_cb = 5, tok_token = 9\<rparr>]\<rparr>"

theorem mmc_failed_transfer_reported_complete_witness:
  "\<exists>s'. sdhc_irq_step failing_dev waiting_host = Some (Some 16, s') \<and>
    sdhc_handle_irq failing_dev (mmc_cbs (\<lambda>k stat bytes tok s. if k = 5 \<and> stat = 0 \<and> bytes = 1024 \<and> tok = 9 then Some s else None)) waiting_host =
      do { s \<leftarrow> mmc_cmd_destroy 16 s'; mmc_completion_token_destroy 48 s }"
proof -
  let ?client = "\<lambda>k stat bytes tok (s :: unit mmc_sys). if k = (5 :: nat) \<and> stat = (0 :: int) \<and> bytes = (1024 :: u64) \<and> tok = (9 :: u64) then Some s else None"
  obtain s' where step: "sdhc_irq_step failing_dev waiting_host = Some (Some 16, s')"
    by (simp add: sdhc_irq_step_def waiting_host_def data_cmd_def readl_def writel_def failing_dev_def mark_errors_def error_bits_def mark_error_def
        command_complete_def programmed_io_def transfer_complete_def retire_def bit_defs reg_defs)
  have "queue_inv waiting_host [16]" "cmds waiting_host 16 = Some data_cmd" "readl failing_dev INT_STATUS waiting_host = (INT_STATUS_CTOE, waiting_host)"
    by (simp_all add: queue_inv_def waiting_host_def data_cmd_def readl_def failing_dev_def)
  moreover have "cmd_cb data_cmd = Some BLOCKOP" "tokens waiting_host (cmd_token data_cmd) = Some \<lparr>tok_cb = 5, tok_token = 9\<rparr>"
    "cmd_data data_cmd = Some \<lparr>pbuf = 0, vbuf = 64, data_addr = 0, block_size = 512, blocks = 2\<rparr>" "cmd_token data_cmd = 48"
    by (simp_all add: data_cmd_def waiting_host_def)
  moreover have "irq_error INT_STATUS_CTOE" by (simp add: irq_error_def error_bits_def bit_defs)
  ultimately show ?thesis
    using mmc_failed_transfer_reported_complete [OF _ _ _ step, of "[]" data_cmd INT_STATUS_CTOE waiting_host "\<lparr>tok_cb = 5, tok_token = 9\<rparr>"
        "\<lparr>pbuf = 0, vbuf = 64, data_addr = 0, block_size = 512, blocks = 2\<rparr>" ?client] step by simp
qed

end
