(* ===== verification/Gpio.thy ===== *)
theory Gpio
  imports Prelude
begin

text \<open>
  General purpose pins of the Tegra X2 (\<open>src/libplatsupportports/src/plat/tx2/gpio.c\<close>, \<open>gpio.h\<close>): 32 bytes of registers per pin, in
  ports of up to eight pins, in one mapped region.

  The registers are a map from addresses to values that hold what was last written; the registers that report the state of a pin have arbitrary
  values. An access outside the mapped region is \<open>None\<close>. The values of the enumerations of the platform library, which is not part of the
  repository, that the driver distinguishes are the constructors of \<open>gpio_dir\<close>; the numbers of the two levels are parameters.
\<close>

section \<open>Registers of a pin\<close>

definition TX2_GPIO_PADDR :: u64 where "TX2_GPIO_PADDR = 0x2210000"
definition TX2_GPIO_SIZE :: u64 where "TX2_GPIO_SIZE = 0x10000"
definition TX2_GPIO_PIN_STRIDE :: int where "TX2_GPIO_PIN_STRIDE = 0x20"
definition TX2_GPIO_ENABLE_CONFIG_ENABLE :: u32 where "TX2_GPIO_ENABLE_CONFIG_ENABLE = 2 ^ 0"
definition TX2_GPIO_ENABLE_CONFIG_OUT :: u32 where "TX2_GPIO_ENABLE_CONFIG_OUT = 2 ^ 1"
definition TX2_GPIO_ENABLE_CONFIG_INTERRUPT_ENABLE :: u32 where "TX2_GPIO_ENABLE_CONFIG_INTERRUPT_ENABLE = 2 ^ 6"
definition TX2_GPIO_ENABLE_CONFIG_TRIGGER_TYPE_LEVEL :: u32 where "TX2_GPIO_ENABLE_CONFIG_TRIGGER_TYPE_LEVEL = 2 ^ 2"
definition TX2_GPIO_ENABLE_CONFIG_TRIGGER_TYPE_SINGLE_EDGE :: u32 where "TX2_GPIO_ENABLE_CONFIG_TRIGGER_TYPE_SINGLE_EDGE = 2 ^ 3"
definition TX2_GPIO_ENABLE_CONFIG_TRIGGER_TYPE_DOUBLE_EDGE :: u32 where "TX2_GPIO_ENABLE_CONFIG_TRIGGER_TYPE_DOUBLE_EDGE = 2 ^ 2 OR 2 ^ 3"
definition TX2_GPIO_ENABLE_CONFIG_TRIGGER_LEVEL_HIGH :: u32 where "TX2_GPIO_ENABLE_CONFIG_TRIGGER_LEVEL_HIGH = 2 ^ 4"
definition TX2_GPIO_ENABLE_CONFIG_TRIGGER_MASK :: u32 where "TX2_GPIO_ENABLE_CONFIG_TRIGGER_MASK = 2 ^ 2 OR 2 ^ 3 OR 2 ^ 4"
definition TX2_GPIO_OUTPUT_CONTROL_FLOATED :: u32 where "TX2_GPIO_OUTPUT_CONTROL_FLOATED = 2 ^ 0"
definition TX2_GPIO_OUTPUT_VALUE_HIGH :: u32 where "TX2_GPIO_OUTPUT_VALUE_HIGH = 2 ^ 0"
definition TX2_GPIO_INTERRUPT_CLEAR :: u32 where "TX2_GPIO_INTERRUPT_CLEAR = 2 ^ 0"

lemmas gpio_bits = TX2_GPIO_ENABLE_CONFIG_ENABLE_def TX2_GPIO_ENABLE_CONFIG_OUT_def TX2_GPIO_ENABLE_CONFIG_INTERRUPT_ENABLE_def TX2_GPIO_ENABLE_CONFIG_TRIGGER_TYPE_LEVEL_def TX2_GPIO_ENABLE_CONFIG_TRIGGER_TYPE_SINGLE_EDGE_def
  TX2_GPIO_ENABLE_CONFIG_TRIGGER_TYPE_DOUBLE_EDGE_def TX2_GPIO_ENABLE_CONFIG_TRIGGER_LEVEL_HIGH_def TX2_GPIO_ENABLE_CONFIG_TRIGGER_MASK_def TX2_GPIO_OUTPUT_CONTROL_FLOATED_def TX2_GPIO_OUTPUT_VALUE_HIGH_def
  TX2_GPIO_INTERRUPT_CLEAR_def

datatype gpio_reg_offset = GPIO_ENABLE_CONFIG | GPIO_INPUT | GPIO_OUTPUT_CONTROL | GPIO_OUTPUT_VALUE | GPIO_INTERRUPT_CLEAR | GPIO_INTERRUPT_STATUS

fun reg_off :: "gpio_reg_offset \<Rightarrow> int" where
  "reg_off GPIO_ENABLE_CONFIG = 0x0"
| "reg_off GPIO_INPUT = 0x8"
| "reg_off GPIO_OUTPUT_CONTROL = 0xc"
| "reg_off GPIO_OUTPUT_VALUE = 0x10"
| "reg_off GPIO_INTERRUPT_CLEAR = 0x14"
| "reg_off GPIO_INTERRUPT_STATUS = 0x100"

record tx2_gpio_port =
  addr_offset :: int
  port_start :: int
  port_end :: int

text \<open>The ports A to R, T, X, Y, BB and CC; the pins of a port are numbered from a multiple of eight.\<close>

definition tx2_ports :: "tx2_gpio_port list" where
  "tx2_ports = [
     \<lparr>addr_offset = 0x2000, port_start = 0, port_end = 6\<rparr>,
     \<lparr>addr_offset = 0x3000, port_start = 8, port_end = 14\<rparr>,
     \<lparr>addr_offset = 0x3200, port_start = 16, port_end = 22\<rparr>,
     \<lparr>addr_offset = 0x3400, port_start = 24, port_end = 29\<rparr>,
     \<lparr>addr_offset = 0x2200, port_start = 32, port_end = 39\<rparr>,
     \<lparr>addr_offset = 0x2400, port_start = 40, port_end = 45\<rparr>,
     \<lparr>addr_offset = 0x4200, port_start = 48, port_end = 53\<rparr>,
     \<lparr>addr_offset = 0x1000, port_start = 56, port_end = 62\<rparr>,
     \<lparr>addr_offset = 0x800, port_start = 64, port_end = 71\<rparr>,
     \<lparr>addr_offset = 0x5000, port_start = 72, port_end = 79\<rparr>,
     \<lparr>addr_offset = 0x5200, port_start = 80, port_end = 80\<rparr>,
     \<lparr>addr_offset = 0x1200, port_start = 88, port_end = 95\<rparr>,
     \<lparr>addr_offset = 0x5600, port_start = 96, port_end = 101\<rparr>,
     \<lparr>addr_offset = 0x0, port_start = 104, port_end = 110\<rparr>,
     \<lparr>addr_offset = 0x200, port_start = 112, port_end = 115\<rparr>,
     \<lparr>addr_offset = 0x4000, port_start = 120, port_end = 126\<rparr>,
     \<lparr>addr_offset = 0x400, port_start = 128, port_end = 133\<rparr>,
     \<lparr>addr_offset = 0xa00, port_start = 136, port_end = 141\<rparr>,
     \<lparr>addr_offset = 0x600, port_start = 144, port_end = 147\<rparr>,
     \<lparr>addr_offset = 0x1400, port_start = 152, port_end = 159\<rparr>,
     \<lparr>addr_offset = 0x1600, port_start = 160, port_end = 166\<rparr>,
     \<lparr>addr_offset = 0x2600, port_start = 168, port_end = 169\<rparr>,
     \<lparr>addr_offset = 0x5400, port_start = 176, port_end = 179\<rparr>]"

definition MAX_GPIO_ID :: int where "MAX_GPIO_ID = 179"

text \<open>Division of a C \<open>int\<close>, which rounds towards 0; a negative port is outside the table.\<close>

definition tx2_pin_to_port :: "int \<Rightarrow> int" where
  "tx2_pin_to_port pin = (if 0 \<le> pin then pin div 8 else - ((- pin) div 8))"

definition port_at :: "int \<Rightarrow> tx2_gpio_port option" where
  "port_at port = (if port < 0 then None else rd tx2_ports (nat port))"

definition tx2_valid_pin :: "int \<Rightarrow> bool option" where
  "tx2_valid_pin pin =
     (if pin < 0 \<or> pin > MAX_GPIO_ID then Some False
      else do {
        p \<leftarrow> port_at (tx2_pin_to_port pin);
        Some (port_start p \<le> pin \<and> pin \<le> port_end p) })"

definition pin_offset :: "tx2_gpio_port \<Rightarrow> gpio_reg_offset \<Rightarrow> int \<Rightarrow> int" where
  "pin_offset p r pin = addr_offset p + reg_off r + (pin - port_start p) * TX2_GPIO_PIN_STRIDE"

definition tx2_gpio_get_register :: "u64 \<Rightarrow> gpio_reg_offset \<Rightarrow> int \<Rightarrow> u64 option" where
  "tx2_gpio_get_register base r pin = do {
     p \<leftarrow> port_at (tx2_pin_to_port pin);
     Some (base + word_of_int (pin_offset p r pin)) }"

section \<open>Accesses\<close>

type_synonym gpio_regs = "u64 \<Rightarrow> u32"

definition mapped_at :: "u64 \<Rightarrow> u64 \<Rightarrow> bool" where
  "mapped_at base a \<longleftrightarrow> a - base < TX2_GPIO_SIZE"

definition load :: "u64 \<Rightarrow> u64 \<Rightarrow> gpio_regs \<Rightarrow> u32 option" where
  "load base a m = (if mapped_at base a then Some (m a) else None)"

definition store :: "u64 \<Rightarrow> u64 \<Rightarrow> u32 \<Rightarrow> gpio_regs \<Rightarrow> gpio_regs option" where
  "store base a v m = (if mapped_at base a then Some (m(a := v)) else None)"

section \<open>Operations\<close>

definition E_INVAL :: int where "E_INVAL = 22"

datatype gpio_dir = GPIO_DIR_IN | GPIO_DIR_OUT_DEFAULT_LOW | GPIO_DIR_OUT_DEFAULT_HIGH | GPIO_DIR_IRQ_LOW | GPIO_DIR_IRQ_HIGH
  | GPIO_DIR_IRQ_FALL | GPIO_DIR_IRQ_RISE | GPIO_DIR_IRQ_EDGE | Other_Dir int

text \<open>The case for an input pin has no \<open>break\<close> and falls into the error.\<close>

definition tx2_gpio_set_direction :: "u64 \<Rightarrow> int \<Rightarrow> gpio_dir \<Rightarrow> gpio_regs \<Rightarrow> (int \<times> gpio_regs) option" where
  "tx2_gpio_set_direction base pin dir m = do {
     config_reg \<leftarrow> tx2_gpio_get_register base GPIO_ENABLE_CONFIG pin;
     output_control_reg \<leftarrow> tx2_gpio_get_register base GPIO_OUTPUT_CONTROL pin;
     config_val \<leftarrow> load base config_reg m;
     output_control_val \<leftarrow> load base output_control_reg m;
     (if dir = GPIO_DIR_OUT_DEFAULT_HIGH \<or> dir = GPIO_DIR_OUT_DEFAULT_LOW then do {
        m \<leftarrow> store base config_reg (config_val OR TX2_GPIO_ENABLE_CONFIG_OUT) m;
        m \<leftarrow> store base output_control_reg (output_control_val AND NOT TX2_GPIO_OUTPUT_CONTROL_FLOATED) m;
        Some (0, m) }
      else Some (- E_INVAL, m)) }"

text \<open>The bits for the trigger; the case for a high level falls into the one for a low level, which overwrites it.\<close>

definition trigger_bits :: "gpio_dir \<Rightarrow> u32 option" where
  "trigger_bits dir = (case dir of
     GPIO_DIR_IRQ_RISE \<Rightarrow> Some (TX2_GPIO_ENABLE_CONFIG_TRIGGER_LEVEL_HIGH OR TX2_GPIO_ENABLE_CONFIG_TRIGGER_TYPE_SINGLE_EDGE)
   | GPIO_DIR_IRQ_FALL \<Rightarrow> Some (0 OR TX2_GPIO_ENABLE_CONFIG_TRIGGER_TYPE_SINGLE_EDGE)
   | GPIO_DIR_IRQ_EDGE \<Rightarrow> Some TX2_GPIO_ENABLE_CONFIG_TRIGGER_TYPE_DOUBLE_EDGE
   | GPIO_DIR_IRQ_HIGH \<Rightarrow> Some TX2_GPIO_ENABLE_CONFIG_TRIGGER_TYPE_LEVEL
   | GPIO_DIR_IRQ_LOW \<Rightarrow> Some TX2_GPIO_ENABLE_CONFIG_TRIGGER_TYPE_LEVEL
   | _ \<Rightarrow> None)"

definition tx2_gpio_set_interrupt_type :: "u64 \<Rightarrow> int \<Rightarrow> gpio_dir \<Rightarrow> gpio_regs \<Rightarrow> (int \<times> gpio_regs) option" where
  "tx2_gpio_set_interrupt_type base pin dir m = do {
     reg_vaddr \<leftarrow> tx2_gpio_get_register base GPIO_ENABLE_CONFIG pin;
     val \<leftarrow> load base reg_vaddr m;
     (case trigger_bits dir of
        None \<Rightarrow> Some (- E_INVAL, m)
      | Some lvl_type \<Rightarrow> do {
          m \<leftarrow> store base reg_vaddr ((val AND NOT TX2_GPIO_ENABLE_CONFIG_TRIGGER_MASK) OR lvl_type) m;
          Some (0, m) }) }"

definition tx2_gpio_irq_enable_disable :: "u64 \<Rightarrow> int \<Rightarrow> bool \<Rightarrow> gpio_regs \<Rightarrow> (int \<times> gpio_regs) option" where
  "tx2_gpio_irq_enable_disable base pin enable m = do {
     reg_vaddr \<leftarrow> tx2_gpio_get_register base GPIO_ENABLE_CONFIG pin;
     val \<leftarrow> load base reg_vaddr m;
     m \<leftarrow> store base reg_vaddr (if enable then val OR TX2_GPIO_ENABLE_CONFIG_INTERRUPT_ENABLE else val AND NOT TX2_GPIO_ENABLE_CONFIG_INTERRUPT_ENABLE) m;
     Some (0, m) }"

text \<open>
  A client's pin: its number and the system it belongs to, \<open>None\<close> for a null pointer. The operations that take a pin have these two
  as arguments.
\<close>

record gpio_t =
  gpio_id :: int
  gpio_sys :: "u64 option"

text \<open>A pin that is not valid gives \<open>EINVAL\<close>, not its negation as elsewhere.\<close>

definition tx2_gpio_init :: "u64 \<Rightarrow> int \<Rightarrow> gpio_dir \<Rightarrow> gpio_t \<Rightarrow> gpio_regs \<Rightarrow> (int \<times> gpio_t \<times> gpio_regs) option" where
  "tx2_gpio_init base pin dir gpio m = do {
     ok \<leftarrow> tx2_valid_pin pin;
     (if \<not> ok then Some (E_INVAL, gpio, m)
      else do {
        let gpio = gpio\<lparr>gpio_id := pin, gpio_sys := Some base\<rparr>;
        reg_vaddr \<leftarrow> tx2_gpio_get_register base GPIO_ENABLE_CONFIG pin;
        val \<leftarrow> load base reg_vaddr m;
        m \<leftarrow> store base reg_vaddr (val OR TX2_GPIO_ENABLE_CONFIG_ENABLE) m;
        (if dir = GPIO_DIR_IN \<or> dir = GPIO_DIR_OUT_DEFAULT_HIGH \<or> dir = GPIO_DIR_OUT_DEFAULT_LOW
         then do {
           (error, m) \<leftarrow> tx2_gpio_set_direction base pin dir m;
           Some (error, gpio, m) }
         else do {
           (error, m) \<leftarrow> tx2_gpio_set_interrupt_type base pin dir m;
           (if error \<noteq> 0 then Some (error, gpio, m)
            else do {
              (error, m) \<leftarrow> tx2_gpio_irq_enable_disable base pin False m;
              Some (error, gpio, m) }) }) }) }"

definition tx2_gpio_read_level :: "int \<Rightarrow> int \<Rightarrow> u64 \<Rightarrow> int \<Rightarrow> gpio_regs \<Rightarrow> int option" where
  "tx2_gpio_read_level level_high level_low base pin m = do {
     ok \<leftarrow> tx2_valid_pin pin;
     (if \<not> ok then Some (- E_INVAL)
      else do {
        reg_vaddr \<leftarrow> tx2_gpio_get_register base GPIO_INPUT pin;
        val \<leftarrow> load base reg_vaddr m;
        Some (if val \<noteq> 0 then level_high else level_low) }) }"

text \<open>The condition tests the constant, not the level that was asked for.\<close>

definition tx2_gpio_set_level :: "int \<Rightarrow> u64 \<Rightarrow> int \<Rightarrow> int \<Rightarrow> gpio_regs \<Rightarrow> (int \<times> gpio_regs) option" where
  "tx2_gpio_set_level level_high base pin level m = do {
     ok \<leftarrow> tx2_valid_pin pin;
     (if \<not> ok then Some (- E_INVAL, m)
      else do {
        reg_vaddr \<leftarrow> tx2_gpio_get_register base GPIO_OUTPUT_VALUE pin;
        val \<leftarrow> load base reg_vaddr m;
        m \<leftarrow> store base reg_vaddr (if level_high \<noteq> 0 then val OR TX2_GPIO_OUTPUT_VALUE_HIGH else val AND NOT TX2_GPIO_OUTPUT_VALUE_HIGH) m;
        Some (0, m) }) }"

definition tx2_gpio_int_clear :: "u64 \<Rightarrow> int \<Rightarrow> gpio_regs \<Rightarrow> gpio_regs option" where
  "tx2_gpio_int_clear base pin m = do {
     reg_vaddr \<leftarrow> tx2_gpio_get_register base GPIO_INTERRUPT_CLEAR pin;
     val \<leftarrow> load base reg_vaddr m;
     store base reg_vaddr (val OR TX2_GPIO_INTERRUPT_CLEAR) m }"

definition tx2_gpio_check_pending :: "u64 \<Rightarrow> int \<Rightarrow> gpio_regs \<Rightarrow> bool option" where
  "tx2_gpio_check_pending base pin m = do {
     reg_vaddr \<leftarrow> tx2_gpio_get_register base GPIO_INTERRUPT_STATUS pin;
     val \<leftarrow> load base reg_vaddr m;
     Some (val \<noteq> 0) }"

text \<open>The first argument is the pin structure, the second its system; \<open>None\<close> is a null pointer.\<close>

definition tx2_gpio_pending_status :: "int option \<Rightarrow> u64 option \<Rightarrow> bool \<Rightarrow> gpio_regs \<Rightarrow> (int \<times> gpio_regs) option" where
  "tx2_gpio_pending_status gpio sys clear m = (case gpio of
     None \<Rightarrow> Some (- E_INVAL, m)
   | Some pin \<Rightarrow> (case sys of
       None \<Rightarrow> Some (- E_INVAL, m)
     | Some base \<Rightarrow> do {
         pending \<leftarrow> tx2_gpio_check_pending base pin m;
         m \<leftarrow> (if clear then tx2_gpio_int_clear base pin m else Some m);
         Some (if pending then 1 else 0, m) }))"

text \<open>The mapping is a service of the platform: the address it returns, 0 for a failure.\<close>

definition gpio_sys_init :: "(u64 \<Rightarrow> u64 \<Rightarrow> u64) option \<Rightarrow> bool \<Rightarrow> int \<times> u64 option" where
  "gpio_sys_init io_map gpio_sys_set = (case io_map of
     None \<Rightarrow> (- E_INVAL, None)
   | Some f \<Rightarrow>
       (if \<not> gpio_sys_set then (- E_INVAL, None)
        else let v = f TX2_GPIO_PADDR TX2_GPIO_SIZE in if v = 0 then (- 1, None) else (0, Some v)))"

section \<open>Layout\<close>

lemma ports_length: "length tx2_ports = 23"
  by (simp add: tx2_ports_def)

lemma ports_all: "list_all (\<lambda>k. port_start (tx2_ports ! k) = 8 * int k \<and> port_end (tx2_ports ! k) < 8 * int k + 8 \<and>
    0 \<le> addr_offset (tx2_ports ! k) \<and> addr_offset (tx2_ports ! k) \<le> 0x5600 \<and> addr_offset (tx2_ports ! k) mod 0x200 = 0) [0..<23]"
  by code_simp

lemma ports_distinct: "distinct (map addr_offset tx2_ports)"
  by code_simp

lemma port_facts:
  assumes "k < 23"
  shows "port_start (tx2_ports ! k) = 8 * int k" "port_end (tx2_ports ! k) < 8 * int k + 8" "0 \<le> addr_offset (tx2_ports ! k)"
    "addr_offset (tx2_ports ! k) \<le> 0x5600" "addr_offset (tx2_ports ! k) mod 0x200 = 0"
  using ports_all assms by (auto simp: list_all_iff)

text \<open>A valid pin is a place in one of the ports.\<close>

lemma valid_pinE:
  assumes "tx2_valid_pin pin = Some True"
  obtains k where "k < 23" "port_at (tx2_pin_to_port pin) = Some (tx2_ports ! k)" "8 * int k \<le> pin" "pin < 8 * int k + 8"
proof -
  let ?k = "nat (pin div 8)"
  have pin: "0 \<le> pin" "pin \<le> MAX_GPIO_ID" using assms by (auto simp: tx2_valid_pin_def split: if_splits)
  then have k: "?k < 23" "port_at (tx2_pin_to_port pin) = Some (tx2_ports ! ?k)"
    by (auto simp: tx2_pin_to_port_def port_at_def rd_def ports_length MAX_GPIO_ID_def)
  have "8 * int ?k \<le> pin" "pin < 8 * int ?k + 8" using pin(1) by auto
  with k that show thesis by blast
qed

definition pin_place :: "gpio_reg_offset \<Rightarrow> int \<Rightarrow> int" where
  "pin_place r i = reg_off r + i * TX2_GPIO_PIN_STRIDE"

lemma pin_place_range: "0 \<le> i \<Longrightarrow> i < 8 \<Longrightarrow> 0 \<le> pin_place r i \<and> pin_place r i < 0x200"
  by (cases r) (auto simp: pin_place_def TX2_GPIO_PIN_STRIDE_def)

lemma pin_place_inject:
  assumes "0 \<le> i" "i < 8" "0 \<le> j" "j < 8" "pin_place r i = pin_place r' j"
  shows "r = r' \<and> i = j"
  using assms by (cases r; cases r'; simp add: pin_place_def TX2_GPIO_PIN_STRIDE_def; presburger)

lemma port_block: "(a :: int) mod 0x200 = 0 \<Longrightarrow> 0 \<le> p \<Longrightarrow> p < 0x200 \<Longrightarrow> (a + p) div 0x200 * 0x200 = a"
proof -
  assume "a mod 0x200 = 0" "0 \<le> p" "p < 0x200"
  then obtain q where "a = 0x200 * q" "p div 0x200 = 0" by auto
  then show ?thesis by simp
qed

lemma uint_offset: "0 \<le> x \<Longrightarrow> x < 0x10000 \<Longrightarrow> uint (word_of_int x :: u64) = x"
  by (simp add: uint_word_of_int)

lemma register_inject:
  assumes "tx2_valid_pin p = Some True" and "tx2_valid_pin q = Some True"
    and "tx2_gpio_get_register base r p = Some a" and "tx2_gpio_get_register base r' q = Some b"
  shows "a - base < TX2_GPIO_SIZE" and "a = b \<Longrightarrow> p = q \<and> r = r'"
proof -
  obtain k where k: "k < 23" "port_at (tx2_pin_to_port p) = Some (tx2_ports ! k)" "8 * int k \<le> p" "p < 8 * int k + 8" using valid_pinE [OF assms(1)] .
  obtain l where l: "l < 23" "port_at (tx2_pin_to_port q) = Some (tx2_ports ! l)" "8 * int l \<le> q" "q < 8 * int l + 8" using valid_pinE [OF assms(2)] .
  note pk = port_facts [OF k(1)] and pl = port_facts [OF l(1)]
  define x y where "x = addr_offset (tx2_ports ! k) + pin_place r (p - 8 * int k)" and "y = addr_offset (tx2_ports ! l) + pin_place r' (q - 8 * int l)"
  have a: "a = base + word_of_int x" and b: "b = base + word_of_int y"
    using assms(3,4) k l pk(1) pl(1) by (auto simp: tx2_gpio_get_register_def pin_offset_def pin_place_def x_def y_def algebra_simps)
  have rx: "0 \<le> pin_place r (p - 8 * int k) \<and> pin_place r (p - 8 * int k) < 0x200"
    and ry: "0 \<le> pin_place r' (q - 8 * int l) \<and> pin_place r' (q - 8 * int l) < 0x200"
    using k l by (auto intro!: pin_place_range)
  have x: "0 \<le> x" "x < 0x5800" and y: "0 \<le> y" "y < 0x5800" using rx ry pk pl by (auto simp: x_def y_def)
  have ux: "uint (word_of_int x :: u64) = x" and uy: "uint (word_of_int y :: u64) = y" using uint_offset x y by auto
  show "a - base < TX2_GPIO_SIZE" using ux x by (simp add: a word_less_def TX2_GPIO_SIZE_def)
  assume "a = b"
  then have eq: "x = y" using ux uy a b by (metis add_left_cancel)
  have "x div 0x200 * 0x200 = addr_offset (tx2_ports ! k)" "y div 0x200 * 0x200 = addr_offset (tx2_ports ! l)"
    using port_block pk(5) pl(5) rx ry by (auto simp: x_def y_def)
  then have "addr_offset (tx2_ports ! k) = addr_offset (tx2_ports ! l)" using eq by simp
  then have "k = l" using ports_distinct k(1) l(1) nth_eq_iff_index_eq [of "map addr_offset tx2_ports" k l] by (simp add: ports_length)
  then have "pin_place r (p - 8 * int k) = pin_place r' (q - 8 * int k)" using eq by (simp add: x_def y_def)
  from pin_place_inject [OF _ _ _ _ this] k l \<open>k = l\<close> show "p = q \<and> r = r'" by auto
qed

lemma register_some:
  assumes "tx2_valid_pin p = Some True"
  shows "\<exists>a. tx2_gpio_get_register base r p = Some a \<and> mapped_at base a"
proof -
  obtain a where a: "tx2_gpio_get_register base r p = Some a"
  proof -
    obtain k where "port_at (tx2_pin_to_port p) = Some (tx2_ports ! k)" using valid_pinE [OF assms] by metis
    then show ?thesis using that by (simp add: tx2_gpio_get_register_def)
  qed
  with register_inject(1) [OF assms assms a a] show ?thesis by (auto simp: mapped_at_def)
qed

lemma register_neq:
  assumes "tx2_valid_pin p = Some True" and "tx2_gpio_get_register base r p = Some a" and "tx2_gpio_get_register base r' p = Some b" and "r \<noteq> r'"
  shows "a \<noteq> b"
  using register_inject(2) [OF assms(1,1,2,3)] assms(4) by auto

text \<open>Numbers of no pin: negative, too large, or in a gap of the numbering.\<close>

lemma valid_pin_defined: "\<exists>b. tx2_valid_pin pin = Some b"
proof (cases "pin < 0 \<or> pin > MAX_GPIO_ID")
  case False
  then have "nat (pin div 8) < length tx2_ports" by (auto simp: ports_length MAX_GPIO_ID_def)
  moreover have "\<not> pin div 8 < 0" using False div_int_pos_iff [of pin 8] by auto
  ultimately show ?thesis using False by (simp add: tx2_valid_pin_def tx2_pin_to_port_def port_at_def rd_def)
qed (auto simp: tx2_valid_pin_def)

section \<open>Properties of the pins\<close>

text \<open>
  C36: All registers of all valid pins lie in the mapped region, and no two of them are at the same address.
\<close>

theorem tx2_gpio_registers_apart:
  assumes "tx2_valid_pin p = Some True" and "tx2_valid_pin q = Some True"
  shows "\<exists>a b. tx2_gpio_get_register base r p = Some a \<and> tx2_gpio_get_register base r' q = Some b \<and>
    mapped_at base a \<and> mapped_at base b \<and> (a = b \<longleftrightarrow> p = q \<and> r = r')"
proof -
  obtain a b where "tx2_gpio_get_register base r p = Some a" "mapped_at base a" "tx2_gpio_get_register base r' q = Some b" "mapped_at base b"
    using register_some [OF assms(1)] register_some [OF assms(2)] by metis
  with register_inject(2) [OF assms this(1,3)] show ?thesis by auto
qed

theorem tx2_gpio_registers_apart_witness:
  "tx2_valid_pin 79 = Some True \<and> tx2_valid_pin 176 = Some True \<and>
   (\<exists>a b. tx2_gpio_get_register 0 GPIO_INPUT 79 = Some a \<and> tx2_gpio_get_register 0 GPIO_INTERRUPT_STATUS 176 = Some b \<and> a \<noteq> b)"
proof -
  have "tx2_valid_pin 79 = Some True" "tx2_valid_pin 176 = Some True" by code_simp+
  from this tx2_gpio_registers_apart [OF this, of 0 GPIO_INPUT GPIO_INTERRUPT_STATUS] show ?thesis by auto
qed

text \<open>
  C37: The whole effect of initialising a pin. A number that is no pin is refused. An output pin is enabled, driven and not floating; an interrupt
  pin is enabled with the trigger of its kind, where a high level is set up like a low one, and its interrupt disabled; an input pin is refused
  after having been enabled, and so is any other request. The pin structure names the pin, and no other register changes.
\<close>

theorem tx2_gpio_init_effect:
  assumes "tx2_gpio_get_register base GPIO_ENABLE_CONFIG pin = Some cfg" and "tx2_gpio_get_register base GPIO_OUTPUT_CONTROL pin = Some out"
  shows "tx2_gpio_init base pin dir gpio m =
    (if tx2_valid_pin pin \<noteq> Some True then Some (E_INVAL, gpio, m)
     else let c = m cfg OR TX2_GPIO_ENABLE_CONFIG_ENABLE; g = gpio\<lparr>gpio_id := pin, gpio_sys := Some base\<rparr>
          in if dir = GPIO_DIR_OUT_DEFAULT_HIGH \<or> dir = GPIO_DIR_OUT_DEFAULT_LOW
             then Some (0, g, m(cfg := c OR TX2_GPIO_ENABLE_CONFIG_OUT, out := m out AND NOT TX2_GPIO_OUTPUT_CONTROL_FLOATED))
             else case trigger_bits dir of
               Some b \<Rightarrow> Some (0, g, m(cfg := ((c AND NOT TX2_GPIO_ENABLE_CONFIG_TRIGGER_MASK) OR b) AND NOT TX2_GPIO_ENABLE_CONFIG_INTERRUPT_ENABLE))
             | None \<Rightarrow> Some (- E_INVAL, g, m(cfg := c)))"
proof (cases "tx2_valid_pin pin = Some True")
  case False
  then have "tx2_valid_pin pin = Some False" using valid_pin_defined [of pin] by auto
  then show ?thesis by (simp add: tx2_gpio_init_def)
next
  case True
  have m: "mapped_at base cfg" "mapped_at base out" "cfg \<noteq> out"
    using register_some [OF True, of base GPIO_ENABLE_CONFIG] register_some [OF True, of base GPIO_OUTPUT_CONTROL] register_neq [OF True assms] assms by auto
  show ?thesis
    using True m assms
    by (cases dir) (simp_all add: tx2_gpio_init_def tx2_gpio_set_direction_def tx2_gpio_set_interrupt_type_def tx2_gpio_irq_enable_disable_def load_def
        store_def trigger_bits_def Let_def E_INVAL_def)
qed

theorem tx2_gpio_init_effect_witness:
  "tx2_gpio_get_register 0 GPIO_ENABLE_CONFIG 72 = Some 0x5000 \<and> tx2_gpio_get_register 0 GPIO_OUTPUT_CONTROL 72 = Some 0x500c \<and>
   tx2_gpio_init 0 72 GPIO_DIR_IN \<lparr>gpio_id = 0, gpio_sys = None\<rparr> (\<lambda>_. 0) =
     Some (- 22, \<lparr>gpio_id = 72, gpio_sys = Some 0\<rparr>, (\<lambda>_. 0)(0x5000 := 1))"
proof -
  have a: "tx2_gpio_get_register 0 GPIO_ENABLE_CONFIG 72 = Some 0x5000" "tx2_gpio_get_register 0 GPIO_OUTPUT_CONTROL 72 = Some 0x500c"
    and v: "tx2_valid_pin 72 = Some True" by code_simp+
  from tx2_gpio_init_effect [OF a, of GPIO_DIR_IN "\<lparr>gpio_id = 0, gpio_sys = None\<rparr>" "\<lambda>_. 0"] a v show ?thesis
    by (simp add: trigger_bits_def Let_def E_INVAL_def gpio_bits)
qed

text \<open>
  Setting the level of a pin drives it high whatever level was asked for, since the number of the high level is not 0.
\<close>

theorem tx2_gpio_set_level_always_high:
  assumes "tx2_valid_pin pin = Some True" and "level_high \<noteq> 0" and "tx2_gpio_get_register base GPIO_OUTPUT_VALUE pin = Some a"
  shows "tx2_gpio_set_level level_high base pin level m = Some (0, m(a := m a OR TX2_GPIO_OUTPUT_VALUE_HIGH))"
  using assms register_some [OF assms(1), of base GPIO_OUTPUT_VALUE] by (simp add: tx2_gpio_set_level_def load_def store_def)

theorem tx2_gpio_set_level_always_high_witness:
  "tx2_valid_pin 72 = Some True \<and> tx2_gpio_set_level 1 0 72 0 (\<lambda>_. 0) = Some (0, (\<lambda>_. 0)(0x5010 := 1))"
proof -
  have "tx2_valid_pin 72 = Some True" "tx2_gpio_get_register 0 GPIO_OUTPUT_VALUE 72 = Some 0x5010" by code_simp+
  with tx2_gpio_set_level_always_high [OF this(1), of 1 0 "0x5010" 0 "\<lambda>_. 0"] show ?thesis by (simp add: gpio_bits)
qed

end
