(* ===== verification/Mux.thy ===== *)
theory Mux
  imports Gpio
begin

text \<open>
  The pin multiplexer of the Tegra X2 (\<open>src/libplatsupportports/src/plat/tx2/mux.c\<close>, \<open>mux.h\<close>): a table gives the pins of each feature with their
  functions and their input and output drivers, and enabling or disabling a feature writes the control registers of its pins.

  The registers hold what was last written, which the assertions of the driver check. Whether a pin is to be used as a general purpose pin is
  the only thing the driver asks of the direction, an enumeration of the platform library.
\<close>

section \<open>Pins and features\<close>

definition TX2_MUX_PADDR :: u64 where "TX2_MUX_PADDR = 0x2430000"
definition TX2_MUX_SIZE :: u64 where "TX2_MUX_SIZE = 0x12000"
definition MUX_REG_SCHMT_SHIFT :: nat where "MUX_REG_SCHMT_SHIFT = 12"
definition MUX_REG_ENABLE_SHIFT :: nat where "MUX_REG_ENABLE_SHIFT = 6"
definition MUX_REG_OPEN_DRAIN_SHIFT :: nat where "MUX_REG_OPEN_DRAIN_SHIFT = 5"
definition MUX_REG_TRISTATE_SHIFT :: nat where "MUX_REG_TRISTATE_SHIFT = 4"
definition MUX_REG_PUPD_SHIFT :: nat where "MUX_REG_PUPD_SHIFT = 2"
definition MUX_REG_PUPD_MASK :: u32 where "MUX_REG_PUPD_MASK = 0x3"
definition MUX_REG_SFIO_SELECT_SHIFT :: nat where "MUX_REG_SFIO_SELECT_SHIFT = 0"
definition MUX_REG_SFIO_SELECT_MASK :: nat where "MUX_REG_SFIO_SELECT_MASK = 0x3"
definition MUX_REG_PUPD_PULLDOWN :: u32 where "MUX_REG_PUPD_PULLDOWN = 1"
definition MUX_REG_PUPD_PULLUP :: u32 where "MUX_REG_PUPD_PULLUP = 2"
definition MUX_REG_TRISTATE_TRISTATE :: u32 where "MUX_REG_TRISTATE_TRISTATE = 1"
definition P_IN :: u32 where "P_IN = 2 ^ 0"
definition P_PUSHPULL :: u32 where "P_PUSHPULL = 2 ^ 6"
definition P_BOTH :: u32 where "P_BOTH = P_IN OR P_PUSHPULL"
definition P_OPEN_DRAIN :: u32 where "P_OPEN_DRAIN = 2 ^ 2"
definition P_TRISTATE :: u32 where "P_TRISTATE = 2 ^ 3"
definition P_PULLUP :: u32 where "P_PULLUP = 2 ^ 4"
definition P_PULLDOWN :: u32 where "P_PULLDOWN = 2 ^ 5"
definition P_SCHMT :: u32 where "P_SCHMT = 2 ^ 6"

lemmas mux_regs = MUX_REG_SCHMT_SHIFT_def MUX_REG_ENABLE_SHIFT_def MUX_REG_OPEN_DRAIN_SHIFT_def MUX_REG_TRISTATE_SHIFT_def MUX_REG_PUPD_SHIFT_def
  MUX_REG_PUPD_MASK_def MUX_REG_SFIO_SELECT_SHIFT_def MUX_REG_SFIO_SELECT_MASK_def MUX_REG_PUPD_PULLDOWN_def MUX_REG_PUPD_PULLUP_def
  MUX_REG_TRISTATE_TRISTATE_def

lemmas pin_flags = P_IN_def P_PUSHPULL_def P_BOTH_def P_OPEN_DRAIN_def P_TRISTATE_def P_PULLUP_def P_PULLDOWN_def P_SCHMT_def

definition MUX_FEATURE_UARTA :: nat where "MUX_FEATURE_UARTA = 0"
definition MUX_FEATURE_UARTB :: nat where "MUX_FEATURE_UARTB = 1"
definition MUX_FEATURE_UARTD :: nat where "MUX_FEATURE_UARTD = 2"
definition MUX_FEATURE_SPI1 :: nat where "MUX_FEATURE_SPI1 = 3"
definition MUX_FEATURE_SPI3 :: nat where "MUX_FEATURE_SPI3 = 4"
definition MUX_FEATURE_SPI4 :: nat where "MUX_FEATURE_SPI4 = 5"
definition MUX_FEATURE_I2C1 :: nat where "MUX_FEATURE_I2C1 = 6"
definition MUX_FEATURE_I2C3 :: nat where "MUX_FEATURE_I2C3 = 7"
definition MUX_FEATURE_I2C7 :: nat where "MUX_FEATURE_I2C7 = 8"
definition MUX_FEATURE_I2C9 :: nat where "MUX_FEATURE_I2C9 = 9"
definition MUX_FEATURE_EQOS_RX :: nat where "MUX_FEATURE_EQOS_RX = 10"
definition MUX_FEATURE_EQOS_TX :: nat where "MUX_FEATURE_EQOS_TX = 11"
definition MUX_FEATURE_EQOS_MDIO :: nat where "MUX_FEATURE_EQOS_MDIO = 12"
definition MUX_FEATURE_GPIO_PJ0 :: nat where "MUX_FEATURE_GPIO_PJ0 = 13"
definition MUX_FEATURE_GPIO_PJ1 :: nat where "MUX_FEATURE_GPIO_PJ1 = 14"
definition MUX_FEATURE_GPIO_PJ2 :: nat where "MUX_FEATURE_GPIO_PJ2 = 15"
definition MUX_FEATURE_GPIO_PJ3 :: nat where "MUX_FEATURE_GPIO_PJ3 = 16"
definition MUX_FEATURE_GPIO_PJ4 :: nat where "MUX_FEATURE_GPIO_PJ4 = 17"
definition MUX_FEATURE_GPIO_PJ5 :: nat where "MUX_FEATURE_GPIO_PJ5 = 18"
definition MUX_FEATURE_GPIO_PJ6 :: nat where "MUX_FEATURE_GPIO_PJ6 = 19"
definition NMUX_FEATURES :: nat where "NMUX_FEATURES = 20"

lemmas mux_features = MUX_FEATURE_UARTA_def MUX_FEATURE_UARTB_def MUX_FEATURE_UARTD_def MUX_FEATURE_SPI1_def MUX_FEATURE_SPI3_def MUX_FEATURE_SPI4_def MUX_FEATURE_I2C1_def MUX_FEATURE_I2C3_def MUX_FEATURE_I2C7_def MUX_FEATURE_I2C9_def MUX_FEATURE_EQOS_RX_def MUX_FEATURE_EQOS_TX_def MUX_FEATURE_EQOS_MDIO_def MUX_FEATURE_GPIO_PJ0_def MUX_FEATURE_GPIO_PJ1_def MUX_FEATURE_GPIO_PJ2_def MUX_FEATURE_GPIO_PJ3_def MUX_FEATURE_GPIO_PJ4_def MUX_FEATURE_GPIO_PJ5_def MUX_FEATURE_GPIO_PJ6_def NMUX_FEATURES_def

record tx2_mux_pin_desc =
  desc_flags :: u32
  gpio_pin :: int
  mux_reg_offset :: u16
  mux_sfio_value :: u8

definition PINMAP_PINDESC :: "int \<Rightarrow> u16 \<Rightarrow> u8 \<Rightarrow> u32 \<Rightarrow> tx2_mux_pin_desc" where
  "PINMAP_PINDESC gp mro msv in_out = \<lparr>desc_flags = in_out, gpio_pin = gp, mux_reg_offset = mro, mux_sfio_value = msv\<rparr>"

definition PINMAP_NULLDESC :: tx2_mux_pin_desc where
  "PINMAP_NULLDESC = PINMAP_PINDESC (- 1) (- 1) 0xF 0"

text \<open>Eight places per feature, the unused ones marked by the pin \<open>-1\<close>.\<close>

definition pinmap :: "tx2_mux_pin_desc list \<Rightarrow> tx2_mux_pin_desc list" where
  "pinmap ds = ds @ replicate (8 - length ds) PINMAP_NULLDESC"

definition pinmaps :: "tx2_mux_pin_desc list list" where
  "pinmaps = [
     pinmap [PINMAP_PINDESC 144 0x5018 0 P_PUSHPULL,
       PINMAP_PINDESC 145 0x5010 0 (P_IN OR P_PULLUP OR P_TRISTATE)],
     pinmap [PINMAP_PINDESC 152 0xd020 0 P_PUSHPULL,
       PINMAP_PINDESC 153 0xd028 0 (P_IN OR P_PULLUP OR P_TRISTATE),
       PINMAP_PINDESC 154 0xd030 0 P_PUSHPULL,
       PINMAP_PINDESC 155 0xd038 0 (P_IN OR P_PULLUP OR P_TRISTATE)],
     pinmap [PINMAP_PINDESC 8 0x4038 0 P_PUSHPULL,
       PINMAP_PINDESC 9 0x4030 0 (P_IN OR P_PULLUP OR P_TRISTATE),
       PINMAP_PINDESC 10 0x4028 0 P_PUSHPULL,
       PINMAP_PINDESC 11 0x4020 0 (P_IN OR P_PULLUP OR P_TRISTATE)],
     pinmap [PINMAP_PINDESC 56 0xd018 2 P_PUSHPULL,
       PINMAP_PINDESC 57 0xd010 2 (P_IN OR P_PULLDOWN OR P_TRISTATE),
       PINMAP_PINDESC 58 0xd008 2 P_PUSHPULL,
       PINMAP_PINDESC 59 0xd000 2 P_PULLUP],
     pinmap [PINMAP_PINDESC 156 0xd048 1 P_BOTH,
       PINMAP_PINDESC 157 0xd040 1 P_BOTH,
       PINMAP_PINDESC 158 0xd050 1 P_BOTH,
       PINMAP_PINDESC 159 0xd058 1 P_BOTH],
     pinmap [PINMAP_PINDESC 107 0x38 1 P_PUSHPULL,
       PINMAP_PINDESC 108 0x40 1 (P_IN OR P_PULLDOWN OR P_TRISTATE),
       PINMAP_PINDESC 109 0x48 1 P_PUSHPULL,
       PINMAP_PINDESC 110 0x50 1 P_PULLUP],
     pinmap [PINMAP_PINDESC 21 0x4060 0 (P_IN OR P_OPEN_DRAIN),
       PINMAP_PINDESC 22 0x4068 0 (P_IN OR P_OPEN_DRAIN)],
     pinmap [PINMAP_PINDESC 114 0x18 0 P_IN,
       PINMAP_PINDESC 115 0x10 0 P_IN],
     pinmap [PINMAP_PINDESC 88 0xd0b0 0 P_IN,
       PINMAP_PINDESC 89 0xd0b8 0 P_IN],
     pinmap [PINMAP_PINDESC 90 0xd0c8 0 P_IN,
       PINMAP_PINDESC 91 0xd0c0 0 P_IN],
     pinmap [PINMAP_PINDESC 43 0x905c 0 (P_IN OR P_TRISTATE),
       PINMAP_PINDESC 38 0x9040 0 (P_IN OR P_TRISTATE),
       PINMAP_PINDESC 39 0x9030 0 (P_IN OR P_TRISTATE),
       PINMAP_PINDESC 40 0x9028 0 (P_IN OR P_TRISTATE),
       PINMAP_PINDESC 41 0x9020 0 (P_IN OR P_TRISTATE),
       PINMAP_PINDESC 42 0x906c 0 (P_IN OR P_TRISTATE)],
     pinmap [PINMAP_PINDESC 32 0x9054 0 P_PUSHPULL,
       PINMAP_PINDESC 33 0x9018 0 P_PUSHPULL,
       PINMAP_PINDESC 34 0x9010 0 P_PUSHPULL,
       PINMAP_PINDESC 35 0x9008 0 P_PUSHPULL,
       PINMAP_PINDESC 36 0x9000 0 P_PUSHPULL,
       PINMAP_PINDESC 37 0x9064 0 P_PUSHPULL],
     pinmap [PINMAP_PINDESC 44 0x9038 0 (P_IN OR P_PULLUP),
       PINMAP_PINDESC 45 0x9048 0 P_PUSHPULL],
     pinmap [PINMAP_PINDESC 72 0x1040 0 P_BOTH],
     pinmap [PINMAP_PINDESC 73 0x1038 0 P_BOTH],
     pinmap [PINMAP_PINDESC 74 0x1030 0 P_BOTH],
     pinmap [PINMAP_PINDESC 75 0x1028 0 P_BOTH],
     pinmap [PINMAP_PINDESC 76 0x1020 0 P_BOTH],
     pinmap [PINMAP_PINDESC 77 0x1018 0 P_BOTH],
     pinmap [PINMAP_PINDESC 78 0x1010 0 P_BOTH]]"

section \<open>Operations\<close>

definition is_valid_feature :: "int \<Rightarrow> bool" where
  "is_valid_feature feature \<longleftrightarrow> 0 \<le> feature \<and> feature \<le> int NMUX_FEATURES"

datatype mux_register_type = CONTROL_REGISTER | DRIVE_STRENGTH_REGISTER

definition tx2_mux_get_register :: "u64 \<Rightarrow> u16 \<Rightarrow> mux_register_type \<Rightarrow> u64" where
  "tx2_mux_get_register base off reg_type = base + ucast off + (if reg_type = CONTROL_REGISTER then 0 else 4)"

type_synonym mux_state = "u64 \<Rightarrow> u32"

definition mux_mapped :: "u64 \<Rightarrow> u64 \<Rightarrow> bool" where
  "mux_mapped base a \<longleftrightarrow> a - base < TX2_MUX_SIZE"

definition mux_load :: "u64 \<Rightarrow> u64 \<Rightarrow> mux_state \<Rightarrow> u32 option" where
  "mux_load base a m = (if mux_mapped base a then Some (m a) else None)"

text \<open>A write and the assertion that it took effect.\<close>

definition mux_store :: "u64 \<Rightarrow> u64 \<Rightarrow> u32 \<Rightarrow> mux_state \<Rightarrow> mux_state option" where
  "mux_store base a v m = (if mux_mapped base a then Some (m(a := v)) else None)"

definition has :: "tx2_mux_pin_desc \<Rightarrow> u32 \<Rightarrow> bool" where
  "has d f \<longleftrightarrow> desc_flags d AND f \<noteq> 0"

text \<open>
  The value that the flags of a pin ask for; \<open>None\<close> is the error that two output drivers exclude each other. The function number is shifted by the
  mask instead of the shift of its field.
\<close>

definition required_value :: "tx2_mux_pin_desc \<Rightarrow> bool \<Rightarrow> u32 option" where
  "required_value d not_gpio = do {
     let v = push_bit MUX_REG_SFIO_SELECT_MASK (ucast (mux_sfio_value d) AND of_nat MUX_REG_SFIO_SELECT_MASK);
     let v = (if has d P_IN then v OR 2 ^ MUX_REG_ENABLE_SHIFT else v);
     let v = (if has d P_SCHMT then v OR 2 ^ MUX_REG_SCHMT_SHIFT else v);
     v \<leftarrow> (if has d P_PUSHPULL then
             (if has d P_OPEN_DRAIN then None
              else if has d P_TRISTATE then None
              else if has d P_PULLUP \<or> has d P_PULLDOWN then None
              else Some (v AND NOT (2 ^ MUX_REG_TRISTATE_SHIFT)))
           else Some v);
     v \<leftarrow> (if has d P_TRISTATE then
             (if has d P_OPEN_DRAIN then None
              else if has d P_PUSHPULL then None
              else if has d P_PULLUP \<or> has d P_PULLDOWN then None
              else Some (v OR push_bit MUX_REG_TRISTATE_SHIFT MUX_REG_TRISTATE_TRISTATE))
           else Some v);
     v \<leftarrow> (if has d P_PULLUP \<or> has d P_PULLDOWN then
             (if has d P_PULLUP \<and> has d P_PULLDOWN then None
              else if has d P_OPEN_DRAIN then None
              else if has d P_TRISTATE then None
              else Some ((v AND NOT (push_bit MUX_REG_PUPD_SHIFT MUX_REG_PUPD_MASK)) OR
                push_bit MUX_REG_PUPD_SHIFT (if has d P_PULLUP then MUX_REG_PUPD_PULLUP else MUX_REG_PUPD_PULLDOWN)))
           else Some v);
     v \<leftarrow> (if has d P_OPEN_DRAIN then
             (if has d P_PUSHPULL then None
              else if has d P_TRISTATE then None
              else if has d P_PULLUP \<or> has d P_PULLDOWN then None
              else Some (v OR 2 ^ MUX_REG_OPEN_DRAIN_SHIFT))
           else Some v);
     Some (if not_gpio then v OR 2 ^ MUX_REG_SFIO_SELECT_SHIFT else v) }"

definition tx2_mux_set_pin_params :: "u64 \<Rightarrow> tx2_mux_pin_desc \<Rightarrow> bool \<Rightarrow> mux_state \<Rightarrow> (int \<times> mux_state) option" where
  "tx2_mux_set_pin_params base d not_gpio m = do {
     let pin_reg = tx2_mux_get_register base (mux_reg_offset d) CONTROL_REGISTER;
     regval \<leftarrow> mux_load base pin_reg m;
     m \<leftarrow> mux_store base pin_reg (2 ^ MUX_REG_TRISTATE_SHIFT) m;
     (case required_value d not_gpio of
        None \<Rightarrow> Some (- E_INVAL, m)
      | Some requiredval \<Rightarrow>
          (if regval = requiredval then Some (0, m)
           else do { m \<leftarrow> mux_store base pin_reg requiredval m; Some (0, m) })) }"

fun enable_pins :: "u64 \<Rightarrow> bool \<Rightarrow> tx2_mux_pin_desc list \<Rightarrow> mux_state \<Rightarrow> (int \<times> mux_state) option" where
  "enable_pins base not_gpio [] m = Some (0, m)"
| "enable_pins base not_gpio (d # ds) m =
     (if gpio_pin d = - 1 then Some (0, m)
      else do {
        (error, m) \<leftarrow> tx2_mux_set_pin_params base d not_gpio m;
        (if error \<noteq> 0 then Some (error, m) else enable_pins base not_gpio ds m) })"

definition tx2_mux_feature_enable :: "u64 \<Rightarrow> int \<Rightarrow> bool \<Rightarrow> mux_state \<Rightarrow> (int \<times> mux_state) option" where
  "tx2_mux_feature_enable base feature not_gpio m =
     (if \<not> is_valid_feature feature then Some (- E_INVAL, m)
      else if \<not> not_gpio \<and> \<not> (int MUX_FEATURE_GPIO_PJ0 \<le> feature \<and> feature \<le> int MUX_FEATURE_GPIO_PJ6) then Some (- E_INVAL, m)
      else do {
        ds \<leftarrow> rd pinmaps (nat feature);
        enable_pins base not_gpio ds m })"

definition tx2_mux_disable_pin :: "u64 \<Rightarrow> tx2_mux_pin_desc \<Rightarrow> mux_state \<Rightarrow> mux_state option" where
  "tx2_mux_disable_pin base d m =
     mux_store base (tx2_mux_get_register base (mux_reg_offset d) CONTROL_REGISTER) (push_bit MUX_REG_TRISTATE_SHIFT MUX_REG_TRISTATE_TRISTATE) m"

fun disable_pins :: "u64 \<Rightarrow> tx2_mux_pin_desc list \<Rightarrow> mux_state \<Rightarrow> mux_state option" where
  "disable_pins base [] m = Some m"
| "disable_pins base (d # ds) m =
     (if gpio_pin d = - 1 then Some m else do { m \<leftarrow> tx2_mux_disable_pin base d m; disable_pins base ds m })"

definition tx2_mux_feature_disable :: "u64 \<Rightarrow> int \<Rightarrow> mux_state \<Rightarrow> (int \<times> mux_state) option" where
  "tx2_mux_feature_disable base feature m =
     (if \<not> is_valid_feature feature then Some (- E_INVAL, m)
      else do {
        ds \<leftarrow> rd pinmaps (nat feature);
        m \<leftarrow> disable_pins base ds m;
        Some (0, m) })"

text \<open>The mapping is a service of the platform: the address it returns, 0 for a failure.\<close>

definition mux_sys_init :: "(u64 \<Rightarrow> u64 \<Rightarrow> u64) \<Rightarrow> int \<times> u64 option" where
  "mux_sys_init io_map = (let v = io_map TX2_MUX_PADDR TX2_MUX_SIZE in if v = 0 then (- 1, None) else (0, Some v))"

section \<open>Control registers\<close>

abbreviation control :: "u64 \<Rightarrow> tx2_mux_pin_desc \<Rightarrow> u64" where
  "control base d \<equiv> tx2_mux_get_register base (mux_reg_offset d) CONTROL_REGISTER"

abbreviation tristated :: u32 where
  "tristated \<equiv> 2 ^ MUX_REG_TRISTATE_SHIFT"

text \<open>The region is larger than any offset.\<close>

lemma control_mapped [simp]: "mux_mapped base (control base d)"
proof -
  have "uint (ucast (mux_reg_offset d) :: u64) < 0x10000"
    using uint_lt2p [of "mux_reg_offset d"] by (simp add: uint_up_ucast is_up)
  then show ?thesis by (simp add: mux_mapped_def tx2_mux_get_register_def word_less_def TX2_MUX_SIZE_def)
qed

lemma control_inject [simp]: "control base d = control base e \<longleftrightarrow> mux_reg_offset d = mux_reg_offset e"
proof -
  have "uint (ucast (a :: u16) :: u64) = uint a" for a by (simp add: uint_up_ucast is_up)
  then have "(ucast (a :: u16) :: u64) = ucast b \<longleftrightarrow> a = b" for a b by (simp add: word_uint_eq_iff)
  then show ?thesis by (simp add: tx2_mux_get_register_def)
qed

text \<open>The value a pin has after its parameters are set.\<close>

definition pin_after :: "tx2_mux_pin_desc \<Rightarrow> bool \<Rightarrow> u32 \<Rightarrow> u32" where
  "pin_after d not_gpio old = (case required_value d not_gpio of
     None \<Rightarrow> tristated
   | Some v \<Rightarrow> if old = v then tristated else v)"

lemma set_pin_params_eq:
  "tx2_mux_set_pin_params base d not_gpio m =
    Some (if required_value d not_gpio = None then - E_INVAL else 0, m(control base d := pin_after d not_gpio (m (control base d))))"
  by (auto simp: tx2_mux_set_pin_params_def mux_load_def mux_store_def pin_after_def Let_def split: option.splits)

section \<open>Output drivers\<close>

definition output_drivers :: "tx2_mux_pin_desc \<Rightarrow> u32 list" where
  "output_drivers d = filter (has d) [P_PUSHPULL, P_OPEN_DRAIN, P_TRISTATE, P_PULLUP, P_PULLDOWN]"

lemma required_value_none: "required_value d not_gpio = None \<longleftrightarrow> length (output_drivers d) > 1"
  by (cases "has d P_PUSHPULL"; cases "has d P_OPEN_DRAIN"; cases "has d P_TRISTATE"; cases "has d P_PULLUP"; cases "has d P_PULLDOWN";
      simp add: required_value_def output_drivers_def Let_def)

definition with_inputs :: "tx2_mux_pin_desc \<Rightarrow> u32" where
  "with_inputs d = push_bit 3 (ucast (mux_sfio_value d) AND 3) OR (if has d P_IN then 64 else 0) OR (if has d P_SCHMT then 4096 else 0)"

definition with_driver :: "tx2_mux_pin_desc \<Rightarrow> u32 \<Rightarrow> u32" where
  "with_driver d v =
     (if has d P_PUSHPULL then v AND NOT 16
      else if has d P_TRISTATE then v OR 16
      else if has d P_PULLUP then (v AND NOT 12) OR 8
      else if has d P_PULLDOWN then (v AND NOT 12) OR 4
      else if has d P_OPEN_DRAIN then v OR 32
      else v)"

lemma inputs_fold:
  "(let v = (if has d P_IN then (s :: u32) OR 2 ^ MUX_REG_ENABLE_SHIFT else s); v = (if has d P_SCHMT then v OR 2 ^ MUX_REG_SCHMT_SHIFT else v) in f v) =
   f (s OR (if has d P_IN then 64 else 0) OR (if has d P_SCHMT then 4096 else 0))"
  by (simp add: Let_def mux_regs or.assoc)

lemma required_value_eq:
  "required_value d not_gpio = (if length (output_drivers d) > 1 then None
     else Some (with_driver d (with_inputs d) OR (if not_gpio then 1 else 0)))"
  unfolding required_value_def inputs_fold Let_def [of "push_bit _ _"]
  by (cases "has d P_PUSHPULL"; cases "has d P_OPEN_DRAIN"; cases "has d P_TRISTATE"; cases "has d P_PULLUP"; cases "has d P_PULLDOWN";
      simp add: output_drivers_def with_driver_def with_inputs_def mux_regs)

lemma inputs_bits:
  "bit (with_inputs d) 6 \<longleftrightarrow> has d P_IN" "bit (with_inputs d) 12 \<longleftrightarrow> has d P_SCHMT" "\<not> bit (with_inputs d) 5"
  "bit (with_inputs d) 4 \<longleftrightarrow> bit (mux_sfio_value d) 1" "\<not> bit (with_inputs d) 0" "\<not> bit (with_inputs d) 1"
  by (simp_all add: with_inputs_def bit_or_iff bit_and_iff bit_push_bit_iff bit_ucast_iff)

lemma driver_bits:
  "bit (with_driver d v) 6 \<longleftrightarrow> bit v 6" "bit (with_driver d v) 12 \<longleftrightarrow> bit v 12" "bit (with_driver d v) 0 \<longleftrightarrow> bit v 0"
  "bit (with_driver d v) 1 \<longleftrightarrow> bit v 1"
  by (simp_all add: with_driver_def bit_or_iff bit_and_iff bit_not_iff)

lemma driver_bits_out:
  "bit (with_driver d v) 4 \<longleftrightarrow> \<not> has d P_PUSHPULL \<and> (has d P_TRISTATE \<or> bit v 4)"
  "\<not> bit v 5 \<Longrightarrow> bit (with_driver d v) 5 \<longleftrightarrow> \<not> has d P_PUSHPULL \<and> \<not> has d P_TRISTATE \<and> \<not> has d P_PULLUP \<and> \<not> has d P_PULLDOWN \<and> has d P_OPEN_DRAIN"
  by (simp_all add: with_driver_def bit_or_iff bit_and_iff bit_not_iff)

text \<open>
  The value that is written to the control register of a pin. There is one exactly when at most one output driver is asked for. Its bits for the
  input buffer, the Schmitt trigger and the open drain are the flags, and a push-pull pin is never tri-stated. The function number of the table reaches
  the tri-state bit and never its own field, the lowest two bits, which hold only whether the pin is used by a device.
\<close>

theorem tx2_mux_value_bits:
  "(required_value d not_gpio = None \<longleftrightarrow> length (output_drivers d) > 1) \<and>
   (\<forall>v. required_value d not_gpio = Some v \<longrightarrow>
     (bit v MUX_REG_ENABLE_SHIFT \<longleftrightarrow> has d P_IN) \<and> (bit v MUX_REG_SCHMT_SHIFT \<longleftrightarrow> has d P_SCHMT) \<and>
     (bit v MUX_REG_OPEN_DRAIN_SHIFT \<longleftrightarrow> has d P_OPEN_DRAIN) \<and>
     (bit v MUX_REG_TRISTATE_SHIFT \<longleftrightarrow> has d P_TRISTATE \<or> \<not> has d P_PUSHPULL \<and> bit (mux_sfio_value d) 1) \<and>
     (bit v MUX_REG_SFIO_SELECT_SHIFT \<longleftrightarrow> not_gpio) \<and> \<not> bit v (MUX_REG_SFIO_SELECT_SHIFT + 1))"
proof -
  have few: "\<not> (has d P_PUSHPULL \<and> has d P_TRISTATE)" "\<not> (has d P_OPEN_DRAIN \<and> (has d P_PUSHPULL \<or> has d P_TRISTATE \<or> has d P_PULLUP \<or> has d P_PULLDOWN))"
    if "\<not> length (output_drivers d) > 1"
    using that by (auto simp: output_drivers_def split: if_splits)
  then show ?thesis
    by (auto simp: required_value_eq mux_regs bit_or_iff inputs_bits driver_bits driver_bits_out bit_1_iff simp del: One_nat_def)
qed

theorem tx2_mux_value_bits_witness:
  "\<exists>v. required_value (PINMAP_PINDESC 59 0xd000 2 P_PULLUP) True = Some v \<and> bit v 4"
proof -
  obtain v where v: "required_value (PINMAP_PINDESC 59 0xd000 2 P_PULLUP) True = Some v"
    by (simp add: required_value_eq output_drivers_def PINMAP_PINDESC_def has_def pin_flags)
  with tx2_mux_value_bits [of "PINMAP_PINDESC 59 0xd000 2 P_PULLUP" True] show ?thesis
    by (simp add: PINMAP_PINDESC_def has_def pin_flags mux_regs)
qed

section \<open>Pins of a feature\<close>

definition pins_of :: "nat \<Rightarrow> tx2_mux_pin_desc list" where
  "pins_of feature = takeWhile (\<lambda>d. gpio_pin d \<noteq> - 1) (pinmaps ! feature)"

definition can_enable :: "nat \<Rightarrow> bool" where
  "can_enable feature \<longleftrightarrow> feature \<notin> {MUX_FEATURE_UARTA, MUX_FEATURE_UARTB, MUX_FEATURE_UARTD, MUX_FEATURE_SPI1, MUX_FEATURE_SPI4}"

lemma pinmaps_table: "list_all (\<lambda>f. f < length pinmaps \<and> distinct (map mux_reg_offset (pins_of f)) \<and>
    (can_enable f \<longleftrightarrow> list_all (\<lambda>d. length (output_drivers d) \<le> 1) (pins_of f))) [0..<NMUX_FEATURES]"
  by code_simp

lemma pinmaps_facts:
  assumes "f < NMUX_FEATURES"
  shows "f < length pinmaps" "distinct (map mux_reg_offset (pins_of f))"
    "can_enable f \<longleftrightarrow> (\<forall>d \<in> set (pins_of f). required_value d not_gpio \<noteq> None)"
  using pinmaps_table assms by (auto simp: list_all_iff required_value_none)

lemma enable_pins_result:
  assumes "\<exists>d \<in> set (takeWhile (\<lambda>d. gpio_pin d \<noteq> - 1) ds). required_value d not_gpio = None"
  shows "\<exists>m'. enable_pins base not_gpio ds m = Some (- E_INVAL, m')"
  using assms by (induction ds arbitrary: m) (auto simp: set_pin_params_eq E_INVAL_def split: if_splits)

definition set_pins :: "u64 \<Rightarrow> (tx2_mux_pin_desc \<Rightarrow> u32 \<Rightarrow> u32) \<Rightarrow> tx2_mux_pin_desc list \<Rightarrow> mux_state \<Rightarrow> mux_state" where
  "set_pins base f ds m = fold (\<lambda>d m. m(control base d := f d (m (control base d)))) ds m"

lemma enable_pins_all:
  assumes "\<forall>d \<in> set (takeWhile (\<lambda>d. gpio_pin d \<noteq> - 1) ds). required_value d not_gpio \<noteq> None"
  shows "enable_pins base not_gpio ds m =
    Some (0, set_pins base (\<lambda>d. pin_after d not_gpio) (takeWhile (\<lambda>d. gpio_pin d \<noteq> - 1) ds) m)"
  using assms by (induction ds arbitrary: m) (auto simp: set_pin_params_eq set_pins_def split: if_splits)

lemma disable_pins_all:
  "disable_pins base ds m = Some (set_pins base (\<lambda>_ _. tristated) (takeWhile (\<lambda>d. gpio_pin d \<noteq> - 1) ds) m)"
  by (induction ds arbitrary: m) (auto simp: tx2_mux_disable_pin_def mux_store_def set_pins_def mux_regs)

lemma set_pins_other: "(\<forall>d \<in> set ds. a \<noteq> control base d) \<Longrightarrow> set_pins base f ds m a = m a"
  by (induction ds arbitrary: m) (auto simp: set_pins_def)

lemma set_pins_at:
  assumes "distinct (map mux_reg_offset ds)" and "d \<in> set ds"
  shows "set_pins base f ds m (control base d) = f d (m (control base d))"
  using assms
proof (induction ds arbitrary: m)
  case (Cons e ds)
  have step: "set_pins base f (e # ds) m = set_pins base f ds (m(control base e := f e (m (control base e))))" by (simp add: set_pins_def)
  show ?case
  proof (cases "d = e")
    case True
    have "\<forall>x \<in> set ds. control base e \<noteq> control base x" using Cons.prems(1) by (auto simp: rev_image_eqI)
    then show ?thesis using True by (simp only: step) (simp add: set_pins_other)
  next
    case False
    then have "d \<in> set ds" using Cons.prems(2) by simp
    moreover have "mux_reg_offset e \<notin> mux_reg_offset ` set ds" using Cons.prems(1) by simp
    ultimately have "d \<in> set ds" "mux_reg_offset d \<noteq> mux_reg_offset e" by (auto simp: rev_image_eqI)
    then show ?thesis using Cons.IH [of "m(control base e := f e (m (control base e)))"] Cons.prems(1) unfolding step by (simp del: fun_upd_apply) (simp add: fun_upd_apply)
  qed
qed simp

text \<open>Two passes over the pins are one, and states that agree on and off the pins are the same.\<close>

lemma set_pins_twice:
  assumes "distinct (map mux_reg_offset ds)"
  shows "set_pins base g ds (set_pins base f ds m) = set_pins base (\<lambda>d v. g d (f d v)) ds m"
proof
  fix a
  show "set_pins base g ds (set_pins base f ds m) a = set_pins base (\<lambda>d v. g d (f d v)) ds m a"
  proof (cases "\<exists>d \<in> set ds. a = control base d")
    case True
    then show ?thesis using set_pins_at [OF assms] by auto
  qed (simp add: set_pins_other)
qed

lemma set_pins_cong:
  assumes "\<And>d v. d \<in> set ds \<Longrightarrow> f d v = g d v"
  shows "set_pins base f ds m = set_pins base g ds m"
  using assms by (induction ds arbitrary: m) (auto simp: set_pins_def)

lemma feature_enable_eq:
  assumes "f < NMUX_FEATURES" and "can_enable f"
  shows "tx2_mux_feature_enable base (int f) True m = Some (0, set_pins base (\<lambda>d. pin_after d True) (pins_of f) m)"
  using pinmaps_facts(1) [OF assms(1)] pinmaps_facts(3) [OF assms(1), of True] assms enable_pins_all [of "pinmaps ! f" True base m]
  by (auto simp: tx2_mux_feature_enable_def is_valid_feature_def rd_def pins_of_def)

lemma feature_disable_eq:
  assumes "f < NMUX_FEATURES"
  shows "tx2_mux_feature_disable base (int f) m = Some (0, set_pins base (\<lambda>_ _. tristated) (pins_of f) m)"
  using pinmaps_facts(1) [OF assms] assms
  by (simp add: tx2_mux_feature_disable_def is_valid_feature_def rd_def disable_pins_all pins_of_def)

lemma pin_after_tristated:
  assumes "required_value d True = Some v"
  shows "pin_after d True tristated = v" and "pin_after d True v = tristated"
proof -
  have "bit v 0" using assms by (auto simp: required_value_eq bit_or_iff split: if_splits)
  moreover have "\<not> bit tristated 0" by (simp add: mux_regs)
  ultimately have "v \<noteq> tristated" by metis
  then show "pin_after d True tristated = v" "pin_after d True v = tristated" using assms by (auto simp: pin_after_def)
qed

section \<open>Properties of the multiplexer\<close>



text \<open>
  C39: After disabling a feature, enabling it gives every pin the value it requires, and enabling it once more, which reports success, puts every register
  back to what it was when the feature was disabled.
\<close>

theorem tx2_mux_enable_twice_disables:
  assumes "f < NMUX_FEATURES" and "f \<notin> {MUX_FEATURE_UARTA, MUX_FEATURE_UARTB, MUX_FEATURE_UARTD, MUX_FEATURE_SPI1, MUX_FEATURE_SPI4}"
  shows "\<exists>m1 m2. tx2_mux_feature_disable base (int f) m = Some (0, m1) \<and>
    tx2_mux_feature_enable base (int f) True m1 = Some (0, m2) \<and>
    (\<forall>d \<in> set (pins_of f). m1 (control base d) = tristated \<and> required_value d True = Some (m2 (control base d))) \<and>
    tx2_mux_feature_enable base (int f) True m2 = Some (0, m1)"
proof -
  let ?p = "pins_of f" and ?after = "\<lambda>d. pin_after d True"
  note d = pinmaps_facts(2) [OF assms(1)]
  have can: "can_enable f" using assms(2) by (simp add: can_enable_def)
  have req: "\<exists>v. required_value x True = Some v" if "x \<in> set ?p" for x using that can pinmaps_facts(3) [OF assms(1), of True] by auto
  define m1 where "m1 = set_pins base (\<lambda>_ _. tristated) ?p m"
  define m2 where "m2 = set_pins base ?after ?p m1"
  have at1: "m1 (control base x) = tristated" if "x \<in> set ?p" for x using set_pins_at [OF d that] by (simp add: m1_def)
  have at2: "required_value x True = Some (m2 (control base x))" if x: "x \<in> set ?p" for x
    using req [OF x] set_pins_at [OF d x] at1 [OF x] pin_after_tristated(1) [of x] by (auto simp: m2_def)
  have "set_pins base ?after ?p m2 = set_pins base (\<lambda>x v. ?after x (?after x tristated)) ?p m"
    by (simp add: m2_def m1_def set_pins_twice [OF d])
  also have "\<dots> = m1" unfolding m1_def
    by (rule set_pins_cong) (use req pin_after_tristated in fastforce)
  finally show ?thesis
    using feature_disable_eq [OF assms(1)] feature_enable_eq [OF assms(1) can] at1 at2 by (metis m1_def m2_def)
qed

theorem tx2_mux_enable_twice_disables_witness:
  "\<exists>m1 m2. tx2_mux_feature_disable 0 13 (\<lambda>_. 0) = Some (0, m1) \<and> tx2_mux_feature_enable 0 13 True m1 = Some (0, m2) \<and>
     tx2_mux_feature_enable 0 13 True m2 = Some (0, m1)"
  using tx2_mux_enable_twice_disables [of MUX_FEATURE_GPIO_PJ0 0 "\<lambda>_. 0"] by (simp add: mux_features) metis

text \<open>The number after the last feature is taken for a feature, and the table is read outside its bounds.\<close>

lemma mux_feature_out_of_table:
  "is_valid_feature (int NMUX_FEATURES) \<and> tx2_mux_feature_enable base (int NMUX_FEATURES) True m = None \<and>
   tx2_mux_feature_disable base (int NMUX_FEATURES) m = None"
proof -
  have "length pinmaps = NMUX_FEATURES" by code_simp
  then show ?thesis by (simp add: is_valid_feature_def tx2_mux_feature_enable_def tx2_mux_feature_disable_def rd_def)
qed

end
