(* ===== verification/Fdtgen.thy ===== *)
theory Fdtgen
  imports Prelude "HOL-Library.AList"
begin

text \<open>
  The generator of device trees (\<open>src/libfdtgen/fdtgen.c\<close>): a client names the nodes of a device tree that it wants to keep; the generator adds the nodes
  above them and the nodes they depend on, and deletes all others from a copy of the tree.

  The library \<open>libfdt\<close>, which is not part of the repository, is a parameter: a record of its functions on a flattened tree of any type \<open>'d\<close>, with nodes given by their
  offsets and negative numbers for errors. A hash table of the source, which its macros iterate in the order of insertion, is an association list. The buffer for
  paths is a string; writing past its end is \<open>None\<close>, like every other undefined behaviour and every fatal message. Memory is always available, except where
  the code asks. The functions that call each other while dependencies are followed are the tasks of one function.
\<close>

section \<open>The library for flattened trees\<close>

record 'd libfdt =
  fdt_first_subnode :: "'d \<Rightarrow> int \<Rightarrow> int"
  fdt_next_subnode :: "'d \<Rightarrow> int \<Rightarrow> int"
  fdt_get_name :: "'d \<Rightarrow> int \<Rightarrow> string"
  fdt_properties :: "'d \<Rightarrow> int \<Rightarrow> (string \<times> bytes) list"
  fdt_getprop :: "'d \<Rightarrow> int \<Rightarrow> string \<Rightarrow> bytes option"
  fdt_node_offset_by_phandle :: "'d \<Rightarrow> u32 \<Rightarrow> int"
  fdt_get_path :: "'d \<Rightarrow> int \<Rightarrow> string \<Rightarrow> string"
  fdt_path_offset :: "'d \<Rightarrow> string \<Rightarrow> int"
  fdt_del_node :: "'d \<Rightarrow> int \<Rightarrow> int \<times> 'd"
  fdt_setprop_string :: "'d \<Rightarrow> int \<Rightarrow> string \<Rightarrow> string \<Rightarrow> int \<times> 'd"
  fdt_open_into :: "'d \<Rightarrow> int \<Rightarrow> 'd"
  fdt_check_full :: "'d \<Rightarrow> int \<Rightarrow> int"

text \<open>
  \<open>fdt_properties\<close> is what the loop over the properties of a node visits, with names and values; \<open>fdt_get_path\<close> is the new contents of the buffer, which after
  an error may depend on the old.
\<close>

section \<open>State\<close>

definition MAX_FULL_PATH_LENGTH :: nat where "MAX_FULL_PATH_LENGTH = 4096"

datatype device_flag = DEVICE_KEEP | DEVICE_KEEP_AND_DISABLE

text \<open>The offset of a new entry is not initialised.\<close>

record path_node =
  pn_offset :: "int option"
  pn_cnt :: int
  pn_flag :: device_flag

definition props_with_dep :: "string list" where
  "props_with_dep = [''phy-handle'', ''next-level-cache'', ''interrupt-parent'', ''interrupts-extended'', ''clocks'', ''power-domains'']"

type_synonym nodes = "(string \<times> path_node) list"
type_synonym deps = "(string \<times> (string \<times> u32) list) list"

record 'd fdtgen_context =
  nodes_table :: nodes
  dep_table :: deps
  root_offset :: int
  buffer :: 'd
  bufsize :: int
  string_buf :: string

definition strcat :: "string \<Rightarrow> string \<Rightarrow> string option" where
  "strcat buf s = (if length buf + length s < MAX_FULL_PATH_LENGTH then Some (buf @ s) else None)"

text \<open>The path of a child, made from the path in the buffer.\<close>

definition child_path :: "string \<Rightarrow> string \<Rightarrow> string option" where
  "child_path buf name = do { b \<leftarrow> strcat buf ''/''; strcat b name }"

definition update_node :: "string \<Rightarrow> (path_node \<Rightarrow> path_node) \<Rightarrow> nodes \<Rightarrow> nodes" where
  "update_node name f t = (case map_of t name of None \<Rightarrow> t | Some n \<Rightarrow> AList.update name (f n) t)"

text \<open>Finding an entry and changing it, or adding a new one.\<close>

definition find_or_add :: "string \<Rightarrow> (path_node \<Rightarrow> path_node) \<Rightarrow> path_node \<Rightarrow> nodes \<Rightarrow> nodes" where
  "find_or_add name f new t = (if map_of t name = None then t @ [(name, new)] else update_node name f t)"

definition fdt32_ld :: "bytes \<Rightarrow> u32 option" where
  "fdt32_ld bs = (case bs of
     a # b # c # d # _ \<Rightarrow> Some (push_bit 24 (ucast a) OR push_bit 16 (ucast b) OR push_bit 8 (ucast c) OR ucast d)
   | _ \<Rightarrow> None)"

definition retrive_to_phandle :: "bytes \<Rightarrow> u32 option" where
  "retrive_to_phandle prop_data = fdt32_ld prop_data"

section \<open>Nodes to keep\<close>

definition init_keep_node :: "string list \<Rightarrow> device_flag \<Rightarrow> 'd fdtgen_context \<Rightarrow> 'd fdtgen_context" where
  "init_keep_node nodes flag c =
     c\<lparr>nodes_table := fold (\<lambda>name. find_or_add name (\<lambda>n. n\<lparr>pn_flag := flag\<rparr>) \<lparr>pn_offset = None, pn_cnt = 0, pn_flag = flag\<rparr>) nodes (nodes_table c)\<rparr>"

definition is_to_keep :: "'d fdtgen_context \<Rightarrow> bool" where
  "is_to_keep c \<longleftrightarrow> map_of (nodes_table c) (string_buf c) \<noteq> None"

definition fdtgen_keep_nodes :: "string list \<Rightarrow> 'd fdtgen_context \<Rightarrow> 'd fdtgen_context" where
  "fdtgen_keep_nodes nodes c = init_keep_node nodes DEVICE_KEEP c"

definition fdtgen_keep_nodes_and_disable :: "string list \<Rightarrow> 'd fdtgen_context \<Rightarrow> 'd fdtgen_context" where
  "fdtgen_keep_nodes_and_disable nodes c = init_keep_node nodes DEVICE_KEEP_AND_DISABLE c"

text \<open>The loop over the children of a node; the buffer has the path of the node.\<close>

partial_function (option) keep_node_and_children :: "'d libfdt \<Rightarrow> 'd \<Rightarrow> device_flag \<Rightarrow> int \<Rightarrow> 'd fdtgen_context \<Rightarrow> 'd fdtgen_context option" where
  "keep_node_and_children L ori flag child c =
     (if child < 0 then Some c
      else do {
        let len_ori = length (string_buf c);
        b \<leftarrow> child_path (string_buf c) (fdt_get_name L ori child);
        let c = c\<lparr>string_buf := b,
          nodes_table := find_or_add b (\<lambda>n. n\<lparr>pn_flag := flag\<rparr>) \<lparr>pn_offset = None, pn_cnt = 0, pn_flag = flag\<rparr> (nodes_table c)\<rparr>;
        c \<leftarrow> keep_node_and_children L ori flag (fdt_first_subnode L ori child) c;
        keep_node_and_children L ori flag (fdt_next_subnode L ori child) (c\<lparr>string_buf := take len_ori (string_buf c)\<rparr>) })"

definition keep_subtree :: "'d libfdt \<Rightarrow> 'd \<Rightarrow> device_flag \<Rightarrow> string \<Rightarrow> 'd fdtgen_context \<Rightarrow> 'd fdtgen_context option" where
  "keep_subtree L ori flag node c =
     (let child = fdt_path_offset L ori node
      in if child < 0 then Some c
         else let b = fdt_get_path L ori child (string_buf c)
              in keep_node_and_children L ori flag (fdt_first_subnode L ori child) (c\<lparr>string_buf := b,
                   nodes_table := find_or_add b (\<lambda>n. n\<lparr>pn_flag := flag\<rparr>) \<lparr>pn_offset = None, pn_cnt = 0, pn_flag = flag\<rparr> (nodes_table c)\<rparr>))"

definition fdtgen_keep_node_subtree :: "'d libfdt \<Rightarrow> 'd \<Rightarrow> string \<Rightarrow> 'd fdtgen_context \<Rightarrow> 'd fdtgen_context option" where
  "fdtgen_keep_node_subtree L ori node c = keep_subtree L ori DEVICE_KEEP node c"

definition fdtgen_keep_node_subtree_disable :: "'d libfdt \<Rightarrow> 'd \<Rightarrow> string \<Rightarrow> 'd fdtgen_context \<Rightarrow> 'd fdtgen_context option" where
  "fdtgen_keep_node_subtree_disable L ori node c = keep_subtree L ori DEVICE_KEEP_AND_DISABLE node c"

text \<open>The loop of \<open>find_nodes_to_keep\<close>, with the variable \<open>find\<close>.\<close>

partial_function (option) find_loop :: "'d libfdt \<Rightarrow> int \<Rightarrow> bool \<Rightarrow> 'd fdtgen_context \<Rightarrow> (bool \<times> 'd fdtgen_context) option" where
  "find_loop L child found c =
     (if child < 0 then Some (found, c)
      else do {
        let len_ori = length (string_buf c);
        b \<leftarrow> child_path (string_buf c) (fdt_get_name L (buffer c) child);
        (child_is_kept, c) \<leftarrow> find_loop L (fdt_first_subnode L (buffer c) child) False (c\<lparr>string_buf := b\<rparr>);
        let keep = (child_is_kept \<or> is_to_keep c);
        let c = (if keep then c\<lparr>nodes_table := find_or_add (string_buf c) (\<lambda>n. n\<lparr>pn_offset := Some child\<rparr>)
                                  \<lparr>pn_offset = Some child, pn_cnt = 0, pn_flag = DEVICE_KEEP\<rparr> (nodes_table c)\<rparr>
                 else c);
        find_loop L (fdt_next_subnode L (buffer c) child) (found \<or> keep) (c\<lparr>string_buf := take len_ori (string_buf c)\<rparr>) })"

definition find_nodes_to_keep :: "'d libfdt \<Rightarrow> int \<Rightarrow> 'd fdtgen_context \<Rightarrow> (bool \<times> 'd fdtgen_context) option" where
  "find_nodes_to_keep L offset c = find_loop L (fdt_first_subnode L (buffer c) offset) False c"

section \<open>Dependencies\<close>

text \<open>
  The tasks: \<open>keep_node_and_parents\<close> and its loop over the children of a node; \<open>register_node_dependencies\<close> and its loop over properties;
  \<open>register_single_dependency\<close> for the entry of the table with a given path; and the loops over the cells of clocks and of power domains.
\<close>

datatype task =
    Keep int int
  | Keep_Loop int int int
  | Node_Deps int
  | Props int "(string \<times> bytes) list"
  | Single int bytes string
  | Clocks int bytes string int
  | Power_Domains int bytes string int

text \<open>The number of bytes to the next cell is computed with the sign of \<open>int\<close>; the data is read inside the property.\<close>

definition cell_at :: "bytes \<Rightarrow> int \<Rightarrow> bytes option" where
  "cell_at data i = (if 0 \<le> i then Some (drop (nat i) data) else None)"

definition cell_step :: "int \<Rightarrow> u32 \<Rightarrow> int option" where
  "cell_step i cells = (let n = i + (4 + sint cells * 4) in if - (2 ^ 31) \<le> n \<and> n < 2 ^ 31 then Some n else None)"

text \<open>The entry of a node in the table of dependencies, made when there is none.\<close>

definition dep_entry :: "string \<Rightarrow> deps \<Rightarrow> deps" where
  "dep_entry path t = (if map_of t path = None then t @ [(path, [])] else t)"

partial_function (option) fdt_task :: "'d libfdt \<Rightarrow> task \<Rightarrow> 'd fdtgen_context \<Rightarrow> (bool \<times> 'd fdtgen_context) option" where
  "fdt_task L t c = (case t of
     Keep offset target \<Rightarrow>
       (if target = root_offset c then Some (False, c)
        else if target = offset then Some (True, c)
        else fdt_task L (Keep_Loop (fdt_first_subnode L (buffer c) offset) offset target) c)
   | Keep_Loop child offset target \<Rightarrow>
       (if child < 0 then Some (False, c)
        else do {
          let new_len = length (string_buf c);
          curr \<leftarrow> child_path (string_buf c) (fdt_get_name L (buffer c) child);
          (keep, c) \<leftarrow> fdt_task L (Keep child target) (c\<lparr>string_buf := curr\<rparr>);
          (if keep then do {
             let c = c\<lparr>nodes_table := find_or_add curr (\<lambda>n. n) \<lparr>pn_offset = Some offset, pn_cnt = 0, pn_flag = DEVICE_KEEP\<rparr> (nodes_table c)\<rparr>;
             (_, c) \<leftarrow> (if map_of (dep_table c) curr = None then fdt_task L (Node_Deps child) c else Some (False, c));
             Some (True, c\<lparr>string_buf := take new_len (string_buf c)\<rparr>) }
           else fdt_task L (Keep_Loop (fdt_next_subnode L (buffer c) child) offset target) (c\<lparr>string_buf := take new_len (string_buf c)\<rparr>)) })
   | Node_Deps offset \<Rightarrow>
       (if offset = root_offset c then Some (False, c) else fdt_task L (Props offset (fdt_properties L (buffer c) offset)) c)
   | Props offset ps \<Rightarrow>
       (case ps of
          [] \<Rightarrow> Some (False, c)
        | (name, data) # ps' \<Rightarrow> do {
            (_, c) \<leftarrow> (if name \<in> set props_with_dep then do {
                let path = fdt_get_path L (buffer c) offset (string_buf c);
                let c = c\<lparr>string_buf := path, dep_table := dep_entry path (dep_table c)\<rparr>;
                (if name = ''clocks'' then fdt_task L (Clocks offset data path 0) c
                 else if name = ''power-domains'' then fdt_task L (Power_Domains offset data path 0) c
                 else fdt_task L (Single offset data path) c) }
              else Some (False, c));
            fdt_task L (Props offset ps') c })
   | Single offset data this \<Rightarrow> do {
       to_phandle \<leftarrow> retrive_to_phandle data;
       let off = fdt_node_offset_by_phandle L (buffer c) to_phandle;
       let to_path = fdt_get_path L (buffer c) off (string_buf c);
       let c = c\<lparr>string_buf := to_path\<rparr>;
       to_list \<leftarrow> map_of (dep_table c) this;
       (if offset = off \<or> to_path \<in> fst ` set to_list then Some (False, c)
        else do {
          let c = c\<lparr>dep_table := AList.update this (to_list @ [(to_path, to_phandle)]) (dep_table c), string_buf := []\<rparr>;
          (_, c) \<leftarrow> fdt_task L (Keep (root_offset c) off) c;
          fdt_task L (Node_Deps off) c }) }
   | Clocks offset data this i \<Rightarrow>
       (if int (length data) \<le> i then Some (False, c)
        else do {
          d \<leftarrow> cell_at data i;
          phandle \<leftarrow> fdt32_ld d;
          clock_cells \<leftarrow> fdt_getprop L (buffer c) (fdt_node_offset_by_phandle L (buffer c) phandle) ''#clock-cells'';
          cells \<leftarrow> fdt32_ld clock_cells;
          (_, c) \<leftarrow> fdt_task L (Single offset d this) c;
          i \<leftarrow> cell_step i cells;
          fdt_task L (Clocks offset data this i) c })
   | Power_Domains offset data this i \<Rightarrow>
       (if int (length data) \<le> i then Some (False, c)
        else do {
          d \<leftarrow> cell_at data i;
          phandle \<leftarrow> fdt32_ld d;
          cells \<leftarrow> (case fdt_getprop L (buffer c) (fdt_node_offset_by_phandle L (buffer c) phandle) ''#power-domain-cells'' of
                      None \<Rightarrow> Some 0 | Some v \<Rightarrow> fdt32_ld v);
          (_, c) \<leftarrow> fdt_task L (Single offset d this) c;
          i \<leftarrow> cell_step i cells;
          fdt_task L (Power_Domains offset data this i) c }))"

definition keep_node_and_parents :: "'d libfdt \<Rightarrow> int \<Rightarrow> int \<Rightarrow> 'd fdtgen_context \<Rightarrow> (bool \<times> 'd fdtgen_context) option" where
  "keep_node_and_parents L offset target c = fdt_task L (Keep offset target) c"

definition register_node_dependencies :: "'d libfdt \<Rightarrow> int \<Rightarrow> 'd fdtgen_context \<Rightarrow> 'd fdtgen_context option" where
  "register_node_dependencies L offset c = do { (_, c) \<leftarrow> fdt_task L (Node_Deps offset) c; Some c }"

text \<open>
  The loop over the table, which may grow meanwhile. Whether there is a next entry is determined before the current one is worked on.
\<close>

partial_function (option) resolve_loop :: "'d libfdt \<Rightarrow> nat \<Rightarrow> 'd fdtgen_context \<Rightarrow> 'd fdtgen_context option" where
  "resolve_loop L i c =
     (if length (nodes_table c) \<le> i then Some c
      else do {
        let tmp = (Suc i < length (nodes_table c));
        offset \<leftarrow> pn_offset (snd (nodes_table c ! i));
        c \<leftarrow> register_node_dependencies L offset c;
        (if tmp then resolve_loop L (Suc i) c else Some c) })"

definition resolve_all_dependencies :: "'d libfdt \<Rightarrow> 'd fdtgen_context \<Rightarrow> 'd fdtgen_context option" where
  "resolve_all_dependencies L c = resolve_loop L 0 c"

section \<open>Generation\<close>

text \<open>
  The loop of \<open>trim_tree\<close> over the children of a node; after a node has been deleted or changed it starts again at the first child.
\<close>

partial_function (option) trim_loop :: "'d libfdt \<Rightarrow> int \<Rightarrow> int \<Rightarrow> 'd fdtgen_context \<Rightarrow> 'd fdtgen_context option" where
  "trim_loop L offset child c =
     (if child < 0 then Some c
      else do {
        let len_ori = length (string_buf c);
        b \<leftarrow> child_path (string_buf c) (fdt_get_name L (buffer c) child);
        (case map_of (nodes_table c) b of
           None \<Rightarrow>
             (let (err, d) = fdt_del_node L (buffer c) child
              in if err \<noteq> 0 then None else trim_loop L offset (fdt_first_subnode L d offset) (c\<lparr>buffer := d\<rparr>))
         | Some this \<Rightarrow>
             (let c1 = c\<lparr>string_buf := b, nodes_table := update_node b (\<lambda>n. n\<lparr>pn_cnt := pn_cnt n + 1\<rparr>) (nodes_table c)\<rparr>
              in if pn_flag this = DEVICE_KEEP_AND_DISABLE \<and> pn_cnt this + 1 = 1
                 then (let (err, d) = fdt_setprop_string L (buffer c1) child ''status'' ''disabled''
                       in if err \<noteq> 0 then None
                          else trim_loop L offset (fdt_first_subnode L d offset) (c1\<lparr>buffer := d, string_buf := take len_ori b\<rparr>))
                 else do {
                   c2 \<leftarrow> trim_loop L child (fdt_first_subnode L (buffer c1) child) c1;
                   trim_loop L offset (fdt_next_subnode L (buffer c2) child) (c2\<lparr>string_buf := take len_ori (string_buf c2)\<rparr>) })) })"

definition trim_tree :: "'d libfdt \<Rightarrow> int \<Rightarrow> 'd fdtgen_context \<Rightarrow> 'd fdtgen_context option" where
  "trim_tree L offset c = trim_loop L offset (fdt_first_subnode L (buffer c) offset) c"

text \<open>The result of opening the tree is ignored; the first argument is a null pointer or a context.\<close>

definition fdtgen_generate :: "'d libfdt \<Rightarrow> 'd fdtgen_context option \<Rightarrow> 'd \<Rightarrow> (int \<times> 'd fdtgen_context option) option" where
  "fdtgen_generate L handle fdt_ori = (case handle of
     None \<Rightarrow> Some (- 1, None)
   | Some c \<Rightarrow>
       (let c = c\<lparr>buffer := fdt_open_into L fdt_ori (bufsize c)\<rparr>
        in if fdt_check_full L (buffer c) (bufsize c) \<noteq> 0 then Some (- 1, Some c)
           else do {
             let c = c\<lparr>root_offset := fdt_path_offset L (buffer c) ''/'', string_buf := []\<rparr>;
             (_, c) \<leftarrow> find_nodes_to_keep L (root_offset c) c;
             c \<leftarrow> resolve_all_dependencies L c;
             let c = c\<lparr>nodes_table := nodes_table c @ [(''/'', \<lparr>pn_offset = Some (root_offset c), pn_cnt = 1, pn_flag = DEVICE_KEEP\<rparr>)], string_buf := []\<rparr>;
             c \<leftarrow> trim_tree L (root_offset c) c;
             Some (if fdt_check_full L (buffer c) (bufsize c) \<noteq> 0 then - 1 else 0, Some c) }))"

text \<open>The path buffer of a new context is not initialised.\<close>

definition fdtgen_new_context :: "bool \<Rightarrow> 'd \<Rightarrow> int \<Rightarrow> string \<Rightarrow> 'd fdtgen_context option" where
  "fdtgen_new_context malloc_ok buf bufsz junk =
     (if \<not> malloc_ok then None
      else Some \<lparr>nodes_table = [], dep_table = [], root_offset = 0, buffer = buf, bufsize = bufsz, string_buf = junk\<rparr>)"

text \<open>Releasing a context reports the nodes that were to be kept and do not exist.\<close>

definition clean_up :: "'d fdtgen_context \<Rightarrow> string list \<times> 'd fdtgen_context" where
  "clean_up c = (map fst (filter (\<lambda>(_, n). pn_cnt n = 0) (nodes_table c)), c\<lparr>nodes_table := [], dep_table := []\<rparr>)"

text \<open>The messages of releasing a context; a null pointer is accepted.\<close>

definition fdtgen_free_context :: "'d fdtgen_context option \<Rightarrow> string list" where
  "fdtgen_free_context h = (case h of None \<Rightarrow> [] | Some c \<Rightarrow> fst (clean_up c))"

end
