(* ===== verification/Fdtgen_Find.thy ===== *)
theory Fdtgen_Find
  imports Fdtgen
begin

text \<open>
  Device trees as the generator of theory \<open>Fdtgen\<close> sees them: what the library for flattened trees promises, nodes by their position and by their path,
  and the search for the nodes that were asked for and the nodes above them.
\<close>

section \<open>Trees\<close>

datatype devtree = DNode (dprops: "(string \<times> bytes) list") (kids: "(string \<times> devtree) list")

fun subt :: "devtree \<Rightarrow> nat list \<Rightarrow> devtree option" where
  "subt n [] = Some n"
| "subt n (i # p) = (if i < length (kids n) then subt (snd (kids n ! i)) p else None)"

abbreviation valid :: "devtree \<Rightarrow> nat list \<Rightarrow> bool" where
  "valid T p \<equiv> subt T p \<noteq> None"

fun pstr :: "devtree \<Rightarrow> nat list \<Rightarrow> string" where
  "pstr n [] = []"
| "pstr n (i # p) = ''/'' @ fst (kids n ! i) @ pstr (snd (kids n ! i)) p"

definition wf_tree :: "devtree \<Rightarrow> bool" where
  "wf_tree T \<longleftrightarrow> (\<forall>p n. subt T p = Some n \<longrightarrow> distinct (map fst (kids n)) \<and> (\<forall>k \<in> set (kids n). fst k \<noteq> [] \<and> CHR ''/'' \<notin> set (fst k)) \<and>
     length (pstr T p) < MAX_FULL_PATH_LENGTH)"

lemma subt_append: "subt T (p @ q) = (case subt T p of None \<Rightarrow> None | Some n \<Rightarrow> subt n q)"
  by (induction T p rule: subt.induct) auto

lemma subt_snoc: "subt T p = Some n \<Longrightarrow> subt T (p @ [i]) = (if i < length (kids n) then Some (snd (kids n ! i)) else None)"
  by (simp add: subt_append)

lemma valid_prefix: "valid T (p @ q) \<Longrightarrow> valid T p"
  by (auto simp: subt_append split: option.splits)

lemma pstr_append: "subt T p = Some n \<Longrightarrow> pstr T (p @ q) = pstr T p @ pstr n q"
  by (induction T p rule: subt.induct) (auto split: if_splits)

lemma wf_sub: "wf_tree T \<Longrightarrow> subt T p = Some n \<Longrightarrow> subt n q = Some m \<Longrightarrow> distinct (map fst (kids m)) \<and> (\<forall>k \<in> set (kids m). fst k \<noteq> [] \<and> CHR ''/'' \<notin> set (fst k))"
  unfolding wf_tree_def by (metis (no_types, lifting) option.simps(5) subt_append)

text \<open>A path names one node.\<close>

lemma split_slash:
  assumes "CHR ''/'' \<notin> set a" "CHR ''/'' \<notin> set b" "a @ x = b @ y"
    "x = [] \<or> (\<exists>x'. x = CHR ''/'' # x')" "y = [] \<or> (\<exists>y'. y = CHR ''/'' # y')"
  shows "a = b \<and> x = y"
  using assms
proof (induction a arbitrary: b)
  case Nil
  then show ?case by (cases b) auto
next
  case (Cons u a)
  then show ?case by (cases b) auto
qed

lemma pstr_start: "pstr n p = [] \<or> (\<exists>x. pstr n p = CHR ''/'' # x)"
  by (cases p) auto

definition names_ok :: "devtree \<Rightarrow> bool" where
  "names_ok T \<longleftrightarrow> (\<forall>p n. subt T p = Some n \<longrightarrow> distinct (map fst (kids n)) \<and> (\<forall>k \<in> set (kids n). fst k \<noteq> [] \<and> CHR ''/'' \<notin> set (fst k)))"

lemma names_ok_wf: "wf_tree T \<Longrightarrow> names_ok T"
  by (simp add: wf_tree_def names_ok_def)

lemma names_ok_kid: "names_ok n \<Longrightarrow> i < length (kids n) \<Longrightarrow> names_ok (snd (kids n ! i))"
  unfolding names_ok_def by (metis subt.simps(2))

lemma names_ok_here: "names_ok n \<Longrightarrow> distinct (map fst (kids n)) \<and> (\<forall>k \<in> set (kids n). fst k \<noteq> [] \<and> CHR ''/'' \<notin> set (fst k))"
  unfolding names_ok_def by (metis subt.simps(1))

lemma pstr_inject:
  assumes "names_ok T" "valid T p" "valid T q" "pstr T p = pstr T q"
  shows "p = q"
  using assms
proof (induction T p arbitrary: q rule: subt.induct)
  case (1 n)
  then show ?case by (cases q) auto
next
  case (2 n i p)
  from "2.prems"(4) obtain j q' where q: "q = j # q'" by (cases q) auto
  have ij: "i < length (kids n)" "j < length (kids n)" using "2.prems"(2,3) q by (auto split: if_splits)
  note here = names_ok_here [OF "2.prems"(1)]
  have "fst (kids n ! i) @ pstr (snd (kids n ! i)) p = fst (kids n ! j) @ pstr (snd (kids n ! j)) q'" using "2.prems"(4) q by simp
  from split_slash [OF _ _ this pstr_start pstr_start] here ij
  have s: "fst (kids n ! i) = fst (kids n ! j)" "pstr (snd (kids n ! i)) p = pstr (snd (kids n ! j)) q'" by (auto simp: nth_mem)
  then have "i = j" using here ij nth_eq_iff_index_eq [of "map fst (kids n)" i j] by simp
  then show ?case using "2.IH" [OF ij(1) names_ok_kid [OF "2.prems"(1) ij(1)], of q'] "2.prems"(2,3) s q ij by simp
qed

section \<open>The library\<close>

text \<open>
  What the library promises about reading a tree from a buffer: nodes have different offsets, and their names, properties, paths and children, in order, are found.
\<close>

definition fdt_reads :: "'d libfdt \<Rightarrow> ('d \<Rightarrow> devtree) \<Rightarrow> ('d \<Rightarrow> nat list \<Rightarrow> int) \<Rightarrow> 'd \<Rightarrow> bool" where
  "fdt_reads L tree off d \<longleftrightarrow> (\<forall>p n. subt (tree d) p = Some n \<longrightarrow>
     0 \<le> off d p \<and> (\<forall>q. valid (tree d) q \<and> off d q = off d p \<longrightarrow> q = p) \<and>
     (if kids n = [] then fdt_first_subnode L d (off d p) < 0 else fdt_first_subnode L d (off d p) = off d (p @ [0])) \<and>
     (\<forall>i < length (kids n). fdt_get_name L d (off d (p @ [i])) = fst (kids n ! i) \<and>
        (if Suc i < length (kids n) then fdt_next_subnode L d (off d (p @ [i])) = off d (p @ [Suc i])
         else fdt_next_subnode L d (off d (p @ [i])) < 0)) \<and>
     fdt_properties L d (off d p) = dprops n \<and>
     (\<forall>buf. length (pstr (tree d) p) < MAX_FULL_PATH_LENGTH \<longrightarrow> fdt_get_path L d (off d p) buf = (if p = [] then ''/'' else pstr (tree d) p)))"

section \<open>Walking over a tree\<close>

fun tsize :: "devtree \<Rightarrow> nat" where
  "tsize (DNode ps ks) = Suc (sum_list (map (\<lambda>k. tsize (snd k)) ks))"

definition rest :: "devtree \<Rightarrow> nat \<Rightarrow> nat" where
  "rest n i = sum_list (map (\<lambda>k. tsize (snd k)) (drop i (kids n)))"

lemma tsize_rest: "tsize n = Suc (rest n 0)"
  by (cases n) (simp add: rest_def)

lemma rest_step: "i < length (kids n) \<Longrightarrow> rest n i = tsize (snd (kids n ! i)) + rest n (Suc i)"
  by (simp add: rest_def Cons_nth_drop_Suc [symmetric])

lemma rest_less:
  assumes "i < length (kids n)"
  shows "rest (snd (kids n ! i)) 0 < rest n i" "rest n (Suc i) < rest n i"
  using rest_step [OF assms] tsize_rest [of "snd (kids n ! i)"] by simp_all

text \<open>The nodes below the children of a node from the \<open>i\<close>th on.\<close>

definition region :: "devtree \<Rightarrow> nat list \<Rightarrow> nat \<Rightarrow> nat list set" where
  "region T p i = {p @ j # r | j r. i \<le> j \<and> valid T (p @ j # r)}"

lemma region_end: "subt T p = Some n \<Longrightarrow> length (kids n) \<le> i \<Longrightarrow> region T p i = {}"
  by (auto simp: region_def subt_append)

lemma region_step:
  assumes "subt T p = Some n" "i < length (kids n)"
  shows "region T p i = insert (p @ [i]) (region T (p @ [i]) 0 \<union> region T p (Suc i))"
proof (intro set_eqI iffI)
  fix q assume "q \<in> region T p i"
  then obtain j r where q: "q = p @ j # r" "i \<le> j" "valid T q" by (auto simp: region_def)
  show "q \<in> insert (p @ [i]) (region T (p @ [i]) 0 \<union> region T p (Suc i))"
  proof (cases "j = i")
    case True
    with q show ?thesis by (cases r) (auto simp: region_def)
  next
    case False
    with q have "q \<in> region T p (Suc i)" by (auto simp: region_def)
    then show ?thesis by simp
  qed
next
  fix q assume q: "q \<in> insert (p @ [i]) (region T (p @ [i]) 0 \<union> region T p (Suc i))"
  have "valid T (p @ [i])" using subt_snoc [OF assms(1), of i] assms(2) by simp
  moreover have "q \<in> region T p i" if "q \<in> region T (p @ [i]) 0" using that by (auto simp: region_def)
  moreover have "q \<in> region T p i" if "q \<in> region T p (Suc i)"
  proof -
    from that obtain j r where "q = p @ j # r" "Suc i \<le> j" "valid T q" by (auto simp: region_def)
    then show ?thesis unfolding region_def using Suc_leD by blast
  qed
  ultimately show "q \<in> region T p i" using q by (auto simp: region_def)
qed

lemma region_sub: "q \<in> region T p i \<Longrightarrow> valid T q \<and> q \<noteq> []"
  by (auto simp: region_def)

lemma region_apart:
  assumes "q \<in> region T (p @ [i]) 0"
  shows "q \<noteq> p @ [i]" "q \<notin> region T p (Suc i)"
  using assms by (auto simp: region_def)

definition kid_offset :: "('d \<Rightarrow> nat list \<Rightarrow> int) \<Rightarrow> 'd \<Rightarrow> devtree \<Rightarrow> nat list \<Rightarrow> nat \<Rightarrow> int \<Rightarrow> bool" where
  "kid_offset off d n p i child \<longleftrightarrow> (if i < length (kids n) then child = off d (p @ [i]) else child < 0)"

lemma read_kids:
  assumes "fdt_reads L tree off d" "subt (tree d) p = Some n"
  shows "kid_offset off d n p 0 (fdt_first_subnode L d (off d p))"
    and "i < length (kids n) \<Longrightarrow> kid_offset off d n p (Suc i) (fdt_next_subnode L d (off d (p @ [i])))"
    and "i < length (kids n) \<Longrightarrow> fdt_get_name L d (off d (p @ [i])) = fst (kids n ! i)"
    and "0 \<le> off d p" and "fdt_properties L d (off d p) = dprops n"
  using assms by (auto simp: fdt_reads_def kid_offset_def split: if_splits)

lemma read_path:
  assumes "fdt_reads L tree off d" "wf_tree (tree d)" "valid (tree d) p" "p \<noteq> []"
  shows "fdt_get_path L d (off d p) buf = pstr (tree d) p"
  using assms by (auto simp: fdt_reads_def wf_tree_def)

lemma off_inject:
  assumes "fdt_reads L tree off d" "valid (tree d) p" "valid (tree d) q"
  shows "off d p = off d q \<longleftrightarrow> p = q"
  using assms unfolding fdt_reads_def by (metis option.exhaust)

lemma pstr_kid:
  assumes "subt T p = Some n" "i < length (kids n)"
  shows "pstr T (p @ [i]) = pstr T p @ ''/'' @ fst (kids n ! i)"
  using pstr_append [OF assms(1), of "[i]"] by simp

lemma child_path_ok:
  assumes "wf_tree T" "subt T p = Some n" "i < length (kids n)"
  shows "child_path (pstr T p) (fst (kids n ! i)) = Some (pstr T (p @ [i]))"
proof -
  have "subt T (p @ [i]) = Some (snd (kids n ! i))" using subt_snoc [OF assms(2)] assms(3) by simp
  then have "length (pstr T (p @ [i])) < MAX_FULL_PATH_LENGTH" using assms(1) unfolding wf_tree_def by blast
  then show ?thesis using pstr_kid [OF assms(2,3)] by (simp add: child_path_def strcat_def)
qed

section \<open>The table of nodes\<close>

abbreviation tab :: "'d fdtgen_context \<Rightarrow> string \<rightharpoonup> path_node" where
  "tab c \<equiv> map_of (nodes_table c)"

definition kept :: "devtree \<Rightarrow> 'd fdtgen_context \<Rightarrow> nat list set" where
  "kept T c = {q. valid T q \<and> q \<noteq> [] \<and> tab c (pstr T q) \<noteq> None}"

lemma tab_find_or_add:
  "map_of (find_or_add x f new t) = (map_of t)(x \<mapsto> (case map_of t x of None \<Rightarrow> new | Some n \<Rightarrow> f n))"
proof (cases "map_of t x")
  case None
  then have "map_of (t @ [(x, new)]) = (map_of t)(x \<mapsto> new)" by (auto simp: map_add_def split: option.splits)
  then show ?thesis using None by (simp add: find_or_add_def)
next
  case (Some n)
  then show ?thesis by (simp add: find_or_add_def update_node_def update_conv')
qed

lemma keys_find_or_add: "map fst (find_or_add x f new t) = (if map_of t x = None then map fst t @ [x] else map fst t)"
proof (cases "map_of t x")
  case (Some n)
  then have "x \<in> fst ` set t" by (metis map_of_eq_None_iff option.distinct(1))
  then show ?thesis using Some by (simp add: find_or_add_def update_node_def update_keys)
qed (simp add: find_or_add_def)

lemma distinct_find_or_add: "distinct (map fst t) \<Longrightarrow> distinct (map fst (find_or_add x f new t))"
  by (simp add: keys_find_or_add map_of_eq_None_iff)

lemma kept_insert:
  assumes "names_ok T" "valid T u" "u \<noteq> []"
  shows "kept T (c\<lparr>nodes_table := find_or_add (pstr T u) f new (nodes_table c)\<rparr>) = insert u (kept T c)"
  using assms pstr_inject [OF assms(1)] by (auto simp: kept_def tab_find_or_add split: if_splits)

section \<open>Searching\<close>

definition entry_at :: "path_node option \<Rightarrow> int \<Rightarrow> path_node" where
  "entry_at e x = (case e of None \<Rightarrow> \<lparr>pn_offset = Some x, pn_cnt = 0, pn_flag = DEVICE_KEEP\<rparr> | Some n \<Rightarrow> n\<lparr>pn_offset := Some x\<rparr>)"

definition same_but_nodes :: "'d fdtgen_context \<Rightarrow> 'd fdtgen_context \<Rightarrow> bool" where
  "same_but_nodes c c' \<longleftrightarrow> dep_table c' = dep_table c \<and> root_offset c' = root_offset c \<and> buffer c' = buffer c \<and> bufsize c' = bufsize c \<and>
     string_buf c' = string_buf c"

text \<open>The nodes of a set that are in the table or above one that is are in the table afterwards, with their offsets; nothing else changes.\<close>

definition found_in :: "devtree \<Rightarrow> (nat list \<Rightarrow> int) \<Rightarrow> nat list set \<Rightarrow> 'd fdtgen_context \<Rightarrow> 'd fdtgen_context \<Rightarrow> bool" where
  "found_in T off R c c' \<longleftrightarrow> same_but_nodes c c' \<and>
     kept T c' = kept T c \<union> {q \<in> R. \<exists>r. q @ r \<in> kept T c} \<and>
     (\<forall>q \<in> R \<inter> kept T c'. tab c' (pstr T q) = Some (entry_at (tab c (pstr T q)) (off q))) \<and>
     (\<forall>x. x \<notin> pstr T ` (R \<inter> kept T c') \<longrightarrow> tab c' x = tab c x) \<and>
     (distinct (map fst (nodes_table c)) \<longrightarrow> distinct (map fst (nodes_table c')))"

lemma found_in_empty: "found_in T off {} c c"
  by (simp add: found_in_def same_but_nodes_def)

lemma found_above: "found_in T off R c c' \<Longrightarrow> (\<exists>r. q @ r \<in> kept T c') \<longleftrightarrow> (\<exists>r. q @ r \<in> kept T c)"
  by (auto simp: found_in_def)

lemma found_in_join:
  assumes ok: "names_ok T" and f: "found_in T off R c c1" "found_in T off S c1 c2" and apart: "R \<inter> S = {}" and v: "\<forall>q \<in> R \<union> S. valid T q"
  shows "found_in T off (R \<union> S) c c2"
proof -
  note f1 = f(1) [unfolded found_in_def] and f2 = f(2) [unfolded found_in_def]
  have k: "kept T c2 = kept T c \<union> {q \<in> R \<union> S. \<exists>r. q @ r \<in> kept T c}"
    using f1 f2 found_above [OF f(1)] by auto
  have p: "pstr T q \<notin> pstr T ` (R' \<inter> X)" if "q \<in> R \<union> S" "q \<notin> R'" "R' \<subseteq> R \<union> S" for q R' X
    using that v pstr_inject [OF ok] by blast
  have R: "tab c2 (pstr T q) = Some (entry_at (tab c (pstr T q)) (off q))" if q: "q \<in> R" "q \<in> kept T c2" for q
  proof -
    have "q \<notin> S" using q apart by auto
    then have "q \<in> kept T c1" using f2 q by auto
    moreover have "tab c2 (pstr T q) = tab c1 (pstr T q)" using f2 p [of q S "kept T c2"] q \<open>q \<notin> S\<close> by auto
    ultimately show ?thesis using f1 q by auto
  qed
  have S: "tab c2 (pstr T q) = Some (entry_at (tab c (pstr T q)) (off q))" if q: "q \<in> S" "q \<in> kept T c2" for q
  proof -
    have "q \<notin> R" using q apart by auto
    then have "tab c1 (pstr T q) = tab c (pstr T q)" using f1 p [of q R "kept T c1"] q by auto
    then show ?thesis using f2 q by auto
  qed
  have other: "tab c2 x = tab c x" if "x \<notin> pstr T ` ((R \<union> S) \<inter> kept T c2)" for x
  proof -
    have "x \<notin> pstr T ` (S \<inter> kept T c2)" "x \<notin> pstr T ` (R \<inter> kept T c1)" using that f2 by auto
    then show ?thesis using f1 f2 by auto
  qed
  have "same_but_nodes c c2" "distinct (map fst (nodes_table c)) \<longrightarrow> distinct (map fst (nodes_table c2))"
    using f1 f2 by (simp_all add: same_but_nodes_def)
  then show ?thesis using k R S other unfolding found_in_def by blast
qed

lemma found_in_one:
  assumes "names_ok T" "valid T u" "u \<noteq> []" and keep: "keep \<longleftrightarrow> (\<exists>r. u @ r \<in> kept T c)"
  shows "found_in T off {u} c (if keep then c\<lparr>nodes_table := find_or_add (pstr T u) (\<lambda>n. n\<lparr>pn_offset := Some (off u)\<rparr>)
      \<lparr>pn_offset = Some (off u), pn_cnt = 0, pn_flag = DEVICE_KEEP\<rparr> (nodes_table c)\<rparr> else c)"
proof (cases keep)
  case True
  then show ?thesis
    using keep kept_insert [OF assms(1-3)]
    by (auto simp: found_in_def same_but_nodes_def tab_find_or_add entry_at_def distinct_find_or_add split: option.splits)
next
  case False
  then have "u \<notin> kept T c" using keep by (metis append_Nil2)
  then show ?thesis using False keep by (auto simp: found_in_def same_but_nodes_def)
qed

lemma kept_buf [simp]: "kept T (c\<lparr>string_buf := b\<rparr>) = kept T c"
  by (simp add: kept_def)

lemma found_in_buf: "found_in T off R (c\<lparr>string_buf := b\<rparr>) c' \<Longrightarrow> found_in T off R c (c'\<lparr>string_buf := string_buf c\<rparr>)"
  unfolding found_in_def same_but_nodes_def by auto

lemma kept_under: "(\<exists>r. u @ r \<in> kept T c) \<longleftrightarrow> u \<in> kept T c \<or> (\<exists>q \<in> region T u 0. q \<in> kept T c)"
proof
  assume "\<exists>r. u @ r \<in> kept T c"
  then obtain r where r: "u @ r \<in> kept T c" ..
  then have "valid T (u @ r)" by (simp add: kept_def)
  with r show "u \<in> kept T c \<or> (\<exists>q \<in> region T u 0. q \<in> kept T c)" by (cases r) (auto simp: region_def)
next
  assume "u \<in> kept T c \<or> (\<exists>q \<in> region T u 0. q \<in> kept T c)"
  then show "\<exists>r. u @ r \<in> kept T c" by (auto simp: region_def intro: exI [of _ "[]"])
qed

lemma found_in_outside: "found_in T off R c c' \<Longrightarrow> q \<notin> R \<Longrightarrow> q \<in> kept T c' \<longleftrightarrow> q \<in> kept T c"
  by (auto simp: found_in_def)

lemma find_loop_ok:
  assumes L: "fdt_reads L tree off d" and T: "T = tree d" "wf_tree T" and "subt T p = Some n" and "i \<le> length (kids n)"
    and "buffer c = d" "string_buf c = pstr T p" and "kid_offset off d n p i child"
  shows "\<exists>c'. find_loop L child found c = Some (found \<or> (\<exists>q \<in> region T p i. q \<in> kept T c), c') \<and> found_in T (off d) (region T p i) c c'"
  using assms(4-)
proof (induction "rest n i" arbitrary: n p i c child found rule: less_induct)
  case less
  show ?case
  proof (cases "i < length (kids n)")
    case False
    then show ?thesis using less.prems region_end [OF less.prems(1)] by (simp add: find_loop.simps kid_offset_def found_in_empty)
  next
    case True
    let ?u = "p @ [i]" and ?k = "snd (kids n ! i)"
    have u: "subt T ?u = Some ?k" "?u \<noteq> []" using subt_snoc [OF less.prems(1)] True by simp_all
    have child: "child = off d ?u" using less.prems(5) True by (simp add: kid_offset_def)
    then have nonneg: "\<not> child < 0" using read_kids(4) [OF L, of ?u ?k] u(1) T(1) by simp
    have name: "fdt_get_name L d child = fst (kids n ! i)" using read_kids(3) [OF L] less.prems(1) T(1) True child by simp
    have path: "child_path (string_buf c) (fdt_get_name L (buffer c) child) = Some (pstr T ?u)"
      using child_path_ok [OF T(2) less.prems(1) True] less.prems name by simp
    define c0 where "c0 = c\<lparr>string_buf := pstr T ?u\<rparr>"
    have k0: "kid_offset off d ?k ?u 0 (fdt_first_subnode L d child)" using read_kids(1) [OF L] u(1) T(1) child by simp
    have c0: "buffer c0 = d" "string_buf c0 = pstr T ?u" using less.prems(3) by (simp_all add: c0_def)
    from less.hyps [OF rest_less(1) [OF True] u(1) _ c0 k0, of False] obtain c1 where
      c1: "find_loop L (fdt_first_subnode L d child) False c0 = Some (\<exists>q \<in> region T ?u 0. q \<in> kept T c0, c1)"
        "found_in T (off d) (region T ?u 0) c0 c1" by auto
    have b1: "buffer c1 = d" "string_buf c1 = pstr T ?u"
      using c1(2) c0 by (simp_all add: found_in_def same_but_nodes_def)
    have v: "valid T ?u" "names_ok T" "pstr T p = take (length (string_buf c)) (pstr T ?u)"
      using u T(2) names_ok_wf pstr_kid [OF less.prems(1) True] less.prems(4) by auto
    define keep where "keep \<longleftrightarrow> (\<exists>q \<in> region T ?u 0. q \<in> kept T c0) \<or> is_to_keep c1"
    have u1: "is_to_keep c1 \<longleftrightarrow> ?u \<in> kept T c1" using b1 v(1) by (simp add: is_to_keep_def kept_def)
    have keep: "keep \<longleftrightarrow> (\<exists>r. ?u @ r \<in> kept T c1)"
      using found_above [OF c1(2), of ?u] kept_under [of ?u T c0] found_in_outside [OF c1(2), of ?u] region_apart(1) u1 unfolding keep_def by blast
    define c2 where "c2 = (if keep then c1\<lparr>nodes_table := find_or_add (pstr T ?u) (\<lambda>n. n\<lparr>pn_offset := Some (off d ?u)\<rparr>)
      \<lparr>pn_offset = Some (off d ?u), pn_cnt = 0, pn_flag = DEVICE_KEEP\<rparr> (nodes_table c1)\<rparr> else c1)"
    have f2: "found_in T (off d) {?u} c1 c2" unfolding c2_def by (rule found_in_one [OF v(2,1) u(2) keep])
    have f02: "found_in T (off d) (region T ?u 0 \<union> {?u}) c0 c2"
      by (rule found_in_join [OF v(2) c1(2) f2]) (use region_apart(1) region_sub v(1) in blast)+
    define c3 where "c3 = c2\<lparr>string_buf := pstr T p\<rparr>"
    have f3: "found_in T (off d) (region T ?u 0 \<union> {?u}) c c3"
      using found_in_buf [where c = c and b = "pstr T ?u", OF f02 [unfolded c0_def]] less.prems(4) by (simp add: c3_def)
    then have c3: "buffer c3 = d" "string_buf c3 = pstr T p" using less.prems(3) by (simp_all add: found_in_def same_but_nodes_def c3_def)
    have k3: "kid_offset off d n p (Suc i) (fdt_next_subnode L d child)" using read_kids(2) [OF L] less.prems(1) T(1) True child by simp
    from less.hyps [OF rest_less(2) [OF True] less.prems(1) _ c3 k3, of "found \<or> keep"] True obtain c' where
      c': "find_loop L (fdt_next_subnode L d child) (found \<or> keep) c3 = Some ((found \<or> keep) \<or> (\<exists>q \<in> region T p (Suc i). q \<in> kept T c3), c')"
        "found_in T (off d) (region T p (Suc i)) c3 c'" by auto
    have "find_loop L child found c = find_loop L (fdt_next_subnode L d child) (found \<or> keep) c3"
      by (simp add: find_loop.simps [of L child found c] nonneg path [unfolded less.prems(3)] c1(1) [unfolded c0_def] less.prems(3) Let_def keep_def [unfolded c0_def]
          c3_def c2_def child [symmetric] b1 v(3))
    moreover have "found_in T (off d) (region T p i) c c'"
    proof -
      have "(region T ?u 0 \<union> {?u}) \<inter> region T p (Suc i) = {}" using region_apart(2) by (auto simp: region_def)
      moreover have "\<forall>q \<in> region T ?u 0 \<union> {?u} \<union> region T p (Suc i). valid T q" using region_sub v(1) by blast
      ultimately have "found_in T (off d) (region T ?u 0 \<union> {?u} \<union> region T p (Suc i)) c c'" by (rule found_in_join [OF v(2) f3 c'(2)])
      moreover have "region T p i = region T ?u 0 \<union> {?u} \<union> region T p (Suc i)" unfolding region_step [OF less.prems(1) True] by blast
      ultimately show ?thesis by simp
    qed
    moreover have "((found \<or> keep) \<or> (\<exists>q \<in> region T p (Suc i). q \<in> kept T c3)) \<longleftrightarrow> found \<or> (\<exists>q \<in> region T p i. q \<in> kept T c)"
    proof -
      have "keep \<longleftrightarrow> ?u \<in> kept T c \<or> (\<exists>q \<in> region T ?u 0. q \<in> kept T c)"
        using keep found_above [OF c1(2), of ?u] kept_under [of ?u T c0] by (simp add: c0_def)
      moreover have "q \<in> kept T c3 \<longleftrightarrow> q \<in> kept T c" if "q \<in> region T p (Suc i)" for q
      proof -
        have "q \<noteq> ?u" using that by (auto simp: region_def)
        then have "q \<notin> region T ?u 0 \<union> {?u}" using that region_apart(2) [of q T p i] by blast
        then show ?thesis by (rule found_in_outside [OF f3])
      qed
      ultimately show ?thesis unfolding region_step [OF less.prems(1) True] by (simp only: bex_Un insert_iff Un_iff Set.bex_simps) blast
    qed
    ultimately show ?thesis using c'(1) by simp
  qed
qed

lemma region_root: "region T [] 0 = {q. valid T q \<and> q \<noteq> []}"
proof -
  have "q \<in> region T [] 0" if "valid T q" "q \<noteq> []" for q using that by (cases q) (auto simp: region_def)
  then show ?thesis using region_sub by blast
qed

lemma find_nodes_ok:
  assumes L: "fdt_reads L tree off d" and T: "T = tree d" "wf_tree T" and c: "buffer c = d" "string_buf c = []"
  shows "\<exists>b c'. find_nodes_to_keep L (off d []) c = Some (b, c') \<and> found_in T (off d) {q. valid T q \<and> q \<noteq> []} c c'"
proof -
  have "kid_offset off d T [] 0 (fdt_first_subnode L d (off d []))" using read_kids(1) [OF L, of "[]" T] T(1) by simp
  from find_loop_ok [OF L T, of "[]" T 0 c, OF _ _ c(1) _ this, of False] c region_root [of T] show ?thesis
    by (auto simp: find_nodes_to_keep_def)
qed

end
