(* ===== verification/Fdtgen_Deps.thy ===== *)
theory Fdtgen_Deps
  imports Fdtgen_Find
begin

text \<open>
  The dependencies that the generator of theory \<open>Fdtgen\<close> follows: for every node to be kept, the nodes it refers to and the nodes above these are kept as well, and no
  other nodes are.
\<close>

section \<open>References\<close>

text \<open>The references in a list of cells, each followed by as many cells as the node it refers to says.\<close>

inductive cells_of :: "(u32 \<Rightarrow> u32 option) \<Rightarrow> bytes \<Rightarrow> int \<Rightarrow> u32 list \<Rightarrow> bool" where
  cells_end: "int (length data) \<le> i \<Longrightarrow> cells_of cf data i []"
| cells_more: "i < int (length data) \<Longrightarrow> cell_at data i = Some x \<Longrightarrow> fdt32_ld x = Some h \<Longrightarrow> cf h = Some n \<Longrightarrow> cell_step i n = Some i' \<Longrightarrow>
    cells_of cf data i' hs \<Longrightarrow> cells_of cf data i (h # hs)"

definition clock_cells :: "'d libfdt \<Rightarrow> 'd \<Rightarrow> u32 \<Rightarrow> u32 option" where
  "clock_cells L d h = do { v \<leftarrow> fdt_getprop L d (fdt_node_offset_by_phandle L d h) ''#clock-cells''; fdt32_ld v }"

definition domain_cells :: "'d libfdt \<Rightarrow> 'd \<Rightarrow> u32 \<Rightarrow> u32 option" where
  "domain_cells L d h = (case fdt_getprop L d (fdt_node_offset_by_phandle L d h) ''#power-domain-cells'' of None \<Rightarrow> Some 0 | Some v \<Rightarrow> fdt32_ld v)"

definition handles :: "'d libfdt \<Rightarrow> 'd \<Rightarrow> string \<times> bytes \<Rightarrow> u32 list \<Rightarrow> bool" where
  "handles L d p hs \<longleftrightarrow>
     (if fst p \<notin> set props_with_dep then hs = []
      else if fst p = ''clocks'' then cells_of (clock_cells L d) (snd p) 0 hs
      else if fst p = ''power-domains'' then cells_of (domain_cells L d) (snd p) 0 hs
      else \<exists>h. fdt32_ld (snd p) = Some h \<and> hs = [h])"

definition refers :: "'d libfdt \<Rightarrow> ('d \<Rightarrow> nat list \<Rightarrow> int) \<Rightarrow> 'd \<Rightarrow> devtree \<Rightarrow> nat list \<Rightarrow> nat list \<Rightarrow> bool" where
  "refers L off d T q t \<longleftrightarrow> (\<exists>n p hs h. subt T q = Some n \<and> p \<in> set (dprops n) \<and> handles L d p hs \<and> h \<in> set hs \<and>
     valid T t \<and> fdt_node_offset_by_phandle L d h = off d t)"

text \<open>All references can be read and refer to nodes.\<close>

definition refs_ok :: "'d libfdt \<Rightarrow> ('d \<Rightarrow> nat list \<Rightarrow> int) \<Rightarrow> 'd \<Rightarrow> devtree \<Rightarrow> bool" where
  "refs_ok L off d T \<longleftrightarrow> (\<forall>q n p. subt T q = Some n \<and> p \<in> set (dprops n) \<longrightarrow>
     (\<exists>hs. handles L d p hs \<and> (\<forall>h \<in> set hs. \<exists>t. valid T t \<and> fdt_node_offset_by_phandle L d h = off d t)))"

inductive needed :: "(nat list \<Rightarrow> nat list \<Rightarrow> bool) \<Rightarrow> nat list set \<Rightarrow> nat list \<Rightarrow> bool" for dep R where
  needed_asked: "q \<in> R \<Longrightarrow> needed dep R q"
| needed_above: "needed dep R (q @ [i]) \<Longrightarrow> q \<noteq> [] \<Longrightarrow> needed dep R q"
| needed_ref: "needed dep R q \<Longrightarrow> dep q t \<Longrightarrow> t \<noteq> [] \<Longrightarrow> needed dep R t"

section \<open>Invariant\<close>

definition tpath :: "devtree \<Rightarrow> nat list \<Rightarrow> string" where
  "tpath T t = (if t = [] then ''/'' else pstr T t)"

definition recorded :: "devtree \<Rightarrow> 'd fdtgen_context \<Rightarrow> (nat list \<times> nat list) set" where
  "recorded T c = {(q, t). valid T q \<and> q \<noteq> [] \<and> valid T t \<and> (\<exists>l. map_of (dep_table c) (pstr T q) = Some l \<and> tpath T t \<in> fst ` set l)}"

definition started :: "devtree \<Rightarrow> 'd fdtgen_context \<Rightarrow> nat list set" where
  "started T c = {q. valid T q \<and> q \<noteq> [] \<and> map_of (dep_table c) (pstr T q) \<noteq> None}"

text \<open>
  While dependencies are followed, \<open>S\<close> are the nodes whose references may not all be recorded, \<open>U\<close> those whose parent may not be kept yet, and \<open>X\<close> those that are recorded
  but may not be kept yet; \<open>N\<close> are the nodes that are needed.
\<close>

record 'd world =
  w_lib :: "'d libfdt"
  w_off :: "'d \<Rightarrow> nat list \<Rightarrow> int"
  w_fdt :: 'd
  w_tree :: devtree
  w_need :: "nat list \<Rightarrow> bool"

abbreviation w_dep :: "'d world \<Rightarrow> nat list \<Rightarrow> nat list \<Rightarrow> bool" where
  "w_dep W \<equiv> refers (w_lib W) (w_off W) (w_fdt W) (w_tree W)"

abbreviation w_pos :: "'d world \<Rightarrow> nat list \<Rightarrow> int" where
  "w_pos W \<equiv> w_off W (w_fdt W)"

definition world_ok :: "'d world \<Rightarrow> bool" where
  "world_ok W \<longleftrightarrow> (\<exists>tree. fdt_reads (w_lib W) tree (w_off W) (w_fdt W) \<and> w_tree W = tree (w_fdt W)) \<and> wf_tree (w_tree W) \<and>
     refs_ok (w_lib W) (w_off W) (w_fdt W) (w_tree W) \<and>
     (\<forall>q i. w_need W (q @ [i]) \<and> q \<noteq> [] \<longrightarrow> w_need W q) \<and> (\<forall>q t. w_need W q \<and> w_dep W q t \<and> t \<noteq> [] \<longrightarrow> w_need W t)"

definition complete :: "'d world \<Rightarrow> 'd fdtgen_context \<Rightarrow> nat list \<Rightarrow> bool" where
  "complete W c q \<longleftrightarrow> (\<forall>t. w_dep W q t \<longrightarrow> t = q \<or> (q, t) \<in> recorded (w_tree W) c)"

definition good :: "'d world \<Rightarrow> nat list set \<Rightarrow> nat list set \<Rightarrow> nat list set \<Rightarrow> 'd fdtgen_context \<Rightarrow> bool" where
  "good W S U X c \<longleftrightarrow> buffer c = w_fdt W \<and> root_offset c = w_pos W [] \<and>
     (\<forall>q \<in> kept (w_tree W) c \<union> started (w_tree W) c. q \<in> S \<or> complete W c q) \<and>
     (\<forall>q \<in> kept (w_tree W) c. q \<in> U \<or> butlast q = [] \<or> butlast q \<in> kept (w_tree W) c) \<and>
     (\<forall>(q, t) \<in> recorded (w_tree W) c. t = [] \<or> t \<in> X \<or> t \<in> kept (w_tree W) c) \<and>
     (\<forall>q \<in> kept (w_tree W) c. w_need W q)"

text \<open>The tables only grow, by nodes of the tree with the offset of a needed node or of the root.\<close>

definition new_entry :: "'d world \<Rightarrow> string \<times> path_node \<Rightarrow> bool" where
  "new_entry W xe \<longleftrightarrow> pn_flag (snd xe) = DEVICE_KEEP \<and> pn_cnt (snd xe) = 0 \<and>
     (\<exists>q. valid (w_tree W) q \<and> q \<noteq> [] \<and> fst xe = pstr (w_tree W) q) \<and>
     (\<exists>q. valid (w_tree W) q \<and> (q = [] \<or> w_need W q) \<and> pn_offset (snd xe) = Some (w_pos W q))"

definition grown :: "'d world \<Rightarrow> 'd fdtgen_context \<Rightarrow> 'd fdtgen_context \<Rightarrow> bool" where
  "grown W c c' \<longleftrightarrow> recorded (w_tree W) c \<subseteq> recorded (w_tree W) c' \<and> bufsize c' = bufsize c \<and>
     (\<forall>x. map_of (dep_table c) x \<noteq> None \<longrightarrow> map_of (dep_table c') x \<noteq> None) \<and>
     (\<exists>ext. nodes_table c' = nodes_table c @ ext \<and> distinct (map fst ext) \<and> fst ` set ext \<inter> fst ` set (nodes_table c) = {} \<and> list_all (new_entry W) ext)"

lemma grown_refl: "grown W c c"
  by (simp add: grown_def)

lemma grown_join:
  assumes "grown W a b" "grown W b c"
  shows "grown W a c"
proof -
  from assms obtain e1 e2 where e: "nodes_table b = nodes_table a @ e1" "nodes_table c = nodes_table b @ e2"
    and e1: "distinct (map fst e1)" "fst ` set e1 \<inter> fst ` set (nodes_table a) = {}" "list_all (new_entry W) e1"
    and e2: "distinct (map fst e2)" "fst ` set e2 \<inter> fst ` set (nodes_table b) = {}" "list_all (new_entry W) e2"
    unfolding grown_def by auto
  have "fst ` set e2 \<inter> (fst ` set (nodes_table a) \<union> fst ` set e1) = {}" using e2(2) e(1) by (simp add: image_Un)
  then have "distinct (map fst (e1 @ e2))" "fst ` set (e1 @ e2) \<inter> fst ` set (nodes_table a) = {}" "list_all (new_entry W) (e1 @ e2)"
    using e1 e2 by (auto simp: image_Un)
  moreover have "nodes_table c = nodes_table a @ e1 @ e2" using e by simp
  moreover have "recorded (w_tree W) a \<subseteq> recorded (w_tree W) c" "bufsize c = bufsize a"
    "\<forall>x. map_of (dep_table a) x \<noteq> None \<longrightarrow> map_of (dep_table c) x \<noteq> None" using assms unfolding grown_def by auto
  ultimately show ?thesis unfolding grown_def by blast
qed

text \<open>Nothing of this depends on the path buffer.\<close>

lemma buf_updates [simp]:
  "recorded T (c\<lparr>string_buf := b\<rparr>) = recorded T c" "started T (c\<lparr>string_buf := b\<rparr>) = started T c"
  "complete W (c\<lparr>string_buf := b\<rparr>) = complete W c" "good W S U X (c\<lparr>string_buf := b\<rparr>) = good W S U X c"
  "grown W (c\<lparr>string_buf := b\<rparr>) c' = grown W c c'" "grown W c (c'\<lparr>string_buf := b\<rparr>) = grown W c c'"
  by (simp_all add: recorded_def started_def complete_def good_def grown_def fun_eq_iff)

lemma good_mono: "good W S U X c \<Longrightarrow> S \<subseteq> S' \<Longrightarrow> U \<subseteq> U' \<Longrightarrow> X \<subseteq> X' \<Longrightarrow> good W S' U' X' c"
  unfolding good_def by blast

lemma grown_tab: "grown W c c' \<Longrightarrow> tab c x = Some e \<Longrightarrow> tab c' x = Some e"
  by (auto simp: grown_def map_add_def)

lemma grown_kept: "grown W c c' \<Longrightarrow> kept (w_tree W) c \<subseteq> kept (w_tree W) c'"
  using grown_tab by (fastforce simp: kept_def)

section \<open>Steps\<close>

lemma alist_update_same: "map_of t x = Some v \<Longrightarrow> AList.update x v t = t"
  by (induction t) (auto split: if_splits)

lemma add_same: "map_of t x \<noteq> None \<Longrightarrow> find_or_add x (\<lambda>n. n) new t = t"
  by (auto simp: find_or_add_def update_node_def alist_update_same split: option.splits)

lemma world_reads:
  assumes "world_ok W"
  obtains tree where "fdt_reads (w_lib W) tree (w_off W) (w_fdt W)" "w_tree W = tree (w_fdt W)" "wf_tree (tree (w_fdt W))"
  using assms unfolding world_ok_def by metis

lemma world_names: "world_ok W \<Longrightarrow> names_ok (w_tree W)"
  by (simp add: world_ok_def names_ok_wf)

lemma world_path:
  assumes "world_ok W" "valid (w_tree W) q"
  shows "fdt_get_path (w_lib W) (w_fdt W) (w_pos W q) buf = tpath (w_tree W) q"
  using assms unfolding world_ok_def wf_tree_def fdt_reads_def tpath_def by (metis option.exhaust)

lemma world_off:
  assumes "world_ok W" "valid (w_tree W) p" "valid (w_tree W) q"
  shows "w_pos W p = w_pos W q \<longleftrightarrow> p = q"
  using assms off_inject by (metis world_reads)

text \<open>Adding a node to the table.\<close>

abbreviation fresh :: "'d world \<Rightarrow> nat list \<Rightarrow> path_node" where
  "fresh W p \<equiv> \<lparr>pn_offset = Some (w_pos W p), pn_cnt = 0, pn_flag = DEVICE_KEEP\<rparr>"

lemma add_node:
  fixes c :: "'d fdtgen_context"
  assumes W: "world_ok W" and u: "valid (w_tree W) u" "u \<noteq> []" "w_need W u" and p: "valid (w_tree W) p" "p = [] \<or> w_need W p"
  defines "c' \<equiv> c\<lparr>nodes_table := find_or_add (pstr (w_tree W) u) (\<lambda>n. n) (fresh W p) (nodes_table c)\<rparr>"
  shows "kept (w_tree W) c' = insert u (kept (w_tree W) c)" and "grown W c c'" and "recorded (w_tree W) c' = recorded (w_tree W) c"
    and "started (w_tree W) c' = started (w_tree W) c" and "complete W c' = complete W c"
proof -
  show "kept (w_tree W) c' = insert u (kept (w_tree W) c)" unfolding c'_def by (rule kept_insert [OF world_names [OF W] u(1,2)])
  show r: "recorded (w_tree W) c' = recorded (w_tree W) c" "started (w_tree W) c' = started (w_tree W) c"
    by (simp_all add: c'_def recorded_def started_def)
  show "complete W c' = complete W c" using r by (simp add: complete_def fun_eq_iff)
  show "grown W c c'"
  proof (cases "tab c (pstr (w_tree W) u)")
    case None
    have "new_entry W (pstr (w_tree W) u, fresh W p)" using u p by (auto simp: new_entry_def)
    then show ?thesis using None by (auto simp: grown_def c'_def recorded_def find_or_add_def map_of_eq_None_iff)
  next
    case (Some e)
    then have "c' = c" by (simp add: c'_def add_same)
    then show ?thesis by (simp add: grown_refl)
  qed
qed

lemma need_prefix: "world_ok W \<Longrightarrow> w_need W (p @ r) \<Longrightarrow> p \<noteq> [] \<Longrightarrow> w_need W p"
proof (induction r rule: rev_induct)
  case (snoc i r)
  then have "w_need W (p @ r)" unfolding world_ok_def by (metis append_assoc append_is_Nil_conv)
  then show ?case using snoc by simp
qed simp

text \<open>A search that does not find its target changes nothing.\<close>

lemma keep_miss:
  assumes W: "world_ok W" and t: "valid (w_tree W) t" "t \<noteq> []" and "subt (w_tree W) p = Some n" and "i \<le> length (kids n)"
    and "\<And>j r. i \<le> j \<Longrightarrow> t \<noteq> p @ j # r" and "buffer c = w_fdt W" "root_offset c = w_pos W []" "string_buf c = pstr (w_tree W) p"
    and "kid_offset (w_off W) (w_fdt W) n p i child"
  shows "fdt_task (w_lib W) (Keep_Loop child offset (w_pos W t)) c = Some (False, c)"
  using assms(4-)
proof (induction "rest n i" arbitrary: n p i c child offset rule: less_induct)
  case less
  let ?T = "w_tree W" and ?L = "w_lib W" and ?d = "w_fdt W"
  obtain tree where L: "fdt_reads ?L tree (w_off W) ?d" and T: "?T = tree ?d" "wf_tree (tree ?d)" using world_reads [OF W] .
  show ?case
  proof (cases "i < length (kids n)")
    case False
    then show ?thesis using less.prems(7) by (subst fdt_task.simps) (simp add: kid_offset_def)
  next
    case True
    let ?u = "p @ [i]" and ?k = "snd (kids n ! i)"
    have u: "subt ?T ?u = Some ?k" using subt_snoc [OF less.prems(1)] True by simp
    have child: "child = w_pos W ?u" using less.prems(7) True by (simp add: kid_offset_def)
    then have nonneg: "\<not> child < 0" using read_kids(4) [OF L, of ?u ?k] u T(1) by simp
    have path: "child_path (string_buf c) (fdt_get_name ?L ?d child) = Some (pstr ?T ?u)"
      using child_path_ok [OF _ less.prems(1) True] read_kids(3) [OF L, of p n i] less.prems(1,6) T True child by simp
    define c0 where "c0 = c\<lparr>string_buf := pstr ?T ?u\<rparr>"
    have ut: "w_pos W t \<noteq> w_pos W []" "w_pos W t \<noteq> w_pos W ?u"
      using world_off [OF W] t u less.prems(3) [of i "[]"] by auto
    have k0: "kid_offset (w_off W) ?d ?k ?u 0 (fdt_first_subnode ?L ?d child)" using read_kids(1) [OF L, of ?u ?k] u T(1) child by simp
    have "fdt_task ?L (Keep_Loop (fdt_first_subnode ?L ?d child) child (w_pos W t)) c0 = Some (False, c0)"
    proof (rule less.hyps [OF rest_less(1) [OF True] u _ _ _ _ _ k0])
      show "t \<noteq> ?u @ j # r" for j r using less.prems(3) [of i "j # r"] by simp
    qed (use less.prems(4,5) in \<open>simp_all add: c0_def\<close>)
    then have in_child: "fdt_task ?L (Keep child (w_pos W t)) c0 = Some (False, c0)"
      using ut less.prems(4,5) by (subst fdt_task.simps) (simp add: c0_def child)
    have k3: "kid_offset (w_off W) ?d n p (Suc i) (fdt_next_subnode ?L ?d child)" using read_kids(2) [OF L, of p n i] less.prems(1) T(1) True child by simp
    have nxt: "fdt_task ?L (Keep_Loop (fdt_next_subnode ?L ?d child) offset (w_pos W t)) c = Some (False, c)"
      using less.hyps [OF rest_less(2) [OF True] less.prems(1) _ _ less.prems(4-6) k3] less.prems(3) True by simp
    have restored: "c0\<lparr>string_buf := take (length (string_buf c)) (string_buf c0)\<rparr> = c"
      using pstr_kid [OF less.prems(1) True] less.prems(6) by (simp add: c0_def)
    show ?thesis
      using nonneg path in_child nxt restored less.prems(4) by (subst fdt_task.simps) (simp add: c0_def Let_def)
  qed
qed

text \<open>The number of references that may still be recorded, and what following the references of a node achieves when there are few.\<close>

lemma tsize_kid: "i < length (kids T) \<Longrightarrow> tsize (snd (kids T ! i)) < tsize T"
  using member_le_sum_list [of "tsize (snd (kids T ! i))" "map (\<lambda>k. tsize (snd k)) (kids T)"]
  by (simp add: tsize_rest [of T] rest_def)

lemma finite_valid: "finite {p. valid T p}"
proof (induction "tsize T" arbitrary: T rule: less_induct)
  case less
  have "finite {p. valid (snd (kids T ! i)) p}" if "i < length (kids T)" for i
    by (rule less) (rule tsize_kid [OF that])
  then have "finite (insert [] (\<Union>i < length (kids T). (#) i ` {p. valid (snd (kids T ! i)) p}))" by simp
  moreover have "{p. valid T p} \<subseteq> insert [] (\<Union>i < length (kids T). (#) i ` {p. valid (snd (kids T ! i)) p})"
  proof
    fix p assume "p \<in> {p. valid T p}"
    then show "p \<in> insert [] (\<Union>i < length (kids T). (#) i ` {p. valid (snd (kids T ! i)) p})"
      by (cases p) (auto split: if_splits)
  qed
  ultimately show ?case by (rule rev_finite_subset)
qed

definition open_refs :: "'d world \<Rightarrow> 'd fdtgen_context \<Rightarrow> nat" where
  "open_refs W c = card ({q. valid (w_tree W) q} \<times> {t. valid (w_tree W) t} - recorded (w_tree W) c)"

lemma open_refs_mono: "recorded (w_tree W) c \<subseteq> recorded (w_tree W) c' \<Longrightarrow> open_refs W c' \<le> open_refs W c"
  unfolding open_refs_def by (intro card_mono finite_Diff finite_cartesian_product finite_valid) blast

lemma open_refs_less:
  assumes "recorded (w_tree W) c \<subseteq> recorded (w_tree W) c'" "(q, t) \<in> recorded (w_tree W) c'" "(q, t) \<notin> recorded (w_tree W) c"
  shows "open_refs W c' < open_refs W c"
  unfolding open_refs_def
proof (rule psubset_card_mono)
  have "(q, t) \<in> {q. valid (w_tree W) q} \<times> {t. valid (w_tree W) t}" using assms(2) by (simp add: recorded_def)
  then show "{q. valid (w_tree W) q} \<times> {t. valid (w_tree W) t} - recorded (w_tree W) c' \<subset>
      {q. valid (w_tree W) q} \<times> {t. valid (w_tree W) t} - recorded (w_tree W) c" using assms by blast
qed (intro finite_Diff finite_cartesian_product finite_valid)

definition follows :: "'d world \<Rightarrow> nat \<Rightarrow> bool" where
  "follows W k \<longleftrightarrow> (\<forall>c S U q. good W S U {} c \<and> open_refs W c < k \<and> valid (w_tree W) q \<and> (q = [] \<or> w_need W q) \<longrightarrow>
     (\<exists>b c'. fdt_task (w_lib W) (Node_Deps (w_pos W q)) c = Some (b, c') \<and> good W (S - {q}) U {} c' \<and> grown W c c'))"

text \<open>Keeping a node on the way to the target: it enters the table, and its references are followed unless they have been.\<close>

lemma keep_here:
  assumes W: "world_ok W" and IH: "follows W k" and few: "open_refs W c < k"
    and g: "good W S U' X c" and U': "\<And>q. q \<in> U' \<Longrightarrow> q \<in> U \<or> butlast q = u" and X: "\<And>t. t \<in> X \<Longrightarrow> t = u"
    and u: "valid (w_tree W) u" "u \<noteq> []" "w_need W u" and p: "valid (w_tree W) p" "p = [] \<or> w_need W p"
  defines "c1 \<equiv> c\<lparr>nodes_table := find_or_add (pstr (w_tree W) u) (\<lambda>n. n) (fresh W p) (nodes_table c)\<rparr>"
  shows "\<exists>b c'. (if map_of (dep_table c1) (pstr (w_tree W) u) = None then fdt_task (w_lib W) (Node_Deps (w_pos W u)) c1 else Some (False, c1)) = Some (b, c') \<and>
    good W S (U \<union> {u}) {} c' \<and> grown W c c' \<and> u \<in> kept (w_tree W) c'"
proof -
  note a = add_node [OF W u p, of c, folded c1_def]
  have g1: "good W (S \<union> {u}) (U \<union> {u}) {} c1"
    unfolding good_def a(1,3-5)
  proof (intro conjI)
    show "buffer c1 = w_fdt W" "root_offset c1 = w_pos W []" using g by (simp_all add: good_def c1_def)
    show "\<forall>q \<in> insert u (kept (w_tree W) c) \<union> started (w_tree W) c. q \<in> S \<union> {u} \<or> complete W c q" using g unfolding good_def by blast
    show "\<forall>q \<in> insert u (kept (w_tree W) c). q \<in> U \<union> {u} \<or> butlast q = [] \<or> butlast q \<in> insert u (kept (w_tree W) c)"
      using g U' unfolding good_def by blast
    show "\<forall>(q, t) \<in> recorded (w_tree W) c. t = [] \<or> t \<in> {} \<or> t \<in> insert u (kept (w_tree W) c)" using g X unfolding good_def by blast
    show "\<forall>q \<in> insert u (kept (w_tree W) c). w_need W q" using g u(3) unfolding good_def by blast
  qed
  show ?thesis
  proof (cases "map_of (dep_table c1) (pstr (w_tree W) u)")
    case None
    have "open_refs W c1 < k" using few open_refs_mono [of W c c1] a(3) by simp
    then obtain b c' where c': "fdt_task (w_lib W) (Node_Deps (w_pos W u)) c1 = Some (b, c')" "good W (S \<union> {u} - {u}) (U \<union> {u}) {} c'" "grown W c1 c'"
      using IH g1 u unfolding follows_def by blast
    have "good W S (U \<union> {u}) {} c'" using good_mono [OF c'(2)] by blast
    moreover have "u \<in> kept (w_tree W) c'" using grown_kept [OF c'(3)] a(1) by blast
    ultimately show ?thesis using None c' grown_join [OF a(2) c'(3)] by auto
  next
    case (Some l)
    then have "u \<in> started (w_tree W) c" using u a(4) by (auto simp: started_def c1_def)
    then have "u \<in> S \<or> complete W c u" using g unfolding good_def by blast
    then have "good W S (U \<union> {u}) {} c1" using g1 a(5) unfolding good_def by auto
    then show ?thesis using Some a(1,2) by auto
  qed
qed

lemma keep_hit:
  assumes W: "world_ok W" and IH: "follows W k" and t: "valid (w_tree W) t" "w_need W t"
    and "subt (w_tree W) p = Some n" "p = [] \<or> w_need W p" and "i \<le> j" "t = p @ j # r" and "string_buf c = pstr (w_tree W) p"
    and "kid_offset (w_off W) (w_fdt W) n p i child" and "good W S U {t} c" and "open_refs W c < k"
  shows "\<exists>c'. fdt_task (w_lib W) (Keep_Loop child (w_pos W p) (w_pos W t)) c = Some (True, c') \<and>
    good W S (U \<union> {p @ [j]}) {} c' \<and> grown W c c' \<and> p @ [j] \<in> kept (w_tree W) c'"
  using assms(5-)
proof (induction "rest n i" arbitrary: n p i j r c child rule: less_induct)
  case less
  let ?T = "w_tree W" and ?L = "w_lib W" and ?d = "w_fdt W" and ?u = "p @ [i]" and ?k = "snd (kids n ! i)"
  obtain tree where L: "fdt_reads ?L tree (w_off W) ?d" and T: "?T = tree ?d" "wf_tree (tree ?d)" using world_reads [OF W] .
  have b: "buffer c = ?d" "root_offset c = w_pos W []" using less.prems(7) by (simp_all add: good_def)
  have "j < length (kids n)" using t(1) less.prems(1,4) by (auto simp: subt_append split: if_splits)
  then have i: "i < length (kids n)" using less.prems(3) by simp
  have u: "subt ?T ?u = Some ?k" using subt_snoc [OF less.prems(1)] i by simp
  have child: "child = w_pos W ?u" using less.prems(6) i by (simp add: kid_offset_def)
  then have nonneg: "\<not> child < 0" using read_kids(4) [OF L, of ?u ?k] u T(1) by simp
  have path: "child_path (string_buf c) (fdt_get_name ?L ?d child) = Some (pstr ?T ?u)"
    using child_path_ok [OF _ less.prems(1) i] read_kids(3) [OF L, of p n i] less.prems(1,5) T i child by simp
  define c0 where "c0 = c\<lparr>string_buf := pstr ?T ?u\<rparr>"
  have c0: "buffer c0 = ?d" "root_offset c0 = w_pos W []" "string_buf c0 = pstr ?T ?u" using b by (simp_all add: c0_def)
  have k0: "kid_offset (w_off W) ?d ?k ?u 0 (fdt_first_subnode ?L ?d child)" using read_kids(1) [OF L, of ?u ?k] u T(1) child by simp
  have t0: "w_pos W t \<noteq> w_pos W []" using world_off [OF W t(1)] less.prems(4) by simp
  show ?case
  proof (cases "i = j")
    case False
    have tu: "w_pos W t \<noteq> w_pos W ?u" using world_off [OF W t(1), of ?u] u less.prems(4) False by simp
    have "fdt_task ?L (Keep_Loop (fdt_first_subnode ?L ?d child) child (w_pos W t)) c0 = Some (False, c0)"
      by (rule keep_miss [OF W t(1) _ u _ _ c0 k0]) (use less.prems(4) False in auto)
    then have in_child: "fdt_task ?L (Keep child (w_pos W t)) c0 = Some (False, c0)"
      using t0 tu c0 by (subst fdt_task.simps) (simp add: child)
    have restored: "c0\<lparr>string_buf := take (length (string_buf c)) (string_buf c0)\<rparr> = c"
      using pstr_kid [OF less.prems(1) i] less.prems(5) by (simp add: c0_def)
    have k3: "kid_offset (w_off W) ?d n p (Suc i) (fdt_next_subnode ?L ?d child)" using read_kids(2) [OF L, of p n i] less.prems(1) T(1) i child by simp
    have "fdt_task ?L (Keep_Loop child (w_pos W p) (w_pos W t)) c = fdt_task ?L (Keep_Loop (fdt_next_subnode ?L ?d child) (w_pos W p) (w_pos W t)) c"
      using nonneg path in_child restored b by (subst fdt_task.simps) (simp add: c0_def Let_def)
    then show ?thesis
      using less.hyps [OF rest_less(2) [OF i] less.prems(1,2) _ less.prems(4,5) k3 less.prems(7,8)] less.prems(3) False by simp
  next
    case True
    have need: "w_need W ?u" using need_prefix [OF W, of ?u r] t(2) less.prems(4) True by simp
    have "\<exists>c1 U' X. fdt_task ?L (Keep child (w_pos W t)) c0 = Some (True, c1) \<and> good W S U' X c1 \<and> grown W c c1 \<and>
      (\<forall>q \<in> U'. q \<in> U \<or> butlast q = ?u) \<and> (\<forall>q \<in> X. q = ?u)"
    proof (cases r)
      case Nil
      then have "w_pos W t = child" using less.prems(4) True child by simp
      then have "fdt_task ?L (Keep child (w_pos W t)) c0 = Some (True, c0)" using t0 c0 by (subst fdt_task.simps) simp
      moreover have "good W S U {t} c0" "grown W c c0" using less.prems(7) by (simp_all add: c0_def grown_refl)
      moreover have "t = ?u" using less.prems(4) True Nil by simp
      ultimately show ?thesis by blast
    next
      case (Cons j' r')
      have tu: "w_pos W t \<noteq> w_pos W ?u" using world_off [OF W t(1), of ?u] u less.prems(4) True Cons by simp
      have "\<exists>c1. fdt_task ?L (Keep_Loop (fdt_first_subnode ?L ?d child) (w_pos W ?u) (w_pos W t)) c0 = Some (True, c1) \<and>
        good W S (U \<union> {?u @ [j']}) {} c1 \<and> grown W c0 c1 \<and> ?u @ [j'] \<in> kept ?T c1"
      proof (rule less.hyps [OF rest_less(1) [OF i] u _ _ _ c0(3) k0])
        show "t = ?u @ j' # r'" using less.prems(4) True Cons by simp
        show "open_refs W c0 < k" using less.prems(8) by (simp add: c0_def open_refs_def)
      qed (use need less.prems(7) in \<open>simp_all add: c0_def\<close>)
      then obtain c1 where c1: "fdt_task ?L (Keep_Loop (fdt_first_subnode ?L ?d child) child (w_pos W t)) c0 = Some (True, c1)"
        "good W S (U \<union> {?u @ [j']}) {} c1" "grown W c c1" by (auto simp: child c0_def)
      have "fdt_task ?L (Keep child (w_pos W t)) c0 = Some (True, c1)" using t0 tu c0 c1(1) by (subst fdt_task.simps) (simp add: child)
      moreover have "\<forall>q \<in> U \<union> {?u @ [j']}. q \<in> U \<or> butlast q = ?u" by (auto simp: butlast_append)
      ultimately show ?thesis using c1(2,3) by blast
    qed
    then obtain c1 U' X where c1: "fdt_task ?L (Keep child (w_pos W t)) c0 = Some (True, c1)" "good W S U' X c1" "grown W c c1"
      and UX: "\<And>q. q \<in> U' \<Longrightarrow> q \<in> U \<or> butlast q = ?u" "\<And>q. q \<in> X \<Longrightarrow> q = ?u" by blast
    have few: "open_refs W c1 < k" using open_refs_mono [of W c c1] c1(3) less.prems(8) by (simp add: grown_def)
    have pv: "valid ?T p" using less.prems(1) by simp
    from keep_here [OF W IH few c1(2) UX _ _ need pv less.prems(2)] u obtain b' c' where
      c': "(if map_of (dep_table c1) (pstr ?T ?u) = None then fdt_task ?L (Node_Deps (w_pos W ?u))
          (c1\<lparr>nodes_table := find_or_add (pstr ?T ?u) (\<lambda>n. n) (fresh W p) (nodes_table c1)\<rparr>)
        else Some (False, c1\<lparr>nodes_table := find_or_add (pstr ?T ?u) (\<lambda>n. n) (fresh W p) (nodes_table c1)\<rparr>)) = Some (b', c')"
      "good W S (U \<union> {?u}) {} c'" "grown W c1 c'" "?u \<in> kept ?T c'" by auto
    have "fdt_task ?L (Keep_Loop child (w_pos W p) (w_pos W t)) c = Some (True, c'\<lparr>string_buf := take (length (string_buf c)) (string_buf c')\<rparr>)"
      using nonneg path c1(1) c'(1) b by (subst fdt_task.simps) (simp add: c0_def Let_def child split: if_splits)
    then show ?thesis using c'(2-4) grown_join [OF c1(3) c'(3)] True by auto
  qed
qed

lemma tpath_inject:
  assumes "names_ok T" "valid T p" "valid T q" "tpath T p = tpath T q"
  shows "p = q"
proof -
  have "pstr T r \<noteq> ''/''" if "valid T r" for r
    using that names_ok_here [OF assms(1)] by (cases r) (auto split: if_splits)
  then show ?thesis using assms pstr_inject [OF assms(1-3)] by (auto simp: tpath_def split: if_splits)
qed

lemma record_edge:
  fixes c :: "'d fdtgen_context" and h :: u32 and b :: string
  assumes W: "world_ok W" and q: "valid (w_tree W) q" "q \<noteq> []" and t: "valid (w_tree W) t" and l: "map_of (dep_table c) (pstr (w_tree W) q) = Some l"
  defines "c' \<equiv> c\<lparr>dep_table := AList.update (pstr (w_tree W) q) (l @ [(tpath (w_tree W) t, h)]) (dep_table c), string_buf := b\<rparr>"
  shows "recorded (w_tree W) c' = insert (q, t) (recorded (w_tree W) c)" and "started (w_tree W) c' = started (w_tree W) c"
    and "kept (w_tree W) c' = kept (w_tree W) c" and "grown W c c'" and "good W S U {} c \<Longrightarrow> good W S U {t} c'"
proof -
  note inj = pstr_inject [OF world_names [OF W]] and tinj = tpath_inject [OF world_names [OF W]]
  show r: "recorded (w_tree W) c' = insert (q, t) (recorded (w_tree W) c)"
  proof -
    have look: "map_of (dep_table c') (pstr (w_tree W) a) =
        (if a = q then Some (l @ [(tpath (w_tree W) t, h)]) else map_of (dep_table c) (pstr (w_tree W) a))" if "valid (w_tree W) a" for a
      using that q(1) inj by (auto simp: c'_def update_conv')
    have one: "(a, x) \<in> insert (q, t) (recorded (w_tree W) c)" if r: "(a, x) \<in> recorded (w_tree W) c'" for a x
    proof (cases "a = q \<and> tpath (w_tree W) x = tpath (w_tree W) t")
      case True
      then have "x = t" using r tinj t by (auto simp: recorded_def)
      then show ?thesis using True by simp
    next
      case False
      then have "(a, x) \<in> recorded (w_tree W) c" using r l look [of a] unfolding recorded_def by (cases "a = q") auto
      then show ?thesis by simp
    qed
    have two: "(a, x) \<in> recorded (w_tree W) c'" if "(a, x) \<in> insert (q, t) (recorded (w_tree W) c)" for a x
      using that q t l look [of a] unfolding recorded_def by (cases "a = q") auto
    show ?thesis using one two by auto
  qed
  show s: "started (w_tree W) c' = started (w_tree W) c" using l by (auto simp: started_def c'_def update_conv')
  show k: "kept (w_tree W) c' = kept (w_tree W) c" by (simp add: kept_def c'_def)
  show "grown W c c'" using r by (auto simp: grown_def c'_def update_conv')
  assume g: "good W S U {} c"
  have "complete W c x \<Longrightarrow> complete W c' x" for x using r by (auto simp: complete_def)
  then show "good W S U {t} c'" using g unfolding good_def r s k by (auto simp: c'_def)
qed

lemma single_ok:
  assumes W: "world_ok W" and IH: "follows W k" and g: "good W S U {} c" and few: "open_refs W c \<le> k"
    and q: "valid (w_tree W) q" "q \<noteq> []" and l: "map_of (dep_table c) (pstr (w_tree W) q) \<noteq> None"
    and h: "fdt32_ld data = Some h" "fdt_node_offset_by_phandle (w_lib W) (w_fdt W) h = w_pos W t" and t: "valid (w_tree W) t" "t = [] \<or> w_need W t"
  shows "\<exists>b c'. fdt_task (w_lib W) (Single (w_pos W q) data (pstr (w_tree W) q)) c = Some (b, c') \<and> good W S U {} c' \<and> grown W c c' \<and>
    (t = q \<or> (q, t) \<in> recorded (w_tree W) c')"
proof -
  let ?T = "w_tree W" and ?L = "w_lib W" and ?d = "w_fdt W"
  obtain l where l: "map_of (dep_table c) (pstr ?T q) = Some l" using l by blast
  have b: "buffer c = ?d" "root_offset c = w_pos W []" using g by (simp_all add: good_def)
  note path = world_path [OF W t(1)]
  have qt: "w_pos W q = w_pos W t \<longleftrightarrow> q = t" by (rule world_off [OF W q(1) t(1)])
  show ?thesis
  proof (cases "q = t \<or> tpath ?T t \<in> fst ` set l")
    case True
    then have "fdt_task ?L (Single (w_pos W q) data (pstr ?T q)) c = Some (False, c\<lparr>string_buf := tpath ?T t\<rparr>)"
      using h l b path qt by (subst fdt_task.simps) (auto simp: retrive_to_phandle_def Let_def)
    moreover have "t = q \<or> (q, t) \<in> recorded ?T c" using True q t l by (auto simp: recorded_def)
    ultimately show ?thesis using g grown_refl [of W c] by auto
  next
    case False
    define c1 where "c1 = c\<lparr>dep_table := AList.update (pstr ?T q) (l @ [(tpath ?T t, h)]) (dep_table c), string_buf := []\<rparr>"
    note e = record_edge [where h = h and b = "[]", OF W q t(1) l, folded c1_def]
    have "(q, t) \<notin> recorded ?T c" using False l by (auto simp: recorded_def)
    then have "open_refs W c1 < open_refs W c" using open_refs_less [of W c c1 q t] e(1) by blast
    then have few1: "open_refs W c1 < k" using few by simp
    have b1: "buffer c1 = ?d" "root_offset c1 = w_pos W []" "string_buf c1 = pstr ?T []" using b by (simp_all add: c1_def)
    have "\<exists>bb c2. fdt_task ?L (Keep (root_offset c1) (w_pos W t)) c1 = Some (bb, c2) \<and> good W S U {} c2 \<and> grown W c1 c2"
    proof (cases t)
      case Nil
      have "good W S U {} c1" using e(5) [OF g] Nil unfolding good_def by auto
      moreover have "fdt_task ?L (Keep (root_offset c1) (w_pos W t)) c1 = Some (False, c1)" using b1 Nil by (subst fdt_task.simps) simp
      ultimately show ?thesis using grown_refl [of W c1] by blast
    next
      case (Cons j r)
      obtain tree where L: "fdt_reads ?L tree (w_off W) ?d" and T: "?T = tree ?d" using world_reads [OF W] by metis
      have k0: "kid_offset (w_off W) ?d ?T [] 0 (fdt_first_subnode ?L ?d (w_pos W []))" using read_kids(1) [OF L, of "[]" ?T] T by simp
      have need: "w_need W t" using t Cons by simp
      have st: "subt ?T [] = Some ?T" by simp
      from keep_hit [OF W IH t(1) need st _ le0 _ b1(3) k0 e(5) [OF g] few1, of j r] Cons obtain c2 where
        c2: "fdt_task ?L (Keep_Loop (fdt_first_subnode ?L ?d (w_pos W [])) (w_pos W []) (w_pos W t)) c1 = Some (True, c2)"
        "good W S (U \<union> {[j]}) {} c2" "grown W c1 c2" by auto
      have "w_pos W t \<noteq> w_pos W []" using world_off [OF W t(1), of "[]"] Cons by simp
      then have "fdt_task ?L (Keep (root_offset c1) (w_pos W t)) c1 = Some (True, c2)" using b1 c2(1) by (subst fdt_task.simps) simp
      moreover have "good W S U {} c2" using c2(2) unfolding good_def by auto
      ultimately show ?thesis using c2(3) by blast
    qed
    then obtain bb c2 where c2: "fdt_task ?L (Keep (root_offset c1) (w_pos W t)) c1 = Some (bb, c2)" "good W S U {} c2" "grown W c1 c2" by blast
    have "open_refs W c2 < k" using open_refs_mono [of W c1 c2] c2(3) few1 by (simp add: grown_def)
    then obtain b3 c3 where c3: "fdt_task ?L (Node_Deps (w_pos W t)) c2 = Some (b3, c3)" "good W (S - {t}) U {} c3" "grown W c2 c3"
      using IH c2(2) t unfolding follows_def by blast
    have "fdt_task ?L (Single (w_pos W q) data (pstr ?T q)) c = Some (b3, c3)"
      using h l b path qt False c2(1) c3(1) by (subst fdt_task.simps) (auto simp: retrive_to_phandle_def Let_def c1_def)
    moreover have "good W S U {} c3" using good_mono [OF c3(2)] by blast
    moreover have gr: "grown W c1 c3" by (rule grown_join [OF c2(3) c3(3)])
    moreover have "(q, t) \<in> recorded ?T c3" using gr e(1) by (auto simp: grown_def)
    ultimately show ?thesis using grown_join [OF e(4) gr] by blast
  qed
qed

text \<open>What a list of references achieves: all of them are recorded.\<close>

definition refs_done :: "'d world \<Rightarrow> 'd fdtgen_context \<Rightarrow> nat list \<Rightarrow> u32 list \<Rightarrow> bool" where
  "refs_done W c q hs \<longleftrightarrow> (\<forall>h \<in> set hs. \<forall>t. valid (w_tree W) t \<and> fdt_node_offset_by_phandle (w_lib W) (w_fdt W) h = w_pos W t \<longrightarrow>
     t = q \<or> (q, t) \<in> recorded (w_tree W) c)"

definition refs_known :: "'d world \<Rightarrow> u32 list \<Rightarrow> bool" where
  "refs_known W hs \<longleftrightarrow> (\<forall>h \<in> set hs. \<exists>t. valid (w_tree W) t \<and> fdt_node_offset_by_phandle (w_lib W) (w_fdt W) h = w_pos W t \<and> (t = [] \<or> w_need W t))"

lemma refs_done_grown: "refs_done W c q hs \<Longrightarrow> grown W c c' \<Longrightarrow> refs_done W c' q hs"
  by (auto simp: refs_done_def grown_def)

lemma single_done:
  assumes W: "world_ok W" and IH: "follows W k" and g: "good W S U {} c" and few: "open_refs W c \<le> k"
    and q: "valid (w_tree W) q" "q \<noteq> []" and l: "map_of (dep_table c) (pstr (w_tree W) q) \<noteq> None"
    and h: "fdt32_ld data = Some h" "refs_known W [h]"
  shows "\<exists>b c'. fdt_task (w_lib W) (Single (w_pos W q) data (pstr (w_tree W) q)) c = Some (b, c') \<and> good W S U {} c' \<and> grown W c c' \<and> refs_done W c' q [h]"
proof -
  from h(2) obtain t where t: "valid (w_tree W) t" "fdt_node_offset_by_phandle (w_lib W) (w_fdt W) h = w_pos W t" "t = [] \<or> w_need W t"
    by (auto simp: refs_known_def)
  have "t' = t" if "valid (w_tree W) t'" "fdt_node_offset_by_phandle (w_lib W) (w_fdt W) h = w_pos W t'" for t'
    using that t world_off [OF W] by metis
  then show ?thesis using single_ok [OF W IH g few q l h(1) t(2,1,3)] by (auto simp: refs_done_def)
qed

lemma clocks_done:
  assumes W: "world_ok W" and IH: "follows W k" and q: "valid (w_tree W) q" "q \<noteq> []"
    and "cells_of (clock_cells (w_lib W) (w_fdt W)) data i hs"
  shows "good W S U {} c \<Longrightarrow> open_refs W c \<le> k \<Longrightarrow> map_of (dep_table c) (pstr (w_tree W) q) \<noteq> None \<Longrightarrow> refs_known W hs \<Longrightarrow>
    \<exists>b c'. fdt_task (w_lib W) (Clocks (w_pos W q) data (pstr (w_tree W) q) i) c = Some (b, c') \<and> good W S U {} c' \<and> grown W c c' \<and> refs_done W c' q hs"
  using assms(5)
proof (induction "clock_cells (w_lib W) (w_fdt W)" data i hs arbitrary: c)
  case (cells_end data i)
  then show ?case by (subst fdt_task.simps) (auto simp: refs_done_def grown_refl)
next
  case (cells_more i data x h n i' hs)
  have b: "buffer c = w_fdt W" using cells_more.prems(1) by (simp add: good_def)
  have k: "refs_known W [h]" "refs_known W hs" using cells_more.prems(4) by (simp_all add: refs_known_def)
  from single_done [OF W IH cells_more.prems(1,2) q cells_more.prems(3) cells_more.hyps(3) k(1)] obtain b1 c1 where
    c1: "fdt_task (w_lib W) (Single (w_pos W q) x (pstr (w_tree W) q)) c = Some (b1, c1)" "good W S U {} c1" "grown W c c1" "refs_done W c1 q [h]" by blast
  have "open_refs W c1 \<le> k" "map_of (dep_table c1) (pstr (w_tree W) q) \<noteq> None"
    using c1(3) cells_more.prems(2,3) open_refs_mono [of W c c1] unfolding grown_def by auto
  from cells_more.hyps(7) [OF c1(2) this k(2)] obtain b2 c2 where
    c2: "fdt_task (w_lib W) (Clocks (w_pos W q) data (pstr (w_tree W) q) i') c1 = Some (b2, c2)" "good W S U {} c2" "grown W c1 c2" "refs_done W c2 q hs" by blast
  have "fdt_task (w_lib W) (Clocks (w_pos W q) data (pstr (w_tree W) q) i) c = Some (b2, c2)"
    using cells_more.hyps(1-5) b c1(1) c2(1) by (subst fdt_task.simps) (auto simp: clock_cells_def split: Option.bind_splits)
  moreover have "refs_done W c2 q (h # hs)" using refs_done_grown [OF c1(4) c2(3)] c2(4) by (simp add: refs_done_def)
  ultimately show ?case using c2(2) grown_join [OF c1(3) c2(3)] by blast
qed

lemma domains_done:
  assumes W: "world_ok W" and IH: "follows W k" and q: "valid (w_tree W) q" "q \<noteq> []"
    and "cells_of (domain_cells (w_lib W) (w_fdt W)) data i hs"
  shows "good W S U {} c \<Longrightarrow> open_refs W c \<le> k \<Longrightarrow> map_of (dep_table c) (pstr (w_tree W) q) \<noteq> None \<Longrightarrow> refs_known W hs \<Longrightarrow>
    \<exists>b c'. fdt_task (w_lib W) (Power_Domains (w_pos W q) data (pstr (w_tree W) q) i) c = Some (b, c') \<and> good W S U {} c' \<and> grown W c c' \<and> refs_done W c' q hs"
  using assms(5)
proof (induction "domain_cells (w_lib W) (w_fdt W)" data i hs arbitrary: c)
  case (cells_end data i)
  then show ?case by (subst fdt_task.simps) (auto simp: refs_done_def grown_refl)
next
  case (cells_more i data x h n i' hs)
  have b: "buffer c = w_fdt W" using cells_more.prems(1) by (simp add: good_def)
  have k: "refs_known W [h]" "refs_known W hs" using cells_more.prems(4) by (simp_all add: refs_known_def)
  from single_done [OF W IH cells_more.prems(1,2) q cells_more.prems(3) cells_more.hyps(3) k(1)] obtain b1 c1 where
    c1: "fdt_task (w_lib W) (Single (w_pos W q) x (pstr (w_tree W) q)) c = Some (b1, c1)" "good W S U {} c1" "grown W c c1" "refs_done W c1 q [h]" by blast
  have "open_refs W c1 \<le> k" "map_of (dep_table c1) (pstr (w_tree W) q) \<noteq> None"
    using c1(3) cells_more.prems(2,3) open_refs_mono [of W c c1] unfolding grown_def by auto
  from cells_more.hyps(7) [OF c1(2) this k(2)] obtain b2 c2 where
    c2: "fdt_task (w_lib W) (Power_Domains (w_pos W q) data (pstr (w_tree W) q) i') c1 = Some (b2, c2)" "good W S U {} c2" "grown W c1 c2" "refs_done W c2 q hs" by blast
  have "fdt_task (w_lib W) (Power_Domains (w_pos W q) data (pstr (w_tree W) q) i) c = Some (b2, c2)"
    using cells_more.hyps(1-5) b c1(1) c2(1) by (subst fdt_task.simps) (auto simp: domain_cells_def)
  moreover have "refs_done W c2 q (h # hs)" using refs_done_grown [OF c1(4) c2(3)] c2(4) by (simp add: refs_done_def)
  ultimately show ?case using c2(2) grown_join [OF c1(3) c2(3)] by blast
qed

lemma cells_of_unique: "cells_of cf data i hs \<Longrightarrow> cells_of cf data i hs' \<Longrightarrow> hs = hs'"
proof (induction arbitrary: hs' rule: cells_of.induct)
  case (cells_end data i cf)
  from cells_end(2) show ?case by (cases) (use cells_end(1) in auto)
next
  case (cells_more i data x h cf n i' hs)
  from cells_more.prems show ?case
  proof (cases)
    case cells_end
    then show ?thesis using cells_more.hyps(1) by simp
  next
    case (cells_more x' h' n' i'' hs'')
    then show ?thesis using cells_more.hyps \<open>cell_at data i = Some x\<close> \<open>fdt32_ld x = Some h\<close> \<open>cf h = Some n\<close> \<open>cell_step i n = Some i'\<close>
        cells_more.IH by auto
  qed
qed

lemma handles_unique: "handles L d p hs \<Longrightarrow> handles L d p hs' \<Longrightarrow> hs = hs'"
  unfolding handles_def by (auto split: if_splits dest: cells_of_unique)

text \<open>The entry of a node in the table of dependencies.\<close>

lemma enter_node:
  fixes c :: "'d fdtgen_context" and b :: string
  assumes W: "world_ok W" and q: "valid (w_tree W) q" "q \<noteq> []"
  defines "c' \<equiv> c\<lparr>string_buf := b, dep_table := dep_entry (pstr (w_tree W) q) (dep_table c)\<rparr>"
  shows "recorded (w_tree W) c' = recorded (w_tree W) c" and "grown W c c'" and "map_of (dep_table c') (pstr (w_tree W) q) \<noteq> None"
    and "good W S U {} c \<Longrightarrow> q \<in> S \<Longrightarrow> good W S U {} c'"
proof -
  have look: "map_of (dep_table c') x = (if x = pstr (w_tree W) q \<and> map_of (dep_table c) x = None then Some [] else map_of (dep_table c) x)" for x
    by (auto simp: c'_def dep_entry_def map_add_def split: option.splits)
  have "(\<exists>l. map_of (dep_table c') x = Some l \<and> y \<in> fst ` set l) \<longleftrightarrow> (\<exists>l. map_of (dep_table c) x = Some l \<and> y \<in> fst ` set l)" for x y
    unfolding look by (cases "map_of (dep_table c) x") auto
  then show r: "recorded (w_tree W) c' = recorded (w_tree W) c" unfolding recorded_def by simp
  show "grown W c c'" using r look by (auto simp: grown_def c'_def)
  show "map_of (dep_table c') (pstr (w_tree W) q) \<noteq> None" using look by auto
  have s: "started (w_tree W) c' \<subseteq> insert q (started (w_tree W) c)"
  proof
    fix x assume x: "x \<in> started (w_tree W) c'"
    show "x \<in> insert q (started (w_tree W) c)"
    proof (cases "x = q")
      case False
      then have "pstr (w_tree W) x \<noteq> pstr (w_tree W) q" using x pstr_inject [OF world_names [OF W] _ q(1)] by (auto simp: started_def)
      then show ?thesis using x look by (simp add: started_def)
    qed simp
  qed
  have k: "kept (w_tree W) c' = kept (w_tree W) c" "complete W c' = complete W c" using r by (simp_all add: kept_def complete_def c'_def fun_eq_iff)
  show "good W S U {} c'" if "good W S U {} c" "q \<in> S" using that s unfolding good_def r k by (auto simp: c'_def)
qed

lemma prop_done:
  assumes W: "world_ok W" and IH: "follows W k" and q: "valid (w_tree W) q" "q \<noteq> []" "q \<in> S"
    and g: "good W S U {} c" and few: "open_refs W c \<le> k" and name: "fst p \<in> set props_with_dep"
    and h: "handles (w_lib W) (w_fdt W) p hs" "refs_known W hs"
  defines "c1 \<equiv> c\<lparr>string_buf := pstr (w_tree W) q, dep_table := dep_entry (pstr (w_tree W) q) (dep_table c)\<rparr>"
  shows "\<exists>b c'. (if fst p = ''clocks'' then fdt_task (w_lib W) (Clocks (w_pos W q) (snd p) (pstr (w_tree W) q) 0) c1
      else if fst p = ''power-domains'' then fdt_task (w_lib W) (Power_Domains (w_pos W q) (snd p) (pstr (w_tree W) q) 0) c1
      else fdt_task (w_lib W) (Single (w_pos W q) (snd p) (pstr (w_tree W) q)) c1) = Some (b, c') \<and>
    good W S U {} c' \<and> grown W c c' \<and> refs_done W c' q hs"
proof -
  note e = enter_node [where c = c and b = "pstr (w_tree W) q", OF W q(1,2), folded c1_def]
  have g1: "good W S U {} c1" by (rule e(4) [OF g q(3)])
  have few1: "open_refs W c1 \<le> k" using open_refs_mono [of W c c1] e(1) few by simp
  have up: "grown W c1 c' \<Longrightarrow> grown W c c'" for c' by (rule grown_join [OF e(2)])
  consider (c) "fst p = ''clocks''" | (p) "fst p = ''power-domains''" | (s) "fst p \<noteq> ''clocks''" "fst p \<noteq> ''power-domains''" by blast
  then show ?thesis
  proof cases
    case c
    then have "cells_of (clock_cells (w_lib W) (w_fdt W)) (snd p) 0 hs" using h(1) name by (simp add: handles_def)
    from clocks_done [OF W IH q(1,2) this g1 few1 e(3) h(2)] show ?thesis using c up by auto
  next
    case p
    then have "cells_of (domain_cells (w_lib W) (w_fdt W)) (snd p) 0 hs" using h(1) name by (simp add: handles_def)
    from domains_done [OF W IH q(1,2) this g1 few1 e(3) h(2)] show ?thesis using p up by auto
  next
    case s
    then obtain x where x: "fdt32_ld (snd p) = Some x" "hs = [x]" using h(1) name by (auto simp: handles_def)
    from single_done [OF W IH g1 few1 q(1,2) e(3) x(1)] h(2) x(2) show ?thesis using s up by auto
  qed
qed

lemma refs_known_node:
  assumes W: "world_ok W" and "subt (w_tree W) q = Some n" "p \<in> set (dprops n)" "w_need W q" "handles (w_lib W) (w_fdt W) p hs"
  shows "refs_known W hs"
proof -
  from assms obtain hs' where "handles (w_lib W) (w_fdt W) p hs'"
    "\<forall>h \<in> set hs'. \<exists>t. valid (w_tree W) t \<and> fdt_node_offset_by_phandle (w_lib W) (w_fdt W) h = w_pos W t"
    unfolding world_ok_def refs_ok_def by blast
  then have "\<exists>t. valid (w_tree W) t \<and> fdt_node_offset_by_phandle (w_lib W) (w_fdt W) h = w_pos W t" if "h \<in> set hs" for h
    using that handles_unique [OF assms(5)] by blast
  moreover have "t = [] \<or> w_need W t" if "h \<in> set hs" "valid (w_tree W) t" "fdt_node_offset_by_phandle (w_lib W) (w_fdt W) h = w_pos W t" for h t
  proof -
    have "w_dep W q t" using that assms unfolding refers_def by blast
    then show ?thesis using W assms(4) unfolding world_ok_def by blast
  qed
  ultimately show ?thesis unfolding refs_known_def by blast
qed

lemma props_done:
  assumes W: "world_ok W" and IH: "follows W k" and n: "subt (w_tree W) q = Some n" and q: "q \<noteq> []" "q \<in> S" "w_need W q"
  shows "set ps \<subseteq> set (dprops n) \<Longrightarrow> good W S U {} c \<Longrightarrow> open_refs W c \<le> k \<Longrightarrow>
    \<exists>b c'. fdt_task (w_lib W) (Props (w_pos W q) ps) c = Some (b, c') \<and> good W S U {} c' \<and> grown W c c' \<and>
      (\<forall>p \<in> set ps. \<forall>hs. handles (w_lib W) (w_fdt W) p hs \<longrightarrow> refs_done W c' q hs)"
proof (induction ps arbitrary: c)
  case Nil
  then show ?case by (subst fdt_task.simps) (auto simp: grown_refl)
next
  case (Cons p ps)
  have v: "valid (w_tree W) q" using n by simp
  have b: "buffer c = w_fdt W" using Cons.prems(2) by (simp add: good_def)
  have path: "fdt_get_path (w_lib W) (w_fdt W) (w_pos W q) buf = pstr (w_tree W) q" for buf using world_path [OF W v] q(1) by (simp add: tpath_def)
  obtain hs where hs: "handles (w_lib W) (w_fdt W) p hs" using W n Cons.prems(1) unfolding world_ok_def refs_ok_def by (metis list.set_intros(1) subsetD)
  have known: "refs_known W hs" using refs_known_node [OF W n _ q(3) hs] Cons.prems(1) by simp
  let ?c1 = "c\<lparr>string_buf := pstr (w_tree W) q, dep_table := dep_entry (pstr (w_tree W) q) (dep_table c)\<rparr>"
  let ?step = "if fst p \<in> set props_with_dep then
      (if fst p = ''clocks'' then fdt_task (w_lib W) (Clocks (w_pos W q) (snd p) (pstr (w_tree W) q) 0) ?c1
       else if fst p = ''power-domains'' then fdt_task (w_lib W) (Power_Domains (w_pos W q) (snd p) (pstr (w_tree W) q) 0) ?c1
       else fdt_task (w_lib W) (Single (w_pos W q) (snd p) (pstr (w_tree W) q)) ?c1)
    else Some (False, c)"
  have "\<exists>b1 c1. ?step = Some (b1, c1) \<and> good W S U {} c1 \<and> grown W c c1 \<and> refs_done W c1 q hs"
  proof (cases "fst p \<in> set props_with_dep")
    case True
    then show ?thesis using prop_done [OF W IH v q(1,2) Cons.prems(2,3) True hs known] by simp
  next
    case False
    then have "hs = []" using hs by (simp add: handles_def)
    then show ?thesis using False Cons.prems(2) grown_refl [of W c] by (auto simp: refs_done_def)
  qed
  then obtain b1 c1 where c1: "?step = Some (b1, c1)" "good W S U {} c1" "grown W c c1" "refs_done W c1 q hs" by blast
  have "open_refs W c1 \<le> k" using open_refs_mono [of W c c1] c1(3) Cons.prems(3) unfolding grown_def by simp
  from Cons.IH [OF _ c1(2) this] Cons.prems(1) obtain b2 c2 where
    c2: "fdt_task (w_lib W) (Props (w_pos W q) ps) c1 = Some (b2, c2)" "good W S U {} c2" "grown W c1 c2"
      "\<forall>p \<in> set ps. \<forall>hs. handles (w_lib W) (w_fdt W) p hs \<longrightarrow> refs_done W c2 q hs" by auto
  have "fdt_task (w_lib W) (Props (w_pos W q) (p # ps)) c = Option.bind ?step (\<lambda>(_, c). fdt_task (w_lib W) (Props (w_pos W q) ps) c)"
    by (subst fdt_task.simps) (cases p, simp add: Let_def b path)
  then have "fdt_task (w_lib W) (Props (w_pos W q) (p # ps)) c = Some (b2, c2)" unfolding c1(1) using c2(1) by simp
  moreover have "refs_done W c2 q hs'" if "handles (w_lib W) (w_fdt W) p hs'" for hs'
    using handles_unique [OF hs that] refs_done_grown [OF c1(4) c2(3)] by simp
  ultimately show ?case using c2(2,4) grown_join [OF c1(3) c2(3)] by auto
qed

lemma good_finish:
  assumes g: "good W (insert q S) U X c" and "complete W c q"
  shows "good W (S - {q}) U X c"
proof -
  have "x \<in> S - {q} \<or> complete W c x" if "x \<in> kept (w_tree W) c \<union> started (w_tree W) c" for x
    using that assms(2) g unfolding good_def by (cases "x = q") auto
  then show ?thesis using g unfolding good_def by simp
qed

text \<open>Following the references of a node returns, however they are connected.\<close>

lemma node_deps_ok: "world_ok W \<Longrightarrow> follows W k"
proof (induction k)
  case 0
  then show ?case by (simp add: follows_def)
next
  case (Suc k)
  have "\<exists>b c'. fdt_task (w_lib W) (Node_Deps (w_pos W q)) c = Some (b, c') \<and> good W (S - {q}) U {} c' \<and> grown W c c'"
    if g: "good W S U {} c" and few: "open_refs W c < Suc k" and q: "valid (w_tree W) q" "q = [] \<or> w_need W q" for c S U q
  proof (cases "q = []")
    case True
    have b: "root_offset c = w_pos W []" using g by (simp add: good_def)
    then have "fdt_task (w_lib W) (Node_Deps (w_pos W q)) c = Some (False, c)" using True by (subst fdt_task.simps) simp
    moreover have "good W (S - {q}) U {} c" using g True unfolding good_def kept_def started_def by auto
    ultimately show ?thesis using grown_refl [of W c] by blast
  next
    case False
    obtain n where n: "subt (w_tree W) q = Some n" using q(1) by blast
    have b: "buffer c = w_fdt W" "root_offset c = w_pos W []" using g by (simp_all add: good_def)
    have g1: "good W (insert q S) U {} c" using good_mono [OF g] by blast
    obtain b' c' where c': "fdt_task (w_lib W) (Props (w_pos W q) (dprops n)) c = Some (b', c')" "good W (insert q S) U {} c'" "grown W c c'"
        "\<forall>p \<in> set (dprops n). \<forall>hs. handles (w_lib W) (w_fdt W) p hs \<longrightarrow> refs_done W c' q hs"
      using props_done [OF Suc.prems Suc.IH [OF Suc.prems] n False _ _ subset_refl g1] q(2) False few by auto
    have "complete W c' q" using c'(4) n unfolding complete_def refers_def refs_done_def by fastforce
    then have "good W (S - {q}) U {} c'" by (rule good_finish [OF c'(2)])
    moreover have "w_pos W q \<noteq> w_pos W []" using world_off [OF Suc.prems q(1), of "[]"] False by simp
    moreover have "fdt_properties (w_lib W) (w_fdt W) (w_pos W q) = dprops n"
    proof -
      obtain tree where L: "fdt_reads (w_lib W) tree (w_off W) (w_fdt W)" and T: "w_tree W = tree (w_fdt W)" using world_reads [OF Suc.prems] by metis
      show ?thesis by (rule read_kids(5) [OF L]) (use n T in simp)
    qed
    ultimately show ?thesis using c'(1,3) b by (subst fdt_task.simps) auto
  qed
  then show ?case unfolding follows_def by blast
qed

section \<open>All nodes of the table\<close>

text \<open>Every entry is for a node of the tree and has the offset of a needed node or of the root.\<close>

definition table_ok :: "'d world \<Rightarrow> 'd fdtgen_context \<Rightarrow> bool" where
  "table_ok W c \<longleftrightarrow> distinct (map fst (nodes_table c)) \<and> (\<forall>xe \<in> set (nodes_table c). (\<exists>q. valid (w_tree W) q \<and> fst xe = pstr (w_tree W) q) \<and>
     (\<exists>q. valid (w_tree W) q \<and> (q = [] \<or> w_need W q) \<and> pn_offset (snd xe) = Some (w_pos W q)))"

lemma table_ok_grown:
  assumes "table_ok W c" "grown W c c'"
  shows "table_ok W c'"
proof -
  from assms(2) obtain ext where e: "nodes_table c' = nodes_table c @ ext" "distinct (map fst ext)" "fst ` set ext \<inter> fst ` set (nodes_table c) = {}"
    "list_all (new_entry W) ext" unfolding grown_def by blast
  have "distinct (map fst (nodes_table c'))" using assms(1) e unfolding table_ok_def by auto
  moreover have "(\<exists>q. valid (w_tree W) q \<and> fst xe = pstr (w_tree W) q) \<and> (\<exists>q. valid (w_tree W) q \<and> (q = [] \<or> w_need W q) \<and> pn_offset (snd xe) = Some (w_pos W q))"
    if "xe \<in> set (nodes_table c')" for xe
  proof (cases "xe \<in> set (nodes_table c)")
    case True
    then show ?thesis using assms(1) unfolding table_ok_def by blast
  next
    case False
    then have "new_entry W xe" using that e by (auto simp: list_all_iff)
    then show ?thesis unfolding new_entry_def by blast
  qed
  ultimately show ?thesis unfolding table_ok_def by blast
qed

lemma table_bound:
  assumes "table_ok W c"
  shows "length (nodes_table c) \<le> card {q. valid (w_tree W) q}"
proof -
  have "length (nodes_table c) = card (fst ` set (nodes_table c))" using assms distinct_card [of "map fst (nodes_table c)"] by (simp add: table_ok_def)
  also have "\<dots> \<le> card (pstr (w_tree W) ` {q. valid (w_tree W) q})"
    by (rule card_mono) (use assms finite_valid in \<open>auto simp: table_ok_def\<close>)
  also have "\<dots> \<le> card {q. valid (w_tree W) q}" by (rule card_image_le [OF finite_valid])
  finally show ?thesis .
qed

definition waiting :: "'d world \<Rightarrow> nat \<Rightarrow> nat \<Rightarrow> 'd fdtgen_context \<Rightarrow> nat list set" where
  "waiting W i N c = {q. valid (w_tree W) q \<and> (\<exists>j. i \<le> j \<and> j < N \<and> pn_offset (snd (nodes_table c ! j)) = Some (w_pos W q))}"

lemma waiting_grown: "grown W c c' \<Longrightarrow> N \<le> length (nodes_table c) \<Longrightarrow> waiting W i N c' = waiting W i N c"
  by (auto simp: waiting_def grown_def nth_append)

lemma resolve_loop_ok:
  assumes W: "world_ok W"
  shows "good W S {} {} c \<Longrightarrow> table_ok W c \<Longrightarrow> N \<le> length (nodes_table c) \<Longrightarrow> S \<subseteq> waiting W i N c \<Longrightarrow>
    \<exists>c'. resolve_loop (w_lib W) i c = Some c' \<and> good W {} {} {} c' \<and> grown W c c'"
proof (induction "card {q. valid (w_tree W) q} - i" arbitrary: i c S rule: less_induct)
  case less
  show ?case
  proof (cases "length (nodes_table c) \<le> i")
    case True
    then have "S = {}" using less.prems(3,4) by (auto simp: waiting_def)
    then show ?thesis using True less.prems(1) grown_refl [of W c] by (subst resolve_loop.simps) simp
  next
    case False
    let ?e = "snd (nodes_table c ! i)"
    obtain q where q: "valid (w_tree W) q" "q = [] \<or> w_need W q" "pn_offset ?e = Some (w_pos W q)"
    proof -
      have "nodes_table c ! i \<in> set (nodes_table c)" using False by simp
      then show ?thesis using less.prems(2) that unfolding table_ok_def by blast
    qed
    obtain b c1 where c1: "fdt_task (w_lib W) (Node_Deps (w_pos W q)) c = Some (b, c1)" "good W (S - {q}) {} {} c1" "grown W c c1"
      using node_deps_ok [OF W, of "Suc (open_refs W c)"] less.prems(1) q unfolding follows_def by blast
    have rest: "S - {q} \<subseteq> waiting W (Suc i) N c1"
    proof
      fix x assume x: "x \<in> S - {q}"
      then obtain j where j: "i \<le> j" "j < N" "pn_offset (snd (nodes_table c ! j)) = Some (w_pos W x)" "valid (w_tree W) x"
        using less.prems(4) by (auto simp: waiting_def)
      have "j \<noteq> i" using j q x world_off [OF W] by auto
      then have "Suc i \<le> j" using j(1) by simp
      then have "x \<in> waiting W (Suc i) N c" using j unfolding waiting_def by blast
      then show "x \<in> waiting W (Suc i) N c1" using waiting_grown [OF c1(3) less.prems(3)] by simp
    qed
    have N: "N \<le> length (nodes_table c1)" using c1(3) less.prems(3) by (auto simp: grown_def)
    have eq: "resolve_loop (w_lib W) i c = (if Suc i < length (nodes_table c) then resolve_loop (w_lib W) (Suc i) c1 else Some c1)"
      using False q(3) c1(1) by (subst resolve_loop.simps) (simp add: register_node_dependencies_def)
    show ?thesis
    proof (cases "Suc i < length (nodes_table c)")
      case True
      have "card {q. valid (w_tree W) q} - Suc i < card {q. valid (w_tree W) q} - i" using table_bound [OF less.prems(2)] False by simp
      from less.hyps [OF this c1(2) table_ok_grown [OF less.prems(2) c1(3)] N rest] obtain c2 where
        "resolve_loop (w_lib W) (Suc i) c1 = Some c2" "good W {} {} {} c2" "grown W c1 c2" by blast
      then show ?thesis using eq True grown_join [OF c1(3)] by auto
    next
      case last: False
      then have "S - {q} = {}" using rest less.prems(3) by (auto simp: waiting_def)
      then have "good W {} {} {} c1" using c1(2) by (simp only:)
      moreover have "resolve_loop (w_lib W) i c = Some c1" using eq last by simp
      ultimately show ?thesis using c1(3) by blast
    qed
  qed
qed

text \<open>The nodes to keep are exactly the needed ones.\<close>

lemma kept_needed:
  assumes g: "good W {} {} {} c" and need: "w_need W = needed (w_dep W) R" and R: "R \<subseteq> kept (w_tree W) c"
  shows "kept (w_tree W) c = {q. needed (w_dep W) R q}"
proof
  show "kept (w_tree W) c \<subseteq> {q. needed (w_dep W) R q}" using g need unfolding good_def by auto
  have "q \<in> kept (w_tree W) c" if "needed (w_dep W) R q" for q
    using that
  proof (induction rule: needed.induct)
    case (needed_asked q)
    then show ?case using R by blast
  next
    case (needed_above q i)
    then have "q = [] \<or> q \<in> kept (w_tree W) c" using g unfolding good_def by (metis butlast_snoc empty_iff)
    then show ?case using needed_above by blast
  next
    case (needed_ref q t)
    then have "complete W c q" using g unfolding good_def by blast
    then have "t = q \<or> (q, t) \<in> recorded (w_tree W) c" using needed_ref unfolding complete_def by blast
    then show ?case using g needed_ref unfolding good_def by auto
  qed
  then show "{q. needed (w_dep W) R q} \<subseteq> kept (w_tree W) c" by blast
qed

section \<open>From the nodes asked for to the nodes kept\<close>

text \<open>A context in which nodes of the tree have been asked for.\<close>

definition asked :: "devtree \<Rightarrow> 'd fdtgen_context \<Rightarrow> bool" where
  "asked T c \<longleftrightarrow> dep_table c = [] \<and> distinct (map fst (nodes_table c)) \<and> (\<forall>xe \<in> set (nodes_table c). pn_cnt (snd xe) = 0) \<and>
     (\<forall>x \<in> fst ` set (nodes_table c). \<exists>q. valid T q \<and> q \<noteq> [] \<and> x = pstr T q)"

definition flag_of :: "'d fdtgen_context \<Rightarrow> string \<Rightarrow> device_flag" where
  "flag_of c x = (case tab c x of None \<Rightarrow> DEVICE_KEEP | Some e \<Rightarrow> pn_flag e)"

lemma found_good:
  assumes L: "fdt_reads L tree off d" and T: "T = tree d" "wf_tree T" and refs: "refs_ok L off d T" and c: "asked T c" "buffer c = d" "root_offset c = off d []"
    and f: "found_in T (off d) {q. valid T q \<and> q \<noteq> []} c c1"
  defines "W \<equiv> \<lparr>w_lib = L, w_off = off, w_fdt = d, w_tree = T, w_need = needed (refers L off d T) (kept T c)\<rparr>"
  shows "world_ok W" and "good W (kept T c1) {} {} c1" and "table_ok W c1" and "kept T c1 \<subseteq> waiting W 0 (length (nodes_table c1)) c1"
    and "\<forall>x. tab c1 x \<noteq> None \<longrightarrow> pn_cnt (the (tab c1 x)) = 0 \<and> pn_flag (the (tab c1 x)) = flag_of c x"
proof -
  let ?V = "{q. valid T q \<and> q \<noteq> []}"
  note f' = f [unfolded found_in_def]
  have w: "w_lib W = L" "w_off W = off" "w_fdt W = d" "w_tree W = T" "w_need W = needed (refers L off d T) (kept T c)" by (simp_all add: W_def)
  show wok: "world_ok W" unfolding world_ok_def w using L T refs by (auto intro: needed.intros)
  have k1: "kept T c1 = {q. q \<in> ?V \<and> (\<exists>r. q @ r \<in> kept T c)}"
  proof -
    have "q \<in> kept T c \<Longrightarrow> q \<in> ?V \<and> (\<exists>r. q @ r \<in> kept T c)" for q by (auto simp: kept_def intro: exI [of _ "[]"])
    then show ?thesis using f' by auto
  qed
  have below: "needed (refers L off d T) (kept T c) q" if "q @ r \<in> kept T c" "q \<noteq> []" for q r
    using need_prefix [OF wok, of q r] that by (simp add: w needed_asked)
  have dep: "dep_table c1 = []" "buffer c1 = d" "root_offset c1 = off d []" using f' c by (simp_all add: same_but_nodes_def asked_def)
  have "butlast q = [] \<or> butlast q \<in> kept T c1" if "q \<in> kept T c1" for q
  proof (cases q rule: rev_cases)
    case (snoc p i)
    then show ?thesis using that valid_prefix [of T p "[i]"] unfolding k1 by auto
  qed simp
  then show "good W (kept T c1) {} {} c1"
    unfolding good_def w using dep below k1 by (auto simp: started_def recorded_def)
  have name: "\<exists>q. q \<in> kept T c1 \<and> x = pstr T q" if "tab c1 x \<noteq> None" for x
  proof (cases "x \<in> pstr T ` (?V \<inter> kept T c1)")
    case False
    then have "tab c x \<noteq> None" using that f' by auto
    then obtain q where q: "valid T q" "q \<noteq> []" "x = pstr T q" using c(1) unfolding asked_def by (metis map_of_eq_None_iff)
    then have "q \<in> kept T c1" using that by (simp add: kept_def)
    then show ?thesis using q by blast
  qed blast
  have entry: "tab c1 (pstr T q) = Some (entry_at (tab c (pstr T q)) (off d q))" if "q \<in> kept T c1" for q
  proof -
    have "q \<in> ?V \<inter> kept T c1" using that by (simp add: kept_def)
    then show ?thesis using f' by blast
  qed
  have dist: "distinct (map fst (nodes_table c1))" using f' c(1) by (simp add: asked_def)
  have off_at: "pn_offset (entry_at e x) = Some x" for e x by (simp add: entry_at_def split: option.splits)
  show "table_ok W c1"
    unfolding table_ok_def w
  proof (intro conjI dist ballI)
    fix xe assume xe: "xe \<in> set (nodes_table c1)"
    then have m: "tab c1 (fst xe) = Some (snd xe)" using dist by simp
    then obtain q where q: "q \<in> kept T c1" "fst xe = pstr T q" using name [of "fst xe"] by auto
    have v: "valid T q" "needed (refers L off d T) (kept T c) q" using q(1) below unfolding k1 by auto
    show "\<exists>q. valid T q \<and> fst xe = pstr T q" using v q by blast
    have "snd xe = entry_at (tab c (pstr T q)) (off d q)" using m entry [OF q(1)] q(2) by simp
    then have "pn_offset (snd xe) = Some (off d q)" using off_at by metis
    then show "\<exists>q. valid T q \<and> (q = [] \<or> needed (refers L off d T) (kept T c) q) \<and> pn_offset (snd xe) = Some (off d q)" using v by blast
  qed
  show "kept T c1 \<subseteq> waiting W 0 (length (nodes_table c1)) c1"
  proof
    fix q assume q: "q \<in> kept T c1"
    then have "(pstr T q, entry_at (tab c (pstr T q)) (off d q)) \<in> set (nodes_table c1)" using map_of_SomeD [OF entry] by blast
    then obtain j where "j < length (nodes_table c1)" "nodes_table c1 ! j = (pstr T q, entry_at (tab c (pstr T q)) (off d q))"
      by (auto simp: in_set_conv_nth)
    then show "q \<in> waiting W 0 (length (nodes_table c1)) c1" using q off_at unfolding waiting_def w by (auto simp: kept_def)
  qed
  show "\<forall>x. tab c1 x \<noteq> None \<longrightarrow> pn_cnt (the (tab c1 x)) = 0 \<and> pn_flag (the (tab c1 x)) = flag_of c x"
  proof (intro allI impI)
    fix x assume "tab c1 x \<noteq> None"
    then obtain q where q: "q \<in> kept T c1" "x = pstr T q" using name by blast
    have "pn_cnt e = 0" if "tab c x = Some e" for e using that c(1) map_of_SomeD unfolding asked_def by fastforce
    then show "pn_cnt (the (tab c1 x)) = 0 \<and> pn_flag (the (tab c1 x)) = flag_of c x"
      using entry [OF q(1)] q(2) by (auto simp: entry_at_def flag_of_def split: option.splits)
  qed
qed

lemma keep_phase_ok:
  assumes L: "fdt_reads L tree off d" and T: "T = tree d" "wf_tree T" and refs: "refs_ok L off d T"
    and c: "asked T c" "buffer c = d" "root_offset c = off d []" "string_buf c = []"
  shows "\<exists>b c1 c2. find_nodes_to_keep L (off d []) c = Some (b, c1) \<and> resolve_all_dependencies L c1 = Some c2 \<and>
    buffer c2 = d \<and> root_offset c2 = off d [] \<and> bufsize c2 = bufsize c \<and> distinct (map fst (nodes_table c2)) \<and>
    (\<forall>x. tab c2 x \<noteq> None \<longleftrightarrow> (\<exists>q. needed (refers L off d T) (kept T c) q \<and> x = pstr T q)) \<and>
    (\<forall>x e. tab c2 x = Some e \<longrightarrow> pn_cnt e = 0 \<and> pn_flag e = flag_of c x) \<and> {q. needed (refers L off d T) (kept T c) q} \<subseteq> {q. valid T q \<and> q \<noteq> []}"
proof -
  from find_nodes_ok [OF L T c(2,4)] obtain b c1 where f: "find_nodes_to_keep L (off d []) c = Some (b, c1)"
    "found_in T (off d) {q. valid T q \<and> q \<noteq> []} c c1" by blast
  define W where "W = \<lparr>w_lib = L, w_off = off, w_fdt = d, w_tree = T, w_need = needed (refers L off d T) (kept T c)\<rparr>"
  have w: "w_lib W = L" "w_off W = off" "w_fdt W = d" "w_tree W = T" "w_need W = needed (refers L off d T) (kept T c)" by (simp_all add: W_def)
  note g = found_good [OF L T refs c(1-3) f(2), folded W_def]
  from resolve_loop_ok [OF g(1-3) order_refl g(4)] obtain c2 where
    c2: "resolve_loop L 0 c1 = Some c2" "good W {} {} {} c2" "grown W c1 c2" by (auto simp: w)
  have "kept T c \<subseteq> kept T c2" using f(2) grown_kept [OF c2(3)] unfolding found_in_def w by blast
  then have k2: "kept T c2 = {q. needed (refers L off d T) (kept T c) q}" using kept_needed [OF c2(2), of "kept T c"] by (simp add: w)
  note t2 = table_ok_grown [OF g(3) c2(3)]
  obtain ext where ext: "nodes_table c2 = nodes_table c1 @ ext" "list_all (new_entry W) ext" "bufsize c2 = bufsize c1"
    "fst ` set ext \<inter> fst ` set (nodes_table c1) = {}"
    using c2(3) unfolding grown_def by blast
  have app: "tab c2 x = (case tab c1 x of None \<Rightarrow> map_of ext x | Some e \<Rightarrow> Some e)" for x
    using ext(1) by (simp add: map_add_def split: option.splits)
  have name: "\<exists>q. valid T q \<and> q \<noteq> [] \<and> x = pstr T q" if x: "tab c2 x \<noteq> None" for x
  proof (cases "tab c1 x")
    case None
    then obtain e where "map_of ext x = Some e" using x app [of x] by auto
    then have "(x, e) \<in> set ext" by (rule map_of_SomeD)
    then have "new_entry W (x, e)" using ext(2) unfolding list_all_iff by blast
    then show ?thesis unfolding new_entry_def w fst_conv by blast
  next
    case (Some e)
    show ?thesis
    proof (cases "x \<in> pstr T ` ({q. valid T q \<and> q \<noteq> []} \<inter> kept T c1)")
      case False
      then have "tab c x = Some e" using Some f(2) unfolding found_in_def by auto
      then show ?thesis using c(1) unfolding asked_def by (metis map_of_eq_None_iff option.distinct(1))
    qed auto
  qed
  have dom2: "tab c2 x \<noteq> None \<longleftrightarrow> (\<exists>q. needed (refers L off d T) (kept T c) q \<and> x = pstr T q)" for x
  proof -
    have "tab c2 x \<noteq> None \<longleftrightarrow> (\<exists>q \<in> kept T c2. x = pstr T q)" using name unfolding kept_def by blast
    then show ?thesis unfolding k2 by blast
  qed
  have flags: "pn_cnt e = 0 \<and> pn_flag e = flag_of c x" if e: "tab c2 x = Some e" for x e
  proof (cases "tab c1 x")
    case None
    then have "(x, e) \<in> set ext" using e app [of x] map_of_SomeD [of ext x] by simp
    then have "pn_cnt e = 0 \<and> pn_flag e = DEVICE_KEEP" using ext(2) by (auto simp: list_all_iff new_entry_def)
    moreover have "tab c x = None"
    proof (rule ccontr)
      assume x: "tab c x \<noteq> None"
      show False
      proof (cases "x \<in> pstr T ` ({q. valid T q \<and> q \<noteq> []} \<inter> kept T c1)")
        case True
        then show False using None by (auto simp: kept_def)
      next
        case False
        then show False using None x f(2) unfolding found_in_def by auto
      qed
    qed
    ultimately show ?thesis by (simp add: flag_of_def)
  next
    case (Some e1)
    then have "e1 = e" using grown_tab [OF c2(3) Some] e by simp
    then show ?thesis using g(5) Some by (metis option.distinct(1) option.sel)
  qed
  have "buffer c2 = d" "root_offset c2 = off d []" using c2(2) unfolding good_def w by simp_all
  moreover have "bufsize c2 = bufsize c" using ext(3) f(2) by (simp add: found_in_def same_but_nodes_def)
  moreover have "distinct (map fst (nodes_table c2))" using t2 by (simp add: table_ok_def)
  moreover have "{q. needed (refers L off d T) (kept T c) q} \<subseteq> {q. valid T q \<and> q \<noteq> []}" unfolding k2 [symmetric] by (auto simp: kept_def)
  ultimately show ?thesis using f(1) c2(1) dom2 flags unfolding resolve_all_dependencies_def by blast
qed

end
