(* ===== verification/Fdtgen_Trim.thy ===== *)
theory Fdtgen_Trim
  imports Fdtgen_Find
begin

text \<open>
  Trimming a device tree in theory \<open>Fdtgen\<close>: nodes that are not in the table are deleted, nodes that are to be disabled get their property, and although every such
  change makes the loop start again, it ends with the pruned tree.
\<close>

section \<open>Changing a tree\<close>

text \<open>Positions in the order in which a flattened tree stores nodes: a node before those below it and before its later siblings.\<close>

fun before :: "nat list \<Rightarrow> nat list \<Rightarrow> bool" where
  "before p [] = False"
| "before [] (j # q) = True"
| "before (i # p) (j # q) = (i < j \<or> i = j \<and> before p q)"

definition del_kid :: "nat \<Rightarrow> devtree \<Rightarrow> devtree" where
  "del_kid i n = DNode (dprops n) (take i (kids n) @ drop (Suc i) (kids n))"

fun put_at :: "nat list \<Rightarrow> devtree \<Rightarrow> devtree \<Rightarrow> devtree" where
  "put_at [] m n = m"
| "put_at (i # p) m n = DNode (dprops n) ((kids n)[i := (fst (kids n ! i), put_at p m (snd (kids n ! i)))])"

text \<open>A property that exists is changed, a new one becomes the first.\<close>

definition set_prop :: "string \<Rightarrow> bytes \<Rightarrow> devtree \<Rightarrow> devtree" where
  "set_prop k v n = DNode (if map_of (dprops n) k = None then (k, v) # dprops n else AList.update k v (dprops n)) (kids n)"

definition c_bytes :: "string \<Rightarrow> bytes" where
  "c_bytes s = map of_char s @ [0]"

abbreviation disable :: "devtree \<Rightarrow> devtree" where
  "disable \<equiv> set_prop ''status'' (c_bytes ''disabled'')"

text \<open>
  What the library promises about changing a tree that it accepts in a buffer of size \<open>sz\<close>: a node can be deleted, and while there is room its status can be set;
  just that changes, the offsets of all nodes stored before it are kept, for a property also its own, and the result is accepted as well.
\<close>

definition fdt_edits :: "'d libfdt \<Rightarrow> ('d \<Rightarrow> devtree) \<Rightarrow> ('d \<Rightarrow> nat list \<Rightarrow> int) \<Rightarrow> ('d \<Rightarrow> nat) \<Rightarrow> int \<Rightarrow> 'd \<Rightarrow> bool" where
  "fdt_edits L tree off room sz d \<longleftrightarrow> (\<forall>p i n k. subt (tree d) p = Some n \<and> subt (tree d) (p @ [i]) = Some k \<longrightarrow>
     (\<exists>d'. fdt_del_node L d (off d (p @ [i])) = (0, d') \<and> tree d' = put_at p (del_kid i n) (tree d) \<and>
        (\<forall>q. before q (p @ [i]) \<longrightarrow> off d' q = off d q) \<and> room d \<le> room d' \<and> fdt_check_full L d' sz = 0) \<and>
     (0 < room d \<longrightarrow> (\<exists>d'. fdt_setprop_string L d (off d (p @ [i])) ''status'' ''disabled'' = (0, d') \<and>
        tree d' = put_at (p @ [i]) (disable k) (tree d) \<and>
        (\<forall>q. before q (p @ [i]) \<or> q = p @ [i] \<longrightarrow> off d' q = off d q) \<and> room d \<le> Suc (room d') \<and> fdt_check_full L d' sz = 0)))"

definition fdt_law :: "'d libfdt \<Rightarrow> ('d \<Rightarrow> devtree) \<Rightarrow> ('d \<Rightarrow> nat list \<Rightarrow> int) \<Rightarrow> ('d \<Rightarrow> nat) \<Rightarrow> int \<Rightarrow> bool" where
  "fdt_law L tree off room sz \<longleftrightarrow> (\<forall>d. fdt_check_full L d sz = 0 \<longrightarrow> fdt_reads L tree off d \<and> fdt_edits L tree off room sz d)"

lemma before_below: "before p (p @ j # r)"
  by (induction p) auto

lemma before_trans_below: "before q p \<Longrightarrow> before q (p @ r)"
  by (induction q p rule: before.induct) auto

lemma before_kid: "q = p \<or> before q p \<Longrightarrow> before q (p @ [i])"
  using before_below [of p i "[]"] before_trans_below [of q p "[i]"] by auto

lemma subt_put: "subt T p = Some n \<Longrightarrow> subt (put_at p m T) (p @ q) = subt m q"
  by (induction T p rule: subt.induct) (auto split: if_splits)

lemma subt_put_self: "subt T p = Some n \<Longrightarrow> subt (put_at p m T) p = Some m"
  using subt_put [of T p n m "[]"] by simp

lemma pstr_put: "subt T p = Some n \<Longrightarrow> pstr (put_at p m T) p = pstr T p"
  by (induction T p rule: subt.induct) (auto split: if_splits)

lemma put_put: "subt T p = Some n \<Longrightarrow> put_at p a (put_at p b T) = put_at p a T"
  by (induction T p rule: subt.induct) (auto split: if_splits)

lemma put_same: "subt T p = Some n \<Longrightarrow> put_at p n T = T"
proof (induction T p rule: subt.induct)
  case (2 n' i p)
  then show ?case by (cases n') (auto split: if_splits)
qed simp

lemma put_snoc: "subt T p = Some n \<Longrightarrow> put_at (p @ [i]) m T = put_at p (put_at [i] m n) T"
  by (induction T p rule: subt.induct) (auto split: if_splits)

lemma put_props: "p \<noteq> [] \<Longrightarrow> dprops (put_at p m T) = dprops T"
  by (cases p) simp_all

lemma set_prop_kids [simp]: "kids (set_prop k v n) = kids n"
  by (simp add: set_prop_def)

lemma set_prop_get: "map_of (dprops (set_prop k v n)) k = Some v"
  by (simp add: set_prop_def update_conv')

lemma set_prop_id: "set_prop k v n = n \<longleftrightarrow> map_of (dprops n) k = Some v"
proof
  assume "set_prop k v n = n"
  then show "map_of (dprops n) k = Some v" using set_prop_get [of k v n] by simp
next
  have same: "map_of t x = Some y \<Longrightarrow> AList.update x y t = t" for t x and y :: bytes by (induction t) (auto split: if_splits)
  assume "map_of (dprops n) k = Some v"
  then show "set_prop k v n = n" by (cases n) (simp add: set_prop_def same)
qed

lemma set_prop_idem: "set_prop k v (set_prop k v n) = set_prop k v n"
  using set_prop_get [of k v n] by (simp add: set_prop_id)

section \<open>Pruned trees\<close>

definition mark :: "device_flag option \<Rightarrow> devtree \<Rightarrow> devtree" where
  "mark f n = (if f = Some DEVICE_KEEP_AND_DISABLE then disable n else n)"

text \<open>\<open>K\<close> gives the paths to be kept and whether they are to be disabled, and \<open>x\<close> is the path of the node.\<close>

function prune :: "(string \<Rightarrow> device_flag option) \<Rightarrow> string \<Rightarrow> devtree \<Rightarrow> devtree" where
  "prune K x n = DNode (dprops n)
     (map (\<lambda>k. (fst k, mark (K (x @ ''/'' @ fst k)) (prune K (x @ ''/'' @ fst k) (snd k)))) (filter (\<lambda>k. K (x @ ''/'' @ fst k) \<noteq> None) (kids n)))"
  by pat_completeness auto

lemma tsize_member: "k \<in> set (kids n) \<Longrightarrow> tsize (snd k) < tsize n"
  using member_le_sum_list [of "tsize (snd k)" "map (\<lambda>k. tsize (snd k)) (kids n)"] by (simp add: tsize_rest [of n] rest_def)

termination prune
  by (relation "measure (\<lambda>(K, x, n). tsize n)") (auto simp: tsize_member)

declare prune.simps [simp del]

definition pruned_kid :: "(string \<Rightarrow> device_flag option) \<Rightarrow> string \<Rightarrow> string \<times> devtree \<Rightarrow> string \<times> devtree" where
  "pruned_kid K x k = (fst k, mark (K (x @ ''/'' @ fst k)) (prune K (x @ ''/'' @ fst k) (snd k)))"

definition keeps :: "(string \<Rightarrow> device_flag option) \<Rightarrow> string \<Rightarrow> string \<times> devtree \<Rightarrow> bool" where
  "keeps K x k \<longleftrightarrow> K (x @ ''/'' @ fst k) \<noteq> None"

lemma prune_eq: "prune K x n = DNode (dprops n) (map (pruned_kid K x) (filter (keeps K x) (kids n)))"
  by (subst prune.simps) (simp add: pruned_kid_def [abs_def] keeps_def [abs_def])

lemma keeps_pruned [simp]: "keeps K x (pruned_kid K x k) = keeps K x k"
  by (simp add: keeps_def pruned_kid_def)

lemma prune_set_prop: "prune K x (set_prop k v n) = set_prop k v (prune K x n)"
  by (simp add: prune_eq set_prop_def)

lemma prune_mark: "prune K x (mark f n) = mark f (prune K x n)"
  by (simp add: mark_def prune_set_prop)

lemma mark_idem: "mark f (mark f n) = mark f n"
  by (simp add: mark_def set_prop_idem)

lemma prune_idem: "prune K x (prune K x n) = prune K x n"
proof (induction n arbitrary: x rule: measure_induct_rule [where f = tsize])
  case (less n)
  have "pruned_kid K x (pruned_kid K x k) = pruned_kid K x k" if "k \<in> set (kids n)" for k
    using less [OF tsize_member [OF that]] by (simp add: pruned_kid_def prune_mark mark_idem)
  then have "map (pruned_kid K x) (filter (keeps K x) (map (pruned_kid K x) (filter (keeps K x) (kids n)))) = map (pruned_kid K x) (filter (keeps K x) (kids n))"
    by (simp add: filter_map o_def)
  then show ?case by (simp add: prune_eq)
qed

definition settled :: "(string \<Rightarrow> device_flag option) \<Rightarrow> string \<Rightarrow> string \<times> devtree \<Rightarrow> bool" where
  "settled K x k \<longleftrightarrow> keeps K x k \<and> pruned_kid K x k = k"

lemma prune_settled: "\<forall>k \<in> set (kids n). settled K x k \<Longrightarrow> prune K x n = n"
  by (cases n) (auto simp: prune_eq settled_def intro: map_idI)

lemma kids_split: "i < length ks \<Longrightarrow> ks = take i ks @ ks ! i # drop (Suc i) ks"
  by (rule id_take_nth_drop)

lemma prune_del:
  assumes "i < length (kids n)" "\<not> keeps K x (kids n ! i)"
  shows "prune K x (del_kid i n) = prune K x n"
proof -
  have "filter (keeps K x) (kids n) = filter (keeps K x) (take i (kids n) @ drop (Suc i) (kids n))"
    using assms by (subst kids_split [OF assms(1)]) simp
  then show ?thesis by (simp add: prune_eq del_kid_def)
qed

lemma prune_put:
  assumes "i < length (kids n)" "pruned_kid K x (fst (kids n ! i), m) = pruned_kid K x (kids n ! i)"
  shows "prune K x (put_at [i] m n) = prune K x n"
proof -
  have k: "keeps K x (fst (kids n ! i), m) = keeps K x (kids n ! i)" by (simp add: keeps_def)
  have "map (pruned_kid K x) (filter (keeps K x) (take i (kids n) @ (fst (kids n ! i), m) # drop (Suc i) (kids n))) =
    map (pruned_kid K x) (filter (keeps K x) (take i (kids n) @ (kids n ! i) # drop (Suc i) (kids n)))" using assms(2) k by simp
  then show ?thesis using assms(1) kids_split [OF assms(1)] by (simp add: prune_eq upd_conv_take_nth_drop)
qed

section \<open>Invariant\<close>

text \<open>Nodes that have been counted and are to be disabled are.\<close>

definition marked :: "'d fdtgen_context \<Rightarrow> devtree \<Rightarrow> bool" where
  "marked c T \<longleftrightarrow> (\<forall>q m e. subt T q = Some m \<and> q \<noteq> [] \<and> tab c (pstr T q) = Some e \<and> pn_flag e = DEVICE_KEEP_AND_DISABLE \<and> pn_cnt e \<noteq> 0 \<longrightarrow> disable m = m)"

definition flags :: "'d fdtgen_context \<Rightarrow> string \<Rightarrow> device_flag option" where
  "flags c x = map_option pn_flag (tab c x)"

definition to_disable :: "'d fdtgen_context \<Rightarrow> nat" where
  "to_disable c = length (filter (\<lambda>(x, e). pn_flag e = DEVICE_KEEP_AND_DISABLE \<and> pn_cnt e = 0) (nodes_table c))"

text \<open>A tree whose nodes are nodes of another, with the same paths and properties and fewer children.\<close>

definition part_of :: "devtree \<Rightarrow> devtree \<Rightarrow> bool" where
  "part_of n' n \<longleftrightarrow> (\<forall>q m'. subt n' q = Some m' \<longrightarrow> (\<exists>q0 m. subt n q0 = Some m \<and> (q0 = [] \<longleftrightarrow> q = []) \<and> pstr n q0 = pstr n' q \<and> dprops m = dprops m' \<and>
     set (map fst (kids m')) \<subseteq> set (map fst (kids m)) \<and> (distinct (map fst (kids m)) \<longrightarrow> distinct (map fst (kids m')))))"

lemma part_of_refl: "part_of n n"
  unfolding part_of_def by blast

lemma part_of_kids:
  assumes "dprops n' = dprops n" and "set (map fst (kids n')) \<subseteq> set (map fst (kids n))" and "distinct (map fst (kids n)) \<longrightarrow> distinct (map fst (kids n'))"
    and "\<And>i. i < length (kids n') \<Longrightarrow> \<exists>j < length (kids n). fst (kids n ! j) = fst (kids n' ! i) \<and> part_of (snd (kids n' ! i)) (snd (kids n ! j))"
  shows "part_of n' n"
  unfolding part_of_def
proof (intro allI impI)
  fix q m' assume q: "subt n' q = Some m'"
  show "\<exists>q0 m. subt n q0 = Some m \<and> (q0 = [] \<longleftrightarrow> q = []) \<and> pstr n q0 = pstr n' q \<and> dprops m = dprops m' \<and>
     set (map fst (kids m')) \<subseteq> set (map fst (kids m)) \<and> (distinct (map fst (kids m)) \<longrightarrow> distinct (map fst (kids m')))"
  proof (cases q)
    case Nil
    then show ?thesis using q assms(1-3) by (intro exI [of _ "[]"] exI [of _ n]) simp
  next
    case (Cons i r)
    then have i: "i < length (kids n')" "subt (snd (kids n' ! i)) r = Some m'" using q by (auto split: if_splits)
    from assms(4) [OF i(1)] obtain j where j: "j < length (kids n)" "fst (kids n ! j) = fst (kids n' ! i)" "part_of (snd (kids n' ! i)) (snd (kids n ! j))" by blast
    from j(3) i(2) obtain q0 m where m: "subt (snd (kids n ! j)) q0 = Some m" "pstr (snd (kids n ! j)) q0 = pstr (snd (kids n' ! i)) r" "dprops m = dprops m'"
      "set (map fst (kids m')) \<subseteq> set (map fst (kids m))" "distinct (map fst (kids m)) \<longrightarrow> distinct (map fst (kids m'))" unfolding part_of_def by blast
    then have "subt n (j # q0) = Some m" "pstr n (j # q0) = pstr n' q" using j Cons by simp_all
    then show ?thesis using m(3-5) Cons by blast
  qed
qed

lemma part_of_del: "part_of (del_kid i n) n"
proof (rule part_of_kids)
  show "dprops (del_kid i n) = dprops n" by (simp add: del_kid_def)
  show "set (map fst (kids (del_kid i n))) \<subseteq> set (map fst (kids n))" by (auto simp: del_kid_def dest: in_set_takeD in_set_dropD)
  show "distinct (map fst (kids n)) \<longrightarrow> distinct (map fst (kids (del_kid i n)))"
    by (auto simp: del_kid_def take_map [symmetric] drop_map [symmetric] set_take_disj_set_drop_if_distinct)
  fix j assume j: "j < length (kids (del_kid i n))"
  show "\<exists>l < length (kids n). fst (kids n ! l) = fst (kids (del_kid i n) ! j) \<and> part_of (snd (kids (del_kid i n) ! j)) (snd (kids n ! l))"
  proof (cases "j < i")
    case True
    then show ?thesis using j part_of_refl by (intro exI [of _ j]) (auto simp: del_kid_def nth_append)
  next
    case False
    then show ?thesis using j part_of_refl by (intro exI [of _ "Suc j"]) (auto simp: del_kid_def nth_append min_def split: if_splits)
  qed
qed

lemma part_of_put: "subt T p = Some n \<Longrightarrow> part_of m n \<Longrightarrow> part_of (put_at p m T) T"
proof (induction T p rule: subt.induct)
  case (2 t i p)
  then have i: "i < length (kids t)" and IH: "part_of (put_at p m (snd (kids t ! i))) (snd (kids t ! i))" by (auto split: if_splits)
  have names: "map fst (kids (put_at (i # p) m t)) = map fst (kids t)" using list_update_id [of "map fst (kids t)" i] i by (simp add: map_update)
  show ?case
  proof (rule part_of_kids)
    fix j assume "j < length (kids (put_at (i # p) m t))"
    then show "\<exists>l < length (kids t). fst (kids t ! l) = fst (kids (put_at (i # p) m t) ! j) \<and> part_of (snd (kids (put_at (i # p) m t) ! j)) (snd (kids t ! l))"
      using IH part_of_refl i by (intro exI [of _ j]) (cases "j = i"; simp)
  qed (use names in \<open>simp_all del: put_at.simps add: put_props\<close>)
qed simp

lemma part_of_wf:
  assumes "part_of T' T" "wf_tree T"
  shows "wf_tree T'"
  unfolding wf_tree_def
proof (intro allI impI)
  fix q m' assume "subt T' q = Some m'"
  with assms(1) obtain q0 m where m: "subt T q0 = Some m" "pstr T q0 = pstr T' q" "set (map fst (kids m')) \<subseteq> set (map fst (kids m))"
    "distinct (map fst (kids m)) \<longrightarrow> distinct (map fst (kids m'))" unfolding part_of_def by blast
  from assms(2) m(1) have w: "distinct (map fst (kids m))" "\<forall>k \<in> set (kids m). fst k \<noteq> [] \<and> CHR ''/'' \<notin> set (fst k)" "length (pstr T q0) < MAX_FULL_PATH_LENGTH"
    unfolding wf_tree_def by blast+
  have "fst k \<noteq> [] \<and> CHR ''/'' \<notin> set (fst k)" if "k \<in> set (kids m')" for k
  proof -
    have "fst k \<in> set (map fst (kids m))" using m(3) that by auto
    then show ?thesis using w(2) by auto
  qed
  then show "distinct (map fst (kids m')) \<and> (\<forall>k \<in> set (kids m'). fst k \<noteq> [] \<and> CHR ''/'' \<notin> set (fst k)) \<and> length (pstr T' q) < MAX_FULL_PATH_LENGTH"
    using w m(2,4) by simp
qed

lemma part_of_marked:
  assumes "part_of T' T" "marked c T"
  shows "marked c T'"
  unfolding marked_def
proof (intro allI impI, elim conjE)
  fix q m' e assume h: "subt T' q = Some m'" "q \<noteq> []" "tab c (pstr T' q) = Some e" "pn_flag e = DEVICE_KEEP_AND_DISABLE" "pn_cnt e \<noteq> 0"
  with assms(1) obtain q0 m where m: "subt T q0 = Some m" "q0 = [] \<longleftrightarrow> q = []" "pstr T q0 = pstr T' q" "dprops m = dprops m'" unfolding part_of_def by blast
  have "disable m = m" using assms(2) m h unfolding marked_def by metis
  then show "disable m' = m'" using m(4) by (simp add: set_prop_id)
qed

text \<open>Disabling a node changes just its properties.\<close>

lemma put_leaf:
  assumes "subt T u = Some k" "kids k' = kids k"
  shows "subt (put_at u k' T) q = Some m' \<Longrightarrow> (if q = u then m' = k' else \<exists>m. subt T q = Some m \<and> dprops m = dprops m') \<and> pstr (put_at u k' T) q = pstr T q \<and>
    (\<exists>m. subt T q = Some m \<and> map fst (kids m') = map fst (kids m))"
  using assms
proof (induction T u arbitrary: q rule: subt.induct)
  case (1 t)
  then have t: "kids k' = kids t" and q: "subt k' q = Some m'" by simp_all
  show ?case
  proof (cases q)
    case Nil
    then show ?thesis using t q by simp
  next
    case (Cons j r)
    then have "subt t q = Some m'" "pstr k' q = pstr t q" using t q by (simp_all split: if_splits)
    then show ?thesis using Cons by simp
  qed
next
  case (2 t i p)
  then have i: "i < length (kids t)" "subt (snd (kids t ! i)) p = Some k" by (auto split: if_splits)
  have names: "map fst (kids (put_at (i # p) k' t)) = map fst (kids t)" using list_update_id [of "map fst (kids t)" i] i by (simp add: map_update)
  show ?case
  proof (cases q)
    case Nil
    then show ?thesis using "2.prems"(1) names by (auto simp: put_props simp del: put_at.simps)
  next
    case (Cons j r)
    show ?thesis
    proof (cases "j = i")
      case True
      then have "subt (put_at p k' (snd (kids t ! i))) r = Some m'" using "2.prems"(1) Cons i by simp
      from "2.IH" [OF i(1) this i(2) "2.prems"(3)] show ?thesis using Cons True i by simp
    next
      case False
      then show ?thesis using "2.prems"(1) Cons i by (auto split: if_splits)
    qed
  qed
qed

lemma disable_wf:
  assumes "subt T u = Some k" "wf_tree T"
  shows "wf_tree (put_at u (disable k) T)"
  unfolding wf_tree_def
proof (intro allI impI)
  fix q m' assume "subt (put_at u (disable k) T) q = Some m'"
  from put_leaf [OF assms(1) set_prop_kids this] obtain m where m: "pstr (put_at u (disable k) T) q = pstr T q" "subt T q = Some m" "map fst (kids m') = map fst (kids m)" by blast
  have "fst k \<noteq> [] \<and> CHR ''/'' \<notin> set (fst k)" if "k \<in> set (kids m')" for k
  proof -
    have "fst k \<in> set (map fst (kids m))" unfolding m(3) [symmetric] using that by simp
    then obtain k0 where k0: "k0 \<in> set (kids m)" "fst k0 = fst k" by auto
    have "\<forall>k \<in> set (kids m). fst k \<noteq> [] \<and> CHR ''/'' \<notin> set (fst k)" using m(2) assms(2) unfolding wf_tree_def by blast
    then show ?thesis using k0 by metis
  qed
  then show "distinct (map fst (kids m')) \<and> (\<forall>k \<in> set (kids m'). fst k \<noteq> [] \<and> CHR ''/'' \<notin> set (fst k)) \<and> length (pstr (put_at u (disable k) T) q) < MAX_FULL_PATH_LENGTH"
    using m assms(2) unfolding wf_tree_def by simp
qed

lemma tsize_put:
  assumes "subt T p = Some n"
  shows "tsize (put_at p m T) + tsize n = tsize T + tsize m"
  using assms
proof (induction T p rule: subt.induct)
  case (2 t i p)
  then have i: "i < length (kids t)" and IH: "tsize (put_at p m (snd (kids t ! i))) + tsize n = tsize (snd (kids t ! i)) + tsize m" by (auto split: if_splits)
  have split: "sum_list (map (\<lambda>k. tsize (snd k)) ks) = sum_list (map (\<lambda>k. tsize (snd k)) (take i ks)) + tsize (snd (ks ! i)) + sum_list (map (\<lambda>k. tsize (snd k)) (drop (Suc i) ks))"
    if "i < length ks" for ks :: "(string \<times> devtree) list" using arg_cong [OF kids_split [OF that], of "\<lambda>ks. sum_list (map (\<lambda>k. tsize (snd k)) ks)"] by simp
  show ?case using IH i split [of "kids t"] split [of "(kids t)[i := (fst (kids t ! i), put_at p m (snd (kids t ! i)))]"]
    by (simp add: tsize_rest [of t] rest_def)
qed simp

lemma tsize_disable [simp]: "tsize (disable n) = tsize n"
  by (simp add: tsize_rest [of "disable n"] tsize_rest [of n] rest_def)

lemma tsize_del: "i < length (kids n) \<Longrightarrow> tsize (del_kid i n) < tsize n"
  using arg_cong [OF kids_split [of i "kids n"], of "\<lambda>ks. sum_list (map (\<lambda>k. tsize (snd k)) ks)"] tsize_rest [of "snd (kids n ! i)"]
  by (simp add: tsize_rest [of n] rest_def del_kid_def)

section \<open>Steps\<close>

definition trim_ok :: "'d libfdt \<Rightarrow> ('d \<Rightarrow> devtree) \<Rightarrow> ('d \<Rightarrow> nat) \<Rightarrow> int \<Rightarrow> (string \<Rightarrow> device_flag option) \<Rightarrow> 'd fdtgen_context \<Rightarrow> bool" where
  "trim_ok L tree room sz K c \<longleftrightarrow> fdt_check_full L (buffer c) sz = 0 \<and> wf_tree (tree (buffer c)) \<and> marked c (tree (buffer c)) \<and> flags c = K \<and>
     to_disable c \<le> room (buffer c) \<and> (\<forall>xe \<in> set (nodes_table c). 0 \<le> pn_cnt (snd xe))"

lemma trim_ok_buf [simp]: "trim_ok L tree room sz K (c\<lparr>string_buf := s\<rparr>) = trim_ok L tree room sz K c"
  by (simp add: trim_ok_def flags_def to_disable_def marked_def fun_eq_iff)

definition counted :: "string \<Rightarrow> 'd fdtgen_context \<Rightarrow> 'd fdtgen_context" where
  "counted b c = c\<lparr>string_buf := b, nodes_table := update_node b (\<lambda>n. n\<lparr>pn_cnt := pn_cnt n + 1\<rparr>) (nodes_table c)\<rparr>"

lemma counted_simps [simp]: "buffer (counted b c) = buffer c" "string_buf (counted b c) = b" "root_offset (counted b c) = root_offset c" "bufsize (counted b c) = bufsize c"
  by (simp_all add: counted_def)

lemma tab_counted: "tab c b = Some e \<Longrightarrow> tab (counted b c) = (tab c)(b \<mapsto> e\<lparr>pn_cnt := pn_cnt e + 1\<rparr>)"
  by (simp add: counted_def update_node_def update_conv')

lemma flags_counted: "tab c b = Some e \<Longrightarrow> flags (counted b c) = flags c"
  by (auto simp: flags_def tab_counted)

lemma filter_update:
  "map_of t b = Some e \<Longrightarrow> length (filter P (AList.update b e' t)) + of_bool (P (b, e)) = length (filter P t) + of_bool (P (b, e'))"
  by (induction t) (auto split: if_splits)

lemma to_disable_counted:
  assumes "tab c b = Some e" "0 \<le> pn_cnt e"
  shows "to_disable (counted b c) \<le> to_disable c"
    and "pn_flag e = DEVICE_KEEP_AND_DISABLE \<Longrightarrow> pn_cnt e = 0 \<Longrightarrow> to_disable c = Suc (to_disable (counted b c))"
  using filter_update [OF assms(1), of "\<lambda>(x, e). pn_flag e = DEVICE_KEEP_AND_DISABLE \<and> pn_cnt e = 0" "e\<lparr>pn_cnt := pn_cnt e + 1\<rparr>"] assms
  by (simp_all add: to_disable_def counted_def update_node_def)

lemma counts_counted:
  assumes "tab c b = Some e" "\<forall>xe \<in> set (nodes_table c). 0 \<le> pn_cnt (snd xe)"
  shows "\<forall>xe \<in> set (nodes_table (counted b c)). 0 \<le> pn_cnt (snd xe)"
proof
  fix xe assume xe: "xe \<in> set (nodes_table (counted b c))"
  have "set (AList.update b v t) \<subseteq> insert (b, v) (set t)" for v and t :: nodes by (induction t) auto
  then have "xe \<in> insert (b, e\<lparr>pn_cnt := pn_cnt e + 1\<rparr>) (set (nodes_table c))" using xe assms(1) by (auto simp: counted_def update_node_def)
  moreover have "0 \<le> pn_cnt e" using assms map_of_SomeD [OF assms(1)] by auto
  ultimately show "0 \<le> pn_cnt (snd xe)" using assms(2) by auto
qed

lemma trim_count:
  assumes ok: "trim_ok L tree room sz K c" and b: "tab c b = Some e" and visited: "pn_flag e = DEVICE_KEEP_AND_DISABLE \<longrightarrow> pn_cnt e \<noteq> 0"
  shows "trim_ok L tree room sz K (counted b c)" and "to_disable (counted b c) \<le> to_disable c"
    and "subt (tree (buffer c)) u = Some k \<Longrightarrow> u \<noteq> [] \<Longrightarrow> b = pstr (tree (buffer c)) u \<Longrightarrow> mark (K b) k = k"
proof -
  have n: "0 \<le> pn_cnt e" using ok map_of_SomeD [OF b] unfolding trim_ok_def by force
  note less = to_disable_counted [OF b n]
  show "to_disable (counted b c) \<le> to_disable c" by (rule less)
  have "marked (counted b c) (tree (buffer c))"
    unfolding marked_def
  proof (intro allI impI, elim conjE)
    fix q m e' assume h: "subt (tree (buffer c)) q = Some m" "q \<noteq> []" "tab (counted b c) (pstr (tree (buffer c)) q) = Some e'" "pn_flag e' = DEVICE_KEEP_AND_DISABLE" "pn_cnt e' \<noteq> 0"
    then have "\<exists>e0. tab c (pstr (tree (buffer c)) q) = Some e0 \<and> pn_flag e0 = DEVICE_KEEP_AND_DISABLE \<and> pn_cnt e0 \<noteq> 0"
      using visited b by (auto simp: tab_counted split: if_splits)
    then show "disable m = m" using ok h(1,2) unfolding trim_ok_def marked_def by blast
  qed
  then show "trim_ok L tree room sz K (counted b c)"
    using ok less(1) counts_counted [OF b] flags_counted [OF b] unfolding trim_ok_def by simp
  show "mark (K b) k = k" if "subt (tree (buffer c)) u = Some k" "u \<noteq> []" "b = pstr (tree (buffer c)) u"
  proof (cases "pn_flag e = DEVICE_KEEP_AND_DISABLE")
    case True
    then have "disable k = k" using ok that b visited unfolding trim_ok_def marked_def by blast
    then show ?thesis by (simp add: mark_def)
  next
    case False
    then have "K b \<noteq> Some DEVICE_KEEP_AND_DISABLE" using ok b unfolding trim_ok_def flags_def by auto
    then show ?thesis by (simp add: mark_def)
  qed
qed

lemma edit_delete:
  assumes "fdt_law L tree off room sz" "fdt_check_full L d sz = 0" "subt (tree d) p = Some n" "subt (tree d) (p @ [i]) = Some k"
  shows "\<exists>d'. fdt_del_node L d (off d (p @ [i])) = (0, d') \<and> tree d' = put_at p (del_kid i n) (tree d) \<and>
    (\<forall>q. before q (p @ [i]) \<longrightarrow> off d' q = off d q) \<and> room d \<le> room d' \<and> fdt_check_full L d' sz = 0"
proof -
  have "fdt_edits L tree off room sz d" using assms(1,2) unfolding fdt_law_def by blast
  then show ?thesis using assms(3,4) unfolding fdt_edits_def by blast
qed

lemma edit_status:
  assumes "fdt_law L tree off room sz" "fdt_check_full L d sz = 0" "subt (tree d) p = Some n" "subt (tree d) (p @ [i]) = Some k" "0 < room d"
  shows "\<exists>d'. fdt_setprop_string L d (off d (p @ [i])) ''status'' ''disabled'' = (0, d') \<and> tree d' = put_at (p @ [i]) (disable k) (tree d) \<and>
    (\<forall>q. before q (p @ [i]) \<or> q = p @ [i] \<longrightarrow> off d' q = off d q) \<and> room d \<le> Suc (room d') \<and> fdt_check_full L d' sz = 0"
proof -
  have "fdt_edits L tree off room sz d" using assms(1,2) unfolding fdt_law_def by blast
  then show ?thesis using assms(3-5) unfolding fdt_edits_def by blast
qed

lemma trim_delete:
  assumes law: "fdt_law L tree off room sz" and ok: "trim_ok L tree room sz K c" and d: "d = buffer c" "T = tree d" and n: "subt T p = Some n" "i < length (kids n)"
  obtains d' where "fdt_del_node L d (off d (p @ [i])) = (0, d')" "tree d' = put_at p (del_kid i n) T" "\<And>q. q = p \<or> before q p \<Longrightarrow> off d' q = off d q"
    "trim_ok L tree room sz K (c\<lparr>buffer := d'\<rparr>)" "tsize (tree d') < tsize T"
proof -
  have "subt T (p @ [i]) = Some (snd (kids n ! i))" using subt_snoc [OF n(1)] n(2) by simp
  then obtain d' where d': "fdt_del_node L d (off d (p @ [i])) = (0, d')" "tree d' = put_at p (del_kid i n) T" "\<forall>q. before q (p @ [i]) \<longrightarrow> off d' q = off d q"
    "room d \<le> room d'" "fdt_check_full L d' sz = 0"
    using edit_delete [OF law, of d p n i] ok n(1) d unfolding trim_ok_def by auto
  have part: "part_of (tree d') T" unfolding d'(2) by (rule part_of_put [OF n(1) part_of_del])
  have "off d' q = off d q" if "q = p \<or> before q p" for q using d'(3) before_kid [OF that] by blast
  moreover have "trim_ok L tree room sz K (c\<lparr>buffer := d'\<rparr>)"
    using ok d d'(4,5) part_of_wf [OF part] part_of_marked [OF part, of c] by (simp add: trim_ok_def flags_def to_disable_def marked_def fun_eq_iff)
  moreover have "tsize (tree d') < tsize T" using tsize_put [OF n(1), of "del_kid i n"] tsize_del [OF n(2)] d'(2) by simp
  ultimately show ?thesis using that d'(1,2) by blast
qed

lemma trim_disable:
  assumes law: "fdt_law L tree off room sz" and ok: "trim_ok L tree room sz K c" and d: "d = buffer c" "T = tree d" and n: "subt T p = Some n" "i < length (kids n)"
    and b: "b = pstr T (p @ [i])" "tab c b = Some e" "pn_flag e = DEVICE_KEEP_AND_DISABLE" "pn_cnt e = 0"
  obtains d' where "fdt_setprop_string L d (off d (p @ [i])) ''status'' ''disabled'' = (0, d')" "tree d' = put_at p (put_at [i] (disable (snd (kids n ! i))) n) T"
    "\<And>q. q = p \<or> before q p \<Longrightarrow> off d' q = off d q" "\<And>s. trim_ok L tree room sz K ((counted b c)\<lparr>buffer := d', string_buf := s\<rparr>)" "tsize (tree d') = tsize T"
    "to_disable (counted b c) < to_disable c"
proof -
  let ?u = "p @ [i]" and ?k = "snd (kids n ! i)"
  have u: "subt T ?u = Some ?k" using subt_snoc [OF n(1)] n(2) by simp
  have less: "to_disable c = Suc (to_disable (counted b c))" using to_disable_counted(2) [OF b(2) _ b(3,4)] b(4) by simp
  then have "0 < room d" using ok d(1) unfolding trim_ok_def by simp
  then obtain d' where d': "fdt_setprop_string L d (off d ?u) ''status'' ''disabled'' = (0, d')" "tree d' = put_at ?u (disable ?k) T"
    "\<forall>q. before q ?u \<or> q = ?u \<longrightarrow> off d' q = off d q" "room d \<le> Suc (room d')" "fdt_check_full L d' sz = 0"
    using edit_status [OF law _ _ u [unfolded d(2)]] ok n(1) d unfolding trim_ok_def by blast
  have wf: "wf_tree T" "marked c T" using ok d by (simp_all add: trim_ok_def)
  have m: "marked (counted b c) (tree d')"
    unfolding marked_def d'(2)
  proof (intro allI impI, elim conjE)
    fix q m e' assume h: "subt (put_at ?u (disable ?k) T) q = Some m" "q \<noteq> []" "tab (counted b c) (pstr (put_at ?u (disable ?k) T) q) = Some e'"
      "pn_flag e' = DEVICE_KEEP_AND_DISABLE" "pn_cnt e' \<noteq> 0"
    note leaf = put_leaf [OF u set_prop_kids h(1)]
    show "disable m = m"
    proof (cases "q = ?u")
      case True
      then show ?thesis using leaf by (simp add: set_prop_idem)
    next
      case False
      then obtain m0 where m0: "subt T q = Some m0" "dprops m0 = dprops m" "pstr (put_at ?u (disable ?k) T) q = pstr T q" using leaf by auto
      have "pstr T q \<noteq> b" using pstr_inject [OF names_ok_wf [OF wf(1)], of q ?u] m0(1) u b(1) False by auto
      then have "tab c (pstr T q) = Some e'" using h(3) m0(3) b(2) by (simp add: tab_counted)
      then have "disable m0 = m0" using wf(2) m0(1) h(2,4,5) unfolding marked_def by blast
      then show ?thesis using m0(2) by (simp add: set_prop_id)
    qed
  qed
  have c: "\<forall>xe \<in> set (nodes_table (counted b c)). 0 \<le> pn_cnt (snd xe)" using counts_counted [OF b(2)] ok unfolding trim_ok_def by simp
  have "trim_ok L tree room sz K ((counted b c)\<lparr>buffer := d', string_buf := s\<rparr>)" for s
  proof -
    let ?c = "(counted b c)\<lparr>buffer := d', string_buf := s\<rparr>"
    have "flags ?c = K" using flags_counted [OF b(2)] ok by (simp add: trim_ok_def flags_def fun_eq_iff)
    moreover have "to_disable ?c \<le> room d'" using less ok d(1) d'(4) by (simp add: trim_ok_def to_disable_def)
    moreover have "marked ?c (tree d')" using m by (simp add: marked_def)
    moreover have "wf_tree (tree d')" using disable_wf [OF u wf(1)] d'(2) by simp
    ultimately show ?thesis using d'(5) c by (simp add: trim_ok_def)
  qed
  moreover have "off d' q = off d q" if "q = p \<or> before q p" for q using d'(3) before_kid [OF that] by blast
  moreover have "tree d' = put_at p (put_at [i] (disable ?k) n) T" using d'(2) put_snoc [OF n(1)] by simp
  moreover have "tsize (tree d') = tsize T" using tsize_put [OF u, of "disable ?k"] d'(2) by simp
  ultimately show ?thesis using that [of d'] d'(1) less by simp
qed

section \<open>The loop\<close>

text \<open>What trimming the children of the node at \<open>p\<close> achieves.\<close>

definition trims :: "'d libfdt \<Rightarrow> ('d \<Rightarrow> devtree) \<Rightarrow> ('d \<Rightarrow> nat list \<Rightarrow> int) \<Rightarrow> ('d \<Rightarrow> nat) \<Rightarrow> int \<Rightarrow> (string \<Rightarrow> device_flag option) \<Rightarrow> nat list \<Rightarrow> devtree \<Rightarrow>
    'd fdtgen_context \<Rightarrow> 'd fdtgen_context \<Rightarrow> bool" where
  "trims L tree off room sz K p n c c' \<longleftrightarrow> trim_ok L tree room sz K c' \<and>
     tree (buffer c') = put_at p (prune K (pstr (tree (buffer c)) p) n) (tree (buffer c)) \<and>
     (\<forall>q. q = p \<or> before q p \<longrightarrow> off (buffer c') q = off (buffer c) q) \<and> string_buf c' = string_buf c \<and> bufsize c' = bufsize c \<and>
     to_disable c' \<le> to_disable c \<and> tsize (tree (buffer c')) \<le> tsize (tree (buffer c))"

lemma trims_step:
  assumes n: "subt (tree (buffer c)) p = Some n" and t: "tree (buffer c0) = put_at p n0 (tree (buffer c))"
    and pr: "prune K (pstr (tree (buffer c)) p) n0 = prune K (pstr (tree (buffer c)) p) n"
    and o: "\<And>q. q = p \<or> before q p \<Longrightarrow> off (buffer c0) q = off (buffer c) q" and s: "string_buf c0 = string_buf c" "bufsize c0 = bufsize c"
    and less: "to_disable c0 \<le> to_disable c" "tsize (tree (buffer c0)) \<le> tsize (tree (buffer c))" and tr: "trims L tree off room sz K p n0 c0 c'"
  shows "trims L tree off room sz K p n c c'"
proof -
  note f = tr [unfolded trims_def]
  have "tree (buffer c') = put_at p (prune K (pstr (tree (buffer c)) p) n) (tree (buffer c))"
    using f t pr put_put [OF n] pstr_put [OF n] by simp
  moreover have "\<forall>q. q = p \<or> before q p \<longrightarrow> off (buffer c') q = off (buffer c) q" using f o by simp
  moreover have "string_buf c' = string_buf c" "bufsize c' = bufsize c" using f s by simp_all
  moreover have "to_disable c' \<le> to_disable c" "tsize (tree (buffer c')) \<le> tsize (tree (buffer c))" using f less by linarith+
  ultimately show ?thesis using f unfolding trims_def by blast
qed

definition trim_order :: "((nat \<times> nat \<times> nat) \<times> (nat \<times> nat \<times> nat)) set" where
  "trim_order = less_than <*lex*> less_than <*lex*> less_than"

lemma wf_trim_order: "wf trim_order"
  by (simp add: trim_order_def wf_lex_prod)

lemma trim_order_intros:
  "a' < a \<Longrightarrow> ((a', b', c'), (a, b, c)) \<in> trim_order" "a' \<le> a \<Longrightarrow> b' < b \<Longrightarrow> ((a', b', c'), (a, b, c)) \<in> trim_order"
  "a' \<le> a \<Longrightarrow> b' \<le> b \<Longrightarrow> c' < c \<Longrightarrow> ((a', b', c'), (a, b, c)) \<in> trim_order"
  by (auto simp: trim_order_def)

definition trim_start :: "'d libfdt \<Rightarrow> ('d \<Rightarrow> devtree) \<Rightarrow> ('d \<Rightarrow> nat list \<Rightarrow> int) \<Rightarrow> ('d \<Rightarrow> nat) \<Rightarrow> int \<Rightarrow> (string \<Rightarrow> device_flag option) \<Rightarrow> nat list \<Rightarrow> devtree \<Rightarrow> nat \<Rightarrow> int \<Rightarrow>
    'd fdtgen_context \<Rightarrow> bool" where
  "trim_start L tree off room sz K p n i child c \<longleftrightarrow> trim_ok L tree room sz K c \<and> subt (tree (buffer c)) p = Some n \<and> i \<le> length (kids n) \<and>
     string_buf c = pstr (tree (buffer c)) p \<and> kid_offset off (buffer c) n p i child \<and> (\<forall>k \<in> set (take i (kids n)). settled K (pstr (tree (buffer c)) p) k)"

lemma trim_reads: "fdt_law L tree off room sz \<Longrightarrow> trim_ok L tree room sz K c \<Longrightarrow> fdt_reads L tree off (buffer c)"
  by (simp add: fdt_law_def trim_ok_def)

text \<open>Starting again, after a change of the node at \<open>p\<close>.\<close>

lemma trim_restart:
  assumes law: "fdt_law L tree off room sz" and ok: "trim_ok L tree room sz K c0" and n: "subt (tree (buffer c)) p = Some n"
    and t: "tree (buffer c0) = put_at p n0 (tree (buffer c))" and s: "string_buf c0 = string_buf c" "string_buf c = pstr (tree (buffer c)) p"
    and o: "\<And>q. q = p \<or> before q p \<Longrightarrow> off (buffer c0) q = off (buffer c) q"
  shows "trim_start L tree off room sz K p n0 0 (fdt_first_subnode L (buffer c0) (off (buffer c) p)) c0"
proof -
  have p: "subt (tree (buffer c0)) p = Some n0" using t subt_put_self [OF n] by simp
  have "kid_offset off (buffer c0) n0 p 0 (fdt_first_subnode L (buffer c0) (off (buffer c) p))"
    using read_kids(1) [OF trim_reads [OF law ok] p] o [of p] by simp
  then show ?thesis using ok p s t pstr_put [OF n] by (simp add: trim_start_def)
qed

text \<open>The loop does this from all states that are smaller than a bound.\<close>

definition trims_below :: "'d libfdt \<Rightarrow> ('d \<Rightarrow> devtree) \<Rightarrow> ('d \<Rightarrow> nat list \<Rightarrow> int) \<Rightarrow> ('d \<Rightarrow> nat) \<Rightarrow> int \<Rightarrow> (string \<Rightarrow> device_flag option) \<Rightarrow> nat \<times> nat \<times> nat \<Rightarrow> bool" where
  "trims_below L tree off room sz K w \<longleftrightarrow> (\<forall>c p n i child. ((tsize (tree (buffer c)), to_disable c, rest n i), w) \<in> trim_order \<and> trim_start L tree off room sz K p n i child c \<longrightarrow>
     (\<exists>c'. trim_loop L (off (buffer c) p) child c = Some c' \<and> trims L tree off room sz K p n c c'))"

lemma trims_belowE:
  assumes "trims_below L tree off room sz K w" "trim_start L tree off room sz K p n i child c" "((tsize (tree (buffer c)), to_disable c, rest n i), w) \<in> trim_order"
  obtains c' where "trim_loop L (off (buffer c) p) child c = Some c'" "trims L tree off room sz K p n c c'"
  using assms unfolding trims_below_def by blast

text \<open>One turn at the \<open>i\<close>th child, whose path is \<open>b\<close>.\<close>

lemma trim_turn:
  assumes law: "fdt_law L tree off room sz" and st: "trim_start L tree off room sz K p n i child c" and i: "i < length (kids n)" and b: "b = pstr (tree (buffer c)) (p @ [i])"
  shows "subt (tree (buffer c)) (p @ [i]) = Some (snd (kids n ! i))" and "child = off (buffer c) (p @ [i])" and "\<not> child < 0"
    and "b = pstr (tree (buffer c)) p @ ''/'' @ fst (kids n ! i)" and "child_path (string_buf c) (fdt_get_name L (buffer c) child) = Some b"
    and "take (length (string_buf c)) b = string_buf c" and "K b = map_option pn_flag (tab c b)"
proof -
  note st' = st [unfolded trim_start_def]
  have ok: "trim_ok L tree room sz K c" and p: "subt (tree (buffer c)) p = Some n" using st' by simp_all
  note L = trim_reads [OF law ok]
  show u: "subt (tree (buffer c)) (p @ [i]) = Some (snd (kids n ! i))" using subt_snoc [OF p] i by simp
  show child: "child = off (buffer c) (p @ [i])" "\<not> child < 0" using st' i read_kids(4) [OF L u] by (simp_all add: kid_offset_def)
  show bx: "b = pstr (tree (buffer c)) p @ ''/'' @ fst (kids n ! i)" unfolding b by (rule pstr_kid [OF p i])
  show "child_path (string_buf c) (fdt_get_name L (buffer c) child) = Some b"
    using child_path_ok [OF _ p i] ok read_kids(3) [OF L p i] st' child by (simp add: b trim_ok_def)
  show "take (length (string_buf c)) b = string_buf c" using bx st' by simp
  show "K b = map_option pn_flag (tab c b)" using ok by (auto simp: trim_ok_def flags_def)
qed

lemma trim_turn_delete:
  assumes law: "fdt_law L tree off room sz" and st: "trim_start L tree off room sz K p n i child c" and i: "i < length (kids n)" and b: "b = pstr (tree (buffer c)) (p @ [i])"
    and IH: "trims_below L tree off room sz K (tsize (tree (buffer c)), to_disable c, rest n i)" and None: "tab c b = None"
  shows "\<exists>c'. trim_loop L (off (buffer c) p) child c = Some c' \<and> trims L tree off room sz K p n c c'"
proof -
  let ?d = "buffer c" and ?T = "tree (buffer c)" and ?n0 = "del_kid i n"
  note turn = trim_turn [OF law st i b]
  have ok: "trim_ok L tree room sz K c" and p: "subt ?T p = Some n" and buf: "string_buf c = pstr ?T p" using st by (simp_all add: trim_start_def)
  from trim_delete [OF law ok refl refl p i] obtain d' where d': "fdt_del_node L ?d (off ?d (p @ [i])) = (0, d')" "tree d' = put_at p ?n0 ?T"
    "\<And>q. q = p \<or> before q p \<Longrightarrow> off d' q = off ?d q" "trim_ok L tree room sz K (c\<lparr>buffer := d'\<rparr>)" "tsize (tree d') < tsize ?T" by blast
  let ?c0 = "c\<lparr>buffer := d'\<rparr>"
  have st0: "trim_start L tree off room sz K p ?n0 0 (fdt_first_subnode L d' (off ?d p)) ?c0"
    using trim_restart [OF law d'(4) p, of ?n0] d'(2,3) buf by simp
  have "((tsize (tree (buffer ?c0)), to_disable ?c0, rest ?n0 0), tsize ?T, to_disable c, rest n i) \<in> trim_order" using d'(5) by (simp add: trim_order_intros(1))
  from trims_belowE [OF IH st0 this] obtain c' where c': "trim_loop L (off d' p) (fdt_first_subnode L d' (off ?d p)) ?c0 = Some c'" "trims L tree off room sz K p ?n0 ?c0 c'"
    by auto
  have "\<not> keeps K (pstr ?T p) (kids n ! i)" using turn(4,7) None by (simp add: keeps_def)
  then have "trims L tree off room sz K p n c c'"
    by (intro trims_step [where tree = tree and c = c and ?c0.0 = ?c0 and ?n0.0 = ?n0, OF p]) (use d' c'(2) prune_del [OF i] in \<open>auto simp: to_disable_def\<close>)
  then show ?thesis using turn(2,3,5) None d'(1,3) c'(1) by (subst trim_loop.simps) (simp add: Let_def)
qed

lemma trim_turn_disable:
  assumes law: "fdt_law L tree off room sz" and st: "trim_start L tree off room sz K p n i child c" and i: "i < length (kids n)" and b: "b = pstr (tree (buffer c)) (p @ [i])"
    and IH: "trims_below L tree off room sz K (tsize (tree (buffer c)), to_disable c, rest n i)"
    and e: "tab c b = Some e" "pn_flag e = DEVICE_KEEP_AND_DISABLE" "pn_cnt e = 0"
  shows "\<exists>c'. trim_loop L (off (buffer c) p) child c = Some c' \<and> trims L tree off room sz K p n c c'"
proof -
  let ?d = "buffer c" and ?T = "tree (buffer c)" and ?x = "pstr (tree (buffer c)) p" and ?k = "snd (kids n ! i)" and ?n0 = "put_at [i] (disable (snd (kids n ! i))) n" and ?c1 = "counted b c"
  note turn = trim_turn [OF law st i b]
  have ok: "trim_ok L tree room sz K c" and p: "subt ?T p = Some n" and buf: "string_buf c = ?x" using st by (simp_all add: trim_start_def)
  from trim_disable [OF law ok refl refl p i b e] obtain d' where
    d': "fdt_setprop_string L ?d (off ?d (p @ [i])) ''status'' ''disabled'' = (0, d')" "tree d' = put_at p ?n0 ?T" "\<And>q. q = p \<or> before q p \<Longrightarrow> off d' q = off ?d q"
    "\<And>s. trim_ok L tree room sz K (?c1\<lparr>buffer := d', string_buf := s\<rparr>)" "tsize (tree d') = tsize ?T" "to_disable ?c1 < to_disable c" by blast
  let ?c0 = "?c1\<lparr>buffer := d', string_buf := string_buf c\<rparr>"
  have td: "to_disable ?c0 = to_disable ?c1" by (simp add: to_disable_def)
  have st0: "trim_start L tree off room sz K p ?n0 0 (fdt_first_subnode L d' (off ?d p)) ?c0"
    using trim_restart [where c = c and ?c0.0 = ?c0, OF law d'(4) p, of ?n0] d'(2,3) buf by simp
  have "((tsize (tree (buffer ?c0)), to_disable ?c0, rest ?n0 0), tsize ?T, to_disable c, rest n i) \<in> trim_order" using d'(5,6) td by (simp add: trim_order_intros(2))
  from trims_belowE [OF IH st0 this] obtain c' where c': "trim_loop L (off d' p) (fdt_first_subnode L d' (off ?d p)) ?c0 = Some c'" "trims L tree off room sz K p ?n0 ?c0 c'"
    by auto
  have "K b = Some DEVICE_KEEP_AND_DISABLE" using turn(7) e by simp
  then have "pruned_kid K ?x (fst (kids n ! i), disable ?k) = pruned_kid K ?x (kids n ! i)" using turn(4) by (simp add: pruned_kid_def mark_def prune_set_prop set_prop_idem)
  then have pr: "prune K ?x ?n0 = prune K ?x n" by (rule prune_put [OF i])
  have "trims L tree off room sz K p n c c'"
    by (rule trims_step [where tree = tree and c = c and ?c0.0 = ?c0 and ?n0.0 = ?n0, OF p]) (use d' c'(2) pr td in auto)
  then show ?thesis using turn(2,3,5,6) e d'(1,3) c'(1) by (subst trim_loop.simps) (simp add: Let_def counted_def)
qed

lemma trim_turn_descend:
  assumes law: "fdt_law L tree off room sz" and st: "trim_start L tree off room sz K p n i child c" and i: "i < length (kids n)" and b: "b = pstr (tree (buffer c)) (p @ [i])"
    and IH: "trims_below L tree off room sz K (tsize (tree (buffer c)), to_disable c, rest n i)"
    and e: "tab c b = Some e" "pn_flag e = DEVICE_KEEP_AND_DISABLE \<longrightarrow> pn_cnt e \<noteq> 0"
  shows "\<exists>c2. trim_loop L child (fdt_first_subnode L (buffer c) child) (counted b c) = Some c2 \<and> to_disable c2 \<le> to_disable c \<and> tsize (tree (buffer c2)) \<le> tsize (tree (buffer c)) \<and>
    tree (buffer c2) = put_at p (put_at [i] (prune K b (snd (kids n ! i))) n) (tree (buffer c)) \<and> (\<forall>q. q = p \<or> before q p \<longrightarrow> off (buffer c2) q = off (buffer c) q) \<and>
    string_buf c2 = b \<and> bufsize c2 = bufsize c \<and>
    trim_start L tree off room sz K p (put_at [i] (prune K b (snd (kids n ! i))) n) (Suc i) (fdt_next_subnode L (buffer c2) child) (c2\<lparr>string_buf := string_buf c\<rparr>)"
proof -
  let ?d = "buffer c" and ?T = "tree (buffer c)" and ?x = "pstr (tree (buffer c)) p" and ?k = "snd (kids n ! i)" and ?c1 = "counted b c"
  let ?n0 = "put_at [i] (prune K b ?k) n"
  note turn = trim_turn [OF law st i b]
  have ok: "trim_ok L tree room sz K c" and p: "subt ?T p = Some n" and buf: "string_buf c = ?x" and before: "\<forall>k \<in> set (take i (kids n)). settled K ?x k"
    using st by (simp_all add: trim_start_def)
  note cnt = trim_count [OF ok e]
  have st1: "trim_start L tree off room sz K (p @ [i]) ?k 0 (fdt_first_subnode L ?d child) ?c1"
    using cnt(1) turn(1,2) read_kids(1) [OF trim_reads [OF law ok] turn(1)] by (simp add: trim_start_def b)
  have "((tsize (tree (buffer ?c1)), to_disable ?c1, rest ?k 0), tsize ?T, to_disable c, rest n i) \<in> trim_order"
    using cnt(2) rest_less(1) [OF i] by (simp add: trim_order_intros(3))
  from trims_belowE [OF IH st1 this] obtain c2 where
    c2: "trim_loop L child (fdt_first_subnode L ?d child) ?c1 = Some c2" "trims L tree off room sz K (p @ [i]) ?k ?c1 c2" using turn(2) by auto
  note f = c2(2) [unfolded trims_def counted_simps, folded b]
  let ?c0 = "c2\<lparr>string_buf := string_buf c\<rparr>"
  have ok0: "trim_ok L tree room sz K ?c0" using f by simp
  have t0: "tree (buffer c2) = put_at p ?n0 ?T" using f put_snoc [OF p] by simp
  have p0: "subt (tree (buffer c2)) p = Some ?n0" "pstr (tree (buffer c2)) p = ?x" using t0 subt_put_self [OF p] pstr_put [OF p] by simp_all
  have o0: "\<forall>q. q = p \<or> before q p \<longrightarrow> off (buffer c2) q = off ?d q" using f before_kid by blast
  have same: "mark (K b) (prune K b ?k) = prune K b ?k" using cnt(3) [OF turn(1) _ b] prune_mark [of K b "K b" ?k] by simp
  have "settled K ?x (fst (kids n ! i), prune K b ?k)" using turn(4,7) e(1) same by (simp add: settled_def keeps_def pruned_kid_def prune_idem)
  then have "\<forall>k \<in> set (take (Suc i) (kids ?n0)). settled K ?x k" using before i by (simp add: take_Suc_conv_app_nth)
  moreover have "kid_offset off (buffer c2) ?n0 p (Suc i) (fdt_next_subnode L (buffer c2) child)"
    using read_kids(2) [OF trim_reads [OF law ok0], of p ?n0 i] p0 i f turn(2) by simp
  ultimately have "trim_start L tree off room sz K p ?n0 (Suc i) (fdt_next_subnode L (buffer c2) child) ?c0"
    using ok0 p0 i buf by (simp add: trim_start_def)
  moreover have "to_disable c2 \<le> to_disable c" "tsize (tree (buffer c2)) \<le> tsize ?T" "string_buf c2 = b" "bufsize c2 = bufsize c" using f cnt(2) by auto
  ultimately show ?thesis using c2(1) t0 o0 by blast
qed

lemma trim_turn_keep:
  assumes law: "fdt_law L tree off room sz" and st: "trim_start L tree off room sz K p n i child c" and i: "i < length (kids n)" and b: "b = pstr (tree (buffer c)) (p @ [i])"
    and IH: "trims_below L tree off room sz K (tsize (tree (buffer c)), to_disable c, rest n i)"
    and e: "tab c b = Some e" "pn_flag e = DEVICE_KEEP_AND_DISABLE \<longrightarrow> pn_cnt e \<noteq> 0"
  shows "\<exists>c'. trim_loop L (off (buffer c) p) child c = Some c' \<and> trims L tree off room sz K p n c c'"
proof -
  let ?T = "tree (buffer c)" and ?x = "pstr (tree (buffer c)) p" and ?n0 = "put_at [i] (prune K b (snd (kids n ! i))) n"
  note turn = trim_turn [OF law st i b]
  have p: "subt ?T p = Some n" using st by (simp add: trim_start_def)
  from trim_turn_descend [OF assms] obtain c2 where c2: "trim_loop L child (fdt_first_subnode L (buffer c) child) (counted b c) = Some c2" "to_disable c2 \<le> to_disable c"
    "tsize (tree (buffer c2)) \<le> tsize ?T" "tree (buffer c2) = put_at p ?n0 ?T" "\<forall>q. q = p \<or> before q p \<longrightarrow> off (buffer c2) q = off (buffer c) q" "string_buf c2 = b"
    "bufsize c2 = bufsize c" "trim_start L tree off room sz K p ?n0 (Suc i) (fdt_next_subnode L (buffer c2) child) (c2\<lparr>string_buf := string_buf c\<rparr>)" by blast
  let ?c0 = "c2\<lparr>string_buf := string_buf c\<rparr>"
  have td: "to_disable ?c0 = to_disable c2" by (simp add: to_disable_def)
  have "rest ?n0 (Suc i) < rest n i" using rest_less(2) [OF i] by (simp add: rest_def)
  then have "((tsize (tree (buffer ?c0)), to_disable ?c0, rest ?n0 (Suc i)), tsize ?T, to_disable c, rest n i) \<in> trim_order"
    using c2(2,3) td by (intro trim_order_intros(3)) simp_all
  from trims_belowE [OF IH c2(8) this] obtain c' where
    c': "trim_loop L (off (buffer c2) p) (fdt_next_subnode L (buffer c2) child) ?c0 = Some c'" "trims L tree off room sz K p ?n0 ?c0 c'" by auto
  have "pruned_kid K ?x (fst (kids n ! i), prune K b (snd (kids n ! i))) = pruned_kid K ?x (kids n ! i)" using turn(4) by (simp add: pruned_kid_def prune_idem)
  then have pr: "prune K ?x ?n0 = prune K ?x n" by (rule prune_put [OF i])
  have t: "trims L tree off room sz K p n c c'"
    by (rule trims_step [where tree = tree and c = c and ?c0.0 = ?c0 and ?n0.0 = ?n0, OF p]) (use c2 c'(2) pr td in \<open>auto simp del: put_at.simps\<close>)
  have "off (buffer c2) p = off (buffer c) p" using c2(5) by blast
  then have "trim_loop L (off (buffer c) p) child c = Some c'"
    using turn(2,3,5,6) e c2(1,6) c'(1) by (subst trim_loop.simps) (auto simp: Let_def counted_def)
  then show ?thesis using t by blast
qed

lemma trim_loop_ok:
  assumes law: "fdt_law L tree off room sz"
  shows "trim_start L tree off room sz K p n i child c \<Longrightarrow>
    \<exists>c'. trim_loop L (off (buffer c) p) child c = Some c' \<and> trims L tree off room sz K p n c c'"
proof (induction "(tsize (tree (buffer c)), to_disable c, rest n i)" arbitrary: c p n i child rule: wf_induct_rule [OF wf_trim_order])
  case (1 c n i p child)
  let ?b = "pstr (tree (buffer c)) (p @ [i])"
  have IH: "trims_below L tree off room sz K (tsize (tree (buffer c)), to_disable c, rest n i)" unfolding trims_below_def using "1.hyps" by blast
  show ?case
  proof (cases "i < length (kids n)")
    case False
    note st = "1.prems" [unfolded trim_start_def]
    have "prune K (pstr (tree (buffer c)) p) n = n" using False st prune_settled by simp
    then have "trims L tree off room sz K p n c c" using st put_same by (simp add: trims_def)
    then show ?thesis using False st by (subst trim_loop.simps) (simp add: kid_offset_def)
  next
    case True
    note turn = trim_turn_delete [OF law "1.prems" True refl IH] trim_turn_disable [OF law "1.prems" True refl IH] trim_turn_keep [OF law "1.prems" True refl IH]
    show ?thesis
    proof (cases "tab c ?b")
      case (Some e)
      then show ?thesis using turn(2,3) by blast
    qed (rule turn(1))
  qed
qed

lemma trim_tree_ok:
  assumes law: "fdt_law L tree off room sz" and ok: "trim_ok L tree room sz K c" and buf: "string_buf c = []"
  shows "\<exists>c'. trim_tree L (off (buffer c) []) c = Some c' \<and> tree (buffer c') = prune K [] (tree (buffer c)) \<and> fdt_check_full L (buffer c') sz = 0 \<and> bufsize c' = bufsize c"
proof -
  let ?T = "tree (buffer c)"
  have "trim_start L tree off room sz K [] ?T 0 (fdt_first_subnode L (buffer c) (off (buffer c) [])) c"
    using ok buf read_kids(1) [OF trim_reads [OF law ok], of "[]" ?T] by (simp add: trim_start_def)
  from trim_loop_ok [OF law this] show ?thesis by (auto simp: trim_tree_def trims_def trim_ok_def)
qed

end
