(* ===== verification/Fdtgen_Gen.thy ===== *)
theory Fdtgen_Gen
  imports Fdtgen_Deps Fdtgen_Trim "HOL-Library.Countable"
begin

text \<open>
  The whole generator of theory \<open>Fdtgen\<close>, from a new context to the generated tree: it has exactly the nodes that were asked for, the nodes above them and the nodes
  they refer to, again with the nodes above and those they refer to.
\<close>

section \<open>The paths of a pruned tree\<close>

definition paths :: "string \<Rightarrow> devtree \<Rightarrow> string set" where
  "paths x n = {x @ pstr n q | q. valid n q \<and> q \<noteq> []}"

lemma paths_kids: "paths x n = (\<Union>k \<in> set (kids n). insert (x @ ''/'' @ fst k) (paths (x @ ''/'' @ fst k) (snd k)))"
proof (intro set_eqI iffI)
  fix y assume "y \<in> paths x n"
  then obtain i r where i: "y = x @ pstr n (i # r)" "valid n (i # r)" unfolding paths_def by (auto simp: neq_Nil_conv)
  let ?k = "kids n ! i"
  have k: "i < length (kids n)" "valid (snd ?k) r" using i(2) by (auto split: if_splits)
  have "y \<in> insert (x @ ''/'' @ fst ?k) (paths (x @ ''/'' @ fst ?k) (snd ?k))"
  proof (cases "r = []")
    case False
    then show ?thesis using i(1) k(2) unfolding paths_def by auto
  qed (use i in simp)
  then show "y \<in> (\<Union>k \<in> set (kids n). insert (x @ ''/'' @ fst k) (paths (x @ ''/'' @ fst k) (snd k)))" by (rule UN_I [OF nth_mem [OF k(1)]])
next
  fix y assume "y \<in> (\<Union>k \<in> set (kids n). insert (x @ ''/'' @ fst k) (paths (x @ ''/'' @ fst k) (snd k)))"
  then obtain i where i: "i < length (kids n)" "y \<in> insert (x @ ''/'' @ fst (kids n ! i)) (paths (x @ ''/'' @ fst (kids n ! i)) (snd (kids n ! i)))"
    by (auto simp: in_set_conv_nth)
  then obtain r where "y = x @ pstr n (i # r)" "valid n (i # r)" unfolding paths_def by (auto intro: that [of "[]"])
  then show "y \<in> paths x n" unfolding paths_def by blast
qed

lemma paths_mark [simp]: "paths x (mark f n) = paths x n"
  by (subst (1 2) paths_kids) (simp add: mark_def)

text \<open>When the nodes above a node to be kept are to be kept, pruning keeps all of them.\<close>

definition closed_above :: "(string \<Rightarrow> device_flag option) \<Rightarrow> string \<Rightarrow> devtree \<Rightarrow> bool" where
  "closed_above K x n \<longleftrightarrow> (\<forall>q r. valid n (q @ r) \<and> q \<noteq> [] \<and> K (x @ pstr n (q @ r)) \<noteq> None \<longrightarrow> K (x @ pstr n q) \<noteq> None)"

lemma closed_kid:
  assumes "closed_above K x n" "k \<in> set (kids n)"
  shows "closed_above K (x @ ''/'' @ fst k) (snd k)" and "y \<in> paths (x @ ''/'' @ fst k) (snd k) \<Longrightarrow> K y \<noteq> None \<Longrightarrow> K (x @ ''/'' @ fst k) \<noteq> None"
proof -
  obtain i where i: "i < length (kids n)" "k = kids n ! i" using assms(2) by (auto simp: in_set_conv_nth)
  have here: "valid n (i # q) = valid (snd k) q" "x @ pstr n (i # q) = (x @ ''/'' @ fst k) @ pstr (snd k) q" for q using i by simp_all
  show "closed_above K (x @ ''/'' @ fst k) (snd k)"
    unfolding closed_above_def
  proof (intro allI impI, elim conjE)
    fix q r assume h: "valid (snd k) (q @ r)" "q \<noteq> []" "K ((x @ ''/'' @ fst k) @ pstr (snd k) (q @ r)) \<noteq> None"
    have "valid n ((i # q) @ r) \<and> i # q \<noteq> [] \<and> K (x @ pstr n ((i # q) @ r)) \<noteq> None" using h here [of "q @ r"] by simp
    then have "K (x @ pstr n (i # q)) \<noteq> None" using assms(1) unfolding closed_above_def by blast
    then show "K ((x @ ''/'' @ fst k) @ pstr (snd k) q) \<noteq> None" using here(2) [of q] by simp
  qed
  show "K (x @ ''/'' @ fst k) \<noteq> None" if y: "y \<in> paths (x @ ''/'' @ fst k) (snd k)" "K y \<noteq> None"
  proof -
    obtain q where q: "y = (x @ ''/'' @ fst k) @ pstr (snd k) q" "valid (snd k) q" using y(1) unfolding paths_def by blast
    have "valid n ([i] @ q) \<and> [i] \<noteq> [] \<and> K (x @ pstr n ([i] @ q)) \<noteq> None" using q y(2) here [of q] by simp
    then have "K (x @ pstr n [i]) \<noteq> None" using assms(1) unfolding closed_above_def by blast
    then show ?thesis using here(2) [of "[]"] by simp
  qed
qed

lemma union_kept:
  assumes "\<And>k y. k \<in> X \<Longrightarrow> y \<in> P k \<Longrightarrow> Q y \<Longrightarrow> Q (A k)"
  shows "(\<Union>k \<in> {k \<in> X. Q (A k)}. insert (A k) {y \<in> P k. Q y}) = {y \<in> \<Union>k \<in> X. insert (A k) (P k). Q y}"
  using assms by auto

lemma paths_prune: "closed_above K x n \<Longrightarrow> paths x (prune K x n) = {y \<in> paths x n. K y \<noteq> None}"
proof (induction n arbitrary: x rule: measure_induct_rule [where f = tsize])
  case (less n)
  let ?A = "\<lambda>k. x @ ''/'' @ fst k"
  have "paths x (prune K x n) = (\<Union>k \<in> {k \<in> set (kids n). K (?A k) \<noteq> None}. insert (?A k) (paths (?A k) (prune K (?A k) (snd k))))"
    by (subst paths_kids) (auto simp: prune_eq pruned_kid_def keeps_def)
  also have "\<dots> = (\<Union>k \<in> {k \<in> set (kids n). K (?A k) \<noteq> None}. insert (?A k) {y \<in> paths (?A k) (snd k). K y \<noteq> None})"
  proof (intro SUP_cong refl)
    fix k assume "k \<in> {k \<in> set (kids n). K (?A k) \<noteq> None}"
    then have "k \<in> set (kids n)" by simp
    then have "paths (?A k) (prune K (?A k) (snd k)) = {y \<in> paths (?A k) (snd k). K y \<noteq> None}" using less.IH [OF tsize_member] closed_kid(1) [OF less.prems] by blast
    then show "insert (?A k) (paths (?A k) (prune K (?A k) (snd k))) = insert (?A k) {y \<in> paths (?A k) (snd k). K y \<noteq> None}" by (rule arg_cong)
  qed
  also have "\<dots> = {y \<in> paths x n. K y \<noteq> None}"
    unfolding paths_kids [of x n]
    using closed_kid(2) [OF less.prems] by (rule union_kept [where Q = "\<lambda>y. K y \<noteq> None" and A = ?A and P = "\<lambda>k. paths (x @ ''/'' @ fst k) (snd k)"])
  finally show ?case .
qed

text \<open>Pruning looks at the paths of the tree only.\<close>

lemma prune_cong: "\<forall>y \<in> paths x n. K y = K' y \<Longrightarrow> prune K x n = prune K' x n"
proof (induction n arbitrary: x rule: measure_induct_rule [where f = tsize])
  case (less n)
  have p: "insert (x @ ''/'' @ fst k) (paths (x @ ''/'' @ fst k) (snd k)) \<subseteq> paths x n" if "k \<in> set (kids n)" for k
    by (subst paths_kids) (use that in blast)
  have K: "keeps K x k = keeps K' x k" if "k \<in> set (kids n)" for k using p [OF that] less.prems by (simp add: keeps_def)
  moreover have "pruned_kid K x k = pruned_kid K' x k" if "k \<in> set (kids n)" for k
  proof -
    have "prune K (x @ ''/'' @ fst k) (snd k) = prune K' (x @ ''/'' @ fst k) (snd k)" using p [OF that] less.prems by (intro less.IH [OF tsize_member [OF that]]) blast
    then show ?thesis using p [OF that] less.prems by (simp add: pruned_kid_def)
  qed
  moreover have "filter (keeps K x) (kids n) = filter (keeps K' x) (kids n)" using K by (intro filter_cong refl)
  ultimately show ?case unfolding prune_eq by (intro arg_cong2 [where f = DNode] map_cong refl) auto
qed

section \<open>Generation\<close>

text \<open>The number of nodes to be disabled, by the keys of the table.\<close>

lemma to_disable_card:
  assumes "distinct (map fst (nodes_table c))"
  shows "to_disable c = card {x. \<exists>e. tab c x = Some e \<and> pn_flag e = DEVICE_KEEP_AND_DISABLE \<and> pn_cnt e = 0}"
proof -
  let ?P = "\<lambda>(x, e). pn_flag e = DEVICE_KEEP_AND_DISABLE \<and> pn_cnt e = 0" and ?t = "nodes_table c"
  have "to_disable c = card (set (map fst (filter ?P ?t)))"
    using distinct_card [OF distinct_map_filter [OF assms], of ?P] by (simp add: to_disable_def)
  moreover have "set (map fst (filter ?P ?t)) = {x. \<exists>e. tab c x = Some e \<and> pn_flag e = DEVICE_KEEP_AND_DISABLE \<and> pn_cnt e = 0}"
    using assms by (force simp: map_of_eq_Some_iff)
  ultimately show ?thesis by simp
qed

lemma needed_prefix: "needed dep R (q @ r) \<Longrightarrow> q \<noteq> [] \<Longrightarrow> needed dep R q"
proof (induction r rule: rev_induct)
  case (snoc i r)
  then have "needed dep R (q @ r)" using needed_above [of dep R "q @ r" i] by simp
  then show ?case using snoc by simp
qed simp

lemma slash_no_path: "wf_tree T \<Longrightarrow> valid T q \<Longrightarrow> pstr T q \<noteq> ''/''"
proof
  assume h: "wf_tree T" "valid T q" "pstr T q = ''/''"
  then obtain i r where q: "q = i # r" by (cases q) auto
  then have "i < length (kids T)" "fst (kids T ! i) = []" using h(2,3) by (auto split: if_splits)
  then show False using names_ok_here [OF names_ok_wf [OF h(1)]] nth_mem by metis
qed

definition with_root :: "'d fdtgen_context \<Rightarrow> 'd fdtgen_context" where
  "with_root c = c\<lparr>nodes_table := nodes_table c @ [(''/'', \<lparr>pn_offset = Some (root_offset c), pn_cnt = 1, pn_flag = DEVICE_KEEP\<rparr>)], string_buf := []\<rparr>"

lemma tab_with_root: "tab (with_root c) x = (case tab c x of None \<Rightarrow> if x = ''/'' then Some \<lparr>pn_offset = Some (root_offset c), pn_cnt = 1, pn_flag = DEVICE_KEEP\<rparr> else None | Some e \<Rightarrow> Some e)"
  by (simp add: with_root_def map_add_def split: option.splits)

lemma trim_ok_with_root:
  assumes c2: "buffer c2 = d" "distinct (map fst (nodes_table c2))" "\<forall>x e. tab c2 x = Some e \<longrightarrow> pn_cnt e = 0 \<and> pn_flag e = flag_of c x"
    and c: "asked T c" "to_disable c \<le> room d" and d: "T = tree d" "wf_tree T" "fdt_check_full L d sz = 0"
  shows "trim_ok L tree room sz (flags (with_root c2)) (with_root c2)"
proof -
  have b: "buffer (with_root c2) = d" using c2(1) by (simp add: with_root_def)
  have m: "marked (with_root c2) T"
    unfolding marked_def tab_with_root using c2(3) slash_no_path [OF d(2)] by (auto split: option.splits if_splits)
  have "{x. \<exists>e. tab c2 x = Some e \<and> pn_flag e = DEVICE_KEEP_AND_DISABLE \<and> pn_cnt e = 0} \<subseteq> {x. \<exists>e. tab c x = Some e \<and> pn_flag e = DEVICE_KEEP_AND_DISABLE \<and> pn_cnt e = 0}"
  proof clarify
    fix x e assume "tab c2 x = Some e" "pn_flag e = DEVICE_KEEP_AND_DISABLE"
    then have f: "flag_of c x = DEVICE_KEEP_AND_DISABLE" using c2(3) by simp
    then obtain e' where e': "tab c x = Some e'" "pn_flag e' = DEVICE_KEEP_AND_DISABLE" by (auto simp: flag_of_def split: option.splits)
    have "pn_cnt e' = 0" using c(1) map_of_SomeD [OF e'(1)] unfolding asked_def by auto
    then show "\<exists>e. tab c x = Some e \<and> pn_flag e = DEVICE_KEEP_AND_DISABLE \<and> pn_cnt e = 0" using e' by blast
  qed
  moreover have "finite {x. \<exists>e. tab c x = Some e \<and> pn_flag e = DEVICE_KEEP_AND_DISABLE \<and> pn_cnt e = 0}"
    by (rule finite_subset [OF _ finite_dom_map_of [of "nodes_table c"]]) auto
  ultimately have "to_disable c2 \<le> to_disable c" using to_disable_card [OF c2(2)] to_disable_card [of c] c(1) by (simp add: asked_def card_mono)
  then have t: "to_disable (with_root c2) \<le> room d" using c(2) by (simp add: to_disable_def with_root_def)
  have "0 \<le> pn_cnt (snd xe)" if "xe \<in> set (nodes_table (with_root c2))" for xe
  proof (cases "xe \<in> set (nodes_table c2)")
    case True
    then have "tab c2 (fst xe) = Some (snd xe)" using c2(2) by simp
    then show ?thesis using c2(3) by simp
  qed (use that in \<open>simp add: with_root_def\<close>)
  then show ?thesis using b m t d by (simp add: trim_ok_def)
qed

definition keep_map :: "string set \<Rightarrow> (string \<Rightarrow> device_flag) \<Rightarrow> string \<Rightarrow> device_flag option" where
  "keep_map N f x = (if x \<in> N then Some (f x) else None)"

lemma generate_ok:
  assumes law: "fdt_law L tree off room (bufsize c)" and d: "d = fdt_open_into L fdt_ori (bufsize c)" "fdt_check_full L d (bufsize c) = 0" "fdt_path_offset L d ''/'' = off d []"
    and T: "T = tree d" "wf_tree T" and refs: "refs_ok L off d T" and c: "asked T c" "to_disable c \<le> room d"
  shows "\<exists>c'. fdtgen_generate L (Some c) fdt_ori = Some (0, Some c') \<and>
    tree (buffer c') = prune (keep_map (pstr T ` {q. needed (refers L off d T) (kept T c) q}) (flag_of c)) [] T \<and>
    paths [] (tree (buffer c')) = pstr T ` {q. needed (refers L off d T) (kept T c) q}"
proof -
  let ?c0 = "c\<lparr>buffer := d, root_offset := off d [], string_buf := []\<rparr>" and ?N = "{q. needed (refers L off d T) (kept T c) q}"
  let ?K = "keep_map (pstr T ` ?N) (flag_of c)"
  have same: "kept T ?c0 = kept T c" "flag_of ?c0 = flag_of c" by (simp_all add: kept_def flag_of_def fun_eq_iff)
  have L: "fdt_reads L tree off d" using law d(2) by (simp add: fdt_law_def)
  have "asked T ?c0" using c(1) by (simp add: asked_def)
  from keep_phase_ok [OF L T refs this] same obtain b c1 c2 where k: "find_nodes_to_keep L (off d []) ?c0 = Some (b, c1)" "resolve_all_dependencies L c1 = Some c2"
    "buffer c2 = d" "root_offset c2 = off d []" "bufsize c2 = bufsize c" "distinct (map fst (nodes_table c2))"
    "\<forall>x. tab c2 x \<noteq> None \<longleftrightarrow> (\<exists>q. needed (refers L off d T) (kept T c) q \<and> x = pstr T q)"
    "\<forall>x e. tab c2 x = Some e \<longrightarrow> pn_cnt e = 0 \<and> pn_flag e = flag_of c x" "?N \<subseteq> {q. valid T q \<and> q \<noteq> []}" by auto
  note ok = trim_ok_with_root [where room = room and tree = tree, OF k(3,6,8) c T d(2)]
  have b3: "buffer (with_root c2) = d" "string_buf (with_root c2) = []" "bufsize (with_root c2) = bufsize c" "root_offset (with_root c2) = off d []"
    using k by (simp_all add: with_root_def)
  from trim_tree_ok [OF law ok b3(2)] obtain c' where c': "trim_tree L (off d []) (with_root c2) = Some c'" "tree (buffer c') = prune (flags (with_root c2)) [] T"
    "fdt_check_full L (buffer c') (bufsize c) = 0" "bufsize c' = bufsize c" using b3 T(1) by auto
  have "flags (with_root c2) y = ?K y" if "y \<in> paths [] T" for y
  proof -
    have "y \<noteq> ''/''" using that slash_no_path [OF T(2)] by (auto simp: paths_def)
    then have "flags (with_root c2) y = map_option pn_flag (tab c2 y)" by (simp add: flags_def tab_with_root split: option.splits)
    moreover have "y \<in> pstr T ` ?N \<longleftrightarrow> tab c2 y \<noteq> None" using k(7) by (metis (mono_tags) image_iff mem_Collect_eq)
    ultimately show ?thesis using k(8) unfolding keep_map_def by (cases "tab c2 y") simp_all
  qed
  then have t: "tree (buffer c') = prune ?K [] T" using c'(2) prune_cong [of "[]" T "flags (with_root c2)" ?K] by simp
  have "closed_above ?K [] T"
    unfolding closed_above_def
  proof (intro allI impI, elim conjE)
    fix q r assume h: "valid T (q @ r)" "q \<noteq> []" "?K ([] @ pstr T (q @ r)) \<noteq> None"
    then obtain q' where q': "q' \<in> ?N" "pstr T q' = pstr T (q @ r)" by (auto simp: keep_map_def split: if_splits)
    then have "q' = q @ r" using pstr_inject [OF names_ok_wf [OF T(2)]] h(1) k(9) by blast
    then have "q \<in> ?N" using q'(1) needed_prefix [OF _ h(2)] by simp
    then show "?K ([] @ pstr T q) \<noteq> None" by (simp add: keep_map_def)
  qed
  from paths_prune [OF this] have "paths [] (tree (buffer c')) = pstr T ` ?N" using k(9) t by (auto simp: paths_def keep_map_def split: if_splits)
  moreover have "fdtgen_generate L (Some c) fdt_ori = Some (0, Some c')"
    using d k(1,2,4) c' b3 by (simp add: fdtgen_generate_def Let_def with_root_def)
  ultimately show ?thesis using t by blast
qed

section \<open>From a new context to the generated tree\<close>

lemma tab_init:
  "tab (init_keep_node names f c) x = (if x \<in> set names then Some (case tab c x of None \<Rightarrow> \<lparr>pn_offset = None, pn_cnt = 0, pn_flag = f\<rparr> | Some e \<Rightarrow> e\<lparr>pn_flag := f\<rparr>) else tab c x)"
proof (induction names arbitrary: c)
  case (Cons y names)
  define c' where "c' = c\<lparr>nodes_table := find_or_add y (\<lambda>n. n\<lparr>pn_flag := f\<rparr>) \<lparr>pn_offset = None, pn_cnt = 0, pn_flag = f\<rparr> (nodes_table c)\<rparr>"
  have "init_keep_node (y # names) f c = init_keep_node names f c'" by (simp add: init_keep_node_def c'_def)
  moreover have "tab c' x = (if x = y then Some (case tab c x of None \<Rightarrow> \<lparr>pn_offset = None, pn_cnt = 0, pn_flag = f\<rparr> | Some e \<Rightarrow> e\<lparr>pn_flag := f\<rparr>) else tab c x)" for x
    by (simp add: c'_def tab_find_or_add)
  ultimately show ?case using Cons.IH [of c'] by (auto split: option.splits)
qed (simp add: init_keep_node_def)

lemma init_same: "dep_table (init_keep_node names f c) = dep_table c" "bufsize (init_keep_node names f c) = bufsize c"
  by (simp_all add: init_keep_node_def)

lemma init_distinct: "distinct (map fst (nodes_table c)) \<Longrightarrow> distinct (map fst (nodes_table (init_keep_node names f c)))"
proof (induction names arbitrary: c)
  case (Cons y names)
  have "init_keep_node (y # names) f c =
    init_keep_node names f (c\<lparr>nodes_table := find_or_add y (\<lambda>n. n\<lparr>pn_flag := f\<rparr>) \<lparr>pn_offset = None, pn_cnt = 0, pn_flag = f\<rparr> (nodes_table c)\<rparr>)" by (simp add: init_keep_node_def)
  then show ?case using Cons distinct_find_or_add by simp
qed (simp add: init_keep_node_def)

lemma asked_tab:
  "asked T c \<longleftrightarrow> dep_table c = [] \<and> distinct (map fst (nodes_table c)) \<and> (\<forall>x e. tab c x = Some e \<longrightarrow> pn_cnt e = 0 \<and> x \<in> paths [] T)"
proof -
  have "(\<forall>xe \<in> set (nodes_table c). pn_cnt (snd xe) = 0) \<and> (\<forall>x \<in> fst ` set (nodes_table c). \<exists>q. valid T q \<and> q \<noteq> [] \<and> x = pstr T q) \<longleftrightarrow>
    (\<forall>x e. tab c x = Some e \<longrightarrow> pn_cnt e = 0 \<and> x \<in> paths [] T)" if "distinct (map fst (nodes_table c))"
    using that by (fastforce simp: paths_def map_of_eq_Some_iff)
  then show ?thesis unfolding asked_def by blast
qed

lemma asked_init: "asked T c \<Longrightarrow> set names \<subseteq> paths [] T \<Longrightarrow> asked T (init_keep_node names f c)"
  unfolding asked_tab using init_same [of names f c] init_distinct [of c names f] by (auto simp: tab_init split: if_splits option.splits)

text \<open>The context of a client that asks for nodes and for nodes to be disabled.\<close>

lemma client_context:
  assumes new: "fdtgen_new_context True buf sz junk = Some c0" and names: "set ks \<union> set ds \<subseteq> paths [] T"
  defines "c \<equiv> fdtgen_keep_nodes_and_disable ds (fdtgen_keep_nodes ks c0)"
  shows "asked T c" and "bufsize c = sz" and "kept T c = {q. valid T q \<and> q \<noteq> [] \<and> pstr T q \<in> set ks \<union> set ds}"
    and "flag_of c = (\<lambda>x. if x \<in> set ds then DEVICE_KEEP_AND_DISABLE else DEVICE_KEEP)" and "to_disable c \<le> length ds"
proof -
  have c0: "nodes_table c0 = []" "dep_table c0 = []" "bufsize c0 = sz" using new by (auto simp: fdtgen_new_context_def)
  have "asked T c0" using c0 by (simp add: asked_def)
  then show a: "asked T c" unfolding c_def fdtgen_keep_nodes_and_disable_def fdtgen_keep_nodes_def using names by (auto intro!: asked_init)
  show "bufsize c = sz" using c0 by (simp add: c_def fdtgen_keep_nodes_and_disable_def fdtgen_keep_nodes_def init_same)
  have t: "tab c x = (if x \<in> set ds then Some \<lparr>pn_offset = None, pn_cnt = 0, pn_flag = DEVICE_KEEP_AND_DISABLE\<rparr>
      else if x \<in> set ks then Some \<lparr>pn_offset = None, pn_cnt = 0, pn_flag = DEVICE_KEEP\<rparr> else None)" for x
    using c0 by (simp add: c_def fdtgen_keep_nodes_and_disable_def fdtgen_keep_nodes_def tab_init)
  show "kept T c = {q. valid T q \<and> q \<noteq> [] \<and> pstr T q \<in> set ks \<union> set ds}" by (auto simp: kept_def t split: if_splits)
  show "flag_of c = (\<lambda>x. if x \<in> set ds then DEVICE_KEEP_AND_DISABLE else DEVICE_KEEP)" by (simp add: flag_of_def t fun_eq_iff)
  have "{x. \<exists>e. tab c x = Some e \<and> pn_flag e = DEVICE_KEEP_AND_DISABLE \<and> pn_cnt e = 0} \<subseteq> set ds" by (auto simp: t split: if_splits)
  then have "to_disable c \<le> card (set ds)" using a to_disable_card [of c] by (simp add: asked_def card_mono)
  then show "to_disable c \<le> length ds" using card_length [of ds] by linarith
qed


text \<open>An instance of the library, on trees in place of their encoding, with a number for every position; and a tree in which one node refers to another.\<close>

definition pos_of :: "int \<Rightarrow> nat list" where
  "pos_of z = list_decode (nat z)"

definition of_pos :: "nat list \<Rightarrow> int" where
  "of_pos p = int (list_encode p)"

primrec positions :: "nat \<Rightarrow> devtree \<Rightarrow> nat list list" where
  "positions 0 n = [[]]"
| "positions (Suc m) n = [] # concat (map (\<lambda>i. map ((#) i) (positions m (snd (kids n ! i)))) [0..<length (kids n)])"

definition props_at :: "devtree \<Rightarrow> int \<Rightarrow> (string \<times> bytes) list" where
  "props_at d z = (case subt d (pos_of z) of None \<Rightarrow> [] | Some n \<Rightarrow> dprops n)"

definition find_pos :: "(nat list \<Rightarrow> bool) \<Rightarrow> devtree \<Rightarrow> int" where
  "find_pos P d = (case List.find P (positions 8 d) of None \<Rightarrow> - 1 | Some p \<Rightarrow> of_pos p)"

definition demo_fdt :: "devtree libfdt" where
  "demo_fdt = \<lparr>
     fdt_first_subnode = (\<lambda>d z. case subt d (pos_of z @ [0]) of None \<Rightarrow> - 1 | Some _ \<Rightarrow> of_pos (pos_of z @ [0])),
     fdt_next_subnode = (\<lambda>d z. let q = butlast (pos_of z) @ [Suc (last (pos_of z))] in case subt d q of None \<Rightarrow> - 1 | Some _ \<Rightarrow> of_pos q),
     fdt_get_name = (\<lambda>d z. case subt d (butlast (pos_of z)) of None \<Rightarrow> [] | Some n \<Rightarrow> fst (kids n ! last (pos_of z))),
     fdt_properties = props_at,
     fdt_getprop = (\<lambda>d z k. if z < 0 then None else map_of (props_at d z) k),
     fdt_node_offset_by_phandle = (\<lambda>d h. find_pos (\<lambda>p. Option.bind (map_of (props_at d (of_pos p)) ''phandle'') fdt32_ld = Some h) d),
     fdt_get_path = (\<lambda>d z _. if pos_of z = [] then ''/'' else pstr d (pos_of z)),
     fdt_path_offset = (\<lambda>d s. if s = ''/'' then of_pos [] else find_pos (\<lambda>p. pstr d p = s) d),
     fdt_del_node = (\<lambda>d z. let p = pos_of z in (0, put_at (butlast p) (del_kid (last p) (the (subt d (butlast p)))) d)),
     fdt_setprop_string = (\<lambda>d z k v. let p = pos_of z in (0, put_at p (set_prop k (c_bytes v) (the (subt d p))) d)),
     fdt_open_into = (\<lambda>d _. d),
     fdt_check_full = (\<lambda>_ _. 0)\<rparr>"

lemma pos_of_pos [simp]: "pos_of (of_pos p) = p"
  by (simp add: pos_of_def of_pos_def)

lemma of_pos_simps [simp]: "0 \<le> of_pos p" "(of_pos p = of_pos q) = (p = q)"
  by (simp_all add: of_pos_def list_encode_eq)

lemma demo_law: "fdt_law demo_fdt (\<lambda>d. d) (\<lambda>_. of_pos) (\<lambda>_. 8) sz"
proof -
  have "fdt_reads demo_fdt (\<lambda>d. d) (\<lambda>_. of_pos) d" for d
    unfolding fdt_reads_def by (auto simp: demo_fdt_def props_at_def subt_append Let_def split: option.splits)
  moreover have "fdt_edits demo_fdt (\<lambda>d. d) (\<lambda>_. of_pos) (\<lambda>_. 8) sz d" for d
    unfolding fdt_edits_def by (auto simp: demo_fdt_def Let_def)
  ultimately show ?thesis by (simp add: fdt_law_def)
qed

definition demo_tree :: devtree where
  "demo_tree = DNode []
     [(''eth'', DNode [(''phy-handle'', [0, 0, 0, 1])] []),
      (''bus'', DNode [] [(''phy'', DNode [(''phandle'', [0, 0, 0, 1])] []), (''uart'', DNode [] []), (''spi'', DNode [] [])]),
      (''timer'', DNode [] [])]"

lemma subt_leaf: "subt (DNode ps []) q = (if q = [] then Some (DNode ps []) else None)"
  by (cases q) auto

lemma subt_three: "subt (DNode ps [a, b, c]) q = (case q of [] \<Rightarrow> Some (DNode ps [a, b, c])
  | i # r \<Rightarrow> if i = 0 then subt (snd a) r else if i = 1 then subt (snd b) r else if i = 2 then subt (snd c) r else None)"
  by (cases q) (auto simp: nth_Cons numeral_eq_Suc less_Suc_eq split: nat.splits)

lemma demo_subt: "subt demo_tree q = Some n \<longleftrightarrow>
  (q = [] \<and> n = demo_tree) \<or> (q = [0] \<and> n = DNode [(''phy-handle'', [0, 0, 0, 1])] []) \<or>
  (q = [1] \<and> n = DNode [] [(''phy'', DNode [(''phandle'', [0, 0, 0, 1])] []), (''uart'', DNode [] []), (''spi'', DNode [] [])]) \<or>
  (q = [1, 0] \<and> n = DNode [(''phandle'', [0, 0, 0, 1])] []) \<or> (q = [1, 1] \<and> n = DNode [] []) \<or> (q = [1, 2] \<and> n = DNode [] []) \<or> (q = [2] \<and> n = DNode [] [])"
  by (auto simp: demo_tree_def subt_three subt_leaf split: list.splits if_splits)

lemma demo_valid: "valid demo_tree q \<longleftrightarrow> q \<in> {[], [0], [1], [1, 0], [1, 1], [1, 2], [2]}"
  using demo_subt [of q] by auto

lemma demo_pstr: "pstr demo_tree [0] = ''/eth''" "pstr demo_tree [1] = ''/bus''" "pstr demo_tree [1, 0] = ''/bus/phy''" "pstr demo_tree [1, 1] = ''/bus/uart''"
    "pstr demo_tree [1, 2] = ''/bus/spi''" "pstr demo_tree [2] = ''/timer''"
  by (simp_all add: demo_tree_def)

lemma demo_wf: "wf_tree demo_tree"
  unfolding wf_tree_def demo_subt by (auto simp: demo_tree_def MAX_FULL_PATH_LENGTH_def)

lemma demo_phandle: "fdt_node_offset_by_phandle demo_fdt demo_tree 1 = of_pos [1, 0]"
  by (simp add: demo_fdt_def find_pos_def props_at_def demo_tree_def fdt32_ld_def numeral_eq_Suc)

lemma demo_handles: "handles demo_fdt demo_tree (''phy-handle'', [0, 0, 0, 1]) hs \<longleftrightarrow> hs = [1]" "handles demo_fdt demo_tree (''phandle'', v) hs \<longleftrightarrow> hs = []"
  by (simp_all add: handles_def props_with_dep_def fdt32_ld_def)

lemma demo_props: "subt demo_tree q = Some n \<and> p \<in> set (dprops n) \<longleftrightarrow>
  (q = [0] \<and> p = (''phy-handle'', [0, 0, 0, 1]) \<or> q = [1, 0] \<and> p = (''phandle'', [0, 0, 0, 1])) \<and> subt demo_tree q = Some n"
  unfolding demo_subt by (auto simp: demo_tree_def)

lemma demo_refs: "refs_ok demo_fdt (\<lambda>_. of_pos) demo_tree demo_tree"
  unfolding refs_ok_def demo_props
proof (intro allI impI, elim conjE disjE)
  fix q n and p :: "string \<times> bytes" assume "p = (''phy-handle'', [0, 0, 0, 1])"
  moreover have "valid demo_tree [1, 0]" by (simp only: demo_valid) simp
  ultimately show "\<exists>hs. handles demo_fdt demo_tree p hs \<and> (\<forall>h \<in> set hs. \<exists>t. valid demo_tree t \<and> fdt_node_offset_by_phandle demo_fdt demo_tree h = of_pos t)"
    using demo_handles(1) demo_phandle by fastforce
next
  fix q n and p :: "string \<times> bytes" assume "p = (''phandle'', [0, 0, 0, 1])"
  then show "\<exists>hs. handles demo_fdt demo_tree p hs \<and> (\<forall>h \<in> set hs. \<exists>t. valid demo_tree t \<and> fdt_node_offset_by_phandle demo_fdt demo_tree h = of_pos t)"
    using demo_handles(2) by simp
qed

lemma demo_refers: "refers demo_fdt (\<lambda>_. of_pos) demo_tree demo_tree q t \<longleftrightarrow> q = [0] \<and> t = [1, 0]"
proof
  assume "refers demo_fdt (\<lambda>_. of_pos) demo_tree demo_tree q t"
  then obtain n p hs h where h: "subt demo_tree q = Some n \<and> p \<in> set (dprops n)" "handles demo_fdt demo_tree p hs" "h \<in> set hs"
    "fdt_node_offset_by_phandle demo_fdt demo_tree h = of_pos t" unfolding refers_def by blast
  then show "q = [0] \<and> t = [1, 0]" unfolding demo_props using demo_handles demo_phandle by auto
next
  let ?n = "DNode [(''phy-handle'', [0, 0, 0, 1])] []" and ?p = "(''phy-handle'', [0, 0, 0, 1])"
  assume h: "q = [0] \<and> t = [1, 0]"
  have "subt demo_tree [0] = Some ?n" by (simp only: demo_subt) simp
  moreover have "?p \<in> set (dprops ?n)" "(1 :: u32) \<in> set [1]" by simp_all
  moreover have "handles demo_fdt demo_tree ?p [1]" using demo_handles(1) by simp
  moreover have "valid demo_tree [1, 0]" by (simp only: demo_valid) simp
  ultimately show "refers demo_fdt (\<lambda>_. of_pos) demo_tree demo_tree q t"
    unfolding refers_def using h demo_phandle by blast
qed

lemma demo_needed: "pstr demo_tree ` {q. needed (refers demo_fdt (\<lambda>_. of_pos) demo_tree demo_tree)
    {q. valid demo_tree q \<and> q \<noteq> [] \<and> pstr demo_tree q \<in> set [''/eth''] \<union> set [''/bus/uart'']} q} = {''/eth'', ''/bus'', ''/bus/phy'', ''/bus/uart''}"
proof -
  let ?dep = "refers demo_fdt (\<lambda>_. of_pos) demo_tree demo_tree" and ?R = "{q. valid demo_tree q \<and> q \<noteq> [] \<and> pstr demo_tree q \<in> set [''/eth''] \<union> set [''/bus/uart'']}"
  have R: "?R = {[0], [1, 1]}" unfolding demo_valid using demo_pstr by auto
  have "q \<in> {[0], [1, 1], [1], [1, 0]}" if "needed ?dep ?R q" for q
    using that
  proof (induction rule: needed.induct)
    case (needed_asked q)
    then show ?case unfolding R by blast
  next
    case (needed_above q i)
    then show ?case by (auto simp: append_eq_Cons_conv)
  next
    case (needed_ref q t)
    then show ?case unfolding demo_refers by blast
  qed
  moreover have "needed ?dep ?R [0]" "needed ?dep ?R [1, 1]" unfolding R by (auto intro: needed_asked)
  moreover from this have "needed ?dep ?R [1]" "needed ?dep ?R [1, 0]"
    using needed_above [of ?dep ?R "[1]" 1] needed_ref [of ?dep ?R "[0]" "[1, 0]"] demo_refers by simp_all
  ultimately have "{q. needed ?dep ?R q} = {[0], [1, 1], [1], [1, 0]}" by blast
  then show ?thesis using demo_pstr by auto
qed


end
