(* ===== verification/Spec2Isabelle.thy ===== *)
theory Spec2Isabelle
  imports RingBuffer VirtQueue VSwitch Bpmp_Use Clock MP_Feed MP_VRef Mmc_Card Mux Fdtgen_Gen
begin

text \<open>
  \<^bold>\<open>The seL4 project libraries, verified\<close>

  The repository is a collection of C libraries that user-level components of seL4 systems link against. This development has a model of the libraries
  that carry logic of their own and proves what their clients rely on. Paths below are relative to \<open>src/\<close>.

  \<^bold>\<open>The program and its parts.\<close>
  Components that share memory pass data by \<open>libringbuffer\<close>, bytes in a ring where a zero marks the next free slot; \<open>libvirtqueue\<close>, chains
  of buffers in a descriptor table with an available and a used ring; \<open>libvswitch\<close>, a table that finds the pair of virtqueues of a peer by
  its MAC address. \<open>libmsgpack\<close> serialises objects; its C part is a packer over a write callback, two buffers to pack into, memory zones, a
  parser driven by a table of callbacks, and a streaming parser on top of buffers with reference counts. \<open>libtx2bpmp\<close> talks to the power
  management processor of the Tegra X2: frames in shared memory (IVC), doorbells (HSP), and requests (BPMP) built from both.
  \<open>libplatsupportports\<close> has drivers for the same chip: pins, their multiplexer, and clocks and resets, which are BPMP requests.
  \<open>libsdhcdrivers\<close> has a host controller driver with a list of commands served by interrupts and, on top of it, a card driver.
  \<open>libfdtgen\<close> cuts a device tree down to the nodes a client asks for and what they depend on.

  \<^bold>\<open>Theories.\<close> \<open>Prelude\<close> has the types for machine words and bytes, checked access to lists (\<open>rd\<close>, \<open>wr\<close>), shared lemmas and the
  interface of first-in first-out channels. Then, one group of theories per library:

  \<^item> \<open>RingBuffer\<close>: \<open>libringbuffer/src/ringbuffer.c\<close>. The region is a list of bytes, a handle is a record. The channel is first-in first-out until the
    sender overruns; strings that are sent are received.
  \<^item> \<open>VirtQueue\<close>: \<open>libvirtqueue/src/virtqueue.c\<close>. The shared memory, the driver and the device are records. An invariant says that free list,
    available and used chains partition the descriptors; a chain of buffers travels to the device and back unchanged; both rings are queues; and the
    exact conditions under which the code fails, among them that a full ring looks empty and that a loop need not end.
  \<^item> \<open>VSwitch\<close>: \<open>libvswitch/src/vswitch.c\<close>. What is registered is found, no other entry changes, a full table refuses.
  \<^item> \<open>Ivc\<close>, \<open>Hsp\<close>, \<open>Bpmp\<close>, \<open>Bpmp_Use\<close>: \<open>libtx2bpmp/src/ivc.c\<close>, \<open>hsp.c\<close>, \<open>bpmp.c\<close>. The channel of frames is a bounded queue at all counter values;
    the handshake of two ends is safe and converges; a request is answered by the response to it; the driver is shared by a reference count; late
    responses and failed initialisations and what they break.
  \<^item> \<open>Clock\<close>, \<open>Gpio\<close>, \<open>Mux\<close>: \<open>libplatsupportports/src/plat/tx2/clock.c\<close>, \<open>reset.c\<close>, \<open>gpio.c\<close>, \<open>mux.c\<close>. The whole effect of obtaining a clock, of
    initialising a pin and of enabling a feature; all pin registers are mapped and different.
  \<^item> \<open>MP_Object\<close>, \<open>MP_Pack\<close>, \<open>MP_Buffer\<close>, \<open>MP_Unpack\<close>, \<open>MP_Zone\<close>, \<open>MP_Unpacker\<close>, \<open>MP_VRef\<close>: the C files under \<open>libmsgpack/msgpack-c\<close>:
    \<open>objectc.c\<close>, \<open>pack_template.h\<close>, \<open>sbuffer.h\<close>, \<open>unpack_template.h\<close> and \<open>unpack.c\<close>, \<open>zone.c\<close>, \<open>vrefbuffer.c\<close>. \<open>MP_Roundtrip\<close>, \<open>MP_Stream\<close>,
    \<open>MP_Client\<close> and \<open>MP_Feed\<close> relate them: what is packed is unpacked, up to the depth the parser has room for; data may arrive in any pieces; the parser
    never reads outside its data; zones hand out disjoint blocks; counts of buffers are exact, no freed buffer is used and none is leaked; and a stream of
    objects is delivered in order whatever the client does in between.
  \<^item> \<open>Sdhc\<close>, \<open>Sdhc_Queue\<close>, \<open>Mmc\<close>, \<open>Mmc_Card\<close>: \<open>libsdhcdrivers/src/sdhc.c\<close>, \<open>mmc.c\<close>. Commands are given to the controller once and in order; an
    interrupt decides the first command by its flags; blocking calls return on a controller that answers; transfers account for their memory; the capacity is
    that of the card register.
  \<^item> \<open>Fdtgen\<close>: \<open>libfdtgen/fdtgen.c\<close>, over the functions of \<open>libfdt\<close>. \<open>Fdtgen_Find\<close>: trees, what reading them promises, and the search for the nodes
    asked for. \<open>Fdtgen_Deps\<close>: the functions that call each other while dependencies are followed return for every tree, and with the search they keep the least set of nodes
    that has those asked for, the nodes above and the nodes referred to. \<open>Fdtgen_Trim\<close>: trimming, which starts again after every change, ends with the pruned tree.
    \<open>Fdtgen_Gen\<close>: from a new context to the generated tree.

  \<^bold>\<open>State, errors, loops.\<close> A function takes and returns the state it changes. \<open>None\<close> is undefined behaviour of C, a failed assertion, or a loop that
  does not end; error codes are values of a sum or an option, or numbers where the code computes with them. Machine integers are words of
  their width. Loops with a bound in the code are recursion over it (the polls of BPMP have the code's limit of two million); waiting loops are partial functions, or consume one observed
  state per turn; where a theorem says that such a function returns, the result \<open>Some\<close> is part of what is shown. No bound was chosen for the sake of a proof: the
  depth of the parser, the number of nodes of a switch and the sizes of frames and chunks are the code's.

  \<^bold>\<open>Interfaces.\<close> \<open>fifo_channel\<close> and its extension \<open>bounded_fifo\<close> (theory \<open>Prelude\<close>) say what a queue promises, and that sequences of operations refine those of a
  list; they are interpreted for the byte ring, the available and used rings, and IVC links. \<open>directory\<close> is a table of entries by key (the switch).
  \<open>byte_sink\<close> is what the packer asks of its callback (the simple buffer). \<open>parser_zone\<close> is what the parser asks of its memory and \<open>arena\<close> what a zone
  promises (the zones of \<open>zone.c\<close>). \<open>quiet_device\<close> is a controller observed through a log, and \<open>sdio_host\<close> what the card driver asks of a host
  controller (the driver of theory \<open>Sdhc\<close>).

  \<^bold>\<open>Parameters.\<close> Code that is not in the repository is an argument: the results of \<open>malloc\<close> by the number of the call; the platform library (memory,
  mappings, device tree, registration of interfaces, and its enumerations); the firmware of the other processor, which may act at every access to the shared
  memory; the hardware of the host controller; the functions of \<open>libfdt\<close> on flattened device trees. Theorems that depend on them have their documented behaviour as hypotheses, and a witness with a concrete instance.

  \<^bold>\<open>Concurrency.\<close> The two sides of a shared memory channel take turns in steps of one library call or, for IVC under BPMP, one access; orderings
  weaker than that, which the code leaves to fences and volatile accesses, are not modelled. Reference counts are changed by one thread.

  \<^bold>\<open>Not modelled.\<close> \<open>libjansson\<close>, the C++ headers of msgpack with its copies of Boost, and its file and compression buffers (\<open>fbuffer.h\<close>, \<open>zbuffer.h\<close>) are third-party code
  or thin calls of other libraries. \<open>libusbdrivers\<close> is dominated by the schedules of the EHCI controller, linked structures that the hardware walks at the same time, and
  by device protocols; a faithful model is a development of its own. \<open>libnfs\<close> is a submodule. The tables of clock and reset numbers (\<open>clock_bindings.c\<close>, \<open>reset_bindings.c\<close>) pair enumerations that are not in the repository;
  the platform files of \<open>libsdhcdrivers\<close> are constants and a mapping. Output for debugging and delays are left out everywhere.
\<close>

end
